(* ===== verification/Prelude.thy ===== *)
theory Prelude imports Main "HOL-Library.Word" begin

text \<open>
  Shared vocabulary of the development: the machine integers of the Rust sources as words,
  little- and big-endian byte codecs (the \<open>to_le_bytes\<close> / \<open>from_le_bytes\<close> family of the
  standard library) with one interface, \<open>fixed_codec\<close>, that carries their round trips,
  the slice operations (\<open>chunks\<close>, range indexing, \<open>VecDeque\<close> ring buffers) that several
  components use, and saturating arithmetic.
  Wall-clock instants and durations are natural numbers of nanoseconds; every read of the
  clock in the sources is an explicit \<open>now\<close> argument.
\<close>

unbundle bit_operations_syntax

named_theorems codec_simps \<open>lengths and round trips of byte codecs\<close>
named_theorems inv_intros \<open>invariant preservation, one rule per operation\<close>

type_synonym u8 = "8 word"
type_synonym u16 = "16 word"
type_synonym u32 = "32 word"
type_synonym u64 = "64 word"
type_synonym bytes = "8 word list"
type_synonym instant = nat
type_synonym duration = nat

abbreviation nanos_per_sec :: nat where "nanos_per_sec \<equiv> 1000000000"
abbreviation nanos_per_ms :: nat where "nanos_per_ms \<equiv> 1000000"
abbreviation nanos_per_us :: nat where "nanos_per_us \<equiv> 1000"

section \<open>Byte codecs\<close>

fun le_enc :: "nat \<Rightarrow> nat \<Rightarrow> bytes" where
  "le_enc 0 x = []"
| "le_enc (Suc n) x = of_nat (x mod 256) # le_enc n (x div 256)"

fun le_nat :: "bytes \<Rightarrow> nat" where
  "le_nat [] = 0"
| "le_nat (b # bs) = unat b + 256 * le_nat bs"

lemma unat_less_length: "unat (w :: 'a::len word) < 2 ^ LENGTH('a)"
  by (rule unsigned_less)

lemma length_le_enc [simp]: "length (le_enc n x) = n"
  by (induction n arbitrary: x) auto

lemma unat_byte_mod: "unat (of_nat (x mod 256) :: u8) = x mod 256"
  by (simp add: unat_of_nat)

lemma le_nat_le_enc: "le_nat (le_enc n x) = x mod 256 ^ n"
proof (induction n arbitrary: x)
  case 0
  show ?case by simp
next
  case (Suc n)
  have "le_nat (le_enc (Suc n) x) = x mod 256 + 256 * (x div 256 mod 256 ^ n)"
    by (simp add: Suc unat_byte_mod)
  also have "\<dots> = x mod 256 ^ Suc n"
    by (simp add: mod_mult2_eq)
  finally show ?case .
qed

lemma le_enc_le_nat: "length bs = n \<Longrightarrow> le_enc n (le_nat bs) = bs"
proof (induction bs arbitrary: n)
  case Nil
  then show ?case by simp
next
  case (Cons b bs)
  have "(unat b + 256 * le_nat bs) mod 256 = unat b"
    using unat_less_length [of b] by simp
  moreover have "(unat b + 256 * le_nat bs) div 256 = le_nat bs"
    using unat_less_length [of b] by simp
  ultimately show ?case using Cons by auto
qed

lemma le_nat_less: "le_nat bs < 256 ^ length bs"
proof (induction bs)
  case Nil
  show ?case by simp
next
  case (Cons b bs)
  have "unat b < 256" using unat_less_length [of b] by simp
  moreover have "256 * le_nat bs + 256 \<le> 256 * 256 ^ length bs"
    using Cons.IH by linarith
  ultimately show ?case by simp
qed

text \<open>\<open>to_le_bytes\<close>, \<open>to_be_bytes\<close> and their inverses at the widths the sources use.\<close>

definition u16_le :: "u16 \<Rightarrow> bytes" where "u16_le w = le_enc 2 (unat w)"
definition u32_le :: "u32 \<Rightarrow> bytes" where "u32_le w = le_enc 4 (unat w)"
definition u64_le :: "u64 \<Rightarrow> bytes" where "u64_le w = le_enc 8 (unat w)"
definition u16_be :: "u16 \<Rightarrow> bytes" where "u16_be w = rev (le_enc 2 (unat w))"
definition u32_be :: "u32 \<Rightarrow> bytes" where "u32_be w = rev (le_enc 4 (unat w))"

definition u16_of_le :: "bytes \<Rightarrow> u16" where "u16_of_le bs = of_nat (le_nat bs)"
definition u32_of_le :: "bytes \<Rightarrow> u32" where "u32_of_le bs = of_nat (le_nat bs)"
definition u64_of_le :: "bytes \<Rightarrow> u64" where "u64_of_le bs = of_nat (le_nat bs)"
definition u16_of_be :: "bytes \<Rightarrow> u16" where "u16_of_be bs = of_nat (le_nat (rev bs))"
definition u32_of_be :: "bytes \<Rightarrow> u32" where "u32_of_be bs = of_nat (le_nat (rev bs))"

text \<open>The contract every fixed-width codec keeps, and what follows from it.\<close>

locale fixed_codec =
  fixes enc :: "'a \<Rightarrow> bytes" and dec :: "bytes \<Rightarrow> 'a" and width :: nat
  assumes length_enc: "length (enc x) = width"
    and dec_enc: "dec (enc x) = x"
    and enc_dec: "length bs = width \<Longrightarrow> enc (dec bs) = bs"
begin

lemma inj: "enc x = enc y \<longleftrightarrow> x = y"
  by (metis dec_enc)

lemma take_enc: "take width (enc x @ rest) = enc x"
  by (simp add: length_enc)

lemma drop_enc: "drop width (enc x @ rest) = rest"
  by (simp add: length_enc)

lemma dec_prefix: "dec (take width (enc x @ rest)) = x"
  by (simp add: length_enc dec_enc)

lemma ex_enc: "length bs = width \<Longrightarrow> \<exists>x. bs = enc x"
  by (metis enc_dec)

end

lemma word_le_roundtrip:
  fixes w :: "'a::len word"
  assumes "LENGTH('a) = 8 * n"
  shows "(of_nat (le_nat (le_enc n (unat w))) :: 'a word) = w"
proof -
  have "(256::nat) ^ n = 2 ^ LENGTH('a)" using assms by (simp add: power_mult)
  then show ?thesis using unat_less_length [of w] by (simp add: le_nat_le_enc)
qed

lemma le_word_roundtrip:
  assumes "LENGTH('a::len) = 8 * n" and "length bs = n"
  shows "le_enc n (unat (of_nat (le_nat bs) :: 'a word)) = bs"
proof -
  have "(256::nat) ^ n = 2 ^ LENGTH('a)" using assms(1) by (simp add: power_mult)
  then have "unat (of_nat (le_nat bs) :: 'a word) = le_nat bs"
    using le_nat_less [of bs] assms(2) by (simp add: unat_of_nat)
  then show ?thesis using assms(2) by (simp add: le_enc_le_nat)
qed

interpretation c16le: fixed_codec u16_le u16_of_le 2
  by unfold_locales (simp_all add: u16_le_def u16_of_le_def word_le_roundtrip le_word_roundtrip)

interpretation c32le: fixed_codec u32_le u32_of_le 4
  by unfold_locales (simp_all add: u32_le_def u32_of_le_def word_le_roundtrip le_word_roundtrip)

interpretation c64le: fixed_codec u64_le u64_of_le 8
  by unfold_locales (simp_all add: u64_le_def u64_of_le_def word_le_roundtrip le_word_roundtrip)

interpretation c16be: fixed_codec u16_be u16_of_be 2
  by unfold_locales
    (simp_all add: u16_be_def u16_of_be_def word_le_roundtrip le_word_roundtrip flip: rev_swap)

interpretation c32be: fixed_codec u32_be u32_of_be 4
  by unfold_locales
    (simp_all add: u32_be_def u32_of_be_def word_le_roundtrip le_word_roundtrip flip: rev_swap)

lemmas codec_lengths [simp, codec_simps] =
  c16le.length_enc c32le.length_enc c64le.length_enc c16be.length_enc c32be.length_enc
lemmas codec_inverses [simp, codec_simps] =
  c16le.dec_enc c32le.dec_enc c64le.dec_enc c16be.dec_enc c32be.dec_enc

section \<open>Slices and chunks\<close>

text \<open>\<open>&xs[a..b]\<close> for \<open>a \<le> b \<le> xs.len()\<close> (the sources check the length first).\<close>

definition sub_range :: "'a list \<Rightarrow> nat \<Rightarrow> nat \<Rightarrow> 'a list" where
  "sub_range xs a b = take (b - a) (drop a xs)"

lemma length_sub_range [simp]: "b \<le> length xs \<Longrightarrow> length (sub_range xs a b) = b - a"
  by (simp add: sub_range_def)

lemma sub_range_append_skip:
  "length ys = n \<Longrightarrow> n \<le> a \<Longrightarrow> sub_range (ys @ zs) a b = sub_range zs (a - n) (b - n)"
  by (simp add: sub_range_def)

lemma sub_range_append_take:
  "a = 0 \<Longrightarrow> length ys = b \<Longrightarrow> sub_range (ys @ zs) a b = ys"
  by (simp add: sub_range_def)

lemma sub_range_nth:
  "a + i < b \<Longrightarrow> b \<le> length xs \<Longrightarrow> sub_range xs a b ! i = xs ! (a + i)"
  by (simp add: sub_range_def)

lemma take_sub_range: "a + n \<le> b \<Longrightarrow> take n (sub_range xs a b) = sub_range xs a (a + n)"
  by (simp add: sub_range_def min_def)

lemma drop_sub_range: "drop n (sub_range xs a b) = sub_range xs (a + n) b"
  by (simp add: sub_range_def drop_take add.commute)

lemma sub_range_split:
  "a \<le> b \<Longrightarrow> b \<le> c \<Longrightarrow> sub_range xs a c = sub_range xs a b @ sub_range xs b c"
proof -
  assume "a \<le> b" "b \<le> c"
  then have "c - a = (b - a) + (c - b)" and "b = (b - a) + a" by simp_all
  then show ?thesis unfolding sub_range_def by (metis drop_drop take_add)
qed

text \<open>An array of equally wide fields, read back field by field.\<close>

context fixed_codec begin

lemma length_concat_enc: "length (concat (map enc xs)) = width * length xs"
  by (induction xs) (simp_all add: length_enc)

lemma field_at:
  "i < length xs \<Longrightarrow> sub_range (concat (map enc xs) @ rest) (width * i) (width * i + width) = enc (xs ! i)"
proof (induction xs arbitrary: i)
  case Nil
  then show ?case by simp
next
  case (Cons x xs)
  show ?case
  proof (cases i)
    case 0
    then show ?thesis by (simp add: sub_range_def length_enc)
  next
    case (Suc j)
    with Cons.IH [of j] Cons.prems show ?thesis
      by (simp add: sub_range_append_skip length_enc add.commute)
  qed
qed

lemma dec_field_at:
  "i < length xs \<Longrightarrow> dec (sub_range (concat (map enc xs) @ rest) (width * i) (width * i + width)) = xs ! i"
  by (simp add: field_at dec_enc)

lemma concat_fields:
  "length bs = width * n \<Longrightarrow>
   concat (map enc (map (\<lambda>i. dec (sub_range bs (width * i) (width * i + width))) [0..<n])) = bs"
proof (induction n arbitrary: bs)
  case 0
  then show ?case by simp
next
  case (Suc n)
  let ?a = "take (width * n) bs" and ?b = "drop (width * n) bs"
  have len: "length ?a = width * n" "length ?b = width" using Suc.prems by simp_all
  have H: "map (\<lambda>i. dec (sub_range bs (width * i) (width * i + width))) [0..<n] =
      map (\<lambda>i. dec (sub_range ?a (width * i) (width * i + width))) [0..<n]"
  proof (rule map_cong [OF refl])
    fix i
    assume "i \<in> set [0..<n]"
    then have "Suc i \<le> n" by simp
    then have "width * Suc i \<le> width * n" by (rule mult_le_mono2)
    then have "width * i + width \<le> width * n" by simp
    then show "dec (sub_range bs (width * i) (width * i + width)) =
        dec (sub_range ?a (width * i) (width * i + width))"
      by (simp add: sub_range_def drop_take min_def)
  qed
  have "concat (map enc (map (\<lambda>i. dec (sub_range bs (width * i) (width * i + width))) [0..<n])) = ?a"
    unfolding H by (rule Suc.IH [OF len(1)])
  moreover have "sub_range bs (width * n) (width * n + width) = ?b"
    using len(2) by (simp add: sub_range_def)
  ultimately show ?case using len(2) by (simp add: enc_dec)
qed

end

text \<open>\<open>[T]::chunks(n)\<close>, for \<open>n > 0\<close> (a zero chunk size panics in Rust; the sources use constants).\<close>

function chunks :: "nat \<Rightarrow> 'a list \<Rightarrow> 'a list list" where
  "chunks n xs = (if n = 0 \<or> xs = [] then [] else take n xs # chunks n (drop n xs))"
  by pat_completeness auto
termination by (relation "measure (\<lambda>(n, xs). length xs)") auto

declare chunks.simps [simp del]

lemma chunks_Nil [simp]: "chunks n [] = []"
  by (subst chunks.simps) simp

lemma chunks_step: "0 < n \<Longrightarrow> xs \<noteq> [] \<Longrightarrow> chunks n xs = take n xs # chunks n (drop n xs)"
  by (subst chunks.simps) simp

lemma concat_chunks: "0 < n \<Longrightarrow> concat (chunks n xs) = xs"
proof (induction n xs rule: chunks.induct)
  case (1 n xs)
  then show ?case by (cases "xs = []") (simp_all add: chunks_step)
qed

lemma chunks_nonempty: "0 < n \<Longrightarrow> chunks n xs = [] \<longleftrightarrow> xs = []"
  by (cases "xs = []") (simp_all add: chunks_step)

lemma chunks_length_le: "c \<in> set (chunks n xs) \<Longrightarrow> 0 < length c \<and> length c \<le> n"
proof (induction n xs rule: chunks.induct)
  case (1 n xs)
  then show ?case
    by (cases "n = 0 \<or> xs = []") (auto simp: chunks_step chunks.simps [of n xs])
qed

text \<open>\<open>usize::div_ceil\<close>.\<close>

definition div_ceil :: "nat \<Rightarrow> nat \<Rightarrow> nat" where
  "div_ceil a b = (if a mod b = 0 then a div b else a div b + 1)"

lemma div_ceil_le_iff: "0 < b \<Longrightarrow> div_ceil a b \<le> n \<longleftrightarrow> a \<le> n * b"
proof -
  assume b: "0 < b"
  have a: "a = a div b * b + a mod b" and m: "a mod b < b" using b by simp_all
  show ?thesis
  proof (cases "a mod b = 0")
    case True
    then have "a = a div b * b" using a by simp
    then show ?thesis using b True
      by (metis div_ceil_def div_le_mono div_mult_self_is_m mult_le_mono1)
  next
    case False
    have "a div b + 1 \<le> n \<longleftrightarrow> a \<le> n * b"
    proof
      assume "a div b + 1 \<le> n"
      then have "(a div b + 1) * b \<le> n * b" by (rule mult_le_mono1)
      with a m show "a \<le> n * b" by (metis add_le_mono1 add_mult_distrib le_trans less_imp_le
          mult_1 nat_add_left_cancel_le)
    next
      assume "a \<le> n * b"
      moreover have "a div b * b < a" using a False by linarith
      ultimately have "a div b * b < n * b" by linarith
      then show "a div b + 1 \<le> n" by simp
    qed
    with False show ?thesis by (simp add: div_ceil_def)
  qed
qed

lemma div_ceil_mono: "0 < b \<Longrightarrow> a \<le> a' \<Longrightarrow> div_ceil a b \<le> div_ceil a' b"
  using div_ceil_le_iff [of b a "div_ceil a' b"] div_ceil_le_iff [of b a' "div_ceil a' b"] by simp

lemma length_chunks: "0 < n \<Longrightarrow> length (chunks n xs) = div_ceil (length xs) n"
proof (induction n xs rule: chunks.induct)
  case (1 n xs)
  show ?case
  proof (cases "xs = []")
    case True
    then show ?thesis by (simp add: div_ceil_def)
  next
    case False
    with 1 have IH: "length (chunks n (drop n xs)) = div_ceil (length xs - n) n" by simp
    show ?thesis
    proof (cases "length xs < n")
      case True
      with False 1 IH show ?thesis by (simp add: chunks_step div_ceil_def)
    next
      case F2: False
      then have "length xs = n + (length xs - n)" by simp
      then have "div_ceil (length xs) n = Suc (div_ceil (length xs - n) n)"
        using 1(2) by (metis add_Suc add_diff_cancel_left' div_add_self1 div_ceil_def mod_add_self1
            Suc_eq_plus1 less_not_refl)
      with False 1 IH show ?thesis by (simp add: chunks_step)
    qed
  qed
qed

section \<open>Ring buffers\<close>

text \<open>
  The bounded queues of the sources: drop the oldest entry when the buffer is full, then append.
  The guard is \<open>buffer.len() >= max\<close>; \<open>pop_front\<close> of an empty deque does nothing.
\<close>

definition push_bounded :: "nat \<Rightarrow> 'a list \<Rightarrow> 'a \<Rightarrow> 'a list" where
  "push_bounded n buf x = (if n \<le> length buf then tl buf else buf) @ [x]"

lemma push_bounded_last [simp]: "last (push_bounded n buf x) = x"
  by (simp add: push_bounded_def)

lemma push_bounded_nonempty [simp]: "push_bounded n buf x \<noteq> []"
  by (simp add: push_bounded_def)

lemma push_bounded_length:
  "length buf \<le> max 1 n \<Longrightarrow> length (push_bounded n buf x) \<le> max 1 n"
  by (auto simp: push_bounded_def)

lemma push_bounded_suffix:
  "0 < n \<Longrightarrow> length buf \<le> n \<Longrightarrow>
   push_bounded n buf x = drop (length buf + 1 - n) (buf @ [x])"
  by (cases "length buf = n") (auto simp: push_bounded_def drop_Suc not_le)

section \<open>Saturating arithmetic\<close>

definition sat_add_u8 :: "u8 \<Rightarrow> u8 \<Rightarrow> u8" where
  "sat_add_u8 a b = (if unat a + unat b < 256 then a + b else 255)"

definition sat_add_u32 :: "u32 \<Rightarrow> u32 \<Rightarrow> u32" where
  "sat_add_u32 a b = (if unat a + unat b < 2 ^ 32 then a + b else 4294967295)"

lemma unat_sat_add_u8: "unat (sat_add_u8 a b) = min 255 (unat a + unat b)"
  by (auto simp: sat_add_u8_def unat_word_ariths)

lemma unat_sat_add_u32: "unat (sat_add_u32 a b) = min (2 ^ 32 - 1) (unat a + unat b)"
  by (auto simp: sat_add_u32_def unat_word_ariths)

end
