(* ===== verification/IeeeFloat.thy ===== *)
theory IeeeFloat imports Complex_Main Prelude begin

text \<open>
  Rust's \<open>f32\<close> and \<open>f64\<close>: IEEE 754 binary32 and binary64 with round-to-nearest, ties to even.
  A value is NaN, an infinity or a rational; \<open>rnd F x\<close> is the correctly rounded value of \<open>x\<close>
  in the format \<open>F\<close> (gradual underflow and overflow to infinity included), and every
  operation rounds its exact result, as the standard prescribes. Everything computes.
  NaN payloads and the sign of a zero are not represented: no modelled code looks at either
  (bytes that travel unread keep their 32 bits, see \<open>f32_of_bits\<close>).
  The interface \<open>float_format\<close> states what a format must satisfy, its lemmas (monotone,
  exact on representable numbers, bounded by representable bounds) carry every numeric proof
  of the development, and both formats interpret it.
\<close>

section \<open>Binary exponents\<close>

function ilog :: "int \<Rightarrow> int" where
  "ilog n = (if n < 2 then 0 else 1 + ilog (n div 2))"
  by pat_completeness auto
termination by (relation "measure nat") auto

declare ilog.simps [simp del]

definition pow2 :: "int \<Rightarrow> rat" where
  "pow2 e = (if 0 \<le> e then of_int (2 ^ nat e) else 1 / of_int (2 ^ nat (- e)))"

definition ilog2 :: "rat \<Rightarrow> int" where
  "ilog2 x = (let (a, b) = quotient_of x; e = ilog a - ilog b
              in if pow2 e \<le> x then e else e - 1)"

lemma pow2_powi: "pow2 e = 2 powi e"
proof (cases "0 \<le> e")
  case True
  then show ?thesis by (simp add: pow2_def power_int_def)
next
  case False
  then have "2 powi e = inverse (2 :: rat) ^ nat (- e)" by (simp add: power_int_def)
  also have "\<dots> = 1 / of_int (2 ^ nat (- e))"
    by (simp add: inverse_eq_divide power_one_over)
  finally show ?thesis using False by (simp add: pow2_def)
qed

lemma pow2_pos [simp]: "0 < pow2 e"
  by (simp add: pow2_def)

lemma pow2_nonzero [simp]: "pow2 e \<noteq> 0"
  using pow2_pos [of e] by linarith

lemma pow2_nonneg [simp]: "0 \<le> pow2 e"
  using pow2_pos [of e] by linarith

lemma pow2_0 [simp]: "pow2 0 = 1"
  by (simp add: pow2_def)

lemma pow2_add: "pow2 (a + b) = pow2 a * pow2 b"
  by (simp add: pow2_powi power_int_add)

lemma pow2_diff: "pow2 (a - b) = pow2 a / pow2 b"
  by (simp add: pow2_powi power_int_diff)

lemma pow2_succ: "pow2 (e + 1) = 2 * pow2 e"
  by (simp add: pow2_add) (simp add: pow2_def)

lemma pow2_nat: "0 \<le> e \<Longrightarrow> pow2 e = of_int (2 ^ nat e)"
  by (simp add: pow2_def)

lemma pow2_mono: "a \<le> b \<Longrightarrow> pow2 a \<le> pow2 b"
  by (simp add: pow2_powi power_int_increasing)

lemma pow2_less_iff: "pow2 a < pow2 b \<longleftrightarrow> a < b"
  by (metis linorder_not_less pow2_mono pow2_powi power_int_strict_increasing one_less_numeral_iff
      semiring_norm(76))

lemma pow2_le_iff: "pow2 a \<le> pow2 b \<longleftrightarrow> a \<le> b"
  using pow2_less_iff [of b a] by (auto simp: not_less [symmetric])

lemma ilog_nonneg: "0 \<le> ilog n"
  by (induction n rule: ilog.induct) (subst ilog.simps, simp)

lemma ilog_bounds: "0 < n \<Longrightarrow> 2 ^ nat (ilog n) \<le> n \<and> n < 2 * 2 ^ nat (ilog n)"
proof (induction n rule: ilog.induct)
  case (1 n)
  show ?case
  proof (cases "n < 2")
    case True
    with 1(2) show ?thesis by (subst (1 2) ilog.simps) simp
  next
    case False
    with 1 have IH: "2 ^ nat (ilog (n div 2)) \<le> n div 2" "n div 2 < 2 * 2 ^ nat (ilog (n div 2))"
      by auto
    have "nat (ilog n) = Suc (nat (ilog (n div 2)))"
      using False ilog_nonneg [of "n div 2"] by (subst ilog.simps) simp
    with IH show ?thesis by simp linarith
  qed
qed

lemma ilog_rat_bounds:
  assumes "0 < n"
  shows "pow2 (ilog n) \<le> of_int n" and "(of_int n :: rat) < 2 * pow2 (ilog n)"
proof -
  have p: "pow2 (ilog n) = of_int (2 ^ nat (ilog n))" by (simp add: pow2_nat ilog_nonneg)
  have "(of_int (2 ^ nat (ilog n)) :: rat) \<le> of_int n"
    using ilog_bounds [OF assms] by (simp only: of_int_le_iff)
  then show "pow2 (ilog n) \<le> of_int n" by (simp only: p)
  have "(of_int n :: rat) < of_int (2 * 2 ^ nat (ilog n))"
    using ilog_bounds [OF assms] by (simp only: of_int_less_iff)
  then show "(of_int n :: rat) < 2 * pow2 (ilog n)" by (simp only: p of_int_mult of_int_numeral)
qed

lemma ilog2_bounds:
  assumes "0 < x"
  shows "pow2 (ilog2 x) \<le> x \<and> x < pow2 (ilog2 x + 1)"
proof -
  obtain a b where q: "quotient_of x = (a, b)" by (cases "quotient_of x")
  then have x: "x = of_int a / of_int b" and b: "0 < b"
    by (auto simp: quotient_of_div quotient_of_denom_pos)
  with assms have a: "0 < a" by (simp add: zero_less_divide_iff)
  let ?e = "ilog a - ilog b"
  note A = ilog_rat_bounds [OF a] and B = ilog_rat_bounds [OF b]
  have bp: "0 < (of_int b :: rat)" using b by simp
  have lo: "pow2 ?e / 2 < x"
  proof -
    have "pow2 (ilog a) * of_int b < of_int a * (2 * pow2 (ilog b))"
      using A(1) B(2) a b by (intro mult_le_less_imp_less) auto
    then show ?thesis using bp by (simp add: x pow2_diff field_simps)
  qed
  have hi: "x < pow2 (?e + 1)"
  proof -
    have "of_int a * pow2 (ilog b) < 2 * pow2 (ilog a) * of_int b"
      using A(2) B(1) a b by (intro mult_less_le_imp_less) auto
    then have "of_int a * pow2 (ilog b) < pow2 (ilog a + 1) * of_int b" by (simp only: pow2_succ)
    then have "of_int a / of_int b < pow2 (ilog a + 1) / pow2 (ilog b)"
      using bp by (simp add: divide_simps mult.commute)
    moreover have "pow2 (?e + 1) = pow2 (ilog a + 1) / pow2 (ilog b)"
      by (simp add: pow2_diff [symmetric] algebra_simps)
    ultimately show ?thesis by (simp only: x)
  qed
  have "pow2 (?e - 1) = pow2 ?e / 2"
    by (simp add: pow2_diff) (simp add: pow2_def)
  with lo hi show ?thesis by (auto simp: ilog2_def q not_le Let_def)
qed

lemma ilog2_unique:
  assumes "pow2 k \<le> x" and "x < pow2 (k + 1)"
  shows "ilog2 x = k"
proof -
  have "0 < x" using assms(1) pow2_pos [of k] by linarith
  note ilog2_bounds [OF this]
  with assms have "pow2 k < pow2 (ilog2 x + 1)" "pow2 (ilog2 x) < pow2 (k + 1)" by linarith+
  then show ?thesis by (simp add: pow2_less_iff)
qed

lemma ilog2_le_iff: "0 < x \<Longrightarrow> k \<le> ilog2 x \<longleftrightarrow> pow2 k \<le> x"
proof
  assume x: "0 < x" and "k \<le> ilog2 x"
  then show "pow2 k \<le> x" using ilog2_bounds [OF x] pow2_mono [of k "ilog2 x"] by linarith
next
  assume x: "0 < x" and "pow2 k \<le> x"
  then have "pow2 k < pow2 (ilog2 x + 1)" using ilog2_bounds [OF x] by linarith
  then show "k \<le> ilog2 x" by (simp add: pow2_less_iff)
qed

lemma ilog2_mono: "0 < x \<Longrightarrow> x \<le> y \<Longrightarrow> ilog2 x \<le> ilog2 y"
  using ilog2_bounds [of x] by (subst ilog2_le_iff) auto

section \<open>Rounding to an integer, ties to even\<close>

definition rne :: "rat \<Rightarrow> int" where
  "rne x = (let f = \<lfloor>x\<rfloor>; d = x - of_int f in
     if d < 1 / 2 then f else if 1 / 2 < d then f + 1 else if even f then f else f + 1)"

lemma rne_of_int [simp]: "rne (of_int k) = k"
  by (simp add: rne_def)

lemma rne_floor_cases: "rne x = \<lfloor>x\<rfloor> \<or> rne x = \<lfloor>x\<rfloor> + 1"
  by (auto simp: rne_def Let_def)

lemma rne_mono: "x \<le> y \<Longrightarrow> rne x \<le> rne y"
proof -
  assume xy: "x \<le> y"
  then have f: "\<lfloor>x\<rfloor> \<le> \<lfloor>y\<rfloor>" by (rule floor_mono)
  show ?thesis
  proof (cases "\<lfloor>x\<rfloor> = \<lfloor>y\<rfloor>")
    case True
    with xy show ?thesis by (auto simp: rne_def Let_def)
  next
    case False
    with f show ?thesis using rne_floor_cases [of x] rne_floor_cases [of y] by linarith
  qed
qed

lemma rne_minus: "rne (- x) = - rne x"
proof (cases "x = of_int \<lfloor>x\<rfloor>")
  case True
  then show ?thesis by (metis of_int_minus rne_of_int)
next
  case False
  have lt: "of_int \<lfloor>x\<rfloor> < x" "x < of_int \<lfloor>x\<rfloor> + 1"
    using False by linarith+
  then have "\<lfloor>- x\<rfloor> = - \<lfloor>x\<rfloor> - 1" by (intro floor_unique) auto
  with lt show ?thesis by (auto simp: rne_def Let_def)
qed

lemma rne_error: "\<bar>x - of_int (rne x)\<bar> \<le> 1 / 2"
proof -
  have "of_int \<lfloor>x\<rfloor> \<le> x" "x < of_int \<lfloor>x\<rfloor> + 1" by linarith+
  then show ?thesis by (auto simp: rne_def Let_def abs_le_iff)
qed


section \<open>Formats and rounding\<close>

text \<open>\<open>prec\<close>: significand bits; \<open>qmin\<close>: exponent of the smallest quantum; \<open>emax\<close>: largest exponent.\<close>

record fmt =
  prec :: int
  qmin :: int
  emax :: int

datatype fl = NaN | PInf | NInf | Fin rat

definition b32 :: fmt where "b32 = \<lparr>prec = 24, qmin = -149, emax = 127\<rparr>"
definition b64 :: fmt where "b64 = \<lparr>prec = 53, qmin = -1074, emax = 1023\<rparr>"

definition quantum :: "fmt \<Rightarrow> rat \<Rightarrow> int" where
  "quantum F x = max (ilog2 \<bar>x\<bar> - (prec F - 1)) (qmin F)"

definition rnd_unbounded :: "fmt \<Rightarrow> rat \<Rightarrow> rat" where
  "rnd_unbounded F x =
     (if x = 0 then 0 else of_int (rne (x / pow2 (quantum F x))) * pow2 (quantum F x))"

definition rnd :: "fmt \<Rightarrow> rat \<Rightarrow> fl" where
  "rnd F x = (let r = rnd_unbounded F x in
     if r \<noteq> 0 \<and> emax F < ilog2 \<bar>r\<bar> then (if 0 < r then PInf else NInf) else Fin r)"

text \<open>The value is a number of the format: rounding leaves it alone.\<close>

definition is_float :: "fmt \<Rightarrow> rat \<Rightarrow> bool" where
  "is_float F x \<longleftrightarrow> rnd F x = Fin x"

lemma rnd_unbounded_0 [simp]: "rnd_unbounded F 0 = 0"
  by (simp add: rnd_unbounded_def)

lemma rnd_0 [simp]: "rnd F 0 = Fin 0"
  by (simp add: rnd_def)

lemma rnd_not_NaN [simp]: "rnd F x \<noteq> NaN"
  by (simp add: rnd_def Let_def)

lemma quantum_minus: "quantum F (- x) = quantum F x"
  by (simp add: quantum_def)

lemma rnd_unbounded_minus: "rnd_unbounded F (- x) = - rnd_unbounded F x"
  using rne_minus [of "x / pow2 (quantum F x)"]
  by (simp add: rnd_unbounded_def quantum_minus)

lemma rnd_overflow_iff:
  "r \<noteq> 0 \<and> emax F < ilog2 \<bar>r\<bar> \<longleftrightarrow> pow2 (emax F + 1) \<le> \<bar>r\<bar>"
proof (cases "r = 0")
  case True
  then show ?thesis using pow2_pos [of "emax F + 1"] by (simp add: not_le)
next
  case False
  then have "emax F + 1 \<le> ilog2 \<bar>r\<bar> \<longleftrightarrow> pow2 (emax F + 1) \<le> \<bar>r\<bar>"
    by (intro ilog2_le_iff) simp
  with False show ?thesis by linarith
qed

lemma rnd_cases:
  "rnd F x = (if pow2 (emax F + 1) \<le> rnd_unbounded F x then PInf
    else if rnd_unbounded F x \<le> - pow2 (emax F + 1) then NInf else Fin (rnd_unbounded F x))"
proof -
  have p: "0 < pow2 (emax F + 1)" by simp
  let ?r = "rnd_unbounded F x"
  consider "pow2 (emax F + 1) \<le> ?r" | "?r \<le> - pow2 (emax F + 1)" | "\<bar>?r\<bar> < pow2 (emax F + 1)"
    by linarith
  then show ?thesis
  proof cases
    case 1
    then have "pow2 (emax F + 1) \<le> \<bar>?r\<bar>" "0 < ?r" using p by linarith+
    with 1 show ?thesis unfolding rnd_def Let_def rnd_overflow_iff by simp
  next
    case 2
    then have "pow2 (emax F + 1) \<le> \<bar>?r\<bar>" "\<not> 0 < ?r" "\<not> pow2 (emax F + 1) \<le> ?r"
      using p by linarith+
    with 2 show ?thesis unfolding rnd_def Let_def rnd_overflow_iff by simp
  next
    case 3
    then have "\<not> pow2 (emax F + 1) \<le> \<bar>?r\<bar>" "\<not> pow2 (emax F + 1) \<le> ?r" "\<not> ?r \<le> - pow2 (emax F + 1)"
      by linarith+
    then show ?thesis unfolding rnd_def Let_def rnd_overflow_iff by simp
  qed
qed

text \<open>IEEE comparisons: false when either side is NaN.\<close>

instantiation fl :: ord
begin

fun less_eq_fl :: "fl \<Rightarrow> fl \<Rightarrow> bool" where
  "less_eq_fl NaN y = False"
| "less_eq_fl x NaN = False"
| "less_eq_fl NInf y = True"
| "less_eq_fl x PInf = True"
| "less_eq_fl (Fin a) (Fin b) = (a \<le> b)"
| "less_eq_fl (Fin a) NInf = False"
| "less_eq_fl PInf NInf = False"
| "less_eq_fl PInf (Fin b) = False"

definition less_fl :: "fl \<Rightarrow> fl \<Rightarrow> bool" where
  "less_fl x y \<longleftrightarrow> x \<le> y \<and> \<not> y \<le> x"

instance ..

end

lemma fl_less_simps [simp]:
  "\<not> NaN < y" "\<not> x < NaN" "Fin a < Fin b \<longleftrightarrow> a < b" "Fin a < PInf" "NInf < Fin a"
  "NInf < PInf" "\<not> PInf < x" "\<not> x < NInf"
  by (cases x; cases y; auto simp: less_fl_def)+

lemma fl_le_simps [simp]:
  "\<not> x \<le> NaN" "NInf \<le> Fin a" "NInf \<le> NInf" "NInf \<le> PInf" "x \<noteq> NaN \<Longrightarrow> x \<le> PInf"
  "\<not> PInf \<le> Fin a" "\<not> Fin a \<le> NInf"
  by (cases x; simp)+

lemma fl_not_less: "x \<noteq> NaN \<Longrightarrow> y \<noteq> NaN \<Longrightarrow> \<not> x < y \<longleftrightarrow> y \<le> x" for x y :: fl
  by (cases x; cases y; auto simp: less_fl_def)

lemma fl_le_refl: "x \<noteq> NaN \<Longrightarrow> x \<le> x" for x :: fl
  by (cases x; simp)

lemma fl_le_trans: "x \<le> y \<Longrightarrow> y \<le> z \<Longrightarrow> x \<le> z" for x y z :: fl
  by (cases x; cases y; cases z; simp)

text \<open>What a format must satisfy, and the facts that carry the numeric proofs.\<close>

locale float_format =
  fixes F :: fmt
  assumes prec_pos: "1 < prec F" and prec_le: "prec F \<le> emax F" and qmin_neg: "qmin F \<le> 0"
begin

lemma rne_scaled_le: "x \<le> of_int k * pow2 e \<Longrightarrow> of_int (rne (x / pow2 e)) * pow2 e \<le> of_int k * pow2 e"
  using rne_mono [of "x / pow2 e" "of_int k"] by (simp add: field_simps)

lemma rne_scaled_ge: "of_int k * pow2 e \<le> x \<Longrightarrow> of_int k * pow2 e \<le> of_int (rne (x / pow2 e)) * pow2 e"
  using rne_mono [of "of_int k" "x / pow2 e"] by (simp add: field_simps)

lemma rnd_unbounded_mono_pos:
  assumes "0 < x" and "x \<le> y"
  shows "rnd_unbounded F x \<le> rnd_unbounded F y"
proof -
  let ?e = "quantum F x" and ?d = "quantum F y"
  have le: "?e \<le> ?d" using ilog2_mono [OF assms] assms by (auto simp: quantum_def)
  show ?thesis
  proof (cases "?e = ?d")
    case True
    have "rne (x / pow2 ?d) \<le> rne (y / pow2 ?d)"
      using assms by (intro rne_mono divide_right_mono) auto
    with True assms show ?thesis by (simp add: rnd_unbounded_def)
  next
    case False
    let ?p = "prec F - 1"
    have d: "?d = ilog2 y - ?p" using False le assms by (auto simp: quantum_def split: if_splits)
    have e: "ilog2 x - ?p \<le> ?e" using assms by (simp add: quantum_def)
    have m: "pow2 (?p + 1) = of_int (2 ^ nat (?p + 1))" "pow2 ?p = of_int (2 ^ nat ?p)"
      using prec_pos by (simp_all add: pow2_nat)
    have "x \<le> pow2 (?p + 1) * pow2 ?e"
    proof -
      have "x \<le> pow2 (ilog2 x + 1)" using ilog2_bounds [OF assms(1)] by simp
      also have "\<dots> \<le> pow2 (?p + 1 + ?e)" using e by (intro pow2_mono) linarith
      finally show ?thesis by (simp add: pow2_add)
    qed
    then have "rnd_unbounded F x \<le> pow2 (?p + 1) * pow2 ?e"
      unfolding m using rne_scaled_le [of x] assms(1) by (simp add: rnd_unbounded_def del: of_int_power)
    also have "\<dots> \<le> pow2 ?p * pow2 ?d"
      unfolding pow2_add [symmetric] using le False by (intro pow2_mono) linarith
    also have "\<dots> \<le> rnd_unbounded F y"
    proof -
      have "pow2 ?p * pow2 ?d \<le> y"
        using ilog2_bounds [of y] assms by (simp add: d pow2_add [symmetric])
      then show ?thesis unfolding m using rne_scaled_ge [of _ ?d y] assms
        by (simp add: rnd_unbounded_def del: of_int_power)
    qed
    finally show ?thesis .
  qed
qed

lemma rnd_unbounded_nonneg: "0 \<le> x \<Longrightarrow> 0 \<le> rnd_unbounded F x"
  using rne_mono [of 0 "x / pow2 (quantum F x)"] rne_of_int [of 0]
  by (auto simp: rnd_unbounded_def)

lemma rnd_unbounded_mono: "x \<le> y \<Longrightarrow> rnd_unbounded F x \<le> rnd_unbounded F y"
proof -
  assume xy: "x \<le> y"
  consider "0 < x" | "y < 0" | "x \<le> 0" "0 \<le> y" by linarith
  then show ?thesis
  proof cases
    case 1
    then show ?thesis using xy by (rule rnd_unbounded_mono_pos)
  next
    case 2
    with xy rnd_unbounded_mono_pos [of "- y" "- x"] show ?thesis by (simp add: rnd_unbounded_minus)
  next
    case 3
    with rnd_unbounded_nonneg [of y] rnd_unbounded_nonneg [of "- x"]
    show ?thesis by (simp add: rnd_unbounded_minus)
  qed
qed

lemma rnd_mono: "x \<le> y \<Longrightarrow> rnd F x \<le> rnd F y"
  using rnd_unbounded_mono [of x y] pow2_pos [of "emax F + 1"] by (auto simp: rnd_cases)

lemma rnd_unbounded_dyadic:
  assumes x: "x = of_int m * pow2 e" and m: "\<bar>m\<bar> \<le> 2 ^ nat (prec F)" and e: "qmin F \<le> e"
  shows "rnd_unbounded F x = x"
proof (cases "x = 0")
  case True
  then show ?thesis by simp
next
  case False
  show ?thesis
  proof (cases "quantum F x \<le> e")
    case True
    let ?q = "quantum F x"
    have x2: "x = of_int (m * 2 ^ nat (e - ?q)) * pow2 ?q"
    proof -
      have "pow2 e = pow2 (e - ?q) * pow2 ?q" by (simp add: pow2_add [symmetric])
      then show ?thesis using True by (simp add: x pow2_nat)
    qed
    then have "x / pow2 ?q = of_int (m * 2 ^ nat (e - ?q))"
      by (metis nonzero_mult_div_cancel_right pow2_nonzero)
    then have "rne (x / pow2 ?q) = m * 2 ^ nat (e - ?q)" by (simp only: rne_of_int)
    then show ?thesis using False x2 by (simp add: rnd_unbounded_def)
  next
    case F: False
    have px: "0 < \<bar>x\<bar>" using False by simp
    have "\<bar>x\<bar> \<le> pow2 (prec F + e)"
    proof -
      have "(of_int \<bar>m\<bar> :: rat) \<le> of_int (2 ^ nat (prec F))" using m by (simp only: of_int_le_iff)
      then have "of_int \<bar>m\<bar> * pow2 e \<le> pow2 (prec F) * pow2 e"
        using prec_pos by (intro mult_right_mono) (simp_all add: pow2_nat)
      then show ?thesis by (simp add: x abs_mult pow2_add)
    qed
    moreover have "pow2 (prec F + e) \<le> \<bar>x\<bar>"
    proof -
      have "ilog2 \<bar>x\<bar> - (prec F - 1) > e" using F e by (simp add: quantum_def)
      then have "prec F + e \<le> ilog2 \<bar>x\<bar>" by linarith
      then show ?thesis using ilog2_le_iff [OF px] by blast
    qed
    ultimately have ax: "\<bar>x\<bar> = pow2 (prec F + e)" by linarith
    then have "ilog2 \<bar>x\<bar> = prec F + e" by (intro ilog2_unique) (simp_all add: pow2_less_iff)
    then have q: "quantum F x = e + 1" using e by (simp add: quantum_def)
    have "\<bar>x\<bar> = of_int (2 ^ nat (prec F - 1)) * pow2 (e + 1)"
    proof -
      have "\<bar>x\<bar> = pow2 ((prec F - 1) + (e + 1))" by (simp add: ax)
      also have "\<dots> = pow2 (prec F - 1) * pow2 (e + 1)" by (rule pow2_add)
      also have "pow2 (prec F - 1) = of_int (2 ^ nat (prec F - 1))"
        using prec_pos by (intro pow2_nat) simp
      finally show ?thesis .
    qed
    then have "x = of_int (2 ^ nat (prec F - 1)) * pow2 (e + 1) \<or>
        x = of_int (- (2 ^ nat (prec F - 1))) * pow2 (e + 1)"
      by linarith
    then obtain k where k: "x = of_int k * pow2 (e + 1)" by blast
    then have rk: "rne (x / pow2 (e + 1)) = k" by simp
    have "rnd_unbounded F x = of_int (rne (x / pow2 (quantum F x))) * pow2 (quantum F x)"
      using False by (simp add: rnd_unbounded_def)
    also have "\<dots> = of_int k * pow2 (e + 1)" by (simp only: q rk)
    finally show ?thesis using k by simp
  qed
qed

lemma rnd_dyadic:
  assumes "x = of_int m * pow2 e" and "\<bar>m\<bar> \<le> 2 ^ nat (prec F)" and "qmin F \<le> e"
    and "\<bar>x\<bar> < pow2 (emax F + 1)"
  shows "rnd F x = Fin x"
  using rnd_unbounded_dyadic [OF assms(1-3)] assms(4) by (auto simp: rnd_cases)

lemma is_float_dyadic:
  assumes "x = of_int m * pow2 e" and "\<bar>m\<bar> \<le> 2 ^ nat (prec F)" and "qmin F \<le> e"
    and "\<bar>x\<bar> < pow2 (emax F + 1)"
  shows "is_float F x"
  using rnd_dyadic [OF assms] by (simp add: is_float_def)

lemma is_float_0 [simp]: "is_float F 0"
  by (simp add: is_float_def)

lemma is_float_int: "\<bar>m\<bar> \<le> 2 ^ nat (prec F) \<Longrightarrow> is_float F (of_int m)"
proof (rule is_float_dyadic [where m = m and e = 0])
  assume m: "\<bar>m\<bar> \<le> 2 ^ nat (prec F)"
  have "(of_int \<bar>m\<bar> :: rat) \<le> of_int (2 ^ nat (prec F))" using m by (simp only: of_int_le_iff)
  also have "\<dots> = pow2 (prec F)" using prec_pos by (simp add: pow2_nat)
  also have "\<dots> < pow2 (emax F + 1)" using prec_le by (simp add: pow2_less_iff)
  finally show "\<bar>of_int m\<bar> < pow2 (emax F + 1)" by simp
qed (use qmin_neg in auto)

lemma is_float_1 [simp]: "is_float F 1"
  using is_float_int [of 1] by simp

lemma is_float_minus: "is_float F x \<Longrightarrow> is_float F (- x)"
  by (auto simp: is_float_def rnd_cases rnd_unbounded_minus split: if_splits)

text \<open>A rounded finite result is a number of the format.\<close>

lemma rnd_unbounded_form:
  "\<exists>m e. rnd_unbounded F x = of_int m * pow2 e \<and> \<bar>m\<bar> \<le> 2 ^ nat (prec F) \<and> qmin F \<le> e"
proof (cases "x = 0")
  case True
  then show ?thesis by (intro exI [of _ 0] exI [of _ "qmin F"]) simp
next
  case False
  let ?q = "quantum F x"
  have px: "0 < \<bar>x\<bar>" using False by simp
  have "\<bar>x\<bar> \<le> pow2 (prec F) * pow2 ?q"
  proof -
    have "\<bar>x\<bar> \<le> pow2 (ilog2 \<bar>x\<bar> + 1)" using ilog2_bounds [OF px] by simp
    also have "\<dots> \<le> pow2 (prec F + ?q)" by (intro pow2_mono) (simp add: quantum_def)
    finally show ?thesis by (simp add: pow2_add)
  qed
  then have "\<bar>x / pow2 ?q\<bar> \<le> of_int (2 ^ nat (prec F))"
    using prec_pos by (simp add: pow2_nat abs_divide divide_le_eq)
  then have "- of_int (2 ^ nat (prec F)) \<le> x / pow2 ?q" "x / pow2 ?q \<le> of_int (2 ^ nat (prec F))"
    by linarith+
  then have "rne (of_int (- (2 ^ nat (prec F)))) \<le> rne (x / pow2 ?q)"
    "rne (x / pow2 ?q) \<le> rne (of_int (2 ^ nat (prec F)))"
    by (intro rne_mono; simp)+
  then have "\<bar>rne (x / pow2 ?q)\<bar> \<le> 2 ^ nat (prec F)" by (simp only: rne_of_int)
  then show ?thesis using False
    by (intro exI [of _ "rne (x / pow2 ?q)"] exI [of _ ?q]) (simp add: rnd_unbounded_def quantum_def)
qed

lemma rnd_is_float: "rnd F x = Fin r \<Longrightarrow> is_float F r"
proof -
  assume r: "rnd F x = Fin r"
  then have u: "rnd_unbounded F x = r" and b: "\<bar>r\<bar> < pow2 (emax F + 1)"
    by (auto simp: rnd_cases split: if_splits)
  obtain m e where "rnd_unbounded F x = of_int m * pow2 e" "\<bar>m\<bar> \<le> 2 ^ nat (prec F)" "qmin F \<le> e"
    using rnd_unbounded_form by blast
  with u b show ?thesis by (intro is_float_dyadic) auto
qed

text \<open>Rounding moves a value by at most half a quantum.\<close>

lemma rnd_error: "rnd F x = Fin r \<Longrightarrow> \<bar>r - x\<bar> \<le> pow2 (quantum F x) / 2"
proof -
  assume "rnd F x = Fin r"
  then have r: "r = rnd_unbounded F x" by (auto simp: rnd_cases split: if_splits)
  let ?q = "quantum F x"
  show ?thesis
  proof (cases "x = 0")
    case False
    have "\<bar>x / pow2 ?q - of_int (rne (x / pow2 ?q))\<bar> * pow2 ?q \<le> 1 / 2 * pow2 ?q"
      by (rule mult_right_mono [OF rne_error]) simp
    moreover have "\<bar>x / pow2 ?q - of_int (rne (x / pow2 ?q))\<bar> * pow2 ?q
        = \<bar>(x / pow2 ?q - of_int (rne (x / pow2 ?q))) * pow2 ?q\<bar>"
      by (simp add: abs_mult)
    moreover have "(x / pow2 ?q - of_int (rne (x / pow2 ?q))) * pow2 ?q = x - r"
      using False by (simp add: r rnd_unbounded_def left_diff_distrib)
    ultimately show ?thesis by (simp add: abs_minus_commute)
  qed (simp add: r)
qed

lemma quantum_le: "x \<noteq> 0 \<Longrightarrow> \<bar>x\<bar> < pow2 (k + 1) \<Longrightarrow> quantum F x \<le> max (k - (prec F - 1)) (qmin F)"
proof -
  assume x: "x \<noteq> 0" "\<bar>x\<bar> < pow2 (k + 1)"
  have "\<not> k + 1 \<le> ilog2 \<bar>x\<bar>" using ilog2_le_iff [of "\<bar>x\<bar>" "k + 1"] x by simp
  then show ?thesis by (auto simp: quantum_def)
qed

lemma rnd_error_below:
  assumes "rnd F x = Fin r" and "\<bar>x\<bar> < pow2 (k + 1)" and "qmin F \<le> k - (prec F - 1)"
  shows "\<bar>r - x\<bar> \<le> pow2 (k - (prec F - 1)) / 2"
proof (cases "x = 0")
  case True
  with assms(1) show ?thesis by simp
next
  case False
  have "quantum F x \<le> k - (prec F - 1)" using quantum_le [OF False assms(2)] assms(3) by linarith
  then have "pow2 (quantum F x) \<le> pow2 (k - (prec F - 1))" by (rule pow2_mono)
  with rnd_error [OF assms(1)] show ?thesis by linarith
qed

text \<open>Between two numbers of the format, rounding stays between them.\<close>

lemma rnd_between:
  assumes "is_float F a" "is_float F b" "a \<le> x" "x \<le> b"
  shows "\<exists>r. rnd F x = Fin r \<and> a \<le> r \<and> r \<le> b \<and> is_float F r"
proof -
  have lo: "Fin a \<le> rnd F x" using rnd_mono [OF assms(3)] assms(1) by (simp add: is_float_def)
  have hi: "rnd F x \<le> Fin b" using rnd_mono [OF assms(4)] assms(2) by (simp add: is_float_def)
  from lo hi obtain r where "rnd F x = Fin r" by (cases "rnd F x") auto
  with lo hi rnd_is_float show ?thesis by fastforce
qed

end

interpretation fmt32: float_format b32
  by unfold_locales (simp_all add: b32_def)

interpretation fmt64: float_format b64
  by unfold_locales (simp_all add: b64_def)

text \<open>A value a variable of the format's type can hold.\<close>

fun in_format :: "fmt \<Rightarrow> fl \<Rightarrow> bool" where
  "in_format F (Fin a) = is_float F a"
| "in_format F _ = True"

lemma in_format_rnd [simp]: "F = b32 \<or> F = b64 \<Longrightarrow> in_format F (rnd F x)"
  by (cases "rnd F x") (auto dest: fmt32.rnd_is_float fmt64.rnd_is_float)

section \<open>Operations\<close>

fun f_neg :: "fl \<Rightarrow> fl" where
  "f_neg NaN = NaN"
| "f_neg PInf = NInf"
| "f_neg NInf = PInf"
| "f_neg (Fin a) = Fin (- a)"

fun f_add :: "fmt \<Rightarrow> fl \<Rightarrow> fl \<Rightarrow> fl" where
  "f_add F (Fin a) (Fin b) = rnd F (a + b)"
| "f_add F NaN y = NaN"
| "f_add F x NaN = NaN"
| "f_add F PInf NInf = NaN"
| "f_add F NInf PInf = NaN"
| "f_add F PInf y = PInf"
| "f_add F NInf y = NInf"
| "f_add F x PInf = PInf"
| "f_add F x NInf = NInf"

definition f_sub :: "fmt \<Rightarrow> fl \<Rightarrow> fl \<Rightarrow> fl" where
  "f_sub F x y = f_add F x (f_neg y)"

definition inf_of_sign :: "bool \<Rightarrow> fl" where
  "inf_of_sign pos = (if pos then PInf else NInf)"

fun f_sign :: "fl \<Rightarrow> rat" where
  "f_sign NaN = 0"
| "f_sign PInf = 1"
| "f_sign NInf = -1"
| "f_sign (Fin a) = sgn a"

fun f_is_nan :: "fl \<Rightarrow> bool" where
  "f_is_nan NaN = True"
| "f_is_nan _ = False"

fun f_is_finite :: "fl \<Rightarrow> bool" where
  "f_is_finite (Fin _) = True"
| "f_is_finite _ = False"

definition f_is_infinite :: "fl \<Rightarrow> bool" where
  "f_is_infinite x \<longleftrightarrow> x = PInf \<or> x = NInf"

definition f_mul :: "fmt \<Rightarrow> fl \<Rightarrow> fl \<Rightarrow> fl" where
  "f_mul F x y = (case (x, y) of
     (Fin a, Fin b) \<Rightarrow> rnd F (a * b)
   | _ \<Rightarrow> (if f_is_nan x \<or> f_is_nan y then NaN
          else if f_sign x * f_sign y = 0 then NaN
          else inf_of_sign (0 < f_sign x * f_sign y)))"

text \<open>A zero divisor counts as \<open>+0\<close>.\<close>

definition f_div :: "fmt \<Rightarrow> fl \<Rightarrow> fl \<Rightarrow> fl" where
  "f_div F x y = (case (x, y) of
     (Fin a, Fin b) \<Rightarrow>
       (if b \<noteq> 0 then rnd F (a / b) else if a = 0 then NaN else inf_of_sign (0 < a))
   | (Fin a, _) \<Rightarrow> (if f_is_nan y then NaN else Fin 0)
   | (_, Fin b) \<Rightarrow> (if f_is_nan x then NaN else inf_of_sign ((0 < f_sign x) = (0 \<le> b)))
   | _ \<Rightarrow> NaN)"

fun f_abs :: "fl \<Rightarrow> fl" where
  "f_abs NaN = NaN"
| "f_abs PInf = PInf"
| "f_abs NInf = PInf"
| "f_abs (Fin a) = Fin \<bar>a\<bar>"

text \<open>\<open>f32::max\<close> / \<open>f32::min\<close>: a NaN argument is ignored.\<close>

definition f_max :: "fl \<Rightarrow> fl \<Rightarrow> fl" where
  "f_max x y = (if f_is_nan x then y else if f_is_nan y then x else if x < y then y else x)"

definition f_min :: "fl \<Rightarrow> fl \<Rightarrow> fl" where
  "f_min x y = (if f_is_nan x then y else if f_is_nan y then x else if y < x then y else x)"

text \<open>\<open>f32::clamp\<close> panics unless \<open>lo <= hi\<close>; \<open>f_clamp\<close> is its result when it does not.\<close>

definition f_clamp :: "fl \<Rightarrow> fl \<Rightarrow> fl \<Rightarrow> fl" where
  "f_clamp lo hi x = (if x < lo then lo else if hi < x then hi else x)"

definition f_clamp_checked :: "fl \<Rightarrow> fl \<Rightarrow> fl \<Rightarrow> fl option" where
  "f_clamp_checked lo hi x = (if lo \<le> hi then Some (f_clamp lo hi x) else None)"

text \<open>\<open>ceil\<close> and \<open>round\<close> (half away from zero) of a float are floats: no rounding step.\<close>

fun f_ceil :: "fl \<Rightarrow> fl" where
  "f_ceil (Fin a) = Fin (of_int \<lceil>a\<rceil>)"
| "f_ceil x = x"

definition round_away :: "rat \<Rightarrow> int" where
  "round_away a = (if 0 \<le> a then \<lfloor>a + 1 / 2\<rfloor> else - \<lfloor>- a + 1 / 2\<rfloor>)"

fun f_round :: "fl \<Rightarrow> fl" where
  "f_round (Fin a) = Fin (of_int (round_away a))"
| "f_round x = x"

definition trunc_rat :: "rat \<Rightarrow> int" where
  "trunc_rat a = (if 0 \<le> a then \<lfloor>a\<rfloor> else \<lceil>a\<rceil>)"

text \<open>\<open>x as T\<close> for an integer type \<open>T\<close> with range \<open>lo..=hi\<close>: truncate and saturate, NaN to 0.\<close>

fun f_as_int :: "int \<Rightarrow> int \<Rightarrow> fl \<Rightarrow> int" where
  "f_as_int lo hi NaN = 0"
| "f_as_int lo hi PInf = hi"
| "f_as_int lo hi NInf = lo"
| "f_as_int lo hi (Fin a) = max lo (min hi (trunc_rat a))"

definition f_as_u64 :: "fl \<Rightarrow> nat" where "f_as_u64 x = nat (f_as_int 0 (2 ^ 64 - 1) x)"
definition f_as_u32 :: "fl \<Rightarrow> nat" where "f_as_u32 x = nat (f_as_int 0 (2 ^ 32 - 1) x)"
definition f_as_i16 :: "fl \<Rightarrow> int" where "f_as_i16 x = f_as_int (- 32768) 32767 x"

abbreviation f_of_nat :: "fmt \<Rightarrow> nat \<Rightarrow> fl" where "f_of_nat F n \<equiv> rnd F (of_nat n)"
abbreviation f_of_int :: "fmt \<Rightarrow> int \<Rightarrow> fl" where "f_of_int F n \<equiv> rnd F (of_int n)"

text \<open>Decimal literals.\<close>

definition f32_lit :: "rat \<Rightarrow> fl" where "f32_lit x = rnd b32 x"
definition f64_lit :: "rat \<Rightarrow> fl" where "f64_lit x = rnd b64 x"

text \<open>\<open>f64 as f32\<close>; \<open>f32 as f64\<close> is exact and is the identity on values.\<close>

fun f32_of_f64 :: "fl \<Rightarrow> fl" where
  "f32_of_f64 (Fin a) = rnd b32 a"
| "f32_of_f64 x = x"

text \<open>\<open>f32::EPSILON\<close> and \<open>f64::EPSILON\<close>.\<close>

definition epsilon :: "fmt \<Rightarrow> fl" where "epsilon F = Fin (pow2 (1 - prec F))"

section \<open>Square root\<close>

text \<open>
  \<open>sqrt\<close> is correctly rounded: \<open>n\<close> counts the half quanta below the exact root, and a root
  that is not a whole number of half quanta rounds like the middle of its half-quantum interval.
\<close>

function isqrt :: "int \<Rightarrow> int" where
  "isqrt n = (if n < 1 then 0 else
     let r = 2 * isqrt (n div 4) in if (r + 1) * (r + 1) \<le> n then r + 1 else r)"
  by pat_completeness auto
termination by (relation "measure nat") auto

declare isqrt.simps [simp del]

definition sqrt_rat :: "fmt \<Rightarrow> rat \<Rightarrow> fl" where
  "sqrt_rat F a = (let q = max (ilog2 a div 2 - (prec F - 1)) (qmin F);
       y = 4 * a / pow2 (2 * q); n = isqrt \<lfloor>y\<rfloor>;
       h = (if of_int (n * n) = y then of_int n / 2 else of_int n / 2 + 1 / 4)
     in Fin (of_int (rne h) * pow2 q))"

fun f_sqrt :: "fmt \<Rightarrow> fl \<Rightarrow> fl" where
  "f_sqrt F (Fin a) = (if a < 0 then NaN else if a = 0 then Fin 0 else sqrt_rat F a)"
| "f_sqrt F PInf = PInf"
| "f_sqrt F NInf = NaN"
| "f_sqrt F NaN = NaN"

lemma isqrt_bounds: "0 \<le> n \<Longrightarrow> 0 \<le> isqrt n \<and> isqrt n * isqrt n \<le> n \<and> n < (isqrt n + 1) * (isqrt n + 1)"
proof (induction n rule: isqrt.induct)
  case (1 n)
  show ?case
  proof (cases "n < 1")
    case True
    with 1(2) have "n = 0" by linarith
    moreover have "isqrt n = 0" using True by (subst isqrt.simps) simp
    ultimately show ?thesis by simp
  next
    case False
    define r where "r = isqrt (n div 4)"
    from False 1 have IH: "0 \<le> r" "r * r \<le> n div 4" "n div 4 < (r + 1) * (r + 1)"
      by (auto simp: r_def)
    have i: "isqrt n = (if (2 * r + 1) * (2 * r + 1) \<le> n then 2 * r + 1 else 2 * r)"
      using False by (subst isqrt.simps) (simp add: Let_def r_def)
    have "4 * (r * r) \<le> n" "n < 4 * ((r + 1) * (r + 1))" using IH(2,3) by linarith+
    with i IH(1) show ?thesis by (auto simp: algebra_simps)
  qed
qed

lemma f_sqrt_nonneg: "f_sqrt F x = Fin r \<Longrightarrow> 0 \<le> r"
proof (cases x)
  case (Fin a)
  assume s: "f_sqrt F x = Fin r"
  show ?thesis
  proof (cases "0 < a")
    case True
    let ?q = "max (ilog2 a div 2 - (prec F - 1)) (qmin F)"
    let ?y = "4 * a / pow2 (2 * ?q)"
    let ?n = "isqrt \<lfloor>?y\<rfloor>"
    let ?h = "if of_int (?n * ?n) = ?y then of_int ?n / 2 else of_int ?n / 2 + 1 / 4 :: rat"
    have "0 \<le> ?n" using isqrt_bounds [of "\<lfloor>?y\<rfloor>"] True by simp
    then have "of_int 0 \<le> ?h" by simp
    then have "rne (of_int 0) \<le> rne ?h" by (rule rne_mono)
    then have "0 \<le> rne ?h" by (simp only: rne_of_int)
    then have "0 \<le> of_int (rne ?h) * pow2 ?q" by simp
    moreover have "f_sqrt F x = Fin (of_int (rne ?h) * pow2 ?q)"
      using True Fin by (simp add: sqrt_rat_def Let_def)
    ultimately show ?thesis using s by simp
  qed (use s Fin in \<open>auto split: if_splits\<close>)
qed (auto)

section \<open>Bit patterns\<close>

text \<open>\<open>f32::from_bits\<close> and \<open>to_bits\<close> (a NaN becomes the quiet NaN, a zero the positive zero).\<close>

definition f32_of_bits :: "u32 \<Rightarrow> fl" where
  "f32_of_bits w = (let s = bit w 31; e = uint (drop_bit 23 w AND 255); m = uint (w AND 0x7FFFFF) in
     if e = 255 then (if m \<noteq> 0 then NaN else if s then NInf else PInf)
     else let v = (if e = 0 then of_int m * pow2 (- 149) else of_int (m + 2 ^ 23) * pow2 (e - 150))
          in Fin (if s then - v else v))"

definition bits_of_f32 :: "fl \<Rightarrow> u32" where
  "bits_of_f32 x = (case x of
     NaN \<Rightarrow> 0x7FC00000
   | PInf \<Rightarrow> 0x7F800000
   | NInf \<Rightarrow> 0xFF800000
   | Fin a \<Rightarrow> (if a = 0 then 0 else
       let q = quantum b32 a; m = rne (\<bar>a\<bar> / pow2 q); s = (if a < 0 then 2 ^ 31 else 0)
       in of_int (s + (if m < 2 ^ 23 then m else (q + 149) * 2 ^ 23 + m))))"

section \<open>Facts about the operations\<close>

lemma f_clamp_bounds:
  "lo \<le> hi \<Longrightarrow> x \<noteq> NaN \<Longrightarrow> lo \<le> f_clamp lo hi x \<and> f_clamp lo hi x \<le> hi"
  by (cases lo; cases hi; cases x) (auto simp: f_clamp_def)

lemma f_clamp_id: "lo \<le> x \<Longrightarrow> x \<le> hi \<Longrightarrow> f_clamp lo hi x = x"
  by (cases lo; cases hi; cases x) (auto simp: f_clamp_def)

lemma f_clamp_in_format:
  "in_format F lo \<Longrightarrow> in_format F hi \<Longrightarrow> in_format F x \<Longrightarrow> in_format F (f_clamp lo hi x)"
  by (simp add: f_clamp_def)

lemma f_clamp_Fin: "f_clamp (Fin a) (Fin b) (Fin x) = Fin (if x < a then a else if b < x then b else x)"
  by (simp add: f_clamp_def)

lemma f_clamp_NaN [simp]: "f_clamp lo hi NaN = NaN"
  by (simp add: f_clamp_def)

lemma f_clamp_finite:
  "a \<le> b \<Longrightarrow> x \<noteq> NaN \<Longrightarrow> \<exists>r. f_clamp (Fin a) (Fin b) x = Fin r \<and> a \<le> r \<and> r \<le> b"
  by (cases x) (auto simp: f_clamp_def)

lemma f_add_Fin [simp]: "f_add F (Fin a) (Fin b) = rnd F (a + b)"
  by simp

lemma f_sub_Fin [simp]: "f_sub F (Fin a) (Fin b) = rnd F (a - b)"
  by (simp add: f_sub_def)

lemma f_mul_Fin [simp]: "f_mul F (Fin a) (Fin b) = rnd F (a * b)"
  by (simp add: f_mul_def)

lemma f_div_Fin [simp]: "b \<noteq> 0 \<Longrightarrow> f_div F (Fin a) (Fin b) = rnd F (a / b)"
  by (simp add: f_div_def)

lemma trunc_rat_nonneg: "0 \<le> a \<Longrightarrow> trunc_rat a = \<lfloor>a\<rfloor>"
  by (simp add: trunc_rat_def)

lemma f_as_int_range: "lo \<le> 0 \<Longrightarrow> 0 \<le> hi \<Longrightarrow> lo \<le> f_as_int lo hi x \<and> f_as_int lo hi x \<le> hi"
  by (cases x) auto

lemma f_as_int_mono: "lo \<le> 0 \<Longrightarrow> 0 \<le> hi \<Longrightarrow> a \<le> b \<Longrightarrow> f_as_int lo hi (Fin a) \<le> f_as_int lo hi (Fin b)"
proof -
  assume "a \<le> b"
  have "trunc_rat a \<le> trunc_rat b"
  proof (cases "0 \<le> a")
    case True
    with \<open>a \<le> b\<close> show ?thesis by (simp add: trunc_rat_def floor_mono)
  next
    case False
    then have c: "\<lceil>a\<rceil> \<le> 0" by simp
    show ?thesis
    proof (cases "0 \<le> b")
      case True
      then have "0 \<le> \<lfloor>b\<rfloor>" by simp
      with c have "\<lceil>a\<rceil> \<le> \<lfloor>b\<rfloor>" by (rule order_trans)
      with False True show ?thesis by (simp add: trunc_rat_def)
    next
      case Fb: False
      with False \<open>a \<le> b\<close> show ?thesis by (simp add: trunc_rat_def ceiling_mono)
    qed
  qed
  then show ?thesis by simp
qed

end
