(* ===== verification/Protocol.thy ===== *)
theory Protocol imports IeeeFloat begin

text \<open>
  \<open>common/src/constants.rs\<close> and \<open>common/src/protocol.rs\<close>: the wire format shared by the
  engine and the headset client. Every payload codec of the file is here with its parser's
  guards: HELLO version and capabilities, the frame-pose prefix, the FVP flag layout, VIEW_CONFIG
  and TRANSPORT_FEEDBACK. Floats on the wire are their 32 bits (\<open>u32\<close>), read as numbers by
  \<open>f32_of_bits\<close> where the code compares them; \<open>i32\<close> fields are 32-bit words read by \<open>sint\<close>.
\<close>

section \<open>Constants\<close>

definition MTU_SIZE :: nat where "MTU_SIZE = 1400"
definition FEC_SHARD_SIZE :: nat where "FEC_SHARD_SIZE = 1200"
definition RTP_HEADER_LEN :: nat where "RTP_HEADER_LEN = 12"
definition FVP_HEADER_LEN :: nat where "FVP_HEADER_LEN = 12"
definition PACKET_HEADER_LEN :: nat where "PACKET_HEADER_LEN = RTP_HEADER_LEN + FVP_HEADER_LEN"
definition MAX_FRAME_SHARDS :: nat where "MAX_FRAME_SHARDS = 4096"
definition DEFAULT_FEC_REDUNDANCY :: fl where "DEFAULT_FEC_REDUNDANCY = f32_lit (2 / 10)"
definition HEARTBEAT_INTERVAL_MS :: nat where "HEARTBEAT_INTERVAL_MS = 500"
definition HEARTBEAT_MAX_MISSES :: nat where "HEARTBEAT_MAX_MISSES = 6"
definition MAX_PIN_ATTEMPTS :: u8 where "MAX_PIN_ATTEMPTS = 5"
definition PIN_LOCKOUT_SECONDS :: nat where "PIN_LOCKOUT_SECONDS = 300"
definition PIN_LIFETIME_SECONDS :: nat where "PIN_LIFETIME_SECONDS = 300"
definition DEFAULT_TCP_PORT :: nat where "DEFAULT_TCP_PORT = 9944"
definition DEFAULT_UDP_PORT :: nat where "DEFAULT_UDP_PORT = 9945"
definition VIDEO_PORT_OFFSET :: nat where "VIDEO_PORT_OFFSET = 1"
definition TRACKING_PORT_OFFSET :: nat where "TRACKING_PORT_OFFSET = 2"
definition AUDIO_PORT_OFFSET :: nat where "AUDIO_PORT_OFFSET = 3"
definition RTP_PT_H265 :: u8 where "RTP_PT_H265 = 97"
definition RTP_PT_H264 :: u8 where "RTP_PT_H264 = 96"
definition MAX_MSG_LEN :: nat where "MAX_MSG_LEN = 65536"
definition PROTOCOL_VERSION :: u16 where "PROTOCOL_VERSION = 6"

lemmas wire_consts =
  MTU_SIZE_def FEC_SHARD_SIZE_def RTP_HEADER_LEN_def FVP_HEADER_LEN_def PACKET_HEADER_LEN_def
  MAX_FRAME_SHARDS_def MAX_MSG_LEN_def

text \<open>The message types and the value each has on the wire.\<close>

datatype msg_type =
  HELLO | HELLO_ACK | PIN_REQUEST | PIN_RESPONSE | PIN_RESULT | STREAM_CONFIG | STREAM_START
| HEARTBEAT | HEARTBEAT_ACK | TRANSPORT_FEEDBACK | TRACKING_DATA | CONTROLLER_DATA | VIEW_CONFIG
| IDR_REQUEST | FACE_DATA | HAPTIC_EVENT | AUDIO_CONFIG | AUDIO_START | SLEEP_ENTER | SLEEP_EXIT
| CONFIG_UPDATE | CONFIG_UPDATE_ACK | CALIBRATE_START | CALIBRATE_STATUS | FT_MIRROR_REQUEST
| FT_MIRROR_FRAME | DISCONNECT

fun msg_code :: "msg_type \<Rightarrow> u8" where
  "msg_code HELLO = 0x01"
| "msg_code HELLO_ACK = 0x02"
| "msg_code PIN_REQUEST = 0x03"
| "msg_code PIN_RESPONSE = 0x04"
| "msg_code PIN_RESULT = 0x05"
| "msg_code STREAM_CONFIG = 0x06"
| "msg_code STREAM_START = 0x07"
| "msg_code HEARTBEAT = 0x10"
| "msg_code HEARTBEAT_ACK = 0x11"
| "msg_code TRANSPORT_FEEDBACK = 0x12"
| "msg_code TRACKING_DATA = 0x20"
| "msg_code CONTROLLER_DATA = 0x21"
| "msg_code VIEW_CONFIG = 0x22"
| "msg_code IDR_REQUEST = 0x30"
| "msg_code FACE_DATA = 0x35"
| "msg_code HAPTIC_EVENT = 0x38"
| "msg_code AUDIO_CONFIG = 0x40"
| "msg_code AUDIO_START = 0x41"
| "msg_code SLEEP_ENTER = 0x50"
| "msg_code SLEEP_EXIT = 0x51"
| "msg_code CONFIG_UPDATE = 0x55"
| "msg_code CONFIG_UPDATE_ACK = 0x56"
| "msg_code CALIBRATE_START = 0x60"
| "msg_code CALIBRATE_STATUS = 0x61"
| "msg_code FT_MIRROR_REQUEST = 0x65"
| "msg_code FT_MIRROR_FRAME = 0x66"
| "msg_code DISCONNECT = 0xFF"

datatype video_codec = H264 | H265

section \<open>HELLO\<close>

definition CAP_RESOLUTION_SCALE :: u8 where "CAP_RESOLUTION_SCALE = 0x01"
definition CAP_FRAME_POSE :: u8 where "CAP_FRAME_POSE = 0x02"

definition parse_hello_version :: "bytes \<Rightarrow> u16" where
  "parse_hello_version payload = (if 2 \<le> length payload then u16_of_le (sub_range payload 0 2) else 1)"

definition encode_version :: "u16 \<Rightarrow> bytes" where "encode_version version = u16_le version"

definition parse_hello_caps :: "bytes \<Rightarrow> u8" where
  "parse_hello_caps payload = (if 3 \<le> length payload then payload ! 2 else 0)"

definition encode_hello :: "u16 \<Rightarrow> u8 \<Rightarrow> bytes" where
  "encode_hello version caps = (let v = u16_le version in [v ! 0, v ! 1, caps])"

lemma u16_le_list: "[u16_le w ! 0, u16_le w ! Suc 0] = u16_le w"
  using c16le.length_enc [of w] by (cases "u16_le w"; cases "tl (u16_le w)") auto

text \<open>
  A HELLO payload is read back as the version and capabilities it was built from, whatever
  bytes follow; a version-only payload advertises no capability and a shorter one is version 1.
\<close>
theorem hello_roundtrip:
  "parse_hello_version (encode_hello v c @ rest) = v \<and> parse_hello_caps (encode_hello v c @ rest) = c
   \<and> parse_hello_version (encode_version v) = v \<and> parse_hello_caps (encode_version v) = 0
   \<and> parse_hello_version [] = 1 \<and> parse_hello_version [b] = 1 \<and> parse_hello_caps [] = 0"
proof -
  have "encode_hello v c @ rest = u16_le v @ [c] @ rest"
    by (metis append.assoc append_Cons append_Nil encode_hello_def u16_le_list One_nat_def)
  then show ?thesis
    by (simp add: parse_hello_version_def parse_hello_caps_def encode_version_def
        sub_range_append_take nth_append sub_range_def)
qed

section \<open>Frame pose\<close>

type_synonym quat_bits = "u32 \<times> u32 \<times> u32 \<times> u32"

definition f32_finite_bits :: "u32 \<Rightarrow> bool" where
  "f32_finite_bits w = f_is_finite (f32_of_bits w)"

definition FRAME_POSE_LEN :: nat where "FRAME_POSE_LEN = 20"
definition FRAME_POSE_MAGIC :: bytes where "FRAME_POSE_MAGIC = [0x46, 0x50]"
definition FRAME_POSE_VERSION :: u8 where "FRAME_POSE_VERSION = 1"
definition ORIENTATION_KNOWN :: u8 where "ORIENTATION_KNOWN = 0x01"

definition frame_pose_encode :: "quat_bits option \<Rightarrow> bytes" where
  "frame_pose_encode orientation = FRAME_POSE_MAGIC @ [FRAME_POSE_VERSION] @
     (case orientation of
        None \<Rightarrow> 0 # replicate 16 0
      | Some (x, y, z, w) \<Rightarrow> ORIENTATION_KNOWN # concat (map u32_le [x, y, z, w]))"

definition frame_pose_parse :: "bytes \<Rightarrow> (quat_bits option \<times> bytes) option" where
  "frame_pose_parse frame =
     (if length frame < FRAME_POSE_LEN \<or> sub_range frame 0 2 \<noteq> FRAME_POSE_MAGIC
         \<or> frame ! 2 \<noteq> FRAME_POSE_VERSION then None
      else let rest = drop FRAME_POSE_LEN frame in
        if frame ! 3 AND ORIENTATION_KNOWN = 0 then Some (None, rest)
        else let f = (\<lambda>i. u32_of_le (sub_range frame (4 + i * 4) (8 + i * 4)));
                 q = (f 0, f 1, f 2, f 3)
             in Some (if list_all f32_finite_bits [f 0, f 1, f 2, f 3] then Some q else None, rest))"

lemma frame_pose_encode_length: "length (frame_pose_encode q) = FRAME_POSE_LEN"
  by (auto simp: frame_pose_encode_def FRAME_POSE_LEN_def FRAME_POSE_MAGIC_def split: option.split prod.split)

definition quat_finite :: "quat_bits \<Rightarrow> bool" where
  "quat_finite q = (case q of (x, y, z, w) \<Rightarrow> list_all f32_finite_bits [x, y, z, w])"

text \<open>
  The frame-pose prefix: what the engine puts in front of a frame is stripped again and
  the frame's data is left exactly as it was; a finite orientation survives bit for bit, a
  non-finite or unknown one is reported as unknown.
\<close>
theorem frame_pose_roundtrip:
  "frame_pose_parse (frame_pose_encode orientation @ frame) =
     Some (if \<exists>q. orientation = Some q \<and> quat_finite q then orientation else None, frame)"
proof (cases orientation)
  case None
  have "length (frame_pose_encode None) = FRAME_POSE_LEN" by (rule frame_pose_encode_length)
  with None show ?thesis
    by (simp add: frame_pose_parse_def)
      (simp add: frame_pose_encode_def FRAME_POSE_LEN_def FRAME_POSE_MAGIC_def FRAME_POSE_VERSION_def
        sub_range_def)
next
  case (Some q)
  obtain x y z w where q: "q = (x, y, z, w)" by (cases q)
  let ?h = "[0x46, 0x50, 1, 1] :: bytes"
  let ?ws = "[x, y, z, w]"
  let ?m = "frame_pose_encode orientation @ frame"
  have m: "?m = ?h @ concat (map u32_le ?ws) @ frame"
    by (simp add: frame_pose_encode_def Some q FRAME_POSE_MAGIC_def FRAME_POSE_VERSION_def ORIENTATION_KNOWN_def)
  have f: "u32_of_le (sub_range ?m (4 + i * 4) (8 + i * 4)) = ?ws ! i" if "i < 4" for i
  proof -
    have "sub_range ?m (4 + i * 4) (8 + i * 4) =
        sub_range (concat (map u32_le ?ws) @ frame) (4 * i) (4 * i + 4)"
      unfolding m by (subst sub_range_append_skip [where n = 4]) (simp_all add: algebra_simps)
    then show ?thesis using c32le.dec_field_at [of i ?ws frame] that by simp
  qed
  have len: "FRAME_POSE_LEN \<le> length ?m" "drop FRAME_POSE_LEN ?m = frame"
    using frame_pose_encode_length [of orientation] by simp_all
  have h: "sub_range ?m 0 2 = FRAME_POSE_MAGIC" "?m ! 2 = FRAME_POSE_VERSION"
    "?m ! 3 AND ORIENTATION_KNOWN \<noteq> 0"
    unfolding m by (simp_all add: sub_range_def FRAME_POSE_MAGIC_def FRAME_POSE_VERSION_def ORIENTATION_KNOWN_def)
  from len h f [of 0] f [of 1] f [of 2] f [of 3] show ?thesis
    unfolding frame_pose_parse_def Let_def
    by (simp add: Some q quat_finite_def)
qed

section \<open>FVP flags\<close>

definition KEYFRAME :: u16 where "KEYFRAME = 1"
definition SLICE_INDEX_SHIFT :: nat where "SLICE_INDEX_SHIFT = 1"
definition SLICE_INDEX_MASK :: u16 where "SLICE_INDEX_MASK = push_bit 1 0xF"
definition SLICE_COUNT_SHIFT :: nat where "SLICE_COUNT_SHIFT = 5"
definition SLICE_COUNT_MASK :: u16 where "SLICE_COUNT_MASK = push_bit 5 0xF"
definition STREAM_ID_SHIFT :: nat where "STREAM_ID_SHIFT = 9"
definition STREAM_ID_MASK :: u16 where "STREAM_ID_MASK = push_bit 9 0x3"
definition MAX_SLICE_COUNT :: u8 where "MAX_SLICE_COUNT = 15"

lemmas flag_consts = KEYFRAME_def SLICE_INDEX_SHIFT_def SLICE_INDEX_MASK_def SLICE_COUNT_SHIFT_def
  SLICE_COUNT_MASK_def STREAM_ID_SHIFT_def STREAM_ID_MASK_def

definition encode_simple :: "bool \<Rightarrow> u16" where
  "encode_simple is_keyframe = (if is_keyframe then KEYFRAME else 0)"

definition encode_flags :: "bool \<Rightarrow> u8 \<Rightarrow> u8 \<Rightarrow> u8 \<Rightarrow> u16" where
  "encode_flags is_keyframe slice_index slice_count stream_id =
     (let flags = 0;
          flags = (if is_keyframe then flags OR KEYFRAME else flags);
          flags = flags OR push_bit SLICE_INDEX_SHIFT (ucast slice_index AND 0xF);
          flags = flags OR push_bit SLICE_COUNT_SHIFT (ucast slice_count AND 0xF)
      in flags OR push_bit STREAM_ID_SHIFT (ucast stream_id AND 0x3))"

definition encode_compat :: "u16 \<Rightarrow> bool \<Rightarrow> u8 \<Rightarrow> u8 \<Rightarrow> u8 \<Rightarrow> u16" where
  "encode_compat negotiated_version is_keyframe slice_index slice_count stream_id =
     (if 3 \<le> negotiated_version then encode_flags is_keyframe slice_index slice_count stream_id
      else encode_simple is_keyframe)"

definition flag_is_keyframe :: "u16 \<Rightarrow> bool" where "flag_is_keyframe flags \<longleftrightarrow> flags AND KEYFRAME \<noteq> 0"

definition flag_slice_index :: "u16 \<Rightarrow> u8" where
  "flag_slice_index flags = ucast (drop_bit SLICE_INDEX_SHIFT (flags AND SLICE_INDEX_MASK))"

definition flag_slice_count :: "u16 \<Rightarrow> u8" where
  "flag_slice_count flags = ucast (drop_bit SLICE_COUNT_SHIFT (flags AND SLICE_COUNT_MASK))"

definition flag_stream_id :: "u16 \<Rightarrow> u8" where
  "flag_stream_id flags = ucast (drop_bit STREAM_ID_SHIFT (flags AND STREAM_ID_MASK))"

lemma bit_field_masks: "bit (0xF :: int) n \<longleftrightarrow> n < 4" "bit (0x3 :: int) n \<longleftrightarrow> n < 2"
proof -
  have "(0xF :: int) = mask 4" "(0x3 :: int) = mask 2" by (simp_all add: mask_eq_exp_minus_1)
  then show "bit (0xF :: int) n \<longleftrightarrow> n < 4" "bit (0x3 :: int) n \<longleftrightarrow> n < 2"
    by (simp_all only: bit_mask_iff) auto
qed

lemma flag_is_keyframe_bit: "flag_is_keyframe f \<longleftrightarrow> bit f 0"
  by (simp add: flag_is_keyframe_def KEYFRAME_def and_one_eq odd_iff_mod_2_eq_one bit_0)

text \<open>Bit by bit, the flag word holds its four fields at their positions.\<close>

lemma bit_encode_flags:
  "bit (encode_flags k si sc st) n \<longleftrightarrow> (n = 0 \<and> k) \<or> (1 \<le> n \<and> n < 5 \<and> bit si (n - 1))
     \<or> (5 \<le> n \<and> n < 9 \<and> bit sc (n - 5)) \<or> (9 \<le> n \<and> n < 11 \<and> bit st (n - 9))"
proof -
  have m: "(0xF :: u16) = mask 4" "(0x3 :: u16) = mask 2" by (simp_all add: mask_eq_exp_minus_1)
  have i: "bit (if k then 0 OR 1 else (0 :: u16)) n \<longleftrightarrow> k \<and> n = 0" by (simp add: bit_1_iff)
  consider "n = 0" | "1 \<le> n" "n < 5" | "5 \<le> n" "n < 9" | "9 \<le> n" "n < 11" | "11 \<le> n" by linarith
  then show ?thesis
    unfolding encode_flags_def Let_def flag_consts m bit_or_iff [where a = "_ OR _"] i
      bit_or_iff [where a = "if k then _ else _"] bit_push_bit_iff bit_and_iff bit_unsigned_iff bit_mask_iff
    by cases auto
qed

lemma flag_fields_of_encode:
  "flag_is_keyframe (encode_flags k si sc st) = k"
  "flag_slice_index (encode_flags k si sc st) = si AND 0xF"
  "flag_slice_count (encode_flags k si sc st) = sc AND 0xF"
  "flag_stream_id (encode_flags k si sc st) = st AND 0x3"
proof -
  show "flag_is_keyframe (encode_flags k si sc st) = k"
    by (simp add: flag_is_keyframe_bit bit_encode_flags)
  note bits = bit_unsigned_iff bit_drop_bit_eq bit_and_iff bit_push_bit_iff bit_field_masks bit_encode_flags
  show "flag_slice_index (encode_flags k si sc st) = si AND 0xF"
    by (rule bit_word_eqI) (auto simp: flag_slice_index_def flag_consts bits)
  show "flag_slice_count (encode_flags k si sc st) = sc AND 0xF"
    by (rule bit_word_eqI) (auto simp: flag_slice_count_def flag_consts bits)
  show "flag_stream_id (encode_flags k si sc st) = st AND 0x3"
    by (rule bit_word_eqI) (auto simp: flag_stream_id_def flag_consts bits)
qed

text \<open>
  The FVP flag layout: a client that negotiated version 3 or later reads back the keyframe
  bit, the slice index, the slice count and the stream id of the frame (each in its field's
  width); an older one reads the keyframe bit and sees no slice or stream, and no other bit of
  the word is ever set.
\<close>
theorem flags_roundtrip:
  "let f = encode_compat v k si sc st in
     flag_is_keyframe f = k
   \<and> flag_slice_index f = (if 3 \<le> v then si AND 0xF else 0)
   \<and> flag_slice_count f = (if 3 \<le> v then sc AND 0xF else 0)
   \<and> flag_stream_id f = (if 3 \<le> v then st AND 0x3 else 0)
   \<and> drop_bit 11 f = 0"
proof (cases "3 \<le> v")
  case True
  have "drop_bit 11 (encode_flags k si sc st) = 0"
    by (rule bit_word_eqI) (auto simp: bit_drop_bit_eq bit_encode_flags)
  with True show ?thesis by (simp add: encode_compat_def flag_fields_of_encode Let_def)
next
  case False
  then show ?thesis
    by (cases k) (simp_all add: encode_compat_def encode_simple_def Let_def flag_is_keyframe_def
        flag_slice_index_def flag_slice_count_def flag_stream_id_def flag_consts)
qed

section \<open>VIEW_CONFIG\<close>

record eye_fov =
  fov_left :: u32
  fov_right :: u32
  fov_up :: u32
  fov_down :: u32

record view_config =
  eye_l :: eye_fov
  eye_r :: eye_fov
  ipd_m :: u32

definition VIEW_CONFIG_PAYLOAD_LEN :: nat where "VIEW_CONFIG_PAYLOAD_LEN = 36"

text \<open>\<open>std::f32::consts::PI\<close> is 13176795 / 2^22.\<close>

definition MAX_FOV_HALF_ANGLE :: fl where
  "MAX_FOV_HALF_ANGLE = f_div b32 (f_mul b32 (Fin 85) (Fin (13176795 / 4194304))) (Fin 180)"

definition view_config_values :: "view_config \<Rightarrow> u32 list" where
  "view_config_values c =
     [fov_left (eye_l c), fov_right (eye_l c), fov_up (eye_l c), fov_down (eye_l c),
      fov_left (eye_r c), fov_right (eye_r c), fov_up (eye_r c), fov_down (eye_r c),
      ipd_m c]"

definition encode_view_config :: "view_config \<Rightarrow> bytes" where
  "encode_view_config c = concat (map u32_le (view_config_values c))"

definition plausible_eye :: "eye_fov \<Rightarrow> bool" where
  "plausible_eye e \<longleftrightarrow>
     list_all (\<lambda>a. f_is_finite (f32_of_bits a) \<and> f_abs (f32_of_bits a) < MAX_FOV_HALF_ANGLE)
       [fov_left e, fov_right e, fov_up e, fov_down e]
     \<and> f32_of_bits (fov_left e) < f32_of_bits (fov_right e)
     \<and> f32_of_bits (fov_down e) < f32_of_bits (fov_up e)"

definition plausible_ipd :: "u32 \<Rightarrow> bool" where
  "plausible_ipd w \<longleftrightarrow> f_is_finite (f32_of_bits w)
     \<and> f32_lit (40 / 1000) \<le> f32_of_bits w \<and> f32_of_bits w \<le> f32_lit (90 / 1000)"

definition plausible_view :: "view_config \<Rightarrow> bool" where
  "plausible_view c \<longleftrightarrow> plausible_eye (eye_l c) \<and> plausible_eye (eye_r c) \<and> plausible_ipd (ipd_m c)"

definition parse_view_config :: "bytes \<Rightarrow> view_config option" where
  "parse_view_config payload =
     (if length payload < VIEW_CONFIG_PAYLOAD_LEN then None
      else let f = (\<lambda>i. u32_of_le (sub_range payload (4 * i) (4 * i + 4)));
               eye = (\<lambda>base. \<lparr>fov_left = f base, fov_right = f (base + 1),
                              fov_up = f (base + 2), fov_down = f (base + 3)\<rparr>);
               config = \<lparr>eye_l = eye 0, eye_r = eye 4, ipd_m = f 8\<rparr>
           in if plausible_view config then Some config else None)"

lemma length_encode_view_config: "length (encode_view_config c) = VIEW_CONFIG_PAYLOAD_LEN"
  by (simp add: encode_view_config_def c32le.length_concat_enc view_config_values_def
      VIEW_CONFIG_PAYLOAD_LEN_def del: map_eq_conv list.map)

lemma view_config_field:
  "i < 9 \<Longrightarrow> u32_of_le (sub_range (encode_view_config c @ rest) (4 * i) (4 * i + 4)) = view_config_values c ! i"
  unfolding encode_view_config_def by (rule c32le.dec_field_at) (simp add: view_config_values_def)

text \<open>
  VIEW_CONFIG: the parser accepts exactly the encodings of plausible views (finite angles
  under 85 degrees, left of right, down below up, an IPD from 40 to 90 mm) and returns the very
  values that were sent; a payload it accepts starts with the encoding of what it returned.
\<close>
theorem view_config_exact:
  "parse_view_config payload = Some c \<longleftrightarrow>
     plausible_view c \<and> (\<exists>rest. payload = encode_view_config c @ rest)"
proof
  assume ok: "plausible_view c \<and> (\<exists>rest. payload = encode_view_config c @ rest)"
  then obtain rest where p: "payload = encode_view_config c @ rest" by blast
  have F: "u32_of_le (sub_range payload (4 * i) (4 * i + 4)) = view_config_values c ! i" if "i < 9" for i
    unfolding p using that by (rule view_config_field)
  have "VIEW_CONFIG_PAYLOAD_LEN \<le> length payload" by (simp add: p length_encode_view_config)
  then show "parse_view_config payload = Some c"
    using ok F [of 0] F [of 1] F [of 2] F [of 3] F [of 4] F [of 5] F [of 6] F [of 7] F [of 8]
    by (cases c; cases "eye_l c"; cases "eye_r c")
      (simp add: parse_view_config_def view_config_values_def Let_def)
next
  assume s: "parse_view_config payload = Some c"
  let ?f = "\<lambda>i. u32_of_le (sub_range payload (4 * i) (4 * i + 4))"
  let ?b = "take 36 payload"
  from s have len: "length ?b = 4 * 9"
    by (auto simp: parse_view_config_def VIEW_CONFIG_PAYLOAD_LEN_def split: if_splits)
  have v: "view_config_values c = map ?f [0..<9]" and pl: "plausible_view c"
    using s by (auto simp: parse_view_config_def view_config_values_def Let_def upt_rec
        numeral_eq_Suc split: if_splits)
  have m: "map ?f [0..<9] = map (\<lambda>i. u32_of_le (sub_range ?b (4 * i) (4 * i + 4))) [0..<9]"
    by (rule map_cong) (simp_all add: sub_range_def drop_take min_def)
  have "encode_view_config c = ?b"
    unfolding encode_view_config_def v m by (rule c32le.concat_fields [OF len])
  with pl show "plausible_view c \<and> (\<exists>rest. payload = encode_view_config c @ rest)"
    by (metis append_take_drop_id)
qed

section \<open>TRANSPORT_FEEDBACK\<close>

definition TRANSPORT_FEEDBACK_MAX_ENTRIES :: nat where "TRANSPORT_FEEDBACK_MAX_ENTRIES = 256"

record feedback_entry =
  fb_sequence :: u16
  fb_recv_delta_us :: u32

definition parse_transport_feedback :: "bytes \<Rightarrow> feedback_entry list option" where
  "parse_transport_feedback payload =
     (if length payload < 2 then None
      else let count = unat (u16_of_le (sub_range payload 0 2)) in
        if TRANSPORT_FEEDBACK_MAX_ENTRIES < count then None
        else let entry_size = 6 in
          if length payload < 2 + count * entry_size then None
          else Some (map (\<lambda>i. let off = 2 + i * entry_size in
                 \<lparr>fb_sequence = u16_of_le (sub_range payload off (off + 2)),
                  fb_recv_delta_us = u32_of_le (sub_range payload (off + 2) (off + 6))\<rparr>)
               [0..<count]))"

definition feedback_entry_bytes :: "feedback_entry \<Rightarrow> bytes" where
  "feedback_entry_bytes e = u16_le (fb_sequence e) @ u32_le (fb_recv_delta_us e)"

definition encode_transport_feedback :: "feedback_entry list \<Rightarrow> bytes" where
  "encode_transport_feedback entries =
     (let count = min (length entries) TRANSPORT_FEEDBACK_MAX_ENTRIES
      in u16_le (of_nat count) @ concat (map feedback_entry_bytes (take count entries)))"

definition feedback_entry_of :: "bytes \<Rightarrow> feedback_entry" where
  "feedback_entry_of bs =
     \<lparr>fb_sequence = u16_of_le (take 2 bs), fb_recv_delta_us = u32_of_le (drop 2 bs)\<rparr>"

interpretation cfb: fixed_codec feedback_entry_bytes feedback_entry_of 6
  by unfold_locales
    (auto simp: feedback_entry_bytes_def feedback_entry_of_def c16le.enc_dec c32le.enc_dec)

text \<open>
  TRANSPORT_FEEDBACK: the engine reads back the receive times the headset reported, at most
  256 of them (a longer report is cut to its first 256), whatever follows the payload.
\<close>
theorem transport_feedback_roundtrip:
  "parse_transport_feedback (encode_transport_feedback entries @ rest) =
     Some (take TRANSPORT_FEEDBACK_MAX_ENTRIES entries)"
proof -
  let ?es = "take TRANSPORT_FEEDBACK_MAX_ENTRIES entries" and ?b = "concat (map feedback_entry_bytes (take TRANSPORT_FEEDBACK_MAX_ENTRIES entries))"
  let ?p = "encode_transport_feedback entries @ rest"
  have n: "length ?es \<le> 256" by (simp add: TRANSPORT_FEEDBACK_MAX_ENTRIES_def)
  have p: "?p = u16_le (of_nat (length ?es)) @ ?b @ rest"
    by (simp add: encode_transport_feedback_def Let_def min_def)
  have c: "unat (u16_of_le (sub_range ?p 0 2)) = length ?es"
    unfolding p using n by (simp add: sub_range_append_take unat_of_nat)
  have len: "length ?p = 2 + length ?es * 6 + length rest"
    unfolding p by (simp add: cfb.length_concat_enc)
  have e: "\<lparr>fb_sequence = u16_of_le (sub_range ?p (2 + i * 6) (2 + i * 6 + 2)),
      fb_recv_delta_us = u32_of_le (sub_range ?p (2 + i * 6 + 2) (2 + i * 6 + 6))\<rparr> = ?es ! i"
    if i: "i < length ?es" for i
  proof -
    have "feedback_entry_of (sub_range (?b @ rest) (6 * i) (6 * i + 6)) = ?es ! i"
      by (rule cfb.dec_field_at [OF i])
    moreover have "sub_range ?p (2 + i * 6) (2 + i * 6 + 6) = sub_range (?b @ rest) (6 * i) (6 * i + 6)"
      unfolding p by (subst sub_range_append_skip [where n = 2]) (simp_all add: algebra_simps)
    ultimately show ?thesis
      by (metis feedback_entry_of_def take_sub_range drop_sub_range numeral_less_iff less_add_same_cancel1
          add_less_cancel_left add_le_cancel_left numeral_le_iff semiring_norm(68,69,71))
  qed
  show ?thesis
    unfolding parse_transport_feedback_def Let_def using c len e n
    by (simp add: TRANSPORT_FEEDBACK_MAX_ENTRIES_def list_eq_iff_nth_eq)
qed

end
