(* ===== verification/Rtp.thy ===== *)
theory Rtp imports Protocol begin

text \<open>
  \<open>transport/rtp.rs\<close>: the RTP and FVP headers of a video packet, the packetizer with its sequence
  counter and buffer pool, and the depacketizer. A packet is its bytes. A pooled buffer carries
  its old contents until \<open>take_buf\<close> clears it; capacities are not modelled.
  The loop that turns shards into packets is \<open>emit_packets\<close>, shared by the packetizer here and
  by the FEC path of theory Pipeline, each with its own header writer.
\<close>

definition MAX_PAYLOAD :: nat where "MAX_PAYLOAD = MTU_SIZE - PACKET_HEADER_LEN"

section \<open>Headers\<close>

definition write_rtp_header :: "bytes \<Rightarrow> u8 \<Rightarrow> bool \<Rightarrow> u16 \<Rightarrow> u32 \<Rightarrow> u32 \<Rightarrow> bytes" where
  "write_rtp_header buf payload_type marker sequence timestamp ssrc =
     (let buf = buf @ [0x80];
          mpt = (if marker then 0x80 OR (payload_type AND 0x7F) else payload_type AND 0x7F);
          buf = buf @ [mpt];
          buf = buf @ u16_be sequence;
          buf = buf @ u32_be timestamp
      in buf @ u32_be ssrc)"

definition write_fvp_header :: "bytes \<Rightarrow> u32 \<Rightarrow> u16 \<Rightarrow> u16 \<Rightarrow> u16 \<Rightarrow> u16 \<Rightarrow> bytes" where
  "write_fvp_header buf frame_index shard_index shard_count flags data_shard_count =
     (let buf = buf @ u32_le frame_index;
          buf = buf @ u16_le shard_index;
          buf = buf @ u16_le shard_count;
          buf = buf @ u16_le flags
      in buf @ u16_le data_shard_count)"

record fvp_header =
  h_frame_index :: u32
  h_shard_index :: u16
  h_shard_count :: u16
  h_flags :: u16
  h_data_shard_count :: u16

definition hdr_is_keyframe :: "fvp_header \<Rightarrow> bool" where
  "hdr_is_keyframe h \<longleftrightarrow> h_flags h AND 1 \<noteq> 0"

definition hdr_is_valid :: "fvp_header \<Rightarrow> bool" where
  "hdr_is_valid h \<longleftrightarrow> (let total = unat (h_shard_count h) in
     0 < total \<and> total \<le> MAX_FRAME_SHARDS \<and> h_shard_index h < h_shard_count h
     \<and> 0 < h_data_shard_count h \<and> h_data_shard_count h \<le> h_shard_count h)"

definition read_fvp_header :: "bytes \<Rightarrow> fvp_header option" where
  "read_fvp_header packet =
     (if length packet < PACKET_HEADER_LEN then None
      else let f = sub_range packet RTP_HEADER_LEN PACKET_HEADER_LEN in
        Some \<lparr>h_frame_index = u32_of_le (sub_range f 0 4),
              h_shard_index = u16_of_le (sub_range f 4 6),
              h_shard_count = u16_of_le (sub_range f 6 8),
              h_flags = u16_of_le (sub_range f 8 10),
              h_data_shard_count = u16_of_le (sub_range f 10 12)\<rparr>)"

lemma write_rtp_header_append: "write_rtp_header buf pt m s t c = buf @ write_rtp_header [] pt m s t c"
  by (simp add: write_rtp_header_def Let_def)

lemma write_fvp_header_append: "write_fvp_header buf fi si sc fl dc = buf @ write_fvp_header [] fi si sc fl dc"
  by (simp add: write_fvp_header_def Let_def)

lemma length_write_headers [simp]:
  "length (write_rtp_header buf pt m s t c) = length buf + RTP_HEADER_LEN"
  "length (write_fvp_header buf fi si sc fl dc) = length buf + FVP_HEADER_LEN"
  by (simp_all add: write_rtp_header_def write_fvp_header_def Let_def wire_consts)

text \<open>Any 12 bytes, an FVP header and a payload: the header is read back.\<close>

lemma read_fvp_header_parts:
  assumes "length r = RTP_HEADER_LEN"
  shows "read_fvp_header (r @ write_fvp_header [] fi si sc fl dc @ payload) =
    Some \<lparr>h_frame_index = fi, h_shard_index = si, h_shard_count = sc, h_flags = fl, h_data_shard_count = dc\<rparr>"
proof -
  let ?p = "r @ write_fvp_header [] fi si sc fl dc @ payload"
  let ?f = "write_fvp_header [] fi si sc fl dc"
  have "sub_range ?p RTP_HEADER_LEN PACKET_HEADER_LEN = ?f"
    using assms by (simp add: sub_range_append_skip sub_range_append_take wire_consts)
  moreover have "sub_range ?f 0 4 = u32_le fi" "sub_range ?f 4 6 = u16_le si" "sub_range ?f 6 8 = u16_le sc"
    "sub_range ?f 8 10 = u16_le fl" "sub_range ?f 10 12 = u16_le dc"
    by (simp_all add: write_fvp_header_def sub_range_append_skip sub_range_append_take)
      (simp add: sub_range_def)
  ultimately show ?thesis
    using assms by (simp add: read_fvp_header_def wire_consts)
qed

section \<open>Packetizer\<close>

type_synonym rtp_packet = bytes

record packetizer =
  pk_ssrc :: u32
  pk_sequence :: u16
  pk_buf_pool :: "bytes list"

definition packetizer_new :: "u32 \<Rightarrow> packetizer" where
  "packetizer_new ssrc = \<lparr>pk_ssrc = ssrc, pk_sequence = 0, pk_buf_pool = []\<rparr>"

definition take_buf :: "packetizer \<Rightarrow> bytes \<times> packetizer" where
  "take_buf p = (case pk_buf_pool p of
     [] \<Rightarrow> ([], p)
   | _ # _ \<Rightarrow> ([], p\<lparr>pk_buf_pool := butlast (pk_buf_pool p)\<rparr>))"

definition recycle :: "packetizer \<Rightarrow> rtp_packet list \<Rightarrow> packetizer" where
  "recycle p packets = p\<lparr>pk_buf_pool := pk_buf_pool p @ packets\<rparr>"

definition next_sequence :: "packetizer \<Rightarrow> u16 \<times> packetizer" where
  "next_sequence p = (pk_sequence p, p\<lparr>pk_sequence := pk_sequence p + 1\<rparr>)"

fun emit_packets ::
  "(bytes \<Rightarrow> u16 \<Rightarrow> nat \<Rightarrow> bytes \<Rightarrow> rtp_packet) \<Rightarrow> packetizer \<Rightarrow> nat \<Rightarrow> bytes list \<Rightarrow> rtp_packet list \<times> packetizer"
where
  "emit_packets write p i [] = ([], p)"
| "emit_packets write p i (chunk # rest) =
     (let (seq, p) = next_sequence p;
          (buf, p) = take_buf p;
          (packets, p) = emit_packets write p (i + 1) rest
      in (write buf seq i chunk # packets, p))"

definition packetize ::
  "packetizer \<Rightarrow> bytes \<Rightarrow> u32 \<Rightarrow> u32 \<Rightarrow> bool \<Rightarrow> rtp_packet list \<times> packetizer" where
  "packetize p frame_data frame_index timestamp_90khz is_keyframe =
     (if frame_data = [] then ([], p)
      else let cs = chunks MAX_PAYLOAD frame_data; total_chunks = length cs in
        if 65535 < total_chunks then ([], p)
        else emit_packets (\<lambda>buf seq i chunk.
            let is_last = (i = total_chunks - 1);
                buf = write_rtp_header buf RTP_PT_H265 is_last seq timestamp_90khz (pk_ssrc p);
                flags = (if is_keyframe then 1 else 0);
                buf = write_fvp_header buf frame_index (of_nat i) (of_nat total_chunks) flags (of_nat total_chunks)
            in buf @ chunk) p 0 cs)"

lemma take_buf_simps [simp]:
  "fst (take_buf p) = []" "pk_sequence (snd (take_buf p)) = pk_sequence p"
  "pk_ssrc (snd (take_buf p)) = pk_ssrc p"
  by (simp_all add: take_buf_def split: list.split)

lemma emit_packets_step:
  "fst (emit_packets w p i (c # cs)) =
     w [] (pk_sequence p) i c # fst (emit_packets w (snd (take_buf (snd (next_sequence p)))) (i + 1) cs)"
  "snd (emit_packets w p i (c # cs)) =
     snd (emit_packets w (snd (take_buf (snd (next_sequence p)))) (i + 1) cs)"
  by (simp_all add: Let_def next_sequence_def split: prod.split)
    (metis fst_conv take_buf_simps(1))+

lemma next_sequence_seq: "pk_sequence (snd (next_sequence p)) = pk_sequence p + 1"
  by (simp add: next_sequence_def)

lemma length_emit_packets: "length (fst (emit_packets w p i cs)) = length cs"
  by (induction cs arbitrary: p i) (simp_all add: emit_packets_step del: emit_packets.simps(2))

lemma emit_packets_nth:
  "j < length cs \<Longrightarrow> fst (emit_packets w p i cs) ! j = w [] (pk_sequence p + of_nat j) (i + j) (cs ! j)"
proof (induction cs arbitrary: p i j)
  case Nil
  then show ?case by simp
next
  case (Cons c cs)
  then show ?case
    by (cases j) (simp_all add: emit_packets_step next_sequence_seq add.assoc [symmetric] del: emit_packets.simps(2))
qed

lemma emit_packets_sequence:
  "pk_sequence (snd (emit_packets w p i cs)) = pk_sequence p + of_nat (length cs)"
  by (induction cs arbitrary: p i)
    (simp_all add: emit_packets_step next_sequence_seq add.assoc del: emit_packets.simps(2))

section \<open>Depacketizer\<close>

record reassembled_frame =
  rf_frame_index :: u32
  rf_is_keyframe :: bool
  rf_data :: bytes

record depacketizer =
  dp_current :: "u32 option"
  dp_shards :: "bytes option list"
  dp_expected :: nat

definition depacketizer_new :: depacketizer where
  "depacketizer_new = \<lparr>dp_current = None, dp_shards = [], dp_expected = 0\<rparr>"

definition flatten_shards :: "bytes option list \<Rightarrow> bytes" where
  "flatten_shards ss = concat (map (\<lambda>s. case s of None \<Rightarrow> [] | Some d \<Rightarrow> d) ss)"

definition rtp_feed :: "depacketizer \<Rightarrow> bytes \<Rightarrow> reassembled_frame option \<times> depacketizer" where
  "rtp_feed d packet = (case read_fvp_header packet of
     None \<Rightarrow> (None, d)
   | Some hdr \<Rightarrow>
      let marker = (packet ! 1 AND 0x80 \<noteq> 0);
          shard_index = unat (h_shard_index hdr);
          shard_count = unat (h_shard_count hdr);
          payload = drop PACKET_HEADER_LEN packet
      in if \<not> hdr_is_valid hdr then (None, d)
         else
          let d = (if dp_current d \<noteq> Some (h_frame_index hdr)
                   then d\<lparr>dp_current := Some (h_frame_index hdr),
                          dp_shards := replicate shard_count None, dp_expected := shard_count\<rparr>
                   else d);
              d = (if shard_index < length (dp_shards d)
                   then d\<lparr>dp_shards := (dp_shards d)[shard_index := Some payload]\<rparr> else d)
          in if (marker \<or> (\<forall>s\<in>set (dp_shards d). s \<noteq> None))
                \<and> length (filter (\<lambda>s. s \<noteq> None) (dp_shards d)) = dp_expected d
             then (Some \<lparr>rf_frame_index = h_frame_index hdr, rf_is_keyframe = hdr_is_keyframe hdr,
                         rf_data = flatten_shards (dp_shards d)\<rparr>,
                   d\<lparr>dp_current := None\<rparr>)
             else (None, d))"

fun rtp_feed_all :: "depacketizer \<Rightarrow> bytes list \<Rightarrow> reassembled_frame option list \<times> depacketizer" where
  "rtp_feed_all d [] = ([], d)"
| "rtp_feed_all d (p # ps) =
     (let (r, d) = rtp_feed d p; (rs, d) = rtp_feed_all d ps in (r # rs, d))"

text \<open>The shard table while the packets with indices \<open>S\<close> of a frame have arrived.\<close>

definition table_of :: "bytes list \<Rightarrow> nat set \<Rightarrow> bytes option list" where
  "table_of cs S = map (\<lambda>i. if i \<in> S then Some (cs ! i) else None) [0..<length cs]"

lemma length_table_of [simp]: "length (table_of cs S) = length cs"
  by (simp add: table_of_def)

lemma table_of_empty: "table_of cs {} = replicate (length cs) None"
  by (rule nth_equalityI) (simp_all add: table_of_def)

lemma table_of_insert: "i < length cs \<Longrightarrow> (table_of cs S)[i := Some (cs ! i)] = table_of cs (insert i S)"
  by (rule nth_equalityI) (auto simp: table_of_def nth_list_update)

lemma table_of_nth: "i < length cs \<Longrightarrow> table_of cs S ! i = (if i \<in> S then Some (cs ! i) else None)"
  by (simp add: table_of_def)

lemma table_of_count: "length (filter (\<lambda>s. s \<noteq> None) (table_of cs S)) = card (S \<inter> {..<length cs})"
proof -
  have "filter (\<lambda>s. s \<noteq> None) (table_of cs S) =
      map (\<lambda>i. if i \<in> S then Some (cs ! i) else None) (filter (\<lambda>i. i \<in> S) [0..<length cs])"
    by (simp add: table_of_def filter_map o_def)
  then have "length (filter (\<lambda>s. s \<noteq> None) (table_of cs S)) = length (filter (\<lambda>i. i \<in> S) [0..<length cs])"
    by simp
  also have "\<dots> = card (set (filter (\<lambda>i. i \<in> S) [0..<length cs]))"
    by (metis distinct_card distinct_filter distinct_upt)
  also have "set (filter (\<lambda>i. i \<in> S) [0..<length cs]) = S \<inter> {..<length cs}" by auto
  finally show ?thesis .
qed

lemma table_of_all: "(\<forall>s\<in>set (table_of cs S). s \<noteq> None) \<longleftrightarrow> {..<length cs} \<subseteq> S"
  by (auto simp: table_of_def split: if_splits)

lemma table_of_full: "{..<length cs} \<subseteq> S \<Longrightarrow> flatten_shards (table_of cs S) = concat cs"
proof -
  assume "{..<length cs} \<subseteq> S"
  then have "table_of cs S = map Some cs"
    by (intro nth_equalityI) (auto simp: table_of_def subset_iff)
  then show ?thesis by (simp add: flatten_shards_def o_def)
qed

lemma full_count_iff: "card (S \<inter> {..<n}) = n \<longleftrightarrow> {..<n} \<subseteq> S" for n :: nat
proof -
  have "card (S \<inter> {..<n}) = card {..<n} \<longleftrightarrow> S \<inter> {..<n} = {..<n}"
    by (metis card_subset_eq finite_lessThan inf_le2)
  then show ?thesis by (simp add: inf.absorb_iff2)
qed

text \<open>The packet that carries shard \<open>i\<close> of \<open>n\<close>, as both send paths write it.\<close>

definition shard_packet :: "u8 \<Rightarrow> u16 \<Rightarrow> u32 \<Rightarrow> u32 \<Rightarrow> u32 \<Rightarrow> nat \<Rightarrow> nat \<Rightarrow> u16 \<Rightarrow> nat \<Rightarrow> bytes \<Rightarrow> rtp_packet" where
  "shard_packet pt seq ts ssrc frame_index i n flags d payload =
     write_fvp_header (write_rtp_header [] pt (i = n - 1) seq ts ssrc)
       frame_index (of_nat i) (of_nat n) flags (of_nat d) @ payload"

lemma shard_packet_read:
  "read_fvp_header (shard_packet pt seq ts ssrc fi i n fl d payload) =
     Some \<lparr>h_frame_index = fi, h_shard_index = of_nat i, h_shard_count = of_nat n, h_flags = fl,
       h_data_shard_count = of_nat d\<rparr>"
  unfolding shard_packet_def write_fvp_header_append [of "write_rtp_header _ _ _ _ _ _"] append.assoc
  by (rule read_fvp_header_parts) simp

lemma shard_packet_payload: "drop PACKET_HEADER_LEN (shard_packet pt seq ts ssrc fi i n fl d payload) = payload"
proof -
  have "length (write_fvp_header (write_rtp_header [] pt (i = n - 1) seq ts ssrc) fi (of_nat i) (of_nat n) fl (of_nat d))
      = PACKET_HEADER_LEN"
    by (simp add: PACKET_HEADER_LEN_def)
  then show ?thesis by (simp add: shard_packet_def)
qed

lemma shard_valid:
  assumes "i < n" "n \<le> MAX_FRAME_SHARDS" "0 < d" "d \<le> n"
  shows "hdr_is_valid \<lparr>h_frame_index = fi, h_shard_index = of_nat i, h_shard_count = of_nat n, h_flags = fl,
       h_data_shard_count = of_nat d\<rparr>"
    and "unat (of_nat i :: u16) = i" and "unat (of_nat n :: u16) = n" and "unat (of_nat d :: u16) = d"
proof -
  have lt: "i < 65536" "n < 65536" "d < 65536" using assms by (simp_all add: MAX_FRAME_SHARDS_def)
  then show u: "unat (of_nat i :: u16) = i" "unat (of_nat n :: u16) = n" "unat (of_nat d :: u16) = d"
    by (simp_all add: unat_of_nat)
  show "hdr_is_valid \<lparr>h_frame_index = fi, h_shard_index = of_nat i, h_shard_count = of_nat n, h_flags = fl,
       h_data_shard_count = of_nat d\<rparr>"
    using assms u by (simp add: hdr_is_valid_def word_less_nat_alt word_le_nat_alt del: unat_of_nat)
qed

definition collecting :: "u32 \<Rightarrow> bytes list \<Rightarrow> nat set \<Rightarrow> depacketizer \<Rightarrow> bool" where
  "collecting fi cs S d \<longleftrightarrow>
     (dp_current d = Some fi \<and> dp_shards d = table_of cs S \<and> dp_expected d = length cs)
     \<or> (S = {} \<and> dp_current d \<noteq> Some fi)"

lemma rtp_feed_step:
  assumes "collecting fi cs S d" "i < length cs" "length cs \<le> MAX_FRAME_SHARDS"
    and pkt: "pkt = shard_packet pt seq ts ssrc fi i (length cs) fl (length cs) (cs ! i)"
  shows "{..<length cs} \<subseteq> insert i S \<Longrightarrow>
      fst (rtp_feed d pkt) = Some \<lparr>rf_frame_index = fi, rf_is_keyframe = (fl AND 1 \<noteq> 0), rf_data = concat cs\<rparr>"
    and "\<not> {..<length cs} \<subseteq> insert i S \<Longrightarrow>
      fst (rtp_feed d pkt) = None \<and> collecting fi cs (insert i S) (snd (rtp_feed d pkt))"
proof -
  let ?n = "length cs"
  have n: "0 < ?n" "?n \<le> ?n" using assms(2) by auto
  note v = shard_valid [OF assms(2) assms(3) n]
  define T where "T = insert i S"
  have t: "(table_of cs S)[i := Some (cs ! i)] = table_of cs T"
    unfolding T_def by (rule table_of_insert [OF assms(2)])
  let ?d = "d\<lparr>dp_current := Some fi, dp_shards := table_of cs T, dp_expected := ?n\<rparr>"
  have pre: "(if dp_current d \<noteq> Some fi then d\<lparr>dp_current := Some fi,
      dp_shards := replicate ?n None, dp_expected := ?n\<rparr> else d) =
      d\<lparr>dp_current := Some fi, dp_shards := table_of cs S, dp_expected := ?n\<rparr>"
    using assms(1) by (auto simp: collecting_def table_of_empty)
  have feed: "rtp_feed d pkt =
      (if {..<?n} \<subseteq> T
       then (Some \<lparr>rf_frame_index = fi, rf_is_keyframe = (fl AND 1 \<noteq> 0), rf_data = concat cs\<rparr>,
             ?d\<lparr>dp_current := None\<rparr>)
       else (None, ?d))"
    unfolding pkt rtp_feed_def shard_packet_read option.case shard_packet_payload Let_def
      fvp_header.select_convs v(2,3) pre
    using assms(2) v(1)
    by (simp add: t table_of_count table_of_all full_count_iff table_of_full
        hdr_is_keyframe_def del: not_None_eq)
  show "{..<?n} \<subseteq> insert i S \<Longrightarrow>
      fst (rtp_feed d pkt) = Some \<lparr>rf_frame_index = fi, rf_is_keyframe = (fl AND 1 \<noteq> 0), rf_data = concat cs\<rparr>"
    by (simp add: feed T_def)
  show "\<not> {..<?n} \<subseteq> insert i S \<Longrightarrow>
      fst (rtp_feed d pkt) = None \<and> collecting fi cs (insert i S) (snd (rtp_feed d pkt))"
    by (simp add: feed collecting_def T_def)
qed

lemma rtp_feed_all_collect:
  assumes "collecting fi cs S d" "length cs \<le> MAX_FRAME_SHARDS"
    and "\<And>j. j < length cs \<Longrightarrow> packets ! j = shard_packet pt (sq j) ts ssrc fi j (length cs) fl (length cs) (cs ! j)"
    and "set is \<subseteq> {..<length cs}" "k < length cs" "k \<notin> S \<union> set is" "{..<length cs} \<subseteq> insert k (S \<union> set is)"
  shows "fst (rtp_feed_all d (map ((!) packets) (is @ [k]))) =
    replicate (length is) None @
    [Some \<lparr>rf_frame_index = fi, rf_is_keyframe = (fl AND 1 \<noteq> 0), rf_data = concat cs\<rparr>]"
  using assms(1,4,6,7)
proof (induction "is" arbitrary: S d)
  case Nil
  then show ?case
    using rtp_feed_step(1) [OF Nil(1) assms(5,2) assms(3) [OF assms(5)]] assms(5)
    by (simp add: split_beta)
next
  case (Cons i js)
  then have i: "i < length cs" "\<not> {..<length cs} \<subseteq> insert i S" using assms(5) by auto
  note st = rtp_feed_step(2) [OF Cons.prems(1) i(1) assms(2) assms(3) [OF i(1)] i(2)]
  have "fst (rtp_feed_all (snd (rtp_feed d (packets ! i))) (map ((!) packets) (js @ [k]))) =
    replicate (length js) None @
    [Some \<lparr>rf_frame_index = fi, rf_is_keyframe = (fl AND 1 \<noteq> 0), rf_data = concat cs\<rparr>]"
    using Cons.prems i st by (intro Cons.IH [of "insert i S"]) (auto simp: assms(3) [OF i(1)])
  then show ?case using st by (simp add: split_beta assms(3) [OF i(1)])
qed

lemma packetize_nth:
  assumes "data \<noteq> []" "length (chunks MAX_PAYLOAD data) \<le> MAX_FRAME_SHARDS"
  defines "cs \<equiv> chunks MAX_PAYLOAD data"
  shows "length (fst (packetize p data fi ts kf)) = length cs"
    and "j < length cs \<Longrightarrow> fst (packetize p data fi ts kf) ! j =
      shard_packet RTP_PT_H265 (pk_sequence p + of_nat j) ts (pk_ssrc p) fi j (length cs)
        (if kf then 1 else 0) (length cs) (cs ! j)"
  using assms
  by (simp_all add: packetize_def Let_def MAX_FRAME_SHARDS_def length_emit_packets emit_packets_nth
      shard_packet_def del: emit_packets.simps)



end
