(* ===== verification/Fec.thy ===== *)
theory Fec imports Rtp begin

text \<open>
  \<open>transport/fec.rs\<close>: the Reed-Solomon encoder with its cached code instance, the decoder, and the
  controller that adapts the redundancy to the loss rate. The crate \<open>reed_solomon_erasure\<close> is a
  parameter: \<open>rs_code\<close> holds the results of its three entry points (\<open>ReedSolomon::new\<close>,
  \<open>encode\<close>, \<open>reconstruct\<close>), and \<open>rs_sound rs d p\<close> states what its documentation promises of the
  code with \<open>d\<close> data and \<open>p\<close> parity shards: it exists, encoding keeps the data shards, and any
  \<open>d\<close> shards rebuild the rest. A cached instance is the pair of counts it was made for. The
  text of the crate's errors is dropped. A panic (\<open>clamp\<close> with an empty range) is \<open>None\<close>.
\<close>

section \<open>The erasure code\<close>

record rs_code =
  rs_new_ok :: "nat \<Rightarrow> nat \<Rightarrow> bool"
  rs_encode :: "nat \<Rightarrow> nat \<Rightarrow> bytes list \<Rightarrow> bytes list option"
  rs_reconstruct :: "nat \<Rightarrow> nat \<Rightarrow> bytes option list \<Rightarrow> bytes option list option"

definition RS_MAX_TOTAL_SHARDS :: nat where "RS_MAX_TOTAL_SHARDS = 256"

definition rs_rebuilds :: "rs_code \<Rightarrow> nat \<Rightarrow> nat \<Rightarrow> bytes list \<Rightarrow> bool" where
  "rs_rebuilds rs d p out \<longleftrightarrow>
     (\<forall>table. length table = d + p \<and> d \<le> length (filter (\<lambda>s. s \<noteq> None) table)
        \<and> (\<forall>i<d + p. table ! i = None \<or> table ! i = Some (out ! i)) \<longrightarrow>
        rs_reconstruct rs d p table = Some (map Some out))"

definition rs_sound :: "rs_code \<Rightarrow> nat \<Rightarrow> nat \<Rightarrow> bool" where
  "rs_sound rs d p \<longleftrightarrow> rs_new_ok rs d p \<and>
     (\<forall>shards n. length shards = d + p \<and> 0 < n \<and> (\<forall>s\<in>set shards. length s = n) \<longrightarrow>
        (\<exists>out. rs_encode rs d p shards = Some out \<and> length out = d + p \<and> take d out = take d shards
          \<and> (\<forall>s\<in>set out. length s = n) \<and> rs_rebuilds rs d p out))"

datatype fec_error = EmptyInput | UnequalShards | InsufficientShards | ReedSolomon

section \<open>Encoder and decoder\<close>

record fec_encoder =
  fe_redundancy :: fl
  fe_cached_rs :: "(nat \<times> nat) option"
  fe_cached_data :: nat
  fe_cached_parity :: nat

definition fec_new :: "fl \<Rightarrow> fec_encoder" where
  "fec_new redundancy = \<lparr>fe_redundancy = f_clamp (Fin 0) (Fin 1) redundancy, fe_cached_rs = None,
     fe_cached_data = 0, fe_cached_parity = 0\<rparr>"

definition parity_for :: "fec_encoder \<Rightarrow> nat \<Rightarrow> nat" where
  "parity_for e data_count =
     max (f_as_u64 (f_ceil (f_mul b32 (f_of_nat b32 data_count) (fe_redundancy e)))) 1"

definition max_data_shards :: "fec_encoder \<Rightarrow> nat" where
  "max_data_shards e =
     (case List.find (\<lambda>d. d + parity_for e d \<le> RS_MAX_TOTAL_SHARDS) (rev [1..<RS_MAX_TOTAL_SHARDS]) of
        Some d \<Rightarrow> d | None \<Rightarrow> 0)"

definition set_redundancy :: "fec_encoder \<Rightarrow> fl \<Rightarrow> fec_encoder" where
  "set_redundancy e redundancy =
     (let new = f_clamp (Fin 0) (Fin 1) redundancy in
      if epsilon b32 < f_abs (f_sub b32 new (fe_redundancy e))
      then e\<lparr>fe_redundancy := new, fe_cached_rs := None\<rparr> else e)"

definition unequal_shards :: "bytes list \<Rightarrow> bool" where
  "unequal_shards shards \<longleftrightarrow> (\<exists>s\<in>set shards. length s \<noteq> length (shards ! 0))"

text \<open>The instance to encode with: the cached one while its counts match, otherwise a new one.\<close>

definition fec_instance :: "rs_code \<Rightarrow> fec_encoder \<Rightarrow> nat \<Rightarrow> nat \<Rightarrow> fec_encoder option" where
  "fec_instance rs e data_count parity_count =
     (if fe_cached_rs e = None \<or> fe_cached_data e \<noteq> data_count \<or> fe_cached_parity e \<noteq> parity_count
      then if rs_new_ok rs data_count parity_count
           then Some (e\<lparr>fe_cached_rs := Some (data_count, parity_count),
                  fe_cached_data := data_count, fe_cached_parity := parity_count\<rparr>)
           else None
      else Some e)"

definition fec_encode ::
  "rs_code \<Rightarrow> fec_encoder \<Rightarrow> bytes list \<Rightarrow> (fec_error + bytes list) \<times> fec_encoder" where
  "fec_encode rs e data_shards =
     (if data_shards = [] then (Inl EmptyInput, e)
      else let data_count = length data_shards; parity_count = parity_for e data_count;
               shard_len = length (data_shards ! 0)
      in if unequal_shards data_shards then (Inl UnequalShards, e)
      else case fec_instance rs e data_count parity_count of
          None \<Rightarrow> (Inl ReedSolomon, e)
        | Some e' \<Rightarrow>
            let all = data_shards @ replicate parity_count (replicate shard_len 0)
            in case rs_encode rs (fst (the (fe_cached_rs e'))) (snd (the (fe_cached_rs e'))) all of
                None \<Rightarrow> (Inl ReedSolomon, e')
              | Some out \<Rightarrow> (Inr out, e'))"

definition fec_decode :: "rs_code \<Rightarrow> bytes option list \<Rightarrow> nat \<Rightarrow> fec_error + bytes list" where
  "fec_decode rs shards data_count =
     (let total = length shards in
      if total \<le> data_count then Inl InsufficientShards
      else let parity_count = total - data_count in
        if \<not> rs_new_ok rs data_count parity_count then Inl ReedSolomon
        else case rs_reconstruct rs data_count parity_count shards of
            None \<Rightarrow> Inl ReedSolomon
          | Some full \<Rightarrow> Inr (map the (take data_count full)))"

text \<open>The cache agrees with the counts next to it, so a reused instance is the one asked for.\<close>

definition fec_cache_ok :: "fec_encoder \<Rightarrow> bool" where
  "fec_cache_ok e \<longleftrightarrow> (\<forall>d p. fe_cached_rs e = Some (d, p) \<longrightarrow> d = fe_cached_data e \<and> p = fe_cached_parity e)"

lemma fec_cache_new [inv_intros]: "fec_cache_ok (fec_new r)"
  by (simp add: fec_new_def fec_cache_ok_def)

lemma fec_cache_set [inv_intros]: "fec_cache_ok e \<Longrightarrow> fec_cache_ok (set_redundancy e r)"
  by (simp add: set_redundancy_def fec_cache_ok_def Let_def)

lemma fec_instance_props:
  assumes "fec_cache_ok e" "fec_instance rs e d p = Some e'"
  shows "fe_cached_rs e' = Some (d, p)" and "fec_cache_ok e'" and "fe_redundancy e' = fe_redundancy e"
  using assms by (auto simp: fec_instance_def fec_cache_ok_def split: if_splits)

lemma fec_encode_state:
  "snd (fec_encode rs e shards) = e \<or>
   fec_instance rs e (length shards) (parity_for e (length shards)) = Some (snd (fec_encode rs e shards))"
  by (simp add: fec_encode_def Let_def split: option.split)

lemma fec_cache_encode [inv_intros]: "fec_cache_ok e \<Longrightarrow> fec_cache_ok (snd (fec_encode rs e shards))"
  using fec_encode_state [of rs e shards] fec_instance_props(2) by metis

lemma fec_encode_redundancy: "fec_cache_ok e \<Longrightarrow> fe_redundancy (snd (fec_encode rs e shards)) = fe_redundancy e"
  using fec_encode_state [of rs e shards] fec_instance_props(3) by metis

lemma parity_for_pos: "0 < parity_for e d"
  by (simp add: parity_for_def)

text \<open>With a sound code the encoder keeps the data shards and adds \<open>parity_for\<close> parity shards,
  and any \<open>d\<close> of the result decode to the data.\<close>

lemma fec_encode_sound:
  assumes "fec_cache_ok e" and "data \<noteq> []" and "\<forall>s\<in>set data. length s = n" and "0 < n"
    and "rs_sound rs (length data) (parity_for e (length data))"
  obtains out where "fst (fec_encode rs e data) = Inr out"
    and "length out = length data + parity_for e (length data)" and "take (length data) out = data"
    and "\<forall>s\<in>set out. length s = n"
    and "\<And>table. length table = length out \<Longrightarrow> length data \<le> length (filter (\<lambda>s. s \<noteq> None) table) \<Longrightarrow>
       \<forall>i<length out. table ! i = None \<or> table ! i = Some (out ! i) \<Longrightarrow>
       fec_decode rs table (length data) = Inr data"
proof -
  let ?d = "length data" and ?p = "parity_for e (length data)"
  let ?all = "data @ replicate ?p (replicate n 0)"
  have n0: "length (data ! 0) = n" using assms(2,3) by (cases data) auto
  have "length ?all = ?d + ?p" "\<forall>s\<in>set ?all. length s = n" using assms(3) by auto
  with assms(5,4) obtain out where out: "rs_encode rs ?d ?p ?all = Some out" "length out = ?d + ?p"
      "take ?d out = take ?d ?all" "\<forall>s\<in>set out. length s = n"
      and rec: "rs_rebuilds rs ?d ?p out"
    unfolding rs_sound_def by blast
  have ok: "rs_new_ok rs ?d ?p" using assms(5) by (simp add: rs_sound_def)
  have "fec_instance rs e ?d ?p \<noteq> None" using ok by (simp add: fec_instance_def)
  then obtain e' where e': "fec_instance rs e ?d ?p = Some e'" by blast
  note inst = fec_instance_props [OF assms(1) e']
  have "\<not> unequal_shards data" using assms(3) n0 by (simp add: unequal_shards_def)
  then have "fst (fec_encode rs e data) = Inr out"
    unfolding fec_encode_def Let_def using assms(2) out(1) by (simp add: e' inst(1) n0)
  moreover have "fec_decode rs table ?d = Inr data"
    if "length table = length out" "?d \<le> length (filter (\<lambda>s. s \<noteq> None) table)"
      "\<forall>i<length out. table ! i = None \<or> table ! i = Some (out ! i)" for table
  proof -
    have "rs_reconstruct rs ?d ?p table = Some (map Some out)" using that out(2) rec by (simp add: rs_rebuilds_def)
    moreover have "map the (take ?d (map Some out)) = data"
      using out(3) by (simp add: take_map o_def)
    ultimately show ?thesis
      using that(1) out(2) parity_for_pos [of e ?d] ok by (simp add: fec_decode_def)
  qed
  ultimately show thesis using that [of out] out by simp
qed

section \<open>How many parity shards\<close>

lemma is_float_nat: "n \<le> 2 ^ 24 \<Longrightarrow> is_float b32 (of_nat n)"
  using fmt32.is_float_int [of "int n"] by (simp add: b32_def)

lemma f_of_nat_exact: "n \<le> 2 ^ 24 \<Longrightarrow> f_of_nat b32 n = Fin (of_nat n)"
  using is_float_nat by (simp add: is_float_def)

lemma fl_le_ceil: "Fin a \<le> Fin b \<Longrightarrow> f_ceil (Fin a) \<le> f_ceil (Fin b)"
  by (simp add: ceiling_mono)

text \<open>The parity count for a redundancy \<open>r\<close> in \<open>[0, 1]\<close>, in the integers.\<close>

lemma parity_for_eq:
  assumes "fe_redundancy e = Fin r" "0 \<le> r" "r \<le> 1" "d \<le> 2 ^ 24"
  shows "\<exists>q. rnd b32 (of_nat d * r) = Fin q \<and> 0 \<le> q \<and> q \<le> of_nat d
    \<and> parity_for e d = max (nat \<lceil>q\<rceil>) 1"
proof -
  have "of_nat d * r \<le> of_nat d * 1" using assms by (intro mult_left_mono) auto
  then obtain q where q: "rnd b32 (of_nat d * r) = Fin q" "0 \<le> q" "q \<le> of_nat d"
    using fmt32.rnd_between [OF fmt32.is_float_0 is_float_nat, of d "of_nat d * r"] assms by auto
  have "\<lceil>q\<rceil> \<le> int d" using q(3) by (simp add: ceiling_le_iff)
  moreover have "0 \<le> \<lceil>q\<rceil>" using q(2) by linarith
  ultimately have "f_as_u64 (Fin (of_int \<lceil>q\<rceil>)) = nat \<lceil>q\<rceil>"
    using assms(4) by (simp add: f_as_u64_def trunc_rat_def)
  then show ?thesis
    using q assms by (simp add: parity_for_def f_of_nat_exact)
qed

lemma parity_for_mono:
  assumes "fe_redundancy e = Fin r" "0 \<le> r" "r \<le> 1" "d \<le> d'" "d' \<le> 2 ^ 24"
  shows "parity_for e d \<le> parity_for e d'"
proof -
  have "d \<le> 2 ^ 24" using assms(4,5) by linarith
  then obtain q where q: "rnd b32 (of_nat d * r) = Fin q" "parity_for e d = max (nat \<lceil>q\<rceil>) 1"
    using parity_for_eq [OF assms(1-3), of d] by blast
  obtain q' where q': "rnd b32 (of_nat d' * r) = Fin q'" "parity_for e d' = max (nat \<lceil>q'\<rceil>) 1"
    using parity_for_eq [OF assms(1-3,5)] by blast
  have "of_nat d * r \<le> of_nat d' * r" using assms(2,4) by (intro mult_right_mono) auto
  then have "rnd b32 (of_nat d * r) \<le> rnd b32 (of_nat d' * r)" by (rule fmt32.rnd_mono)
  then have "\<lceil>q\<rceil> \<le> \<lceil>q'\<rceil>" using q(1) q'(1) by (simp add: ceiling_mono)
  then have "max (nat \<lceil>q\<rceil>) 1 \<le> max (nat \<lceil>q'\<rceil>) 1" by (intro max.mono nat_mono) auto
  then show ?thesis using q(2) q'(2) by simp
qed

lemma max_data_shards_cases:
  "(max_data_shards e = 0 \<and> (\<forall>d. 1 \<le> d \<and> d < 256 \<longrightarrow> 256 < d + parity_for e d))
   \<or> (1 \<le> max_data_shards e \<and> max_data_shards e < 256
      \<and> max_data_shards e + parity_for e (max_data_shards e) \<le> 256)"
proof (cases "List.find (\<lambda>d. d + parity_for e d \<le> RS_MAX_TOTAL_SHARDS) (rev [1..<RS_MAX_TOTAL_SHARDS])")
  case None
  then have "max_data_shards e = 0" by (simp add: max_data_shards_def)
  moreover have "256 < d + parity_for e d" if "1 \<le> d" "d < 256" for d
  proof -
    have "d \<in> set (rev [1..<RS_MAX_TOTAL_SHARDS])" using that by (simp add: RS_MAX_TOTAL_SHARDS_def)
    with None have "\<not> d + parity_for e d \<le> RS_MAX_TOTAL_SHARDS" by (simp only: find_None_iff) blast
    then show ?thesis by (simp add: RS_MAX_TOTAL_SHARDS_def)
  qed
  ultimately show ?thesis by blast
next
  case (Some d)
  then have "d \<in> set (rev [1..<RS_MAX_TOTAL_SHARDS])" "d + parity_for e d \<le> RS_MAX_TOTAL_SHARDS"
    unfolding find_Some_iff by (metis nth_mem)+
  then have "1 \<le> d" "d < 256" "d + parity_for e d \<le> 256" by (simp_all add: RS_MAX_TOTAL_SHARDS_def)
  with Some show ?thesis by (simp add: max_data_shards_def RS_MAX_TOTAL_SHARDS_def)
qed

lemma max_data_shards_fits:
  assumes "fe_redundancy e = Fin r" "0 \<le> r" "r \<le> 1" "d \<le> max_data_shards e" "0 < d"
  shows "d + parity_for e d \<le> RS_MAX_TOTAL_SHARDS"
proof -
  from assms(4,5) max_data_shards_cases [of e]
  have m: "max_data_shards e < 256" "max_data_shards e + parity_for e (max_data_shards e) \<le> 256" by auto
  then have "parity_for e d \<le> parity_for e (max_data_shards e)"
    using assms by (intro parity_for_mono) auto
  with m assms(4) show ?thesis by (simp add: RS_MAX_TOTAL_SHARDS_def)
qed

lemma max_data_shards_greatest:
  assumes "d < 256" "0 < d" "d + parity_for e d \<le> 256"
  shows "d \<le> max_data_shards e"
proof (cases "List.find (\<lambda>d. d + parity_for e d \<le> RS_MAX_TOTAL_SHARDS) (rev [1..<RS_MAX_TOTAL_SHARDS])")
  case None
  with assms show ?thesis by (auto simp: find_None_iff RS_MAX_TOTAL_SHARDS_def)
next
  case (Some m)
  let ?L = "rev [1..<RS_MAX_TOTAL_SHARDS]"
  have nth: "j < 255 \<Longrightarrow> ?L ! j = 255 - j" for j by (simp add: rev_nth RS_MAX_TOTAL_SHARDS_def)
  from Some obtain i where I: "i < length ?L" "m = ?L ! i" "\<forall>j<i. \<not> ?L ! j + parity_for e (?L ! j) \<le> RS_MAX_TOTAL_SHARDS"
    unfolding find_Some_iff by blast
  have i: "i < 255" "m = 255 - i" using I(1,2) by (simp_all add: nth RS_MAX_TOTAL_SHARDS_def rev_nth)
  have "d \<le> m"
  proof (rule ccontr)
    assume "\<not> d \<le> m"
    with i assms(1) have "255 - d < i" by linarith
    moreover have "?L ! (255 - d) = d" using assms(1,2) by (subst nth) auto
    ultimately have "\<not> d + parity_for e d \<le> RS_MAX_TOTAL_SHARDS" using I(3) by force
    with assms(3) show False by (simp add: RS_MAX_TOTAL_SHARDS_def)
  qed
  with Some show ?thesis by (simp add: max_data_shards_def)
qed

text \<open>
  C9. One Reed-Solomon code word takes a slice of \<open>d\<close> data shards together with the parity shards
  the encoder adds to it exactly when \<open>d\<close> is at most \<open>max_data_shards\<close>.
\<close>
theorem code_word_capacity:
  assumes "fe_redundancy e = Fin r" "0 \<le> r" "r \<le> 1" "0 < d" "d < 256"
  shows "d \<le> max_data_shards e \<longleftrightarrow> d + parity_for e d \<le> RS_MAX_TOTAL_SHARDS"
  using max_data_shards_fits [OF assms(1-3)] max_data_shards_greatest [OF assms(5,4)] assms(4)
  by (auto simp: RS_MAX_TOTAL_SHARDS_def)

lemma code_word_capacity_witness:
  "200 \<le> max_data_shards (fec_new (Fin (1 / 2))) \<longleftrightarrow>
     200 + parity_for (fec_new (Fin (1 / 2))) 200 \<le> RS_MAX_TOTAL_SHARDS"
  by (rule code_word_capacity [of _ "1 / 2"]) (simp_all add: fec_new_def f_clamp_Fin)

lemma max_data_shards_eqI:
  assumes "fe_redundancy e = Fin r" "0 \<le> r" "r \<le> 1" "0 < m" "m < 255"
    and "m + parity_for e m \<le> 256" "256 < m + 1 + parity_for e (m + 1)"
  shows "max_data_shards e = m"
proof (rule antisym)
  show "m \<le> max_data_shards e" using assms by (intro max_data_shards_greatest) auto
  show "max_data_shards e \<le> m"
  proof (rule ccontr)
    assume "\<not> max_data_shards e \<le> m"
    then have "m + 1 + parity_for e (m + 1) \<le> RS_MAX_TOTAL_SHARDS"
      by (intro max_data_shards_fits [OF assms(1-3)]) auto
    with assms(7) show False by (simp add: RS_MAX_TOTAL_SHARDS_def)
  qed
qed

lemma parity_for_value:
  assumes "fe_redundancy e = Fin r" "f_mul b32 (Fin x) (Fin r) = Fin q" "x = of_nat d" "d \<le> 2 ^ 24"
    and "\<lceil>q\<rceil> = int k" "0 < k" "k < 2 ^ 63"
  shows "parity_for e d = k"
  using assms by (simp add: parity_for_def f_of_nat_exact f_as_u64_def trunc_rat_def)

text \<open>
  The capacities the documentation of the encoder gives: 213 data shards at 20 %
  redundancy, 182 at 40 %, 128 at 100 %.
\<close>
theorem documented_capacities:
  "max_data_shards (fec_new (f32_lit (1 / 5))) = 213
   \<and> max_data_shards (fec_new (f32_lit (2 / 5))) = 182
   \<and> max_data_shards (fec_new (Fin 1)) = 128"
proof -
  have lit: "f32_lit (1 / 5) = Fin (13421773 / 67108864)" "f32_lit (2 / 5) = Fin (13421773 / 33554432)"
    by code_simp+
  have r: "fe_redundancy (fec_new (f32_lit (1 / 5))) = Fin (13421773 / 67108864)"
    "fe_redundancy (fec_new (f32_lit (2 / 5))) = Fin (13421773 / 33554432)"
    "fe_redundancy (fec_new (Fin 1)) = Fin 1"
    by (simp_all only: lit fec_new_def f_clamp_Fin fec_encoder.select_convs) simp_all
  have m: "f_mul b32 (Fin 213) (Fin (13421773 / 67108864)) = Fin (11167335 / 262144)"
    "f_mul b32 (Fin 214) (Fin (13421773 / 67108864)) = Fin (11219763 / 262144)"
    "f_mul b32 (Fin 182) (Fin (13421773 / 33554432)) = Fin (4771021 / 65536)"
    "f_mul b32 (Fin 183) (Fin (13421773 / 33554432)) = Fin (9594471 / 131072)"
    "f_mul b32 (Fin 128) (Fin 1) = Fin 128" "f_mul b32 (Fin 129) (Fin 1) = Fin 129"
    by code_simp+
  have c: "\<lceil>11167335 / 262144 :: rat\<rceil> = 43" "\<lceil>11219763 / 262144 :: rat\<rceil> = 43"
    "\<lceil>4771021 / 65536 :: rat\<rceil> = 73" "\<lceil>9594471 / 131072 :: rat\<rceil> = 74"
    by (rule ceiling_unique; simp)+
  have p: "parity_for (fec_new (f32_lit (1 / 5))) 213 = 43"
    "parity_for (fec_new (f32_lit (1 / 5))) 214 = 43"
    "parity_for (fec_new (f32_lit (2 / 5))) 182 = 73"
    "parity_for (fec_new (f32_lit (2 / 5))) 183 = 74"
    "parity_for (fec_new (Fin 1)) 128 = 128" "parity_for (fec_new (Fin 1)) 129 = 129"
    using parity_for_value [OF r(1) m(1)] parity_for_value [OF r(1) m(2)]
      parity_for_value [OF r(2) m(3)] parity_for_value [OF r(2) m(4)]
      parity_for_value [OF r(3) m(5)] parity_for_value [OF r(3) m(6)]
    by (simp_all add: c)
  show ?thesis
    using max_data_shards_eqI [OF r(1), of 213] max_data_shards_eqI [OF r(2), of 182]
      max_data_shards_eqI [OF r(3), of 128]
    by (simp add: p)
qed

section \<open>Adaptive redundancy\<close>

record adaptive_fec =
  af_current :: fl
  af_min :: fl
  af_max :: fl
  af_max_change :: fl
  af_boost :: bool
  af_last_adjustment :: instant
  af_interval :: duration

text \<open>The largest change per step, 5 %.\<close>

definition FEC_STEP :: fl where "FEC_STEP = f32_lit (5 / 100)"

definition afc_new :: "instant \<Rightarrow> fl \<Rightarrow> fl \<Rightarrow> fl \<Rightarrow> adaptive_fec option" where
  "afc_new now min_redundancy max_redundancy initial =
     (let mn = f_clamp (Fin 0) (Fin 1) min_redundancy in
      case f_clamp_checked mn (Fin 1) max_redundancy of
        None \<Rightarrow> None
      | Some mx \<Rightarrow> (case f_clamp_checked mn mx initial of
            None \<Rightarrow> None
          | Some c \<Rightarrow> Some \<lparr>af_current = c, af_min = mn, af_max = mx, af_max_change = FEC_STEP,
                af_boost = False, af_last_adjustment = now, af_interval = nanos_per_sec\<rparr>))"

definition afc_loss :: "fl \<Rightarrow> fl" where
  "afc_loss loss_rate =
     (if f_is_nan loss_rate \<or> f_is_infinite loss_rate then Fin 0 else f_clamp (Fin 0) (Fin 1) loss_rate)"

definition afc_target :: "fl \<Rightarrow> fl" where
  "afc_target loss =
     (if loss < f64_lit (1 / 100) then f32_lit (5 / 100)
      else if loss < f64_lit (3 / 100) then f32_lit (15 / 100)
      else if loss < f64_lit (5 / 100) then f32_lit (25 / 100)
      else f32_lit (40 / 100))"

definition afc_adjust :: "instant \<Rightarrow> adaptive_fec \<Rightarrow> fl \<Rightarrow> (bool \<times> adaptive_fec) option" where
  "afc_adjust now a loss_rate =
     (if now - af_last_adjustment a < af_interval a then Some (False, a)
      else case f_clamp_checked (af_min a) (af_max a) (afc_target (afc_loss loss_rate)) of
        None \<Rightarrow> None
      | Some target \<Rightarrow>
         let diff = f_sub b32 target (af_current a) in
         (case f_clamp_checked (f_neg (af_max_change a)) (af_max_change a) diff of
            None \<Rightarrow> None
          | Some clamped_diff \<Rightarrow>
             (case f_clamp_checked (af_min a) (af_max a) (f_add b32 (af_current a) clamped_diff) of
                None \<Rightarrow> None
              | Some new \<Rightarrow>
                 if epsilon b32 < f_abs (f_sub b32 new (af_current a))
                 then Some (True, a\<lparr>af_current := new, af_last_adjustment := now\<rparr>)
                 else Some (False, a))))"

definition activate_boost :: "adaptive_fec \<Rightarrow> adaptive_fec" where
  "activate_boost a = a\<lparr>af_boost := True\<rparr>"

definition deactivate_boost :: "adaptive_fec \<Rightarrow> adaptive_fec" where
  "deactivate_boost a = a\<lparr>af_boost := False\<rparr>"

definition effective_redundancy :: "adaptive_fec \<Rightarrow> fl" where
  "effective_redundancy a = (if af_boost a then f_max (af_max a) (af_current a) else af_current a)"

definition bandwidth_delta_from_default :: "adaptive_fec \<Rightarrow> fl" where
  "bandwidth_delta_from_default a = f_sub b32 (f32_lit (20 / 100)) (effective_redundancy a)"

text \<open>What a controller keeps: \<open>0 \<le> min \<le> current \<le> max \<le> 1\<close>, all \<open>f32\<close> numbers.\<close>

definition afc_inv :: "adaptive_fec \<Rightarrow> bool" where
  "afc_inv a \<longleftrightarrow> (\<exists>mn c mx. af_min a = Fin mn \<and> af_current a = Fin c \<and> af_max a = Fin mx
     \<and> 0 \<le> mn \<and> mn \<le> c \<and> c \<le> mx \<and> mx \<le> 1 \<and> is_float b32 mn \<and> is_float b32 c \<and> is_float b32 mx)
     \<and> af_max_change a = FEC_STEP \<and> af_interval a = nanos_per_sec"

lemma FEC_STEP_value: "FEC_STEP = Fin (13421773 / 268435456)"
  by code_simp

lemma afc_target_range: "\<exists>t. afc_target l = Fin t \<and> 1 / 32 \<le> t \<and> t \<le> 1 / 2"
proof -
  have "f32_lit (5 / 100) = Fin (13421773 / 268435456)" "f32_lit (15 / 100) = Fin (5033165 / 33554432)"
    "f32_lit (25 / 100) = Fin (1 / 4)" "f32_lit (40 / 100) = Fin (13421773 / 33554432)"
    by code_simp+
  then have "afc_target l = Fin (13421773 / 268435456) \<or> afc_target l = Fin (5033165 / 33554432)
      \<or> afc_target l = Fin (1 / 4) \<or> afc_target l = Fin (13421773 / 33554432)"
    by (simp add: afc_target_def)
  then show ?thesis by auto
qed

lemma afc_inv_new [inv_intros]:
  assumes "min_r \<noteq> NaN" "max_r \<noteq> NaN" "init \<noteq> NaN"
    and "in_format b32 min_r" "in_format b32 max_r" "in_format b32 init"
  shows "\<exists>a. afc_new now min_r max_r init = Some a \<and> afc_inv a"
proof -
  obtain mn where mn: "f_clamp (Fin 0) (Fin 1) min_r = Fin mn" "0 \<le> mn" "mn \<le> 1"
    using f_clamp_finite [of 0 1 min_r] assms(1) by auto
  obtain mx where mx: "f_clamp (Fin mn) (Fin 1) max_r = Fin mx" "mn \<le> mx" "mx \<le> 1"
    using f_clamp_finite [OF mn(3) assms(2)] by auto
  obtain c where c: "f_clamp (Fin mn) (Fin mx) init = Fin c" "mn \<le> c" "c \<le> mx"
    using f_clamp_finite [OF mx(2) assms(3)] by auto
  have "is_float b32 mn" using f_clamp_in_format [of b32 "Fin 0" "Fin 1" min_r] assms(4) mn(1) by simp
  moreover from this have "is_float b32 mx"
    using f_clamp_in_format [of b32 "Fin mn" "Fin 1" max_r] assms(5) mx(1) by simp
  moreover from this calculation have "is_float b32 c"
    using f_clamp_in_format [of b32 "Fin mn" "Fin mx" init] assms(6) c(1) by simp
  ultimately show ?thesis
    using mn mx c by (simp add: afc_new_def f_clamp_checked_def Let_def afc_inv_def)
qed

lemma afc_new_nan: "afc_new now NaN mx init = None"
  by (simp add: afc_new_def f_clamp_checked_def)

text \<open>One adjustment, in numbers: \<open>t\<close> is the clamped target, \<open>n\<close> the new redundancy.\<close>

lemma afc_step:
  assumes "mn \<le> c" "c \<le> mx" "0 \<le> mn" "mx \<le> 1" "mn \<le> t" "t \<le> mx"
    and "is_float b32 mn" "is_float b32 c" "is_float b32 mx"
  obtains e n where
    "f_clamp (f_neg (FEC_STEP)) (FEC_STEP) (f_sub b32 (Fin t) (Fin c)) = Fin e"
    and "f_clamp (Fin mn) (Fin mx) (f_add b32 (Fin c) (Fin e)) = Fin n"
    and "mn \<le> n" "n \<le> mx" "is_float b32 n" "\<bar>n - c\<bar> \<le> 501 / 10000"
    and "c \<le> t \<Longrightarrow> c \<le> n" "t \<le> c \<Longrightarrow> n \<le> c"
proof -
  let ?s = "13421773 / 268435456 :: rat"
  obtain dd where dd: "rnd b32 (t - c) = Fin dd" "-1 \<le> dd" "dd \<le> 1" "is_float b32 dd"
    using fmt32.rnd_between [OF fmt32.is_float_minus [OF fmt32.is_float_1] fmt32.is_float_1, of "t - c"] assms by auto
  have sgn: "c \<le> t \<Longrightarrow> 0 \<le> dd" "t \<le> c \<Longrightarrow> dd \<le> 0"
    using fmt32.rnd_mono [of 0 "t - c"] fmt32.rnd_mono [of "t - c" 0] dd(1) by auto
  define e where "e = (if dd < - ?s then - ?s else if ?s < dd then ?s else dd)"
  have e: "\<bar>e\<bar> \<le> ?s" "c \<le> t \<Longrightarrow> 0 \<le> e" "t \<le> c \<Longrightarrow> e \<le> 0" using sgn by (auto simp: e_def)
  have "- ?s \<le> e" "e \<le> ?s" using e(1) by linarith+
  then have ce: "\<bar>c + e\<bar> < 3 / 2" using assms(1-4) unfolding abs_less_iff by linarith
  have "is_float b32 2" using fmt32.is_float_int [of 2] by (simp add: b32_def)
  moreover have "- 2 \<le> c + e" "c + e \<le> 2" using ce by linarith+
  ultimately obtain m where m: "rnd b32 (c + e) = Fin m" "is_float b32 m"
    using fmt32.rnd_between [OF fmt32.is_float_minus, of 2 2 "c + e"] by auto
  have "\<bar>m - (c + e)\<bar> \<le> pow2 (0 - (prec b32 - 1)) / 2"
    using fmt32.rnd_error_below [OF m(1), of 0] ce by (simp add: b32_def pow2_def)
  moreover have "pow2 (0 - (prec b32 - 1)) \<le> 1 / 100000" by (simp add: b32_def pow2_def)
  ultimately have mc: "\<bar>m - c\<bar> \<le> 501 / 10000" using e(1) by linarith
  have dir: "c \<le> t \<Longrightarrow> c \<le> m" "t \<le> c \<Longrightarrow> m \<le> c"
    using fmt32.rnd_mono [of c "c + e"] fmt32.rnd_mono [of "c + e" c] m(1) e(2,3) assms(8)
    by (auto simp: is_float_def)
  define n where "n = (if m < mn then mn else if mx < m then mx else m)"
  show thesis
  proof (rule that)
    show "f_clamp (f_neg (FEC_STEP)) (FEC_STEP) (f_sub b32 (Fin t) (Fin c)) = Fin e"
      unfolding FEC_STEP_value by (simp add: dd e_def f_clamp_Fin)
    show "f_clamp (Fin mn) (Fin mx) (f_add b32 (Fin c) (Fin e)) = Fin n"
      by (simp add: m n_def f_clamp_Fin)
    show "mn \<le> n" "n \<le> mx" using assms by (auto simp: n_def)
    show "is_float b32 n" using assms m by (auto simp: n_def)
    show "\<bar>n - c\<bar> \<le> 501 / 10000" using mc assms by (auto simp: n_def abs_le_iff)
    show "c \<le> n" if "c \<le> t" using dir(1) [OF that] assms by (auto simp: n_def)
    show "n \<le> c" if "t \<le> c" using dir(2) [OF that] assms by (auto simp: n_def)
  qed
qed

lemma afc_adjust_result:
  assumes inv: "afc_inv a" and due: "\<not> now - af_last_adjustment a < af_interval a"
    and t: "f_clamp (af_min a) (af_max a) (afc_target (afc_loss l)) = Fin t"
  obtains c n ch where "af_current a = Fin c"
    and "afc_adjust now a l = Some (ch, if ch then a\<lparr>af_current := Fin n, af_last_adjustment := now\<rparr> else a)"
    and "afc_inv (a\<lparr>af_current := Fin n, af_last_adjustment := now\<rparr>)" "\<bar>n - c\<bar> \<le> 501 / 10000"
    and "c \<le> t \<Longrightarrow> c \<le> n" "t \<le> c \<Longrightarrow> n \<le> c"
proof -
  obtain mn c mx where a: "af_min a = Fin mn" "af_current a = Fin c" "af_max a = Fin mx"
      "0 \<le> mn" "mn \<le> c" "c \<le> mx" "mx \<le> 1" "is_float b32 mn" "is_float b32 c" "is_float b32 mx"
      "af_max_change a = FEC_STEP" "af_interval a = nanos_per_sec"
    using inv by (auto simp: afc_inv_def)
  have mm: "mn \<le> mx" using a by linarith
  have "mn \<le> t" "t \<le> mx"
    using t a mm f_clamp_bounds [of "Fin mn" "Fin mx" "afc_target (afc_loss l)"] afc_target_range [of "afc_loss l"]
    by auto
  then obtain e n where en: "f_clamp (f_neg (FEC_STEP)) (FEC_STEP) (f_sub b32 (Fin t) (Fin c)) = Fin e"
    "f_clamp (Fin mn) (Fin mx) (f_add b32 (Fin c) (Fin e)) = Fin n"
    "mn \<le> n" "n \<le> mx" "is_float b32 n" "\<bar>n - c\<bar> \<le> 501 / 10000"
    "c \<le> t \<Longrightarrow> c \<le> n" "t \<le> c \<Longrightarrow> n \<le> c"
    using afc_step [OF a(5,6,4,7) _ _ a(8-10)] by metis
  have le: "f_neg (FEC_STEP) \<le> FEC_STEP" unfolding FEC_STEP_value by simp
  let ?ch = "epsilon b32 < f_abs (f_sub b32 (Fin n) (Fin c))"
  have "afc_adjust now a l = Some (?ch, if ?ch then a\<lparr>af_current := Fin n, af_last_adjustment := now\<rparr> else a)"
    using due t le mm by (simp add: afc_adjust_def f_clamp_checked_def a en(1,2) Let_def del: f_sub_Fin f_add.simps)
  moreover have "afc_inv (a\<lparr>af_current := Fin n, af_last_adjustment := now\<rparr>)"
    using a en by (simp add: afc_inv_def)
  ultimately show thesis using that [OF a(2)] en(6-8) by blast
qed


definition afc_sample :: adaptive_fec where
  "afc_sample = \<lparr>af_current = Fin (1 / 4), af_min = Fin 0, af_max = Fin 1, af_max_change = FEC_STEP,
     af_boost = False, af_last_adjustment = 0, af_interval = nanos_per_sec\<rparr>"

lemma afc_sample_inv: "afc_inv afc_sample"
proof -
  have "is_float b32 (1 / 4)" by code_simp
  then show ?thesis
    unfolding afc_inv_def afc_sample_def
    by (intro conjI exI [of _ 0] exI [of _ "1 / 4"] exI [of _ 1]) simp_all
qed


end
