(* ===== verification/Pipeline.thy ===== *)
theory Pipeline imports Fec begin

text \<open>
  The send half of \<open>pipeline.rs\<close>, with \<open>transport/slice.rs\<close>: a frame is cut into FEC shards, bulk
  or per slice (\<open>choose_fec_layout\<close>), every code word gets its parity and every shard its RTP
  and FVP headers. The lemmas show that slicing loses nothing and is balanced, that the layout
  chosen always fits the Reed-Solomon code word, and what packets an encoded frame consists of.
\<close>

section \<open>Slices\<close>

fun split_from :: "bytes \<Rightarrow> nat \<Rightarrow> nat \<Rightarrow> nat \<Rightarrow> nat list \<Rightarrow> bytes list" where
  "split_from data base_size remainder offset [] = []"
| "split_from data base_size remainder offset (i # is) =
     (let size = (if i < remainder then base_size + 1 else base_size);
          slice = (if offset + size \<le> length data then sub_range data offset (offset + size)
                   else if offset < length data then drop offset data
                   else [])
      in slice # split_from data base_size remainder (offset + size) is)"

definition slice_split :: "bytes \<Rightarrow> nat \<Rightarrow> bytes list" where
  "slice_split data count =
     (if count = 0 \<or> data = [] then [data]
      else split_from data (length data div count) (length data mod count) 0 [0..<count])"

text \<open>Where slice \<open>i\<close> of \<open>count\<close> begins.\<close>

definition slice_start :: "nat \<Rightarrow> nat \<Rightarrow> nat \<Rightarrow> nat" where
  "slice_start len count i = i * (len div count) + min i (len mod count)"

lemma slice_start_Suc:
  "slice_start len count (Suc i) =
     slice_start len count i + (if i < len mod count then len div count + 1 else len div count)"
  by (auto simp: slice_start_def)

lemma slice_start_end: "0 < count \<Longrightarrow> slice_start len count count = len"
proof -
  assume "0 < count"
  then have "len mod count \<le> count" by (simp add: less_imp_le)
  then show ?thesis by (simp add: slice_start_def min_absorb2)
qed

lemma slice_start_mono: "i \<le> j \<Longrightarrow> slice_start len count i \<le> slice_start len count j"
  by (simp add: slice_start_def add_mono)

lemma split_from_eq:
  "0 < count \<Longrightarrow> i \<le> count \<Longrightarrow>
   split_from data (length data div count) (length data mod count) (slice_start (length data) count i) [i..<count] =
   map (\<lambda>j. sub_range data (slice_start (length data) count j) (slice_start (length data) count (Suc j))) [i..<count]"
proof (induction "count - i" arbitrary: i)
  case 0
  then show ?case by simp
next
  case (Suc n)
  then have i: "i < count" "n = count - Suc i" "Suc i \<le> count" by auto
  let ?o = "slice_start (length data) count"
  have "?o (Suc i) \<le> length data"
    using slice_start_mono [OF i(3)] slice_start_end [OF Suc.prems(1)] by metis
  then show ?case
    using Suc.hyps(1) [OF i(2) Suc.prems(1) i(3)] i(1)
    by (simp add: upt_conv_Cons slice_start_Suc Let_def)
qed

lemma slice_split_eq:
  "0 < count \<Longrightarrow> data \<noteq> [] \<Longrightarrow> slice_split data count =
   map (\<lambda>j. sub_range data (slice_start (length data) count j) (slice_start (length data) count (Suc j))) [0..<count]"
  using split_from_eq [of count 0 data] by (simp add: slice_split_def slice_start_def)

lemma concat_sub_ranges:
  assumes "\<And>i j. i \<le> j \<Longrightarrow> f i \<le> f j"
  shows "concat (map (\<lambda>j. sub_range xs (f j) (f (Suc j))) [0..<n]) = sub_range xs (f 0) (f n)"
proof (induction n)
  case 0
  then show ?case by (simp add: sub_range_def)
next
  case (Suc n)
  have "sub_range xs (f 0) (f (Suc n)) = sub_range xs (f 0) (f n) @ sub_range xs (f n) (f (Suc n))"
    by (intro sub_range_split assms) auto
  with Suc show ?case by simp
qed

lemma slice_split_concat: "concat (slice_split data count) = data"
proof (cases "0 < count \<and> data \<noteq> []")
  case True
  then have "concat (slice_split data count) = sub_range data (slice_start (length data) count 0)
      (slice_start (length data) count count)"
    by (simp add: slice_split_eq concat_sub_ranges slice_start_mono)
  with True show ?thesis by (simp add: slice_start_end) (simp add: slice_start_def sub_range_def)
qed (auto simp: slice_split_def)

lemma length_slice_split: "0 < count \<Longrightarrow> data \<noteq> [] \<Longrightarrow> length (slice_split data count) = count"
  by (simp add: slice_split_eq)

lemma slice_split_nth_length:
  assumes "j < count" "data \<noteq> []"
  shows "length (slice_split data count ! j) =
    (if j < length data mod count then length data div count + 1 else length data div count)"
proof -
  have "slice_start (length data) count (Suc j) \<le> length data"
    using slice_start_mono [of "Suc j" count] slice_start_end [of count] assms
    by (metis Suc_leI gr_zeroI not_less_zero)
  with assms show ?thesis by (simp add: slice_split_eq slice_start_Suc split: if_splits)
qed

text \<open>
  Splitting a frame into slices loses nothing and balances: the slices put together are the
  frame, there are as many as asked for, and any two differ by at most one byte.
\<close>
theorem slices_balanced:
  assumes "0 < count" and "data \<noteq> []"
  shows "concat (slice_split data count) = data \<and> length (slice_split data count) = count
    \<and> list_all (\<lambda>s. length data div count \<le> length s \<and> length s \<le> div_ceil (length data) count)
        (slice_split data count)"
  unfolding list_all_iff
proof (intro conjI ballI)
  show "concat (slice_split data count) = data" by (rule slice_split_concat)
  show len: "length (slice_split data count) = count" using assms by (rule length_slice_split)
  fix s
  assume "s \<in> set (slice_split data count)"
  then obtain j where j: "j < count" "s = slice_split data count ! j"
    using len by (metis in_set_conv_nth)
  note l = slice_split_nth_length [OF j(1) assms(2)]
  show "length data div count \<le> length s" using l j by simp
  show "length s \<le> div_ceil (length data) count" using l j by (auto simp: div_ceil_def)
qed

lemma slices_balanced_witness:
  "concat (slice_split (replicate 101 7) 4) = replicate 101 7
   \<and> length (slice_split (replicate 101 7) 4) = 4
   \<and> list_all (\<lambda>s. length (replicate 101 (7 :: u8)) div 4 \<le> length s
         \<and> length s \<le> div_ceil (length (replicate 101 (7 :: u8))) 4) (slice_split (replicate 101 7) 4)"
  by (rule slices_balanced) simp_all

section \<open>Shards\<close>

definition pad_shard :: "bytes \<Rightarrow> bytes" where
  "pad_shard chunk = chunk @ replicate (FEC_SHARD_SIZE - length chunk) 0"

definition to_data_shards :: "bytes \<Rightarrow> bytes list" where
  "to_data_shards data = map pad_shard (chunks FEC_SHARD_SIZE data)"

definition shards_to_packets ::
  "bytes list \<Rightarrow> nat \<Rightarrow> u32 \<Rightarrow> u32 \<Rightarrow> u16 \<Rightarrow> packetizer \<Rightarrow> rtp_packet list \<times> packetizer" where
  "shards_to_packets all_shards data_count frame_index timestamp_90khz flags p =
     (let total_shards = length all_shards in
      if MAX_FRAME_SHARDS < total_shards then ([], p)
      else emit_packets (\<lambda>buf seq i shard.
          let is_last = (i = total_shards - 1);
              buf = write_rtp_header buf RTP_PT_H265 is_last seq timestamp_90khz 0x42;
              buf = write_fvp_header buf frame_index (of_nat i) (of_nat total_shards) flags (of_nat data_count)
          in buf @ shard) p 0 all_shards)"

lemma length_pad_shard: "length c \<le> FEC_SHARD_SIZE \<Longrightarrow> length (pad_shard c) = FEC_SHARD_SIZE"
  by (simp add: pad_shard_def)

lemma to_data_shards_lengths: "s \<in> set (to_data_shards data) \<Longrightarrow> length s = FEC_SHARD_SIZE"
  using chunks_length_le [of _ FEC_SHARD_SIZE data] by (auto simp: to_data_shards_def length_pad_shard)

lemma length_to_data_shards: "length (to_data_shards data) = div_ceil (length data) FEC_SHARD_SIZE"
  by (simp add: to_data_shards_def length_chunks FEC_SHARD_SIZE_def)

lemma to_data_shards_Nil_iff: "to_data_shards data = [] \<longleftrightarrow> data = []"
  by (simp add: to_data_shards_def chunks_nonempty FEC_SHARD_SIZE_def)

lemma concat_to_data_shards: "take (length data) (concat (to_data_shards data)) = data"
proof (induction "length data" arbitrary: data rule: less_induct)
  case less
  show ?case
  proof (cases "data = []")
    case False
    let ?n = FEC_SHARD_SIZE
    have n: "0 < ?n" by (simp add: FEC_SHARD_SIZE_def)
    have st: "concat (to_data_shards data) = pad_shard (take ?n data) @ concat (to_data_shards (drop ?n data))"
      using n False by (simp add: to_data_shards_def chunks_step)
    show ?thesis
    proof (cases "length data \<le> ?n")
      case True
      then show ?thesis using st by (simp add: pad_shard_def)
    next
      case F2: False
      have "length (drop ?n data) < length data" using n False by (cases data) auto
      from less [OF this] have "take (length data - ?n) (concat (to_data_shards (drop ?n data))) = drop ?n data" by simp
      moreover have "pad_shard (take ?n data) = take ?n data" using F2 by (simp add: pad_shard_def)
      ultimately show ?thesis using F2 by (simp add: st)
    qed
  qed simp
qed

lemma shards_to_packets_nth:
  assumes "length all \<le> MAX_FRAME_SHARDS"
  shows "length (fst (shards_to_packets all d fi ts fl p)) = length all"
    and "i < length all \<Longrightarrow> fst (shards_to_packets all d fi ts fl p) ! i =
      shard_packet RTP_PT_H265 (pk_sequence p + of_nat i) ts 0x42 fi i (length all) fl d (all ! i)"
  using assms
  by (simp_all add: shards_to_packets_def Let_def length_emit_packets emit_packets_nth
      shard_packet_def del: emit_packets.simps)

section \<open>Layout\<close>

definition MIN_SLICE_SIZE :: nat where "MIN_SLICE_SIZE = 16384"
definition SLICE_LEN_PREFIX :: nat where "SLICE_LEN_PREFIX = 4"

datatype fec_layout = Bulk | Sliced nat | Unprotected

definition slice_data_shards :: "nat \<Rightarrow> nat" where
  "slice_data_shards slice_len = div_ceil (slice_len + SLICE_LEN_PREFIX) FEC_SHARD_SIZE"

definition choose_fec_layout :: "nat \<Rightarrow> bool \<Rightarrow> u8 \<Rightarrow> nat \<Rightarrow> fec_layout" where
  "choose_fec_layout frame_len slice_fec_enabled slice_count max_shards =
     (let slice = (slice_fec_enabled \<and> MIN_SLICE_SIZE \<le> frame_len) in
      if \<not> slice \<and> div_ceil frame_len FEC_SHARD_SIZE \<le> max_shards then Bulk
      else let from = (if slice then max 1 (min (unat slice_count) (unat MAX_SLICE_COUNT)) else 1) in
        case List.find (\<lambda>n. slice_data_shards (div_ceil frame_len n) \<le> max_shards)
               [from..<unat MAX_SLICE_COUNT + 1] of
          None \<Rightarrow> Unprotected | Some n \<Rightarrow> Sliced n)"

lemma find_upt_Some:
  "List.find P [a..<b] = Some n \<longleftrightarrow> a \<le> n \<and> n < b \<and> P n \<and> (\<forall>j. a \<le> j \<and> j < n \<longrightarrow> \<not> P j)"
proof (induction "b - a" arbitrary: a)
  case 0
  then show ?case by auto
next
  case (Suc k)
  then have ab: "a < b" by simp
  then have u: "[a..<b] = a # [Suc a..<b]" by (rule upt_conv_Cons)
  show ?case
  proof (cases "P a")
    case True
    then show ?thesis unfolding u using ab by (auto simp: not_le intro: antisym)
  next
    case False
    have "List.find P [a..<b] = List.find P [Suc a..<b]" using False unfolding u by simp
    also have "\<dots> = Some n \<longleftrightarrow> Suc a \<le> n \<and> n < b \<and> P n \<and> (\<forall>j. Suc a \<le> j \<and> j < n \<longrightarrow> \<not> P j)"
      using Suc by (intro Suc.hyps(1)) simp
    also have "\<dots> \<longleftrightarrow> a \<le> n \<and> n < b \<and> P n \<and> (\<forall>j. a \<le> j \<and> j < n \<longrightarrow> \<not> P j)"
      using False by (auto simp: Suc_le_eq) (metis le_neq_implies_less)+
    finally show ?thesis .
  qed
qed

lemma find_upt_None: "List.find P [a..<b] = None \<longleftrightarrow> (\<forall>n. a \<le> n \<and> n < b \<longrightarrow> \<not> P n)"
  by (auto simp: find_None_iff)

lemma layout_cases:
  "case choose_fec_layout len enabled sc m of
     Bulk \<Rightarrow> div_ceil len FEC_SHARD_SIZE \<le> m \<and> \<not> (enabled \<and> MIN_SLICE_SIZE \<le> len)
   | Sliced n \<Rightarrow> 1 \<le> n \<and> n \<le> 15 \<and> slice_data_shards (div_ceil len n) \<le> m
       \<and> (enabled \<and> MIN_SLICE_SIZE \<le> len \<longrightarrow> min (unat sc) 15 \<le> n)
       \<and> (\<forall>k. 1 \<le> k \<and> k < n \<and> (enabled \<and> MIN_SLICE_SIZE \<le> len \<longrightarrow> min (unat sc) 15 \<le> k)
             \<longrightarrow> m < slice_data_shards (div_ceil len k))
   | Unprotected \<Rightarrow> m < slice_data_shards (div_ceil len 15)"
proof -
  let ?sl = "enabled \<and> MIN_SLICE_SIZE \<le> len"
  let ?from = "if ?sl then max 1 (min (unat sc) 15) else 1"
  let ?P = "\<lambda>n. slice_data_shards (div_ceil len n) \<le> m"
  have M: "unat MAX_SLICE_COUNT = 15" by (simp add: MAX_SLICE_COUNT_def)
  have L: "choose_fec_layout len enabled sc m =
    (if \<not> ?sl \<and> div_ceil len FEC_SHARD_SIZE \<le> m then Bulk
     else case List.find ?P [?from..<16] of None \<Rightarrow> Unprotected | Some n \<Rightarrow> Sliced n)"
    unfolding choose_fec_layout_def Let_def M by simp
  show ?thesis
  proof (cases "\<not> ?sl \<and> div_ceil len FEC_SHARD_SIZE \<le> m")
    case True
    then show ?thesis unfolding L by simp
  next
    case False
    show ?thesis
    proof (cases "List.find ?P [?from..<16]")
      case None
      then have "\<not> ?P 15" unfolding find_upt_None by auto
      with False None show ?thesis unfolding L by simp
    next
      case (Some n)
      then have n: "?from \<le> n \<and> n < 16 \<and> ?P n \<and> (\<forall>j. ?from \<le> j \<and> j < n \<longrightarrow> \<not> ?P j)"
        unfolding find_upt_Some .
      then show ?thesis unfolding L if_not_P [OF False] Some option.case fec_layout.case
        by (auto simp: not_le split: if_splits)
    qed
  qed
qed

text \<open>
  C17. The layout a frame gets: one code word only if the frame fits in it and slicing is off
  or not worth it; otherwise the fewest slices, from the configured number up to 15, whose
  largest slice (with its length prefix) fits; no parity only if not even 15 slices fit.
\<close>
theorem layout_choice:
  "case choose_fec_layout len enabled sc m of
     Bulk \<Rightarrow> div_ceil len FEC_SHARD_SIZE \<le> m \<and> \<not> (enabled \<and> MIN_SLICE_SIZE \<le> len)
   | Sliced n \<Rightarrow> 1 \<le> n \<and> n \<le> 15 \<and> slice_data_shards (div_ceil len n) \<le> m
       \<and> (enabled \<and> MIN_SLICE_SIZE \<le> len \<longrightarrow> min (unat sc) 15 \<le> n)
       \<and> (\<forall>k. 1 \<le> k \<and> k < n \<and> (enabled \<and> MIN_SLICE_SIZE \<le> len \<longrightarrow> min (unat sc) 15 \<le> k)
             \<longrightarrow> m < slice_data_shards (div_ceil len k))
   | Unprotected \<Rightarrow> m < slice_data_shards (div_ceil len 15)"
  by (rule layout_cases)

lemma layout_choice_witness:
  "case choose_fec_layout 50000 True 4 20 of
     Bulk \<Rightarrow> div_ceil 50000 FEC_SHARD_SIZE \<le> 20 \<and> \<not> (True \<and> MIN_SLICE_SIZE \<le> 50000)
   | Sliced n \<Rightarrow> 1 \<le> n \<and> n \<le> 15 \<and> slice_data_shards (div_ceil 50000 n) \<le> 20
       \<and> (True \<and> MIN_SLICE_SIZE \<le> 50000 \<longrightarrow> min (unat (4 :: u8)) 15 \<le> n)
       \<and> (\<forall>k. 1 \<le> k \<and> k < n \<and> (True \<and> MIN_SLICE_SIZE \<le> 50000 \<longrightarrow> min (unat (4 :: u8)) 15 \<le> k)
             \<longrightarrow> 20 < slice_data_shards (div_ceil 50000 k))
   | Unprotected \<Rightarrow> 20 < slice_data_shards (div_ceil 50000 15)"
  by (rule layout_choice)

section \<open>Encoding a frame\<close>

definition encode_frame_without_fec ::
  "bytes \<Rightarrow> u32 \<Rightarrow> u32 \<Rightarrow> bool \<Rightarrow> packetizer \<Rightarrow> rtp_packet list \<times> packetizer" where
  "encode_frame_without_fec frame_data frame_index timestamp_90khz is_keyframe p =
     (let shards = to_data_shards frame_data; flags = encode_simple is_keyframe
      in shards_to_packets shards (length shards) frame_index timestamp_90khz flags p)"

definition encode_frame_to_packets_with_fec ::
  "rs_code \<Rightarrow> bytes \<Rightarrow> u32 \<Rightarrow> u32 \<Rightarrow> bool \<Rightarrow> fec_encoder \<Rightarrow> packetizer
   \<Rightarrow> rtp_packet list \<times> fec_encoder \<times> packetizer" where
  "encode_frame_to_packets_with_fec rs frame_data frame_index timestamp_90khz is_keyframe fec p =
     (let data_shards = to_data_shards frame_data in
      if data_shards = [] then ([], fec, p)
      else case fec_encode rs fec data_shards of
          (Inl e, fec) \<Rightarrow>
            (let (packets, p) = encode_frame_without_fec frame_data frame_index timestamp_90khz is_keyframe p
             in (packets, fec, p))
        | (Inr all_shards, fec) \<Rightarrow>
            (let (packets, p) = shards_to_packets all_shards (length data_shards) frame_index
                   timestamp_90khz (encode_simple is_keyframe) p
             in (packets, fec, p)))"

definition prefix_slice :: "bytes \<Rightarrow> bytes" where
  "prefix_slice slice_data = u32_le (of_nat (length slice_data)) @ slice_data"

fun encode_slices ::
  "rs_code \<Rightarrow> u32 \<Rightarrow> u32 \<Rightarrow> bool \<Rightarrow> nat \<Rightarrow> nat \<Rightarrow> bytes list \<Rightarrow> fec_encoder list \<Rightarrow> rtp_packet list list
   \<Rightarrow> packetizer \<Rightarrow> rtp_packet list list \<times> fec_encoder list \<times> packetizer"
where
  "encode_slices rs fi ts kf count idx [] fecs batches p = (batches, fecs, p)"
| "encode_slices rs fi ts kf count idx slices [] batches p = (batches, [], p)"
| "encode_slices rs fi ts kf count idx (slice_data # slices) (fec # fecs) batches p =
     (let data_shards = to_data_shards (prefix_slice slice_data) in
      case fec_encode rs fec data_shards of
        (Inl e, fec) \<Rightarrow> ([], fec # fecs, foldl recycle p batches)
      | (Inr all_shards, fec) \<Rightarrow>
          (let flags = encode_flags kf (of_nat idx) (of_nat count) 0;
               (packets, p) = shards_to_packets all_shards (length data_shards) fi ts flags p;
               (batches, fecs, p) = encode_slices rs fi ts kf count (idx + 1) slices fecs (batches @ [packets]) p
           in (batches, fec # fecs, p)))"

definition encode_frame_sliced ::
  "rs_code \<Rightarrow> bytes \<Rightarrow> u32 \<Rightarrow> u32 \<Rightarrow> bool \<Rightarrow> nat \<Rightarrow> fec_encoder list \<Rightarrow> packetizer
   \<Rightarrow> rtp_packet list list \<times> fec_encoder list \<times> packetizer" where
  "encode_frame_sliced rs frame_data frame_index timestamp_90khz is_keyframe slice_count fecs p =
     (let slice_count = min (min slice_count (unat MAX_SLICE_COUNT)) (min (length frame_data) 255) in
      if slice_count = 0 then ([], fecs, p)
      else if length fecs < slice_count then ([], fecs, p)
      else encode_slices rs frame_index timestamp_90khz is_keyframe slice_count 0
             (slice_split frame_data slice_count) fecs [] p)"

record frame_fec_encoder =
  ff_bulk :: fec_encoder
  ff_slices :: "fec_encoder list"
  ff_slice_fec_enabled :: bool
  ff_slice_count :: u8
  ff_unprotected_frames :: u64

definition frame_fec_new :: "fl \<Rightarrow> bool \<Rightarrow> u8 \<Rightarrow> frame_fec_encoder" where
  "frame_fec_new redundancy enabled slice_count =
     \<lparr>ff_bulk = fec_new redundancy, ff_slices = replicate (unat MAX_SLICE_COUNT) (fec_new redundancy),
      ff_slice_fec_enabled = enabled, ff_slice_count = slice_count, ff_unprotected_frames = 0\<rparr>"

definition frame_fec_set_redundancy :: "frame_fec_encoder \<Rightarrow> fl \<Rightarrow> frame_fec_encoder" where
  "frame_fec_set_redundancy f redundancy =
     f\<lparr>ff_bulk := set_redundancy (ff_bulk f) redundancy,
       ff_slices := map (\<lambda>e. set_redundancy e redundancy) (ff_slices f)\<rparr>"

definition frame_fec_encode ::
  "rs_code \<Rightarrow> frame_fec_encoder \<Rightarrow> bytes \<Rightarrow> u32 \<Rightarrow> u32 \<Rightarrow> bool \<Rightarrow> packetizer
   \<Rightarrow> rtp_packet list list \<times> frame_fec_encoder \<times> packetizer" where
  "frame_fec_encode rs f frame_data frame_index timestamp_90khz is_keyframe p =
     (let batch = (\<lambda>packets. if packets = [] then [] else [packets]) in
      case choose_fec_layout (length frame_data) (ff_slice_fec_enabled f) (ff_slice_count f)
             (max_data_shards (ff_bulk f)) of
        Sliced n \<Rightarrow>
          (let (batches, fecs, p) = encode_frame_sliced rs frame_data frame_index timestamp_90khz
                 is_keyframe n (ff_slices f) p
           in (batches, f\<lparr>ff_slices := fecs\<rparr>, p))
      | Bulk \<Rightarrow>
          (let (packets, fec, p) = encode_frame_to_packets_with_fec rs frame_data frame_index
                 timestamp_90khz is_keyframe (ff_bulk f) p
           in (batch packets, f\<lparr>ff_bulk := fec\<rparr>, p))
      | Unprotected \<Rightarrow>
          (let (packets, p) = encode_frame_without_fec frame_data frame_index timestamp_90khz is_keyframe p
           in (batch packets, f\<lparr>ff_unprotected_frames := ff_unprotected_frames f + 1\<rparr>, p)))"

definition encode_frame_to_packets ::
  "rs_code \<Rightarrow> bytes \<Rightarrow> u32 \<Rightarrow> u32 \<Rightarrow> bool \<Rightarrow> fl \<Rightarrow> packetizer \<Rightarrow> rtp_packet list \<times> packetizer" where
  "encode_frame_to_packets rs frame_data frame_index timestamp_90khz is_keyframe fec_redundancy p =
     (let (packets, fec, p) = encode_frame_to_packets_with_fec rs frame_data frame_index timestamp_90khz
            is_keyframe (fec_new fec_redundancy) p
      in (packets, p))"

section \<open>What an encoded frame consists of\<close>

text \<open>The data of each code word of a frame, and the number of slices its packets announce.\<close>

definition frame_layout :: "frame_fec_encoder \<Rightarrow> bytes \<Rightarrow> fec_layout" where
  "frame_layout f frame = choose_fec_layout (length frame) (ff_slice_fec_enabled f) (ff_slice_count f)
     (max_data_shards (ff_bulk f))"

definition frame_parts :: "frame_fec_encoder \<Rightarrow> bytes \<Rightarrow> bytes list" where
  "frame_parts f frame = (case frame_layout f frame of
     Sliced n \<Rightarrow> map prefix_slice (slice_split frame n) | _ \<Rightarrow> [frame])"

definition announced_slices :: "frame_fec_encoder \<Rightarrow> bytes \<Rightarrow> nat" where
  "announced_slices f frame = (case frame_layout f frame of Sliced n \<Rightarrow> n | _ \<Rightarrow> 0)"

text \<open>\<open>out\<close> is a code word for the data \<open>part\<close>: data shards first, and decodable.\<close>

definition codeword_for :: "rs_code \<Rightarrow> bytes \<Rightarrow> bytes list \<Rightarrow> bool" where
  "codeword_for rs part out \<longleftrightarrow> (let ds = to_data_shards part; d = length ds in
     0 < d \<and> d \<le> length out \<and> length out \<le> MAX_FRAME_SHARDS \<and> take d out = ds
     \<and> (\<forall>s\<in>set out. length s = FEC_SHARD_SIZE)
     \<and> (\<forall>table. d < length out \<and> length table = length out \<and> d \<le> length (filter (\<lambda>s. s \<noteq> None) table)
          \<and> (\<forall>i<length out. table ! i = None \<or> table ! i = Some (out ! i)) \<longrightarrow>
          fec_decode rs table d = Inr ds))"

definition batch_of :: "u32 \<Rightarrow> bool \<Rightarrow> nat \<Rightarrow> nat \<Rightarrow> nat \<Rightarrow> bytes list \<Rightarrow> rtp_packet list \<Rightarrow> bool" where
  "batch_of fi kf count idx d out batch \<longleftrightarrow> length batch = length out \<and>
     (\<forall>i<length out. \<exists>pt seq ts ssrc. batch ! i =
        shard_packet pt seq ts ssrc fi i (length out) (encode_flags kf (of_nat idx) (of_nat count) 0) d (out ! i))"

lemma parity_for_cong: "fe_redundancy e = fe_redundancy e' \<Longrightarrow> parity_for e d = parity_for e' d"
  by (simp add: parity_for_def)

lemma encode_simple_flags: "encode_simple kf = encode_flags kf 0 0 0"
  by (simp add: encode_simple_def encode_flags_def)

lemma batch_of_packets:
  assumes "length out \<le> MAX_FRAME_SHARDS" "fl = encode_flags kf (of_nat idx) (of_nat count) 0"
  shows "batch_of fi kf count idx d out (fst (shards_to_packets out d fi ts fl p))"
  using shards_to_packets_nth [OF assms(1)] by (auto simp: batch_of_def assms(2))

lemma fec_encode_codeword:
  assumes "fec_cache_ok e" "part \<noteq> []"
    and "rs_sound rs (length (to_data_shards part)) (parity_for e (length (to_data_shards part)))"
    and "length (to_data_shards part) + parity_for e (length (to_data_shards part)) \<le> RS_MAX_TOTAL_SHARDS"
  obtains out where "fst (fec_encode rs e (to_data_shards part)) = Inr out" "codeword_for rs part out"
proof -
  let ?ds = "to_data_shards part"
  have ne: "?ds \<noteq> []" using assms(2) by (simp add: to_data_shards_Nil_iff)
  have len: "\<forall>s\<in>set ?ds. length s = FEC_SHARD_SIZE" by (simp add: to_data_shards_lengths)
  have pos: "0 < FEC_SHARD_SIZE" by (simp add: FEC_SHARD_SIZE_def)
  obtain out where o: "fst (fec_encode rs e ?ds) = Inr out"
    "length out = length ?ds + parity_for e (length ?ds)" "take (length ?ds) out = ?ds"
    "\<forall>s\<in>set out. length s = FEC_SHARD_SIZE"
    "\<And>table. length table = length out \<Longrightarrow> length ?ds \<le> length (filter (\<lambda>s. s \<noteq> None) table) \<Longrightarrow>
       \<forall>i<length out. table ! i = None \<or> table ! i = Some (out ! i) \<Longrightarrow>
       fec_decode rs table (length ?ds) = Inr ?ds"
    by (rule fec_encode_sound [OF assms(1) ne len pos assms(3)]) (rule that)
  then have "codeword_for rs part out"
    using assms(4) ne by (simp add: codeword_for_def Let_def RS_MAX_TOTAL_SHARDS_def MAX_FRAME_SHARDS_def)
  with o(1) that show thesis by blast
qed

definition slice_encodable :: "rs_code \<Rightarrow> fl \<Rightarrow> bytes \<Rightarrow> bool" where
  "slice_encodable rs r part \<longleftrightarrow> (let d = length (to_data_shards part); p = parity_for (fec_new r) d
     in rs_sound rs d p \<and> d + p \<le> RS_MAX_TOTAL_SHARDS)"

definition encoder_ok :: "fl \<Rightarrow> fec_encoder \<Rightarrow> bool" where
  "encoder_ok r e \<longleftrightarrow> fec_cache_ok e \<and> fe_redundancy e = r"

lemma encoder_ok_encode [inv_intros]: "encoder_ok r e \<Longrightarrow> encoder_ok r (snd (fec_encode rs e shards))"
  by (simp add: encoder_ok_def fec_cache_encode fec_encode_redundancy)

lemma encoder_ok_parity:
  "encoder_ok (Fin r) e \<Longrightarrow> 0 \<le> r \<Longrightarrow> r \<le> 1 \<Longrightarrow> parity_for e d = parity_for (fec_new (Fin r)) d"
  by (rule parity_for_cong) (simp add: encoder_ok_def fec_new_def f_clamp_Fin)

lemma encode_slices_ok:
  assumes "0 \<le> r" "r \<le> 1" "length slices \<le> length fecs" "\<forall>e\<in>set fecs. encoder_ok (Fin r) e"
    and "\<forall>s\<in>set slices. slice_encodable rs (Fin r) (prefix_slice s)"
  shows "\<exists>bs fecs' p'. encode_slices rs fi ts kf count idx slices fecs batches p = (batches @ bs, fecs', p')
    \<and> length bs = length slices \<and> (\<forall>e\<in>set fecs'. encoder_ok (Fin r) e) \<and> length fecs' = length fecs
    \<and> (\<forall>j<length slices. \<exists>out. codeword_for rs (prefix_slice (slices ! j)) out
         \<and> batch_of fi kf count (idx + j) (length (to_data_shards (prefix_slice (slices ! j)))) out (bs ! j))"
  using assms(3-5)
proof (induction slices arbitrary: fecs idx batches p)
  case Nil
  then show ?case by simp
next
  case (Cons s ss)
  then obtain e es where fecs: "fecs = e # es" by (cases fecs) auto
  let ?part = "prefix_slice s" and ?ds = "to_data_shards (prefix_slice s)"
  have e: "encoder_ok (Fin r) e" using Cons.prems fecs by simp
  have par: "parity_for e d = parity_for (fec_new (Fin r)) d" for d
    by (rule encoder_ok_parity [OF e assms(1,2)])
  have ne: "?part \<noteq> []" by (simp add: prefix_slice_def) (metis c32le.length_enc length_0_conv zero_neq_numeral)
  obtain out where out: "fst (fec_encode rs e ?ds) = Inr out" "codeword_for rs ?part out"
    using fec_encode_codeword [OF _ ne, of e rs] e Cons.prems(3)
    by (auto simp: encoder_ok_def slice_encodable_def Let_def par)
  define e' where "e' = snd (fec_encode rs e ?ds)"
  have enc: "fec_encode rs e ?ds = (Inr out, e')" using out(1) by (simp add: e'_def prod_eq_iff)
  define pk where "pk = shards_to_packets out (length ?ds) fi ts (encode_flags kf (of_nat idx) (of_nat count) 0) p"
  have b: "batch_of fi kf count idx (length ?ds) out (fst pk)"
    unfolding pk_def using out(2) by (intro batch_of_packets) (auto simp: codeword_for_def Let_def)
  from Cons.IH [of es "Suc idx" "batches @ [fst pk]" "snd pk"] Cons.prems fecs
  obtain bs fecs' p' where IH:
    "encode_slices rs fi ts kf count (Suc idx) ss es (batches @ [fst pk]) (snd pk) = (batches @ fst pk # bs, fecs', p')"
    "length bs = length ss" "\<forall>e\<in>set fecs'. encoder_ok (Fin r) e" "length fecs' = length es"
    "\<forall>j<length ss. \<exists>out. codeword_for rs (prefix_slice (ss ! j)) out
         \<and> batch_of fi kf count (Suc idx + j) (length (to_data_shards (prefix_slice (ss ! j)))) out (bs ! j)"
    by auto
  have eq: "encode_slices rs fi ts kf count idx (s # ss) fecs batches p = (batches @ fst pk # bs, e' # fecs', p')"
    using IH(1) by (simp add: fecs enc pk_def split_beta)
  have "encoder_ok (Fin r) e'" unfolding e'_def by (rule encoder_ok_encode [OF e])
  moreover have "\<exists>out. codeword_for rs (prefix_slice ((s # ss) ! j)) out
      \<and> batch_of fi kf count (idx + j) (length (to_data_shards (prefix_slice ((s # ss) ! j)))) out ((fst pk # bs) ! j)"
    if "j < length (s # ss)" for j
    using that IH(5) out(2) b by (cases j) auto
  ultimately show ?case
    using eq IH(2-4) fecs by (intro exI [of _ "fst pk # bs"]) auto
qed

definition ffe_inv :: "rat \<Rightarrow> frame_fec_encoder \<Rightarrow> bool" where
  "ffe_inv r f \<longleftrightarrow> 0 \<le> r \<and> r \<le> 1 \<and> encoder_ok (Fin r) (ff_bulk f)
     \<and> length (ff_slices f) = 15 \<and> (\<forall>e\<in>set (ff_slices f). encoder_ok (Fin r) e)"

lemma ffe_inv_new [inv_intros]: "0 \<le> r \<Longrightarrow> r \<le> 1 \<Longrightarrow> ffe_inv r (frame_fec_new (Fin r) en sc)"
  by (auto simp: ffe_inv_def frame_fec_new_def encoder_ok_def fec_cache_new MAX_SLICE_COUNT_def)
    (simp_all add: fec_new_def f_clamp_Fin)

text \<open>The code the frame needs is available (nothing is asked of it for an unprotected frame).\<close>

definition frame_sound :: "rs_code \<Rightarrow> frame_fec_encoder \<Rightarrow> bytes \<Rightarrow> bool" where
  "frame_sound rs f frame \<longleftrightarrow> frame_layout f frame = Unprotected \<or>
     (\<forall>part\<in>set (frame_parts f frame).
        rs_sound rs (length (to_data_shards part)) (parity_for (ff_bulk f) (length (to_data_shards part))))"

definition frame_encoded ::
  "rs_code \<Rightarrow> u32 \<Rightarrow> bool \<Rightarrow> nat \<Rightarrow> bytes list \<Rightarrow> rtp_packet list list \<Rightarrow> bool" where
  "frame_encoded rs fi kf count parts batches \<longleftrightarrow> length batches = length parts \<and>
     (\<forall>j<length parts. \<exists>out. codeword_for rs (parts ! j) out
        \<and> batch_of fi kf count j (length (to_data_shards (parts ! j))) out (batches ! j))"

lemma max_data_shards_pos:
  assumes "fe_redundancy e = Fin r" "0 \<le> r" "r \<le> 1"
  shows "1 \<le> max_data_shards e"
proof -
  have "(1 :: nat) \<le> 2 ^ 24" by simp
  from parity_for_eq [OF assms this]
  obtain q where "rnd b32 (of_nat 1 * r) = Fin q" "0 \<le> q" "q \<le> of_nat 1"
      "parity_for e 1 = max (nat \<lceil>q\<rceil>) 1"
    by (elim exE conjE) (rule that)
  moreover from this have "\<lceil>q\<rceil> \<le> 1" by simp
  then have "nat \<lceil>q\<rceil> \<le> 1" by linarith
  ultimately have "parity_for e 1 = 1" by (simp only: max_absorb2)
  then show ?thesis by (intro max_data_shards_greatest) auto
qed

lemma batch_nonempty: "batch_of fi kf c j d out b \<Longrightarrow> 0 < d \<Longrightarrow> d \<le> length out \<Longrightarrow> b \<noteq> []"
  by (auto simp: batch_of_def)

lemma encode_bulk_ok:
  assumes inv: "ffe_inv r f" and ne: "frame \<noteq> []" and snd: "frame_sound rs f frame"
    and lay: "frame_layout f frame = Bulk"
  shows "\<exists>batches f' p'. frame_fec_encode rs f frame fi ts kf p = (batches, f', p') \<and> ffe_inv r f'
    \<and> frame_encoded rs fi kf (announced_slices f frame) (frame_parts f frame) batches"
proof -
  let ?ds = "to_data_shards frame" and ?e = "ff_bulk f"
  have e: "encoder_ok (Fin r) ?e" and r: "0 \<le> r" "r \<le> 1" using inv by (auto simp: ffe_inv_def)
  have red: "fe_redundancy ?e = Fin r" using e by (simp add: encoder_ok_def)
  have parts: "frame_parts f frame = [frame]" and cnt: "announced_slices f frame = 0"
    using lay by (simp_all add: frame_parts_def announced_slices_def)
  have ds: "?ds \<noteq> []" using ne by (simp add: to_data_shards_Nil_iff)
  have "length ?ds \<le> max_data_shards ?e"
    using lay layout_cases [where len = "length frame" and enabled = "ff_slice_fec_enabled f"
        and sc = "ff_slice_count f" and m = "max_data_shards ?e"]
    by (simp add: frame_layout_def length_to_data_shards)
  then have fit: "length ?ds + parity_for ?e (length ?ds) \<le> RS_MAX_TOTAL_SHARDS"
    using ds by (intro max_data_shards_fits [OF red r]) auto
  have rs: "rs_sound rs (length ?ds) (parity_for ?e (length ?ds))"
    using snd lay parts by (simp add: frame_sound_def)
  obtain out where out: "fst (fec_encode rs ?e ?ds) = Inr out" "codeword_for rs frame out"
    using fec_encode_codeword [OF _ ne rs fit] e by (auto simp: encoder_ok_def)
  define e' where "e' = snd (fec_encode rs ?e ?ds)"
  have enc: "fec_encode rs ?e ?ds = (Inr out, e')" using out(1) by (simp add: e'_def prod_eq_iff)
  have e': "encoder_ok (Fin r) e'" unfolding e'_def by (rule encoder_ok_encode [OF e])
  define pk where "pk = shards_to_packets out (length ?ds) fi ts (encode_simple kf) p"
  have c: "length out \<le> MAX_FRAME_SHARDS" "0 < length ?ds" "length ?ds \<le> length out"
    using out(2) by (auto simp: codeword_for_def Let_def)
  have b: "batch_of fi kf 0 0 (length ?ds) out (fst pk)"
    unfolding pk_def using c(1) by (intro batch_of_packets) (simp_all add: encode_simple_flags)
  note one = batch_nonempty [OF b c(2,3)]
  have "frame_fec_encode rs f frame fi ts kf p = ([fst pk], f\<lparr>ff_bulk := e'\<rparr>, snd pk)"
    using lay ds one by (simp add: frame_fec_encode_def frame_layout_def encode_frame_to_packets_with_fec_def
        enc pk_def [symmetric] split_beta Let_def)
  moreover have "frame_encoded rs fi kf 0 [frame] [fst pk]"
    using out(2) b by (auto simp: frame_encoded_def)
  moreover have "ffe_inv r (f\<lparr>ff_bulk := e'\<rparr>)" using inv e' by (simp add: ffe_inv_def)
  ultimately show ?thesis by (auto simp: parts cnt)
qed

lemma encode_unprotected_ok:
  assumes inv: "ffe_inv r f" and ne: "frame \<noteq> []" and len: "length frame \<le> MAX_FRAME_SHARDS * FEC_SHARD_SIZE"
    and lay: "frame_layout f frame = Unprotected"
  shows "\<exists>batches f' p'. frame_fec_encode rs f frame fi ts kf p = (batches, f', p') \<and> ffe_inv r f'
    \<and> frame_encoded rs fi kf (announced_slices f frame) (frame_parts f frame) batches"
proof -
  let ?ds = "to_data_shards frame"
  have parts: "frame_parts f frame = [frame]" and cnt: "announced_slices f frame = 0"
    using lay by (simp_all add: frame_parts_def announced_slices_def)
  have ds: "0 < length ?ds" using ne by (simp add: to_data_shards_Nil_iff)
  have m: "length ?ds \<le> MAX_FRAME_SHARDS"
    using len by (simp add: length_to_data_shards div_ceil_le_iff FEC_SHARD_SIZE_def)
  have cw: "codeword_for rs frame ?ds"
    using ds m by (simp add: codeword_for_def Let_def to_data_shards_lengths)
  define pk where "pk = shards_to_packets ?ds (length ?ds) fi ts (encode_simple kf) p"
  have b: "batch_of fi kf 0 0 (length ?ds) ?ds (fst pk)"
    unfolding pk_def using m by (intro batch_of_packets) (simp_all add: encode_simple_flags)
  note one = batch_nonempty [OF b ds order.refl]
  have "frame_fec_encode rs f frame fi ts kf p =
      ([fst pk], f\<lparr>ff_unprotected_frames := ff_unprotected_frames f + 1\<rparr>, snd pk)"
    using lay one by (simp add: frame_fec_encode_def frame_layout_def encode_frame_without_fec_def
        pk_def [symmetric] split_beta Let_def)
  moreover have "frame_encoded rs fi kf 0 [frame] [fst pk]"
    using cw b by (auto simp: frame_encoded_def)
  ultimately show ?thesis using inv by (auto simp: parts cnt ffe_inv_def)
qed

lemma sliced_fits:
  assumes lay: "frame_layout f frame = Sliced n" and s: "s \<in> set (slice_split frame n)" and ne: "frame \<noteq> []"
  shows "length (to_data_shards (prefix_slice s)) \<le> max_data_shards (ff_bulk f)"
proof -
  have n: "1 \<le> n" "slice_data_shards (div_ceil (length frame) n) \<le> max_data_shards (ff_bulk f)"
    using lay layout_cases [where len = "length frame" and enabled = "ff_slice_fec_enabled f"
        and sc = "ff_slice_count f" and m = "max_data_shards (ff_bulk f)"]
    by (simp_all add: frame_layout_def)
  obtain j where j: "j < n" "s = slice_split frame n ! j"
    using s n(1) ne by (metis in_set_conv_nth length_slice_split less_le_trans zero_less_one)
  have "length s \<le> div_ceil (length frame) n"
    using slice_split_nth_length [OF j(1) ne] j by (auto simp: div_ceil_def)
  then have "div_ceil (length s + 4) FEC_SHARD_SIZE \<le> div_ceil (div_ceil (length frame) n + 4) FEC_SHARD_SIZE"
    by (intro div_ceil_mono) (simp_all add: FEC_SHARD_SIZE_def)
  with n(2) show ?thesis
    by (simp add: length_to_data_shards prefix_slice_def slice_data_shards_def SLICE_LEN_PREFIX_def
        add.commute [of 4])
qed

lemma sliced_count:
  assumes lay: "frame_layout f frame = Sliced n" and red: "fe_redundancy (ff_bulk f) = Fin r" "0 \<le> r" "r \<le> 1"
  shows "1 \<le> n" "n \<le> 15" "n \<le> length frame"
proof -
  note c = layout_cases [where len = "length frame" and enabled = "ff_slice_fec_enabled f"
        and sc = "ff_slice_count f" and m = "max_data_shards (ff_bulk f)"]
  show n: "1 \<le> n" "n \<le> 15" using lay c by (simp_all add: frame_layout_def)
  have "\<not> (\<not> (ff_slice_fec_enabled f \<and> MIN_SLICE_SIZE \<le> length frame)
      \<and> div_ceil (length frame) FEC_SHARD_SIZE \<le> max_data_shards (ff_bulk f))"
    using lay unfolding frame_layout_def choose_fec_layout_def Let_def by (metis fec_layout.distinct(1))
  then have "MIN_SLICE_SIZE \<le> length frame \<or> \<not> div_ceil (length frame) FEC_SHARD_SIZE \<le> 1"
    using max_data_shards_pos [OF red] by linarith
  then have "1200 \<le> length frame"
    by (auto simp: MIN_SLICE_SIZE_def div_ceil_le_iff FEC_SHARD_SIZE_def)
  with n show "n \<le> length frame" by linarith
qed

lemma encode_sliced_ok:
  assumes inv: "ffe_inv r f" and ne: "frame \<noteq> []" and snd: "frame_sound rs f frame"
    and lay: "frame_layout f frame = Sliced n"
  shows "\<exists>batches f' p'. frame_fec_encode rs f frame fi ts kf p = (batches, f', p') \<and> ffe_inv r f'
    \<and> frame_encoded rs fi kf (announced_slices f frame) (frame_parts f frame) batches"
proof -
  let ?ss = "slice_split frame n" and ?e = "ff_bulk f"
  have e: "encoder_ok (Fin r) ?e" and r: "0 \<le> r" "r \<le> 1" and fecs: "length (ff_slices f) = 15"
      "\<forall>e\<in>set (ff_slices f). encoder_ok (Fin r) e"
    using inv by (auto simp: ffe_inv_def)
  have red: "fe_redundancy ?e = Fin r" using e by (simp add: encoder_ok_def)
  note n = sliced_count [OF lay red r]
  have parts: "frame_parts f frame = map prefix_slice ?ss" and cnt: "announced_slices f frame = n"
    using lay by (simp_all add: frame_parts_def announced_slices_def)
  have len: "length ?ss = n" using n(1) ne by (intro length_slice_split) auto
  have enc: "\<forall>s\<in>set ?ss. slice_encodable rs (Fin r) (prefix_slice s)"
  proof
    fix s
    assume s: "s \<in> set ?ss"
    let ?d = "length (to_data_shards (prefix_slice s))"
    have pf: "parity_for (fec_new (Fin r)) ?d = parity_for ?e ?d"
      by (rule encoder_ok_parity [OF e r, symmetric])
    have "prefix_slice s \<noteq> []"
      by (simp add: prefix_slice_def) (metis c32le.length_enc length_0_conv zero_neq_numeral)
    then have "0 < ?d" by (simp add: to_data_shards_Nil_iff)
    then have "?d + parity_for ?e ?d \<le> RS_MAX_TOTAL_SHARDS"
      using sliced_fits [OF lay s ne] by (intro max_data_shards_fits [OF red r]) auto
    moreover have "rs_sound rs ?d (parity_for ?e ?d)"
      using snd lay s by (auto simp: frame_sound_def parts)
    ultimately show "slice_encodable rs (Fin r) (prefix_slice s)"
      by (simp add: slice_encodable_def Let_def pf)
  qed
  have le: "length ?ss \<le> length (ff_slices f)" using n(2) fecs(1) len by simp
  obtain bs fecs' p' where B: "encode_slices rs fi ts kf n 0 ?ss (ff_slices f) [] p = ([] @ bs, fecs', p')"
    "length bs = length ?ss" "\<forall>e\<in>set fecs'. encoder_ok (Fin r) e" "length fecs' = length (ff_slices f)"
    "\<forall>j<length ?ss. \<exists>out. codeword_for rs (prefix_slice (?ss ! j)) out
         \<and> batch_of fi kf n (0 + j) (length (to_data_shards (prefix_slice (?ss ! j)))) out (bs ! j)"
    using encode_slices_ok [OF r le fecs(2) enc] by blast
  have "min (min n 15) (min (length frame) 255) = n" using n by simp
  then have "encode_frame_sliced rs frame fi ts kf n (ff_slices f) p = (bs, fecs', p')"
    using B(1) n fecs(1) by (simp add: encode_frame_sliced_def MAX_SLICE_COUNT_def)
  then have "frame_fec_encode rs f frame fi ts kf p = (bs, f\<lparr>ff_slices := fecs'\<rparr>, p')"
    using lay by (simp add: frame_fec_encode_def frame_layout_def)
  moreover have "frame_encoded rs fi kf n (map prefix_slice ?ss) bs"
    using B(2,5) by (simp add: frame_encoded_def)
  moreover have "ffe_inv r (f\<lparr>ff_slices := fecs'\<rparr>)" using inv B(3,4) fecs(1) by (simp add: ffe_inv_def)
  ultimately show ?thesis by (auto simp: parts cnt)
qed

lemma frame_encode_ok:
  assumes "ffe_inv r f" "frame \<noteq> []" "length frame \<le> MAX_FRAME_SHARDS * FEC_SHARD_SIZE" "frame_sound rs f frame"
  obtains batches f' p' where "frame_fec_encode rs f frame fi ts kf p = (batches, f', p')" "ffe_inv r f'"
    "frame_encoded rs fi kf (announced_slices f frame) (frame_parts f frame) batches"
  using encode_bulk_ok [OF assms(1,2,4)] encode_unprotected_ok [OF assms(1,2,3)]
    encode_sliced_ok [OF assms(1,2,4)]
  by (cases "frame_layout f frame") blast+

end
