(* ===== verification/Reassembly.thy ===== *)
theory Reassembly imports Pipeline begin

text \<open>
  The receive half of \<open>pipeline.rs\<close>: \<open>decode_packets_to_frame\<close> and the header-driven
  \<open>FecFrameReassembler\<close>, one \<open>shard_group\<close> per Reed-Solomon code word. An index that the code
  takes out of range would panic: \<open>accept\<close>, \<open>reconstruct\<close> and \<open>feed\<close> return \<open>None\<close> then, and the
  invariant \<open>reasm_inv\<close> shows that no packet, forged or not, gets that far. What a failed
  \<open>reconstruct\<close> of the crate leaves in the shards is not modelled: the group is never read again.
\<close>

definition decode_packets_to_frame ::
  "rs_code \<Rightarrow> bytes list \<Rightarrow> nat \<Rightarrow> nat \<Rightarrow> nat \<Rightarrow> fec_error option + bytes" where
  "decode_packets_to_frame rs packets data_shard_count total_shard_count original_frame_len =
     (if total_shard_count = 0 \<or> MAX_FRAME_SHARDS < total_shard_count \<or> data_shard_count = 0
         \<or> total_shard_count < data_shard_count then Inl None
      else
        let shards = foldl (\<lambda>shards pkt. case read_fvp_header pkt of
                None \<Rightarrow> shards
              | Some hdr \<Rightarrow>
                  (if unat (h_shard_index hdr) < total_shard_count
                   then shards[unat (h_shard_index hdr) := Some (drop PACKET_HEADER_LEN pkt)] else shards))
              (replicate total_shard_count None) packets
        in case fec_decode rs shards data_shard_count of
            Inl e \<Rightarrow> Inl (Some e)
          | Inr data_shards \<Rightarrow> Inr (take original_frame_len (concat data_shards)))"

section \<open>Shard groups\<close>

record shard_group =
  sg_shard_count :: nat
  sg_data_shard_count :: nat
  sg_shard_len :: nat
  sg_shards :: "bytes option list"
  sg_received :: nat
  sg_decoded :: "bytes option"
  sg_failed :: bool

definition group_default :: shard_group where
  "group_default = \<lparr>sg_shard_count = 0, sg_data_shard_count = 0, sg_shard_len = 0, sg_shards = [],
     sg_received = 0, sg_decoded = None, sg_failed = False\<rparr>"

definition group_accept :: "shard_group \<Rightarrow> nat \<Rightarrow> nat \<Rightarrow> nat \<Rightarrow> bytes \<Rightarrow> (bool \<times> shard_group) option" where
  "group_accept g shard_index shard_count data_count payload =
     (if sg_shard_count g \<noteq> 0 \<and> (sg_shard_count g \<noteq> shard_count \<or> sg_data_shard_count g \<noteq> data_count
           \<or> sg_shard_len g \<noteq> length payload)
      then Some (False, g)
      else
        let g = (if sg_shard_count g = 0
                 then g\<lparr>sg_shard_count := shard_count, sg_data_shard_count := data_count,
                        sg_shard_len := length payload, sg_shards := replicate shard_count None\<rparr>
                 else g)
        in if length (sg_shards g) \<le> shard_index then None
           else if sg_shards g ! shard_index \<noteq> None then Some (False, g)
           else Some (True, g\<lparr>sg_shards := (sg_shards g)[shard_index := Some payload],
                              sg_received := sg_received g + 1\<rparr>))"

definition strip_len_prefix :: "bytes \<Rightarrow> bytes option" where
  "strip_len_prefix data =
     (if length data < 4 then None
      else let len = unat (u32_of_le (sub_range data 0 4)) in
        if length data - 4 < len then None else Some (drop 4 (take (4 + len) data)))"

text \<open>The data of a group (or failure, the inner \<open>None\<close>) and the group after it.\<close>

definition group_reconstruct :: "rs_code \<Rightarrow> shard_group \<Rightarrow> bool \<Rightarrow> (bytes option \<times> shard_group) option" where
  "group_reconstruct rs g has_len_prefix =
     (let d = sg_data_shard_count g in
      if length (sg_shards g) < d then None
      else
        let data_shards =
              (if \<forall>s\<in>set (take d (sg_shards g)). s \<noteq> None
               then Some (map the (take d (sg_shards g)))
               else case fec_decode rs (sg_shards g) d of Inl e \<Rightarrow> None | Inr ds \<Rightarrow> Some ds)
        in case data_shards of
            None \<Rightarrow> Some (None, g)
          | Some ds \<Rightarrow>
              let data = concat ds in
              Some (if has_len_prefix then strip_len_prefix data else Some data, g\<lparr>sg_shards := []\<rparr>))"

text \<open>One shard for a group. The flag says whether \<open>feed\<close> goes on to look for a complete frame.\<close>

definition group_feed ::
  "rs_code \<Rightarrow> shard_group \<Rightarrow> nat \<Rightarrow> nat \<Rightarrow> nat \<Rightarrow> bytes \<Rightarrow> bool \<Rightarrow> (bool \<times> shard_group) option" where
  "group_feed rs g shard_index shard_count data_count payload has_len_prefix =
     (if sg_decoded g \<noteq> None \<or> sg_failed g then Some (False, g)
      else case group_accept g shard_index shard_count data_count payload of
          None \<Rightarrow> None
        | Some (accepted, g) \<Rightarrow>
            if \<not> accepted then Some (False, g)
            else if sg_data_shard_count g \<le> sg_received g then
              (case group_reconstruct rs g has_len_prefix of
                 None \<Rightarrow> None
               | Some (Some data, g) \<Rightarrow> Some (True, g\<lparr>sg_decoded := Some data\<rparr>)
               | Some (None, g) \<Rightarrow> Some (False, g\<lparr>sg_failed := True\<rparr>))
            else Some (True, g))"

section \<open>The reassembler\<close>

record pending_frame =
  pf_frame_index :: u32
  pf_is_keyframe :: bool
  pf_slice_count :: nat
  pf_groups :: "shard_group list"
  pf_delivered :: bool

type_synonym reassembler = "pending_frame option"

definition reasm_new :: reassembler where "reasm_new = None"

definition reasm_open :: "reassembler \<Rightarrow> fvp_header \<Rightarrow> nat \<Rightarrow> pending_frame" where
  "reasm_open st hdr slice_count =
     (case st of
        Some f \<Rightarrow> if pf_frame_index f = h_frame_index hdr then f
          else \<lparr>pf_frame_index = h_frame_index hdr, pf_is_keyframe = hdr_is_keyframe hdr,
                pf_slice_count = slice_count, pf_groups = replicate (max slice_count 1) group_default,
                pf_delivered = False\<rparr>
      | None \<Rightarrow> \<lparr>pf_frame_index = h_frame_index hdr, pf_is_keyframe = hdr_is_keyframe hdr,
                pf_slice_count = slice_count, pf_groups = replicate (max slice_count 1) group_default,
                pf_delivered = False\<rparr>)"

definition frame_complete :: "pending_frame \<Rightarrow> bool" where
  "frame_complete f \<longleftrightarrow> (\<forall>g\<in>set (pf_groups f). sg_decoded g \<noteq> None)"

definition frame_result :: "pending_frame \<Rightarrow> reassembled_frame" where
  "frame_result f = \<lparr>rf_frame_index = pf_frame_index f, rf_is_keyframe = pf_is_keyframe f,
     rf_data = concat (map (\<lambda>g. the (sg_decoded g)) (pf_groups f))\<rparr>"

definition frame_delivered :: "pending_frame \<Rightarrow> pending_frame" where
  "frame_delivered f = f\<lparr>pf_delivered := True, pf_groups := map (\<lambda>g. g\<lparr>sg_decoded := None\<rparr>) (pf_groups f)\<rparr>"

definition reasm_feed :: "rs_code \<Rightarrow> reassembler \<Rightarrow> bytes \<Rightarrow> (reassembled_frame option \<times> reassembler) option" where
  "reasm_feed rs st packet = (case read_fvp_header packet of
     None \<Rightarrow> Some (None, st)
   | Some hdr \<Rightarrow>
     if \<not> hdr_is_valid hdr then Some (None, st)
     else let payload = drop PACKET_HEADER_LEN packet in
     if payload = [] then Some (None, st)
     else let slice_count = unat (flag_slice_count (h_flags hdr));
              slice_index = unat (flag_slice_index (h_flags hdr)) in
     if 0 < slice_count \<and> slice_count \<le> slice_index then Some (None, st)
     else let f = reasm_open st hdr slice_count in
     if pf_delivered f \<or> pf_slice_count f \<noteq> slice_count then Some (None, Some f)
     else let gi = (if slice_count = 0 then 0 else slice_index) in
     if length (pf_groups f) \<le> gi then None
     else case group_feed rs (pf_groups f ! gi) (unat (h_shard_index hdr)) (unat (h_shard_count hdr))
                 (unat (h_data_shard_count hdr)) payload (0 < slice_count) of
         None \<Rightarrow> None
       | Some (go_on, g) \<Rightarrow>
           let f = f\<lparr>pf_groups := (pf_groups f)[gi := g]\<rparr> in
           if go_on \<and> frame_complete f then Some (Some (frame_result f), Some (frame_delivered f))
           else Some (None, Some f))"

fun reasm_feed_all ::
  "rs_code \<Rightarrow> reassembler \<Rightarrow> bytes list \<Rightarrow> (reassembled_frame option list \<times> reassembler) option" where
  "reasm_feed_all rs st [] = Some ([], st)"
| "reasm_feed_all rs st (p # ps) =
     (case reasm_feed rs st p of
        None \<Rightarrow> None
      | Some (r, st) \<Rightarrow> (case reasm_feed_all rs st ps of
            None \<Rightarrow> None | Some (rs', st) \<Rightarrow> Some (r # rs', st)))"

section \<open>No packet can panic the reassembler\<close>

definition filled :: "bytes option list \<Rightarrow> nat" where
  "filled ss = length (filter (\<lambda>s. s \<noteq> None) ss)"

definition group_inv :: "shard_group \<Rightarrow> bool" where
  "group_inv g \<longleftrightarrow> (sg_decoded g = None \<and> \<not> sg_failed g \<longrightarrow>
      length (sg_shards g) = sg_shard_count g \<and> sg_data_shard_count g \<le> sg_shard_count g)
     \<and> length (sg_shards g) \<le> MAX_FRAME_SHARDS"

definition frame_inv :: "pending_frame \<Rightarrow> bool" where
  "frame_inv f \<longleftrightarrow> length (pf_groups f) = max (pf_slice_count f) 1 \<and> pf_slice_count f \<le> 15
     \<and> (\<forall>g\<in>set (pf_groups f). length (sg_shards g) \<le> MAX_FRAME_SHARDS \<and> (pf_delivered f \<or> group_inv g))"

definition reasm_inv :: "reassembler \<Rightarrow> bool" where
  "reasm_inv st \<longleftrightarrow> (case st of None \<Rightarrow> True | Some f \<Rightarrow> frame_inv f)"

lemma group_inv_default: "group_inv group_default"
  by (simp add: group_inv_def group_default_def)

lemma group_accept_inv:
  assumes "group_inv g" "sg_decoded g = None" "\<not> sg_failed g"
    and "si < sc" "dc \<le> sc" "0 < sc" "sc \<le> MAX_FRAME_SHARDS"
  shows "\<exists>ok g'. group_accept g si sc dc pl = Some (ok, g') \<and> group_inv g' \<and> sg_decoded g' = None \<and> \<not> sg_failed g'"
  using assms by (auto simp: group_accept_def group_inv_def Let_def)

lemma group_reconstruct_inv:
  assumes "group_inv g" "sg_decoded g = None" "\<not> sg_failed g"
  shows "\<exists>r g'. group_reconstruct rs g b = Some (r, g') \<and> length (sg_shards g') \<le> MAX_FRAME_SHARDS"
  using assms by (auto simp: group_reconstruct_def group_inv_def Let_def split: option.split sum.split)

lemma group_feed_inv:
  assumes "group_inv g" "si < sc" "dc \<le> sc" "0 < sc" "sc \<le> MAX_FRAME_SHARDS"
  shows "\<exists>go g'. group_feed rs g si sc dc pl b = Some (go, g') \<and> group_inv g'"
proof (cases "sg_decoded g \<noteq> None \<or> sg_failed g")
  case True
  with assms(1) show ?thesis by (auto simp: group_feed_def)
next
  case False
  then obtain ok g' where g': "group_accept g si sc dc pl = Some (ok, g')" "group_inv g'"
      "sg_decoded g' = None" "\<not> sg_failed g'"
    using group_accept_inv [OF assms(1) _ _ assms(2-5), of pl] by auto
  obtain r g'' where g'': "group_reconstruct rs g' b = Some (r, g'')" "length (sg_shards g'') \<le> MAX_FRAME_SHARDS"
    using group_reconstruct_inv [OF g'(2-4)] by blast
  from False g' g'' show ?thesis
    by (cases r) (auto simp: group_feed_def group_inv_def)
qed

lemma reasm_open_inv:
  "reasm_inv st \<Longrightarrow> n \<le> 15 \<Longrightarrow> frame_inv (reasm_open st hdr n)"
  by (auto simp: reasm_open_def reasm_inv_def frame_inv_def group_inv_default split: option.splits)
    (simp_all add: group_default_def)

lemma flag_fields_bound: "unat (flag_slice_count w) \<le> 15" "unat (flag_slice_index w) \<le> 15"
proof -
  have b: "unat (x AND 0xF) \<le> 15" for x :: u8
    using word_and_le1 [of x 15] by (simp add: word_le_nat_alt)
  have m: "(0xF :: u16) = mask 4" "(0xF :: u8) = mask 4" by (simp_all add: mask_eq_exp_minus_1)
  note bits = flag_slice_count_def flag_slice_index_def SLICE_COUNT_MASK_def SLICE_COUNT_SHIFT_def
    SLICE_INDEX_MASK_def SLICE_INDEX_SHIFT_def m bit_unsigned_iff bit_drop_bit_eq bit_and_iff
    bit_push_bit_iff bit_mask_iff
  have "flag_slice_count w = flag_slice_count w AND 0xF" "flag_slice_index w = flag_slice_index w AND 0xF"
    by (rule bit_word_eqI, simp only: bits o_def, auto)+
  then show "unat (flag_slice_count w) \<le> 15" "unat (flag_slice_index w) \<le> 15"
    using b by metis+
qed

lemma reasm_feed_inv:
  assumes "reasm_inv st"
  shows "\<exists>r st'. reasm_feed rs st packet = Some (r, st') \<and> reasm_inv st'"
proof (cases "read_fvp_header packet")
  case None
  with assms show ?thesis by (simp add: reasm_feed_def)
next
  case (Some hdr)
  let ?pl = "drop PACKET_HEADER_LEN packet"
  let ?n = "unat (flag_slice_count (h_flags hdr))" and ?i = "unat (flag_slice_index (h_flags hdr))"
  let ?f = "reasm_open st hdr ?n" and ?gi = "if ?n = 0 then 0 else ?i"
  show ?thesis
  proof (cases "\<not> hdr_is_valid hdr \<or> ?pl = [] \<or> 0 < ?n \<and> ?n \<le> ?i")
    case True
    with assms Some show ?thesis by (auto simp: reasm_feed_def Let_def)
  next
    case ok: False
    have fi: "frame_inv ?f" using reasm_open_inv [OF assms] flag_fields_bound(1) by blast
    show ?thesis
    proof (cases "pf_delivered ?f \<or> pf_slice_count ?f \<noteq> ?n")
      case True
      with Some ok fi show ?thesis by (auto simp: reasm_feed_def Let_def reasm_inv_def)
    next
      case nd: False
      then have gi: "?gi < length (pf_groups ?f)" using fi ok by (auto simp: frame_inv_def max_def)
      then have g: "group_inv (pf_groups ?f ! ?gi)" using fi nd by (auto simp: frame_inv_def)
      have v: "unat (h_shard_index hdr) < unat (h_shard_count hdr)"
        "unat (h_data_shard_count hdr) \<le> unat (h_shard_count hdr)" "0 < unat (h_shard_count hdr)"
        "unat (h_shard_count hdr) \<le> MAX_FRAME_SHARDS"
        using ok by (auto simp: hdr_is_valid_def Let_def word_less_nat_alt word_le_nat_alt)
      obtain go g' where gf: "group_feed rs (pf_groups ?f ! ?gi) (unat (h_shard_index hdr))
          (unat (h_shard_count hdr)) (unat (h_data_shard_count hdr)) ?pl (0 < ?n) = Some (go, g')"
        "group_inv g'"
        using group_feed_inv [OF g v] by blast
      let ?f' = "?f\<lparr>pf_groups := (pf_groups ?f)[?gi := g']\<rparr>"
      have fi': "frame_inv ?f'"
        using fi gf(2) by (auto simp: frame_inv_def group_inv_def dest!: set_update_subset_insert [THEN subsetD])
      then have "frame_inv (frame_delivered ?f')" by (simp add: frame_inv_def frame_delivered_def)
      with fi' have inv: "reasm_inv (Some ?f')" "reasm_inv (Some (frame_delivered ?f'))"
        by (simp_all add: reasm_inv_def)
      have "reasm_feed rs st packet = (if go \<and> frame_complete ?f'
          then Some (Some (frame_result ?f'), Some (frame_delivered ?f')) else Some (None, Some ?f'))"
        using ok nd gi unfolding reasm_feed_def Let_def Some option.case gf(1) prod.case
        by (simp only: if_False if_True not_le not_less de_Morgan_disj simp_thms) (auto simp: not_le)
      with inv show ?thesis by (cases "go \<and> frame_complete ?f'") auto
    qed
  qed
qed

lemma reasm_feed_all_inv:
  "reasm_inv st \<Longrightarrow> \<exists>out st'. reasm_feed_all rs st packets = Some (out, st')
     \<and> length out = length packets \<and> reasm_inv st'"
proof (induction packets arbitrary: st)
  case Nil
  then show ?case by simp
next
  case (Cons p ps)
  obtain r st1 where 1: "reasm_feed rs st p = Some (r, st1)" "reasm_inv st1"
    using reasm_feed_inv [OF Cons.prems] by blast
  obtain out st2 where "reasm_feed_all rs st1 ps = Some (out, st2)" "length out = length ps" "reasm_inv st2"
    using Cons.IH [OF 1(2)] by blast
  with 1(1) show ?case by simp
qed

text \<open>
  C8. Whatever bytes arrive, the reassembler takes every packet without an index out of range,
  answers each one, and holds at most 15 groups of at most 4096 shards.
\<close>
theorem reassembler_total:
  "\<exists>out st. reasm_feed_all rs reasm_new packets = Some (out, st) \<and> length out = length packets
     \<and> (case st of None \<Rightarrow> True | Some f \<Rightarrow> length (pf_groups f) \<le> 15
          \<and> list_all (\<lambda>g. length (sg_shards g) \<le> MAX_FRAME_SHARDS) (pf_groups f))"
proof -
  have "reasm_inv reasm_new" by (simp add: reasm_inv_def reasm_new_def)
  from reasm_feed_all_inv [OF this] obtain out st where
    o: "reasm_feed_all rs reasm_new packets = Some (out, st)" "length out = length packets" "reasm_inv st"
    by blast
  then show ?thesis
    by (cases st) (auto simp: reasm_inv_def frame_inv_def list_all_iff)
qed

section \<open>Exactly the encoded frame comes back\<close>

text \<open>A group of code word \<open>out\<close> (for \<open>part\<close>) after the shards with indices \<open>S\<close> have arrived.\<close>

definition part_data :: "bool \<Rightarrow> bytes \<Rightarrow> bytes" where
  "part_data has_prefix part = (let data = concat (to_data_shards part) in
     if has_prefix then the (strip_len_prefix data) else data)"

definition group_at :: "bool \<Rightarrow> bytes \<Rightarrow> bytes list \<Rightarrow> nat set \<Rightarrow> shard_group \<Rightarrow> bool" where
  "group_at pre part out S g \<longleftrightarrow> (let d = length (to_data_shards part) in
     if S = {} then g = group_default
     else if card S < d then g = \<lparr>sg_shard_count = length out, sg_data_shard_count = d,
            sg_shard_len = FEC_SHARD_SIZE, sg_shards = table_of out S, sg_received = card S,
            sg_decoded = None, sg_failed = False\<rparr>
     else sg_decoded g = Some (part_data pre part) \<and> \<not> sg_failed g)"

lemma strip_prefix_slice:
  "length s < 2 ^ 32 \<Longrightarrow> strip_len_prefix (prefix_slice s @ rest) = Some s"
  by (simp add: strip_len_prefix_def prefix_slice_def sub_range_append_take unat_of_nat Let_def)

lemma concat_shards_prefix: "\<exists>rest. concat (to_data_shards data) = data @ rest"
  by (metis append_take_drop_id concat_to_data_shards)

lemma strip_prefix_shards:
  "length s < 2 ^ 32 \<Longrightarrow> strip_len_prefix (concat (to_data_shards (prefix_slice s))) = Some s"
  using concat_shards_prefix [of "prefix_slice s"] strip_prefix_slice by metis

lemma part_data_prefix: "length s < 2 ^ 32 \<Longrightarrow> part_data True (prefix_slice s) = s"
  by (simp add: part_data_def strip_prefix_shards)

lemma group_reconstruct_at:
  assumes cw: "codeword_for rs part out" and T: "T \<subseteq> {..<length out}" "card T = length (to_data_shards part)"
    and pre: "pre \<Longrightarrow> strip_len_prefix (concat (to_data_shards part)) \<noteq> None"
    and g: "sg_shards g = table_of out T" "sg_data_shard_count g = length (to_data_shards part)"
  shows "group_reconstruct rs g pre = Some (Some (part_data pre part), g\<lparr>sg_shards := []\<rparr>)"
proof -
  let ?d = "length (to_data_shards part)"
  have d: "0 < ?d" "?d \<le> length out" "take ?d out = to_data_shards part"
    using cw by (auto simp: codeword_for_def Let_def)
  have D: "(if \<forall>s\<in>set (take ?d (table_of out T)). s \<noteq> None then Some (map the (take ?d (table_of out T)))
      else case fec_decode rs (table_of out T) ?d of Inl e \<Rightarrow> None | Inr ds \<Rightarrow> Some ds) = Some (to_data_shards part)"
  proof (cases "\<forall>s\<in>set (take ?d (table_of out T)). s \<noteq> None")
    case True
    have "map the (take ?d (table_of out T)) = take ?d out"
    proof (rule nth_equalityI)
      show "length (map the (take ?d (table_of out T))) = length (take ?d out)" by simp
      fix i
      assume "i < length (map the (take ?d (table_of out T)))"
      then have i: "i < ?d" "i < length out" using d(2) by auto
      then have "take ?d (table_of out T) ! i \<in> set (take ?d (table_of out T))" by (intro nth_mem) simp
      with True have "table_of out T ! i \<noteq> None" using i by (metis nth_take)
      with i show "map the (take ?d (table_of out T)) ! i = take ?d out ! i"
        by (simp add: table_of_nth split: if_splits)
    qed
    with True d(3) show ?thesis by simp
  next
    case False
    have "?d < length out"
    proof (rule ccontr)
      assume "\<not> ?d < length out"
      then have "length out = ?d" using d(2) by simp
      then have "card T = card {..<length out}" using T(2) by simp
      then have "T = {..<length out}" using T(1) by (intro card_subset_eq) auto
      then have "\<forall>s\<in>set (table_of out T). s \<noteq> None" by (simp add: table_of_all del: not_None_eq)
      then show False using False by (meson in_set_takeD)
    qed
    moreover have "length (filter (\<lambda>s. s \<noteq> None) (table_of out T)) = ?d"
      using T by (simp only: table_of_count Int_absorb2)
    moreover have "\<forall>i<length out. table_of out T ! i = None \<or> table_of out T ! i = Some (out ! i)"
      by (simp add: table_of_nth)
    ultimately have "fec_decode rs (table_of out T) ?d = Inr (to_data_shards part)"
      using cw by (simp add: codeword_for_def Let_def)
    then show ?thesis by (simp only: if_not_P [OF False] sum.case)
  qed
  have s: "(if pre then strip_len_prefix (concat (to_data_shards part)) else Some (concat (to_data_shards part)))
      = Some (part_data pre part)"
    using pre by (cases pre) (auto simp: part_data_def)
  have l: "\<not> length (table_of out T) < ?d" using d(2) by simp
  show ?thesis
    unfolding group_reconstruct_def Let_def g D option.case s using l by simp
qed

lemma group_feed_at:
  assumes cw: "codeword_for rs part out" and S: "S \<subseteq> {..<length out}" and i: "i < length out"
    and pre: "pre \<Longrightarrow> strip_len_prefix (concat (to_data_shards part)) \<noteq> None"
    and g: "group_at pre part out S g"
  shows "\<exists>g'. group_feed rs g i (length out) (length (to_data_shards part)) (out ! i) pre
      = Some (i \<notin> S \<and> card S < length (to_data_shards part), g') \<and> group_at pre part out (insert i S) g'"
proof -
  let ?d = "length (to_data_shards part)"
  have d: "0 < ?d" "length (out ! i) = FEC_SHARD_SIZE" "0 < length out"
    using cw i by (auto simp: codeword_for_def Let_def)
  have fin: "finite S" using S finite_subset by blast
  have c: "card (insert i S) = (if i \<in> S then card S else Suc (card S))" using fin by (simp add: insert_absorb)
  let ?full = "\<lambda>T. \<lparr>sg_shard_count = length out, sg_data_shard_count = ?d, sg_shard_len = FEC_SHARD_SIZE,
      sg_shards = table_of out T, sg_received = card T, sg_decoded = None, sg_failed = False\<rparr>"
  consider (full) "\<not> card S < ?d" | (dup) "card S < ?d" "i \<in> S" | (new) "card S < ?d" "i \<notin> S" by blast
  then show ?thesis
  proof cases
    case full
    then have "S \<noteq> {}" using d by auto
    moreover from this full have "\<not> card (insert i S) < ?d" using c by auto
    ultimately show ?thesis using full g by (simp add: group_at_def Let_def group_feed_def)
  next
    case dup
    then have ne: "S \<noteq> {}" and ins: "insert i S = S" by auto
    then have ge: "g = ?full S" using g dup by (simp add: group_at_def Let_def)
    have "group_feed rs g i (length out) ?d (out ! i) pre = Some (False, g)"
      using d i dup(2) unfolding ge by (auto simp: group_feed_def group_accept_def table_of_nth)
    then show ?thesis using dup g by (simp add: ins)
  next
    case new
    let ?T = "insert i S"
    have acc: "group_accept g i (length out) ?d (out ! i) = Some (True, ?full ?T)"
    proof (cases "S = {}")
      case True
      then have "g = group_default" using g by (simp add: group_at_def)
      moreover have "(replicate (length out) None)[i := Some (out ! i)] = table_of out {i}"
        using table_of_insert [OF i, of "{}"] by (simp add: table_of_empty)
      ultimately show ?thesis using True i d
        by (simp add: group_accept_def group_default_def)
    next
      case False
      then have ge: "g = ?full S" using g new by (simp add: group_at_def Let_def)
      from i d new(2) c show ?thesis
        unfolding ge by (simp add: group_accept_def table_of_nth table_of_insert)
    qed
    have nd: "sg_decoded g = None" "\<not> sg_failed g"
      using g new(1) by (auto simp: group_at_def Let_def group_default_def split: if_splits)
    have cT: "card ?T = Suc (card S)" using new(2) c by simp
    show ?thesis
    proof (cases "?d \<le> card ?T")
      case False
      then show ?thesis using new nd acc by (simp add: group_feed_def group_at_def)
    next
      case True
      with new(1) cT have cd: "card ?T = ?d" by linarith
      have "group_reconstruct rs (?full ?T) pre = Some (Some (part_data pre part), (?full ?T)\<lparr>sg_shards := []\<rparr>)"
        using S i by (intro group_reconstruct_at [OF cw _ cd pre]) auto
      then show ?thesis using new nd acc True cd by (simp add: group_feed_def group_at_def)
    qed
  qed
qed

text \<open>
  Packets are named by code word and shard. \<open>frame_enough need E\<close>: of every code word \<open>j\<close>, at least
  \<open>need ! j\<close> different shards are in \<open>E\<close>.
\<close>

definition frame_enough :: "nat list \<Rightarrow> (nat \<times> nat) set \<Rightarrow> bool" where
  "frame_enough need E \<longleftrightarrow> (\<forall>j<length need. need ! j \<le> card (E `` {j}))"

definition frame_needs :: "bytes list \<Rightarrow> nat list" where
  "frame_needs parts = map (\<lambda>part. length (to_data_shards part)) parts"

definition reasm_at ::
  "u32 \<Rightarrow> bool \<Rightarrow> nat \<Rightarrow> bytes list \<Rightarrow> bytes list list \<Rightarrow> (nat \<times> nat) set \<Rightarrow> reassembler \<Rightarrow> bool" where
  "reasm_at fi kf count parts outs E st \<longleftrightarrow>
     (if E = {} then \<forall>f. st = Some f \<longrightarrow> pf_frame_index f \<noteq> fi
      else \<exists>f. st = Some f \<and> pf_frame_index f = fi \<and> pf_is_keyframe f = kf \<and> pf_slice_count f = count
        \<and> length (pf_groups f) = length parts
        \<and> (if frame_enough (frame_needs parts) E then pf_delivered f
           else \<not> pf_delivered f
             \<and> (\<forall>j<length parts. group_at (0 < count) (parts ! j) (outs ! j) (E `` {j}) (pf_groups f ! j))))"

text \<open>The shape of an encoded frame: one bulk code word, or one per slice, at most 15.\<close>

definition frame_shape :: "rs_code \<Rightarrow> nat \<Rightarrow> bytes list \<Rightarrow> bytes list list \<Rightarrow> bool" where
  "frame_shape rs count parts outs \<longleftrightarrow> length outs = length parts
     \<and> (\<forall>j<length parts. codeword_for rs (parts ! j) (outs ! j))
     \<and> (count = 0 \<and> length parts = 1
        \<or> 0 < count \<and> count \<le> 15 \<and> length parts = count
          \<and> (\<forall>j<length parts. strip_len_prefix (concat (to_data_shards (parts ! j))) \<noteq> None))"

lemma frame_shape_needs:
  assumes "frame_shape rs count parts outs"
  shows "length (frame_needs parts) = length parts" "parts \<noteq> []"
    "j < length parts \<Longrightarrow> frame_needs parts ! j = length (to_data_shards (parts ! j))"
    "j < length parts \<Longrightarrow> 0 < length (to_data_shards (parts ! j))"
    "\<not> frame_enough (frame_needs parts) {}"
proof -
  show l: "length (frame_needs parts) = length parts" and n: "parts \<noteq> []"
    using assms by (auto simp: frame_shape_def frame_needs_def)
  show nth: "frame_needs parts ! j = length (to_data_shards (parts ! j))" if "j < length parts" for j
    using that by (simp add: frame_needs_def)
  show p: "0 < length (to_data_shards (parts ! j))" if "j < length parts" for j
    using assms that by (auto simp: frame_shape_def codeword_for_def Let_def)
  show "\<not> frame_enough (frame_needs parts) {}"
    using n l nth [of 0] p [of 0] by (auto simp: frame_enough_def)
qed

text \<open>Opening the frame for a packet of it.\<close>

lemma reasm_open_at:
  assumes shape: "frame_shape rs count parts outs" and st: "reasm_at fi kf count parts outs E st"
    and hdr: "h_frame_index hdr = fi" "hdr_is_keyframe hdr = kf"
  defines "f \<equiv> reasm_open st hdr count"
  shows "pf_frame_index f = fi" "pf_is_keyframe f = kf" "pf_slice_count f = count"
    "length (pf_groups f) = length parts" "pf_delivered f = frame_enough (frame_needs parts) E"
    "\<not> frame_enough (frame_needs parts) E \<Longrightarrow> j < length parts \<Longrightarrow>
       group_at (0 < count) (parts ! j) (outs ! j) (E `` {j}) (pf_groups f ! j)"
proof -
  have len: "max count 1 = length parts" 
    using shape frame_shape_needs(2) [OF shape] by (cases parts) (auto simp: frame_shape_def max_def)
  have "pf_frame_index f = fi \<and> pf_is_keyframe f = kf \<and> pf_slice_count f = count
    \<and> length (pf_groups f) = length parts \<and> pf_delivered f = frame_enough (frame_needs parts) E
    \<and> (\<not> frame_enough (frame_needs parts) E \<longrightarrow> (\<forall>j<length parts.
         group_at (0 < count) (parts ! j) (outs ! j) (E `` {j}) (pf_groups f ! j)))"
  proof (cases "E = {}")
    case True
    then have "f = \<lparr>pf_frame_index = fi, pf_is_keyframe = kf, pf_slice_count = count,
        pf_groups = replicate (length parts) group_default, pf_delivered = False\<rparr>"
      using st hdr len by (auto simp: f_def reasm_open_def reasm_at_def split: option.split)
    with True frame_shape_needs(5) [OF shape] show ?thesis by (auto simp: group_at_def)
  next
    case False
    then obtain g where g: "st = Some g" "pf_frame_index g = fi" "pf_is_keyframe g = kf" "pf_slice_count g = count"
      "length (pf_groups g) = length parts"
      "if frame_enough (frame_needs parts) E then pf_delivered g
       else \<not> pf_delivered g
         \<and> (\<forall>j<length parts. group_at (0 < count) (parts ! j) (outs ! j) (E `` {j}) (pf_groups g ! j))"
      using st by (auto simp: reasm_at_def)
    then have "f = g" using hdr by (simp add: f_def reasm_open_def)
    with g show ?thesis by (cases "frame_enough (frame_needs parts) E") simp_all
  qed
  then show "pf_frame_index f = fi" "pf_is_keyframe f = kf" "pf_slice_count f = count"
    "length (pf_groups f) = length parts" "pf_delivered f = frame_enough (frame_needs parts) E"
    "\<not> frame_enough (frame_needs parts) E \<Longrightarrow> j < length parts \<Longrightarrow>
       group_at (0 < count) (parts ! j) (outs ! j) (E `` {j}) (pf_groups f ! j)"
    by auto
qed

lemma flag_keyframe_encode: "encode_flags kf si sc st AND 1 \<noteq> 0 \<longleftrightarrow> kf"
  using flag_fields_of_encode(1) [of kf si sc st] by (simp add: flag_is_keyframe_def KEYFRAME_def)

lemma small_and_15: "n \<le> 15 \<Longrightarrow> unat ((of_nat n :: u8) AND 0xF) = n"
proof -
  assume n: "n \<le> 15"
  have "(of_nat n :: u8) AND 0xF = of_nat (n mod 16)"
  proof -
    have "(0xF :: u8) = mask 4" by (simp add: mask_eq_exp_minus_1)
    then have "(of_nat n :: u8) AND 0xF = take_bit 4 (of_nat n)" by (simp add: take_bit_eq_mask)
    also have "\<dots> = of_nat (take_bit 4 n)" by (simp add: of_nat_take_bit)
    finally show ?thesis by (simp add: take_bit_eq_mod)
  qed
  with n show ?thesis by (simp add: unat_of_nat)
qed

definition reassembled :: "u32 \<Rightarrow> bool \<Rightarrow> nat \<Rightarrow> bytes list \<Rightarrow> reassembled_frame" where
  "reassembled fi kf count parts = \<lparr>rf_frame_index = fi, rf_is_keyframe = kf,
     rf_data = concat (map (part_data (0 < count)) parts)\<rparr>"

lemma group_at_decoded:
  assumes "codeword_for rs part out" "group_at pre part out S g"
  shows "sg_decoded g \<noteq> None \<longleftrightarrow> length (to_data_shards part) \<le> card S"
    and "sg_decoded g \<noteq> None \<Longrightarrow> the (sg_decoded g) = part_data pre part"
  using assms by (auto simp: group_at_def codeword_for_def Let_def group_default_def split: if_splits)

lemma reasm_feed_at:
  assumes shape: "frame_shape rs count parts outs" and st: "reasm_at fi kf count parts outs E st"
    and E: "\<And>j. E `` {j} \<subseteq> {..<length (outs ! j)}"
    and j: "j < length parts" and i: "i < length (outs ! j)"
    and pkt: "pkt = shard_packet pt seq ts ssrc fi i (length (outs ! j)) (encode_flags kf (of_nat j) (of_nat count) 0)
      (length (to_data_shards (parts ! j))) (outs ! j ! i)"
  shows "\<exists>r st'. reasm_feed rs st pkt = Some (r, st') \<and> reasm_at fi kf count parts outs (insert (j, i) E) st'
    \<and> r = (if frame_enough (frame_needs parts) (insert (j, i) E) \<and> \<not> frame_enough (frame_needs parts) E
           then Some (reassembled fi kf count parts) else None)"
proof -
  let ?d = "\<lambda>j. length (to_data_shards (parts ! j))" and ?need = "frame_needs parts" and ?E = "insert (j, i) E"
  let ?n = "length (outs ! j)" and ?fl = "encode_flags kf (of_nat j) (of_nat count) 0"
  let ?hdr = "\<lparr>h_frame_index = fi, h_shard_index = of_nat i, h_shard_count = of_nat ?n, h_flags = ?fl,
       h_data_shard_count = of_nat (?d j)\<rparr>"
  have cw: "k < length parts \<Longrightarrow> codeword_for rs (parts ! k) (outs ! k)" for k
    using shape by (simp add: frame_shape_def)
  have c: "0 < ?d j" "?d j \<le> ?n" "?n \<le> MAX_FRAME_SHARDS" "length (outs ! j ! i) = FEC_SHARD_SIZE"
    using cw [OF j] i by (auto simp: codeword_for_def Let_def)
  note v = shard_valid [OF i c(3,1,2)]
  have cnt: "count \<le> 15" "j \<le> 15" "count = 0 \<Longrightarrow> j = 0" "0 < count \<Longrightarrow> j < count"
    using shape j by (auto simp: frame_shape_def)
  have sc: "unat (flag_slice_count ?fl) = count" and si: "unat (flag_slice_index ?fl) = j"
    using cnt by (simp_all add: flag_fields_of_encode small_and_15)
  let ?f = "reasm_open st ?hdr count"
  have hk: "hdr_is_keyframe ?hdr = kf" by (simp add: hdr_is_keyframe_def flag_keyframe_encode)
  note F = reasm_open_at [OF shape st _ hk, simplified fvp_header.select_convs, OF refl]
  have hd: "read_fvp_header pkt = Some ?hdr" "drop PACKET_HEADER_LEN pkt = outs ! j ! i" "outs ! j ! i \<noteq> []"
    using c(4) by (auto simp: pkt shard_packet_read shard_packet_payload FEC_SHARD_SIZE_def)
  have need: "length ?need = length parts" "\<And>k. k < length parts \<Longrightarrow> ?need ! k = ?d k"
    using frame_shape_needs [OF shape] by auto
  have fin: "finite (E `` {k})" for k using E [of k] finite_subset by blast
  have img: "?E `` {k} = (if k = j then insert i (E `` {j}) else E `` {k})" for k by auto
  have mono: "frame_enough ?need E \<Longrightarrow> frame_enough ?need ?E"
    unfolding frame_enough_def
    by (metis card_insert_le fin finite.insertI img le_trans)
  show ?thesis
  proof (cases "frame_enough ?need E")
    case True
    then have "reasm_feed rs st pkt = Some (None, Some ?f)"
      using hd v(1) sc si cnt F(5) unfolding reasm_feed_def Let_def hd(1) option.case
      by (auto simp: hd sc si)
    moreover have "reasm_at fi kf count parts outs ?E (Some ?f)"
      using F(1-5) True mono by (simp add: reasm_at_def)
    ultimately show ?thesis using True by simp
  next
    case False
    let ?g = "pf_groups ?f ! j" and ?S = "E `` {j}"
    note ga = F(6) [OF False]
    have pre: "0 < count \<Longrightarrow> strip_len_prefix (concat (to_data_shards (parts ! j))) \<noteq> None"
      using shape j by (auto simp: frame_shape_def)
    obtain g' where g': "group_feed rs ?g i ?n (?d j) (outs ! j ! i) (0 < count)
        = Some (i \<notin> ?S \<and> card ?S < ?d j, g')"
      "group_at (0 < count) (parts ! j) (outs ! j) (insert i ?S) g'"
      using group_feed_at [OF cw [OF j] E i pre ga [OF j]] by blast
    let ?go = "i \<notin> ?S \<and> card ?S < ?d j"
    let ?f' = "?f\<lparr>pf_groups := (pf_groups ?f)[j := g']\<rparr>"
    have grp: "group_at (0 < count) (parts ! k) (outs ! k) (?E `` {k}) (pf_groups ?f' ! k)" if "k < length parts" for k
      using that g'(2) ga [OF that] F(4) j by (cases "k = j") (simp_all add: img)
    have len': "length (pf_groups ?f') = length parts" using F(4) by simp
    have compl: "frame_complete ?f' \<longleftrightarrow> frame_enough ?need ?E"
      unfolding frame_complete_def frame_enough_def all_set_conv_all_nth len' need(1)
      using group_at_decoded(1) [OF cw grp] need(2) by auto
    have nogo: "\<not> frame_enough ?need ?E" if "\<not> ?go"
    proof (cases "i \<in> ?S")
      case True
      then have "?E = E" by auto
      with False show ?thesis by simp
    next
      case F2: False
      with that have "?d j \<le> card ?S" by simp
      then have "frame_enough ?need ?E \<Longrightarrow> frame_enough ?need E"
        unfolding frame_enough_def by (metis img need)
      with False show ?thesis by blast
    qed
    have gi: "(if count = 0 then 0 else j) = j" "j < length (pf_groups ?f)" "\<not> pf_delivered ?f"
      using cnt(3) F(4,5) j False by auto
    have feed: "reasm_feed rs st pkt = (if ?go \<and> frame_complete ?f'
        then Some (Some (frame_result ?f'), Some (frame_delivered ?f')) else Some (None, Some ?f'))"
      using hd v(1) cnt F(3) gi(2,3)
      unfolding reasm_feed_def Let_def hd(1) option.case fvp_header.select_convs v(2-4) sc si hd(2) gi(1) g'(1) prod.case
      by auto
    show ?thesis
    proof (cases "frame_enough ?need ?E")
      case True
      then have go: ?go using nogo by blast
      have "map (\<lambda>g. the (sg_decoded g)) (pf_groups ?f') = map (part_data (0 < count)) parts"
      proof (rule nth_equalityI)
        show "length (map (\<lambda>g. the (sg_decoded g)) (pf_groups ?f')) = length (map (part_data (0 < count)) parts)"
          using len' by simp
        fix k
        assume "k < length (map (\<lambda>g. the (sg_decoded g)) (pf_groups ?f'))"
        then have k: "k < length parts" using len' by simp
        then have "sg_decoded (pf_groups ?f' ! k) \<noteq> None"
          using True need group_at_decoded(1) [OF cw grp] by (auto simp: frame_enough_def)
        then show "map (\<lambda>g. the (sg_decoded g)) (pf_groups ?f') ! k = map (part_data (0 < count)) parts ! k"
          using group_at_decoded(2) [OF cw [OF k] grp [OF k]] k len' by simp
      qed
      then have res: "frame_result ?f' = reassembled fi kf count parts"
        using F(1,2) by (simp add: frame_result_def reassembled_def)
      have "reasm_at fi kf count parts outs ?E (Some (frame_delivered ?f'))"
        using F(1-4) True by (simp add: reasm_at_def frame_delivered_def)
      with feed go True compl res False show ?thesis by simp
    next
      case F3: False
      have "reasm_at fi kf count parts outs ?E (Some ?f')"
        using F(1-4) F3 grp len' gi(3) by (simp add: reasm_at_def)
      with feed F3 compl show ?thesis by simp
    qed
  qed
qed

text \<open>What the reassembler answers to the packets \<open>es\<close> when \<open>E\<close> has already arrived.\<close>

definition answers :: "nat list \<Rightarrow> reassembled_frame \<Rightarrow> (nat \<times> nat) set \<Rightarrow> (nat \<times> nat) list \<Rightarrow> reassembled_frame option list" where
  "answers need fr E es = map (\<lambda>k. if frame_enough need (E \<union> set (take (Suc k) es))
       \<and> \<not> frame_enough need (E \<union> set (take k es)) then Some fr else None) [0..<length es]"

lemma answers_Cons:
  "answers need fr E (e # es) =
     (if frame_enough need (insert e E) \<and> \<not> frame_enough need E then Some fr else None)
     # answers need fr (insert e E) es"
proof -
  have u: "[0..<length (e # es)] = 0 # map Suc [0..<length es]"
    by (simp add: map_Suc_upt upt_conv_Cons del: upt_Suc)
  show ?thesis unfolding answers_def u by simp
qed

lemma reasm_feed_all_at:
  assumes shape: "frame_shape rs count parts outs"
    and bs: "\<And>j i. j < length parts \<Longrightarrow> i < length (outs ! j) \<Longrightarrow> \<exists>pt seq ts ssrc. batches ! j ! i =
      shard_packet pt seq ts ssrc fi i (length (outs ! j)) (encode_flags kf (of_nat j) (of_nat count) 0)
        (length (to_data_shards (parts ! j))) (outs ! j ! i)"
  shows "reasm_at fi kf count parts outs E st \<Longrightarrow> (\<And>j. E `` {j} \<subseteq> {..<length (outs ! j)}) \<Longrightarrow>
    \<forall>(j, i)\<in>set es. j < length parts \<and> i < length (outs ! j) \<Longrightarrow>
    \<exists>st'. reasm_feed_all rs st (map (\<lambda>(j, i). batches ! j ! i) es) =
      Some (answers (frame_needs parts) (reassembled fi kf count parts) E es, st')"
proof (induction es arbitrary: E st)
  case Nil
  then show ?case by (simp add: answers_def)
next
  case (Cons e es)
  obtain j i where e: "e = (j, i)" by (cases e)
  with Cons.prems(3) have ji: "j < length parts" "i < length (outs ! j)" by auto
  obtain pt seq ts ssrc where pkt: "batches ! j ! i =
      shard_packet pt seq ts ssrc fi i (length (outs ! j)) (encode_flags kf (of_nat j) (of_nat count) 0)
        (length (to_data_shards (parts ! j))) (outs ! j ! i)"
    using bs [OF ji] by blast
  obtain r st1 where 1: "reasm_feed rs st (batches ! j ! i) = Some (r, st1)"
      "reasm_at fi kf count parts outs (insert e E) st1"
      "r = (if frame_enough (frame_needs parts) (insert e E) \<and> \<not> frame_enough (frame_needs parts) E
           then Some (reassembled fi kf count parts) else None)"
    using reasm_feed_at [OF shape Cons.prems(1,2) ji pkt] e by blast
  have "(insert e E) `` {k} \<subseteq> {..<length (outs ! k)}" for k
    using Cons.prems(2) [of k] ji by (auto simp: e)
  moreover have "\<forall>(j, i)\<in>set es. j < length parts \<and> i < length (outs ! j)" using Cons.prems(3) by simp
  ultimately obtain st2 where "reasm_feed_all rs st1 (map (\<lambda>(j, i). batches ! j ! i) es) =
      Some (answers (frame_needs parts) (reassembled fi kf count parts) (insert e E) es, st2)"
    using Cons.IH [OF 1(2)] by blast
  with 1 show ?case by (simp add: e answers_Cons)
qed

text \<open>The frame as the client gets it: the frame itself when sliced, padded to whole shards in bulk.\<close>

definition received_data :: "frame_fec_encoder \<Rightarrow> bytes \<Rightarrow> bytes" where
  "received_data f frame = (case frame_layout f frame of
     Sliced n \<Rightarrow> frame | _ \<Rightarrow> concat (to_data_shards frame))"

lemma frame_encoded_shape:
  assumes inv: "ffe_inv r f" and ne: "frame \<noteq> []" and len: "length frame \<le> MAX_FRAME_SHARDS * FEC_SHARD_SIZE"
    and enc: "frame_encoded rs fi kf (announced_slices f frame) (frame_parts f frame) batches"
  obtains outs where "frame_shape rs (announced_slices f frame) (frame_parts f frame) outs"
    and "\<And>j. j < length batches \<Longrightarrow> batch_of fi kf (announced_slices f frame) j
      (length (to_data_shards (frame_parts f frame ! j))) (outs ! j) (batches ! j)"
    and "concat (map (part_data (0 < announced_slices f frame)) (frame_parts f frame)) = received_data f frame"
proof -
  let ?parts = "frame_parts f frame" and ?count = "announced_slices f frame"
  define outs where "outs = map (\<lambda>j. SOME out. codeword_for rs (?parts ! j) out
        \<and> batch_of fi kf ?count j (length (to_data_shards (?parts ! j))) out (batches ! j)) [0..<length ?parts]"
  have o: "codeword_for rs (?parts ! j) (outs ! j)
        \<and> batch_of fi kf ?count j (length (to_data_shards (?parts ! j))) (outs ! j) (batches ! j)"
    if "j < length ?parts" for j
  proof -
    have "\<exists>out. codeword_for rs (?parts ! j) out
        \<and> batch_of fi kf ?count j (length (to_data_shards (?parts ! j))) out (batches ! j)"
      using enc that by (simp add: frame_encoded_def)
    then show ?thesis using that unfolding outs_def by simp (rule someI_ex)
  qed
  have lb: "length batches = length ?parts" using enc by (simp add: frame_encoded_def)
  have red: "fe_redundancy (ff_bulk f) = Fin r" "0 \<le> r" "r \<le> 1"
    using inv by (auto simp: ffe_inv_def encoder_ok_def)
  have "frame_shape rs ?count ?parts outs
    \<and> concat (map (part_data (0 < ?count)) ?parts) = received_data f frame"
  proof (cases "frame_layout f frame")
    case (Sliced n)
    note n = sliced_count [OF Sliced red]
    have small: "length s < 2 ^ 32" if "s \<in> set (slice_split frame n)" for s
    proof -
      have "length s \<le> length (concat (slice_split frame n))" 
        using split_list [OF that] by auto
      with len show ?thesis by (simp add: slice_split_concat MAX_FRAME_SHARDS_def FEC_SHARD_SIZE_def)
    qed
    have ls: "length (slice_split frame n) = n" using n(1) ne by (intro length_slice_split) auto
    have "map (part_data True) (map prefix_slice (slice_split frame n)) = slice_split frame n"
      using small by (simp add: map_idI part_data_prefix)
    then show ?thesis
      using Sliced n ls o small by (auto simp: frame_shape_def frame_parts_def announced_slices_def
          received_data_def slice_split_concat strip_prefix_shards outs_def)
  qed (use o in \<open>simp_all add: frame_shape_def frame_parts_def announced_slices_def received_data_def
      part_data_def outs_def Let_def\<close>)
  with o lb that show thesis by auto
qed

lemma received_data_prefix: "take (length frame) (received_data f frame) = frame"
  by (simp add: received_data_def concat_to_data_shards split: fec_layout.split)

text \<open>
  C7. End to end: whatever layout the engine picks for a frame, the receiver produces the frame
  exactly once, at the packet that completes the last code word, with its index, keyframe flag
  and data (padded to whole shards in bulk, exact when sliced), for any order of the packets,
  any losses that leave each code word as many shards as it has data shards, and any repetition;
  every other packet is answered with nothing and an unfinished older frame is abandoned.
\<close>
theorem frame_over_lossy_network:
  assumes "ffe_inv r f" and "frame \<noteq> []" and "length frame \<le> MAX_FRAME_SHARDS * FEC_SHARD_SIZE"
    and "frame_sound rs f frame"
    and "frame_fec_encode rs f frame fi ts kf p = (batches, f', p')"
    and "\<forall>g. st = Some g \<longrightarrow> pf_frame_index g \<noteq> fi"
    and "\<forall>(j, i)\<in>set es. j < length batches \<and> i < length (batches ! j)"
  shows "\<exists>st'. reasm_feed_all rs st (map (\<lambda>(j, i). batches ! j ! i) es) =
      Some (answers (frame_needs (frame_parts f frame))
        \<lparr>rf_frame_index = fi, rf_is_keyframe = kf, rf_data = received_data f frame\<rparr> {} es, st')
    \<and> take (length frame) (received_data f frame) = frame"
proof -
  let ?parts = "frame_parts f frame" and ?count = "announced_slices f frame"
  have enc: "frame_encoded rs fi kf ?count ?parts batches"
    using frame_encode_ok [OF assms(1-4), where fi = fi and ts = ts and kf = kf and p = p] assms(5)
    by (metis prod.inject)
  have lb: "length batches = length ?parts" using enc by (simp add: frame_encoded_def)
  obtain outs where o: "frame_shape rs ?count ?parts outs"
    "\<And>j. j < length batches \<Longrightarrow> batch_of fi kf ?count j (length (to_data_shards (?parts ! j))) (outs ! j) (batches ! j)"
    "concat (map (part_data (0 < ?count)) ?parts) = received_data f frame"
    using frame_encoded_shape [OF assms(1-3) enc] by blast
  have es: "\<forall>(j, i)\<in>set es. j < length ?parts \<and> i < length (outs ! j)"
    using assms(7) o(2) lb by (auto simp: batch_of_def)
  have st: "reasm_at fi kf ?count ?parts outs {} st" using assms(6) by (simp add: reasm_at_def)
  have "\<exists>st'. reasm_feed_all rs st (map (\<lambda>(j, i). batches ! j ! i) es) =
      Some (answers (frame_needs ?parts) (reassembled fi kf ?count ?parts) {} es, st')"
    by (rule reasm_feed_all_at [OF o(1) _ st _ es]) (use o(2) lb in \<open>auto simp: batch_of_def\<close>)
  then show ?thesis
    by (simp add: reassembled_def o(3) received_data_prefix)
qed

text \<open>A concrete code for one data shard: every parity shard is a copy of it.\<close>

definition copy_code :: rs_code where
  "copy_code = \<lparr>rs_new_ok = (\<lambda>d p. d = 1 \<and> 0 < p),
     rs_encode = (\<lambda>d p shards. Some (replicate (length shards) (hd shards))),
     rs_reconstruct = (\<lambda>d p table. case filter (\<lambda>s. s \<noteq> None) table of
        [] \<Rightarrow> None | s # _ \<Rightarrow> Some (replicate (length table) s))\<rparr>"

lemma copy_code_rebuilds:
  "rs_rebuilds copy_code (Suc 0) p (replicate (Suc p) x)"
proof -
  have "rs_reconstruct copy_code (Suc 0) p table = Some (map Some (replicate (Suc p) x))"
    if t: "length table = Suc p" "Suc 0 \<le> length (filter (\<lambda>s. s \<noteq> None) table)"
      "\<forall>i<Suc p. table ! i = None \<or> table ! i = Some (replicate (Suc p) x ! i)" for table
  proof -
    obtain s ss where f: "filter (\<lambda>s. s \<noteq> None) table = s # ss"
      using t(2) by (cases "filter (\<lambda>s. s \<noteq> None) table") auto
    then have "s \<in> set (filter (\<lambda>s. s \<noteq> None) table)" by simp
    then have "s \<in> set table" "s \<noteq> None" by auto
    then obtain i where "i < Suc p" "table ! i = s" using t(1) by (metis in_set_conv_nth)
    with t(3) \<open>s \<noteq> None\<close> have "s = Some x" by (metis nth_replicate)
    with f t(1) show ?thesis by (simp add: copy_code_def map_replicate)
  qed
  then show ?thesis by (auto simp: rs_rebuilds_def)
qed

lemma copy_code_sound: "0 < p \<Longrightarrow> rs_sound copy_code (Suc 0) p"
proof -
  assume p: "0 < p"
  have "\<exists>out. rs_encode copy_code (Suc 0) p shards = Some out \<and> length out = Suc 0 + p
      \<and> take (Suc 0) out = take (Suc 0) shards \<and> (\<forall>s\<in>set out. length s = n) \<and> rs_rebuilds copy_code (Suc 0) p out"
    if s: "length shards = Suc 0 + p" "\<forall>s\<in>set shards. length s = n" for shards n
  proof -
    obtain x xs where xs: "shards = x # xs" using s(1) by (cases shards) auto
    have "rs_encode copy_code (Suc 0) p shards = Some (replicate (Suc p) x)"
      using s(1) by (simp add: copy_code_def xs)
    then show ?thesis using s xs copy_code_rebuilds [of p x] by auto
  qed
  moreover have "rs_new_ok copy_code (Suc 0) p" using p by (simp add: copy_code_def)
  ultimately show ?thesis unfolding rs_sound_def by blast
qed

definition sample_encoder :: frame_fec_encoder where
  "sample_encoder = frame_fec_new (Fin (1 / 2)) False 4"

definition sample_batches :: "rtp_packet list list" where
  "sample_batches = fst (frame_fec_encode copy_code sample_encoder [1, 2, 3] 7 9 True (packetizer_new 1))"

lemma sample_layout: "frame_layout sample_encoder [1, 2, 3] = Bulk"
proof -
  have "1 \<le> max_data_shards (ff_bulk sample_encoder)"
    by (rule max_data_shards_pos [of _ "1 / 2"])
      (simp_all add: sample_encoder_def frame_fec_new_def fec_new_def f_clamp_Fin)
  then show ?thesis
    by (simp add: frame_layout_def choose_fec_layout_def sample_encoder_def frame_fec_new_def
        div_ceil_def FEC_SHARD_SIZE_def)
qed

lemma sample_sound: "frame_sound copy_code sample_encoder [1, 2, 3]"
  using copy_code_sound [OF parity_for_pos]
  by (simp add: frame_sound_def frame_parts_def sample_layout length_to_data_shards div_ceil_def FEC_SHARD_SIZE_def)

lemma sample_inv: "ffe_inv (1 / 2) sample_encoder"
  unfolding sample_encoder_def by (rule ffe_inv_new) simp_all

lemma sample_lengths: "length sample_batches = 1" "0 < length (sample_batches ! 0)"
proof -
  obtain batches f' p' where e: "frame_fec_encode copy_code sample_encoder [1, 2, 3] 7 9 True (packetizer_new 1) = (batches, f', p')"
    "frame_encoded copy_code 7 True (announced_slices sample_encoder [1, 2, 3]) (frame_parts sample_encoder [1, 2, 3]) batches"
    by (rule frame_encode_ok [OF sample_inv _ _ sample_sound, where fi = 7 and ts = 9 and kf = True and p = "packetizer_new 1"])
      (simp_all add: MAX_FRAME_SHARDS_def FEC_SHARD_SIZE_def)
  have sb: "sample_batches = batches" using e(1) by (simp add: sample_batches_def)
  have parts: "frame_parts sample_encoder [1, 2, 3] = [[1, 2, 3]]" by (simp add: frame_parts_def sample_layout)
  show "length sample_batches = 1" using e(2) by (simp add: frame_encoded_def parts sb)
  obtain out where o: "codeword_for copy_code [1, 2, 3] out" "length (batches ! 0) = length out"
    using e(2) by (auto simp: frame_encoded_def parts batch_of_def)
  have "0 < length out" using o(1) by (auto simp: codeword_for_def Let_def)
  with o(2) show "0 < length (sample_batches ! 0)" unfolding sb by simp
qed

lemma frame_over_lossy_network_witness:
  "\<exists>st'. reasm_feed_all copy_code reasm_new (map (\<lambda>(j, i). sample_batches ! j ! i) [(0, 0), (0, 0)]) =
      Some (answers (frame_needs (frame_parts sample_encoder [1, 2, 3]))
        \<lparr>rf_frame_index = 7, rf_is_keyframe = True, rf_data = received_data sample_encoder [1, 2, 3]\<rparr> {}
        [(0, 0), (0, 0)], st')
    \<and> take (length [1, 2, 3 :: u8]) (received_data sample_encoder [1, 2, 3]) = [1, 2, 3]"
proof -
  obtain f' p' where e: "frame_fec_encode copy_code sample_encoder [1, 2, 3] 7 9 True (packetizer_new 1)
      = (sample_batches, f', p')"
    by (metis prod.collapse sample_batches_def)
  show ?thesis
    by (rule frame_over_lossy_network [OF sample_inv _ _ sample_sound e])
      (use sample_lengths in \<open>simp_all add: MAX_FRAME_SHARDS_def FEC_SHARD_SIZE_def reasm_new_def\<close>)
qed

end
