(* ===== verification/Adaptive.thy ===== *)
theory Adaptive imports Protocol begin

text \<open>
  \<open>adaptive/\<close>: the loss and RTT averages, the burst detector, the delay-gradient estimator and the
  bitrate controller that arbitrates between them. \<open>Instant::now\<close> is the argument \<open>now\<close>; bitrates are
  naturals (a \<open>u64\<close> that stays below 2^32). \<open>f64\<close> arithmetic rounds as IEEE 754 prescribes.
  Integer overflow follows the release profile: \<open>u32\<close> and \<open>i32\<close> arithmetic wraps.
\<close>

section \<open>Bandwidth estimator\<close>

record bandwidth_estimator =
  be_loss :: fl
  be_rtt :: fl
  be_alpha :: fl
  be_last_update :: instant
  be_has_data :: bool

definition bandwidth_new :: "instant \<Rightarrow> bandwidth_estimator" where
  "bandwidth_new now = \<lparr>be_loss = Fin 0, be_rtt = Fin 10, be_alpha = f64_lit (3 / 10),
     be_last_update = now, be_has_data = False\<rparr>"

definition ewma :: "fl \<Rightarrow> fl \<Rightarrow> fl \<Rightarrow> fl" where
  "ewma alpha x old = f_add b64 (f_mul b64 alpha x) (f_mul b64 (f_sub b64 (Fin 1) alpha) old)"

definition interval_loss :: "u32 \<Rightarrow> u32 \<Rightarrow> fl" where
  "interval_loss packets_received packets_lost =
     (let total = packets_received + packets_lost in
      if 0 < total then f_div b64 (f_of_int b64 (uint packets_lost)) (f_of_int b64 (uint total)) else Fin 0)"

definition bandwidth_update :: "instant \<Rightarrow> bandwidth_estimator \<Rightarrow> u32 \<Rightarrow> u32 \<Rightarrow> fl \<Rightarrow> bandwidth_estimator" where
  "bandwidth_update now e packets_received packets_lost rtt_ms =
     (let loss = interval_loss packets_received packets_lost;
          e = (if be_has_data e
               then e\<lparr>be_loss := ewma (be_alpha e) loss (be_loss e), be_rtt := ewma (be_alpha e) rtt_ms (be_rtt e)\<rparr>
               else e\<lparr>be_loss := loss, be_rtt := rtt_ms, be_has_data := True\<rparr>)
      in e\<lparr>be_last_update := now\<rparr>)"

text \<open>The loss rate is a number between 0 and 1.\<close>

definition unit_fl :: "fl \<Rightarrow> bool" where
  "unit_fl x \<longleftrightarrow> (\<exists>r. x = Fin r \<and> 0 \<le> r \<and> r \<le> 1 \<and> is_float b64 r)"

lemma ewma_values:
  "f64_lit (3 / 10) = Fin (5404319552844595 / 18014398509481984)"
  "f_sub b64 (Fin 1) (Fin (5404319552844595 / 18014398509481984)) = Fin (3152519739159347 / 4503599627370496)"
  by code_simp+

lemma unit_rnd:
  assumes "is_float b64 a" "0 \<le> a" "0 \<le> x" "x \<le> a"
  obtains r where "rnd b64 x = Fin r" "0 \<le> r" "r \<le> a"
  using fmt64.rnd_between [OF fmt64.is_float_0 assms(1,3,4)] by blast

lemma unit_ewma:
  assumes "unit_fl x" "unit_fl y"
  shows "unit_fl (ewma (f64_lit (3 / 10)) x y)"
proof -
  let ?a = "5404319552844595 / 18014398509481984 :: rat" and ?b = "3152519739159347 / 4503599627370496 :: rat"
  have fl: "is_float b64 ?a" "is_float b64 ?b" by code_simp+
  obtain p q where pq: "x = Fin p" "0 \<le> p" "p \<le> 1" "y = Fin q" "0 \<le> q" "q \<le> 1"
    using assms by (auto simp: unit_fl_def)
  have "?a * p \<le> ?a" "?b * q \<le> ?b" using pq by simp_all
  then obtain u v where u: "rnd b64 (?a * p) = Fin u" "0 \<le> u" "u \<le> ?a"
    and v: "rnd b64 (?b * q) = Fin v" "0 \<le> v" "v \<le> ?b"
    using unit_rnd [OF fl(1), of "?a * p"] unit_rnd [OF fl(2), of "?b * q"] pq by (metis mult_nonneg_nonneg
      zero_le_divide_iff zero_le_numeral)
  have one: "rnd b64 (?a + ?b) = Fin 1" by code_simp
  have "rnd b64 (u + v) \<le> rnd b64 (?a + ?b)" using u v by (intro fmt64.rnd_mono) simp
  moreover have "rnd b64 0 \<le> rnd b64 (u + v)" using u v by (intro fmt64.rnd_mono) simp
  ultimately obtain w where w: "rnd b64 (u + v) = Fin w" "0 \<le> w" "w \<le> 1"
    unfolding one by (cases "rnd b64 (u + v)") auto
  have "is_float b64 w" by (rule fmt64.rnd_is_float [OF w(1)])
  moreover have "ewma (f64_lit (3 / 10)) x y = Fin w"
    unfolding ewma_def ewma_values by (simp only: pq f_mul_Fin u v f_add_Fin w)
  ultimately show ?thesis using w by (simp add: unit_fl_def)
qed

lemma interval_loss_unit:
  assumes "unat recv + unat lost < 2 ^ 32"
  shows "unit_fl (interval_loss recv lost)"
proof (cases "0 < recv + lost")
  case False
  then show ?thesis using fmt64.is_float_0 by (simp add: interval_loss_def unit_fl_def)
next
  case True
  have t: "uint (recv + lost) = uint recv + uint lost"
  proof -
    have "uint recv + uint lost < 2 ^ 32"
      using of_nat_less_iff [where 'a = int, THEN iffD2, OF assms] by simp
    then show ?thesis using uint_add_lem [of recv lost] by simp
  qed
  define l n where "l = uint lost" and "n = uint (recv + lost)"
  have lt: "0 \<le> l" "l \<le> n" "n < 2 ^ 32" and pos: "0 < n"
    using t uint_lt2p [of "recv + lost"] True by (simp_all add: l_def n_def word_less_def)
  have ex: "rnd b64 (of_int k) = Fin (of_int k)" if "0 \<le> k" "k < 2 ^ 32" for k
    using fmt64.is_float_int [of k] that by (simp add: is_float_def b64_def)
  let ?x = "of_int l / of_int n :: rat"
  have "0 \<le> ?x" "?x \<le> 1" using lt pos by (simp_all add: divide_le_eq)
  then obtain r where r: "rnd b64 ?x = Fin r" "0 \<le> r" "r \<le> 1"
    using unit_rnd [OF fmt64.is_float_1, of ?x] by auto
  have e: "f_of_int b64 l = Fin (of_int l)" "f_of_int b64 n = Fin (of_int n)"
    using lt by (intro ex; simp)+
  have "interval_loss recv lost = f_div b64 (f_of_int b64 l) (f_of_int b64 n)"
    using True by (simp only: interval_loss_def Let_def if_True l_def n_def)
  also have "\<dots> = rnd b64 ?x" unfolding e using pos by simp
  finally show ?thesis using r fmt64.rnd_is_float [OF r(1)] by (simp add: unit_fl_def)
qed

definition bandwidth_inv :: "bandwidth_estimator \<Rightarrow> bool" where
  "bandwidth_inv e \<longleftrightarrow> unit_fl (be_loss e) \<and> be_alpha e = f64_lit (3 / 10)"

lemma bandwidth_new_inv [inv_intros]: "bandwidth_inv (bandwidth_new now)"
  using fmt64.is_float_0 by (simp add: bandwidth_inv_def bandwidth_new_def unit_fl_def)

lemma bandwidth_update_inv [inv_intros]:
  "bandwidth_inv e \<Longrightarrow> unat recv + unat lost < 2 ^ 32 \<Longrightarrow> bandwidth_inv (bandwidth_update now e recv lost rtt)"
  by (simp add: bandwidth_inv_def bandwidth_update_def Let_def interval_loss_unit unit_ewma)

section \<open>Burst detector\<close>

datatype loss_pattern = NoLoss | Burst | Sustained

record burst_detector =
  bd_pattern :: loss_pattern
  bd_burst_start :: "instant option"
  bd_sustained_threshold :: duration
  bd_loss_rate_threshold :: fl

definition burst_new :: burst_detector where
  "burst_new = \<lparr>bd_pattern = NoLoss, bd_burst_start = None,
     bd_sustained_threshold = 500 * nanos_per_ms, bd_loss_rate_threshold = f64_lit (5 / 100)\<rparr>"

definition burst_record :: "instant \<Rightarrow> burst_detector \<Rightarrow> fl \<Rightarrow> burst_detector" where
  "burst_record now b loss_rate =
     (if bd_loss_rate_threshold b \<le> loss_rate then
        (case bd_burst_start b of
           None \<Rightarrow> b\<lparr>bd_burst_start := Some now, bd_pattern := Burst\<rparr>
         | Some start \<Rightarrow>
             if bd_sustained_threshold b < now - start then b\<lparr>bd_pattern := Sustained\<rparr> else b)
      else if bd_burst_start b \<noteq> None then b\<lparr>bd_burst_start := None, bd_pattern := NoLoss\<rparr>
      else b)"

definition recommend_fec_boost :: "burst_detector \<Rightarrow> bool" where
  "recommend_fec_boost b \<longleftrightarrow> bd_pattern b = Burst"

definition recommend_bitrate_reduction :: "burst_detector \<Rightarrow> bool" where
  "recommend_bitrate_reduction b \<longleftrightarrow> bd_pattern b = Sustained"

section \<open>Delay-gradient estimator\<close>

datatype delay_trend = TrendNormal | TrendIncreasing | TrendOveruse

record gcc_estimator =
  gc_delay_samples :: "fl list"
  gc_max_samples :: nat
  gc_gradient :: fl
  gc_threshold :: fl
  gc_trend :: delay_trend
  gc_alpha :: fl
  gc_last_recv_delta :: "u32 option"
  gc_current_bitrate :: nat
  gc_last_probe :: instant
  gc_probing :: bool

definition gcc_new :: "instant \<Rightarrow> nat \<Rightarrow> gcc_estimator" where
  "gcc_new now initial_bitrate_bps =
     \<lparr>gc_delay_samples = [], gc_max_samples = 60, gc_gradient = Fin 0, gc_threshold = Fin 6,
      gc_trend = TrendNormal, gc_alpha = f64_lit (3 / 10), gc_last_recv_delta = None,
      gc_current_bitrate = initial_bitrate_bps, gc_last_probe = now, gc_probing = False\<rparr>"

definition gcc_window :: "gcc_estimator \<Rightarrow> u32 \<Rightarrow> u32 \<Rightarrow> gcc_estimator" where
  "gcc_window g delta0 delta1 =
     (let gradient_us = f_of_int b64 (sint (delta1 - delta0));
          gradient_ms = f_div b64 gradient_us (Fin 1000);
          g = (if gc_last_recv_delta g \<noteq> None
               then g\<lparr>gc_gradient := ewma (gc_alpha g) gradient_ms (gc_gradient g)\<rparr>
               else g\<lparr>gc_gradient := gradient_ms\<rparr>);
          samples = gc_delay_samples g @ [gradient_ms]
      in g\<lparr>gc_delay_samples := (if gc_max_samples g < length samples then tl samples else samples)\<rparr>)"

fun gcc_windows :: "gcc_estimator \<Rightarrow> u32 list \<Rightarrow> gcc_estimator" where
  "gcc_windows g (d0 # d1 # ds) = gcc_windows (gcc_window g d0 d1) (d1 # ds)"
| "gcc_windows g _ = g"

definition gcc_classify :: "fl \<Rightarrow> fl \<Rightarrow> delay_trend" where
  "gcc_classify gradient threshold =
     (if threshold < gradient then TrendOveruse
      else if f_mul b64 threshold (Fin (1 / 2)) < gradient then TrendIncreasing
      else TrendNormal)"

definition gcc_process_feedback :: "gcc_estimator \<Rightarrow> feedback_entry list \<Rightarrow> gcc_estimator" where
  "gcc_process_feedback g entries =
     (if length entries < 2 then g
      else let g = gcc_windows g (map fb_recv_delta_us entries);
               g = g\<lparr>gc_last_recv_delta := Some (fb_recv_delta_us (last entries))\<rparr>;
               g = g\<lparr>gc_threshold := f_add b64 (f_mul b64 (f64_lit (99 / 100)) (gc_threshold g))
                       (f_mul b64 (f64_lit (1 / 100)) (f_max (f_abs (gc_gradient g)) (Fin 6)))\<rparr>
           in g\<lparr>gc_trend := gcc_classify (gc_gradient g) (gc_threshold g)\<rparr>)"

definition gcc_bitrate_multiplier :: "gcc_estimator \<Rightarrow> fl" where
  "gcc_bitrate_multiplier g = (case gc_trend g of
     TrendOveruse \<Rightarrow> f64_lit (85 / 100)
   | TrendIncreasing \<Rightarrow> f64_lit (95 / 100)
   | TrendNormal \<Rightarrow> if gc_gradient g < Fin (- 2) then f64_lit (105 / 100) else Fin 1)"

definition gcc_should_probe :: "instant \<Rightarrow> gcc_estimator \<Rightarrow> bool" where
  "gcc_should_probe now g \<longleftrightarrow> gc_trend g = TrendNormal \<and> f_abs (gc_gradient g) < Fin 2
     \<and> 30 \<le> (now - gc_last_probe g) div nanos_per_sec"

definition gcc_start_probe :: "instant \<Rightarrow> gcc_estimator \<Rightarrow> gcc_estimator" where
  "gcc_start_probe now g = g\<lparr>gc_probing := True, gc_last_probe := now\<rparr>"

definition gcc_end_probe :: "gcc_estimator \<Rightarrow> bool \<times> gcc_estimator" where
  "gcc_end_probe g = (gc_trend g = TrendNormal, g\<lparr>gc_probing := False\<rparr>)"

definition gcc_set_current_bitrate :: "gcc_estimator \<Rightarrow> nat \<Rightarrow> gcc_estimator" where
  "gcc_set_current_bitrate g bps = g\<lparr>gc_current_bitrate := bps\<rparr>"

section \<open>Arbitration\<close>

record arbitration_inputs =
  ai_current_bps :: nat
  ai_loss_rate :: fl
  ai_delay_gradient_ms :: fl
  ai_burst :: loss_pattern
  ai_hysteresis_elapsed :: bool
  ai_target_loss_rate :: fl
  ai_min_bps :: nat
  ai_hard_max_bps :: nat
  ai_thermal_ceiling_bps :: "nat option"

datatype arb_dominant = ArbNone | ArbSustained | ArbLoss | ArbDelay | ArbThermal | ArbIncrease | ArbFloor

definition clamp_with_thermal :: "nat \<Rightarrow> nat \<Rightarrow> nat \<Rightarrow> nat option \<Rightarrow> nat" where
  "clamp_with_thermal candidate mn hard_max thermal =
     (let effective_max = (case thermal of Some t \<Rightarrow> min hard_max t | None \<Rightarrow> hard_max)
      in max (min candidate effective_max) mn)"

definition decide_clamp_dominant :: "nat \<Rightarrow> nat \<Rightarrow> nat option \<Rightarrow> arb_dominant \<Rightarrow> arb_dominant" where
  "decide_clamp_dominant candidate final_target thermal network_dom =
     (if candidate < final_target then ArbFloor
      else case thermal of
          Some t \<Rightarrow> if final_target = t \<and> t < candidate then ArbThermal else network_dom
        | None \<Rightarrow> network_dom)"

text \<open>The multiplier chain: sustained loss, then the smaller of the delay and loss reductions, then an increase.\<close>

definition arb_lower :: "fl \<times> arb_dominant \<Rightarrow> fl \<Rightarrow> arb_dominant \<Rightarrow> fl \<times> arb_dominant" where
  "arb_lower md m d = (if m < fst md then (m, d) else md)"

definition arb_multiplier :: "arbitration_inputs \<Rightarrow> fl \<times> arb_dominant" where
  "arb_multiplier i =
     (let md = (Fin 1, ArbNone);
          md = (if ai_burst i = Sustained then (f64_lit (80 / 100), ArbSustained)
                else
                  let md = (if Fin 2 < ai_delay_gradient_ms i
                            then arb_lower md (f64_lit (90 / 100)) ArbDelay else md)
                  in if f64_lit (5 / 100) < ai_loss_rate i then arb_lower md (f64_lit (80 / 100)) ArbLoss
                     else if ai_target_loss_rate i < ai_loss_rate i
                          then arb_lower md (f64_lit (95 / 100)) ArbLoss
                     else md)
      in if Fin 1 \<le> fst md \<and> ai_hysteresis_elapsed i \<and> ai_loss_rate i < f64_lit (1 / 100)
         then (f64_lit (105 / 100), ArbIncrease) else md)"

definition arbitrate :: "arbitration_inputs \<Rightarrow> nat \<times> arb_dominant" where
  "arbitrate i =
     (let clamp = (\<lambda>c. clamp_with_thermal c (ai_min_bps i) (ai_hard_max_bps i) (ai_thermal_ceiling_bps i)) in
      if ai_burst i = Burst then
        let target = clamp (ai_current_bps i)
        in (target, decide_clamp_dominant (ai_current_bps i) target (ai_thermal_ceiling_bps i) ArbNone)
      else
        let (multiplier, network_dom) = arb_multiplier i;
            candidate = f_as_u64 (f_mul b64 (f_of_nat b64 (ai_current_bps i)) multiplier);
            target = clamp candidate
        in (target, decide_clamp_dominant candidate target (ai_thermal_ceiling_bps i) network_dom))"

section \<open>Bitrate controller\<close>

definition MIN_BITRATE_MBPS :: nat where "MIN_BITRATE_MBPS = 10"
definition MAX_BITRATE_MBPS :: nat where "MAX_BITRATE_MBPS = 200"

record bitrate_controller =
  bc_current :: nat
  bc_min :: nat
  bc_max :: nat
  bc_thermal :: "nat option"
  bc_target_loss :: fl
  bc_last_adjustment :: instant
  bc_hysteresis :: duration
  bc_last_decision :: arb_dominant

definition setting_bps :: "nat \<Rightarrow> nat" where
  "setting_bps mbps = (if mbps < MIN_BITRATE_MBPS then MIN_BITRATE_MBPS
      else if MAX_BITRATE_MBPS < mbps then MAX_BITRATE_MBPS else mbps) * 1000000"

definition bitrate_new :: "instant \<Rightarrow> nat \<Rightarrow> bitrate_controller" where
  "bitrate_new now bitrate_mbps =
     \<lparr>bc_current = setting_bps bitrate_mbps, bc_min = MIN_BITRATE_MBPS * 1000000,
      bc_max = setting_bps bitrate_mbps, bc_thermal = None, bc_target_loss = f64_lit (2 / 100),
      bc_last_adjustment = now, bc_hysteresis = 10 * nanos_per_sec, bc_last_decision = ArbNone\<rparr>"

definition clamp_to_bounds :: "bitrate_controller \<Rightarrow> nat \<Rightarrow> nat" where
  "clamp_to_bounds b candidate_bps =
     (let effective_max = (case bc_thermal b of Some t \<Rightarrow> min (bc_max b) t | None \<Rightarrow> bc_max b)
      in max (min candidate_bps effective_max) (bc_min b))"

definition set_setting_mbps :: "instant \<Rightarrow> bitrate_controller \<Rightarrow> nat \<Rightarrow> bitrate_controller" where
  "set_setting_mbps now b bitrate_mbps =
     (let b = b\<lparr>bc_max := setting_bps bitrate_mbps\<rparr>;
          b = b\<lparr>bc_current := clamp_to_bounds b (bc_max b)\<rparr>
      in b\<lparr>bc_last_adjustment := now\<rparr>)"

definition setting_mbps :: "bitrate_controller \<Rightarrow> nat" where
  "setting_mbps b = bc_max b div 1000000"

definition arbitration_of :: "instant \<Rightarrow> bitrate_controller \<Rightarrow> fl \<Rightarrow> fl \<Rightarrow> loss_pattern \<Rightarrow> arbitration_inputs" where
  "arbitration_of now b loss_rate gradient pattern =
     \<lparr>ai_current_bps = bc_current b, ai_loss_rate = loss_rate, ai_delay_gradient_ms = gradient,
      ai_burst = pattern, ai_hysteresis_elapsed = (bc_hysteresis b < now - bc_last_adjustment b),
      ai_target_loss_rate = bc_target_loss b, ai_min_bps = bc_min b, ai_hard_max_bps = bc_max b,
      ai_thermal_ceiling_bps = bc_thermal b\<rparr>"

definition bitrate_adjust ::
  "instant \<Rightarrow> bitrate_controller \<Rightarrow> bandwidth_estimator \<Rightarrow> gcc_estimator \<Rightarrow> burst_detector
   \<Rightarrow> bool \<times> bitrate_controller" where
  "bitrate_adjust now b estimator gcc burst =
     (if \<not> be_has_data estimator then (False, b)
      else let (target, dominant) =
                 arbitrate (arbitration_of now b (be_loss estimator) (gc_gradient gcc) (bd_pattern burst));
               b = b\<lparr>bc_last_decision := dominant\<rparr>
           in if target \<noteq> bc_current b
              then (True, b\<lparr>bc_current := target, bc_last_adjustment := now\<rparr>) else (False, b))"

definition set_thermal_ceiling :: "bitrate_controller \<Rightarrow> nat \<Rightarrow> bitrate_controller" where
  "set_thermal_ceiling b ceiling_bps =
     (let b = b\<lparr>bc_thermal := Some ceiling_bps\<rparr>; clamped = clamp_to_bounds b (bc_current b)
      in if clamped \<noteq> bc_current b then b\<lparr>bc_current := clamped\<rparr> else b)"

definition clear_thermal_ceiling :: "bitrate_controller \<Rightarrow> bitrate_controller" where
  "clear_thermal_ceiling b = b\<lparr>bc_thermal := None\<rparr>"

definition current_bitrate_mbps :: "bitrate_controller \<Rightarrow> nat" where
  "current_bitrate_mbps b = bc_current b div 1000000"

section \<open>The burst detector reports the length of the current loss episode\<close>

definition lossy :: "instant \<times> fl \<Rightarrow> bool" where
  "lossy r \<longleftrightarrow> f64_lit (5 / 100) \<le> snd r"

definition episode :: "(instant \<times> fl) list \<Rightarrow> (instant \<times> fl) list" where
  "episode rs = takeWhile lossy (rev rs)"

definition burst_run :: "(instant \<times> fl) list \<Rightarrow> burst_detector" where
  "burst_run rs = foldl (\<lambda>b (now, l). burst_record now b l) burst_new rs"

lemma episode_snoc: "episode (rs @ [r]) = (if lossy r then r # episode rs else [])"
  by (simp add: episode_def)

lemma episode_subset: "set (episode rs) \<subseteq> set rs"
  using set_takeWhileD [of _ lossy "rev rs"] by (auto simp: episode_def)

lemma burst_run_eq:
  assumes "sorted (map fst rs)"
  shows "burst_run rs = burst_new\<lparr>
     bd_pattern := (if episode rs = [] then NoLoss
        else if 500 * nanos_per_ms < fst (hd (episode rs)) - fst (last (episode rs)) then Sustained else Burst),
     bd_burst_start := (if episode rs = [] then None else Some (fst (last (episode rs))))\<rparr>"
  using assms
proof (induction rs rule: rev_induct)
  case Nil
  then show ?case by (simp add: burst_run_def episode_def burst_new_def)
next
  case (snoc r rs)
  obtain now l where r: "r = (now, l)" by (cases r)
  have so: "sorted (map fst rs)" and le: "\<forall>x\<in>set rs. fst x \<le> now"
    using snoc.prems by (auto simp: sorted_append r)
  note IH = snoc.IH [OF so]
  have step: "burst_run (rs @ [r]) = burst_record now (burst_run rs) l"
    by (simp add: burst_run_def r)
  have lo: "lossy r \<longleftrightarrow> f64_lit (5 / 100) \<le> l" by (simp add: lossy_def r)
  show ?case
  proof (cases "lossy r")
    case False
    with lo show ?thesis unfolding step IH
      by (simp add: burst_record_def episode_snoc) (simp add: burst_new_def)
  next
    case True
    show ?thesis
    proof (cases "episode rs = []")
      case T2: True
      with True lo show ?thesis unfolding step IH
        by (simp add: burst_record_def episode_snoc r) (simp add: burst_new_def)
    next
      case F2: False
      then have "hd (episode rs) \<in> set rs" using episode_subset by (metis hd_in_set subsetD)
      with le have "fst (hd (episode rs)) \<le> now" by blast
      with True F2 lo show ?thesis unfolding step IH
        by (simp add: burst_record_def episode_snoc r) (auto simp: burst_new_def)
    qed
  qed
qed



section \<open>The bitrate stays within the user's setting\<close>

datatype bitrate_op =
  Adjust instant bandwidth_estimator gcc_estimator burst_detector
| ChangeSetting instant nat
| ThermalCap nat
| ClearCap

fun bitrate_step :: "bitrate_controller \<Rightarrow> bitrate_op \<Rightarrow> bitrate_controller" where
  "bitrate_step b (Adjust now e g d) = snd (bitrate_adjust now b e g d)"
| "bitrate_step b (ChangeSetting now mbps) = set_setting_mbps now b mbps"
| "bitrate_step b (ThermalCap bps) = set_thermal_ceiling b bps"
| "bitrate_step b ClearCap = clear_thermal_ceiling b"

definition effective_max :: "nat \<Rightarrow> nat option \<Rightarrow> nat" where
  "effective_max hard_max thermal = (case thermal of Some t \<Rightarrow> min hard_max t | None \<Rightarrow> hard_max)"

definition bitrate_inv :: "bitrate_controller \<Rightarrow> bool" where
  "bitrate_inv b \<longleftrightarrow> bc_min b = 10000000 \<and> bc_min b \<le> bc_max b \<and> bc_max b \<le> 200000000
     \<and> bc_target_loss b = f64_lit (2 / 100)
     \<and> bc_min b \<le> bc_current b \<and> bc_current b \<le> max (bc_min b) (effective_max (bc_max b) (bc_thermal b))"

lemma setting_bps_range: "10000000 \<le> setting_bps m \<and> setting_bps m \<le> 200000000"
  by (auto simp: setting_bps_def MIN_BITRATE_MBPS_def MAX_BITRATE_MBPS_def)

lemma clamp_to_bounds_eq:
  "clamp_to_bounds b c = clamp_with_thermal c (bc_min b) (bc_max b) (bc_thermal b)"
  by (simp add: clamp_to_bounds_def clamp_with_thermal_def)

lemma clamp_with_thermal_range:
  "mn \<le> clamp_with_thermal c mn hm th
   \<and> clamp_with_thermal c mn hm th \<le> max mn (effective_max hm th)"
  by (auto simp: clamp_with_thermal_def effective_max_def split: option.split)

lemma arbitrate_range:
  "ai_min_bps i \<le> fst (arbitrate i) \<and> fst (arbitrate i) \<le> max (ai_min_bps i)
     (effective_max (ai_hard_max_bps i) (ai_thermal_ceiling_bps i))"
  by (simp add: arbitrate_def Let_def split_beta clamp_with_thermal_range)

lemma bitrate_inv_new [inv_intros]: "bitrate_inv (bitrate_new now m)"
  using setting_bps_range [of m] by (simp add: bitrate_inv_def bitrate_new_def MIN_BITRATE_MBPS_def effective_max_def)

lemma bitrate_inv_adjust [inv_intros]: "bitrate_inv b \<Longrightarrow> bitrate_inv (snd (bitrate_adjust now b e g d))"
  using arbitrate_range [of "arbitration_of now b (be_loss e) (gc_gradient g) (bd_pattern d)"]
  by (auto simp: bitrate_adjust_def bitrate_inv_def Let_def split_beta arbitration_of_def)

lemma bitrate_inv_setting [inv_intros]: "bitrate_inv b \<Longrightarrow> bitrate_inv (set_setting_mbps now b m)"
  using setting_bps_range [of m]
    clamp_with_thermal_range [of "bc_min b" "setting_bps m" "setting_bps m" "bc_thermal b"]
  by (simp add: set_setting_mbps_def bitrate_inv_def Let_def clamp_to_bounds_eq)

lemma bitrate_inv_cap [inv_intros]: "bitrate_inv b \<Longrightarrow> bitrate_inv (set_thermal_ceiling b t)"
  using clamp_with_thermal_range [of "bc_min b" "bc_current b" "bc_max b" "Some t"]
  by (auto simp: set_thermal_ceiling_def bitrate_inv_def Let_def clamp_to_bounds_eq)

lemma bitrate_inv_clear [inv_intros]: "bitrate_inv b \<Longrightarrow> bitrate_inv (clear_thermal_ceiling b)"
  by (auto simp: clear_thermal_ceiling_def bitrate_inv_def effective_max_def split: option.splits)

lemma bitrate_inv_step: "bitrate_inv b \<Longrightarrow> bitrate_inv (bitrate_step b op)"
  by (cases op) (auto intro: inv_intros)

lemma bitrate_inv_run: "bitrate_inv b \<Longrightarrow> bitrate_inv (foldl bitrate_step b ops)"
  by (induction ops arbitrary: b) (auto intro: bitrate_inv_step)

text \<open>
  C19. Whatever the network reports, the user sets and the thermal governor caps, in any order,
  the bitrate stays between the 10 Mbps floor and the user's setting (itself at most 200 Mbps),
  and under the thermal ceiling unless that is below the floor.
\<close>
theorem bitrate_within_setting:
  "let b = foldl bitrate_step (bitrate_new now mbps) ops in
     10000000 \<le> bc_current b \<and> bc_current b \<le> bc_max b \<and> bc_max b \<le> 200000000
     \<and> bc_current b \<le> (case bc_thermal b of Some t \<Rightarrow> max 10000000 t | None \<Rightarrow> bc_max b)"
  using bitrate_inv_run [OF bitrate_inv_new [of now mbps], of ops]
  by (auto simp: bitrate_inv_def effective_max_def Let_def split: option.splits)

section \<open>Which way an arbitration goes, and how far\<close>

lemma arb_literals:
  "f64_lit (80 / 100) = Fin (3602879701896397 / 4503599627370496)"
  "f64_lit (90 / 100) = Fin (8106479329266893 / 9007199254740992)"
  "f64_lit (95 / 100) = Fin (4278419646001971 / 4503599627370496)"
  "f64_lit (105 / 100) = Fin (4728779608739021 / 4503599627370496)"
  by code_simp+

lemma arb_multiplier_cases:
  obtains (up) "arb_multiplier i = (Fin (4728779608739021 / 4503599627370496), ArbIncrease)"
      "ai_burst i \<noteq> Sustained" "ai_hysteresis_elapsed i" "ai_loss_rate i < f64_lit (1 / 100)"
      "\<not> Fin 2 < ai_delay_gradient_ms i"
  | (down) m d where "arb_multiplier i = (Fin m, d)" "79 / 100 \<le> m" "m \<le> 1" "d \<noteq> ArbIncrease"
proof -
  let ?up = "Fin (4728779608739021 / 4503599627370496)"
  show thesis
  proof (cases "snd (arb_multiplier i) = ArbIncrease")
    case True
    then have "arb_multiplier i = (?up, ArbIncrease) \<and> ai_burst i \<noteq> Sustained \<and> ai_hysteresis_elapsed i
        \<and> ai_loss_rate i < f64_lit (1 / 100) \<and> \<not> Fin 2 < ai_delay_gradient_ms i"
      unfolding arb_multiplier_def Let_def arb_lower_def arb_literals
      by (simp split: if_splits)
    then show thesis using up by blast
  next
    case False
    then have "arb_multiplier i \<in> {(Fin 1, ArbNone), (f64_lit (80 / 100), ArbSustained),
        (f64_lit (90 / 100), ArbDelay), (f64_lit (80 / 100), ArbLoss), (f64_lit (95 / 100), ArbLoss)}"
      unfolding arb_multiplier_def Let_def arb_lower_def arb_literals
      by (simp split: if_splits)
    then show thesis 
      unfolding arb_literals insert_iff empty_iff
      by (elim disjE FalseE) (rule down, assumption, simp, simp, simp)+
  qed
qed

lemma scaled_candidate:
  assumes "c < 2 ^ 52" "0 \<le> m" "m < 2"
  obtains r where "rnd b64 (of_nat c * m) = Fin r" "\<bar>r - of_nat c * m\<bar> \<le> 1 / 2" "0 \<le> r"
    "f_as_u64 (Fin r) = nat \<lfloor>r\<rfloor>" "m \<le> 1 \<Longrightarrow> r \<le> of_nat c"
proof -
  let ?x = "of_nat c * m"
  have c: "(of_nat c :: rat) < 2 ^ 52"
    using assms(1) by (metis of_nat_less_iff of_nat_numeral of_nat_power)
  have x: "0 \<le> ?x" "?x < 2 ^ 53"
  proof -
    show "0 \<le> ?x" using assms by simp
    have "?x \<le> of_nat c * 2" using assms by (intro mult_left_mono) auto
    also have "\<dots> < 2 ^ 53" using c by simp
    finally show "?x < 2 ^ 53" .
  qed
  have "is_float b64 (2 ^ 53)" using fmt64.is_float_int [of "2 ^ 53"] by (simp add: b64_def)
  then obtain r where r: "rnd b64 ?x = Fin r" "0 \<le> r" "r \<le> 2 ^ 53"
    using fmt64.rnd_between [OF fmt64.is_float_0, of "2 ^ 53" ?x] x by auto
  have "\<bar>r - ?x\<bar> \<le> pow2 (52 - (prec b64 - 1)) / 2"
    using x by (intro fmt64.rnd_error_below [OF r(1)]) (simp_all add: b64_def pow2_def)
  then have e: "\<bar>r - ?x\<bar> \<le> 1 / 2" by (simp add: b64_def)
  have "\<lfloor>r\<rfloor> \<le> 2 ^ 53" using r(3) by (simp add: floor_le_iff)
  then have u: "f_as_u64 (Fin r) = nat \<lfloor>r\<rfloor>" using r(2) by (simp add: f_as_u64_def trunc_rat_def)
  have le: "r \<le> of_nat c" if m: "m \<le> 1"
  proof -
    have "?x \<le> of_nat c * 1" using m by (intro mult_left_mono) auto
    then have "rnd b64 ?x \<le> rnd b64 (of_nat c)" by (intro fmt64.rnd_mono) simp
    moreover have "rnd b64 (of_nat c) = Fin (of_nat c)"
      using fmt64.is_float_int [of "int c"] assms(1) by (simp add: is_float_def b64_def)
    ultimately show ?thesis by (simp add: r(1))
  qed
  show thesis by (rule that [OF r(1) e r(2) u le])
qed

lemma f_of_nat64: "c < 2 ^ 52 \<Longrightarrow> f_of_nat b64 c = Fin (of_nat c)"
  using fmt64.is_float_int [of "int c"] by (simp add: is_float_def b64_def)

text \<open>
  From a bitrate within its bounds, arbitration holds still during a burst; it goes up only
  when the hysteresis time is over, the loss is under 1 %, no loss episode is on and the delay
  is not growing by more than 2 ms, and then by at most 6 %; it never goes down by more than 21 %
  (20 % and rounding).
\<close>
theorem arbitration_direction:
  assumes "60 \<le> ai_current_bps i" "ai_current_bps i < 2 ^ 52" "ai_min_bps i \<le> ai_current_bps i"
    and "ai_current_bps i \<le> effective_max (ai_hard_max_bps i) (ai_thermal_ceiling_bps i)"
  shows "(ai_burst i = Burst \<longrightarrow> fst (arbitrate i) = ai_current_bps i)
    \<and> (ai_current_bps i < fst (arbitrate i) \<longrightarrow> ai_hysteresis_elapsed i
         \<and> ai_loss_rate i < f64_lit (1 / 100) \<and> ai_burst i = NoLoss \<and> \<not> Fin 2 < ai_delay_gradient_ms i)
    \<and> 100 * fst (arbitrate i) \<le> 106 * ai_current_bps i
    \<and> 79 * ai_current_bps i \<le> 100 * fst (arbitrate i) + 150"
proof -
  let ?c = "ai_current_bps i" and ?clamp = "\<lambda>c. clamp_with_thermal c (ai_min_bps i) (ai_hard_max_bps i) (ai_thermal_ceiling_bps i)"
  have cl: "?clamp x \<le> max x ?c" "min x ?c \<le> ?clamp x" "x \<le> ?c \<Longrightarrow> ?clamp x \<le> ?c" for x
    using assms(3,4) by (auto simp: clamp_with_thermal_def effective_max_def split: option.splits)
  have cc: "?clamp ?c = ?c"
    using assms(3,4) by (auto simp: clamp_with_thermal_def effective_max_def split: option.splits)
  show ?thesis
  proof (cases "ai_burst i = Burst")
    case True
    then have "fst (arbitrate i) = ?c" by (simp add: arbitrate_def Let_def cc)
    with True show ?thesis by simp
  next
    case nb: False
    have arb: "fst (arbitrate i) = ?clamp (f_as_u64 (f_mul b64 (f_of_nat b64 ?c) (fst (arb_multiplier i))))"
      using nb by (simp add: arbitrate_def Let_def split_beta)
    show ?thesis
    proof (cases rule: arb_multiplier_cases [of i])
      case up
      let ?m = "4728779608739021 / 4503599627370496 :: rat"
      obtain r where r: "rnd b64 (of_nat ?c * ?m) = Fin r" "\<bar>r - of_nat ?c * ?m\<bar> \<le> 1 / 2" "0 \<le> r"
          "f_as_u64 (Fin r) = nat \<lfloor>r\<rfloor>"
        by (rule scaled_candidate [OF assms(2), of ?m]) auto
      have a: "fst (arbitrate i) = ?clamp (nat \<lfloor>r\<rfloor>)"
        unfolding arb up fst_conv f_of_nat64 [OF assms(2)] f_mul_Fin r(1,4) ..
      have c50: "60 \<le> (of_nat ?c :: rat)" using assms(1) by (metis of_nat_le_iff of_nat_numeral)
      have "r \<le> of_nat ?c * ?m + 1 / 2" "of_nat ?c * ?m - 1 / 2 \<le> r" using r(2) by linarith+
      moreover have "of_nat ?c * ?m \<le> of_nat ?c * (10501 / 10000)" "of_nat ?c * 1 \<le> of_nat ?c * ?m"
        by (intro mult_left_mono; simp)+
      ultimately have rb: "100 * r \<le> 106 * of_nat ?c" "of_nat ?c - 1 \<le> r" using c50 by linarith+
      have fl: "of_int \<lfloor>r\<rfloor> \<le> r" "r - 1 < of_int \<lfloor>r\<rfloor>" by linarith+
      have "(of_int (100 * \<lfloor>r\<rfloor>) :: rat) \<le> of_int (106 * int ?c)" "(of_int (int ?c - 2) :: rat) < of_int \<lfloor>r\<rfloor>"
        unfolding of_int_mult of_int_numeral of_int_of_nat_eq of_int_diff using rb fl by linarith+
      then have "100 * \<lfloor>r\<rfloor> \<le> 106 * int ?c" "int ?c - 2 < \<lfloor>r\<rfloor>" by (simp_all only: of_int_le_iff of_int_less_iff)
      then have "100 * nat \<lfloor>r\<rfloor> \<le> 106 * ?c" "?c \<le> nat \<lfloor>r\<rfloor> + 1" by linarith+
      with cl(1,2) [of "nat \<lfloor>r\<rfloor>"] have "100 * fst (arbitrate i) \<le> 106 * ?c" "?c \<le> fst (arbitrate i) + 1"
        unfolding a by linarith+
      moreover have "ai_burst i = NoLoss" using nb up by (cases "ai_burst i") auto
      ultimately show ?thesis using up nb assms(1) by auto
    next
      case (down m d)
      obtain r where r: "rnd b64 (of_nat ?c * m) = Fin r" "\<bar>r - of_nat ?c * m\<bar> \<le> 1 / 2" "0 \<le> r"
          "f_as_u64 (Fin r) = nat \<lfloor>r\<rfloor>" "r \<le> of_nat ?c"
        using scaled_candidate [OF assms(2), of m] down(2,3) by (metis divide_nonneg_nonneg le_less_trans
            order_trans zero_le_numeral one_less_numeral_iff semiring_norm(76))
      have a: "fst (arbitrate i) = ?clamp (nat \<lfloor>r\<rfloor>)"
        unfolding arb down fst_conv f_of_nat64 [OF assms(2)] f_mul_Fin r(1,4) ..
      have "of_nat ?c * (79 / 100) \<le> of_nat ?c * m" using down(2) by (intro mult_left_mono) auto
      then have "of_nat ?c * (79 / 100) - 1 / 2 \<le> r" using r(2) by linarith
      moreover have "r - 1 < of_int \<lfloor>r\<rfloor>" by linarith
      ultimately have "(of_int (79 * int ?c) :: rat) < of_int (100 * \<lfloor>r\<rfloor> + 150)" by simp
      then have "79 * int ?c < 100 * \<lfloor>r\<rfloor> + 150" by (simp only: of_int_less_iff)
      moreover have "\<lfloor>r\<rfloor> \<le> int ?c" using r(5) by (simp add: floor_le_iff)
      ultimately have n: "79 * ?c \<le> 100 * nat \<lfloor>r\<rfloor> + 150" "nat \<lfloor>r\<rfloor> \<le> ?c" using r(3) by linarith+
      with cl(2,3) [of "nat \<lfloor>r\<rfloor>"] have "79 * ?c \<le> 100 * fst (arbitrate i) + 150" "fst (arbitrate i) \<le> ?c"
        unfolding a by linarith+
      with nb show ?thesis by simp
    qed
  qed
qed

definition sample_inputs :: arbitration_inputs where
  "sample_inputs = \<lparr>ai_current_bps = 50000000, ai_loss_rate = Fin 0, ai_delay_gradient_ms = Fin 0,
     ai_burst = NoLoss, ai_hysteresis_elapsed = True, ai_target_loss_rate = f64_lit (2 / 100),
     ai_min_bps = 10000000, ai_hard_max_bps = 80000000, ai_thermal_ceiling_bps = None\<rparr>"

lemma arbitration_direction_witness:
  "100 * fst (arbitrate sample_inputs) \<le> 106 * ai_current_bps sample_inputs
   \<and> 79 * ai_current_bps sample_inputs \<le> 100 * fst (arbitrate sample_inputs) + 150"
proof -
  have "60 \<le> ai_current_bps sample_inputs" "ai_current_bps sample_inputs < 2 ^ 52"
      "ai_min_bps sample_inputs \<le> ai_current_bps sample_inputs"
      "ai_current_bps sample_inputs \<le> effective_max (ai_hard_max_bps sample_inputs) (ai_thermal_ceiling_bps sample_inputs)"
    by (simp_all add: sample_inputs_def effective_max_def)
  then show ?thesis using arbitration_direction [of sample_inputs] by blast
qed

text \<open>
  At the user's setting, on a clean link, the controller reports that it is increasing the
  bitrate although the setting keeps it where it is (the documentation promises that the cap that
  bit is the dominant signal).
\<close>
theorem increase_reported_at_cap:
  "let b = (bitrate_new 0 50)\<lparr>bc_hysteresis := 0\<rparr>;
       r = bitrate_adjust 1 b (bandwidth_update 0 (bandwidth_new 0) 100 0 (Fin 5)) (gcc_new 0 0) burst_new
   in fst r = False \<and> bc_current (snd r) = bc_current b \<and> bc_last_decision (snd r) = ArbIncrease"
proof -
  have l: "Fin 0 < f64_lit (1 / 100)" "\<not> f64_lit (5 / 100) < Fin 0" "\<not> f64_lit (2 / 100) < Fin 0"
    by code_simp+
  have "rnd b64 100 = Fin 100" by code_simp
  then have il: "interval_loss 100 0 = Fin 0"
    by (simp add: interval_loss_def)
  let ?i = "arbitration_of 1 ((bitrate_new 0 50)\<lparr>bc_hysteresis := 0\<rparr>) (Fin 0) (Fin 0) NoLoss"
  have m: "arb_multiplier ?i = (f64_lit (105 / 100), ArbIncrease)"
    unfolding arb_multiplier_def Let_def
    using l by (simp add: arbitration_of_def bitrate_new_def)
  have v: "f_mul b64 (Fin 50000000) (f64_lit (105 / 100)) = Fin 52500000" by code_simp
  have "f_of_nat b64 50000000 = Fin 50000000" using f_of_nat64 [of 50000000] by simp
  then have "arbitrate ?i = (50000000, ArbIncrease)"
    unfolding arbitrate_def Let_def m prod.case
    by (simp add: arbitration_of_def bitrate_new_def setting_bps_def MIN_BITRATE_MBPS_def MAX_BITRATE_MBPS_def
        v [simplified] clamp_with_thermal_def decide_clamp_dominant_def f_as_u64_def trunc_rat_def)
  then show ?thesis
    by (simp add: Let_def bitrate_adjust_def bandwidth_update_def bandwidth_new_def il gcc_new_def burst_new_def
        arbitration_of_def bitrate_new_def setting_bps_def MIN_BITRATE_MBPS_def MAX_BITRATE_MBPS_def)
qed

end
