(* ===== verification/Config.thy ===== *)
theory Config imports Protocol "HOL-Library.AList" begin

text \<open>
  \<open>config.rs\<close>: the configuration sections with their defaults, \<open>validate\<close> (one definition per
  section, in the order of the code), the encoded picture size, and the layering of TOML files.
  Unsigned fields are naturals, \<open>i32\<close> fields integers, \<open>f32\<close> fields \<open>fl\<close>. A correction is
  recorded by the name of the field; the text of its message is dropped. \<open>validate\<close> returns
  \<open>None\<close> where the code panics (\<open>clamp\<close> with an empty range). The file system, the TOML
  parser and \<open>serde\<close> are parameters of the loader.
\<close>

section \<open>Sections\<close>

record network_config =
  tcp_port :: nat
  udp_port :: nat
  fec_redundancy :: fl
  fec_redundancy_min :: fl
  fec_redundancy_max :: fl
  adaptive_fec_enabled :: bool
  congestion_control :: string
  slice_fec_enabled :: bool
  slice_count :: nat

record video_config =
  codec :: video_codec
  bitrate_mbps :: nat
  resolution_w :: nat
  resolution_h :: nat
  framerate :: nat
  full_range :: bool
  resolution_scale :: fl
  bitrate_pixel_factor :: "fl option"

record audio_config =
  au_enabled :: bool
  au_bitrate_kbps :: nat
  au_frame_size_ms :: "nat option"
  au_sample_rate :: "nat option"
  au_channels :: "nat option"
  au_synthetic_source :: string
  au_synthetic_wav_path :: string

record pairing_config =
  pc_max_attempts :: nat
  pc_lockout_seconds :: nat

record display_config =
  ipd :: fl
  vsync_to_photons :: fl

datatype foveated_preset = Subtle | Balanced | Aggressive | Custom

record foveated_config =
  fov_enabled :: bool
  fovea_radius :: fl
  mid_radius :: fl
  mid_qp_offset :: int
  peripheral_qp_offset :: int
  fov_preset :: foveated_preset

record face_tracking_config =
  ft_enabled :: bool
  ft_smoothing :: fl
  ft_osc_port :: nat
  ft_active_profile :: string

record sleep_mode_config =
  sm_enabled :: bool
  sm_timeout_seconds :: nat
  sm_motion_threshold :: fl
  sm_bitrate_mbps :: nat

record memory_monitor_config =
  mm_enabled :: bool
  mm_poll_seconds :: nat
  mm_growth_threshold_mb :: nat

record recording_config =
  rec_enabled :: bool
  rec_output_dir :: string
  rec_retention_days :: nat

record thermal_config =
  th_enabled :: bool
  th_poll_seconds :: nat
  th_warn :: nat
  th_limit :: nat
  th_emergency :: nat
  th_recovery_seconds :: nat

record app_config =
  network :: network_config
  video :: video_config
  audio :: audio_config
  pairing_cfg :: pairing_config
  display :: display_config
  foveated :: foveated_config
  face_tracking :: face_tracking_config
  sleep_mode :: sleep_mode_config
  memory_monitor :: memory_monitor_config
  recording :: recording_config
  thermal :: thermal_config

definition default_network :: network_config where
  "default_network = \<lparr>tcp_port = DEFAULT_TCP_PORT, udp_port = DEFAULT_UDP_PORT,
     fec_redundancy = DEFAULT_FEC_REDUNDANCY, fec_redundancy_min = f32_lit (5 / 100),
     fec_redundancy_max = f32_lit (40 / 100), adaptive_fec_enabled = True,
     congestion_control = ''gcc'', slice_fec_enabled = True, slice_count = 4\<rparr>"

definition default_video :: video_config where
  "default_video = \<lparr>codec = H265, bitrate_mbps = 80, resolution_w = 1832, resolution_h = 1920,
     framerate = 90, full_range = True, resolution_scale = Fin 1, bitrate_pixel_factor = None\<rparr>"

definition default_audio :: audio_config where
  "default_audio = \<lparr>au_enabled = True, au_bitrate_kbps = 128, au_frame_size_ms = None,
     au_sample_rate = None, au_channels = None, au_synthetic_source = ''off'', au_synthetic_wav_path = ''''\<rparr>"

definition default_pairing :: pairing_config where
  "default_pairing = \<lparr>pc_max_attempts = unat MAX_PIN_ATTEMPTS, pc_lockout_seconds = PIN_LOCKOUT_SECONDS\<rparr>"

definition default_display :: display_config where
  "default_display = \<lparr>ipd = f32_lit (63 / 1000), vsync_to_photons = f32_lit (11 / 1000)\<rparr>"

definition default_foveated :: foveated_config where
  "default_foveated = \<lparr>fov_enabled = False, fovea_radius = f32_lit (15 / 100), mid_radius = f32_lit (35 / 100),
     mid_qp_offset = 5, peripheral_qp_offset = 15, fov_preset = Balanced\<rparr>"

definition default_face_tracking :: face_tracking_config where
  "default_face_tracking = \<lparr>ft_enabled = True, ft_smoothing = f32_lit (6 / 10), ft_osc_port = 9000,
     ft_active_profile = ''''\<rparr>"

definition default_sleep_mode :: sleep_mode_config where
  "default_sleep_mode = \<lparr>sm_enabled = True, sm_timeout_seconds = 300,
     sm_motion_threshold = f32_lit (2 / 1000), sm_bitrate_mbps = 8\<rparr>"

definition default_memory_monitor :: memory_monitor_config where
  "default_memory_monitor = \<lparr>mm_enabled = True, mm_poll_seconds = 60, mm_growth_threshold_mb = 50\<rparr>"

definition default_recording :: recording_config where
  "default_recording = \<lparr>rec_enabled = False, rec_output_dir = '''', rec_retention_days = 30\<rparr>"

definition default_thermal :: thermal_config where
  "default_thermal = \<lparr>th_enabled = False, th_poll_seconds = 5, th_warn = 75, th_limit = 85,
     th_emergency = 90, th_recovery_seconds = 30\<rparr>"

definition default_config :: app_config where
  "default_config = \<lparr>network = default_network, video = default_video, audio = default_audio,
     pairing_cfg = default_pairing, display = default_display, foveated = default_foveated,
     face_tracking = default_face_tracking, sleep_mode = default_sleep_mode,
     memory_monitor = default_memory_monitor, recording = default_recording, thermal = default_thermal\<rparr>"

lemmas default_defs = default_config_def default_network_def default_video_def default_audio_def
  default_pairing_def default_display_def default_foveated_def default_face_tracking_def
  default_sleep_mode_def default_memory_monitor_def default_recording_def default_thermal_def

fun qp_offsets :: "foveated_preset \<Rightarrow> (int \<times> int) option" where
  "qp_offsets Subtle = Some (3, 8)"
| "qp_offsets Balanced = Some (5, 15)"
| "qp_offsets Aggressive = Some (8, 25)"
| "qp_offsets Custom = None"

definition effective_qp_offsets :: "foveated_config \<Rightarrow> int \<times> int" where
  "effective_qp_offsets f = (case qp_offsets (fov_preset f) of
     Some o' \<Rightarrow> o' | None \<Rightarrow> (mid_qp_offset f, peripheral_qp_offset f))"

section \<open>Validation\<close>

type_synonym field_errors = "string list"

definition validate_range :: "'a::linorder \<Rightarrow> 'a \<Rightarrow> 'a \<Rightarrow> 'a \<Rightarrow> string \<Rightarrow> 'a \<times> field_errors" where
  "validate_range value mn mx dflt field =
     (if value < mn \<or> mx < value then (dflt, [field]) else (value, []))"

definition validate_f32_range :: "fl \<Rightarrow> fl \<Rightarrow> fl \<Rightarrow> fl \<Rightarrow> string \<Rightarrow> fl \<times> field_errors" where
  "validate_f32_range value mn mx dflt field =
     (if f_is_nan value \<or> f_is_infinite value \<or> value < mn \<or> mx < value
      then (dflt, [field]) else (value, []))"

definition MAX_UDP :: nat where "MAX_UDP = 65535 - AUDIO_PORT_OFFSET"

definition validate_ports :: "network_config \<Rightarrow> network_config \<times> field_errors" where
  "validate_ports n =
     (let (n, e1) = (if tcp_port n < 1024
             then (n\<lparr>tcp_port := DEFAULT_TCP_PORT\<rparr>, [''network.tcp_port'']) else (n, []));
          (n, e2) = (if udp_port n < 1024
             then (n\<lparr>udp_port := DEFAULT_UDP_PORT\<rparr>, [''network.udp_port'']) else (n, []));
          (n, e3) = (if MAX_UDP < udp_port n
             then (n\<lparr>udp_port := DEFAULT_UDP_PORT\<rparr>, [''network.udp_port'']) else (n, []));
          (n, e4) = (if tcp_port n = udp_port n
             then (n\<lparr>udp_port := (if tcp_port n < MAX_UDP then tcp_port n + 1 else tcp_port n - 1)\<rparr>,
                   [''network.udp_port'']) else (n, []))
      in (n, e1 @ e2 @ e3 @ e4))"

definition FEC_MIN_FALLBACK :: fl where "FEC_MIN_FALLBACK = f32_lit (5 / 100)"
definition FEC_MAX_FALLBACK :: fl where "FEC_MAX_FALLBACK = f32_lit (40 / 100)"

definition validate_fec :: "network_config \<Rightarrow> (network_config \<times> field_errors) option" where
  "validate_fec n =
     (let (n, e1) = (if fec_redundancy_min n < Fin 0 \<or> Fin 1 < fec_redundancy_min n
               \<or> f_is_nan (fec_redundancy_min n)
             then (n\<lparr>fec_redundancy_min := FEC_MIN_FALLBACK\<rparr>, [''network.fec_redundancy_min'']) else (n, []));
          (n, e2) = (if fec_redundancy_max n < fec_redundancy_min n \<or> Fin 1 < fec_redundancy_max n
               \<or> f_is_nan (fec_redundancy_max n)
             then (n\<lparr>fec_redundancy_max := FEC_MAX_FALLBACK\<rparr>, [''network.fec_redundancy_max'']) else (n, []))
      in if f_is_nan (fec_redundancy n) \<or> fec_redundancy n < fec_redundancy_min n
            \<or> fec_redundancy_max n < fec_redundancy n
         then (case f_clamp_checked (fec_redundancy_min n) (fec_redundancy_max n) (fec_redundancy n) of
                 None \<Rightarrow> None
               | Some c \<Rightarrow> Some (n\<lparr>fec_redundancy := c\<rparr>, e1 @ e2 @ [''network.fec_redundancy'']))
         else Some (n, e1 @ e2))"

definition validate_network :: "network_config \<Rightarrow> (network_config \<times> field_errors) option" where
  "validate_network n =
     (let (n, e1) = validate_ports n in
      case validate_fec n of
        None \<Rightarrow> None
      | Some (n, e2) \<Rightarrow>
         let (n, e3) = (if congestion_control n \<noteq> ''gcc'' \<and> congestion_control n \<noteq> ''loss''
               then (n\<lparr>congestion_control := ''gcc''\<rparr>, [''network.congestion_control'']) else (n, []));
             (sc, e4) = validate_range (slice_count n) 2 15 4 ''network.slice_count''
         in Some (n\<lparr>slice_count := sc\<rparr>, e1 @ e2 @ e3 @ e4))"

definition validate_size :: "nat \<Rightarrow> nat \<Rightarrow> nat \<times> field_errors" where
  "validate_size sz default_size =
     (let (sz, e1) = validate_range sz 320 4096 default_size ''video.resolution_per_eye''
      in if sz mod 2 = 1 then (sz - 1, e1 @ [''video.resolution_per_eye'']) else (sz, e1))"

definition validate_video :: "video_config \<Rightarrow> video_config \<times> field_errors" where
  "validate_video v =
     (let (br, e1) = validate_range (bitrate_mbps v) 10 200 80 ''video.bitrate_mbps'';
          (fr, e2) = validate_range (framerate v) 30 120 90 ''video.framerate'';
          (sc, e3) = validate_f32_range (resolution_scale v) (f32_lit (5 / 10)) (Fin 1) (Fin 1)
                       ''video.resolution_scale'';
          (w, e4) = validate_size (resolution_w v) 1832;
          (h, e5) = validate_size (resolution_h v) 1920
      in (v\<lparr>bitrate_mbps := br, framerate := fr, resolution_scale := sc, resolution_w := w,
            resolution_h := h\<rparr>, e1 @ e2 @ e3 @ e4 @ e5))"

definition validate_display :: "display_config \<Rightarrow> display_config \<times> field_errors" where
  "validate_display d =
     (let (i, e1) = validate_f32_range (ipd d) (f32_lit (40 / 1000)) (f32_lit (90 / 1000))
                      (f32_lit (63 / 1000)) ''display.ipd'';
          (s, e2) = validate_f32_range (vsync_to_photons d) (Fin 0) (f32_lit (1 / 10))
                      (f32_lit (11 / 1000)) ''display.seconds_from_vsync_to_photons''
      in (d\<lparr>ipd := i, vsync_to_photons := s\<rparr>, e1 @ e2))"

definition validate_pixel_factor :: "video_config \<Rightarrow> video_config \<times> field_errors" where
  "validate_pixel_factor v = (v\<lparr>bitrate_pixel_factor := None\<rparr>,
     if bitrate_pixel_factor v \<noteq> None then [''video.bitrate_pixel_factor''] else [])"

definition validate_face :: "face_tracking_config \<Rightarrow> face_tracking_config \<times> field_errors" where
  "validate_face f =
     (let (s, e) = validate_f32_range (ft_smoothing f) (Fin 0) (f32_lit (99 / 100)) (f32_lit (6 / 10))
                     ''face_tracking.smoothing''
      in (f\<lparr>ft_smoothing := s\<rparr>, e))"

definition validate_sleep :: "sleep_mode_config \<Rightarrow> sleep_mode_config \<times> field_errors" where
  "validate_sleep s =
     (let (t, e1) = validate_range (sm_timeout_seconds s) 30 3600 300 ''sleep_mode.timeout_seconds'';
          (b, e2) = validate_range (sm_bitrate_mbps s) 1 200 8 ''sleep_mode.sleep_bitrate_mbps'';
          (m, e3) = (if sm_motion_threshold s \<le> Fin 0 \<or> f32_lit (1 / 10) < sm_motion_threshold s
                        \<or> f_is_nan (sm_motion_threshold s)
                     then (f32_lit (2 / 1000), [''sleep_mode.motion_threshold''])
                     else (sm_motion_threshold s, []))
      in (s\<lparr>sm_timeout_seconds := t, sm_bitrate_mbps := b, sm_motion_threshold := m\<rparr>, e1 @ e2 @ e3))"

definition fixed_setting :: "nat option \<Rightarrow> nat \<Rightarrow> string \<Rightarrow> field_errors" where
  "fixed_setting v fixed field = (case v of Some x \<Rightarrow> if x \<noteq> fixed then [field] else [] | None \<Rightarrow> [])"

definition validate_audio :: "audio_config \<Rightarrow> audio_config \<times> field_errors" where
  "validate_audio a =
     (let e1 = fixed_setting (au_frame_size_ms a) 10 ''audio.frame_size_ms'';
          e2 = fixed_setting (au_sample_rate a) 48000 ''audio.sample_rate'';
          e3 = fixed_setting (au_channels a) 2 ''audio.channels'';
          (br, e4) = validate_range (au_bitrate_kbps a) 32 512 128 ''audio.bitrate_kbps''
      in (a\<lparr>au_frame_size_ms := None, au_sample_rate := None, au_channels := None,
            au_bitrate_kbps := br\<rparr>, e1 @ e2 @ e3 @ e4))"

definition validate_pairing :: "pairing_config \<Rightarrow> pairing_config \<times> field_errors" where
  "validate_pairing p =
     (let (m, e1) = validate_range (pc_max_attempts p) 1 10 (unat MAX_PIN_ATTEMPTS) ''pairing.max_attempts'';
          (l, e2) = validate_range (pc_lockout_seconds p) 300 3600 PIN_LOCKOUT_SECONDS ''pairing.lockout_seconds''
      in (p\<lparr>pc_max_attempts := m, pc_lockout_seconds := l\<rparr>, e1 @ e2))"

definition validate_memory :: "memory_monitor_config \<Rightarrow> memory_monitor_config \<times> field_errors" where
  "validate_memory m =
     (let (p, e1) = validate_range (mm_poll_seconds m) 10 3600 60 ''memory_monitor.poll_interval_seconds'';
          (g, e2) = validate_range (mm_growth_threshold_mb m) 1 100000 50 ''memory_monitor.growth_threshold_mb''
      in (m\<lparr>mm_poll_seconds := p, mm_growth_threshold_mb := g\<rparr>, e1 @ e2))"

definition validate_synthetic :: "audio_config \<Rightarrow> audio_config \<times> field_errors" where
  "validate_synthetic a =
     (if au_synthetic_source a \<in> {''off'', ''silence'', ''sine'', ''wav''} then (a, [])
      else (a\<lparr>au_synthetic_source := ''off''\<rparr>, [''audio.synthetic_source'']))"

definition FOVEA_FALLBACK :: fl where "FOVEA_FALLBACK = f32_lit (15 / 100)"
definition MID_FALLBACK :: fl where "MID_FALLBACK = f32_lit (35 / 100)"

definition validate_foveated :: "foveated_config \<Rightarrow> foveated_config \<times> field_errors" where
  "validate_foveated f =
     (let (f, e1) = (if fovea_radius f \<le> Fin 0 \<or> Fin (1 / 2) < fovea_radius f \<or> f_is_nan (fovea_radius f)
             then (f\<lparr>fovea_radius := FOVEA_FALLBACK\<rparr>, [''foveated.fovea_radius'']) else (f, []));
          (f, e2) = (if mid_radius f \<le> fovea_radius f \<or> Fin 1 < mid_radius f \<or> f_is_nan (mid_radius f)
             then (f\<lparr>mid_radius := MID_FALLBACK\<rparr>, [''foveated.mid_radius'']) else (f, []));
          (m, e3) = validate_range (mid_qp_offset f) 0 51 5 ''foveated.mid_qp_offset'';
          (p, e4) = validate_range (peripheral_qp_offset f) 0 51 10 ''foveated.peripheral_qp_offset''
      in (f\<lparr>mid_qp_offset := m, peripheral_qp_offset := p\<rparr>, e1 @ e2 @ e3 @ e4))"

definition thermal_ranges :: "thermal_config \<Rightarrow> thermal_config \<times> field_errors" where
  "thermal_ranges t =
     (let (w, e1) = validate_range (th_warn t) 50 100 75 ''thermal.warn_celsius'';
          (l, e2) = validate_range (th_limit t) 50 105 85 ''thermal.limit_celsius'';
          (e, e3) = validate_range (th_emergency t) 50 110 90 ''thermal.emergency_celsius'';
          (p, e4) = validate_range (th_poll_seconds t) 1 600 5 ''thermal.poll_interval_seconds'';
          (r, e5) = validate_range (th_recovery_seconds t) 1 600 30 ''thermal.recovery_seconds''
      in (t\<lparr>th_warn := w, th_limit := l, th_emergency := e, th_poll_seconds := p,
            th_recovery_seconds := r\<rparr>, e1 @ e2 @ e3 @ e4 @ e5))"

definition thermal_order :: "thermal_config \<Rightarrow> thermal_config \<times> field_errors" where
  "thermal_order t =
     (let (t, e1) = (if th_limit t \<le> th_warn t
             then (t\<lparr>th_warn := 75, th_limit := 85\<rparr>, [''thermal.limit_celsius'']) else (t, []));
          (t, e2) = (if th_emergency t \<le> th_limit t
             then (t\<lparr>th_limit := 85, th_emergency := 90\<rparr>, [''thermal.emergency_celsius'']) else (t, []))
      in (t, e1 @ e2))"

definition validate_thermal :: "thermal_config \<Rightarrow> thermal_config \<times> field_errors" where
  "validate_thermal t =
     (let (t, e1) = thermal_ranges t; (t, e2) = thermal_order t in (t, e1 @ e2))"

definition validate :: "app_config \<Rightarrow> (app_config \<times> field_errors) option" where
  "validate c =
     (case validate_network (network c) of
        None \<Rightarrow> None
      | Some (n, e1) \<Rightarrow>
         let (v, e2) = validate_video (video c);
             (d, e3) = validate_display (display c);
             (v, e4) = validate_pixel_factor v;
             (ft, e5) = validate_face (face_tracking c);
             (sl, e6) = validate_sleep (sleep_mode c);
             (a, e7) = validate_audio (audio c);
             (p, e8) = validate_pairing (pairing_cfg c);
             (m, e9) = validate_memory (memory_monitor c);
             (a, e10) = validate_synthetic a;
             (fv, e11) = validate_foveated (foveated c);
             (t, e12) = validate_thermal (thermal c)
         in Some (c\<lparr>network := n, video := v, display := d, face_tracking := ft, sleep_mode := sl,
               audio := a, pairing_cfg := p, memory_monitor := m, foveated := fv, thermal := t\<rparr>,
               e1 @ e2 @ e3 @ e4 @ e5 @ e6 @ e7 @ e8 @ e9 @ e10 @ e11 @ e12))"


section \<open>The contract of a validator\<close>

text \<open>
  A section's validator restores the section's rule, leaves a section that keeps the rule alone,
  and reports whenever the rule was broken. \<open>validate_fec\<close>, \<open>validate_foveated\<close> and
  \<open>thermal_order\<close> do not keep this contract; what they do instead is stated below.
\<close>

locale validator =
  fixes repair :: "'a \<Rightarrow> 'a \<times> field_errors" and ok :: "'a \<Rightarrow> bool"
  assumes repaired: "ok (fst (repair x))"
    and silent: "ok x \<Longrightarrow> repair x = (x, [])"
    and reported: "\<not> ok x \<Longrightarrow> snd (repair x) \<noteq> []"
begin

lemma clean_iff: "snd (repair x) = [] \<longleftrightarrow> ok x"
  using silent reported by (cases "ok x") auto

lemma idempotent: "repair (fst (repair x)) = (fst (repair x), [])"
  by (rule silent [OF repaired])

lemma repaired_pair: "repair x = (y, es) \<Longrightarrow> ok y"
  using repaired [of x] by simp

lemma unchanged_iff: "repair x = (x, []) \<longleftrightarrow> ok x"
  using silent repaired by (metis fst_conv)

end

lemma validate_range_ok:
  fixes mn :: "'a::linorder"
  assumes "mn \<le> dflt" and "dflt \<le> mx"
  shows "validator (\<lambda>v. validate_range v mn mx dflt field) (\<lambda>v. mn \<le> v \<and> v \<le> mx)"
  using assms by unfold_locales (auto simp: validate_range_def not_less)

lemma range_fst: "mn \<le> d \<Longrightarrow> d \<le> mx \<Longrightarrow>
    mn \<le> fst (validate_range v mn mx d f) \<and> fst (validate_range v mn mx d f) \<le> mx"
  by (rule validator.repaired [OF validate_range_ok])

lemma range_silent: "mn \<le> v \<Longrightarrow> v \<le> mx \<Longrightarrow> validate_range v mn mx d f = (v, [])"
  by (auto simp: validate_range_def not_less)

lemma range_clean: "snd (validate_range v mn mx d f) = [] \<longleftrightarrow> mn \<le> v \<and> v \<le> mx"
  by (auto simp: validate_range_def not_less)

definition f32_within :: "fl \<Rightarrow> fl \<Rightarrow> fl \<Rightarrow> bool" where
  "f32_within mn mx v \<longleftrightarrow> \<not> f_is_nan v \<and> \<not> f_is_infinite v \<and> \<not> v < mn \<and> \<not> mx < v"

lemma validate_f32_range_ok:
  assumes "f32_within mn mx dflt"
  shows "validator (\<lambda>v. validate_f32_range v mn mx dflt field) (f32_within mn mx)"
  using assms by unfold_locales (auto simp: validate_f32_range_def f32_within_def)

lemma f32_range_fst: "f32_within mn mx d \<Longrightarrow> f32_within mn mx (fst (validate_f32_range v mn mx d f))"
  by (rule validator.repaired [OF validate_f32_range_ok])

lemma f32_range_silent: "f32_within mn mx v \<Longrightarrow> validate_f32_range v mn mx d f = (v, [])"
  by (simp add: validate_f32_range_def f32_within_def)

lemma f32_range_clean: "snd (validate_f32_range v mn mx d f) = [] \<longleftrightarrow> f32_within mn mx v"
  by (simp add: validate_f32_range_def f32_within_def)

lemma f32_within_iff: "f32_within (Fin a) (Fin b) v \<longleftrightarrow> Fin a \<le> v \<and> v \<le> Fin b"
  by (cases v) (auto simp: f32_within_def f_is_infinite_def)

lemma f32_lit_cases: "\<bar>x\<bar> \<le> 1 \<Longrightarrow> \<exists>r. f32_lit x = Fin r \<and> \<bar>r\<bar> \<le> 1"
proof -
  assume x: "\<bar>x\<bar> \<le> 1"
  have 1: "rnd b32 1 = Fin 1" "rnd b32 (- 1) = Fin (- 1)" by (code_simp)+
  have "rnd b32 (- 1) \<le> rnd b32 x" "rnd b32 x \<le> rnd b32 1" using x by (auto intro!: fmt32.rnd_mono)
  then show ?thesis unfolding f32_lit_def 1 by (cases "rnd b32 x") auto
qed

lemma f32_lit_within:
  assumes "\<bar>a\<bar> \<le> 1" "\<bar>b\<bar> \<le> 1" "a \<le> x" "x \<le> b"
  shows "f32_within (f32_lit a) (f32_lit b) (f32_lit x)"
proof -
  have "f32_lit a \<le> f32_lit x" "f32_lit x \<le> f32_lit b" unfolding f32_lit_def using assms by (auto intro!: fmt32.rnd_mono)
  moreover have "\<bar>x\<bar> \<le> 1" using assms by linarith
  ultimately show ?thesis using f32_lit_cases [OF assms(1)] f32_lit_cases [OF assms(2)] f32_lit_cases [of x]
    by (auto simp: f32_within_iff)
qed

lemma f32_lit_0 [simp]: "f32_lit 0 = Fin 0"
  by (simp add: f32_lit_def)

lemma f32_lit_1 [simp]: "f32_lit 1 = Fin 1"
  by code_simp


section \<open>The sections that keep the contract\<close>

definition ports_ok :: "network_config \<Rightarrow> bool" where
  "ports_ok n \<longleftrightarrow> 1024 \<le> tcp_port n \<and> 1024 \<le> udp_port n \<and> udp_port n \<le> MAX_UDP \<and> tcp_port n \<noteq> udp_port n"

definition video_ok :: "video_config \<Rightarrow> bool" where
  "video_ok v \<longleftrightarrow> bitrate_mbps v \<in> {10..200} \<and> framerate v \<in> {30..120}
     \<and> f32_within (f32_lit (1 / 2)) (f32_lit 1) (resolution_scale v)
     \<and> resolution_w v \<in> {320..4096} \<and> even (resolution_w v)
     \<and> resolution_h v \<in> {320..4096} \<and> even (resolution_h v)"

definition display_ok :: "display_config \<Rightarrow> bool" where
  "display_ok d \<longleftrightarrow> f32_within (f32_lit (1 / 25)) (f32_lit (9 / 100)) (ipd d)
     \<and> f32_within (f32_lit 0) (f32_lit (1 / 10)) (vsync_to_photons d)"

definition face_ok :: "face_tracking_config \<Rightarrow> bool" where
  "face_ok f \<longleftrightarrow> f32_within (f32_lit 0) (f32_lit (99 / 100)) (ft_smoothing f)"

definition sleep_ok :: "sleep_mode_config \<Rightarrow> bool" where
  "sleep_ok s \<longleftrightarrow> sm_timeout_seconds s \<in> {30..3600} \<and> sm_bitrate_mbps s \<in> {1..200}
     \<and> \<not> f_is_nan (sm_motion_threshold s) \<and> \<not> sm_motion_threshold s \<le> Fin 0
     \<and> \<not> f32_lit (1 / 10) < sm_motion_threshold s"

definition audio_ok :: "audio_config \<Rightarrow> bool" where
  "audio_ok a \<longleftrightarrow> au_bitrate_kbps a \<in> {32..512}
     \<and> au_frame_size_ms a = None \<and> au_sample_rate a = None \<and> au_channels a = None"

definition synthetic_ok :: "audio_config \<Rightarrow> bool" where
  "synthetic_ok a \<longleftrightarrow> au_synthetic_source a \<in> {''off'', ''silence'', ''sine'', ''wav''}"

definition pairing_ok :: "pairing_config \<Rightarrow> bool" where
  "pairing_ok p \<longleftrightarrow> pc_max_attempts p \<in> {1..10} \<and> pc_lockout_seconds p \<in> {300..3600}"

definition memory_ok :: "memory_monitor_config \<Rightarrow> bool" where
  "memory_ok m \<longleftrightarrow> mm_poll_seconds m \<in> {10..3600} \<and> mm_growth_threshold_mb m \<in> {1..100000}"

definition thermal_ranges_ok :: "thermal_config \<Rightarrow> bool" where
  "thermal_ranges_ok t \<longleftrightarrow> th_warn t \<in> {50..100} \<and> th_limit t \<in> {50..105} \<and> th_emergency t \<in> {50..110}
     \<and> th_poll_seconds t \<in> {1..600} \<and> th_recovery_seconds t \<in> {1..600}"

lemmas section_defs = ports_ok_def video_ok_def display_ok_def face_ok_def sleep_ok_def audio_ok_def
  synthetic_ok_def pairing_ok_def memory_ok_def thermal_ranges_ok_def

lemma max_udp: "MAX_UDP = 65532"
  by (simp add: MAX_UDP_def AUDIO_PORT_OFFSET_def)

lemmas port_consts = max_udp DEFAULT_TCP_PORT_def DEFAULT_UDP_PORT_def

interpretation ports: validator validate_ports ports_ok
  by unfold_locales (auto simp: validate_ports_def ports_ok_def port_consts Let_def split: if_splits)

interpretation face: validator validate_face face_ok
  using f32_lit_within [of 0 "99/100" "3/5"]
  by unfold_locales (simp_all add: validate_face_def face_ok_def Let_def split_beta f32_range_fst
      f32_range_silent f32_range_clean)

interpretation pairing: validator validate_pairing pairing_ok
  by unfold_locales (simp_all add: validate_pairing_def pairing_ok_def Let_def split_beta range_fst range_silent range_clean
      MAX_PIN_ATTEMPTS_def PIN_LOCKOUT_SECONDS_def)

interpretation memory: validator validate_memory memory_ok
  by unfold_locales (simp_all add: validate_memory_def memory_ok_def Let_def split_beta range_fst range_silent range_clean)

interpretation synthetic: validator validate_synthetic synthetic_ok
  by unfold_locales (auto simp: validate_synthetic_def synthetic_ok_def)

interpretation thermal_range: validator thermal_ranges thermal_ranges_ok
  by unfold_locales (simp_all add: thermal_ranges_def thermal_ranges_ok_def Let_def split_beta range_fst range_silent range_clean)

interpretation display: validator validate_display display_ok
  using f32_lit_within [of "1/25" "9/100" "63/1000"] f32_lit_within [of 0 "1/10" "11/1000"]
  by unfold_locales (simp_all add: validate_display_def display_ok_def Let_def split_beta f32_range_fst
      f32_range_silent f32_range_clean)

lemma motion_default: "\<not> f_is_nan (f32_lit (1 / 500)) \<and> \<not> f32_lit (1 / 500) \<le> Fin 0
    \<and> \<not> f32_lit (1 / 10) < f32_lit (1 / 500)"
  by code_simp

interpretation sleep: validator validate_sleep sleep_ok
  using motion_default
  by unfold_locales (auto simp: validate_sleep_def sleep_ok_def Let_def split_beta range_fst range_silent range_clean)

lemma validate_size_ok:
  assumes "d \<in> {320..4096}" and "even d"
  shows "validator (\<lambda>x. validate_size x d) (\<lambda>x. x \<in> {320..4096} \<and> even x)"
proof -
  have "x - 1 \<in> {320..4096} \<and> even (x - 1)" if "x \<in> {320..4096}" "odd x" for x :: nat
    using that by (auto elim!: oddE)
  then show ?thesis
    using assms by unfold_locales (auto simp: validate_size_def validate_range_def odd_iff_mod_2_eq_one
        even_iff_mod_2_eq_zero)
qed

interpretation width: validator "\<lambda>x. validate_size x 1832" "\<lambda>x. x \<in> {320..4096} \<and> even x"
  by (rule validate_size_ok) auto

interpretation height: validator "\<lambda>x. validate_size x 1920" "\<lambda>x. x \<in> {320..4096} \<and> even x"
  by (rule validate_size_ok) auto

text \<open>The audio validator also drops the deprecated keys, so it changes a section that keeps the
  rule only if one of them is set.\<close>

lemma validate_audio_ok: "audio_ok (fst (validate_audio a))"
  by (auto simp: validate_audio_def audio_ok_def validate_range_def)

lemma validate_audio_silent: "audio_ok a \<Longrightarrow> validate_audio a = (a, [])"
  by (auto simp: validate_audio_def audio_ok_def validate_range_def fixed_setting_def)

lemma validate_audio_source: "au_synthetic_source (fst (validate_audio a)) = au_synthetic_source a"
  by (auto simp: validate_audio_def validate_range_def)


lemma size_facts:
  "320 \<le> fst (validate_size x 1832) \<and> fst (validate_size x 1832) \<le> 4096 \<and> even (fst (validate_size x 1832))"
  "320 \<le> fst (validate_size x 1920) \<and> fst (validate_size x 1920) \<le> 4096 \<and> even (fst (validate_size x 1920))"
  "snd (validate_size x 1832) = [] \<longleftrightarrow> 320 \<le> x \<and> x \<le> 4096 \<and> even x"
  "snd (validate_size x 1920) = [] \<longleftrightarrow> 320 \<le> x \<and> x \<le> 4096 \<and> even x"
  using width.repaired [of x] height.repaired [of x] width.clean_iff [of x] height.clean_iff [of x] by auto

lemma size_silent:
  "320 \<le> x \<Longrightarrow> x \<le> 4096 \<Longrightarrow> even x \<Longrightarrow> validate_size x 1832 = (x, [])"
  "320 \<le> x \<Longrightarrow> x \<le> 4096 \<Longrightarrow> even x \<Longrightarrow> validate_size x 1920 = (x, [])"
  using width.silent [of x] height.silent [of x] by auto

lemma scale_default: "f32_within (f32_lit (1 / 2)) (Fin 1) (Fin 1)"
  using f32_lit_within [of "1/2" 1 1] by simp

interpretation video: validator validate_video video_ok
  by unfold_locales (auto simp: validate_video_def video_ok_def Let_def split_beta size_facts size_silent
      range_fst range_silent range_clean f32_range_fst [OF scale_default] f32_range_silent f32_range_clean)

definition factor_ok :: "video_config \<Rightarrow> bool" where
  "factor_ok v \<longleftrightarrow> bitrate_pixel_factor v = None"

interpretation factor: validator validate_pixel_factor factor_ok
  by unfold_locales (auto simp: validate_pixel_factor_def factor_ok_def)

lemma factor_keeps_video: "video_ok (fst (validate_pixel_factor v)) = video_ok v"
  by (simp add: validate_pixel_factor_def video_ok_def)

section \<open>FEC limits\<close>

definition fec_min_valid :: "network_config \<Rightarrow> bool" where
  "fec_min_valid n \<longleftrightarrow> Fin 0 \<le> fec_redundancy_min n \<and> fec_redundancy_min n \<le> Fin 1"

definition fec_max_valid :: "network_config \<Rightarrow> bool" where
  "fec_max_valid n \<longleftrightarrow> fec_redundancy_min n \<le> fec_redundancy_max n \<and> fec_redundancy_max n \<le> Fin 1"

definition fec_in_limits :: "network_config \<Rightarrow> bool" where
  "fec_in_limits n \<longleftrightarrow> Fin 0 \<le> fec_redundancy_min n \<and> fec_redundancy_min n \<le> fec_redundancy n
     \<and> fec_redundancy n \<le> fec_redundancy_max n \<and> fec_redundancy_max n \<le> Fin 1"

lemma fec_min_fallback: "FEC_MIN_FALLBACK = Fin (13421773 / 268435456)"
  by code_simp

lemma fec_max_fallback: "FEC_MAX_FALLBACK = Fin (13421773 / 33554432)"
  by code_simp

lemma fec_min_test:
  "(m < Fin 0 \<or> Fin 1 < m \<or> f_is_nan m) \<longleftrightarrow> \<not> (Fin 0 \<le> m \<and> m \<le> Fin 1)"
  by (cases m) auto

lemma fec_max_test:
  assumes "Fin 0 \<le> m" and "m \<le> Fin 1"
  shows "(x < m \<or> Fin 1 < x \<or> f_is_nan x) \<longleftrightarrow> \<not> (m \<le> x \<and> x \<le> Fin 1)"
  using assms by (cases m; cases x) auto


definition repaired_min :: "network_config \<Rightarrow> fl" where
  "repaired_min n = (if fec_min_valid n then fec_redundancy_min n else FEC_MIN_FALLBACK)"

definition repaired_max :: "network_config \<Rightarrow> fl" where
  "repaired_max n = (if repaired_min n \<le> fec_redundancy_max n \<and> fec_redundancy_max n \<le> Fin 1
     then fec_redundancy_max n else FEC_MAX_FALLBACK)"

lemma repaired_min_range: "Fin 0 \<le> repaired_min n \<and> repaired_min n \<le> Fin 1"
  by (auto simp: repaired_min_def fec_min_valid_def fec_min_fallback)

lemma repaired_max_upper: "repaired_max n \<le> Fin 1"
  by (auto simp: repaired_max_def fec_max_fallback)

lemma validate_fec_alt:
  "validate_fec n =
     (let m = repaired_min n; M = repaired_max n;
          n' = n\<lparr>fec_redundancy_min := m, fec_redundancy_max := M\<rparr>;
          e1 = (if fec_min_valid n then [] else [''network.fec_redundancy_min'']);
          e2 = (if m \<le> fec_redundancy_max n \<and> fec_redundancy_max n \<le> Fin 1 then []
                else [''network.fec_redundancy_max'']);
          x = fec_redundancy n
      in if f_is_nan x \<or> x < m \<or> M < x
         then if m \<le> M then Some (n'\<lparr>fec_redundancy := f_clamp m M x\<rparr>, e1 @ e2 @ [''network.fec_redundancy''])
              else None
         else Some (n', e1 @ e2))"
proof -
  have t1: "(fec_redundancy_min n < Fin 0 \<or> Fin 1 < fec_redundancy_min n \<or> f_is_nan (fec_redundancy_min n))
      \<longleftrightarrow> \<not> fec_min_valid n"
    by (simp only: fec_min_test fec_min_valid_def)
  define k where "k = n\<lparr>fec_redundancy_min := repaired_min n\<rparr>"
  have k: "(if \<not> fec_min_valid n then (n\<lparr>fec_redundancy_min := FEC_MIN_FALLBACK\<rparr>, x) else (n, y)) =
      (k, if fec_min_valid n then y else x)" for x y :: field_errors
    by (simp add: k_def repaired_min_def)
  have ks: "fec_redundancy_min k = repaired_min n" "fec_redundancy_max k = fec_redundancy_max n"
      "fec_redundancy k = fec_redundancy n" by (simp_all add: k_def)
  have t2: "(fec_redundancy_max k < fec_redundancy_min k \<or> Fin 1 < fec_redundancy_max k \<or> f_is_nan (fec_redundancy_max k))
      \<longleftrightarrow> \<not> (repaired_min n \<le> fec_redundancy_max n \<and> fec_redundancy_max n \<le> Fin 1)"
    unfolding ks by (rule fec_max_test) (simp_all add: repaired_min_range)
  define l where "l = k\<lparr>fec_redundancy_max := repaired_max n\<rparr>"
  have l: "(if \<not> (repaired_min n \<le> fec_redundancy_max n \<and> fec_redundancy_max n \<le> Fin 1)
        then (k\<lparr>fec_redundancy_max := FEC_MAX_FALLBACK\<rparr>, x) else (k, y)) =
      (l, if repaired_min n \<le> fec_redundancy_max n \<and> fec_redundancy_max n \<le> Fin 1 then y else x)"
    for x y :: field_errors
    by (simp add: l_def k_def repaired_max_def)
  have ls: "fec_redundancy_min l = repaired_min n" "fec_redundancy_max l = repaired_max n"
      "fec_redundancy l = fec_redundancy n" by (simp_all add: l_def k_def)
  have nl: "n\<lparr>fec_redundancy_min := repaired_min n, fec_redundancy_max := repaired_max n\<rparr> = l"
    by (simp add: l_def k_def)
  show ?thesis
    unfolding validate_fec_def t1 k Let_def prod.case t2 l ls nl f_clamp_checked_def by simp
qed


lemma fl_le_numbers: "x \<le> y \<Longrightarrow> \<not> f_is_nan x \<and> \<not> f_is_nan y"
  by (cases x; cases y) auto

lemma fl_not_less_iff: "\<not> f_is_nan x \<Longrightarrow> \<not> f_is_nan y \<Longrightarrow> \<not> x < y \<longleftrightarrow> y \<le> x"
  by (rule fl_not_less) auto

lemma fl_not_le_iff: "\<not> f_is_nan x \<Longrightarrow> \<not> f_is_nan y \<Longrightarrow> \<not> x \<le> y \<longleftrightarrow> y < x"
  using fl_not_less_iff [of y x] by auto

lemma fl_less_le_trans: "x < y \<Longrightarrow> y \<le> z \<Longrightarrow> x < z" for x y z :: fl
  by (cases x; cases y; cases z) auto

lemma fl_le_less_trans: "x \<le> y \<Longrightarrow> y < z \<Longrightarrow> x < z" for x y z :: fl
  by (cases x; cases y; cases z) auto

lemma fl_less_imp_le: "x < y \<Longrightarrow> x \<le> y" for x y :: fl
  by (cases x; cases y) auto

lemma fl_le_not_less: "x \<le> y \<Longrightarrow> \<not> y < x" for x y :: fl
  by (cases x; cases y) auto

lemma fl_le_self: "\<not> f_is_nan x \<Longrightarrow> x \<le> x"
  by (rule fl_le_refl) auto

lemma repaired_numbers: "\<not> f_is_nan (repaired_min n)" "\<not> f_is_nan (repaired_max n)"
  using repaired_min_range [of n] repaired_max_upper [of n] fl_le_numbers by blast+

lemma validate_fec_panics: "validate_fec n = None \<longleftrightarrow> \<not> repaired_min n \<le> repaired_max n"
proof -
  have "repaired_min n \<le> repaired_max n"
    if "\<not> f_is_nan x" "\<not> x < repaired_min n" "\<not> repaired_max n < x" for x
    using that repaired_numbers [of n] fl_le_trans [of "repaired_min n" x "repaired_max n"]
    by (simp add: fl_not_less_iff)
  then show ?thesis by (auto simp: validate_fec_alt Let_def)
qed

lemma validate_fec_none:
  "validate_fec n = None \<longleftrightarrow> FEC_MAX_FALLBACK < fec_redundancy_min n \<and> fec_redundancy_min n \<le> Fin 1
     \<and> \<not> (fec_redundancy_min n \<le> fec_redundancy_max n \<and> fec_redundancy_max n \<le> Fin 1)"
proof -
  let ?m = "repaired_min n"
  have 2: "\<not> ?m \<le> repaired_max n \<longleftrightarrow>
      FEC_MAX_FALLBACK < ?m \<and> \<not> (?m \<le> fec_redundancy_max n \<and> fec_redundancy_max n \<le> Fin 1)"
    using repaired_numbers [of n] by (auto simp: repaired_max_def fec_max_fallback fl_not_le_iff dest: fl_le_not_less)
  have 3: "FEC_MAX_FALLBACK < ?m \<longleftrightarrow> FEC_MAX_FALLBACK < fec_redundancy_min n \<and> fec_redundancy_min n \<le> Fin 1"
    by (cases "fec_redundancy_min n") (auto simp: repaired_min_def fec_min_valid_def fec_max_fallback fec_min_fallback)
  have 4: "FEC_MAX_FALLBACK < ?m \<Longrightarrow> ?m = fec_redundancy_min n"
    by (auto simp: repaired_min_def fec_max_fallback fec_min_fallback split: if_splits)
  show ?thesis unfolding validate_fec_panics 2 using 3 4 by auto
qed

definition fec_repaired :: "network_config \<Rightarrow> network_config \<Rightarrow> bool" where
  "fec_repaired n n' \<longleftrightarrow> Fin 0 \<le> fec_redundancy_min n' \<and> fec_redundancy_min n' \<le> fec_redundancy_max n'
     \<and> fec_redundancy_max n' \<le> Fin 1
     \<and> (if f_is_nan (fec_redundancy n) then f_is_nan (fec_redundancy n')
        else fec_redundancy_min n' \<le> fec_redundancy n' \<and> fec_redundancy n' \<le> fec_redundancy_max n')"

lemma clamp_between:
  assumes "m \<le> M"
  shows "if f_is_nan x then f_is_nan (f_clamp m M x) else m \<le> f_clamp m M x \<and> f_clamp m M x \<le> M"
proof (cases "f_is_nan x")
  case True
  then show ?thesis by (cases x) auto
next
  case False
  then show ?thesis using assms fl_le_numbers [OF assms] by (auto simp: f_clamp_def fl_not_less_iff fl_le_self)
qed

lemma validate_fec_some:
  assumes "validate_fec n = Some (n', es)"
  shows "fec_repaired n n' \<and> ports_ok n' = ports_ok n"
proof -
  let ?m = "repaired_min n" and ?M = "repaired_max n" and ?x = "fec_redundancy n"
  have mM: "?m \<le> ?M" using assms validate_fec_panics [of n] by auto
  define y where "y = fec_redundancy n'"
  have n': "n' = n\<lparr>fec_redundancy_min := ?m, fec_redundancy_max := ?M, fec_redundancy := y\<rparr>"
    and y: "y = ?x \<and> \<not> (f_is_nan ?x \<or> ?x < ?m \<or> ?M < ?x) \<or> y = f_clamp ?m ?M ?x"
    using assms mM by (auto simp: y_def validate_fec_alt Let_def split: if_splits)
  have "if f_is_nan ?x then f_is_nan y else ?m \<le> y \<and> y \<le> ?M"
    using y clamp_between [OF mM, of ?x] repaired_numbers [of n] by (auto simp: fl_not_less_iff)
  then show ?thesis using n' mM repaired_min_range [of n] repaired_max_upper [of n]
    by (simp add: fec_repaired_def ports_ok_def)
qed

lemma validate_fec_clean: "validate_fec n = Some (n, []) \<longleftrightarrow> fec_in_limits n"
proof
  assume a: "validate_fec n = Some (n, [])"
  then have "\<not> f_is_nan (fec_redundancy n)" by (auto simp: validate_fec_alt Let_def split: if_splits)
  then show "fec_in_limits n" using validate_fec_some [OF a] by (simp add: fec_repaired_def fec_in_limits_def)
next
  assume ok: "fec_in_limits n"
  then have le: "fec_redundancy_min n \<le> fec_redundancy_max n" "fec_redundancy_min n \<le> Fin 1"
    using fl_le_trans unfolding fec_in_limits_def by blast+
  have m: "fec_min_valid n" "repaired_min n = fec_redundancy_min n"
    using ok le by (auto simp: fec_in_limits_def fec_min_valid_def repaired_min_def)
  have M: "repaired_max n = fec_redundancy_max n"
    using ok le m by (auto simp: fec_in_limits_def repaired_max_def)
  have x: "\<not> (f_is_nan (fec_redundancy n) \<or> fec_redundancy n < fec_redundancy_min n
      \<or> fec_redundancy_max n < fec_redundancy n)"
    using ok fl_le_numbers fl_not_less_iff unfolding fec_in_limits_def by metis
  show "validate_fec n = Some (n, [])"
    using ok x le unfolding validate_fec_alt Let_def m M by (simp add: m fec_in_limits_def)
qed

section \<open>Network, foveation and thermal limits\<close>

definition network_repaired :: "network_config \<Rightarrow> network_config \<Rightarrow> bool" where
  "network_repaired n n' \<longleftrightarrow> ports_ok n' \<and> fec_repaired n n'
     \<and> congestion_control n' \<in> {''gcc'', ''loss''} \<and> slice_count n' \<in> {2..15}"

definition network_ok :: "network_config \<Rightarrow> bool" where
  "network_ok n \<longleftrightarrow> ports_ok n \<and> fec_in_limits n
     \<and> congestion_control n \<in> {''gcc'', ''loss''} \<and> slice_count n \<in> {2..15}"

lemma ports_keep_fec:
  "fec_redundancy_min (fst (validate_ports n)) = fec_redundancy_min n"
  "fec_redundancy_max (fst (validate_ports n)) = fec_redundancy_max n"
  "fec_redundancy (fst (validate_ports n)) = fec_redundancy n"
  by (simp_all add: validate_ports_def Let_def split_beta)

lemma validate_network_none:
  "validate_network n = None \<longleftrightarrow> FEC_MAX_FALLBACK < fec_redundancy_min n \<and> fec_redundancy_min n \<le> Fin 1
     \<and> \<not> (fec_redundancy_min n \<le> fec_redundancy_max n \<and> fec_redundancy_max n \<le> Fin 1)"
proof -
  have "validate_network n = None \<longleftrightarrow> validate_fec (fst (validate_ports n)) = None"
    by (auto simp: validate_network_def Let_def split_beta split: option.splits)
  then show ?thesis by (simp add: validate_fec_none ports_keep_fec)
qed

lemma validate_network_some:
  assumes "validate_network n = Some (n', es)"
  shows "network_repaired n n'"
proof -
  obtain k e where k: "validate_fec (fst (validate_ports n)) = Some (k, e)"
    using assms by (auto simp: validate_network_def Let_def split_beta split: option.splits)
  have fec: "fec_repaired n k" "ports_ok k"
    using validate_fec_some [OF k] ports.repaired [of n] by (auto simp: fec_repaired_def ports_keep_fec)
  have n': "n' = (if congestion_control k \<noteq> ''gcc'' \<and> congestion_control k \<noteq> ''loss''
      then k\<lparr>congestion_control := ''gcc''\<rparr> else k)\<lparr>slice_count :=
        fst (validate_range (slice_count k) 2 15 4 ''network.slice_count'')\<rparr>"
    using assms k by (auto simp: validate_network_def Let_def split_beta split: if_splits)
  show ?thesis using fec range_fst [of 2 4 "15 :: nat"] unfolding n'
    by (auto simp: network_repaired_def fec_repaired_def ports_ok_def)
qed

lemma validate_network_silent: "network_ok n \<Longrightarrow> validate_network n = Some (n, [])"
  using ports.silent [of n] validate_fec_clean [of n]
  by (auto simp: network_ok_def validate_network_def range_silent)

lemma validate_network_clean:
  assumes "validate_network n = Some (n', [])"
  shows "network_ok n"
proof -
  obtain k e where k: "validate_fec (fst (validate_ports n)) = Some (k, e)"
    using assms by (auto simp: validate_network_def Let_def split_beta split: option.splits)
  have p: "ports_ok n" using assms k ports.clean_iff [of n]
    by (auto simp: validate_network_def Let_def split_beta split: if_splits)
  then have e: "e = []" "validate_ports n = (n, [])" using assms k ports.silent [of n]
    by (auto simp: validate_network_def Let_def split_beta split: if_splits)
  then have kn: "k = n" using k by (auto simp: validate_fec_alt Let_def repaired_min_def repaired_max_def split: if_splits)
  show ?thesis using assms k e kn p validate_fec_clean [of n] range_clean [of "slice_count n" 2 15 4 "''network.slice_count''"]
    by (auto simp: network_ok_def validate_network_def Let_def split_beta split: if_splits)
qed

definition foveated_repaired :: "foveated_config \<Rightarrow> bool" where
  "foveated_repaired f \<longleftrightarrow> Fin 0 < fovea_radius f \<and> fovea_radius f \<le> Fin (1 / 2) \<and> Fin 0 < mid_radius f
     \<and> mid_radius f \<le> Fin 1 \<and> mid_qp_offset f \<in> {0..51} \<and> peripheral_qp_offset f \<in> {0..51}"

definition foveated_ok :: "foveated_config \<Rightarrow> bool" where
  "foveated_ok f \<longleftrightarrow> foveated_repaired f \<and> fovea_radius f < mid_radius f"

definition fovea_test :: "fl \<Rightarrow> bool" where
  "fovea_test r \<longleftrightarrow> Fin 0 < r \<and> r \<le> Fin (1 / 2)"

lemma fovea_test_iff: "(r \<le> Fin 0 \<or> Fin (1 / 2) < r \<or> f_is_nan r) \<longleftrightarrow> \<not> fovea_test r"
  by (cases r) (auto simp: fovea_test_def)

lemma mid_test_iff:
  assumes "fovea_test r"
  shows "(m \<le> r \<or> Fin 1 < m \<or> f_is_nan m) \<longleftrightarrow> \<not> (r < m \<and> m \<le> Fin 1)"
  using assms by (cases r; cases m) (auto simp: fovea_test_def)

lemma fovea_fallback: "FOVEA_FALLBACK = Fin (5033165 / 33554432)"
  by code_simp

lemma mid_fallback: "MID_FALLBACK = Fin (11744051 / 33554432)"
  by code_simp


definition repaired_fovea :: "foveated_config \<Rightarrow> fl" where
  "repaired_fovea f = (if fovea_test (fovea_radius f) then fovea_radius f else FOVEA_FALLBACK)"

definition repaired_mid :: "foveated_config \<Rightarrow> fl" where
  "repaired_mid f = (if repaired_fovea f < mid_radius f \<and> mid_radius f \<le> Fin 1 then mid_radius f else MID_FALLBACK)"

lemma repaired_fovea_test: "fovea_test (repaired_fovea f)"
  by (simp add: repaired_fovea_def fovea_test_def fovea_fallback)

lemma validate_foveated_alt:
  "validate_foveated f =
     (let (m, e3) = validate_range (mid_qp_offset f) 0 51 5 ''foveated.mid_qp_offset'';
          (p, e4) = validate_range (peripheral_qp_offset f) 0 51 10 ''foveated.peripheral_qp_offset''
      in (f\<lparr>fovea_radius := repaired_fovea f, mid_radius := repaired_mid f, mid_qp_offset := m,
            peripheral_qp_offset := p\<rparr>,
          (if fovea_test (fovea_radius f) then [] else [''foveated.fovea_radius''])
          @ (if repaired_fovea f < mid_radius f \<and> mid_radius f \<le> Fin 1 then [] else [''foveated.mid_radius''])
          @ e3 @ e4))"
proof -
  define k where "k = f\<lparr>fovea_radius := repaired_fovea f\<rparr>"
  have k: "(if \<not> fovea_test (fovea_radius f) then (f\<lparr>fovea_radius := FOVEA_FALLBACK\<rparr>, x) else (f, y)) =
      (k, if fovea_test (fovea_radius f) then y else x)" for x y :: field_errors
    by (simp add: k_def repaired_fovea_def)
  have ks: "fovea_radius k = repaired_fovea f" "mid_radius k = mid_radius f" by (simp_all add: k_def)
  show ?thesis
    unfolding validate_foveated_def fovea_test_iff k Let_def prod.case ks mid_test_iff [OF repaired_fovea_test]
    by (simp add: k_def repaired_mid_def split_beta)
qed

lemma validate_foveated_repaired: "foveated_repaired (fst (validate_foveated f))"
proof -
  have "Fin 0 < repaired_mid f \<and> repaired_mid f \<le> Fin 1"
    using repaired_fovea_test [of f]
    by (cases "repaired_fovea f"; cases "mid_radius f") (auto simp: repaired_mid_def mid_fallback fovea_test_def)
  then show ?thesis using repaired_fovea_test [of f] range_fst [of 0 5 "51 :: int"] range_fst [of 0 10 "51 :: int"]
    by (simp add: validate_foveated_alt Let_def split_beta foveated_repaired_def fovea_test_def)
qed

lemma validate_foveated_clean: "snd (validate_foveated f) = [] \<longleftrightarrow> foveated_ok f"
proof -
  have z: "fovea_test a \<Longrightarrow> a < b \<Longrightarrow> Fin 0 < b" for a b
    by (cases a; cases b) (auto simp: fovea_test_def)
  show ?thesis
    by (auto simp: validate_foveated_alt Let_def split_beta range_clean foveated_ok_def foveated_repaired_def
        repaired_fovea_def fovea_test_def intro: z)
qed

lemma validate_foveated_silent:
  assumes "foveated_ok f"
  shows "validate_foveated f = (f, [])"
  using assms by (simp add: validate_foveated_alt foveated_ok_def foveated_repaired_def repaired_fovea_def
      repaired_mid_def fovea_test_def range_silent)

lemma foveated_order:
  "fovea_radius (fst (validate_foveated f)) < mid_radius (fst (validate_foveated f))
     \<longleftrightarrow> repaired_fovea f < MID_FALLBACK \<or> repaired_fovea f < mid_radius f \<and> mid_radius f \<le> Fin 1"
  by (auto simp: validate_foveated_alt Let_def split_beta repaired_mid_def)

definition thermal_ok :: "thermal_config \<Rightarrow> bool" where
  "thermal_ok t \<longleftrightarrow> thermal_ranges_ok t \<and> th_warn t < th_limit t \<and> th_limit t < th_emergency t"

lemma thermal_order_result:
  "fst (thermal_order t) =
     (let w = (if th_limit t \<le> th_warn t then 75 else th_warn t);
          l = (if th_limit t \<le> th_warn t then 85 else th_limit t)
      in t\<lparr>th_warn := w, th_limit := (if th_emergency t \<le> l then 85 else l),
           th_emergency := (if th_emergency t \<le> l then 90 else th_emergency t)\<rparr>)"
  by (simp add: thermal_order_def Let_def)

lemma thermal_order_keeps_ranges: "thermal_ranges_ok t \<Longrightarrow> thermal_ranges_ok (fst (thermal_order t))"
  by (simp add: thermal_order_def thermal_ranges_ok_def Let_def)

lemma validate_thermal_ranges: "thermal_ranges_ok (fst (validate_thermal t))"
  using thermal_order_keeps_ranges thermal_range.repaired by (simp add: validate_thermal_def split_beta)

lemma validate_thermal_clean: "snd (validate_thermal t) = [] \<longleftrightarrow> thermal_ok t"
proof (cases "thermal_ranges_ok t")
  case True
  then show ?thesis using thermal_range.silent [of t]
    by (auto simp: validate_thermal_def thermal_ok_def thermal_order_def Let_def)
next
  case False
  then show ?thesis using thermal_range.clean_iff [of t]
    by (auto simp: validate_thermal_def thermal_ok_def split_beta Let_def)
qed

lemma validate_thermal_silent: "thermal_ok t \<Longrightarrow> validate_thermal t = (t, [])"
  using thermal_range.silent [of t] by (simp add: validate_thermal_def thermal_ok_def thermal_order_def)

lemma thermal_order_exact:
  "(let t' = fst (thermal_order t) in th_warn t' < th_limit t' \<and> th_limit t' < th_emergency t')
     \<longleftrightarrow> \<not> (85 \<le> th_warn t \<and> th_warn t < th_limit t \<and> th_emergency t \<le> th_limit t)"
  by (auto simp: thermal_order_def Let_def)


section \<open>The whole configuration\<close>

definition rest_ok :: "app_config \<Rightarrow> bool" where
  "rest_ok c \<longleftrightarrow> video_ok (video c) \<and> factor_ok (video c) \<and> display_ok (display c)
     \<and> face_ok (face_tracking c) \<and> sleep_ok (sleep_mode c) \<and> audio_ok (audio c) \<and> synthetic_ok (audio c)
     \<and> pairing_ok (pairing_cfg c) \<and> memory_ok (memory_monitor c)"

definition config_repaired :: "app_config \<Rightarrow> app_config \<Rightarrow> bool" where
  "config_repaired c c' \<longleftrightarrow> network_repaired (network c) (network c') \<and> rest_ok c'
     \<and> foveated_repaired (foveated c') \<and> thermal_ranges_ok (thermal c')"

definition config_ok :: "app_config \<Rightarrow> bool" where
  "config_ok c \<longleftrightarrow> network_ok (network c) \<and> rest_ok c \<and> foveated_ok (foveated c) \<and> thermal_ok (thermal c)"

lemma synthetic_keeps_audio: "audio_ok (fst (validate_synthetic a)) = audio_ok a"
  by (simp add: validate_synthetic_def audio_ok_def)

lemma factor_video: "video_ok (fst (validate_pixel_factor (fst (validate_video v))))"
  using video.repaired by (simp add: factor_keeps_video)

lemma audio_source_ok: "audio_ok (fst (validate_synthetic (fst (validate_audio a))))"
  by (simp add: synthetic_keeps_audio validate_audio_ok)

definition repaired_rest :: "app_config \<Rightarrow> app_config" where
  "repaired_rest c = c\<lparr>video := fst (validate_pixel_factor (fst (validate_video (video c)))),
     display := fst (validate_display (display c)), face_tracking := fst (validate_face (face_tracking c)),
     sleep_mode := fst (validate_sleep (sleep_mode c)),
     audio := fst (validate_synthetic (fst (validate_audio (audio c)))),
     pairing_cfg := fst (validate_pairing (pairing_cfg c)), memory_monitor := fst (validate_memory (memory_monitor c)),
     foveated := fst (validate_foveated (foveated c)), thermal := fst (validate_thermal (thermal c))\<rparr>"

definition rest_errors :: "app_config \<Rightarrow> field_errors" where
  "rest_errors c = snd (validate_video (video c)) @ snd (validate_display (display c))
     @ snd (validate_pixel_factor (fst (validate_video (video c)))) @ snd (validate_face (face_tracking c))
     @ snd (validate_sleep (sleep_mode c)) @ snd (validate_audio (audio c)) @ snd (validate_pairing (pairing_cfg c))
     @ snd (validate_memory (memory_monitor c)) @ snd (validate_synthetic (fst (validate_audio (audio c))))
     @ snd (validate_foveated (foveated c)) @ snd (validate_thermal (thermal c))"

lemma validate_alt:
  "validate c = map_option (\<lambda>(n, e). ((repaired_rest c)\<lparr>network := n\<rparr>, e @ rest_errors c)) (validate_network (network c))"
  by (simp add: validate_def repaired_rest_def rest_errors_def Let_def split_beta map_option_case split: option.split)

lemma repaired_rest_ok: "rest_ok (repaired_rest c)"
  using factor_video audio_source_ok
  by (simp add: rest_ok_def repaired_rest_def display.repaired face.repaired sleep.repaired pairing.repaired
      memory.repaired synthetic.repaired factor.repaired)

lemma validate_some:
  assumes "validate c = Some (c', es)"
  shows "config_repaired c c'"
proof -
  obtain n e where n: "validate_network (network c) = Some (n, e)" "c' = (repaired_rest c)\<lparr>network := n\<rparr>"
    using assms by (auto simp: validate_alt)
  have "rest_ok c'" using repaired_rest_ok [of c] n by (simp add: rest_ok_def)
  then show ?thesis using validate_network_some [OF n(1)] n(2) validate_foveated_repaired validate_thermal_ranges
    by (simp add: config_repaired_def repaired_rest_def)
qed

lemma validate_network_unreported: "validate_network n = Some (k, []) \<Longrightarrow> network_ok n \<and> k = n"
  using validate_network_clean [of n k] validate_network_silent [of n] by auto

lemma validate_silent: "config_ok c \<Longrightarrow> validate c = Some (c, [])"
  using validate_network_silent [of "network c"] video.silent [of "video c"] display.silent [of "display c"]
    factor.silent [of "video c"] face.silent [of "face_tracking c"] sleep.silent [of "sleep_mode c"]
    validate_audio_silent [of "audio c"] pairing.silent [of "pairing_cfg c"] memory.silent [of "memory_monitor c"]
    synthetic.silent [of "audio c"] validate_foveated_silent [of "foveated c"] validate_thermal_silent [of "thermal c"]
  by (simp add: validate_def config_ok_def rest_ok_def)

lemma validate_audio_unreported: "validate_audio a = (a, []) \<Longrightarrow> audio_ok a"
  using validate_audio_ok [of a] by simp


lemma validate_clean_sections:
  assumes "validate c = Some (c, [])"
  shows "config_ok c"
proof -
  obtain n where n: "validate_network (network c) = Some (n, [])" "c = (repaired_rest c)\<lparr>network := n\<rparr>"
      and e: "rest_errors c = []"
    using assms by (auto simp: validate_alt)
  have "rest_ok c" using repaired_rest_ok [of c] arg_cong [OF n(2), of rest_ok] by (simp add: rest_ok_def)
  then show ?thesis using validate_network_unreported [OF n(1)] e
    by (simp add: config_ok_def rest_errors_def validate_foveated_clean validate_thermal_clean)
qed

lemma repaired_ok_iff:
  assumes "validate c = Some (c', es)"
  shows "config_ok c' \<longleftrightarrow> \<not> f_is_nan (fec_redundancy (network c))
     \<and> fovea_radius (foveated c') < mid_radius (foveated c')
     \<and> th_warn (thermal c') < th_limit (thermal c') \<and> th_limit (thermal c') < th_emergency (thermal c')"
proof -
  have "fec_in_limits (network c') \<longleftrightarrow> \<not> f_is_nan (fec_redundancy (network c))"
    if "fec_repaired (network c) (network c')"
    using that fl_le_numbers by (auto simp: fec_repaired_def fec_in_limits_def split: if_splits)
  then show ?thesis using validate_some [OF assms]
    by (auto simp: config_ok_def config_repaired_def network_ok_def network_repaired_def foveated_ok_def
        thermal_ok_def)
qed

lemma default_fec: "DEFAULT_FEC_REDUNDANCY = Fin (13421773 / 67108864)"
  by code_simp

lemma default_fec_limits: "f32_lit (1 / 20) = Fin (13421773 / 268435456)" "f32_lit (2 / 5) = Fin (13421773 / 33554432)"
    "f32_lit (3 / 20) = Fin (5033165 / 33554432)" "f32_lit (7 / 20) = Fin (11744051 / 33554432)"
  by code_simp+

lemma default_video_ok: "video_ok default_video"
  using scale_default by (simp add: video_ok_def default_video_def)

lemma default_config_ok: "config_ok default_config"
proof -
  have "network_ok default_network"
    by (simp add: network_ok_def default_network_def ports_ok_def port_consts fec_in_limits_def default_fec
        default_fec_limits)
  moreover have "foveated_ok default_foveated"
    by (simp add: foveated_ok_def foveated_repaired_def default_foveated_def default_fec_limits)
  moreover have "video_ok default_video \<and> factor_ok default_video"
    using scale_default by (simp add: video_ok_def factor_ok_def default_video_def)
  moreover have "display_ok default_display" "face_ok default_face_tracking"
    using f32_lit_within [of "1/25" "9/100" "63/1000"] f32_lit_within [of 0 "1/10" "11/1000"]
      f32_lit_within [of 0 "99/100" "3/5"]
    by (simp_all add: display_ok_def default_display_def face_ok_def default_face_tracking_def)
  moreover have "sleep_ok default_sleep_mode" using motion_default by (simp add: sleep_ok_def default_sleep_mode_def)
  moreover have "audio_ok default_audio" "synthetic_ok default_audio"
    by (simp_all add: audio_ok_def synthetic_ok_def default_audio_def)
  moreover have "pairing_ok default_pairing" "memory_ok default_memory_monitor" "thermal_ok default_thermal"
    by (simp_all add: pairing_ok_def default_pairing_def memory_ok_def default_memory_monitor_def thermal_ok_def
        thermal_ranges_ok_def default_thermal_def MAX_PIN_ATTEMPTS_def PIN_LOCKOUT_SECONDS_def)
  ultimately show ?thesis by (simp add: config_ok_def rest_ok_def default_config_def)
qed

definition max_usable :: "network_config \<Rightarrow> bool" where
  "max_usable n \<longleftrightarrow> fec_redundancy_min n \<le> fec_redundancy_max n \<and> fec_redundancy_max n \<le> Fin 1"


text \<open>
  C19. \<open>validate\<close> changes and reports nothing exactly for the configurations that keep every rule,
  ordering rules included; the shipped defaults are one of them.
\<close>
theorem validate_clean_iff:
  "(validate c = Some (c, []) \<longleftrightarrow> config_ok c) \<and> validate default_config = Some (default_config, [])"
  using validate_clean_sections validate_silent default_config_ok by blast

text \<open>
  Validating twice changes nothing more, exactly when three defects of the first pass do not
  show: a NaN FEC redundancy is kept, the fallback radius of the middle zone may not exceed the
  fovea's, and the thermal thresholds may come out unordered.
\<close>
theorem validate_idempotent:
  "case validate c of None \<Rightarrow> True
   | Some (c', es) \<Rightarrow> validate c' = Some (c', []) \<longleftrightarrow>
       \<not> f_is_nan (fec_redundancy (network c))
       \<and> fovea_radius (foveated c') < mid_radius (foveated c')
       \<and> th_warn (thermal c') < th_limit (thermal c') \<and> th_limit (thermal c') < th_emergency (thermal c')"
proof (cases "validate c")
  case (Some r)
  obtain c' es where r: "r = (c', es)" by (cases r)
  have "validate c' = Some (c', []) \<longleftrightarrow> config_ok c'" using validate_clean_sections validate_silent by blast
  then show ?thesis using Some r repaired_ok_iff [of c c' es] by simp
qed simp

lemma validate_thermal_fst: "fst (validate_thermal t) = fst (thermal_order (fst (thermal_ranges t)))"
  by (simp add: validate_thermal_def split_beta)

lemma thermal_gap_example:
  "fst (validate_thermal (default_thermal\<lparr>th_warn := 90, th_limit := 100, th_emergency := 95\<rparr>))
     = default_thermal\<lparr>th_warn := 90, th_limit := 85, th_emergency := 90\<rparr>"
  by code_simp

text \<open>
  C19. The thermal ordering \<open>warn < limit < emergency\<close> that the code means to enforce holds after
  validation exactly unless the range-checked values have \<open>85 <= warn < limit\<close> and
  \<open>emergency <= limit\<close>: the reset of limit and emergency to 85 and 90 ignores \<open>warn\<close>.
  Thresholds 90, 100, 95 come out as 90, 85, 90.
\<close>
theorem thermal_ordering_exact:
  "((let t' = fst (validate_thermal t) in th_warn t' < th_limit t' \<and> th_limit t' < th_emergency t')
     \<longleftrightarrow> (let r = fst (thermal_ranges t) in \<not> (85 \<le> th_warn r \<and> th_warn r < th_limit r \<and> th_emergency r \<le> th_limit r)))
   \<and> fst (validate_thermal (default_thermal\<lparr>th_warn := 90, th_limit := 100, th_emergency := 95\<rparr>))
     = default_thermal\<lparr>th_warn := 90, th_limit := 85, th_emergency := 90\<rparr>"
  using thermal_order_exact [of "fst (thermal_ranges t)"] thermal_gap_example
  by (simp only: validate_thermal_fst Let_def)


section \<open>Encoded picture size\<close>

text \<open>The saturating addition keeps the sum a \<open>u32\<close>, and rounding down to the alignment cannot
  overflow. The code panics for a zero alignment only.\<close>

definition round_to_align :: "nat \<Rightarrow> nat \<Rightarrow> nat" where
  "round_to_align v align = max (min (v + align div 2) (2 ^ 32 - 1) div align * align) align"

definition compute_encoded_dims :: "nat \<Rightarrow> nat \<Rightarrow> fl \<Rightarrow> nat \<Rightarrow> nat \<times> nat" where
  "compute_encoded_dims render_w render_h scale align =
     (let s = f_clamp (Fin 0) (Fin 1) scale;
          w = round_to_align (f_as_u32 (f_round (f_mul b32 (f_of_nat b32 render_w) s))) align;
          h = round_to_align (f_as_u32 (f_round (f_mul b32 (f_of_nat b32 render_h) s))) align
      in (w, h))"

lemma round_to_align_multiple: "align dvd round_to_align v align"
  by (auto simp: round_to_align_def max_def)

lemma round_to_align_floor: "align \<le> round_to_align v align"
  by (simp add: round_to_align_def)

lemma round_to_align_upper:
  assumes "0 < align" and "align dvd w" and "0 < w" and "v \<le> w"
  shows "round_to_align v align \<le> w"
proof -
  obtain k where k: "w = align * k" using assms(2) by blast
  have "min (v + align div 2) (2 ^ 32 - 1) div align \<le> (align * k + align div 2) div align"
    using assms(4) k by (intro div_le_mono) simp
  also have "\<dots> = k" using assms(1) by simp
  finally have "min (v + align div 2) (2 ^ 32 - 1) div align * align \<le> w" using k by simp
  moreover have "align \<le> w" using assms(2,3) by (rule dvd_imp_le)
  ultimately show ?thesis by (simp add: round_to_align_def)
qed

lemma round_to_align_id:
  assumes "align dvd w" and "0 < w" and "w + align < 2 ^ 32"
  shows "round_to_align w align = w"
proof -
  obtain k where k: "w = align * k" using assms(1) by blast
  have a: "0 < align" using assms(2) k by auto
  then have "min (w + align div 2) (2 ^ 32 - 1) = w + align div 2" using assms(3) by simp
  then have "min (w + align div 2) (2 ^ 32 - 1) div align * align = w" using a k by simp
  moreover have "align \<le> w" using assms(1,2) by (rule dvd_imp_le)
  ultimately show ?thesis by (simp add: round_to_align_def)
qed

lemma f32_exact_nat: "n \<le> 2 ^ 24 \<Longrightarrow> is_float b32 (of_nat n)"
  using fmt32.is_float_int [of "int n"] by (simp add: b32_def)

lemma round_away_le: "r \<le> of_nat n \<Longrightarrow> round_away r \<le> int n"
proof -
  assume r: "r \<le> of_nat n"
  have "\<lfloor>r + 1 / 2\<rfloor> \<le> int n" using r by (simp add: floor_le_iff)
  moreover have "0 \<le> \<lfloor>1 / 2 - r\<rfloor>" if "r < 0" using that by simp
  ultimately show ?thesis
    by (cases "0 \<le> r") (use floor_mono [of "- r" "1 / 2 - r"] in \<open>auto simp: round_away_def intro: order_trans [of _ 0]\<close>)
qed

lemma clamp_unit_cases: "f_clamp (Fin 0) (Fin 1) s = NaN \<or> (\<exists>x. f_clamp (Fin 0) (Fin 1) s = Fin x \<and> 0 \<le> x \<and> x \<le> 1)"
  by (cases s) (auto simp: f_clamp_def)

lemma f_as_u32_le: "k \<le> int n \<Longrightarrow> f_as_u32 (Fin (of_int k)) \<le> n"
  by (auto simp: f_as_u32_def trunc_rat_def min_def)

lemma f_as_u32_exact: "n < 2 ^ 32 \<Longrightarrow> f_as_u32 (Fin (of_nat n)) = n"
  by (simp add: f_as_u32_def trunc_rat_def)

lemma scaled_le:
  assumes "n \<le> 2 ^ 24"
  shows "f_as_u32 (f_round (f_mul b32 (f_of_nat b32 n) (f_clamp (Fin 0) (Fin 1) s))) \<le> n"
proof -
  have n: "f_of_nat b32 n = Fin (of_nat n)" using f32_exact_nat [OF assms] by (simp add: is_float_def)
  consider "f_clamp (Fin 0) (Fin 1) s = NaN" | x where "f_clamp (Fin 0) (Fin 1) s = Fin x" "0 \<le> x" "x \<le> 1"
    using clamp_unit_cases by blast
  then show ?thesis
  proof cases
    case 1
    then show ?thesis by (simp add: n f_mul_def f_as_u32_def)
  next
    case 2
    have "of_nat n * x \<le> of_nat n" using mult_left_mono [OF 2(3), of "of_nat n"] by simp
    then obtain r where r: "rnd b32 (of_nat n * x) = Fin r" "r \<le> of_nat n"
      using fmt32.rnd_between [OF fmt32.is_float_0 f32_exact_nat [OF assms], of "of_nat n * x"] 2(2) by auto
    show ?thesis unfolding n 2 using r round_away_le [OF r(2)] by (simp add: f_as_u32_le)
  qed
qed

lemma scaled_full:
  assumes "n \<le> 2 ^ 24" and "Fin 1 \<le> s"
  shows "f_as_u32 (f_round (f_mul b32 (f_of_nat b32 n) (f_clamp (Fin 0) (Fin 1) s))) = n"
proof -
  have n: "f_of_nat b32 n = Fin (of_nat n)" using f32_exact_nat [OF assms(1)] by (simp add: is_float_def)
  have s: "f_clamp (Fin 0) (Fin 1) s = Fin 1" using assms(2) by (cases s) (auto simp: f_clamp_def)
  have "round_away (of_nat n :: rat) = int n"
    by (simp add: round_away_def) linarith
  then have "f_round (f_mul b32 (f_of_nat b32 n) (f_clamp (Fin 0) (Fin 1) s)) = Fin (of_nat n)"
    unfolding n s using n by simp
  then show ?thesis using assms(1) by (simp add: f_as_u32_exact)
qed

lemma encoded_dims:
  assumes "0 < align" and "align dvd w" and "align dvd h" and "0 < w" and "0 < h" and "w \<le> 2 ^ 24" and "h \<le> 2 ^ 24"
  shows "let (ew, eh) = compute_encoded_dims w h scale align in
     align dvd ew \<and> align dvd eh \<and> align \<le> ew \<and> align \<le> eh \<and> ew \<le> w \<and> eh \<le> h
     \<and> (if Fin 1 \<le> scale then (ew, eh) = (w, h) else True)"
proof -
  have "w + align < 2 ^ 32" "h + align < 2 ^ 32"
    using assms dvd_imp_le [of align w] dvd_imp_le [of align h] by auto
  then show ?thesis using assms scaled_le [of w scale] scaled_le [of h scale] scaled_full [of w scale] scaled_full [of h scale]
    by (simp add: compute_encoded_dims_def Let_def round_to_align_multiple round_to_align_floor round_to_align_upper
        round_to_align_id)
qed

text \<open>
  The encoded picture is aligned, never empty and never larger than the rendered one, whatever
  the scale (NaN and negative ones included), and is exactly the rendered size at scale 1 and above.
\<close>
theorem encoded_dims_bounds:
  assumes "0 < align" and "align dvd w" and "align dvd h" and "0 < w" and "0 < h" and "w \<le> 2 ^ 24" and "h \<le> 2 ^ 24"
  shows "let (ew, eh) = compute_encoded_dims w h scale align in
     align dvd ew \<and> align dvd eh \<and> align \<le> ew \<and> align \<le> eh \<and> ew \<le> w \<and> eh \<le> h
     \<and> (if Fin 1 \<le> scale then (ew, eh) = (w, h) else True)"
  using assms by (rule encoded_dims)

theorem encoded_dims_bounds_witness:
  "let (ew, eh) = compute_encoded_dims 1832 1920 (Fin (3 / 4)) 2
   in even ew \<and> even eh \<and> 2 \<le> ew \<and> 2 \<le> eh \<and> ew \<le> 1832 \<and> eh \<le> 1920"
  using encoded_dims_bounds [of 2 1832 1920 "Fin (3 / 4)"] by (auto simp: Let_def)

end
