(* ===== verification/ConfigLayers.thy ===== *)
theory ConfigLayers imports Prelude "HOL-Library.AList" begin

text \<open>
  \<open>config.rs\<close>, the layering of configuration files: the merge of TOML tables, the search for the
  files and \<open>load_layered\<close>. A TOML table is an association list with distinct keys, whose order
  is immaterial. The file system, the TOML parser and \<open>serde\<close>'s deserializer are parameters.
\<close>

section \<open>Merging tables\<close>

datatype 'v toml = Leaf 'v | Table "(string \<times> 'v toml) list"

type_synonym 'v table = "(string \<times> 'v toml) list"

definition entry_table :: "'v table \<Rightarrow> string \<Rightarrow> 'v table option" where
  "entry_table base key = (case map_of base key of Some (Table existing) \<Rightarrow> Some existing | _ \<Rightarrow> None)"

function merge_toml_tables :: "'v table \<Rightarrow> 'v table \<Rightarrow> 'v table" where
  "merge_toml_tables base [] = base"
| "merge_toml_tables base ((key, Leaf v) # overlay) = merge_toml_tables (AList.update key (Leaf v) base) overlay"
| "merge_toml_tables base ((key, Table incoming) # overlay) =
     merge_toml_tables (AList.update key
       (case entry_table base key of
          Some existing \<Rightarrow> Table (merge_toml_tables existing incoming)
        | None \<Rightarrow> Table incoming) base) overlay"
  by pat_completeness auto
termination
  by (relation "measure (\<lambda>(_, overlay). size_list (size_prod (\<lambda>_. 0) (size_toml (\<lambda>_. 0))) overlay)") auto


lemma distinct_step [simp]: "map_of (AList.update k v base) j = (if j = k then Some v else map_of base j)"
  by (simp add: update_conv)

definition merged_entry :: "'v toml option \<Rightarrow> 'v toml \<Rightarrow> 'v toml" where
  "merged_entry old new = (case (old, new) of
     (Some (Table existing), Table incoming) \<Rightarrow> Table (merge_toml_tables existing incoming) | _ \<Rightarrow> new)"

lemma merge_entry:
  "merge_toml_tables base ((key, new) # overlay) =
     merge_toml_tables (AList.update key (merged_entry (map_of base key) new) base) overlay"
  by (cases new) (auto simp: merged_entry_def entry_table_def split: option.split toml.split)

lemma merge_lookup:
  "distinct (map fst overlay) \<Longrightarrow>
   map_of (merge_toml_tables base overlay) key =
     (case map_of overlay key of
        Some new \<Rightarrow> Some (merged_entry (map_of base key) new)
      | None \<Rightarrow> map_of base key)"
proof (induction overlay arbitrary: base)
  case Nil
  show ?case by simp
next
  case (Cons e overlay)
  obtain k new where e: "e = (k, new)" by (cases e)
  have "map_of overlay k = None" using Cons.prems e by (auto simp: map_of_eq_None_iff)
  then show ?case using Cons e by (auto simp: merge_entry split: option.split)
qed

text \<open>The setting at a path of keys, and the paths an overlay decides: those that pass through one
  of its values, or end at one of its tables.\<close>

fun leaf_at :: "'v table \<Rightarrow> string list \<Rightarrow> 'v option" where
  "leaf_at t [] = None"
| "leaf_at t (k # ks) = (case map_of t k of
     Some (Leaf v) \<Rightarrow> if ks = [] then Some v else None
   | Some (Table t') \<Rightarrow> leaf_at t' ks
   | None \<Rightarrow> None)"

fun decides :: "'v table \<Rightarrow> string list \<Rightarrow> bool" where
  "decides t [] \<longleftrightarrow> True"
| "decides t (k # ks) \<longleftrightarrow> (case map_of t k of
     Some (Leaf v) \<Rightarrow> True
   | Some (Table t') \<Rightarrow> decides t' ks
   | None \<Rightarrow> False)"

fun wf_toml :: "'v toml \<Rightarrow> bool" where
  "wf_toml (Leaf v) \<longleftrightarrow> True"
| "wf_toml (Table t) \<longleftrightarrow> distinct (map fst t) \<and> (\<forall>e \<in> set t. wf_toml (snd e))"

lemma decides_leaf: "leaf_at t p = Some v \<Longrightarrow> decides t p"
  by (induction t p rule: leaf_at.induct) (auto split: option.splits toml.splits)

lemma merged_leaf:
  "wf_toml (Table overlay) \<Longrightarrow>
   leaf_at (merge_toml_tables base overlay) p = (if decides overlay p then leaf_at overlay p else leaf_at base p)"
proof (induction p arbitrary: base overlay)
  case Nil
  show ?case by simp
next
  case (Cons k ks)
  have look: "map_of (merge_toml_tables base overlay) k = (case map_of overlay k of
      Some new \<Rightarrow> Some (merged_entry (map_of base k) new) | None \<Rightarrow> map_of base k)"
    using Cons.prems by (intro merge_lookup) simp
  show ?case
  proof (cases "map_of overlay k")
    case None
    then show ?thesis by (simp add: look)
  next
    case (Some new)
    show ?thesis
    proof (cases new)
      case (Leaf v)
      then show ?thesis using Some by (simp add: look merged_entry_def split: option.split toml.split)
    next
      case (Table t)
      have wf: "wf_toml (Table t)" using Cons.prems Some Table by (fastforce dest: map_of_SomeD)
      note ih = Cons.IH [OF wf]
      show ?thesis
      proof (cases "entry_table base k")
        case None
        then have "map_of base k = None \<or> (\<exists>v. map_of base k = Some (Leaf v))"
          by (auto simp: entry_table_def split: option.splits toml.splits)
        moreover have "merged_entry (map_of base k) new = Table t"
          using None Table by (auto simp: merged_entry_def entry_table_def split: option.splits toml.splits)
        moreover have "ks = [] \<Longrightarrow> decides t ks" by simp
        ultimately show ?thesis using decides_leaf [of t ks] Some Table
          by (cases "leaf_at t ks") (auto simp: look)
      next
        case (Some ex)
        then have "map_of base k = Some (Table ex)"
          by (auto simp: entry_table_def split: option.splits toml.splits)
        then show ?thesis using \<open>map_of overlay k = Some new\<close> Table ih by (simp add: look merged_entry_def)
      qed
    qed
  qed
qed

section \<open>The files\<close>

datatype io_error = NotFound | OtherIo

type_synonym path = "string list"

text \<open>Absolute paths as lists of components. \<open>is_file\<close> is the file system's answer.\<close>

record config_sources =
  cs_base :: "path option"
  cs_overlays :: "path list"

definition CONFIG_SEARCH_DEPTH :: nat where "CONFIG_SEARCH_DEPTH = 6"

fun ancestors :: "path \<Rightarrow> path list" where
  "ancestors p = map (\<lambda>n. take (length p - n) p) [0..<Suc (length p)]"

definition runtime_config_sources ::
    "(path \<Rightarrow> bool) \<Rightarrow> path option \<Rightarrow> path \<Rightarrow> path option \<Rightarrow> config_sources" where
  "runtime_config_sources is_file module_dir cwd data_dir =
     (let from_module = (case module_dir of
            None \<Rightarrow> None
          | Some dir \<Rightarrow> find is_file (map (\<lambda>d. d @ [''config'', ''default.toml''])
                          (take CONFIG_SEARCH_DEPTH (ancestors dir))));
          base = (case from_module of
            Some p \<Rightarrow> Some p
          | None \<Rightarrow> (let p = cwd @ [''config'', ''default.toml''] in if is_file p then Some p else None));
          near = (case base of Some p \<Rightarrow> [butlast p @ [''local.toml'']] | None \<Rightarrow> []);
          user = (case data_dir of Some d \<Rightarrow> [d @ [''FocusVisionPCVR'', ''config'', ''local.toml'']] | None \<Rightarrow> [])
      in \<lparr>cs_base = base, cs_overlays = near @ user\<rparr>)"

text \<open>\<open>read_toml_layer\<close>: a missing file is no layer, anything else that goes wrong an error.\<close>

datatype 'v layer = Absent | Broken | Layer "'v table"

definition read_toml_layer ::
    "(path \<Rightarrow> io_error + bytes) \<Rightarrow> (bytes \<Rightarrow> 'v table option) \<Rightarrow> path \<Rightarrow> 'v layer" where
  "read_toml_layer read parse path =
     (case read path of
        Inr content \<Rightarrow> (case parse content of Some t \<Rightarrow> Layer t | None \<Rightarrow> Broken)
      | Inl NotFound \<Rightarrow> Absent
      | Inl OtherIo \<Rightarrow> Broken)"

fun apply_overlays :: "(path \<Rightarrow> 'v layer) \<Rightarrow> 'v table \<Rightarrow> path list \<Rightarrow> path list \<Rightarrow> 'v table \<times> path list" where
  "apply_overlays layer_at merged applied [] = (merged, applied)"
| "apply_overlays layer_at merged applied (p # ps) =
     (case layer_at p of
        Layer t \<Rightarrow> apply_overlays layer_at (merge_toml_tables merged t) (applied @ [p]) ps
      | _ \<Rightarrow> apply_overlays layer_at merged applied ps)"

definition load_layered ::
    "(path \<Rightarrow> 'v layer) \<Rightarrow> ('v table \<Rightarrow> 'c option) \<Rightarrow> 'c \<Rightarrow> path option \<Rightarrow> path list \<Rightarrow> 'c \<times> path list" where
  "load_layered layer_at deserialize dflt base overlays =
     (let (merged, applied, base_only) = (case base of
            None \<Rightarrow> ([], [], None)
          | Some path \<Rightarrow> (case layer_at path of
              Layer t \<Rightarrow> (merge_toml_tables [] t, [path], Some t)
            | _ \<Rightarrow> ([], [], None)));
          (merged, applied) = apply_overlays layer_at merged applied overlays
      in case deserialize merged of
           Some config \<Rightarrow> (config, applied)
         | None \<Rightarrow>
            (case (case base_only of Some t \<Rightarrow> deserialize t | None \<Rightarrow> None, base) of
               (Some config, Some path) \<Rightarrow> (config, [path])
             | _ \<Rightarrow> (dflt, [])))"

text \<open>
  Merging an overlay into a table takes every setting the overlay decides from the overlay
  and leaves every other setting of the table as it was, at any depth.
\<close>
theorem merge_law:
  assumes "wf_toml (Table overlay)"
  shows "leaf_at (merge_toml_tables base overlay) path =
     (if decides overlay path then leaf_at overlay path else leaf_at base path)"
  using assms by (rule merged_leaf)

theorem merge_law_witness:
  "leaf_at (merge_toml_tables [(''video'', Table [(''w'', Leaf (1::int)), (''h'', Leaf 2)])]
      [(''video'', Table [(''w'', Leaf 3)])]) [''video'', ''h''] = Some 2"
  using merge_law [of "[(''video'', Table [(''w'', Leaf (3::int))])]"
      "[(''video'', Table [(''w'', Leaf 1), (''h'', Leaf 2)])]" "[''video'', ''h'']"] by simp

definition usable :: "(path \<Rightarrow> 'v layer) \<Rightarrow> path \<Rightarrow> bool" where
  "usable layer_at p \<longleftrightarrow> (case layer_at p of Layer t \<Rightarrow> True | _ \<Rightarrow> False)"

definition table_of :: "'v layer \<Rightarrow> 'v table" where
  "table_of l = (case l of Layer t \<Rightarrow> t | _ \<Rightarrow> [])"

lemma apply_overlays_alt:
  "apply_overlays layer_at merged applied ps =
     (foldl merge_toml_tables merged (map (table_of \<circ> layer_at) (filter (usable layer_at) ps)),
      applied @ filter (usable layer_at) ps)"
  by (induction ps arbitrary: merged applied) (auto simp: usable_def table_of_def split: layer.split)

lemma leaf_at_Nil: "leaf_at [] p = None"
  by (cases p) simp_all

lemma foldl_setting:
  "\<forall>t \<in> set ts. wf_toml (Table t) \<Longrightarrow>
   leaf_at (foldl merge_toml_tables m ts) p =
     (case find (\<lambda>t. decides t p) (rev ts) of Some t \<Rightarrow> leaf_at t p | None \<Rightarrow> leaf_at m p)"
proof (induction ts rule: rev_induct)
  case Nil
  show ?case by simp
next
  case (snoc t ts)
  then show ?case using merged_leaf [of t "foldl merge_toml_tables m ts" p] by simp
qed

definition base_layers :: "(path \<Rightarrow> 'v layer) \<Rightarrow> path option \<Rightarrow> path list" where
  "base_layers layer_at base = filter (usable layer_at) (case base of Some p \<Rightarrow> [p] | None \<Rightarrow> [])"

text \<open>
  Loading never fails and a missing or broken file never hides the others: when the merge of
  the usable files deserializes, it is the configuration and exactly the usable files are reported as
  applied, in order of precedence; otherwise the base file alone is used, and the defaults when it
  does not deserialize either.
\<close>
theorem load_layered_result:
  "load_layered layer_at deserialize dflt base overlays =
     (let files = base_layers layer_at base @ filter (usable layer_at) overlays;
          tables = map (table_of \<circ> layer_at) files
      in case deserialize (foldl merge_toml_tables [] tables) of
           Some config \<Rightarrow> (config, files)
         | None \<Rightarrow> (case base_layers layer_at base of
               [p] \<Rightarrow> (case deserialize (table_of (layer_at p)) of Some config \<Rightarrow> (config, [p]) | None \<Rightarrow> (dflt, []))
             | _ \<Rightarrow> (dflt, [])))"
  by (cases base)
    (auto simp: load_layered_def apply_overlays_alt base_layers_def usable_def table_of_def Let_def
      split: option.splits layer.splits)

text \<open>
  Among the layers, in order of precedence, the last one that decides a setting gives its value.
\<close>
theorem last_layer_wins:
  assumes "\<forall>t \<in> set tables. wf_toml (Table t)"
  shows "leaf_at (foldl merge_toml_tables [] tables) p =
     (case find (\<lambda>t. decides t p) (rev tables) of Some t \<Rightarrow> leaf_at t p | None \<Rightarrow> None)"
  using foldl_setting [OF assms, of "[]" p] by (simp only: leaf_at_Nil)

theorem last_layer_wins_witness:
  "leaf_at (foldl merge_toml_tables [] [[(''a'', Leaf (1::int))], [(''a'', Leaf 2)], []]) [''a''] = Some 2"
  using last_layer_wins [of "[[(''a'', Leaf (1::int))], [(''a'', Leaf 2)], []]" "[''a'']"] by simp

text \<open>The base file is the one of the nearest of the first six ancestors that has one.\<close>

lemma sources_nearest:
  assumes "n \<le> length dir" and "n < 6"
    and "is_file (take (length dir - n) dir @ [''config'', ''default.toml''])"
    and "\<forall>m < n. \<not> is_file (take (length dir - m) dir @ [''config'', ''default.toml''])"
  shows "cs_base (runtime_config_sources is_file (Some dir) cwd data) =
     Some (take (length dir - n) dir @ [''config'', ''default.toml''])"
proof -
  let ?c = "\<lambda>n. take (length dir - n) dir @ [''config'', ''default.toml'']"
  have 1: "take 6 [0..<Suc (length dir)] = [0..<min 6 (Suc (length dir))]" 
    by (cases "6 \<le> Suc (length dir)") (simp_all add: take_upt del: upt_Suc)
  have "find is_file (map ?c [0..<min 6 (Suc (length dir))]) = Some (?c n)"
    unfolding find_Some_iff using assms by (intro exI [of _ n]) (auto simp del: upt_Suc)
  then show ?thesis
    by (simp add: runtime_config_sources_def Let_def CONFIG_SEARCH_DEPTH_def take_map o_def 1 del: upt_Suc)
qed

end
