(* ===== verification/Pairing.thy ===== *)
theory Pairing imports Config begin

text \<open>
  \<open>control/pairing.rs\<close>: PIN pairing with a lockout that survives restarts. One reading of the two
  clocks serves a whole call: \<open>now\<close> (the monotonic clock) and \<open>unix now\<close> (the wall clock in
  microseconds, a parameter). The lockout file is the value \<open>disk\<close>: the timestamp it holds, or
  \<open>None\<close> when it is absent or unreadable; \<open>disk_ok\<close> says whether writes and removals succeed.
  Random numbers are arguments.
\<close>

section \<open>State\<close>

record pairing_limits =
  pl_max_attempts :: nat
  pl_lockout :: duration

definition default_limits :: pairing_limits where
  "default_limits = \<lparr>pl_max_attempts = unat MAX_PIN_ATTEMPTS, pl_lockout = PIN_LOCKOUT_SECONDS * nanos_per_sec\<rparr>"

definition limits_of_config :: "pairing_config \<Rightarrow> pairing_limits" where
  "limits_of_config c = \<lparr>pl_max_attempts = pc_max_attempts c, pl_lockout = pc_lockout_seconds c * nanos_per_sec\<rparr>"

record pairing_state =
  ps_pin :: u32
  ps_attempts :: nat
  ps_limits :: pairing_limits
  ps_lockout_until :: "instant option"
  ps_paired :: bool
  ps_issued_at :: instant
  ps_lifetime :: duration

datatype pairing_error = WrongPin nat | LockedOut

type_synonym disk = "nat option"

section \<open>Persisted lockout\<close>

definition lockout_load :: "disk \<Rightarrow> nat" where
  "lockout_load disk = (case disk of Some us \<Rightarrow> us | None \<Rightarrow> 0)"

definition lockout_save :: "bool \<Rightarrow> nat \<Rightarrow> disk \<Rightarrow> disk" where
  "lockout_save disk_ok us disk = (if disk_ok then Some us else disk)"

definition lockout_clear :: "bool \<Rightarrow> disk \<Rightarrow> disk" where
  "lockout_clear disk_ok disk = (if disk_ok then None else disk)"

section \<open>Operations\<close>

definition generate_pin :: "u32 \<Rightarrow> u32" where
  "generate_pin rand = rand mod 1000000"

definition pairing_new ::
    "pairing_limits \<Rightarrow> instant \<Rightarrow> nat \<Rightarrow> u32 \<Rightarrow> bool \<Rightarrow> disk \<Rightarrow> pairing_state \<times> disk" where
  "pairing_new limits now now_us rand disk_ok disk =
     (let persisted = lockout_load disk;
          (lockout_until, disk) =
            (if now_us < persisted then (Some (now + (persisted - now_us) * nanos_per_us), disk)
             else (None, if persisted \<noteq> 0 then lockout_clear disk_ok disk else disk))
      in (\<lparr>ps_pin = generate_pin rand, ps_attempts = 0, ps_limits = limits, ps_lockout_until = lockout_until,
           ps_paired = False, ps_issued_at = now, ps_lifetime = PIN_LIFETIME_SECONDS * nanos_per_sec\<rparr>, disk))"

definition expires_in :: "instant \<Rightarrow> pairing_state \<Rightarrow> duration" where
  "expires_in now s = ps_lifetime s - (now - ps_issued_at s)"

definition rotate_pin :: "instant \<Rightarrow> u32 \<Rightarrow> pairing_state \<Rightarrow> pairing_state" where
  "rotate_pin now rand s = s\<lparr>ps_pin := generate_pin rand, ps_attempts := 0, ps_issued_at := now\<rparr>"

definition rotate_if_expired :: "instant \<Rightarrow> u32 \<Rightarrow> pairing_state \<Rightarrow> bool \<times> pairing_state" where
  "rotate_if_expired now rand s =
     (if 0 < expires_in now s then (False, s) else (True, rotate_pin now rand s))"

definition rearm_for_reconnect :: "instant \<Rightarrow> duration \<Rightarrow> pairing_state \<Rightarrow> pairing_state" where
  "rearm_for_reconnect now window s = s\<lparr>ps_paired := False, ps_issued_at := now, ps_lifetime := window\<rparr>"

definition is_locked :: "instant \<Rightarrow> pairing_state \<Rightarrow> bool" where
  "is_locked now s = (case ps_lockout_until s of Some until \<Rightarrow> now < until | None \<Rightarrow> False)"

definition verify ::
    "instant \<Rightarrow> nat \<Rightarrow> u32 \<Rightarrow> bool \<Rightarrow> u32 \<Rightarrow> pairing_state \<times> disk
     \<Rightarrow> (pairing_error + unit) \<times> pairing_state \<times> disk" where
  "verify now now_us rand disk_ok submitted_pin sd =
     (let (s, disk) = sd in
      if is_locked now s then (Inl LockedOut, s, disk)
      else if submitted_pin XOR ps_pin s = 0 then
        (Inr (), s\<lparr>ps_paired := True, ps_attempts := 0, ps_lockout_until := None\<rparr>, lockout_clear disk_ok disk)
      else
        let s = s\<lparr>ps_attempts := min (ps_attempts s + 1) 255\<rparr>;
            max_attempts = pl_max_attempts (ps_limits s)
        in if max_attempts \<le> ps_attempts s then
             let lockout_duration = pl_lockout (ps_limits s);
                 s = s\<lparr>ps_lockout_until := Some (now + lockout_duration)\<rparr>;
                 s = rotate_pin now rand s;
                 until_us = min (now_us + lockout_duration div nanos_per_us mod 2 ^ 64) (2 ^ 64 - 1)
             in (Inl LockedOut, s, lockout_save disk_ok until_us disk)
           else (Inl (WrongPin (max_attempts - ps_attempts s)), s, disk))"

section \<open>Sequences of operations\<close>

text \<open>Everything that can happen to the pairing state of an engine, restarts included.\<close>

datatype pairing_event = Submit u32 | Expire | Rearm duration | Restart

record pairing_input =
  pi_now :: instant
  pi_random :: u32
  pi_event :: pairing_event

definition pairing_step ::
    "(instant \<Rightarrow> nat) \<Rightarrow> pairing_state \<times> disk \<Rightarrow> pairing_input \<Rightarrow> pairing_state \<times> disk" where
  "pairing_step unix sd i =
     (let (s, disk) = sd; now = pi_now i in
      case pi_event i of
        Submit pin \<Rightarrow> snd (verify now (unix now) (pi_random i) True pin sd)
      | Expire \<Rightarrow> (snd (rotate_if_expired now (pi_random i) s), disk)
      | Rearm window \<Rightarrow> (rearm_for_reconnect now window s, disk)
      | Restart \<Rightarrow> pairing_new (ps_limits s) now (unix now) (pi_random i) True disk)"

definition accepts :: "(instant \<Rightarrow> nat) \<Rightarrow> pairing_state \<times> disk \<Rightarrow> pairing_input \<Rightarrow> bool" where
  "accepts unix sd i = (case pi_event i of
     Submit pin \<Rightarrow> fst (verify (pi_now i) (unix (pi_now i)) (pi_random i) True pin sd) = Inr ()
   | _ \<Rightarrow> False)"

fun accepted_any :: "(instant \<Rightarrow> nat) \<Rightarrow> pairing_state \<times> disk \<Rightarrow> pairing_input list \<Rightarrow> bool" where
  "accepted_any unix sd [] \<longleftrightarrow> False"
| "accepted_any unix sd (i # ops) \<longleftrightarrow> accepts unix sd i \<or> accepted_any unix (pairing_step unix sd i) ops"

inductive pairing_reach :: "(instant \<Rightarrow> nat) \<Rightarrow> pairing_limits \<Rightarrow> pairing_state \<times> disk \<Rightarrow> bool"
  for unix limits where
  start: "pairing_reach unix limits (pairing_new limits now (unix now) rand True disk)"
| step: "pairing_reach unix limits sd \<Longrightarrow> pairing_reach unix limits (pairing_step unix sd i)"


section \<open>One submission\<close>

lemma xor_zero_iff: "a XOR b = 0 \<longleftrightarrow> a = b" for a b :: u32
proof
  assume "a XOR b = 0"
  then have "(a XOR b) XOR b = b" by simp
  then show "a = b" by (simp add: xor.assoc)
qed simp

lemma generate_pin_six_digits: "unat (generate_pin rand) < 1000000"
proof -
  have "unat (generate_pin rand) = unat rand mod 1000000" by (simp add: generate_pin_def unat_mod)
  then show ?thesis by simp
qed

definition tested :: "instant \<Rightarrow> pairing_state \<Rightarrow> u32 \<Rightarrow> bool" where
  "tested now s pin \<longleftrightarrow> \<not> is_locked now s \<and> pin \<noteq> ps_pin s"

definition miss :: "pairing_state \<Rightarrow> pairing_state" where
  "miss s = s\<lparr>ps_attempts := ps_attempts s + 1\<rparr>"

definition max_att :: "pairing_state \<Rightarrow> nat" where
  "max_att s = pl_max_attempts (ps_limits s)"

definition lock_deadline_us :: "nat \<Rightarrow> pairing_state \<Rightarrow> nat" where
  "lock_deadline_us now_us s = now_us + pl_lockout (ps_limits s) div nanos_per_us"

definition pairing_inv :: "pairing_state \<Rightarrow> bool" where
  "pairing_inv s \<longleftrightarrow> ps_attempts s < max_att s \<and> max_att s \<le> 255 \<and> unat (ps_pin s) < 1000000"

lemma verify_locked: "is_locked now s \<Longrightarrow> verify now us rand ok pin (s, d) = (Inl LockedOut, s, d)"
  by (simp add: verify_def)

lemma verify_right: "\<not> is_locked now s \<Longrightarrow> verify now us rand ok (ps_pin s) (s, d) =
    (Inr (), s\<lparr>ps_paired := True, ps_attempts := 0, ps_lockout_until := None\<rparr>, lockout_clear ok d)"
  by (simp add: verify_def)

lemma verify_miss:
  assumes "tested now s pin" and "pairing_inv s" and "ps_attempts s + 1 < max_att s"
  shows "verify now us rand ok pin (s, d) = (Inl (WrongPin (max_att s - (ps_attempts s + 1))), miss s, d)"
  using assms by (simp add: verify_def tested_def xor_zero_iff pairing_inv_def max_att_def miss_def Let_def)

lemma verify_lockout:
  assumes "tested now s pin" and "pairing_inv s" and "\<not> ps_attempts s + 1 < max_att s"
  shows "verify now us rand ok pin (s, d) =
     (Inl LockedOut,
      s\<lparr>ps_attempts := 0, ps_lockout_until := Some (now + pl_lockout (ps_limits s)), ps_pin := generate_pin rand,
        ps_issued_at := now\<rparr>,
      lockout_save ok (min (us + pl_lockout (ps_limits s) div nanos_per_us mod 2 ^ 64) (2 ^ 64 - 1)) d)"
  using assms by (simp add: verify_def tested_def xor_zero_iff pairing_inv_def max_att_def rotate_pin_def Let_def)

lemma verify_cases:
  assumes "pairing_inv s"
  obtains (locked) "is_locked now s"
  | (right) "\<not> is_locked now s" "pin = ps_pin s"
  | (missed) "tested now s pin" "ps_attempts s + 1 < max_att s"
  | (lockout) "tested now s pin" "\<not> ps_attempts s + 1 < max_att s"
  by (auto simp: tested_def)

lemma verify_inv:
  assumes "pairing_inv s" and "verify now us rand ok pin (s, d) = (res, s', d')"
  shows "pairing_inv s' \<and> ps_limits s' = ps_limits s"
  using assms(1)
proof (cases rule: verify_cases [where now = now and pin = pin])
  case locked
  then show ?thesis using assms by (simp add: verify_locked)
next
  case right
  then show ?thesis using assms by (auto simp: verify_right pairing_inv_def max_att_def)
next
  case missed
  then show ?thesis using assms verify_miss [OF missed(1) assms(1) missed(2), of us rand ok d]
    by (auto simp: miss_def pairing_inv_def max_att_def)
next
  case lockout
  then show ?thesis using assms verify_lockout [OF lockout(1) assms(1) lockout(2), of us rand ok d]
      generate_pin_six_digits by (auto simp: pairing_inv_def max_att_def)
qed

lemma pairing_new_inv:
  "1 \<le> pl_max_attempts limits \<Longrightarrow> pl_max_attempts limits \<le> 255 \<Longrightarrow>
   pairing_inv (fst (pairing_new limits now us rand ok d)) \<and> ps_limits (fst (pairing_new limits now us rand ok d)) = limits"
  using generate_pin_six_digits by (simp add: pairing_new_def pairing_inv_def max_att_def Let_def split_beta)

lemma rotate_inv:
  "pairing_inv s \<Longrightarrow> pairing_inv (snd (rotate_if_expired now rand s)) \<and> ps_limits (snd (rotate_if_expired now rand s)) = ps_limits s"
  using generate_pin_six_digits by (auto simp: rotate_if_expired_def rotate_pin_def pairing_inv_def max_att_def)

lemma rearm_inv:
  "pairing_inv s \<Longrightarrow> pairing_inv (rearm_for_reconnect now w s) \<and> ps_limits (rearm_for_reconnect now w s) = ps_limits s"
  by (simp add: rearm_for_reconnect_def pairing_inv_def max_att_def)

lemma pairing_step_inv:
  assumes "pairing_inv (fst sd)"
  shows "pairing_inv (fst (pairing_step unix sd i)) \<and> ps_limits (fst (pairing_step unix sd i)) = ps_limits (fst sd)"
proof -
  obtain s d where sd: "sd = (s, d)" by (cases sd)
  have lim: "1 \<le> pl_max_attempts (ps_limits s)" "pl_max_attempts (ps_limits s) \<le> 255"
    using assms sd by (auto simp: pairing_inv_def max_att_def)
  show ?thesis
  proof (cases "pi_event i")
    case (Submit pin)
    then show ?thesis using assms sd verify_inv [of s "pi_now i" "unix (pi_now i)" "pi_random i" True pin d]
      by (cases "verify (pi_now i) (unix (pi_now i)) (pi_random i) True pin (s, d)") (auto simp: pairing_step_def)
  qed (use assms sd rotate_inv rearm_inv pairing_new_inv [OF lim] in \<open>auto simp: pairing_step_def Let_def\<close>)
qed


section \<open>Lockouts hold\<close>

text \<open>
  From a lockout at \<open>t\<close> on, nothing is accepted before the lockout's end, rounded down to the
  microseconds of the file, not even across restarts, as long as the two clocks advance together.
\<close>

definition clock :: "nat \<Rightarrow> instant \<Rightarrow> nat" where
  "clock c now = c + now div nanos_per_us"

definition locked_until :: "nat \<Rightarrow> nat \<Rightarrow> pairing_state \<times> disk \<Rightarrow> bool" where
  "locked_until c D sd \<longleftrightarrow> (\<exists>u. ps_lockout_until (fst sd) = Some u \<and> D * nanos_per_us \<le> u) \<and> snd sd = Some (c + D)"

lemma locked_until_is_locked: "locked_until c D (s, d) \<Longrightarrow> now < D * nanos_per_us \<Longrightarrow> is_locked now s"
  by (auto simp: locked_until_def is_locked_def)

lemma lock_kept:
  assumes "locked_until c D sd" and "pi_now i < D * nanos_per_us"
  shows "locked_until c D (pairing_step (clock c) sd i) \<and> \<not> accepts (clock c) sd i"
proof -
  obtain s d where sd: "sd = (s, d)" by (cases sd)
  have locked: "is_locked (pi_now i) s" using assms sd locked_until_is_locked by blast
  have d: "d = Some (c + D)" using assms(1) sd by (simp add: locked_until_def)
  have div: "pi_now i div nanos_per_us < D" using assms(2) by (simp add: less_mult_imp_div_less)
  have resumed: "D * nanos_per_us \<le> pi_now i + (D - pi_now i div nanos_per_us) * nanos_per_us"
  proof -
    have "pi_now i div nanos_per_us * nanos_per_us \<le> pi_now i" by simp
    moreover have "(D - pi_now i div nanos_per_us) * nanos_per_us
        = D * nanos_per_us - pi_now i div nanos_per_us * nanos_per_us"
      by (simp only: diff_mult_distrib)
    ultimately show ?thesis by linarith
  qed
  show ?thesis
  proof (cases "pi_event i")
    case (Submit pin)
    then show ?thesis using assms(1) sd locked
      by (simp add: pairing_step_def accepts_def verify_locked Let_def)
  next
    case Restart
    then show ?thesis using sd d div resumed
      by (simp add: pairing_step_def accepts_def pairing_new_def lockout_load_def clock_def locked_until_def Let_def)
  qed (use assms(1) sd in \<open>auto simp: pairing_step_def accepts_def locked_until_def rotate_if_expired_def
        rotate_pin_def rearm_for_reconnect_def Let_def\<close>)
qed

lemma lock_kept_run:
  "locked_until c D sd \<Longrightarrow> \<forall>i \<in> set ops. pi_now i < D * nanos_per_us \<Longrightarrow> \<not> accepted_any (clock c) sd ops"
proof (induction ops arbitrary: sd)
  case (Cons i ops)
  then show ?case using lock_kept [of c D sd i] by auto
qed simp

lemma lockout_starts:
  assumes "tested now s pin" and "pairing_inv s" and "\<not> ps_attempts s + 1 < max_att s"
    and "clock c now + pl_lockout (ps_limits s) div nanos_per_us < 2 ^ 64"
  shows "locked_until c (now div nanos_per_us + pl_lockout (ps_limits s) div nanos_per_us)
    (snd (verify now (clock c now) rand True pin (s, d)))"
proof -
  have "(a div nanos_per_us + b div nanos_per_us) * nanos_per_us \<le> a + b" for a b :: nat
    by (simp add: distrib_right add_mono)
  then show ?thesis using assms(4)
    by (simp add: verify_lockout [OF assms(1-3)] locked_until_def lockout_save_def clock_def)
qed

text \<open>
  C10. Once the last allowed wrong PIN has been submitted, no submission is accepted until the
  lockout has passed, whatever is submitted, expires, is re-armed or restarted in between.
\<close>
theorem lockout_holds:
  assumes "pairing_inv s" and "tested now s pin"
    and "fst (verify now (clock c now) rand True pin (s, d)) = Inl LockedOut"
    and "clock c now + pl_lockout (ps_limits s) div nanos_per_us < 2 ^ 64"
    and "\<forall>i \<in> set ops. pi_now i < (now div nanos_per_us + pl_lockout (ps_limits s) div nanos_per_us) * nanos_per_us"
  shows "\<not> accepted_any (clock c) (snd (verify now (clock c now) rand True pin (s, d))) ops"
proof -
  have "\<not> ps_attempts s + 1 < max_att s"
    using assms(3) verify_miss [OF assms(2,1)] by auto
  then show ?thesis using lock_kept_run [OF lockout_starts [OF assms(2,1) _ assms(4)]] assms(5) by blast
qed


text \<open>The premises can hold: the default limits, four misses behind, a wrong PIN.\<close>

definition nearly_locked :: pairing_state where
  "nearly_locked = \<lparr>ps_pin = 123456, ps_attempts = 4, ps_limits = default_limits, ps_lockout_until = None,
     ps_paired = False, ps_issued_at = 0, ps_lifetime = PIN_LIFETIME_SECONDS * nanos_per_sec\<rparr>"

lemma nearly_locked_facts:
  "pairing_inv nearly_locked" "tested 0 nearly_locked 1" "max_att nearly_locked = 5" "ps_attempts nearly_locked = 4"
  "pl_lockout (ps_limits nearly_locked) = 300000000000"
  by (simp_all add: nearly_locked_def default_limits_def MAX_PIN_ATTEMPTS_def PIN_LOCKOUT_SECONDS_def
      pairing_inv_def max_att_def tested_def is_locked_def)

theorem lockout_holds_witness:
  "\<not> accepted_any (clock 7) (snd (verify 0 (clock 7 0) 42 True 1 (nearly_locked, None)))
     [\<lparr>pi_now = 5, pi_random = 3, pi_event = Restart\<rparr>, \<lparr>pi_now = 299999999999, pi_random = 9, pi_event = Submit 3\<rparr>]"
proof (rule lockout_holds [OF nearly_locked_facts(1,2)])
  show "fst (verify 0 (clock 7 0) 42 True 1 (nearly_locked, None)) = Inl LockedOut"
    using verify_lockout [OF nearly_locked_facts(2,1)] by (simp add: nearly_locked_facts)
qed (simp_all add: nearly_locked_facts clock_def)

section \<open>Guessing\<close>

type_synonym submission = "instant \<times> u32 \<times> u32"

fun submit_all :: "(instant \<Rightarrow> nat) \<Rightarrow> pairing_state \<times> disk \<Rightarrow> submission list
    \<Rightarrow> (pairing_error + unit) list \<times> pairing_state \<times> disk" where
  "submit_all unix sd [] = ([], sd)"
| "submit_all unix sd ((now, rand, pin) # gs) =
     (let (r, sd) = verify now (unix now) rand True pin sd; (rs, sd) = submit_all unix sd gs in (r # rs, sd))"

lemma miss_facts:
  "tested now (miss s) pin = tested now s pin" "max_att (miss s) = max_att s"
  "ps_attempts (miss s) = ps_attempts s + 1" "ps_limits (miss s) = ps_limits s"
  by (simp_all add: miss_def tested_def is_locked_def max_att_def)

lemma submit_misses:
  assumes "pairing_inv s" and "\<forall>(now, rand, pin) \<in> set gs. tested now s pin"
    and "gs \<noteq> []" and "length gs = max_att s - ps_attempts s"
  shows "fst (submit_all unix (s, d) gs) =
     map (\<lambda>k. Inl (WrongPin k)) (rev [1..<max_att s - ps_attempts s]) @ [Inl LockedOut]
   \<and> ps_lockout_until (fst (snd (submit_all unix (s, d) gs))) = Some (fst (last gs) + pl_lockout (ps_limits s))"
  using assms
proof (induction gs arbitrary: s)
  case Nil
  then show ?case by simp
next
  case (Cons g gs)
  obtain now rand pin where g: "g = (now, rand, pin)" by (cases g) auto
  have t: "tested now s pin" using Cons.prems(2) g by simp
  show ?case
  proof (cases "gs = []")
    case True
    then have "\<not> ps_attempts s + 1 < max_att s" using Cons.prems(4) by simp
    then show ?thesis using True g Cons.prems(4) verify_lockout [OF t Cons.prems(1)]
      by (simp add: Let_def)
  next
    case False
    then have m: "ps_attempts s + 1 < max_att s" using Cons.prems(4) by (cases gs) auto
    have inv: "pairing_inv (miss s)" using Cons.prems(1) m by (simp add: pairing_inv_def miss_facts miss_def max_att_def)
    have ih: "fst (submit_all unix (miss s, d) gs) =
        map (\<lambda>k. Inl (WrongPin k)) (rev [1..<max_att s - (ps_attempts s + 1)]) @ [Inl LockedOut]
      \<and> ps_lockout_until (fst (snd (submit_all unix (miss s, d) gs))) = Some (fst (last gs) + pl_lockout (ps_limits s))"
      using Cons.IH [OF inv _ False] Cons.prems(2,4) by (auto simp: miss_facts)
    have "[1..<max_att s - ps_attempts s] = [1..<max_att s - (ps_attempts s + 1)] @ [max_att s - (ps_attempts s + 1)]"
      using m upt_Suc_append [of 1 "max_att s - (ps_attempts s + 1)"] by (simp add: Suc_diff_Suc)
    then show ?thesis using ih False g verify_miss [OF t Cons.prems(1) m]
      by (simp add: Let_def split_beta)
  qed
qed

text \<open>
  Wrong PINs are answered with a countdown of the remaining attempts, and the one that uses up
  the last attempt locks pairing out for the configured time.
\<close>
theorem wrong_pins_count_down:
  assumes "pairing_inv s" and "\<forall>(now, rand, pin) \<in> set gs. tested now s pin"
    and "gs \<noteq> []" and "length gs = max_att s - ps_attempts s"
  shows "fst (submit_all unix (s, d) gs) =
     map (\<lambda>k. Inl (WrongPin k)) (rev [1..<max_att s - ps_attempts s]) @ [Inl LockedOut]
   \<and> ps_lockout_until (fst (snd (submit_all unix (s, d) gs))) = Some (fst (last gs) + pl_lockout (ps_limits s))"
  using assms by (rule submit_misses)

theorem wrong_pins_count_down_witness:
  "fst (submit_all (clock 0) (nearly_locked\<lparr>ps_attempts := 2\<rparr>, None) [(1, 0, 5), (2, 0, 6), (3, 7, 7)]) =
     [Inl (WrongPin 2), Inl (WrongPin 1), Inl LockedOut]"
  using wrong_pins_count_down [of "nearly_locked\<lparr>ps_attempts := 2\<rparr>" "[(1, 0, 5), (2, 0, 6), (3, 7, 7)]" "clock 0" None]
  by (simp add: nearly_locked_def default_limits_def MAX_PIN_ATTEMPTS_def pairing_inv_def max_att_def tested_def
      is_locked_def upt_conv_Cons)

section \<open>The rate of guesses\<close>

fun tested_count :: "(instant \<Rightarrow> nat) \<Rightarrow> pairing_state \<times> disk \<Rightarrow> pairing_input list \<Rightarrow> nat" where
  "tested_count unix sd [] = 0"
| "tested_count unix sd (i # ops) =
     (case pi_event i of Submit pin \<Rightarrow> if tested (pi_now i) (fst sd) pin then 1 else 0 | _ \<Rightarrow> 0)
     + tested_count unix (pairing_step unix sd i) ops"

text \<open>What can still be tested before the time \<open>e\<close>.\<close>

definition budget :: "instant \<Rightarrow> pairing_state \<Rightarrow> nat" where
  "budget e s = (if \<exists>u. ps_lockout_until s = Some u \<and> e \<le> u then 0
     else if e \<le> ps_issued_at s + ps_lifetime s then max_att s - ps_attempts s
     else 2 * max_att s - 1 - ps_attempts s)"

definition guesser_event :: "instant \<Rightarrow> instant \<Rightarrow> pairing_input \<Rightarrow> bool" where
  "guesser_event b e i \<longleftrightarrow> b \<le> pi_now i \<and> pi_now i < e \<and> (case pi_event i of Submit _ \<Rightarrow> True | Expire \<Rightarrow> True | _ \<Rightarrow> False)"

lemma budget_step:
  assumes "pairing_inv s" and "guesser_event b e i" and "e \<le> b + pl_lockout (ps_limits s)" and "e \<le> b + ps_lifetime s"
    and "\<not> accepts unix (s, d) i"
  shows "(case pi_event i of Submit pin \<Rightarrow> if tested (pi_now i) s pin then 1 else 0 | _ \<Rightarrow> 0)
       + budget e (fst (pairing_step unix (s, d) i)) \<le> budget e s
     \<and> ps_lifetime (fst (pairing_step unix (s, d) i)) = ps_lifetime s"
proof (cases "pi_event i")
  case (Submit pin)
  have t: "b \<le> pi_now i" "pi_now i < e" using assms(2) by (auto simp: guesser_event_def)
  show ?thesis
    using assms(1)
  proof (cases rule: verify_cases [where now = "pi_now i" and pin = pin])
    case locked
    then show ?thesis using Submit by (simp add: pairing_step_def verify_locked tested_def Let_def)
  next
    case right
    then show ?thesis using Submit assms(5) by (simp add: accepts_def verify_right)
  next
    case missed
    have "budget e s \<noteq> 0" "budget e (miss s) = budget e s - 1"
      using missed(1,2) t by (auto simp: budget_def tested_def is_locked_def miss_def max_att_def)
    then show ?thesis using Submit missed verify_miss [OF missed(1) assms(1) missed(2)]
      by (simp add: pairing_step_def Let_def) (simp add: miss_def)
  next
    case lockout
    have "budget e s \<noteq> 0"
      using lockout(1) assms(1) t by (auto simp: budget_def tested_def is_locked_def pairing_inv_def)
    then show ?thesis using Submit lockout(1) t assms(3) verify_lockout [OF lockout(1) assms(1) lockout(2)]
      by (simp add: pairing_step_def Let_def) (simp add: budget_def)
  qed
next
  case Expire
  have t: "b \<le> pi_now i" "pi_now i < e" using assms(2) by (auto simp: guesser_event_def)
  show ?thesis
  proof (cases "0 < expires_in (pi_now i) s")
    case True
    then show ?thesis using Expire by (simp add: pairing_step_def rotate_if_expired_def Let_def)
  next
    case False
    then have "ps_issued_at s + ps_lifetime s < e" using t assms(4) by (auto simp: expires_in_def)
    then show ?thesis using False Expire t assms(1,4)
      by (auto simp: pairing_step_def rotate_if_expired_def rotate_pin_def Let_def budget_def pairing_inv_def max_att_def)
  qed
qed (use assms(2) in \<open>auto simp: guesser_event_def\<close>)

lemma budget_run:
  assumes "pairing_inv s" and "\<forall>i \<in> set ops. guesser_event b e i"
    and "e \<le> b + pl_lockout (ps_limits s)" and "e \<le> b + ps_lifetime s" and "\<not> accepted_any unix (s, d) ops"
  shows "tested_count unix (s, d) ops \<le> budget e s"
  using assms
proof (induction ops arbitrary: s d)
  case (Cons i ops)
  obtain s' d' where n: "pairing_step unix (s, d) i = (s', d')" by (cases "pairing_step unix (s, d) i")
  have inv: "pairing_inv s'" "ps_limits s' = ps_limits s" using pairing_step_inv [of "(s, d)" unix i] Cons.prems(1) n by auto
  have st: "(case pi_event i of Submit pin \<Rightarrow> if tested (pi_now i) s pin then 1 else 0 | _ \<Rightarrow> 0) + budget e s' \<le> budget e s"
      "ps_lifetime s' = ps_lifetime s"
    using budget_step [of s b e i unix d] Cons.prems n by auto
  show ?case using Cons.IH [of s' d'] Cons.prems inv st n
    by (cases "pi_event i") auto
qed simp

text \<open>
  C9. Whoever does not know the PIN gets at most \<open>2 * max_attempts - 1\<close> guesses looked at in any
  stretch of time no longer than the lockout and the PIN's lifetime (300 s by default: 9 guesses),
  however the expiry of PINs, which resets the counter, is interleaved.
\<close>
theorem guess_rate:
  assumes "pairing_inv s" and "\<forall>i \<in> set ops. guesser_event b e i"
    and "e \<le> b + pl_lockout (ps_limits s)" and "e \<le> b + ps_lifetime s" and "\<not> accepted_any unix (s, d) ops"
  shows "tested_count unix (s, d) ops \<le> 2 * max_att s - 1"
proof -
  have "budget e s \<le> 2 * max_att s - 1" using assms(1) by (auto simp: budget_def pairing_inv_def)
  then show ?thesis using budget_run [OF assms] by linarith
qed

theorem guess_rate_witness:
  "tested_count (clock 0) (nearly_locked, None) [\<lparr>pi_now = 2, pi_random = 4, pi_event = Submit 9\<rparr>] \<le> 9"
  using guess_rate [OF nearly_locked_facts(1), where unix = "clock 0" and d = None and b = 0 and e = 300000000000
      and ops = "[\<lparr>pi_now = 2, pi_random = 4, pi_event = Submit 9\<rparr>]"]
  by (simp add: nearly_locked_facts guesser_event_def accepts_def verify_def nearly_locked_def is_locked_def
      default_limits_def MAX_PIN_ATTEMPTS_def PIN_LOCKOUT_SECONDS_def PIN_LIFETIME_SECONDS_def Let_def max_att_def)


section \<open>Reachable states\<close>

lemma reach_inv:
  assumes "pairing_reach unix limits sd" and "1 \<le> pl_max_attempts limits" and "pl_max_attempts limits \<le> 255"
  shows "pairing_inv (fst sd) \<and> ps_limits (fst sd) = limits"
  using assms
proof (induction rule: pairing_reach.induct)
  case (start now rand)
  then show ?case by (rule pairing_new_inv)
next
  case (step sd i)
  then show ?case using pairing_step_inv [of sd unix i] by simp
qed

lemma verify_accepts_iff: "fst (verify now us rand ok pin (s, d)) = Inr () \<longleftrightarrow> \<not> is_locked now s \<and> pin = ps_pin s"
  by (auto simp: verify_def xor_zero_iff Let_def)

text \<open>
  C21. In every state an engine can reach, through any submissions, expiries, re-arms and restarts,
  the PIN has at most six digits, attempts are left, and a submission is accepted exactly when
  pairing is not locked out and the PIN is the current one.
\<close>
theorem pairing_reachable:
  assumes "pairing_reach unix limits sd" and "1 \<le> pl_max_attempts limits" and "pl_max_attempts limits \<le> 255"
  shows "unat (ps_pin (fst sd)) < 1000000 \<and> ps_attempts (fst sd) < pl_max_attempts limits
     \<and> (fst (verify now us rand ok pin sd) = Inr () \<longleftrightarrow> \<not> is_locked now (fst sd) \<and> pin = ps_pin (fst sd))"
  using reach_inv [OF assms] verify_accepts_iff [of now us rand ok pin "fst sd" "snd sd"]
  by (auto simp: pairing_inv_def max_att_def)

theorem pairing_reachable_witness:
  "fst (verify 3 0 1 True 77 (pairing_new default_limits 2 (clock 0 2) 77 True None)) = Inr ()"
proof -
  have r: "pairing_reach (clock 0) default_limits (pairing_new default_limits 2 (clock 0 2) 77 True None)"
    by (rule pairing_reach.start)
  show ?thesis using pairing_reachable [OF r, of 3 0 1 True 77]
    by (simp add: default_limits_def MAX_PIN_ATTEMPTS_def pairing_new_def lockout_load_def generate_pin_def is_locked_def)
qed

text \<open>After a re-arm every later PIN of the same state lives for the re-arm window, not for
  \<open>PIN_LIFETIME_SECONDS\<close>.\<close>

lemma rearmed_lifetime_sticks:
  "expires_in now' (rotate_pin now' rand (rearm_for_reconnect now window s)) = window"
  by (simp add: expires_in_def rotate_pin_def rearm_for_reconnect_def)

end
