(* ===== verification/Handshake.thy ===== *)
theory Handshake imports Pairing begin

text \<open>
  \<open>control/tcp_server.rs\<close>: message framing, the handshake steps with their deadlines, the stream
  configuration and the accept loop. A peer is the list of the bytes it sends with their
  arrival times, the time it closes the connection (if it does) and the number of messages that can be
  sent to it before sending fails. TLS is a parameter: the outcome of the TLS handshake of a connection.
  The steps are a state transformer with an error value, as the code's \<open>?\<close> chains them.
\<close>

section \<open>Framing\<close>

type_synonym arrivals = "(instant \<times> u8) list"

record peer =
  pe_input :: arrivals
  pe_close :: "instant option"
  pe_accepts :: nat

datatype io_failure = Eof | InvalidData

text \<open>\<open>read_exact\<close>: done when the last byte has arrived; \<open>None\<close> when the bytes run out.\<close>

fun read_exact :: "instant \<Rightarrow> nat \<Rightarrow> arrivals \<Rightarrow> (instant \<times> bytes \<times> arrivals) option" where
  "read_exact now 0 inp = Some (now, [], inp)"
| "read_exact now (Suc n) [] = None"
| "read_exact now (Suc n) ((t, b) # inp) =
     (case read_exact (max now t) n inp of
        Some (t', bs, rest) \<Rightarrow> Some (t', b # bs, rest)
      | None \<Rightarrow> None)"

definition end_of_input :: "instant \<Rightarrow> instant option \<Rightarrow> (instant \<times> (io_failure + 'a)) option" where
  "end_of_input now close = map_option (\<lambda>tc. (max now tc, Inl Eof)) close"

text \<open>The result of a read with the time it is available, \<open>None\<close> if it never is.\<close>

definition read_message_generic ::
    "instant \<Rightarrow> instant option \<Rightarrow> arrivals \<Rightarrow> (instant \<times> (io_failure + (u8 \<times> bytes) \<times> arrivals)) option" where
  "read_message_generic now close inp =
     (case read_exact now 4 inp of
        None \<Rightarrow> end_of_input now close
      | Some (t, len_buf, inp) \<Rightarrow>
          let len = unat (u32_of_le len_buf) in
          if len = 0 then Some (t, Inl InvalidData)
          else if MAX_MSG_LEN < len then Some (t, Inl InvalidData)
          else case read_exact t len inp of
              None \<Rightarrow> end_of_input t close
            | Some (t, msg_buf, inp) \<Rightarrow> Some (t, Inr ((hd msg_buf, tl msg_buf), inp)))"

definition frame_bytes :: "u8 \<Rightarrow> bytes \<Rightarrow> bytes" where
  "frame_bytes msg_type payload = u32_le (of_nat (1 + length payload)) @ [msg_type] @ payload"

definition STEREO_MONO :: u8 where "STEREO_MONO = 0"
definition STEREO_SIDE_BY_SIDE :: u8 where "STEREO_SIDE_BY_SIDE = 1"

section \<open>The server and one connection\<close>

record handshake_timeouts =
  ht_tls :: duration
  ht_step :: duration
  ht_pin_response :: duration

definition default_timeouts :: handshake_timeouts where
  "default_timeouts = \<lparr>ht_tls = 10 * nanos_per_sec, ht_step = 10 * nanos_per_sec,
     ht_pin_response = 30 * nanos_per_sec\<rparr>"

record server =
  sv_config :: app_config
  sv_pairing :: "pairing_state \<times> disk"
  sv_connected :: bool
  sv_tls_acceptor :: bool
  sv_allow_plaintext :: bool
  sv_timeouts :: handshake_timeouts
  sv_client_caps :: u8
  sv_disk_ok :: bool

definition server_new :: "app_config \<Rightarrow> bool \<Rightarrow> instant \<Rightarrow> nat \<Rightarrow> u32 \<Rightarrow> bool \<Rightarrow> disk \<Rightarrow> server" where
  "server_new config tls_ok now now_us rand disk_ok disk =
     \<lparr>sv_config = config,
      sv_pairing = pairing_new (limits_of_config (pairing_cfg config)) now now_us rand disk_ok disk,
      sv_connected = False, sv_tls_acceptor = tls_ok, sv_allow_plaintext = False,
      sv_timeouts = default_timeouts, sv_client_caps = 0, sv_disk_ok = disk_ok\<rparr>"

definition client_reads_frame_pose :: "server \<Rightarrow> bool" where
  "client_reads_frame_pose sv \<longleftrightarrow> sv_client_caps sv AND CAP_FRAME_POSE \<noteq> 0"

definition pin_status :: "instant \<Rightarrow> server \<Rightarrow> u32 \<times> nat" where
  "pin_status now sv = (ps_pin (fst (sv_pairing sv)),
     min (expires_in now (fst (sv_pairing sv)) div nanos_per_sec) (2 ^ 32 - 1))"

definition server_rearm :: "instant \<Rightarrow> duration \<Rightarrow> server \<Rightarrow> server" where
  "server_rearm now window sv =
     sv\<lparr>sv_pairing := (rearm_for_reconnect now window (fst (sv_pairing sv)), snd (sv_pairing sv))\<rparr>"

text \<open>The state a handshake threads: the clock, the peer, the messages sent, the server.\<close>

record hs =
  hs_now :: instant
  hs_peer :: peer
  hs_sent :: "(u8 \<times> bytes) list"
  hs_server :: server

datatype hs_error = ReadFailed io_failure | StepTimeout | SendFailed | UnexpectedMessage | BadPinResponse | PinRejected

type_synonym 'a step = "hs \<Rightarrow> (hs_error + 'a) \<times> hs"

definition andThen :: "'a step \<Rightarrow> ('a \<Rightarrow> 'b step) \<Rightarrow> 'b step" where
  "andThen m f h = (case m h of (Inl e, h') \<Rightarrow> (Inl e, h') | (Inr a, h') \<Rightarrow> f a h')"

definition send_message_generic :: "u8 \<Rightarrow> bytes \<Rightarrow> unit step" where
  "send_message_generic msg_type payload h =
     (if length (hs_sent h) < pe_accepts (hs_peer h) then (Inr (), h\<lparr>hs_sent := hs_sent h @ [(msg_type, payload)]\<rparr>)
      else (Inl SendFailed, h))"

definition read_step_message :: "duration \<Rightarrow> (u8 \<times> bytes) step" where
  "read_step_message limit h =
     (let deadline = hs_now h + limit in
      case read_message_generic (hs_now h) (pe_close (hs_peer h)) (pe_input (hs_peer h)) of
        None \<Rightarrow> (Inl StepTimeout, h\<lparr>hs_now := deadline\<rparr>)
      | Some (t, r) \<Rightarrow>
          if deadline < t then (Inl StepTimeout, h\<lparr>hs_now := deadline\<rparr>)
          else case r of
              Inl e \<Rightarrow> (Inl (ReadFailed e), h\<lparr>hs_now := t\<rparr>)
            | Inr (msg, rest) \<Rightarrow> (Inr msg, h\<lparr>hs_now := t, hs_peer := (hs_peer h)\<lparr>pe_input := rest\<rparr>\<rparr>))"

section \<open>Handshake steps\<close>

definition step_hello_exchange :: "duration \<Rightarrow> u8 step" where
  "step_hello_exchange limit = andThen (read_step_message limit) (\<lambda>msg.
     if fst msg \<noteq> msg_code HELLO then (\<lambda>h. (Inl UnexpectedMessage, h))
     else let client_caps = parse_hello_caps (snd msg) in
          andThen (send_message_generic (msg_code HELLO_ACK) (encode_version PROTOCOL_VERSION))
            (\<lambda>_ h. (Inr client_caps, h)))"

text \<open>\<open>verify\<close> under the pairing lock; \<open>rand\<close> is the PIN drawn if it locks out.\<close>

definition server_verify :: "(instant \<Rightarrow> nat) \<Rightarrow> u32 \<Rightarrow> u32 \<Rightarrow> (pairing_error + unit) step" where
  "server_verify unix rand submitted_pin h =
     (let sv = hs_server h;
          (r, sd) = verify (hs_now h) (unix (hs_now h)) rand (sv_disk_ok sv) submitted_pin (sv_pairing sv)
      in (Inr r, h\<lparr>hs_server := sv\<lparr>sv_pairing := sd\<rparr>\<rparr>))"

definition step_pin_pairing :: "(instant \<Rightarrow> nat) \<Rightarrow> u32 \<Rightarrow> unit step" where
  "step_pin_pairing unix rand =
     andThen (send_message_generic (msg_code PIN_REQUEST) []) (\<lambda>_.
     andThen (\<lambda>h. read_step_message (ht_pin_response (sv_timeouts (hs_server h))) h) (\<lambda>msg.
     if fst msg \<noteq> msg_code PIN_RESPONSE \<or> length (snd msg) < 4 then (\<lambda>h. (Inl BadPinResponse, h))
     else andThen (server_verify unix rand (u32_of_le (take 4 (snd msg)))) (\<lambda>r.
       case r of
         Inr _ \<Rightarrow> send_message_generic (msg_code PIN_RESULT) [0x01]
       | Inl _ \<Rightarrow> andThen (send_message_generic (msg_code PIN_RESULT) [0x00]) (\<lambda>_ h. (Inl PinRejected, h)))))"

definition encode_stream_config :: "video_config \<Rightarrow> u8 \<Rightarrow> bytes" where
  "encode_stream_config v client_caps =
     (let supports_scale = client_caps AND CAP_RESOLUTION_SCALE \<noteq> 0;
          (enc_w, enc_h) = (if supports_scale \<and> resolution_scale v < Fin 1
             then compute_encoded_dims (resolution_w v) (resolution_h v) (resolution_scale v) 2
             else (resolution_w v, resolution_h v))
      in u32_le (of_nat (resolution_w v)) @ u32_le (of_nat (resolution_h v)) @ u32_le (of_nat (bitrate_mbps v))
         @ u32_le (of_nat (framerate v)) @ [case codec v of H264 \<Rightarrow> 0 | H265 \<Rightarrow> 1]
         @ u32_le (of_nat enc_w) @ u32_le (of_nat enc_h) @ [STEREO_SIDE_BY_SIDE]
         @ [if client_caps AND CAP_FRAME_POSE \<noteq> 0 then 1 else 0])"

definition step_stream_config :: "bytes \<Rightarrow> unit step" where
  "step_stream_config config_bytes = send_message_generic (msg_code STREAM_CONFIG) config_bytes"

definition step_stream_start :: "duration \<Rightarrow> unit step" where
  "step_stream_start limit = andThen (read_step_message limit) (\<lambda>msg.
     if fst msg \<noteq> msg_code STREAM_START then (\<lambda>h. (Inl UnexpectedMessage, h)) else (\<lambda>h. (Inr (), h)))"

definition handle_handshake_generic :: "(instant \<Rightarrow> nat) \<Rightarrow> u32 \<Rightarrow> unit step" where
  "handle_handshake_generic unix rand =
     andThen (\<lambda>h. step_hello_exchange (ht_step (sv_timeouts (hs_server h))) h) (\<lambda>client_caps.
     andThen (\<lambda>h. (Inr (), h\<lparr>hs_server := (hs_server h)\<lparr>sv_client_caps := client_caps\<rparr>\<rparr>)) (\<lambda>_.
     andThen (step_pin_pairing unix rand) (\<lambda>_.
     andThen (\<lambda>h. step_stream_config (encode_stream_config (video (sv_config (hs_server h))) client_caps) h) (\<lambda>_.
     (\<lambda>h. step_stream_start (ht_step (sv_timeouts (hs_server h))) h)))))"
section \<open>The accept loop\<close>

text \<open>What \<open>select!\<close> yields: a connection, an error of \<open>accept\<close>, or the PIN's expiry. The TLS
  library is a parameter: when its handshake with a peer ends, and whether well.\<close>

datatype tls_outcome = TlsDone instant | TlsFailed instant | TlsSilent

record incoming =
  in_peer :: peer
  in_tls :: tls_outcome
  in_random :: u32

datatype accepted = PinTimer | Incoming incoming | AcceptError

record accept_input =
  ac_now :: instant
  ac_random :: u32
  ac_event :: accepted

datatype listen_result = Connection hs | ListenerBroken | TlsUnavailable | BindFailed

definition MAX_CONSECUTIVE_ACCEPT_ERRORS :: nat where "MAX_CONSECUTIVE_ACCEPT_ERRORS = 100"

definition server_rotate :: "instant \<Rightarrow> u32 \<Rightarrow> server \<Rightarrow> server" where
  "server_rotate now rand sv =
     sv\<lparr>sv_pairing := (snd (rotate_if_expired now rand (fst (sv_pairing sv))), snd (sv_pairing sv))\<rparr>"

definition start_handshake :: "instant \<Rightarrow> peer \<Rightarrow> server \<Rightarrow> hs" where
  "start_handshake now p sv = \<lparr>hs_now = now, hs_peer = p, hs_sent = [], hs_server = sv\<rparr>"

text \<open>One connection: \<open>Some h\<close> when it is returned to the caller, and the server afterwards.\<close>

definition serve_connection ::
    "(instant \<Rightarrow> nat) \<Rightarrow> instant \<Rightarrow> incoming \<Rightarrow> server \<Rightarrow> hs option \<times> server" where
  "serve_connection unix now c sv =
     (let begin_at = (if sv_tls_acceptor sv then
            (case in_tls c of
               TlsDone t \<Rightarrow> if t \<le> now + ht_tls (sv_timeouts sv) then Some t else None
             | TlsFailed t \<Rightarrow> None
             | TlsSilent \<Rightarrow> None)
          else Some now)
      in case begin_at of
           None \<Rightarrow> (None, sv)
         | Some t \<Rightarrow>
             (case handle_handshake_generic unix (in_random c) (start_handshake t (in_peer c) sv) of
                (Inr _, h) \<Rightarrow>
                  let h = h\<lparr>hs_server := (hs_server h)\<lparr>sv_connected := True\<rparr>\<rparr> in (Some h, hs_server h)
              | (Inl _, h) \<Rightarrow> (None, hs_server h)))"

fun listen_loop ::
    "(instant \<Rightarrow> nat) \<Rightarrow> nat \<Rightarrow> server \<Rightarrow> accept_input list \<Rightarrow> listen_result option \<times> server" where
  "listen_loop unix errs sv [] = (None, sv)"
| "listen_loop unix errs sv (a # as) =
     (let sv = server_rotate (ac_now a) (ac_random a) sv in
      case ac_event a of
        PinTimer \<Rightarrow> listen_loop unix errs sv as
      | AcceptError \<Rightarrow>
          if MAX_CONSECUTIVE_ACCEPT_ERRORS \<le> errs + 1 then (Some ListenerBroken, sv)
          else listen_loop unix (errs + 1) sv as
      | Incoming c \<Rightarrow>
          (case serve_connection unix (ac_now a) c sv of
             (Some h, sv) \<Rightarrow> (Some (Connection h), sv)
           | (None, sv) \<Rightarrow> listen_loop unix 0 sv as))"

definition listen_and_accept ::
    "(instant \<Rightarrow> nat) \<Rightarrow> bool \<Rightarrow> server \<Rightarrow> accept_input list \<Rightarrow> listen_result option \<times> server" where
  "listen_and_accept unix bind_ok sv events =
     (if \<not> sv_tls_acceptor sv \<and> \<not> sv_allow_plaintext sv then (Some TlsUnavailable, sv)
      else if \<not> bind_ok then (Some BindFailed, sv)
      else listen_loop unix 0 sv events)"


section \<open>Framing is exact\<close>

lemma read_exact_closed:
  "read_exact now n inp =
     (if n \<le> length inp
      then Some (foldl max now (map fst (take n inp)), map snd (take n inp), drop n inp) else None)"
  by (induction now n inp rule: read_exact.induct) auto

lemma foldl_max_ge: "now \<le> foldl max now ts" for now :: nat
  by (induction ts arbitrary: now) (auto intro: order_trans [OF max.cobounded1])

lemma foldl_max_const: "\<forall>t \<in> set ts. t \<le> now \<Longrightarrow> foldl max now ts = now" for now :: nat
  by (induction ts) auto

lemma length_frame_bytes [simp]: "length (frame_bytes mt payload) = 5 + length payload"
  by (simp add: frame_bytes_def c32le.length_enc)

lemma frame_length_u32: "n \<le> MAX_MSG_LEN \<Longrightarrow> unat (of_nat n :: u32) = n"
  by (simp add: wire_consts unat_of_nat)

lemma frame_read:
  assumes "length payload < MAX_MSG_LEN" and "map snd inp = frame_bytes mt payload @ tail"
  shows "read_message_generic now close inp =
     Some (foldl max now (map fst (take (5 + length payload) inp)), Inr ((mt, payload), drop (5 + length payload) inp))"
proof -
  have len: "length inp = 5 + length payload + length tail"
    using arg_cong [OF assms(2), of length] by simp
  have b: "unat (of_nat (1 + length payload) :: u32) = 1 + length payload"
    using assms(1) by (intro frame_length_u32) simp
  have "map snd (take 4 inp) = take 4 (frame_bytes mt payload @ tail)"
    using assms(2) by (simp add: take_map [symmetric])
  then have l: "map snd (take 4 inp) = u32_le (of_nat (1 + length payload))"
    by (simp add: frame_bytes_def c32le.length_enc)
  have "map snd (take (1 + length payload) (drop 4 inp)) = take (1 + length payload) (drop 4 (frame_bytes mt payload @ tail))"
    by (simp only: assms(2) [symmetric] take_map drop_map)
  then have m: "map snd (take (1 + length payload) (drop 4 inp)) = mt # payload"
    by (simp add: frame_bytes_def c32le.length_enc)
  have t: "take 4 inp @ take (1 + length payload) (drop 4 inp) = take (5 + length payload) inp"
    using take_add [of 4 "1 + length payload" inp] by simp
  have f: "foldl max (foldl max now (map fst (take 4 inp))) (map fst (take (1 + length payload) (drop 4 inp)))
      = foldl max now (map fst (take (5 + length payload) inp))"
    by (simp only: t [symmetric] map_append foldl_append)
  have mx: "\<not> MAX_MSG_LEN < 1 + length payload" "1 + length payload \<noteq> 0" "1 + length payload \<le> length (drop 4 inp)" "4 \<le> length inp"
    using assms(1) len by (auto simp: wire_consts)
  show ?thesis
    unfolding read_message_generic_def read_exact_closed using mx
    by (simp only: if_True if_False option.case prod.case l c32le.dec_enc b Let_def m f list.sel drop_drop refl)
      simp
qed

lemma read_frame:
  assumes "read_message_generic now close inp = Some (t, Inr ((mt, payload), rest))"
  shows "length payload < MAX_MSG_LEN \<and> map snd inp = frame_bytes mt payload @ map snd rest"
proof -
  let ?lb = "map snd (take 4 inp)"
  define len where "len = unat (u32_of_le ?lb)"
  have r: "4 \<le> length inp" "len \<noteq> 0" "len \<le> MAX_MSG_LEN" "len \<le> length (drop 4 inp)"
      "mt = hd (map snd (take len (drop 4 inp)))" "payload = tl (map snd (take len (drop 4 inp)))"
      "rest = drop len (drop 4 inp)"
    using assms
    by (auto simp: read_message_generic_def read_exact_closed end_of_input_def len_def [symmetric] Let_def
        split: if_splits option.splits)
  have msg: "map snd (take len (drop 4 inp)) = mt # payload"
    using r by (cases "map snd (take len (drop 4 inp))") auto
  have "length (map snd (take len (drop 4 inp))) = len" using r(4) by simp
  then have pl: "length payload = len - 1" unfolding msg by simp
  have "unat (of_nat len :: u32) = len" using r(3) by (rule frame_length_u32)
  then have "u32_le (of_nat len) = ?lb"
    using c32le.enc_dec [of ?lb] r(1) by (simp add: len_def)
  then have "u32_le (of_nat (1 + length payload)) = ?lb" using pl r(2) by simp
  then have "frame_bytes mt payload = map snd (take 4 inp) @ map snd (take len (drop 4 inp))"
    by (simp add: frame_bytes_def msg)
  then have "frame_bytes mt payload @ map snd rest = map snd (take 4 inp @ take len (drop 4 inp) @ drop len (drop 4 inp))"
    by (simp only: r(7) map_append append_assoc)
  also have "\<dots> = map snd inp" by (simp only: append_take_drop_id)
  finally show ?thesis using pl r(2,3) by (simp add: wire_consts)
qed

text \<open>
  A message is read exactly from the bytes of its frame: it is received when its last byte
  has arrived, nothing of what follows is consumed, frames that are empty or longer than 64 KiB are
  never accepted, and every frame within the limit is.
\<close>
theorem framing_exact:
  "(\<exists>t. read_message_generic now close inp = Some (t, Inr ((mt, payload), rest)))
     \<longleftrightarrow> length payload < MAX_MSG_LEN \<and> map snd inp = frame_bytes mt payload @ map snd rest
         \<and> rest = drop (5 + length payload) inp"
proof
  assume "\<exists>t. read_message_generic now close inp = Some (t, Inr ((mt, payload), rest))"
  then obtain t where t: "read_message_generic now close inp = Some (t, Inr ((mt, payload), rest))" ..
  from read_frame [OF t] frame_read [of payload inp mt "map snd rest" now close] t
  show "length payload < MAX_MSG_LEN \<and> map snd inp = frame_bytes mt payload @ map snd rest
      \<and> rest = drop (5 + length payload) inp" by simp
next
  assume "length payload < MAX_MSG_LEN \<and> map snd inp = frame_bytes mt payload @ map snd rest
      \<and> rest = drop (5 + length payload) inp"
  then show "\<exists>t. read_message_generic now close inp = Some (t, Inr ((mt, payload), rest))"
    using frame_read [of payload inp mt "map snd rest" now close] by simp
qed


section \<open>What every step keeps\<close>

text \<open>A relation between the states before and after, kept by the primitive operations, is kept by
  the whole handshake, however it ends.\<close>

locale step_relation =
  fixes R :: "hs \<Rightarrow> hs \<Rightarrow> bool" and allowed :: "u8 set"
  assumes refl: "R h h"
    and trans: "R a b \<Longrightarrow> R b c \<Longrightarrow> R a c"
    and send: "mt \<in> allowed \<Longrightarrow> R h (snd (send_message_generic mt payload h))"
    and read: "R h (snd (read_step_message limit h))"
    and verify: "R h (snd (server_verify unix rand pin h))"
    and caps: "R h (h\<lparr>hs_server := (hs_server h)\<lparr>sv_client_caps := new_caps\<rparr>\<rparr>)"
begin

lemma andThen_rel:
  assumes "R h (snd (m h))" and "\<And>a h'. m h = (Inr a, h') \<Longrightarrow> R h' (snd (f a h'))"
  shows "R h (snd (andThen m f h))"
  using assms trans by (cases "m h") (auto simp: andThen_def split: sum.split)

lemma hello_rel: "msg_code HELLO_ACK \<in> allowed \<Longrightarrow> R h (snd (step_hello_exchange limit h))"
  unfolding step_hello_exchange_def by (intro andThen_rel read) (auto simp: Let_def refl intro!: andThen_rel send)

lemma pin_rel:
  "msg_code PIN_REQUEST \<in> allowed \<Longrightarrow> msg_code PIN_RESULT \<in> allowed \<Longrightarrow> R h (snd (step_pin_pairing unix rand h))"
  unfolding step_pin_pairing_def
  by (intro andThen_rel send read)
    (auto simp: refl intro!: andThen_rel send verify split: sum.split)

lemma start_rel: "R h (snd (step_stream_start limit h))"
  unfolding step_stream_start_def by (intro andThen_rel read) (auto simp: refl)

lemma handshake_rel:
  assumes "allowed = UNIV"
  shows "R h (snd (handle_handshake_generic unix rand h))"
  unfolding handle_handshake_generic_def step_stream_config_def
  by (intro andThen_rel hello_rel pin_rel send start_rel) (auto intro: caps simp: assms)

end

lemma read_step_time:
  "hs_now h \<le> hs_now (snd (read_step_message limit h)) \<and> hs_now (snd (read_step_message limit h)) \<le> hs_now h + limit"
proof -
  have "hs_now h \<le> t" if "read_message_generic (hs_now h) c inp = Some (t, r)" for c inp t r
  proof -
    have f: "hs_now h \<le> foldl max (hs_now h) ts" "hs_now h \<le> foldl max (foldl max (hs_now h) us) ts" for ts us
      using foldl_max_ge order_trans by blast+
    show ?thesis using that
      by (auto simp: read_message_generic_def read_exact_closed end_of_input_def Let_def f
          intro: max.coboundedI1 split: if_splits option.splits)
  qed
  then show ?thesis
    by (auto simp: read_step_message_def Let_def split: option.split sum.split)
qed

definition server_kept :: "server \<Rightarrow> server \<Rightarrow> bool" where
  "server_kept a b \<longleftrightarrow> sv_config b = sv_config a \<and> sv_timeouts b = sv_timeouts a
     \<and> sv_tls_acceptor b = sv_tls_acceptor a \<and> ps_limits (fst (sv_pairing b)) = ps_limits (fst (sv_pairing a))"

lemma read_step_frame:
  "hs_sent (snd (read_step_message limit h)) = hs_sent h"
  "hs_server (snd (read_step_message limit h)) = hs_server h"
  "pe_accepts (hs_peer (snd (read_step_message limit h))) = pe_accepts (hs_peer h)"
  by (auto simp: read_step_message_def Let_def split: option.split sum.split)

interpretation clock_rel: step_relation "\<lambda>a b. hs_now a \<le> hs_now b" UNIV
  using read_step_time by unfold_locales (auto simp: send_message_generic_def server_verify_def Let_def split_beta)

interpretation sent_rel: step_relation "\<lambda>a b. \<exists>ms. hs_sent b = hs_sent a @ ms" UNIV
  by unfold_locales (auto simp: send_message_generic_def server_verify_def Let_def split_beta read_step_frame)

lemma verify_limits: "ps_limits (fst (snd (verify now us rand ok pin sd))) = ps_limits (fst sd)"
  by (cases sd) (auto simp: verify_def rotate_pin_def Let_def)

interpretation kept_rel: step_relation "\<lambda>a b. server_kept (hs_server a) (hs_server b)" UNIV
  by unfold_locales (auto simp: send_message_generic_def server_verify_def Let_def split_beta read_step_frame
      server_kept_def verify_limits)

definition configs_sent :: "hs \<Rightarrow> (u8 \<times> bytes) list" where
  "configs_sent h = filter (\<lambda>m. fst m = msg_code STREAM_CONFIG) (hs_sent h)"

interpretation no_config: step_relation "\<lambda>a b. configs_sent b = configs_sent a" "{mt. mt \<noteq> msg_code STREAM_CONFIG}"
  by unfold_locales (auto simp: configs_sent_def send_message_generic_def server_verify_def Let_def split_beta
      read_step_frame)

section \<open>Successful steps\<close>

lemma andThen_ok: "andThen m f h = (Inr b, k) \<longleftrightarrow> (\<exists>a h'. m h = (Inr a, h') \<and> f a h' = (Inr b, k))"
  by (cases "m h") (auto simp: andThen_def split: sum.split)

lemma send_ok: "send_message_generic mt p h = (Inr u, k) \<longleftrightarrow>
    length (hs_sent h) < pe_accepts (hs_peer h) \<and> k = h\<lparr>hs_sent := hs_sent h @ [(mt, p)]\<rparr>"
  by (auto simp: send_message_generic_def)

lemma read_ok:
  assumes "read_step_message limit h = (Inr (mt, p), k)"
  shows "map snd (pe_input (hs_peer h)) = frame_bytes mt p @ map snd (pe_input (hs_peer k))
    \<and> hs_now h \<le> hs_now k \<and> hs_now k \<le> hs_now h + limit \<and> hs_sent k = hs_sent h \<and> hs_server k = hs_server h"
proof -
  obtain t rest where t: "read_message_generic (hs_now h) (pe_close (hs_peer h)) (pe_input (hs_peer h)) = Some (t, Inr ((mt, p), rest))"
      "pe_input (hs_peer k) = rest"
    using assms by (auto simp: read_step_message_def Let_def split: option.splits if_splits sum.splits)
  show ?thesis using read_frame [OF t(1)] t(2) read_step_time [of h limit] read_step_frame [of limit h] assms by auto
qed

lemma hello_ok:
  assumes "step_hello_exchange limit h = (Inr caps, k)"
  shows "\<exists>p. map snd (pe_input (hs_peer h)) = frame_bytes (msg_code HELLO) p @ map snd (pe_input (hs_peer k))
    \<and> caps = parse_hello_caps p \<and> hs_now h \<le> hs_now k \<and> hs_now k \<le> hs_now h + limit \<and> hs_server k = hs_server h
    \<and> hs_sent k = hs_sent h @ [(msg_code HELLO_ACK, encode_version PROTOCOL_VERSION)]"
proof -
  obtain mt p j where r: "read_step_message limit h = (Inr (mt, p), j)"
      and m: "mt = msg_code HELLO" "caps = parse_hello_caps p"
        "k = j\<lparr>hs_sent := hs_sent j @ [(msg_code HELLO_ACK, encode_version PROTOCOL_VERSION)]\<rparr>"
    using assms unfolding step_hello_exchange_def andThen_ok by (auto simp: Let_def andThen_ok send_ok split: if_splits)
  show ?thesis using read_ok [OF r] m by auto
qed

definition proven :: "instant \<Rightarrow> server \<Rightarrow> u32 \<Rightarrow> bool" where
  "proven tv sv pin \<longleftrightarrow> \<not> is_locked tv (fst (sv_pairing sv)) \<and> pin = ps_pin (fst (sv_pairing sv))"

lemma pin_result_ok:
  "(case r of Inl e \<Rightarrow> andThen (send_message_generic mt q) (\<lambda>_ h. (Inl PinRejected, h))
    | Inr u \<Rightarrow> send_message_generic mt p) h = (Inr (), k)
   \<longleftrightarrow> r = Inr () \<and> send_message_generic mt p h = (Inr (), k)" for r :: "pairing_error + unit"
  by (cases r) (auto simp: andThen_ok)

lemma pin_ok:
  assumes "step_pin_pairing unix rand h = (Inr (), k)"
  shows "\<exists>p. map snd (pe_input (hs_peer h)) = frame_bytes (msg_code PIN_RESPONSE) p @ map snd (pe_input (hs_peer k))
    \<and> 4 \<le> length p \<and> proven (hs_now k) (hs_server h) (u32_of_le (take 4 p))
    \<and> hs_now h \<le> hs_now k \<and> hs_now k \<le> hs_now h + ht_pin_response (sv_timeouts (hs_server h))
    \<and> hs_sent k = hs_sent h @ [(msg_code PIN_REQUEST, []), (msg_code PIN_RESULT, [1])]"
proof -
  define h1 where "h1 = h\<lparr>hs_sent := hs_sent h @ [(msg_code PIN_REQUEST, [])]\<rparr>"
  have h1: "hs_server h1 = hs_server h" "hs_now h1 = hs_now h" "hs_peer h1 = hs_peer h"
      "hs_sent h1 = hs_sent h @ [(msg_code PIN_REQUEST, [])]" by (simp_all add: h1_def)
  obtain mt p j j2 where r: "read_step_message (ht_pin_response (sv_timeouts (hs_server h))) h1 = (Inr (mt, p), j)"
      and m: "mt = msg_code PIN_RESPONSE" "4 \<le> length p"
      and v: "server_verify unix rand (u32_of_le (take 4 p)) j = (Inr (Inr ()), j2)"
      and k: "k = j2\<lparr>hs_sent := hs_sent j2 @ [(msg_code PIN_RESULT, [1])]\<rparr>"
    using assms unfolding step_pin_pairing_def andThen_ok send_ok
    by (auto simp: andThen_ok pin_result_ok send_ok h1_def split: if_splits)
  have j2: "hs_peer j2 = hs_peer j" "hs_now j2 = hs_now j" "hs_sent j2 = hs_sent j"
      "fst (verify (hs_now j) (unix (hs_now j)) rand (sv_disk_ok (hs_server j)) (u32_of_le (take 4 p)) (sv_pairing (hs_server j))) = Inr ()"
    using v by (auto simp: server_verify_def Let_def split_beta)
  have "proven (hs_now j) (hs_server j) (u32_of_le (take 4 p))"
    using j2(4) verify_accepts_iff [of "hs_now j" "unix (hs_now j)" rand "sv_disk_ok (hs_server j)" _
        "fst (sv_pairing (hs_server j))" "snd (sv_pairing (hs_server j))"] by (simp add: proven_def)
  then show ?thesis using read_ok [OF r] m k j2 h1 by auto
qed

lemma start_ok:
  assumes "step_stream_start limit h = (Inr (), k)"
  shows "\<exists>p. map snd (pe_input (hs_peer h)) = frame_bytes (msg_code STREAM_START) p @ map snd (pe_input (hs_peer k))
    \<and> hs_now h \<le> hs_now k \<and> hs_now k \<le> hs_now h + limit \<and> hs_sent k = hs_sent h \<and> hs_server k = hs_server h"
proof -
  obtain p where r: "read_step_message limit h = (Inr (msg_code STREAM_START, p), k)"
    using assms unfolding step_stream_start_def andThen_ok by (auto split: if_splits)
  show ?thesis using read_ok [OF r] by auto
qed


section \<open>Who gets a stream\<close>

definition authenticated :: "instant \<Rightarrow> peer \<Rightarrow> server \<Rightarrow> hs \<Rightarrow> bool" where
  "authenticated now p sv h \<longleftrightarrow> (\<exists>hello response start rest tv.
     map snd (pe_input p) = frame_bytes (msg_code HELLO) hello @ frame_bytes (msg_code PIN_RESPONSE) response
       @ frame_bytes (msg_code STREAM_START) start @ rest
     \<and> 4 \<le> length response \<and> proven tv sv (u32_of_le (take 4 response))
     \<and> now \<le> tv \<and> tv \<le> hs_now h
     \<and> hs_now h \<le> now + 2 * ht_step (sv_timeouts sv) + ht_pin_response (sv_timeouts sv)
     \<and> hs_sent h = [(msg_code HELLO_ACK, encode_version PROTOCOL_VERSION), (msg_code PIN_REQUEST, []),
         (msg_code PIN_RESULT, [1]),
         (msg_code STREAM_CONFIG, encode_stream_config (video (sv_config sv)) (parse_hello_caps hello))])"

definition with_caps :: "u8 \<Rightarrow> hs \<Rightarrow> hs" where
  "with_caps caps h = h\<lparr>hs_server := (hs_server h)\<lparr>sv_client_caps := caps\<rparr>\<rparr>"

lemma with_caps_simps [simp]:
  "hs_now (with_caps c h) = hs_now h" "hs_peer (with_caps c h) = hs_peer h" "hs_sent (with_caps c h) = hs_sent h"
  "sv_timeouts (hs_server (with_caps c h)) = sv_timeouts (hs_server h)"
  "sv_config (hs_server (with_caps c h)) = sv_config (hs_server h)"
  "proven tv (hs_server (with_caps c h)) = proven tv (hs_server h)"
  by (simp_all add: with_caps_def proven_def fun_eq_iff)

lemma server_kept_pin: "step_pin_pairing unix rand h = (r, k) \<Longrightarrow> server_kept (hs_server h) (hs_server k)"
  using kept_rel.pin_rel [where unix = unix and rand = rand and h = h] by simp

lemma handshake_split:
  "handle_handshake_generic unix rand h =
     andThen (\<lambda>h. step_hello_exchange (ht_step (sv_timeouts (hs_server h))) h) (\<lambda>caps h.
     andThen (step_pin_pairing unix rand) (\<lambda>_.
     andThen (\<lambda>h. step_stream_config (encode_stream_config (video (sv_config (hs_server h))) caps) h) (\<lambda>_.
     (\<lambda>h. step_stream_start (ht_step (sv_timeouts (hs_server h))) h))) (with_caps caps h)) h"
  by (simp add: handle_handshake_generic_def andThen_def with_caps_def split_beta split: sum.split)

lemma handshake_ok:
  assumes "handle_handshake_generic unix rand (start_handshake now p sv) = (Inr (), h)"
  shows "authenticated now p sv h"
proof -
  let ?h0 = "start_handshake now p sv"
  have h0: "hs_now ?h0 = now" "hs_peer ?h0 = p" "hs_sent ?h0 = []" "hs_server ?h0 = sv"
    by (simp_all add: start_handshake_def)
  obtain caps h1 h2 h3 where s1: "step_hello_exchange (ht_step (sv_timeouts sv)) ?h0 = (Inr caps, h1)"
      and s2: "step_pin_pairing unix rand (with_caps caps h1) = (Inr (), h2)"
      and s3: "step_stream_config (encode_stream_config (video (sv_config (hs_server h2))) caps) h2 = (Inr (), h3)"
      and s4: "step_stream_start (ht_step (sv_timeouts (hs_server h3))) h3 = (Inr (), h)"
    using assms h0(4) by (auto simp: handshake_split andThen_ok)
  have k3: "hs_server h3 = hs_server h2" "hs_now h3 = hs_now h2" "hs_peer h3 = hs_peer h2"
      "hs_sent h3 = hs_sent h2 @ [(msg_code STREAM_CONFIG, encode_stream_config (video (sv_config (hs_server h2))) caps)]"
    using s3 by (auto simp: step_stream_config_def send_ok)
  obtain hello where e1: "map snd (pe_input p) = frame_bytes (msg_code HELLO) hello @ map snd (pe_input (hs_peer h1))"
      "caps = parse_hello_caps hello" "now \<le> hs_now h1" "hs_now h1 \<le> now + ht_step (sv_timeouts sv)" "hs_server h1 = sv"
      "hs_sent h1 = [(msg_code HELLO_ACK, encode_version PROTOCOL_VERSION)]"
    using hello_ok [OF s1] h0 by auto
  obtain response where e2: "map snd (pe_input (hs_peer h1)) = frame_bytes (msg_code PIN_RESPONSE) response @ map snd (pe_input (hs_peer h2))"
      "4 \<le> length response" "proven (hs_now h2) sv (u32_of_le (take 4 response))"
      "hs_now h1 \<le> hs_now h2" "hs_now h2 \<le> hs_now h1 + ht_pin_response (sv_timeouts sv)"
      "hs_sent h2 = hs_sent h1 @ [(msg_code PIN_REQUEST, []), (msg_code PIN_RESULT, [1])]"
    using pin_ok [OF s2] e1(5) by auto
  have kept: "sv_config (hs_server h2) = sv_config sv" "sv_timeouts (hs_server h2) = sv_timeouts sv"
    using server_kept_pin [OF s2] e1(5) by (auto simp: server_kept_def with_caps_def)
  obtain start where e3: "map snd (pe_input (hs_peer h2)) = frame_bytes (msg_code STREAM_START) start @ map snd (pe_input (hs_peer h))"
      "hs_now h2 \<le> hs_now h" "hs_now h \<le> hs_now h2 + ht_step (sv_timeouts sv)" "hs_sent h = hs_sent h3"
    using start_ok [OF s4] k3 kept by auto
  show ?thesis unfolding authenticated_def
  proof (intro exI conjI)
    show "map snd (pe_input p) = frame_bytes (msg_code HELLO) hello @ frame_bytes (msg_code PIN_RESPONSE) response
        @ frame_bytes (msg_code STREAM_START) start @ map snd (pe_input (hs_peer h))"
      using e1(1) e2(1) e3(1) by simp
    show "hs_sent h = [(msg_code HELLO_ACK, encode_version PROTOCOL_VERSION), (msg_code PIN_REQUEST, []),
         (msg_code PIN_RESULT, [1]),
         (msg_code STREAM_CONFIG, encode_stream_config (video (sv_config sv)) (parse_hello_caps hello))]"
      using e1(2,6) e2(6) e3(4) k3(4) kept by simp
  qed (use e1 e2 e3 in auto)
qed

text \<open>
  C5. A connection that completes the handshake has sent, in this order, HELLO, the current PIN while
  pairing was not locked out, and STREAM_START, each within its deadline; the server has answered
  with exactly HELLO_ACK, PIN_REQUEST, an accepting PIN_RESULT and the STREAM_CONFIG for the
  capabilities the client announced.
\<close>
theorem handshake_authenticates:
  "case handle_handshake_generic unix rand (start_handshake now p sv) of
     (Inr _, h) \<Rightarrow> authenticated now p sv h
   | (Inl _, h) \<Rightarrow> True"
  using handshake_ok [of unix rand now p sv] by (auto split: prod.split sum.split)


lemma configs_with_caps [simp]: "configs_sent (with_caps c h) = configs_sent h"
  by (simp add: configs_sent_def)

lemma andThen_error: "m h = (Inl e, k) \<Longrightarrow> andThen m f h = (Inl e, k)"
  by (simp add: andThen_def)

lemma config_needs_pin:
  assumes "configs_sent (snd (handle_handshake_generic unix rand (start_handshake now p sv))) \<noteq> []"
  shows "\<exists>hello response rest tv. map snd (pe_input p) = frame_bytes (msg_code HELLO) hello
       @ frame_bytes (msg_code PIN_RESPONSE) response @ rest
     \<and> 4 \<le> length response \<and> proven tv sv (u32_of_le (take 4 response)) \<and> now \<le> tv"
proof -
  let ?h0 = "start_handshake now p sv"
  have h0: "hs_now ?h0 = now" "hs_peer ?h0 = p" "hs_sent ?h0 = []" "hs_server ?h0 = sv" "configs_sent ?h0 = []"
    by (simp_all add: start_handshake_def configs_sent_def)
  obtain r1 h1 where s1: "step_hello_exchange (ht_step (sv_timeouts sv)) ?h0 = (r1, h1)" by fastforce
  have c1: "configs_sent h1 = []" using no_config.hello_rel [where h = ?h0 and limit = "ht_step (sv_timeouts sv)"] s1 h0(5) by simp
  obtain caps where r1: "r1 = Inr caps"
    using assms s1 c1 h0(4) by (cases r1) (auto simp: handshake_split andThen_def)
  obtain r2 h2 where s2: "step_pin_pairing unix rand (with_caps caps h1) = (r2, h2)" by fastforce
  have c2: "configs_sent h2 = []"
    using no_config.pin_rel [where h = "with_caps caps h1" and unix = unix and rand = rand] s2 c1 by simp
  have r2: "r2 = Inr ()"
    using assms s1 r1 s2 c2 h0(4) by (cases r2) (auto simp: handshake_split andThen_def)
  obtain hello where e1: "map snd (pe_input p) = frame_bytes (msg_code HELLO) hello @ map snd (pe_input (hs_peer h1))"
      "now \<le> hs_now h1" "hs_server h1 = sv"
    using hello_ok [of "ht_step (sv_timeouts sv)" ?h0 caps h1] s1 r1 h0 by auto
  obtain response where e2: "map snd (pe_input (hs_peer h1)) = frame_bytes (msg_code PIN_RESPONSE) response @ map snd (pe_input (hs_peer h2))"
      "4 \<le> length response" "proven (hs_now h2) sv (u32_of_le (take 4 response))" "hs_now h1 \<le> hs_now h2"
    using pin_ok [of unix rand "with_caps caps h1" h2] s2 r2 e1(3) by auto
  show ?thesis using e1 e2 by (intro exI [of _ hello] exI [of _ response] exI [of _ "map snd (pe_input (hs_peer h2))"] exI [of _ "hs_now h2"]) auto
qed

text \<open>
  The stream configuration never leaves the server for a peer that has not proven the PIN
  first, whether the handshake succeeds or not.
\<close>
theorem config_only_after_pin:
  "configs_sent (snd (handle_handshake_generic unix rand (start_handshake now p sv))) = []
   \<or> (\<exists>hello response rest tv. map snd (pe_input p) = frame_bytes (msg_code HELLO) hello
       @ frame_bytes (msg_code PIN_RESPONSE) response @ rest
     \<and> 4 \<le> length response \<and> proven tv sv (u32_of_le (take 4 response)) \<and> now \<le> tv)"
  using config_needs_pin by blast

lemma read_bound: "hs_now (snd (read_step_message limit h)) \<le> hs_now h + limit"
  using read_step_time by blast

lemma andThen_bound:
  assumes "hs_now (snd (m h)) \<le> hs_now h + a" and "\<And>x k. m h = (Inr x, k) \<Longrightarrow> hs_now (snd (f x k)) \<le> hs_now k + b"
  shows "hs_now (snd (andThen m f h)) \<le> hs_now h + (a + b)"
  using assms by (cases "m h") (fastforce simp: andThen_def split: sum.split)

lemma send_now: "hs_now (snd (send_message_generic mt p h)) = hs_now h"
  by (simp add: send_message_generic_def)

lemma hello_bound: "hs_now (snd (step_hello_exchange limit h)) \<le> hs_now h + limit"
  unfolding step_hello_exchange_def
  by (rule order_trans [OF andThen_bound [OF read_bound, where b = 0]])
    (auto simp: Let_def send_now andThen_def split_beta split: sum.split)

lemma start_bound: "hs_now (snd (step_stream_start limit h)) \<le> hs_now h + limit"
  unfolding step_stream_start_def
  by (rule order_trans [OF andThen_bound [OF read_bound, where b = 0]]) auto

lemma pin_bound: "hs_now (snd (step_pin_pairing unix rand h)) \<le> hs_now h + ht_pin_response (sv_timeouts (hs_server h))"
proof -
  have 1: "hs_now (snd (andThen (\<lambda>h. read_step_message (ht_pin_response (sv_timeouts (hs_server h))) h) f k))
      \<le> hs_now k + ht_pin_response (sv_timeouts (hs_server k))"
    if "\<And>m k. hs_now (snd (f m k)) \<le> hs_now k" for f :: "u8 \<times> bytes \<Rightarrow> unit step" and k
    using andThen_bound [where m = "\<lambda>h. read_step_message (ht_pin_response (sv_timeouts (hs_server h))) h"
        and f = f and b = 0 and h = k and a = "ht_pin_response (sv_timeouts (hs_server k))", OF read_bound] that
    by simp
  have 2: "hs_now (snd ((if fst m \<noteq> msg_code PIN_RESPONSE \<or> length (snd m) < 4 then (\<lambda>h. (Inl BadPinResponse, h))
     else andThen (server_verify unix rand (u32_of_le (take 4 (snd m)))) (\<lambda>r.
       case r of
         Inr _ \<Rightarrow> send_message_generic (msg_code PIN_RESULT) [0x01]
       | Inl _ \<Rightarrow> andThen (send_message_generic (msg_code PIN_RESULT) [0x00]) (\<lambda>_ h. (Inl PinRejected, h)))) k)) \<le> hs_now k" for m k
    by (auto simp: andThen_def server_verify_def send_message_generic_def Let_def split_beta split: sum.split)
  have "hs_now (snd (step_pin_pairing unix rand h)) \<le> hs_now h + (0 + ht_pin_response (sv_timeouts (hs_server h)))"
    unfolding step_pin_pairing_def
  proof (rule andThen_bound)
    show "hs_now (snd (send_message_generic (msg_code PIN_REQUEST) [] h)) \<le> hs_now h + 0" by (simp add: send_now)
  next
    fix x k
    assume "send_message_generic (msg_code PIN_REQUEST) [] h = (Inr x, k)"
    then have k: "hs_server k = hs_server h" by (auto simp: send_ok)
    show "hs_now (snd (andThen (\<lambda>h. read_step_message (ht_pin_response (sv_timeouts (hs_server h))) h)
        (\<lambda>msg. if fst msg \<noteq> msg_code PIN_RESPONSE \<or> length (snd msg) < 4 then (\<lambda>h. (Inl BadPinResponse, h))
          else andThen (server_verify unix rand (u32_of_le (take 4 (snd msg)))) (\<lambda>r.
            case r of
              Inl x \<Rightarrow> andThen (send_message_generic (msg_code PIN_RESULT) [0x00]) (\<lambda>_ h. (Inl PinRejected, h))
            | Inr x \<Rightarrow> send_message_generic (msg_code PIN_RESULT) [0x01])) k))
      \<le> hs_now k + ht_pin_response (sv_timeouts (hs_server h))"
      unfolding k [symmetric] by (rule 1 [OF 2])
  qed
  then show ?thesis by simp
qed

lemma timeouts_kept: "sv_timeouts (hs_server (snd (step_pin_pairing unix rand h))) = sv_timeouts (hs_server h)"
  using server_kept_pin [of unix rand h] by (cases "step_pin_pairing unix rand h") (auto simp: server_kept_def)

text \<open>
  No client, however slow or silent, keeps the server in a handshake for longer than the
  deadlines of the three messages it waits for: 50 seconds with the default timeouts.
\<close>
theorem handshake_bounded:
  "hs_now (snd (handle_handshake_generic unix rand (start_handshake now p sv)))
     \<le> now + (ht_step (sv_timeouts sv) + ht_pin_response (sv_timeouts sv) + ht_step (sv_timeouts sv))
   \<and> ht_step default_timeouts + ht_pin_response default_timeouts + ht_step default_timeouts = 50 * nanos_per_sec"
proof -
  let ?h0 = "start_handshake now p sv" and ?s = "ht_step (sv_timeouts sv)" and ?p = "ht_pin_response (sv_timeouts sv)"
  have tail: "hs_now (snd (andThen (\<lambda>h. step_stream_config (encode_stream_config (video (sv_config (hs_server h))) caps) h)
      (\<lambda>_ h. step_stream_start (ht_step (sv_timeouts (hs_server h))) h) k)) \<le> hs_now k + ht_step (sv_timeouts (hs_server k))"
    for caps k
    by (auto simp: andThen_def step_stream_config_def send_message_generic_def
        intro!: order_trans [OF start_bound])
  have pin: "hs_now (snd (andThen (step_pin_pairing unix rand) (\<lambda>_.
      andThen (\<lambda>h. step_stream_config (encode_stream_config (video (sv_config (hs_server h))) caps) h)
        (\<lambda>_ h. step_stream_start (ht_step (sv_timeouts (hs_server h))) h)) k))
      \<le> hs_now k + (ht_pin_response (sv_timeouts (hs_server k)) + ht_step (sv_timeouts (hs_server k)))" for caps k
  proof (rule andThen_bound [OF pin_bound])
    fix x j
    assume "step_pin_pairing unix rand k = (Inr x, j)"
    then have "sv_timeouts (hs_server j) = sv_timeouts (hs_server k)" using timeouts_kept [of unix rand k] by simp
    then show "hs_now (snd (andThen (\<lambda>h. step_stream_config (encode_stream_config (video (sv_config (hs_server h))) caps) h)
        (\<lambda>_ h. step_stream_start (ht_step (sv_timeouts (hs_server h))) h) j)) \<le> hs_now j + ht_step (sv_timeouts (hs_server k))"
      using tail [of caps j] by simp
  qed
  have "hs_now (snd (handle_handshake_generic unix rand ?h0)) \<le> hs_now ?h0 + (?s + (?p + ?s))"
    unfolding handshake_split
  proof (rule andThen_bound)
    show "hs_now (snd (step_hello_exchange (ht_step (sv_timeouts (hs_server ?h0))) ?h0)) \<le> hs_now ?h0 + ?s"
      using hello_bound [of ?s ?h0] by (simp add: start_handshake_def)
  next
    fix x k
    assume "step_hello_exchange (ht_step (sv_timeouts (hs_server ?h0))) ?h0 = (Inr x, k)"
    then have "hs_server k = sv" using hello_ok [of _ ?h0 x k] by (auto simp: start_handshake_def)
    then show "hs_now (snd (andThen (step_pin_pairing unix rand) (\<lambda>_.
      andThen (\<lambda>h. step_stream_config (encode_stream_config (video (sv_config (hs_server h))) x) h)
        (\<lambda>_ h. step_stream_start (ht_step (sv_timeouts (hs_server h))) h)) (with_caps x k))) \<le> hs_now k + (?p + ?s)"
      using pin [of x "with_caps x k"] by simp
  qed
  then show ?thesis by (simp add: start_handshake_def default_timeouts_def)
qed


section \<open>Honest clients get in, and stay the only ones\<close>

lemma read_ready:
  assumes "length p < MAX_MSG_LEN" and "map snd (pe_input (hs_peer h)) = frame_bytes mt p @ tail"
    and "\<forall>a \<in> set (pe_input (hs_peer h)). fst a \<le> hs_now h"
  shows "read_step_message limit h =
     (Inr (mt, p), h\<lparr>hs_peer := (hs_peer h)\<lparr>pe_input := drop (5 + length p) (pe_input (hs_peer h))\<rparr>\<rparr>)"
proof -
  have "foldl max (hs_now h) (map fst (take (5 + length p) (pe_input (hs_peer h)))) = hs_now h"
    using assms(3) by (intro foldl_max_const) (auto dest: in_set_takeD)
  then show ?thesis using frame_read [OF assms(1,2), of "hs_now h" "pe_close (hs_peer h)"]
    by (simp add: read_step_message_def)
qed

text \<open>A client that has sent everything, with the right PIN, and reads the answers.\<close>

definition honest :: "instant \<Rightarrow> server \<Rightarrow> peer \<Rightarrow> bool" where
  "honest t sv p \<longleftrightarrow> (\<exists>hello response start rest.
     map snd (pe_input p) = frame_bytes (msg_code HELLO) hello @ frame_bytes (msg_code PIN_RESPONSE) response
       @ frame_bytes (msg_code STREAM_START) start @ rest
     \<and> length hello < MAX_MSG_LEN \<and> length response < MAX_MSG_LEN \<and> length start < MAX_MSG_LEN
     \<and> 4 \<le> length response \<and> proven t sv (u32_of_le (take 4 response)))
   \<and> list_all (\<lambda>a. fst a \<le> t) (pe_input p) \<and> 4 \<le> pe_accepts p"

lemma verify_proven: "proven t sv pin \<Longrightarrow> fst (verify t us rand ok pin (sv_pairing sv)) = Inr ()"
  using verify_accepts_iff [of t us rand ok pin "fst (sv_pairing sv)" "snd (sv_pairing sv)"] by (simp add: proven_def)

lemma drop_frame:
  assumes "map snd inp = frame_bytes mt p @ tail"
  shows "map snd (drop (5 + length p) inp) = tail"
proof -
  have "map snd (drop (5 + length p) inp) = drop (5 + length p) (frame_bytes mt p @ tail)"
    unfolding drop_map [symmetric] assms ..
  then show ?thesis by simp
qed

lemma honest_handshake:
  assumes "honest t sv p"
  shows "\<exists>h. handle_handshake_generic unix rand (start_handshake t p sv) = (Inr (), h) \<and> hs_now h = t"
proof -
  obtain hello response start rest where f: "map snd (pe_input p) = frame_bytes (msg_code HELLO) hello
       @ frame_bytes (msg_code PIN_RESPONSE) response @ frame_bytes (msg_code STREAM_START) start @ rest"
     and l: "length hello < MAX_MSG_LEN" "length response < MAX_MSG_LEN" "length start < MAX_MSG_LEN"
     and r: "4 \<le> length response" "proven t sv (u32_of_le (take 4 response))"
     and w: "\<forall>a \<in> set (pe_input p). fst a \<le> t" "4 \<le> pe_accepts p"
    using assms unfolding honest_def list_all_iff by blast
  define i1 where "i1 = drop (5 + length hello) (pe_input p)"
  define i2 where "i2 = drop (5 + length response) i1"
  have m1: "map snd i1 = frame_bytes (msg_code PIN_RESPONSE) response @ frame_bytes (msg_code STREAM_START) start @ rest"
    unfolding i1_def by (rule drop_frame [OF f])
  have m2: "map snd i2 = frame_bytes (msg_code STREAM_START) start @ rest"
    unfolding i2_def by (rule drop_frame [OF m1])
  have t1: "\<forall>a \<in> set i1. fst a \<le> t" using w(1) by (auto simp: i1_def dest: in_set_dropD)
  have t2: "\<forall>a \<in> set i2. fst a \<le> t" using t1 by (auto simp: i2_def dest: in_set_dropD)
  have rd1: "read_step_message lim (start_handshake t p sv) =
      (Inr (msg_code HELLO, hello), (start_handshake t p sv)\<lparr>hs_peer := p\<lparr>pe_input := i1\<rparr>\<rparr>)" for lim
    using read_ready [OF l(1), of "start_handshake t p sv" "msg_code HELLO"] f w(1)
    by (simp add: start_handshake_def i1_def)
  have rd2: "read_step_message lim h = (Inr (msg_code PIN_RESPONSE, response), h\<lparr>hs_peer := p\<lparr>pe_input := i2\<rparr>\<rparr>)"
    if "hs_peer h = p\<lparr>pe_input := i1\<rparr>" "hs_now h = t" for lim h
    using read_ready [OF l(2), of h "msg_code PIN_RESPONSE"] m1 t1 that by (simp add: i2_def)
  have rd3: "read_step_message lim h = (Inr (msg_code STREAM_START, start), h\<lparr>hs_peer := p\<lparr>pe_input := drop (5 + length start) i2\<rparr>\<rparr>)"
    if "hs_peer h = p\<lparr>pe_input := i2\<rparr>" "hs_now h = t" for lim h
    using read_ready [OF l(3), of h "msg_code STREAM_START"] m2 t2 that by simp
  obtain sd where v: "verify t (unix t) rand (sv_disk_ok sv) (u32_of_le (take 4 response)) (sv_pairing sv) = (Inr (), sd)"
    using verify_proven [OF r(2)] by (metis prod.collapse)
  have nl: "\<not> length response < 4" using r(1) by simp
  have s0: "hs_server (start_handshake t p sv) = sv" "hs_sent (start_handshake t p sv) = []" "hs_now (start_handshake t p sv) = t"
    by (simp_all add: start_handshake_def)
  show ?thesis
    using w(2)
    by (simp add: handshake_split step_hello_exchange_def step_pin_pairing_def step_stream_config_def step_stream_start_def
        andThen_def rd1 rd2 rd3 s0 send_message_generic_def server_verify_def with_caps_def v nl Let_def)
qed

lemma listen_continue:
  "listen_loop unix n sv es = (None, sv') \<Longrightarrow> \<exists>n'. \<forall>fs. listen_loop unix n sv (es @ fs) = listen_loop unix n' sv' fs"
proof (induction unix n sv es rule: listen_loop.induct)
  case (1 unix n sv)
  then show ?case by auto
next
  case (2 unix n sv a es)
  let ?sv = "server_rotate (ac_now a) (ac_random a) sv"
  show ?case
  proof (cases "ac_event a")
    case PinTimer
    then show ?thesis using 2 by (simp add: Let_def)
  next
    case AcceptError
    then show ?thesis using 2 by (simp add: Let_def split: if_splits)
  next
    case (Incoming c)
    obtain ho sv1 where s: "serve_connection unix (ac_now a) c ?sv = (ho, sv1)" by fastforce
    show ?thesis
    proof (cases ho)
      case None
      then show ?thesis using 2(2) [OF refl Incoming s [symmetric] None] 2(4) Incoming s by (simp add: Let_def)
    next
      case (Some h)
      then show ?thesis using 2(4) Incoming s by (simp add: Let_def)
    qed
  qed
qed



text \<open>A listening server, an honest client after a port scanner and a silent one.\<close>

definition sample_server :: server where
  "sample_server = server_new default_config True 0 (clock 0 0) 123456 True None"

definition sample_peer :: peer where
  "sample_peer = \<lparr>pe_input = map (\<lambda>b. (0, b)) (frame_bytes (msg_code HELLO) [6, 0, 3]
       @ frame_bytes (msg_code PIN_RESPONSE) (u32_le 123456) @ frame_bytes (msg_code STREAM_START) []),
     pe_close = None, pe_accepts = 9\<rparr>"

definition silent_peer :: peer where
  "silent_peer = \<lparr>pe_input = [], pe_close = None, pe_accepts = 9\<rparr>"

lemma sample_pin: "proven t (server_rotate 2 8 (server_rotate 1 7 sample_server)) 123456"
  by (simp add: proven_def sample_server_def server_new_def pairing_new_def lockout_load_def is_locked_def
      server_rotate_def rotate_if_expired_def expires_in_def PIN_LIFETIME_SECONDS_def generate_pin_def)


lemma served_connection:
  assumes "serve_connection unix now c sv = (Some h, sv')"
  shows "\<exists>t k. authenticated t (in_peer c) sv k \<and> h = k\<lparr>hs_server := (hs_server k)\<lparr>sv_connected := True\<rparr>\<rparr>"
proof -
  obtain t k where k: "handle_handshake_generic unix (in_random c) (start_handshake t (in_peer c) sv) = (Inr (), k)"
      "h = k\<lparr>hs_server := (hs_server k)\<lparr>sv_connected := True\<rparr>\<rparr>"
    using assms by (auto simp: serve_connection_def Let_def split: option.splits prod.splits sum.splits)
  then show ?thesis using handshake_ok [OF k(1)] by blast
qed

lemma listen_result_cases:
  "listen_loop unix n sv es = (r, sv') \<Longrightarrow>
   (case r of
      None \<Rightarrow> True
    | Some (Connection h) \<Rightarrow> \<exists>t p sv0 k. authenticated t p sv0 k \<and> h = k\<lparr>hs_server := (hs_server k)\<lparr>sv_connected := True\<rparr>\<rparr>
    | Some ListenerBroken \<Rightarrow> 100 \<le> n + length (filter (\<lambda>a. ac_event a = AcceptError) es)
    | Some _ \<Rightarrow> False)"
proof (induction unix n sv es rule: listen_loop.induct)
  case (1 unix n sv)
  then show ?case by simp
next
  case (2 unix n sv a es)
  show ?case
  proof (cases "ac_event a")
    case PinTimer
    then show ?thesis using 2 by (auto simp: Let_def split: option.splits listen_result.splits)
  next
    case AcceptError
    then show ?thesis using 2 by (auto simp: Let_def MAX_CONSECUTIVE_ACCEPT_ERRORS_def split: if_splits option.splits listen_result.splits)
  next
    case (Incoming c)
    obtain ho sv1 where s: "serve_connection unix (ac_now a) c (server_rotate (ac_now a) (ac_random a) sv) = (ho, sv1)" by fastforce
    show ?thesis
    proof (cases ho)
      case None
      then show ?thesis using 2(2) [OF refl Incoming s [symmetric] None] 2(4) Incoming s
        by (auto simp: Let_def split: option.splits listen_result.splits)
    next
      case (Some h)
      then have "r = Some (Connection h)" using 2(4) Incoming s by (simp add: Let_def)
      moreover have "serve_connection unix (ac_now a) c (server_rotate (ac_now a) (ac_random a) sv) = (Some h, sv1)"
        using s Some by simp
      ultimately show ?thesis using served_connection by fastforce
    qed
  qed
qed

text \<open>
  C28. \<open>listen_and_accept\<close> returns a connection only if it has been authenticated, reports a broken
  listener only after at least 100 failed accepts, and refuses to listen at all without TLS.
\<close>
theorem listener_results:
  "case fst (listen_and_accept unix bind_ok sv es) of
     None \<Rightarrow> sv_tls_acceptor sv \<or> sv_allow_plaintext sv
   | Some (Connection h) \<Rightarrow> (\<exists>t p sv0 k. authenticated t p sv0 k \<and> h = k\<lparr>hs_server := (hs_server k)\<lparr>sv_connected := True\<rparr>\<rparr>)
   | Some ListenerBroken \<Rightarrow> 100 \<le> length (filter (\<lambda>a. ac_event a = AcceptError) es)
   | Some TlsUnavailable \<Rightarrow> \<not> sv_tls_acceptor sv
   | Some BindFailed \<Rightarrow> \<not> bind_ok"
  using listen_result_cases [of unix 0 sv es "fst (listen_loop unix 0 sv es)" "snd (listen_loop unix 0 sv es)"]
  by (auto simp: listen_and_accept_def split: option.splits listen_result.splits)

section \<open>STREAM_CONFIG\<close>

definition config_word :: "bytes \<Rightarrow> nat \<Rightarrow> nat" where
  "config_word payload i = unat (u32_of_le (take 4 (drop i payload)))"

lemma config_word_le: "n < 2 ^ 32 \<Longrightarrow> unat (of_nat n :: u32) = n"
  by (simp add: unat_of_nat)

lemma video_ok_sizes:
  assumes "video_ok v"
  shows "resolution_w v < 2 ^ 32" "resolution_h v < 2 ^ 32" "bitrate_mbps v < 2 ^ 32" "framerate v < 2 ^ 32"
    "0 < resolution_w v" "0 < resolution_h v" "even (resolution_w v)" "even (resolution_h v)"
    "resolution_w v \<le> 2 ^ 24" "resolution_h v \<le> 2 ^ 24"
  using assms by (auto simp: video_ok_def)

definition encoded_size :: "video_config \<Rightarrow> u8 \<Rightarrow> nat \<times> nat" where
  "encoded_size v caps = (if caps AND CAP_RESOLUTION_SCALE \<noteq> 0 \<and> resolution_scale v < Fin 1
     then compute_encoded_dims (resolution_w v) (resolution_h v) (resolution_scale v) 2
     else (resolution_w v, resolution_h v))"

lemma encoded_size_bounds:
  assumes "video_ok v"
  shows "fst (encoded_size v caps) \<le> resolution_w v \<and> snd (encoded_size v caps) \<le> resolution_h v
    \<and> even (fst (encoded_size v caps)) \<and> even (snd (encoded_size v caps))
    \<and> 2 \<le> fst (encoded_size v caps) \<and> 2 \<le> snd (encoded_size v caps)"
proof -
  note s = video_ok_sizes [OF assms]
  have "2 \<le> resolution_w v" "2 \<le> resolution_h v" using assms by (auto simp: video_ok_def)
  moreover have "fst (compute_encoded_dims (resolution_w v) (resolution_h v) (resolution_scale v) 2) \<le> resolution_w v
      \<and> snd (compute_encoded_dims (resolution_w v) (resolution_h v) (resolution_scale v) 2) \<le> resolution_h v
      \<and> even (fst (compute_encoded_dims (resolution_w v) (resolution_h v) (resolution_scale v) 2))
      \<and> even (snd (compute_encoded_dims (resolution_w v) (resolution_h v) (resolution_scale v) 2))
      \<and> 2 \<le> fst (compute_encoded_dims (resolution_w v) (resolution_h v) (resolution_scale v) 2)
      \<and> 2 \<le> snd (compute_encoded_dims (resolution_w v) (resolution_h v) (resolution_scale v) 2)"
    using encoded_dims [of 2 "resolution_w v" "resolution_h v" "resolution_scale v"] s
    by (auto simp: Let_def split_beta)
  ultimately show ?thesis using s by (simp add: encoded_size_def)
qed

lemma config_layout:
  "encode_stream_config v caps =
     u32_le (of_nat (resolution_w v)) @ u32_le (of_nat (resolution_h v)) @ u32_le (of_nat (bitrate_mbps v))
       @ u32_le (of_nat (framerate v)) @ [case codec v of H264 \<Rightarrow> 0 | H265 \<Rightarrow> 1]
       @ u32_le (of_nat (fst (encoded_size v caps))) @ u32_le (of_nat (snd (encoded_size v caps)))
       @ [STEREO_SIDE_BY_SIDE] @ [if caps AND CAP_FRAME_POSE \<noteq> 0 then 1 else 0]"
  by (simp add: encode_stream_config_def encoded_size_def Let_def split_beta)

text \<open>
  The STREAM_CONFIG of a validated configuration is 27 bytes from which a client reads back the
  render size, bitrate, frame rate and codec in the legacy 17-byte layout, and an encoded size that
  is even, never empty and never larger than the render size, and equal to it for a client that did
  not announce that it can upscale.
\<close>
theorem stream_config_readable:
  assumes "video_ok v"
  shows "let m = encode_stream_config v caps in
     length m = 27 \<and> config_word m 0 = resolution_w v \<and> config_word m 4 = resolution_h v
     \<and> config_word m 8 = bitrate_mbps v \<and> config_word m 12 = framerate v
     \<and> m ! 16 = (case codec v of H264 \<Rightarrow> 0 | H265 \<Rightarrow> 1)
     \<and> even (config_word m 17) \<and> even (config_word m 21) \<and> 2 \<le> config_word m 17 \<and> 2 \<le> config_word m 21
     \<and> config_word m 17 \<le> resolution_w v \<and> config_word m 21 \<le> resolution_h v
     \<and> (if caps AND CAP_RESOLUTION_SCALE = 0 then config_word m 17 = resolution_w v \<and> config_word m 21 = resolution_h v else True)
     \<and> m ! 25 = STEREO_SIDE_BY_SIDE \<and> (m ! 26 = 1 \<longleftrightarrow> caps AND CAP_FRAME_POSE \<noteq> 0)"
proof -
  note s = video_ok_sizes [OF assms] and e = encoded_size_bounds [OF assms, of caps]
  have e32: "fst (encoded_size v caps) < 2 ^ 32" "snd (encoded_size v caps) < 2 ^ 32" using e s(1,2) by linarith+
  let ?m = "encode_stream_config v caps"
  have w: "config_word ?m 0 = resolution_w v" "config_word ?m 4 = resolution_h v" "config_word ?m 8 = bitrate_mbps v"
      "config_word ?m 12 = framerate v" "config_word ?m 17 = fst (encoded_size v caps)"
      "config_word ?m 21 = snd (encoded_size v caps)"
    using config_word_le [OF s(1)] config_word_le [OF s(2)] config_word_le [OF s(3)] config_word_le [OF s(4)]
      config_word_le [OF e32(1)] config_word_le [OF e32(2)]
    by (simp_all add: config_word_def config_layout c32le.length_enc c32le.dec_enc)
  have b: "length ?m = 27" "?m ! 16 = (case codec v of H264 \<Rightarrow> 0 | H265 \<Rightarrow> 1)" "?m ! 25 = STEREO_SIDE_BY_SIDE"
      "?m ! 26 = (if caps AND CAP_FRAME_POSE \<noteq> 0 then 1 else 0)"
    by (simp_all add: config_layout c32le.length_enc nth_append)
  have "caps AND CAP_RESOLUTION_SCALE = 0 \<Longrightarrow> encoded_size v caps = (resolution_w v, resolution_h v)"
    by (simp add: encoded_size_def)
  then show ?thesis using e w b by (simp add: Let_def)
qed

theorem stream_config_readable_witness:
  "config_word (encode_stream_config default_video 2) 17 = 1832"
  using stream_config_readable [of default_video 2] default_video_ok
  by (simp add: Let_def CAP_RESOLUTION_SCALE_def default_video_def)

end
