(* ===== verification/Thermal.thy ===== *)
theory Thermal imports Config begin

text \<open>
  \<open>thermal.rs\<close>: the thermal governor, which lowers the bitrate ceiling in steps as the GPU heats up
  and ramps it back once it has cooled down. The temperature source is the argument \<open>temp\<close>
  (\<open>None\<close>: no reading), the clock the argument \<open>now\<close>; \<open>f64\<close> arithmetic rounds.
\<close>

section \<open>Governor\<close>

definition LIMIT_MULTIPLIER :: fl where "LIMIT_MULTIPLIER = f64_lit (70 / 100)"
definition EMERGENCY_MULTIPLIER :: fl where "EMERGENCY_MULTIPLIER = f64_lit (50 / 100)"

record recovery_state =
  rs_started_at :: instant
  rs_start_multiplier :: fl

record thermal_governor =
  tg_config :: thermal_config
  tg_last_poll :: "instant option"
  tg_last_multiplier :: fl
  tg_recovery :: "recovery_state option"

definition thermal_new :: "thermal_config \<Rightarrow> thermal_governor" where
  "thermal_new c = \<lparr>tg_config = c, tg_last_poll = None, tg_last_multiplier = Fin 1, tg_recovery = None\<rparr>"

text \<open>\<open>Duration::as_secs_f64\<close>.\<close>

definition as_secs_f64 :: "duration \<Rightarrow> fl" where
  "as_secs_f64 d = f_add b64 (f_of_nat b64 (d div nanos_per_sec))
     (f_div b64 (f_of_nat b64 (d mod nanos_per_sec)) (f_of_nat b64 nanos_per_sec))"

definition ramp_progress :: "nat \<Rightarrow> duration \<Rightarrow> fl" where
  "ramp_progress recovery_seconds elapsed =
     f_clamp (Fin 0) (Fin 1) (f_div b64 (as_secs_f64 elapsed) (f_of_nat b64 (max recovery_seconds 1)))"

definition ramp :: "fl \<Rightarrow> fl \<Rightarrow> fl" where
  "ramp start progress = f_add b64 start (f_mul b64 (f_sub b64 (Fin 1) start) progress)"

text \<open>The branch below \<open>warn_celsius\<close>: begin or continue the ramp.\<close>

definition cool_down :: "instant \<Rightarrow> thermal_governor \<Rightarrow> fl \<times> thermal_governor" where
  "cool_down now g =
     (let g = (if tg_last_multiplier g < Fin 1 \<and> tg_recovery g = None
               then g\<lparr>tg_recovery := Some \<lparr>rs_started_at = now, rs_start_multiplier = tg_last_multiplier g\<rparr>\<rparr> else g)
      in case tg_recovery g of
           Some r \<Rightarrow>
             let progress = ramp_progress (th_recovery_seconds (tg_config g)) (now - rs_started_at r);
                 m = ramp (rs_start_multiplier r) progress
             in if f_sub b64 (Fin 1) (epsilon b64) \<le> m then (Fin 1, g\<lparr>tg_recovery := None\<rparr>) else (m, g)
         | None \<Rightarrow> (Fin 1, g))"

definition thermal_multiplier :: "instant \<Rightarrow> nat \<Rightarrow> thermal_governor \<Rightarrow> fl \<times> thermal_governor" where
  "thermal_multiplier now temp g =
     (let c = tg_config g in
      if th_emergency c \<le> temp then (EMERGENCY_MULTIPLIER, g\<lparr>tg_recovery := None\<rparr>)
      else if th_limit c \<le> temp then (LIMIT_MULTIPLIER, g\<lparr>tg_recovery := None\<rparr>)
      else if th_warn c \<le> temp then (tg_last_multiplier g, g\<lparr>tg_recovery := None\<rparr>)
      else cool_down now g)"

definition thermal_tick :: "instant \<Rightarrow> nat option \<Rightarrow> thermal_governor \<Rightarrow> fl option \<times> thermal_governor" where
  "thermal_tick now temp g =
     (if \<not> th_enabled (tg_config g) then (Some (Fin 1), g\<lparr>tg_last_multiplier := Fin 1, tg_recovery := None\<rparr>)
      else if (case tg_last_poll g of
                 Some prev \<Rightarrow> now - prev < th_poll_seconds (tg_config g) * nanos_per_sec
               | None \<Rightarrow> False) then (None, g)
      else let g = g\<lparr>tg_last_poll := Some now\<rparr> in
           case temp of
             None \<Rightarrow> (Some (Fin 1), g\<lparr>tg_last_multiplier := Fin 1\<rparr>)
           | Some t \<Rightarrow>
               let (multiplier, g) = thermal_multiplier now t g
               in (Some multiplier, g\<lparr>tg_last_multiplier := multiplier\<rparr>))"

definition apply_ceiling :: "thermal_governor \<Rightarrow> nat \<Rightarrow> nat" where
  "apply_ceiling g base_bitrate_bps = f_as_u64 (f_mul b64 (f_of_nat b64 base_bitrate_bps) (tg_last_multiplier g))"

section \<open>The ramp\<close>

text \<open>The multipliers a governor can hold.\<close>

definition cap_value :: "fl \<Rightarrow> bool" where
  "cap_value m \<longleftrightarrow> (\<exists>r. m = Fin r \<and> 1 / 2 \<le> r \<and> r \<le> 1 \<and> is_float b64 r)"

lemma cap_value_Fin: "cap_value (Fin r) \<longleftrightarrow> 1 / 2 \<le> r \<and> r \<le> 1 \<and> is_float b64 r"
  by (simp add: cap_value_def)

lemma multipliers: "EMERGENCY_MULTIPLIER = Fin (1 / 2)" "LIMIT_MULTIPLIER = Fin (3152519739159347 / 4503599627370496)"
  by code_simp+

lemma half_float: "is_float b64 (1 / 2)"
  by code_simp

lemma limit_float: "is_float b64 (3152519739159347 / 4503599627370496)"
  by code_simp

lemma cap_values: "cap_value (Fin 1)" "cap_value EMERGENCY_MULTIPLIER" "cap_value LIMIT_MULTIPLIER"
  unfolding multipliers cap_value_Fin using half_float limit_float fmt64.is_float_1 by simp_all

definition tiny :: rat where "tiny = 1 / 2 ^ 54"

lemma nearly_one: "rnd b64 (1 + tiny) = Fin 1" "rnd b64 (1 - tiny) = Fin 1" "f_sub b64 (Fin 1) (epsilon b64) \<le> Fin 1"
    "pow2 (- 1 - (prec b64 - 1)) / 2 = tiny" "qmin b64 \<le> - 1 - (prec b64 - 1)"
  by code_simp+

lemma one_minus:
  assumes "1 / 2 \<le> a" and "a \<le> 1" and "is_float b64 a"
  obtains d where "rnd b64 (1 - a) = Fin d" "0 \<le> d" "is_float b64 d" "1 - tiny \<le> a + d" "a + d \<le> 1 + tiny"
proof -
  obtain d where d: "rnd b64 (1 - a) = Fin d" "0 \<le> d" "is_float b64 d"
    using fmt64.rnd_between [OF fmt64.is_float_0 half_float, of "1 - a"] assms by auto
  have "\<bar>d - (1 - a)\<bar> \<le> tiny"
    using fmt64.rnd_error_below [OF d(1), of "- 1"] assms(1,2) nearly_one(5) unfolding nearly_one(4) by simp
  then have "1 - tiny \<le> a + d" "a + d \<le> 1 + tiny" by (simp_all only: abs_le_iff) linarith+
  then show ?thesis using that d by blast
qed

lemma ramp_bounds:
  assumes "cap_value (Fin a)" and "0 \<le> p" and "p \<le> 1"
  obtains m where "ramp (Fin a) (Fin p) = Fin m" "a \<le> m" "m \<le> 1" "is_float b64 m"
proof -
  have a: "1 / 2 \<le> a" "a \<le> 1" "is_float b64 a" using assms(1) by (simp_all add: cap_value_Fin)
  obtain d where d: "rnd b64 (1 - a) = Fin d" "0 \<le> d" "is_float b64 d" "a + d \<le> 1 + tiny"
    using one_minus [OF a] by blast
  have "0 \<le> d * p" "d * p \<le> d" using assms(2,3) d(2) by (simp_all add: mult_left_le)
  then obtain e where e: "rnd b64 (d * p) = Fin e" "0 \<le> e" "e \<le> d"
    using fmt64.rnd_between [OF fmt64.is_float_0 d(3)] by blast
  have "rnd b64 a \<le> rnd b64 (a + e)" using e(2) by (intro fmt64.rnd_mono) simp
  moreover have "rnd b64 (a + e) \<le> rnd b64 (1 + tiny)" using e(3) d(4) by (intro fmt64.rnd_mono) simp
  ultimately obtain m where m: "rnd b64 (a + e) = Fin m" "a \<le> m" "m \<le> 1"
    using a(3) by (cases "rnd b64 (a + e)") (auto simp: is_float_def nearly_one)
  moreover have "ramp (Fin a) (Fin p) = rnd b64 (a + e)" by (simp add: ramp_def d(1) e(1))
  ultimately show ?thesis using that fmt64.rnd_is_float by metis
qed

lemma ramp_mono:
  assumes "cap_value (Fin a)" and "0 \<le> p" and "p \<le> q" and "q \<le> 1"
  shows "ramp (Fin a) (Fin p) \<le> ramp (Fin a) (Fin q)"
proof -
  have a: "1 / 2 \<le> a" "a \<le> 1" "is_float b64 a" using assms(1) by (simp_all add: cap_value_Fin)
  obtain d where d: "rnd b64 (1 - a) = Fin d" "0 \<le> d" "is_float b64 d" using one_minus [OF a] by blast
  have "0 \<le> d * p" "d * p \<le> d" "0 \<le> d * q" "d * q \<le> d" using assms(2-4) d(2) by (simp_all add: mult_left_le)
  then obtain e f where e: "rnd b64 (d * p) = Fin e" and f: "rnd b64 (d * q) = Fin f"
    using fmt64.rnd_between [OF fmt64.is_float_0 d(3)] by meson
  have "rnd b64 (d * p) \<le> rnd b64 (d * q)" using assms(3) d(2) by (intro fmt64.rnd_mono mult_left_mono)
  then have "e \<le> f" using e f by simp
  then show ?thesis using e f d(1) by (simp add: ramp_def fmt64.rnd_mono)
qed

lemma ramp_full:
  assumes "cap_value (Fin a)"
  shows "ramp (Fin a) (Fin 1) = Fin 1"
proof -
  have a: "1 / 2 \<le> a" "a \<le> 1" "is_float b64 a" using assms(1) by (simp_all add: cap_value_Fin)
  obtain d where d: "rnd b64 (1 - a) = Fin d" "is_float b64 d" "1 - tiny \<le> a + d" "a + d \<le> 1 + tiny"
    using one_minus [OF a] by blast
  have "rnd b64 (1 - tiny) \<le> rnd b64 (a + d)" "rnd b64 (a + d) \<le> rnd b64 (1 + tiny)"
    using d(3,4) by (auto intro!: fmt64.rnd_mono)
  then have "rnd b64 (a + d) = Fin 1" unfolding nearly_one by (cases "rnd b64 (a + d)") auto
  then show ?thesis using d(1,2) by (simp add: ramp_def is_float_def)
qed



lemma secs_exact: "n < 2 ^ 32 \<Longrightarrow> f_of_nat b64 n = Fin (of_nat n)"
  using fmt64.is_float_int [of "int n"] by (simp add: is_float_def b64_def)

lemma secs_float: "n < 2 ^ 32 \<Longrightarrow> is_float b64 (of_nat n)"
  using secs_exact by (simp add: is_float_def)

lemma rnd_ge: "is_float b64 k \<Longrightarrow> k \<le> x \<Longrightarrow> Fin k \<le> rnd b64 x"
  using fmt64.rnd_mono [of k x] by (simp add: is_float_def)

lemma add_ge: "is_float b64 k \<Longrightarrow> Fin k \<le> x \<Longrightarrow> Fin 0 \<le> y \<Longrightarrow> Fin k \<le> f_add b64 x y"
  by (cases x; cases y) (auto intro: rnd_ge)

lemma div_ge: "is_float b64 k \<Longrightarrow> Fin (k * c) \<le> x \<Longrightarrow> 0 < c \<Longrightarrow> Fin k \<le> f_div b64 x (Fin c)"
  by (cases x) (auto simp: f_div_def inf_of_sign_def pos_le_divide_eq intro: rnd_ge)

lemma as_secs_ge:
  assumes "n < 2 ^ 32" and "n * nanos_per_sec \<le> d"
  shows "Fin (of_nat n) \<le> as_secs_f64 d"
proof -
  have b: "f_of_nat b64 nanos_per_sec = Fin (of_nat nanos_per_sec)" by (rule secs_exact) simp
  have "n \<le> d div nanos_per_sec" using assms(2) by (simp add: less_eq_div_iff_mult_less_eq)
  then have "(of_nat n :: rat) \<le> of_nat (d div nanos_per_sec)" by (simp only: of_nat_le_iff)
  then have 1: "Fin (of_nat n) \<le> f_of_nat b64 (d div nanos_per_sec)" by (rule rnd_ge [OF secs_float [OF assms(1)]])
  have "Fin 0 \<le> f_of_nat b64 (d mod nanos_per_sec)" by (rule rnd_ge) simp_all
  then have 2: "Fin 0 \<le> f_div b64 (f_of_nat b64 (d mod nanos_per_sec)) (f_of_nat b64 nanos_per_sec)"
    unfolding b by (intro div_ge) simp_all
  show ?thesis unfolding as_secs_f64_def by (rule add_ge [OF secs_float [OF assms(1)] 1 2])
qed

lemma clamp_unit: "Fin 0 \<le> x \<Longrightarrow> \<exists>p. f_clamp (Fin 0) (Fin 1) x = Fin p \<and> 0 \<le> p \<and> p \<le> 1"
  by (cases x) (auto simp: f_clamp_def)

lemma progress_unit:
  assumes "n < 2 ^ 32"
  obtains p where "ramp_progress n e = Fin p" "0 \<le> p" "p \<le> 1"
proof -
  have c: "f_of_nat b64 (max n 1) = Fin (of_nat (max n 1))" using assms by (intro secs_exact) simp
  have "Fin 0 \<le> f_div b64 (as_secs_f64 e) (f_of_nat b64 (max n 1))"
    unfolding c using as_secs_ge [of 0 e] by (intro div_ge) simp_all
  then show ?thesis using that clamp_unit unfolding ramp_progress_def by blast
qed

lemma progress_full:
  assumes "n < 2 ^ 32" and "max n 1 * nanos_per_sec \<le> e"
  shows "ramp_progress n e = Fin 1"
proof -
  have m: "max n 1 < 2 ^ 32" using assms(1) by simp
  have c: "f_of_nat b64 (max n 1) = Fin (of_nat (max n 1))" by (rule secs_exact [OF m])
  have "(0 :: rat) < of_nat (max n 1)" by simp
  then have "Fin 1 \<le> f_div b64 (as_secs_f64 e) (f_of_nat b64 (max n 1))"
    unfolding c using as_secs_ge [OF m assms(2)] by (intro div_ge) simp_all
  then show ?thesis unfolding ramp_progress_def
    by (cases "f_div b64 (as_secs_f64 e) (f_of_nat b64 (max n 1))") (auto simp: f_clamp_def)
qed

section \<open>Invariant\<close>

definition thermal_inv :: "thermal_governor \<Rightarrow> bool" where
  "thermal_inv g \<longleftrightarrow> cap_value (tg_last_multiplier g) \<and> th_recovery_seconds (tg_config g) < 2 ^ 32
     \<and> (case tg_recovery g of None \<Rightarrow> True
        | Some r \<Rightarrow> cap_value (rs_start_multiplier r)
            \<and> (case tg_last_poll g of Some p \<Rightarrow> rs_started_at r \<le> p | None \<Rightarrow> False))"

lemma thermal_new_inv: "th_recovery_seconds c < 2 ^ 32 \<Longrightarrow> thermal_inv (thermal_new c)"
  by (simp add: thermal_inv_def thermal_new_def cap_values)

lemma ramp_cap:
  assumes "cap_value s" and "n < 2 ^ 32"
  shows "cap_value (ramp s (ramp_progress n e))"
proof -
  obtain a where a: "s = Fin a" "1 / 2 \<le> a" using assms(1) by (auto simp: cap_value_def)
  obtain p where p: "ramp_progress n e = Fin p" "0 \<le> p" "p \<le> 1" using progress_unit [OF assms(2)] by blast
  obtain m where "ramp (Fin a) (Fin p) = Fin m" "a \<le> m" "m \<le> 1" "is_float b64 m"
    using ramp_bounds [of a p] assms(1) p a by auto
  then show ?thesis using a p by (simp add: cap_value_Fin)
qed

definition polled :: "instant \<Rightarrow> thermal_governor \<Rightarrow> bool" where
  "polled now g \<longleftrightarrow> thermal_inv g \<and> tg_last_poll g = Some now"

lemma cool_down_inv:
  assumes "polled now g" and "cool_down now g = (m, g')"
  shows "cap_value m \<and> polled now (g'\<lparr>tg_last_multiplier := m\<rparr>) \<and> tg_config g' = tg_config g"
proof -
  have inv: "cap_value (tg_last_multiplier g)" "th_recovery_seconds (tg_config g) < 2 ^ 32" "tg_last_poll g = Some now"
      "\<And>r. tg_recovery g = Some r \<Longrightarrow> cap_value (rs_start_multiplier r) \<and> rs_started_at r \<le> now"
    using assms(1) by (auto simp: polled_def thermal_inv_def)
  show ?thesis
    using assms(2) inv cap_values(1) ramp_cap
    by (auto simp: cool_down_def Let_def polled_def thermal_inv_def split: if_splits option.splits)
qed

lemma multiplier_inv:
  assumes "polled now g" and "thermal_multiplier now t g = (m, g')"
  shows "cap_value m \<and> polled now (g'\<lparr>tg_last_multiplier := m\<rparr>) \<and> tg_config g' = tg_config g"
  using assms cool_down_inv [of now g m g'] cap_values
  by (auto simp: thermal_multiplier_def Let_def polled_def thermal_inv_def split: if_splits)

lemma tick_inv:
  assumes "thermal_inv g" and "1 \<le> th_poll_seconds (tg_config g)" and "thermal_tick now temp g = (r, g')"
  shows "thermal_inv g' \<and> tg_config g' = tg_config g \<and> (case r of None \<Rightarrow> True | Some m \<Rightarrow> cap_value m)"
proof -
  let ?due = "\<not> (case tg_last_poll g of Some prev \<Rightarrow> now - prev < th_poll_seconds (tg_config g) * nanos_per_sec | None \<Rightarrow> False)"
  have p: "polled now (g\<lparr>tg_last_poll := Some now\<rparr>)" if ?due
  proof -
    have "prev \<le> now" if "tg_last_poll g = Some prev" for prev
      using that \<open>?due\<close> assms(2) by (cases "prev \<le> now") auto
    then show ?thesis using assms(1)
      by (auto simp: polled_def thermal_inv_def split: option.splits intro: order_trans)
  qed
  show ?thesis
  proof (cases temp)
    case None
    then show ?thesis using assms p cap_values(1)
      by (auto simp: thermal_tick_def Let_def thermal_inv_def polled_def split: if_splits option.splits)
  next
    case (Some t)
    obtain m g1 where m: "thermal_multiplier now t (g\<lparr>tg_last_poll := Some now\<rparr>) = (m, g1)" by fastforce
    show ?thesis
    proof (cases "th_enabled (tg_config g) \<and> ?due")
      case True
      then have "r = Some m" "g' = g1\<lparr>tg_last_multiplier := m\<rparr>" using assms(3) Some m by (auto simp: thermal_tick_def)
      then show ?thesis using multiplier_inv [OF p m] True by (simp add: polled_def)
    next
      case False
      then show ?thesis using assms cap_values(1)
        by (auto simp: thermal_tick_def Let_def thermal_inv_def split: if_splits)
    qed
  qed
qed

definition thermal_run :: "thermal_config \<Rightarrow> (instant \<times> nat option) list \<Rightarrow> thermal_governor" where
  "thermal_run c ticks = foldl (\<lambda>g (now, temp). snd (thermal_tick now temp g)) (thermal_new c) ticks"

lemma thermal_run_inv:
  assumes "th_recovery_seconds c < 2 ^ 32" and "1 \<le> th_poll_seconds c"
  shows "thermal_inv (thermal_run c ticks) \<and> tg_config (thermal_run c ticks) = c"
proof (induction ticks rule: rev_induct)
  case Nil
  then show ?case using thermal_new_inv assms by (simp add: thermal_run_def thermal_new_def)
next
  case (snoc t ticks)
  obtain now temp r g' where t: "t = (now, temp)" "thermal_tick now temp (thermal_run c ticks) = (r, g')"
    by (cases t; cases "thermal_tick (fst t) (snd t) (thermal_run c ticks)") auto
  then have "thermal_run c (ticks @ [t]) = g'" by (simp add: thermal_run_def)
  then show ?case using tick_inv [OF _ _ t(2)] snoc assms(2) by simp
qed

text \<open>
  Whatever the temperatures and polling times, the governor's multiplier lies between 50 % and
  100 %, is 50 % at the emergency threshold and above, and 70 % from the limit on; the bitrate ceiling
  it yields never exceeds the base bitrate.
\<close>
theorem thermal_caps:
  assumes "th_recovery_seconds c < 2 ^ 32" and "1 \<le> th_poll_seconds c" and "base < 2 ^ 53"
  shows "case thermal_tick now temp (thermal_run c ticks) of (r, g) \<Rightarrow>
     Fin (1 / 2) \<le> tg_last_multiplier g \<and> tg_last_multiplier g \<le> Fin 1 \<and> apply_ceiling g base \<le> base
     \<and> (case (r, temp) of
          (Some m, Some t) \<Rightarrow> m = tg_last_multiplier g
            \<and> (if th_enabled c then if th_emergency c \<le> t then m = EMERGENCY_MULTIPLIER
                 else if th_limit c \<le> t then m = LIMIT_MULTIPLIER else True
               else m = Fin 1)
        | _ \<Rightarrow> True)"
proof -
  obtain r g where t: "thermal_tick now temp (thermal_run c ticks) = (r, g)" by fastforce
  have inv: "thermal_inv g" "tg_config g = c" "tg_config (thermal_run c ticks) = c"
    using tick_inv [OF _ _ t] thermal_run_inv [OF assms(1,2)] assms(2) by auto
  obtain a where a: "tg_last_multiplier g = Fin a" "1 / 2 \<le> a" "a \<le> 1"
    using inv(1) by (auto simp: thermal_inv_def cap_value_def)
  have fb: "is_float b64 (of_nat base)" using fmt64.is_float_int [of "int base"] assms(3) by (simp add: b64_def)
  have "of_nat base * a \<le> of_nat base" "0 \<le> of_nat base * a" using a by (simp_all add: mult_left_le)
  then obtain x where x: "rnd b64 (of_nat base * a) = Fin x" "0 \<le> x" "x \<le> of_nat base"
    using fmt64.rnd_between [OF fmt64.is_float_0 fb] by blast
  have "\<lfloor>x\<rfloor> \<le> int base" using x(3) by (simp add: floor_le_iff)
  then have "apply_ceiling g base \<le> base"
    using fb x a by (auto simp: apply_ceiling_def is_float_def f_as_u64_def trunc_rat_def)
  moreover have "case (r, temp) of
          (Some m, Some t) \<Rightarrow> m = tg_last_multiplier g
            \<and> (if th_enabled c then if th_emergency c \<le> t then m = EMERGENCY_MULTIPLIER
                 else if th_limit c \<le> t then m = LIMIT_MULTIPLIER else True
               else m = Fin 1)
        | _ \<Rightarrow> True"
    using t inv(3) by (auto simp: thermal_tick_def thermal_multiplier_def Let_def split_beta split: option.splits if_splits)
  ultimately show ?thesis using t a by simp
qed

theorem thermal_caps_witness:
  "fst (thermal_tick 7000000000 (Some 91) (thermal_run (default_thermal\<lparr>th_enabled := True\<rparr>) [(1000000000, Some 60)]))
     = Some EMERGENCY_MULTIPLIER"
  using thermal_caps [where c = "default_thermal\<lparr>th_enabled := True\<rparr>" and base = 80000000 and now = 7000000000
      and temp = "Some 91" and ticks = "[(1000000000, Some 60)]"]
  by (auto simp: default_thermal_def thermal_run_def thermal_new_def thermal_tick_def thermal_multiplier_def
      cool_down_def Let_def)

text \<open>A temperature below every threshold.\<close>

definition cool :: "thermal_config \<Rightarrow> nat \<Rightarrow> bool" where
  "cool c t \<longleftrightarrow> t < th_warn c \<and> t < th_limit c \<and> t < th_emergency c"

lemma cool_tick:
  assumes "thermal_inv g" and "th_enabled (tg_config g)" and "cool (tg_config g) t"
    and "fst (thermal_tick now (Some t) g) \<noteq> None"
  shows "thermal_tick now (Some t) g = (let (m, g') = cool_down now (g\<lparr>tg_last_poll := Some now\<rparr>) in (Some m, g'\<lparr>tg_last_multiplier := m\<rparr>))"
  using assms by (auto simp: thermal_tick_def thermal_multiplier_def cool_def Let_def split: option.splits if_splits)

lemma cool_down_cases:
  assumes "thermal_inv g" and "cool_down now g = (m, g')"
  shows "tg_recovery g' = None \<and> m = Fin 1
    \<or> (\<exists>r. tg_recovery g' = Some r \<and> (tg_recovery g = Some r \<or> rs_started_at r = now))"
  using assms by (auto simp: cool_down_def Let_def split: if_splits option.splits)

lemma cool_down_full:
  assumes "thermal_inv g" and "\<And>r. tg_recovery g = Some r \<Longrightarrow> rs_started_at r + max (th_recovery_seconds (tg_config g)) 1 * nanos_per_sec \<le> now"
    and "tg_recovery g \<noteq> None \<or> \<not> tg_last_multiplier g < Fin 1"
  shows "fst (cool_down now g) = Fin 1"
proof (cases "tg_recovery g")
  case None
  then show ?thesis using assms(3) by (simp add: cool_down_def Let_def)
next
  case (Some r)
  obtain a where a: "rs_start_multiplier r = Fin a" "cap_value (Fin a)"
    using assms(1) Some by (auto simp: thermal_inv_def cap_value_def)
  have "ramp_progress (th_recovery_seconds (tg_config g)) (now - rs_started_at r) = Fin 1"
    using assms(1,2) Some by (intro progress_full) (auto simp: thermal_inv_def)
  then show ?thesis using Some a ramp_full [OF a(2)] by (simp add: cool_down_def Let_def)
qed

text \<open>
  C32. The cap is always lifted again: from every state the governor can reach, two readings below
  all thresholds that are at least \<open>recovery_seconds\<close> apart bring the multiplier back to 100 %.
\<close>
theorem thermal_recovers:
  assumes "th_recovery_seconds c < 2 ^ 32" and "1 \<le> th_poll_seconds c" and "th_enabled c"
    and "cool c t" and "cool c u"
    and "fst (thermal_tick t0 (Some t) (thermal_run c ticks)) \<noteq> None"
    and "fst (thermal_tick t1 (Some u) (thermal_run c (ticks @ [(t0, Some t)]))) \<noteq> None"
    and "t0 + max (th_recovery_seconds c) 1 * nanos_per_sec \<le> t1"
  shows "fst (thermal_tick t1 (Some u) (thermal_run c (ticks @ [(t0, Some t)]))) = Some (Fin 1)"
proof -
  let ?g0 = "thermal_run c ticks" and ?g1 = "thermal_run c (ticks @ [(t0, Some t)])"
  have i0: "thermal_inv ?g0" "tg_config ?g0 = c" and i1: "thermal_inv ?g1" "tg_config ?g1 = c"
    using thermal_run_inv [OF assms(1,2)] by auto
  obtain m g' where m: "cool_down t0 (?g0\<lparr>tg_last_poll := Some t0\<rparr>) = (m, g')" by fastforce
  have s: "thermal_tick t0 (Some t) ?g0 = (Some m, g'\<lparr>tg_last_multiplier := m\<rparr>)"
    using cool_tick [of ?g0 t t0] i0 assms(3,4,6) m by simp
  then have g1: "?g1 = g'\<lparr>tg_last_multiplier := m\<rparr>" by (simp add: thermal_run_def)
  have due: "case tg_last_poll ?g0 of Some prev \<Rightarrow> prev \<le> t0 | None \<Rightarrow> True"
  proof (cases "tg_last_poll ?g0")
    case (Some prev)
    have "\<not> t0 - prev < th_poll_seconds c * nanos_per_sec" using s Some i0(2) assms(3) by (auto simp: thermal_tick_def split: if_splits)
    then show ?thesis using Some assms(2) by (cases "prev \<le> t0") auto
  qed simp
  have start: "rs_started_at r \<le> t0" if "tg_recovery ?g0 = Some r" for r
    using i0(1) that due by (auto simp: thermal_inv_def split: option.splits)
  have inv0: "thermal_inv (?g0\<lparr>tg_last_poll := Some t0\<rparr>)"
    using i0(1) start by (auto simp: thermal_inv_def split: option.splits)
  have c: "tg_recovery g' = None \<and> m = Fin 1
    \<or> (\<exists>r. tg_recovery g' = Some r \<and> (tg_recovery ?g0 = Some r \<or> rs_started_at r = t0))"
    using cool_down_cases [OF inv0 m] by simp
  have "fst (cool_down t1 (?g1\<lparr>tg_last_poll := Some t1\<rparr>)) = Fin 1"
  proof (rule cool_down_full)
    show "thermal_inv (?g1\<lparr>tg_last_poll := Some t1\<rparr>)"
    proof -
      have "rs_started_at r \<le> t1" if "tg_recovery ?g1 = Some r" for r using c g1 that start assms(8) by fastforce
      then show ?thesis using i1(1) by (auto simp: thermal_inv_def split: option.splits)
    qed
    show "\<And>r. tg_recovery (?g1\<lparr>tg_last_poll := Some t1\<rparr>) = Some r \<Longrightarrow>
        rs_started_at r + max (th_recovery_seconds (tg_config (?g1\<lparr>tg_last_poll := Some t1\<rparr>))) 1 * nanos_per_sec \<le> t1"
      using c g1 start assms(8) i1(2) by fastforce
    show "tg_recovery (?g1\<lparr>tg_last_poll := Some t1\<rparr>) \<noteq> None \<or> \<not> tg_last_multiplier (?g1\<lparr>tg_last_poll := Some t1\<rparr>) < Fin 1"
      using c g1 by auto
  qed
  then show ?thesis using cool_tick [of ?g1 u t1] i1 assms(3,5,7) by (simp add: split_beta)
qed

lemma cool_down_keeps: "tg_last_poll (snd (cool_down now g)) = tg_last_poll g" "tg_config (snd (cool_down now g)) = tg_config g"
  by (auto simp: cool_down_def Let_def split: option.split)

theorem thermal_recovers_witness:
  "fst (thermal_tick 40000000000 (Some 50) (thermal_run (default_thermal\<lparr>th_enabled := True\<rparr>)
      ([(0, Some 95)] @ [(5000000000, Some 60)]))) = Some (Fin 1)"
  by (rule thermal_recovers)
    (simp_all add: default_thermal_def cool_def thermal_run_def thermal_new_def thermal_tick_def thermal_multiplier_def
      Let_def split_beta cool_down_keeps)

end
