(* ===== verification/Tracking.thy ===== *)
theory Tracking imports Protocol begin

text \<open>
  \<open>tracking/receiver.rs\<close> and \<open>sleep_mode.rs\<close>: the filtering and parsing of tracking datagrams, and
  the detection of inactivity. Float fields keep their 32 bits; an address is an IPv4 or IPv6 word. A
  datagram larger than the 2048-byte buffer arrives truncated. The calls of the driver's gaze callback
  are collected in the state.
\<close>

section \<open>Packets\<close>

record tracking_data =
  td_position :: "u32 list"
  td_orientation :: "u32 list"
  td_timestamp_ns :: u64
  td_gaze_x :: u32
  td_gaze_y :: u32
  td_gaze_valid :: u8

record controller_state =
  ct_controller_id :: u8
  ct_timestamp_ns :: u64
  ct_position :: "u32 list"
  ct_orientation :: "u32 list"
  ct_trigger :: u32
  ct_grip :: u32
  ct_thumbstick_x :: u32
  ct_thumbstick_y :: u32
  ct_button_flags :: u32
  ct_battery_level :: u8

definition PACKET_HEAD_POSE :: u8 where "PACKET_HEAD_POSE = 0x01"
definition PACKET_CONTROLLER :: u8 where "PACKET_CONTROLLER = 0x02"

definition f32_at :: "bytes \<Rightarrow> nat \<Rightarrow> u32" where
  "f32_at d i = u32_of_le (sub_range d i (i + 4))"

text \<open>The bits of \<open>0.5f32\<close>.\<close>

definition GAZE_CENTER :: u32 where "GAZE_CENTER = 0x3F000000"

definition parse_head_pose :: "bytes \<Rightarrow> tracking_data option" where
  "parse_head_pose d =
     (if length d < 36 then None
      else let (gaze_x, gaze_y, gaze_valid) =
                 (if 45 \<le> length d then (f32_at d 36, f32_at d 40, d ! 44) else (GAZE_CENTER, GAZE_CENTER, 0))
           in Some \<lparr>td_position = [f32_at d 8, f32_at d 12, f32_at d 16],
                td_orientation = [f32_at d 20, f32_at d 24, f32_at d 28, f32_at d 32],
                td_timestamp_ns = u64_of_le (sub_range d 0 8),
                td_gaze_x = gaze_x, td_gaze_y = gaze_y, td_gaze_valid = gaze_valid\<rparr>)"

definition parse_controller :: "bytes \<Rightarrow> controller_state option" where
  "parse_controller d =
     (if length d < 53 then None
      else Some \<lparr>ct_controller_id = d ! 0, ct_timestamp_ns = u64_of_le (sub_range d 1 9),
        ct_position = [f32_at d 9, f32_at d 13, f32_at d 17],
        ct_orientation = [f32_at d 21, f32_at d 25, f32_at d 29, f32_at d 33],
        ct_trigger = f32_at d 37, ct_grip = f32_at d 41, ct_thumbstick_x = f32_at d 45, ct_thumbstick_y = f32_at d 49,
        ct_button_flags = (if 57 \<le> length d then f32_at d 53 else 0),
        ct_battery_level = (if 58 \<le> length d then d ! 57 else 100)\<rparr>)"

section \<open>Sources\<close>

datatype ip_addr = V4 u32 | V6 "128 word"

text \<open>\<open>IpAddr::to_canonical\<close>: an IPv4-mapped IPv6 address is the IPv4 address.\<close>

fun to_canonical :: "ip_addr \<Rightarrow> ip_addr" where
  "to_canonical (V4 a) = V4 a"
| "to_canonical (V6 a) = (if drop_bit 32 a = 0xFFFF then V4 (ucast a) else V6 a)"

definition is_paired_hmd :: "ip_addr option \<Rightarrow> ip_addr \<Rightarrow> bool" where
  "is_paired_hmd session src = (case session of Some ip \<Rightarrow> to_canonical ip = to_canonical src | None \<Rightarrow> False)"

section \<open>Receiver\<close>

record tracking_state =
  tk_head :: "tracking_data option"
  tk_controllers :: "(controller_state \<times> instant) option list"
  tk_gaze :: "(u32 \<times> u32) list"
  tk_rejected :: nat
  tk_recv_errors :: nat

datatype recv_event = RecvError | Datagram ip_addr bytes

definition tracking_new :: tracking_state where
  "tracking_new = \<lparr>tk_head = None, tk_controllers = [None, None], tk_gaze = [], tk_rejected = 0, tk_recv_errors = 0\<rparr>"

definition accept_packet :: "instant \<Rightarrow> bytes \<Rightarrow> tracking_state \<Rightarrow> tracking_state" where
  "accept_packet now buf s =
     (if length buf < 1 then s
      else let packet_type = hd buf; payload = tl buf in
        if packet_type = PACKET_HEAD_POSE then
          (case parse_head_pose payload of
             None \<Rightarrow> s
           | Some d \<Rightarrow>
               let s = (if td_gaze_valid d \<noteq> 0 then s\<lparr>tk_gaze := tk_gaze s @ [(td_gaze_x d, td_gaze_y d)]\<rparr> else s)
               in s\<lparr>tk_head := Some d\<rparr>)
        else if packet_type = PACKET_CONTROLLER then
          (case parse_controller payload of
             None \<Rightarrow> s
           | Some c \<Rightarrow>
               let idx = unat (ct_controller_id c) in
               if idx < 2 then s\<lparr>tk_controllers := (tk_controllers s)[idx := Some (c, now)]\<rparr> else s)
        else s)"

definition recv_step :: "ip_addr option \<Rightarrow> instant \<Rightarrow> recv_event \<Rightarrow> tracking_state \<Rightarrow> tracking_state" where
  "recv_step session now ev s =
     (case ev of
        RecvError \<Rightarrow> s\<lparr>tk_recv_errors := tk_recv_errors s + 1\<rparr>
      | Datagram src buf \<Rightarrow>
          if \<not> is_paired_hmd session src then s\<lparr>tk_rejected := tk_rejected s + 1\<rparr>
          else accept_packet now (take 2048 buf) s)"

text \<open>The loop, with the session's address at each datagram.\<close>

fun recv_run :: "tracking_state \<Rightarrow> (ip_addr option \<times> instant \<times> recv_event) list \<Rightarrow> tracking_state" where
  "recv_run s [] = s"
| "recv_run s ((session, now, ev) # es) = recv_run (recv_step session now ev s) es"

section \<open>Only the paired headset is heard\<close>

definition from_paired :: "ip_addr option \<times> instant \<times> recv_event \<Rightarrow> bool" where
  "from_paired e = (case e of (session, now, Datagram src buf) \<Rightarrow> is_paired_hmd session src | _ \<Rightarrow> False)"

text \<open>The inputs the rest of the engine reads.\<close>

definition inputs_of :: "tracking_state \<Rightarrow> tracking_data option \<times> (controller_state \<times> instant) option list \<times> (u32 \<times> u32) list" where
  "inputs_of s = (tk_head s, tk_controllers s, tk_gaze s)"

definition counters :: "nat \<Rightarrow> nat \<Rightarrow> tracking_state \<Rightarrow> tracking_state" where
  "counters r e s = s\<lparr>tk_rejected := r, tk_recv_errors := e\<rparr>"

lemma accept_counters: "accept_packet now buf (counters r e s) = counters r e (accept_packet now buf s)"
  by (auto simp: accept_packet_def counters_def Let_def split: option.splits)

lemma inputs_counters: "inputs_of (counters r e s) = inputs_of s"
  by (simp add: inputs_of_def counters_def)

lemma inputs_eqD: "inputs_of s = inputs_of t \<Longrightarrow> t = counters (tk_rejected t) (tk_recv_errors t) s"
  by (simp add: inputs_of_def counters_def)

lemma recv_step_paired:
  "from_paired (session, now, ev) \<Longrightarrow> inputs_of s = inputs_of t \<Longrightarrow>
   inputs_of (recv_step session now ev s) = inputs_of (recv_step session now ev t)"
proof -
  assume a: "from_paired (session, now, ev)" "inputs_of s = inputs_of t"
  obtain src buf where "ev = Datagram src buf" "is_paired_hmd session src"
    using a(1) by (cases ev) (auto simp: from_paired_def)
  then show ?thesis
    using accept_counters [of now "take 2048 buf" "tk_rejected t" "tk_recv_errors t" s] inputs_eqD [OF a(2)] inputs_counters
    by (simp add: recv_step_def)
qed

lemma recv_step_foreign: "\<not> from_paired (session, now, ev) \<Longrightarrow> inputs_of (recv_step session now ev s) = inputs_of s"
  by (cases ev) (auto simp: from_paired_def recv_step_def inputs_of_def)

lemma recv_run_filter:
  "inputs_of s = inputs_of t \<Longrightarrow> inputs_of (recv_run s es) = inputs_of (recv_run t (filter from_paired es))"
proof (induction s es arbitrary: t rule: recv_run.induct)
  case (1 s)
  then show ?case by simp
next
  case (2 s session now ev es)
  show ?case
  proof (cases "from_paired (session, now, ev)")
    case True
    then show ?thesis using 2 recv_step_paired [OF True 2(2)] by simp
  next
    case False
    then show ?thesis using 2 recv_step_foreign [OF False, of s] by simp
  qed
qed

lemma recv_run_controllers: "length (tk_controllers s) = 2 \<Longrightarrow> length (tk_controllers (recv_run s es)) = 2"
proof (induction s es rule: recv_run.induct)
  case (2 s session now ev es)
  have "length (tk_controllers (recv_step session now ev s)) = 2"
    using 2(2) by (auto simp: recv_step_def accept_packet_def Let_def split: recv_event.split option.split)
  then show ?case using 2(1) by simp
qed simp

text \<open>
  What anyone but the paired headset sends to the tracking port, and socket errors, change nothing
  the engine reads: head pose, controllers and gaze are those of the datagrams of the paired
  address alone, compared in canonical form, and none at all without a session.
\<close>
theorem tracking_only_from_paired:
  "inputs_of (recv_run tracking_new es) = inputs_of (recv_run tracking_new (filter from_paired es))
   \<and> length (tk_controllers (recv_run tracking_new es)) = 2
   \<and> \<not> is_paired_hmd None src
   \<and> is_paired_hmd (Some (V4 a)) (V6 (push_bit 32 0xFFFF OR ucast a))"
proof -
  define m :: "128 word" where "m = push_bit 32 0xFFFF"
  have e: "(0xFFFF :: 128 word) = mask 16" by (simp add: mask_eq_exp_minus_1)
  have b16: "bit (0xFFFF :: 128 word) n \<longleftrightarrow> n < 16" for n
    unfolding e by (auto simp: bit_mask_iff)
  have bm: "bit m n \<longleftrightarrow> 32 \<le> n \<and> n < 48" for n
    unfolding m_def bit_push_bit_iff b16 by auto
  have "drop_bit 32 (m OR ucast a) = 0xFFFF"
  proof (rule bit_word_eqI)
    fix n
    show "bit (drop_bit 32 (m OR ucast a)) n = bit (0xFFFF :: 128 word) n"
      unfolding b16 bit_drop_bit_eq o_apply bit_or_iff bm bit_ucast_iff
      by (auto dest: bit_imp_le_length)
  qed
  moreover have "ucast (m OR ucast a) = a"
    by (rule bit_word_eqI) (auto simp: bit_or_iff bm bit_ucast_iff)
  ultimately show ?thesis using recv_run_filter [OF refl, of tracking_new es] recv_run_controllers [of tracking_new es]
    unfolding m_def [symmetric] by (simp add: is_paired_hmd_def tracking_new_def)
qed

section \<open>Sleep mode\<close>

record sleep_detector =
  sl_enabled :: bool
  sl_motion_threshold :: fl
  sl_timeout_seconds :: nat
  sl_bitrate_mbps :: nat
  sl_prev_position :: "u32 list option"
  sl_idle_frames :: nat
  sl_sleeping :: bool

datatype sleep_transition = SleepNow | WakeNow

definition sleep_new :: "bool \<Rightarrow> fl \<Rightarrow> nat \<Rightarrow> nat \<Rightarrow> sleep_detector" where
  "sleep_new enabled motion_threshold timeout_seconds sleep_bitrate_mbps =
     \<lparr>sl_enabled = enabled, sl_motion_threshold = motion_threshold, sl_timeout_seconds = timeout_seconds,
      sl_bitrate_mbps = sleep_bitrate_mbps, sl_prev_position = None, sl_idle_frames = 0, sl_sleeping = False\<rparr>"

definition coord :: "u32 list \<Rightarrow> nat \<Rightarrow> fl" where
  "coord p i = f32_of_bits (p ! i)"

definition motion_of :: "u32 list option \<Rightarrow> u32 list \<Rightarrow> fl" where
  "motion_of prev_position pos =
     (case prev_position of
        Some prev \<Rightarrow>
          let dx = f_sub b32 (coord pos 0) (coord prev 0);
              dy = f_sub b32 (coord pos 1) (coord prev 1);
              dz = f_sub b32 (coord pos 2) (coord prev 2)
          in f_sqrt b32 (f_add b32 (f_add b32 (f_mul b32 dx dx) (f_mul b32 dy dy)) (f_mul b32 dz dz))
      | None \<Rightarrow> Fin 0)"

definition sleep_update :: "tracking_data \<Rightarrow> sleep_detector \<Rightarrow> sleep_transition option \<times> sleep_detector" where
  "sleep_update tracking s =
     (if \<not> sl_enabled s then (None, s)
      else
        let pos = td_position tracking;
            motion = motion_of (sl_prev_position s) pos;
            s = s\<lparr>sl_prev_position := Some pos\<rparr>
        in if sl_motion_threshold s < motion then
             let s = s\<lparr>sl_idle_frames := 0\<rparr> in
             if sl_sleeping s then (Some WakeNow, s\<lparr>sl_sleeping := False\<rparr>) else (None, s)
           else
             let s = s\<lparr>sl_idle_frames := sl_idle_frames s + 1\<rparr>;
                 threshold_frames = 90 * sl_timeout_seconds s
             in if \<not> sl_sleeping s \<and> threshold_frames \<le> sl_idle_frames s
                then (Some SleepNow, s\<lparr>sl_sleeping := True\<rparr>) else (None, s))"

definition force_wake :: "sleep_detector \<Rightarrow> sleep_transition option \<times> sleep_detector" where
  "force_wake s =
     (let s = s\<lparr>sl_idle_frames := 0\<rparr> in
      if sl_sleeping s then (Some WakeNow, s\<lparr>sl_sleeping := False\<rparr>) else (None, s))"

text \<open>What can happen to a detector, and the motion of each frame relative to the one before.\<close>

datatype sleep_event = Frame tracking_data | ForceWake

fun sleep_run :: "sleep_detector \<Rightarrow> sleep_event list \<Rightarrow> sleep_transition list \<times> sleep_detector" where
  "sleep_run s [] = ([], s)"
| "sleep_run s (e # es) =
     (let (t, s') = (case e of Frame d \<Rightarrow> sleep_update d s | ForceWake \<Rightarrow> force_wake s);
          (ts, s'') = sleep_run s' es
      in ((case t of Some x \<Rightarrow> [x] | None \<Rightarrow> []) @ ts, s''))"

text \<open>The specification: the number of frames since the last motion (or forced wake) decides.\<close>

fun still_frames :: "fl \<Rightarrow> u32 list option \<Rightarrow> nat \<Rightarrow> sleep_event list \<Rightarrow> nat" where
  "still_frames th prev n [] = n"
| "still_frames th prev n (Frame d # es) =
     still_frames th (Some (td_position d)) (if th < motion_of prev (td_position d) then 0 else n + 1) es"
| "still_frames th prev n (ForceWake # es) = still_frames th prev 0 es"

definition sleep_inv :: "sleep_detector \<Rightarrow> bool" where
  "sleep_inv s \<longleftrightarrow> sl_enabled s \<and> 0 < sl_timeout_seconds s
     \<and> (sl_sleeping s \<longleftrightarrow> 90 * sl_timeout_seconds s \<le> sl_idle_frames s)"

fun alternates :: "bool \<Rightarrow> sleep_transition list \<Rightarrow> bool" where
  "alternates b [] \<longleftrightarrow> True"
| "alternates b (SleepNow # ts) \<longleftrightarrow> \<not> b \<and> alternates True ts"
| "alternates b (WakeNow # ts) \<longleftrightarrow> b \<and> alternates False ts"

lemma sleep_refines:
  "sleep_inv s \<Longrightarrow>
   (let (ts, s') = sleep_run s es in
      sl_idle_frames s' = still_frames (sl_motion_threshold s) (sl_prev_position s) (sl_idle_frames s) es
      \<and> sleep_inv s' \<and> sl_timeout_seconds s' = sl_timeout_seconds s \<and> alternates (sl_sleeping s) ts)"
proof (induction es arbitrary: s)
  case Nil
  then show ?case by simp
next
  case (Cons e es)
  show ?case
  proof (cases e)
    case (Frame d)
    obtain t s1 where u: "sleep_update d s = (t, s1)" by fastforce
    have "sleep_inv s1 \<and> sl_timeout_seconds s1 = sl_timeout_seconds s \<and> sl_motion_threshold s1 = sl_motion_threshold s
        \<and> sl_prev_position s1 = Some (td_position d)
        \<and> sl_idle_frames s1 = (if sl_motion_threshold s < motion_of (sl_prev_position s) (td_position d) then 0 else sl_idle_frames s + 1)
        \<and> (\<forall>ts. alternates (sl_sleeping s1) ts \<longrightarrow> alternates (sl_sleeping s) ((case t of Some x \<Rightarrow> [x] | None \<Rightarrow> []) @ ts))"
      using u Cons.prems by (auto simp: sleep_update_def sleep_inv_def Let_def split: if_splits)
    then show ?thesis using Cons.IH [of s1] Frame u by (auto simp: Let_def split_beta)
  next
    case ForceWake
    obtain t s1 where u: "force_wake s = (t, s1)" by fastforce
    have "sleep_inv s1 \<and> sl_timeout_seconds s1 = sl_timeout_seconds s \<and> sl_motion_threshold s1 = sl_motion_threshold s
        \<and> sl_prev_position s1 = sl_prev_position s \<and> sl_idle_frames s1 = 0
        \<and> (\<forall>ts. alternates (sl_sleeping s1) ts \<longrightarrow> alternates (sl_sleeping s) ((case t of Some x \<Rightarrow> [x] | None \<Rightarrow> []) @ ts))"
      using u Cons.prems by (auto simp: force_wake_def sleep_inv_def Let_def split: if_splits)
    then show ?thesis using Cons.IH [of s1] ForceWake u by (auto simp: Let_def split_beta)
  qed
qed

text \<open>
  C25. The detector sleeps exactly while the head has been still, frame to frame, for at least
  \<open>90 * timeout\<close> frames since its last motion or forced wake, and it reports sleep and wake
  strictly in turn, sleep first.
\<close>
theorem sleep_exact:
  assumes "0 < timeout"
  shows "let (ts, s) = sleep_run (sleep_new True th timeout mbps) es in
     (sl_sleeping s \<longleftrightarrow> 90 * timeout \<le> still_frames th None 0 es) \<and> alternates False ts"
  using sleep_refines [of "sleep_new True th timeout mbps" es] assms
  by (auto simp: sleep_inv_def sleep_new_def Let_def split_beta)

theorem sleep_exact_witness:
  "alternates False (fst (sleep_run (sleep_new True (Fin (1 / 500)) 300 8)
     [Frame \<lparr>td_position = [0, 0, 0], td_orientation = [], td_timestamp_ns = 0, td_gaze_x = 0, td_gaze_y = 0, td_gaze_valid = 0\<rparr>, ForceWake]))"
  using sleep_exact [of 300 "Fin (1 / 500)" 8 "[Frame \<lparr>td_position = [0, 0, 0], td_orientation = [], td_timestamp_ns = 0, td_gaze_x = 0, td_gaze_y = 0, td_gaze_valid = 0\<rparr>, ForceWake]"]
  by (simp only: Let_def split_beta)

end
