(* ===== verification/Profiles.thy ===== *)
theory Profiles imports Config begin

text \<open>
  \<open>face_tracking/profiles.rs\<close>: expression profiles, their repair and their files. Strings are their UTF-8
  bytes. The profile directory is a map from file names to contents, and the JSON reader and printer are
  arguments.
\<close>

section \<open>Profiles\<close>

definition TOTAL_BLENDSHAPES :: nat where "TOTAL_BLENDSHAPES = 51"

record ft_profile =
  fp_name :: string
  fp_weights :: "fl list"
  fp_smoothing_override :: "fl option"
  fp_offsets :: "fl list"

definition default_weights :: "fl list" where
  "default_weights = replicate TOTAL_BLENDSHAPES (Fin 1)"

definition default_profile :: ft_profile where
  "default_profile = \<lparr>fp_name = ''default'', fp_weights = default_weights, fp_smoothing_override = None, fp_offsets = []\<rparr>"

text \<open>\<open>slice::get\<close> with a default, and \<open>Vec::resize\<close>.\<close>

definition get_or :: "'a list \<Rightarrow> nat \<Rightarrow> 'a \<Rightarrow> 'a" where
  "get_or xs i d = (if i < length xs then xs ! i else d)"

definition resize_to :: "nat \<Rightarrow> 'a \<Rightarrow> 'a list \<Rightarrow> 'a list" where
  "resize_to n x xs = take n xs @ replicate (n - length xs) x"

definition profile_weight :: "ft_profile \<Rightarrow> nat \<Rightarrow> fl" where
  "profile_weight p i = get_or (fp_weights p) i (Fin 1)"

definition profile_offset :: "ft_profile \<Rightarrow> nat \<Rightarrow> fl" where
  "profile_offset p i = get_or (fp_offsets p) i (Fin 0)"

definition normalize :: "ft_profile \<Rightarrow> ft_profile" where
  "normalize p = p\<lparr>fp_weights := resize_to TOTAL_BLENDSHAPES (Fin 1) (fp_weights p),
     fp_offsets := resize_to TOTAL_BLENDSHAPES (Fin 0) (fp_offsets p)\<rparr>"

definition sanitize_weights :: "ft_profile \<Rightarrow> ft_profile" where
  "sanitize_weights p = p\<lparr>
     fp_weights := map (\<lambda>w. if f_is_nan w \<or> f_is_infinite w \<or> w < Fin 0 then Fin 1 else w) (fp_weights p),
     fp_offsets := map (\<lambda>v. if \<not> (Fin 0 \<le> v \<and> v \<le> Fin 1) then Fin 0 else v) (fp_offsets p)\<rparr>"

definition profile_validate :: "ft_profile \<Rightarrow> ft_profile" where
  "profile_validate p = sanitize_weights (normalize p)"

section \<open>Profile files\<close>

definition contains :: "'a list \<Rightarrow> 'a list \<Rightarrow> bool" where
  "contains xs ys \<longleftrightarrow> list_ex (\<lambda>k. take (length ys) (drop k xs) = ys) [0..<Suc (length xs)]"

definition NUL :: char where "NUL = CHR 0x00"
definition BACKSLASH :: char where "BACKSLASH = CHR 0x5C"

definition sanitize_name :: "string \<Rightarrow> string + unit" where
  "sanitize_name name =
     (if name = [] then Inl ''Profile name cannot be empty''
      else if CHR ''/'' \<in> set name \<or> BACKSLASH \<in> set name \<or> contains name ''..'' \<or> NUL \<in> set name
        then Inl ''Profile name contains invalid characters''
      else if 64 < length name then Inl ''Profile name too long (max 64 chars)''
      else Inr ())"

text \<open>The directory: \<open>None\<close> when the platform names no data directory.\<close>

type_synonym profile_dir = "(string \<rightharpoonup> string) option"

definition strip_suffix :: "'a list \<Rightarrow> 'a list \<Rightarrow> 'a list option" where
  "strip_suffix suffix s =
     (if length suffix \<le> length s \<and> drop (length s - length suffix) s = suffix
      then Some (take (length s - length suffix) s) else None)"

text \<open>The listing's order is that of the directory, given as \<open>entries\<close>.\<close>

definition list_profiles :: "string list option \<Rightarrow> string list" where
  "list_profiles entries = (case entries of None \<Rightarrow> [] | Some names \<Rightarrow> List.map_filter (strip_suffix ''.json'') names)"

definition load_profile :: "(string \<Rightarrow> ft_profile option) \<Rightarrow> profile_dir \<Rightarrow> string \<Rightarrow> ft_profile option" where
  "load_profile parse dir name =
     (case sanitize_name name of
        Inl _ \<Rightarrow> None
      | Inr _ \<Rightarrow> (case dir of
          None \<Rightarrow> None
        | Some files \<Rightarrow> (case files (name @ ''.json'') of
            None \<Rightarrow> None
          | Some content \<Rightarrow> map_option profile_validate (parse content))))"

definition save_profile ::
  "(ft_profile \<Rightarrow> string) \<Rightarrow> bool \<Rightarrow> ft_profile \<Rightarrow> profile_dir \<Rightarrow> (string + unit) \<times> profile_dir" where
  "save_profile print writable p dir =
     (case sanitize_name (fp_name p) of
        Inl e \<Rightarrow> (Inl e, dir)
      | Inr _ \<Rightarrow> (case dir of
          None \<Rightarrow> (Inl ''Cannot determine app data directory'', dir)
        | Some files \<Rightarrow>
            if writable then (Inr (), Some (files(fp_name p @ ''.json'' \<mapsto> print p)))
            else (Inl ''io error'', dir)))"

definition delete_profile :: "bool \<Rightarrow> string \<Rightarrow> profile_dir \<Rightarrow> (string + unit) \<times> profile_dir" where
  "delete_profile removable name dir =
     (case sanitize_name name of
        Inl e \<Rightarrow> (Inl e, dir)
      | Inr _ \<Rightarrow> (case dir of
          None \<Rightarrow> (Inr (), None)
        | Some files \<Rightarrow>
            if files (name @ ''.json'') = None then (Inr (), dir)
            else if removable then (Inr (), Some (files(name @ ''.json'' := None)))
            else (Inl ''io error'', dir)))"

section \<open>Profiles are valid once loaded\<close>

definition profile_ok :: "ft_profile \<Rightarrow> bool" where
  "profile_ok p \<longleftrightarrow> length (fp_weights p) = TOTAL_BLENDSHAPES \<and> length (fp_offsets p) = TOTAL_BLENDSHAPES
     \<and> list_all (\<lambda>w. f_is_finite w \<and> Fin 0 \<le> w) (fp_weights p)
     \<and> list_all (\<lambda>v. Fin 0 \<le> v \<and> v \<le> Fin 1) (fp_offsets p)"

lemma length_resize [simp]: "length (resize_to n x xs) = n"
  by (simp add: resize_to_def)

lemma resize_id: "length xs = n \<Longrightarrow> resize_to n x xs = xs"
  by (simp add: resize_to_def)

lemma weight_clean: "(if f_is_nan w \<or> f_is_infinite w \<or> w < Fin 0 then Fin 1 else w) = w \<longleftrightarrow> f_is_finite w \<and> Fin 0 \<le> w"
  by (cases w) (auto simp: f_is_infinite_def)

lemma weight_kept: "\<not> f_is_nan w \<Longrightarrow> \<not> f_is_infinite w \<Longrightarrow> \<not> w < Fin 0 \<Longrightarrow> f_is_finite w \<and> Fin 0 \<le> w"
  by (cases w) (auto simp: f_is_infinite_def)

lemma profile_validate_ok: "profile_ok (profile_validate p)"
  by (auto simp: profile_ok_def profile_validate_def normalize_def sanitize_weights_def list_all_iff dest: weight_kept)

lemma profile_validate_id: "profile_ok p \<Longrightarrow> profile_validate p = p"
  unfolding profile_ok_def profile_validate_def normalize_def sanitize_weights_def
  using weight_clean by (auto simp: resize_id list_all_iff intro!: ft_profile.equality map_idI)

definition is_separator :: "char \<Rightarrow> bool" where
  "is_separator ch \<longleftrightarrow> ch = CHR ''/'' \<or> ch = BACKSLASH \<or> ch = NUL"

lemma sanitize_name_ok:
  "sanitize_name name = Inr () \<longleftrightarrow> name \<noteq> [] \<and> list_all (Not \<circ> is_separator) name \<and> \<not> contains name ''..'' \<and> length name \<le> 64"
  by (auto simp: sanitize_name_def list_all_iff is_separator_def)



end
