(* ===== verification/OscBridge.thy ===== *)
theory OscBridge imports Profiles Tracking begin

text \<open>
  \<open>face_tracking/osc_bridge.rs\<close>: the bridge that smooths the headset's blendshapes, applies the profile
  and sends VRChat's OSC parameters. A message is its parameter and value; \<open>encode_osc_float\<close> is its
  encoding.
\<close>

section \<open>OSC bridge\<close>

definition DEFAULT_SMOOTHING :: fl where "DEFAULT_SMOOTHING = f32_lit (6 / 10)"
definition REST_THRESHOLD :: fl where "REST_THRESHOLD = f32_lit (1 / 100)"
definition MAX_SMOOTHING :: fl where "MAX_SMOOTHING = f32_lit (99 / 100)"
definition DEFAULT_TARGET :: string where "DEFAULT_TARGET = ''127.0.0.1:9000''"

definition LIP_NAMES :: "string list" where
  "LIP_NAMES = [
     ''JawRight'', ''JawLeft'', ''JawForward'', ''JawOpen'',
     ''MouthApeShape'', ''MouthUpperRight'', ''MouthUpperLeft'',
     ''MouthLowerRight'', ''MouthLowerLeft'',
     ''MouthUpperOverturn'', ''MouthLowerOverturn'',
     ''MouthPout'', ''MouthSmileRight'', ''MouthSmileLeft'',
     ''MouthSadRight'', ''MouthSadLeft'',
     ''CheekPuffRight'', ''CheekPuffLeft'', ''CheekSuck'',
     ''MouthUpperUpRight'', ''MouthUpperUpLeft'',
     ''MouthLowerDownRight'', ''MouthLowerDownLeft'',
     ''MouthUpperInside'', ''MouthLowerInside'',
     ''MouthLowerOverlay'',
     ''TongueLongStep1'', ''TongueLeft'', ''TongueRight'', ''TongueUp'', ''TongueDown'',
     ''TongueRoll'', ''TongueLongStep2'',
     ''TongueUpRightMorph'', ''TongueUpLeftMorph'',
     ''TongueDownRightMorph'', ''TongueDownLeftMorph'']"

definition EYE_NAMES :: "string list" where
  "EYE_NAMES = [
     ''EyeLeftBlink'', ''EyeLeftWide'', ''EyeRightBlink'', ''EyeRightWide'',
     ''EyeLeftSqueeze'', ''EyeRightSqueeze'', ''EyeLeftDown'', ''EyeRightDown'',
     ''EyeLeftLeft'', ''EyeRightLeft'', ''EyeLeftRight'', ''EyeRightRight'',
     ''EyeLeftUp'', ''EyeRightUp'']"

record osc_bridge =
  ob_socket :: bool
  ob_enabled :: bool
  ob_smoothing :: fl
  ob_prev_lip :: "fl list"
  ob_prev_eye :: "fl list"
  ob_sent_lip :: "fl list"
  ob_sent_eye :: "fl list"
  ob_weights :: "fl list option"
  ob_offsets :: "fl list option"
  ob_target :: string

definition with_smoothing :: "bool \<Rightarrow> fl \<Rightarrow> osc_bridge" where
  "with_smoothing socket smoothing = \<lparr>ob_socket = socket, ob_enabled = True,
     ob_smoothing = f_clamp (Fin 0) MAX_SMOOTHING smoothing,
     ob_prev_lip = replicate 37 (Fin 0), ob_prev_eye = replicate 14 (Fin 0),
     ob_sent_lip = replicate 37 (Fin 0), ob_sent_eye = replicate 14 (Fin 0),
     ob_weights = None, ob_offsets = None, ob_target = DEFAULT_TARGET\<rparr>"

definition bridge_new :: "bool \<Rightarrow> osc_bridge" where
  "bridge_new socket = with_smoothing socket DEFAULT_SMOOTHING"

definition set_target :: "string \<Rightarrow> osc_bridge \<Rightarrow> osc_bridge" where
  "set_target t b = b\<lparr>ob_target := t\<rparr>"

definition set_enabled :: "bool \<Rightarrow> osc_bridge \<Rightarrow> osc_bridge" where
  "set_enabled e b = b\<lparr>ob_enabled := e\<rparr>"

definition set_profile :: "ft_profile option \<Rightarrow> osc_bridge \<Rightarrow> osc_bridge" where
  "set_profile p b =
     (let b = b\<lparr>ob_weights := map_option fp_weights p, ob_offsets := map_option fp_offsets p\<rparr>
      in case p of
           None \<Rightarrow> b
         | Some p \<Rightarrow> (case fp_smoothing_override p of
             None \<Rightarrow> b
           | Some s \<Rightarrow> b\<lparr>ob_smoothing := f_clamp (Fin 0) MAX_SMOOTHING s\<rparr>))"

definition profile_apply :: "fl list option \<Rightarrow> fl list option \<Rightarrow> nat \<Rightarrow> fl \<Rightarrow> fl" where
  "profile_apply weights offsets index v =
     (let weight = (case weights of Some w \<Rightarrow> get_or w index (Fin 1) | None \<Rightarrow> Fin 1);
          offset = (case offsets of Some w \<Rightarrow> get_or w index (Fin 0) | None \<Rightarrow> Fin 0)
      in f_clamp (Fin 0) (Fin 1) (f_mul b32 (f_sub b32 v offset) weight))"

text \<open>Text and zero padding to four bytes, the type tag and the big-endian value.\<close>

definition pad4 :: "bytes \<Rightarrow> bytes" where
  "pad4 m = m @ replicate ((4 - length m mod 4) mod 4) 0"

definition encode_osc_float :: "string \<Rightarrow> fl \<Rightarrow> bytes" where
  "encode_osc_float address v = pad4 (map of_char address @ [0]) @ [0x2C, 0x66, 0, 0] @ u32_be (bits_of_f32 v)"

definition osc_address :: "string \<Rightarrow> string" where
  "osc_address name = ''/avatar/parameters/'' @ name"

definition smooth :: "fl \<Rightarrow> fl \<Rightarrow> fl \<Rightarrow> fl" where
  "smooth alpha p r = f_add b32 (f_mul b32 alpha p) (f_mul b32 (f_sub b32 (Fin 1) alpha) (f_clamp (Fin 0) (Fin 1) r))"

definition rest_value :: "fl \<Rightarrow> fl" where
  "rest_value scaled = (if REST_THRESHOLD < scaled then scaled else Fin 0)"

text \<open>
  One blendshape: the new smoothed value, the new \<open>sent\<close> entry and what goes out. A message is its
  parameter and value; its bytes are \<open>encode_osc_float\<close>.
\<close>

definition send_one :: "fl \<Rightarrow> (fl \<Rightarrow> fl) \<Rightarrow> fl \<Rightarrow> fl \<Rightarrow> fl \<Rightarrow> fl \<times> fl \<times> fl option" where
  "send_one alpha scale r p s =
     (if \<not> f_is_finite r then (p, s, None)
      else let smoothed = smooth alpha p r;
               v = rest_value (scale smoothed)
           in if v = Fin 0 \<and> s = Fin 0 then (smoothed, s, None) else (smoothed, v, Some v))"

fun apply_smoothing_and_send ::
  "fl \<Rightarrow> (nat \<Rightarrow> fl \<Rightarrow> fl) \<Rightarrow> nat \<Rightarrow> fl list \<Rightarrow> string list \<Rightarrow> fl list \<Rightarrow> fl list
    \<Rightarrow> fl list \<times> fl list \<times> (string \<times> fl) list" where
  "apply_smoothing_and_send alpha scale i (r # raw) (n # names) (p # prev) (s # sent) =
     (let (p', s', v) = send_one alpha (scale i) r p s;
          (prev', sent', out) = apply_smoothing_and_send alpha scale (i + 1) raw names prev sent
      in (p' # prev', s' # sent', (case v of Some x \<Rightarrow> [(n, x)] | None \<Rightarrow> []) @ out))"
| "apply_smoothing_and_send alpha scale i _ _ prev sent = (prev, sent, [])"

definition send_face_data ::
  "bool \<Rightarrow> bool \<Rightarrow> fl list \<Rightarrow> fl list \<Rightarrow> osc_bridge \<Rightarrow> (string \<times> fl) list \<times> osc_bridge" where
  "send_face_data lip_valid eye_valid lip eye b =
     (if \<not> ob_enabled b \<or> \<not> ob_socket b then ([], b)
      else
        let scale = profile_apply (ob_weights b) (ob_offsets b);
            (m1, b) = (if lip_valid then
                let (prev, sent, out) = apply_smoothing_and_send (ob_smoothing b) scale 0 lip LIP_NAMES
                      (ob_prev_lip b) (ob_sent_lip b)
                in (out, b\<lparr>ob_prev_lip := prev, ob_sent_lip := sent\<rparr>) else ([], b));
            (m2, b) = (if eye_valid then
                let (prev, sent, out) = apply_smoothing_and_send (ob_smoothing b) scale 37 eye EYE_NAMES
                      (ob_prev_eye b) (ob_sent_eye b)
                in (out, b\<lparr>ob_prev_eye := prev, ob_sent_eye := sent\<rparr>) else ([], b))
        in (m1 @ m2, b))"

definition f32_from :: "bytes \<Rightarrow> nat \<Rightarrow> nat \<Rightarrow> fl list" where
  "f32_from payload off n = map (\<lambda>i. f32_of_bits (f32_at payload (off + i * 4))) [0..<n]"

definition parse_face_data :: "bytes \<Rightarrow> (bool \<times> bool \<times> fl list \<times> fl list) option" where
  "parse_face_data payload =
     (if length payload < 206 then None
      else Some (payload ! 0 \<noteq> 0, payload ! 1 \<noteq> 0, f32_from payload 2 37, f32_from payload (2 + 37 * 4) 14))"

section \<open>What the avatar shows\<close>

text \<open>VRChat keeps the last value it received for each parameter.\<close>

fun avatar :: "(string \<Rightarrow> fl) \<Rightarrow> (string \<times> fl) list \<Rightarrow> string \<Rightarrow> fl" where
  "avatar m [] = m"
| "avatar m ((n, v) # out) = avatar (m(n := v)) out"

lemma avatar_append: "avatar m (a @ b) = avatar (avatar m a) b"
  by (induction a arbitrary: m) auto

definition osc_value_ok :: "fl \<Rightarrow> bool" where
  "osc_value_ok v \<longleftrightarrow> v = Fin 0 \<or> REST_THRESHOLD < v \<and> v \<le> Fin 1"

lemma rest_value_ok: "osc_value_ok (rest_value (f_clamp (Fin 0) (Fin 1) x))"
  by (cases x) (auto simp: osc_value_ok_def rest_value_def f_clamp_def)

lemma profile_apply_ok: "osc_value_ok (rest_value (profile_apply w q i v))"
  unfolding profile_apply_def Let_def by (rule rest_value_ok)

lemma send_one_cases:
  "send_one alpha scale r p s = (p', s', v) \<Longrightarrow>
   (case v of None \<Rightarrow> s' = s | Some x \<Rightarrow> s' = x \<and> x = rest_value (scale p'))
   \<and> (f_is_finite r \<longrightarrow> p' = smooth alpha p r \<and> s' = rest_value (scale p'))"
  by (auto simp: send_one_def Let_def split: if_splits)

lemma loop_avatar:
  assumes "apply_smoothing_and_send alpha scale i raw names prev sent = (prev', sent', out)"
    and "length raw = length names" and "length prev = length names" and "length sent = length names"
    and "distinct names" and "map m names = sent"
  shows "map (avatar m out) names = sent' \<and> (\<forall>x. x \<notin> set names \<longrightarrow> avatar m out x = m x)
    \<and> length prev' = length names \<and> length sent' = length names"
  using assms
proof (induction alpha scale i raw names prev sent arbitrary: m prev' sent' out
    rule: apply_smoothing_and_send.induct)
  case (1 alpha scale i r raw n names p prev s sent)
  obtain p1 s1 v where one: "send_one alpha (scale i) r p s = (p1, s1, v)" by (metis prod_cases3)
  obtain prev2 sent2 out2 where rest:
    "apply_smoothing_and_send alpha scale (i + 1) raw names prev sent = (prev2, sent2, out2)"
    by (metis prod_cases3)
  let ?h = "case v of Some x \<Rightarrow> [(n, x)] | None \<Rightarrow> []"
  have m0: "m n = s" and n: "n \<notin> set names" using "1.prems" by auto
  define m1 where "m1 = m(n := s1)"
  have m1: "m1 n = s1" "\<And>x. x \<noteq> n \<Longrightarrow> m1 x = m x" by (simp_all add: m1_def)
  have h: "avatar m ?h = m1"
    unfolding m1_def using send_one_cases [OF one] m0 by (auto split: option.splits)
  have upd: "map m1 names = sent" unfolding m1_def using "1.prems" n by auto
  have "length raw = length names" "length prev = length names" "length sent = length names" "distinct names"
    using "1.prems" by auto
  note IH = "1.IH" [OF one [symmetric] refl refl rest this upd]
  have eq: "prev' = p1 # prev2" "sent' = s1 # sent2" "out = ?h @ out2"
    using "1.prems"(1) one rest by (auto split: option.splits)
  show ?case unfolding eq avatar_append h using IH n m1 by auto
qed auto

lemma loop_values:
  assumes "apply_smoothing_and_send alpha scale i raw names prev sent = (prev', sent', out)"
    and "\<And>j v. osc_value_ok (rest_value (scale j v))"
  shows "list_all (\<lambda>(n, v). osc_value_ok v) out"
  using assms
proof (induction alpha scale i raw names prev sent arbitrary: prev' sent' out
    rule: apply_smoothing_and_send.induct)
  case (1 alpha scale i r raw n names p prev s sent)
  obtain p1 s1 v where one: "send_one alpha (scale i) r p s = (p1, s1, v)" by (metis prod_cases3)
  obtain prev2 sent2 out2 where rest:
    "apply_smoothing_and_send alpha scale (i + 1) raw names prev sent = (prev2, sent2, out2)"
    by (metis prod_cases3)
  from "1.IH" [OF one [symmetric] refl refl rest "1.prems"(2)] send_one_cases [OF one] "1.prems" one rest
  show ?case by (auto split: option.splits)
qed auto

lemma loop_follows:
  assumes "apply_smoothing_and_send alpha scale i raw names prev sent = (prev', sent', out)"
    and "length raw = length names" and "length prev = length names" and "length sent = length names"
    and "list_all f_is_finite raw"
  shows "sent' = map (\<lambda>j. rest_value (scale (i + j) (prev' ! j))) [0..<length names]"
  using assms
proof (induction alpha scale i raw names prev sent arbitrary: prev' sent' out
    rule: apply_smoothing_and_send.induct)
  case (1 alpha scale i r raw n names p prev s sent)
  obtain p1 s1 v where one: "send_one alpha (scale i) r p s = (p1, s1, v)" by (metis prod_cases3)
  obtain prev2 sent2 out2 where rest:
    "apply_smoothing_and_send alpha scale (i + 1) raw names prev sent = (prev2, sent2, out2)"
    by (metis prod_cases3)
  have eq: "prev' = p1 # prev2" "sent' = s1 # sent2"
    using "1.prems"(1) one rest by (auto split: option.splits)
  have IH: "sent2 = map (\<lambda>j. rest_value (scale (i + 1 + j) (prev2 ! j))) [0..<length names]"
    using "1.IH" [OF one [symmetric] refl refl rest] "1.prems" by simp
  have u: "[0..<length (n # names)] = 0 # map Suc [0..<length names]" by (simp add: map_Suc_upt upt_conv_Cons del: upt_Suc)
  have h: "s1 = rest_value (scale i p1)" using send_one_cases [OF one] "1.prems"(5) by simp
  show ?case unfolding eq u by (simp only: IH) (simp add: h comp_def)
qed auto

section \<open>Sequences of events\<close>

datatype bridge_event = FaceData bytes | Profile "ft_profile option" | Enable bool

fun bridge_step :: "bridge_event \<Rightarrow> osc_bridge \<Rightarrow> (string \<times> fl) list \<times> osc_bridge" where
  "bridge_step (FaceData payload) b =
     (case parse_face_data payload of
        Some (lip_valid, eye_valid, lip, eye) \<Rightarrow> send_face_data lip_valid eye_valid lip eye b
      | None \<Rightarrow> ([], b))"
| "bridge_step (Profile p) b = ([], set_profile p b)"
| "bridge_step (Enable e) b = ([], set_enabled e b)"

fun bridge_run :: "bridge_event list \<Rightarrow> osc_bridge \<Rightarrow> (string \<times> fl) list \<times> osc_bridge" where
  "bridge_run [] b = ([], b)"
| "bridge_run (e # es) b =
     (let (out, b) = bridge_step e b; (out', b) = bridge_run es b in (out @ out', b))"

lemma bridge_run_append:
  "bridge_run (es @ fs) b = (let (o1, b) = bridge_run es b; (o2, b) = bridge_run fs b in (o1 @ o2, b))"
  by (induction es arbitrary: b) (auto simp: Let_def split_beta)

definition shown :: "(string \<Rightarrow> fl) \<Rightarrow> osc_bridge \<Rightarrow> bool" where
  "shown m b \<longleftrightarrow> map m LIP_NAMES = ob_sent_lip b \<and> map m EYE_NAMES = ob_sent_eye b
     \<and> length (ob_prev_lip b) = 37 \<and> length (ob_prev_eye b) = 14"

lemma name_facts: "length LIP_NAMES = 37" "length EYE_NAMES = 14" "distinct (LIP_NAMES @ EYE_NAMES)"
  by code_simp+

lemma name_distinct: "distinct LIP_NAMES" "distinct EYE_NAMES"
    "x \<in> set EYE_NAMES \<Longrightarrow> x \<notin> set LIP_NAMES" "x \<in> set LIP_NAMES \<Longrightarrow> x \<notin> set EYE_NAMES"
  using name_facts(3) by auto

lemma map_same_on: "(\<And>x. x \<in> set xs \<Longrightarrow> f x = g x) \<Longrightarrow> map g xs = ys \<Longrightarrow> map f xs = ys"
  by (auto cong: map_cong)

lemma shown_lengths: "shown m b \<Longrightarrow> length (ob_sent_lip b) = 37 \<and> length (ob_sent_eye b) = 14"
  by (metis length_map name_facts(1,2) shown_def)

lemma send_face_shown:
  assumes "shown m b" and "length lip = 37" and "length eye = 14"
    and "send_face_data lv ev lip eye b = (out, b')"
  shows "shown (avatar m out) b' \<and> list_all (\<lambda>(n, v). osc_value_ok v) out"
proof (cases "ob_enabled b \<and> ob_socket b")
  case True
  let ?scale = "profile_apply (ob_weights b) (ob_offsets b)"
  obtain pl sl ol where L: "apply_smoothing_and_send (ob_smoothing b) ?scale 0 lip LIP_NAMES
      (ob_prev_lip b) (ob_sent_lip b) = (pl, sl, ol)" by (metis prod_cases3)
  obtain pe se oe where E: "apply_smoothing_and_send (ob_smoothing b) ?scale 37 eye EYE_NAMES
      (ob_prev_eye b) (ob_sent_eye b) = (pe, se, oe)" by (metis prod_cases3)
  note s = assms(1) [unfolded shown_def] and len = shown_lengths [OF assms(1)]
  have lip: "map (avatar m ol) LIP_NAMES = sl" "\<And>x. x \<notin> set LIP_NAMES \<Longrightarrow> avatar m ol x = m x" "length pl = 37"
    using loop_avatar [OF L, of m] s len assms(2) by (simp_all add: name_facts name_distinct(1))
  have eye: "map (avatar m' oe) EYE_NAMES = se" "\<And>x. x \<notin> set EYE_NAMES \<Longrightarrow> avatar m' oe x = m' x" "length pe = 14"
    if "map m' EYE_NAMES = ob_sent_eye b" for m'
    using loop_avatar [OF E, of m'] that s len assms(3) by (simp_all add: name_facts name_distinct(2))
  have keep: "map (avatar m ol) EYE_NAMES = ob_sent_eye b"
    by (rule map_same_on [where g = m]) (use lip(2) name_distinct(3) s in auto)
  have keepl: "map (avatar m' oe) LIP_NAMES = ys" if "map m' EYE_NAMES = ob_sent_eye b" "map m' LIP_NAMES = ys" for m' ys
    by (rule map_same_on [where g = m']) (use eye(2) [OF that(1)] name_distinct(4) that in auto)
  note vals = loop_values [OF L profile_apply_ok] loop_values [OF E profile_apply_ok]
  have def: "send_face_data lv ev lip eye b =
      ((if lv then ol else []) @ (if ev then oe else []),
       b\<lparr>ob_prev_lip := if lv then pl else ob_prev_lip b, ob_sent_lip := if lv then sl else ob_sent_lip b,
         ob_prev_eye := if ev then pe else ob_prev_eye b, ob_sent_eye := if ev then se else ob_sent_eye b\<rparr>)"
    using True L E by (simp add: send_face_data_def Let_def split_beta)
  have out: "out = (if lv then ol else []) @ (if ev then oe else [])" and b': "b' = snd (send_face_data lv ev lip eye b)"
    using assms(4) def by auto
  consider "lv" "ev" | "lv" "\<not> ev" | "\<not> lv" "ev" | "\<not> lv" "\<not> ev" by blast
  then show ?thesis
  proof cases
    case 1
    with eye [OF keep] keepl [OF keep lip(1)] lip(3) vals s show ?thesis
      unfolding out b' def shown_def by (simp add: avatar_append)
  next
    case 2
    with keep lip vals s show ?thesis unfolding out b' def shown_def by simp
  next
    case 3
    with eye [of m] keepl [of m] s vals show ?thesis unfolding out b' def shown_def by simp
  next
    case 4
    with s show ?thesis unfolding out b' def shown_def by simp
  qed
next
  case False
  with assms show ?thesis by (auto simp: send_face_data_def)
qed

lemma parse_face_lengths: "parse_face_data payload = Some (lv, ev, lip, eye) \<Longrightarrow> length lip = 37 \<and> length eye = 14"
  by (auto simp: parse_face_data_def f32_from_def split: if_splits)

lemma bridge_step_shown:
  "shown m b \<Longrightarrow> bridge_step e b = (out, b') \<Longrightarrow> shown (avatar m out) b' \<and> list_all (\<lambda>(n, v). osc_value_ok v) out"
proof (cases e)
  case (FaceData payload)
  assume a: "shown m b" "bridge_step e b = (out, b')"
  show ?thesis
  proof (cases "parse_face_data payload")
    case None
    with a FaceData show ?thesis by simp
  next
    case (Some q)
    then obtain lv ev lip eye where q: "parse_face_data payload = Some (lv, ev, lip, eye)" by (cases q) auto
    then have "send_face_data lv ev lip eye b = (out, b')" using a FaceData by simp
    with a(1) parse_face_lengths [OF q] show ?thesis by (blast dest: send_face_shown)
  qed
next
  case (Profile p)
  moreover assume "shown m b" "bridge_step e b = (out, b')"
  ultimately show ?thesis by (auto simp: set_profile_def shown_def Let_def split: option.splits)
qed (auto simp: shown_def set_enabled_def)

lemma bridge_run_shown:
  "shown m b \<Longrightarrow> bridge_run es b = (out, b') \<Longrightarrow> shown (avatar m out) b' \<and> list_all (\<lambda>(n, v). osc_value_ok v) out"
proof (induction es arbitrary: m b out b')
  case Nil
  then show ?case by simp
next
  case (Cons e es)
  obtain o1 b1 where 1: "bridge_step e b = (o1, b1)" by fastforce
  obtain o2 b2 where 2: "bridge_run es b1 = (o2, b2)" by fastforce
  from bridge_step_shown [OF Cons.prems(1) 1] have s: "shown (avatar m o1) b1" by blast
  from Cons.IH [OF s 2] bridge_step_shown [OF Cons.prems(1) 1] Cons.prems(2) 1 2 show ?case
    by (auto simp: avatar_append)
qed

lemma new_shown: "shown (\<lambda>_. Fin 0) (with_smoothing k s)"
  by (simp add: shown_def with_smoothing_def name_facts map_replicate_const)

text \<open>After a frame whose lip values are all finite, \<open>sent\<close> is what the profile makes of the smoothed values.\<close>

lemma send_face_follows:
  assumes "shown m b" and "length lip = 37" and "list_all f_is_finite lip" and "ob_enabled b \<and> ob_socket b"
    and "send_face_data True ev lip eye b = (out, b')"
  shows "ob_sent_lip b' = map (\<lambda>i. rest_value (profile_apply (ob_weights b') (ob_offsets b') i (ob_prev_lip b' ! i))) [0..<37]"
proof -
  let ?scale = "profile_apply (ob_weights b) (ob_offsets b)"
  obtain pl sl ol where L: "apply_smoothing_and_send (ob_smoothing b) ?scale 0 lip LIP_NAMES
      (ob_prev_lip b) (ob_sent_lip b) = (pl, sl, ol)" by (metis prod_cases3)
  note s = assms(1) [unfolded shown_def] and len = shown_lengths [OF assms(1)]
  have "sl = map (\<lambda>j. rest_value (?scale j (pl ! j))) [0..<37]"
    using loop_follows [OF L] s len assms(2,3) by (simp add: name_facts)
  then show ?thesis using assms(4,5) L by (auto simp: send_face_data_def Let_def split_beta)
qed

lemma bridge_socket: "ob_socket (snd (bridge_run es b)) = ob_socket b"
proof (induction es arbitrary: b)
  case (Cons e es)
  have "ob_socket (snd (bridge_step e b)) = ob_socket b"
    by (cases e) (auto simp: send_face_data_def set_profile_def set_enabled_def Let_def split_beta
        split: option.split)
  with Cons show ?case by (simp add: Let_def split_beta)
qed simp

text \<open>
  C23. The avatar never keeps a stale expression: whatever frames, profiles and switches came before,
  after a frame with finite lip values every lip parameter VRChat last received is the one the profile
  makes of the smoothed value, 0 for a parameter at rest; and no value sent ever leaves \<open>0..1\<close>.
\<close>
theorem avatar_follows_face:
  assumes "parse_face_data payload = Some (True, eye_valid, lip, eye)" and "list_all f_is_finite lip"
    and "ob_enabled (snd (bridge_run es (with_smoothing True s)))"
  shows "let (out, b) = bridge_run (es @ [FaceData payload]) (with_smoothing True s) in
    map (avatar (\<lambda>_. Fin 0) out) LIP_NAMES =
      map (\<lambda>i. rest_value (profile_apply (ob_weights b) (ob_offsets b) i (ob_prev_lip b ! i))) [0..<37]
    \<and> map (avatar (\<lambda>_. Fin 0) out) EYE_NAMES = ob_sent_eye b
    \<and> list_all (\<lambda>(n, v). osc_value_ok v) out"
proof -
  obtain o1 b1 where 1: "bridge_run es (with_smoothing True s) = (o1, b1)" by fastforce
  obtain o2 b2 where 2: "send_face_data True eye_valid lip eye b1 = (o2, b2)" by fastforce
  note s1 = bridge_run_shown [OF new_shown 1]
  have len: "length lip = 37" "length eye = 14" using parse_face_lengths [OF assms(1)] by simp_all
  have on: "ob_enabled b1 \<and> ob_socket b1"
    using assms(3) bridge_socket [of es "with_smoothing True s"] 1 by (simp add: with_smoothing_def)
  have run: "bridge_run (es @ [FaceData payload]) (with_smoothing True s) = (o1 @ o2, b2)"
    by (simp add: bridge_run_append 1 2 assms(1))
  from send_face_shown [OF conjunct1 [OF s1] len 2] s1 send_face_follows [OF conjunct1 [OF s1] len(1) assms(2) on 2]
  show ?thesis unfolding run by (simp add: shown_def avatar_append)
qed

text \<open>A frame of 1.0s, then one of 0.0s without smoothing: the mouth closes again.\<close>

definition face_bytes :: "u32 \<Rightarrow> bytes" where
  "face_bytes w = [1, 1] @ concat (replicate 51 (u32_le w))"

lemma face_bytes_parse: "parse_face_data (face_bytes w) = Some (True, True, replicate 37 (f32_of_bits w), replicate 14 (f32_of_bits w))"
proof -
  have c: "concat (replicate 51 (u32_le w)) = concat (map u32_le (replicate 51 w))" by simp
  have at: "f32_at (face_bytes w) (2 + i * 4) = w" if "i < 51" for i
  proof -
    have "sub_range (face_bytes w) (2 + i * 4) (2 + i * 4 + 4) =
        sub_range (concat (map u32_le (replicate 51 w)) @ []) (4 * i) (4 * i + 4)"
      unfolding face_bytes_def c by (subst sub_range_append_skip [where n = 2]) (simp_all add: ac_simps)
    then show ?thesis using that c32le.dec_field_at [of i "replicate 51 w" "[]"]
      by (simp add: f32_at_def)
  qed
  have fr: "f32_from (face_bytes w) (2 + k * 4) n = replicate n (f32_of_bits w)" if "k + n \<le> 51" for k n
  proof (rule nth_equalityI)
    fix i
    assume "i < length (f32_from (face_bytes w) (2 + k * 4) n)"
    then have i: "i < n" by (simp add: f32_from_def)
    have "2 + k * 4 + i * 4 = 2 + (k + i) * 4" by simp
    then show "f32_from (face_bytes w) (2 + k * 4) n ! i = replicate n (f32_of_bits w) ! i"
      using at [of "k + i"] i that by (simp add: f32_from_def)
  qed (simp add: f32_from_def)
  have len: "length (face_bytes w) = 206" unfolding face_bytes_def c by (simp only: length_append c32le.length_concat_enc length_replicate) simp
  have hd: "face_bytes w ! 0 = 1" "face_bytes w ! 1 = 1" by (simp_all add: face_bytes_def)
  show ?thesis using fr [of 0 37] fr [of 37 14] by (simp add: parse_face_data_def len hd [simplified])
qed

theorem avatar_follows_face_witness:
  "let (out, b) = bridge_run ([FaceData (face_bytes 0x3F800000)] @ [FaceData (face_bytes 0)]) (with_smoothing True (Fin 0)) in
    map (avatar (\<lambda>_. Fin 0) out) LIP_NAMES =
      map (\<lambda>i. rest_value (profile_apply (ob_weights b) (ob_offsets b) i (ob_prev_lip b ! i))) [0..<37]
    \<and> map (avatar (\<lambda>_. Fin 0) out) EYE_NAMES = ob_sent_eye b
    \<and> list_all (\<lambda>(n, v). osc_value_ok v) out"
proof (rule avatar_follows_face [OF face_bytes_parse])
  have "f32_of_bits 0 = Fin 0" by code_simp
  then show "list_all f_is_finite (replicate 37 (f32_of_bits 0))" by (simp add: list_all_iff)
  show "ob_enabled (snd (bridge_run [FaceData (face_bytes 0x3F800000)] (with_smoothing True (Fin 0))))"
    by (simp add: face_bytes_parse send_face_data_def with_smoothing_def Let_def split_beta)
qed

section \<open>Smoothing stays in range\<close>

definition unit_float :: "fl \<Rightarrow> bool" where
  "unit_float x \<longleftrightarrow> (\<exists>r. x = Fin r \<and> 0 \<le> r \<and> r \<le> 1)"

lemma rnd_1_plus: "rnd b32 (1 + 1 / 2 ^ 25) = Fin 1"
  by code_simp

lemma smooth_unit:
  assumes a: "is_float b32 a" "0 \<le> a" "a \<le> 1" and "unit_float p" and "f_is_finite r"
  shows "unit_float (smooth (Fin a) p r)"
proof -
  obtain x where p: "p = Fin x" "0 \<le> x" "x \<le> 1" using assms(4) by (auto simp: unit_float_def)
  obtain c where c: "f_clamp (Fin 0) (Fin 1) r = Fin c" "0 \<le> c" "c \<le> 1"
    using f_clamp_finite [of 0 1 r] assms(5) by (cases r) auto
  have "0 \<le> a * x" "a * x \<le> a" using a p mult_left_le [of x a] by simp_all
  then obtain m where m: "rnd b32 (a * x) = Fin m" "0 \<le> m" "m \<le> a"
    using fmt32.rnd_between [of 0 a "a * x"] a by auto
  obtain s where s: "rnd b32 (1 - a) = Fin s" "0 \<le> s" "s \<le> 1" "is_float b32 s"
    using fmt32.rnd_between [of 0 1 "1 - a"] a by auto
  have s_le: "s \<le> 1 - a + 1 / 2 ^ 25"
  proof (cases "a = 0")
    case True
    then show ?thesis using s by simp
  next
    case False
    have "\<bar>s - (1 - a)\<bar> \<le> pow2 (- 1 - (prec b32 - 1)) / 2"
      using False a by (intro fmt32.rnd_error_below [OF s(1)]) (simp_all add: b32_def)
    moreover have "pow2 (- 1 - (prec b32 - 1)) / 2 = 1 / 2 ^ 25" by (simp add: b32_def pow2_def)
    ultimately show ?thesis by linarith
  qed
  have "0 \<le> s * c" "s * c \<le> s" using s c mult_left_le [of c s] by simp_all
  then obtain y where y: "rnd b32 (s * c) = Fin y" "0 \<le> y" "y \<le> s"
    using fmt32.rnd_between [of 0 s "s * c"] s by auto
  have "m + y \<le> 1 + 1 / 2 ^ 25" using m y s_le by linarith
  then have hi: "rnd b32 (m + y) \<le> Fin 1" using fmt32.rnd_mono rnd_1_plus by metis
  have "rnd b32 0 \<le> rnd b32 (m + y)" using m y by (intro fmt32.rnd_mono) simp
  with hi show ?thesis
    by (cases "rnd b32 (m + y)") (auto simp: smooth_def p c m s y unit_float_def)
qed

definition f32_number :: "fl \<Rightarrow> bool" where
  "f32_number x \<longleftrightarrow> in_format b32 x \<and> \<not> f_is_nan x"

definition alpha_ok :: "fl \<Rightarrow> bool" where
  "alpha_ok x \<longleftrightarrow> (\<exists>a. x = Fin a \<and> is_float b32 a \<and> 0 \<le> a \<and> a \<le> 1)"

lemma clamp_alpha: "f32_number s \<Longrightarrow> alpha_ok (f_clamp (Fin 0) MAX_SMOOTHING s)"
proof -
  assume s: "f32_number s"
  obtain m where m: "MAX_SMOOTHING = Fin m" "0 \<le> m" "m \<le> 1" "is_float b32 m"
    unfolding MAX_SMOOTHING_def f32_lit_def using fmt32.rnd_between [of 0 1 "99/100"] by auto
  have "in_format b32 (f_clamp (Fin 0) (Fin m) s)" using s m(4) by (intro f_clamp_in_format) (simp_all add: f32_number_def)
  moreover obtain r where "f_clamp (Fin 0) (Fin m) s = Fin r" "0 \<le> r" "r \<le> m"
    using f_clamp_finite [of 0 m s] m s by (cases s) (auto simp: f32_number_def)
  ultimately show ?thesis using m(3) unfolding m(1) by (auto simp: alpha_ok_def)
qed

lemma loop_unit:
  assumes "apply_smoothing_and_send alpha scale i raw names prev sent = (prev', sent', out)"
    and "alpha_ok alpha" and "list_all unit_float prev"
  shows "list_all unit_float prev'"
  using assms
proof (induction alpha scale i raw names prev sent arbitrary: prev' sent' out
    rule: apply_smoothing_and_send.induct)
  case (1 alpha scale i r raw n names p prev s sent)
  obtain p1 s1 v where one: "send_one alpha (scale i) r p s = (p1, s1, v)" by (metis prod_cases3)
  obtain prev2 sent2 out2 where rest:
    "apply_smoothing_and_send alpha scale (i + 1) raw names prev sent = (prev2, sent2, out2)"
    by (metis prod_cases3)
  have "unit_float p1" using send_one_cases [OF one] smooth_unit [of _ p r] "1.prems"(2,3) one
    by (cases "f_is_finite r") (auto simp: alpha_ok_def send_one_def)
  with "1.IH" [OF one [symmetric] refl refl rest] "1.prems" one rest show ?case by auto
qed auto

definition smoothing_inv :: "osc_bridge \<Rightarrow> bool" where
  "smoothing_inv b \<longleftrightarrow> alpha_ok (ob_smoothing b) \<and> list_all unit_float (ob_prev_lip b) \<and> list_all unit_float (ob_prev_eye b)"

lemma loop_unit_fst:
  "alpha_ok alpha \<Longrightarrow> list_all unit_float prev \<Longrightarrow>
   list_all unit_float (fst (apply_smoothing_and_send alpha scale i raw names prev sent))"
  using loop_unit [of alpha scale i raw names prev sent]
  by (cases "apply_smoothing_and_send alpha scale i raw names prev sent") auto

lemma send_face_inv: "smoothing_inv b \<Longrightarrow> smoothing_inv (snd (send_face_data lv ev lip eye b))"
  by (simp add: send_face_data_def Let_def split_beta smoothing_inv_def loop_unit_fst)

definition event_numbers :: "bridge_event \<Rightarrow> bool" where
  "event_numbers e = (case e of
     Profile (Some p) \<Rightarrow> (case fp_smoothing_override p of Some s \<Rightarrow> f32_number s | None \<Rightarrow> True)
   | _ \<Rightarrow> True)"

lemma bridge_step_inv: "smoothing_inv b \<Longrightarrow> event_numbers e \<Longrightarrow> smoothing_inv (snd (bridge_step e b))"
proof (cases e)
  case (FaceData payload)
  moreover assume "smoothing_inv b"
  ultimately show ?thesis by (auto simp: send_face_inv split: option.splits)
qed (auto simp: set_profile_def set_enabled_def event_numbers_def clamp_alpha smoothing_inv_def Let_def split: option.splits)

text \<open>
  C37. The smoothed values never leave \<open>0..1\<close>, exactly, for any frames: rounding cannot push the
  moving average above 1, and NaN, infinite and out-of-range inputs cannot poison it.
\<close>
theorem smoothing_bounded:
  assumes "f32_number s" and "list_all event_numbers es"
  shows "list_all unit_float (ob_prev_lip (snd (bridge_run es (with_smoothing k s))))
    \<and> list_all unit_float (ob_prev_eye (snd (bridge_run es (with_smoothing k s))))"
proof -
  have "smoothing_inv b \<Longrightarrow> smoothing_inv (snd (bridge_run es b))" for b
    using assms(2)
  proof (induction es arbitrary: b)
    case (Cons e es)
    then show ?case using bridge_step_inv [of b e] by (simp add: Let_def split_beta)
  qed simp
  moreover have "smoothing_inv (with_smoothing k s)"
    using clamp_alpha [OF assms(1)] by (simp add: smoothing_inv_def with_smoothing_def list_all_iff unit_float_def)
  ultimately show ?thesis by (simp add: smoothing_inv_def)
qed

theorem smoothing_bounded_witness:
  "list_all unit_float (ob_prev_lip (snd (bridge_run [FaceData (face_bytes 0x7F800000), FaceData (face_bytes 0x40000000)] (with_smoothing True DEFAULT_SMOOTHING))))"
proof -
  have "f32_number DEFAULT_SMOOTHING" unfolding f32_number_def DEFAULT_SMOOTHING_def f32_lit_def
    using fmt32.rnd_between [of 0 1 "6/10"] by auto
  then show ?thesis by (intro conjunct1 [OF smoothing_bounded]) (simp_all add: event_numbers_def)
qed

end
