(* ===== verification/Calibration.thy ===== *)
theory Calibration imports OscBridge begin

text \<open>
  \<open>face_tracking/calibration.rs\<close>: the two-step calibration and the profile it computes.
\<close>

section \<open>Calibration\<close>

definition FRAMES_PER_STEP :: nat where "FRAMES_PER_STEP = 90"
definition F32_MAX :: fl where "F32_MAX = Fin ((2 ^ 24 - 1) * 2 ^ 104)"
definition F32_MIN :: fl where "F32_MIN = Fin (- ((2 ^ 24 - 1) * 2 ^ 104))"

datatype calibration_step = Relax | ExaggerateAll | CalDone

fun step_index :: "calibration_step \<Rightarrow> nat" where
  "step_index Relax = 0" | "step_index ExaggerateAll = 1" | "step_index CalDone = 2"

fun next_step :: "calibration_step \<Rightarrow> calibration_step" where
  "next_step Relax = ExaggerateAll" | "next_step ExaggerateAll = CalDone" | "next_step CalDone = CalDone"

record calibration_state =
  cs_step :: calibration_step
  cs_frames :: nat
  cs_min :: "fl list"
  cs_max :: "fl list"
  cs_name :: string

definition calibration_new :: "string \<Rightarrow> calibration_state" where
  "calibration_new name = \<lparr>cs_step = Relax, cs_frames = 0, cs_min = replicate TOTAL_BLENDSHAPES F32_MAX,
     cs_max = replicate TOTAL_BLENDSHAPES F32_MIN, cs_name = name\<rparr>"

definition cal_min :: "fl \<Rightarrow> fl \<Rightarrow> fl" where
  "cal_min m v = (if f_is_finite v \<and> v < m then v else m)"

definition cal_max :: "fl \<Rightarrow> fl \<Rightarrow> fl" where
  "cal_max m v = (if f_is_finite v \<and> m < v then v else m)"

definition calibration_update :: "fl list \<Rightarrow> fl list \<Rightarrow> calibration_state \<Rightarrow> bool \<times> calibration_state" where
  "calibration_update lip eye s =
     (if cs_step s = CalDone then (True, s)
      else
        let s = s\<lparr>cs_min := map2 cal_min (cs_min s) (lip @ eye), cs_max := map2 cal_max (cs_max s) (lip @ eye),
                  cs_frames := cs_frames s + 1\<rparr>
        in if FRAMES_PER_STEP \<le> cs_frames s then (True, s\<lparr>cs_frames := 0, cs_step := next_step (cs_step s)\<rparr>)
           else (False, s))"

definition RANGE_THRESHOLD :: fl where "RANGE_THRESHOLD = f32_lit (1 / 100)"

definition weight_of_range :: "fl \<Rightarrow> fl \<Rightarrow> fl" where
  "weight_of_range mn mx =
     (let range = f_sub b32 mx mn in if RANGE_THRESHOLD < range then f_div b32 (Fin 1) range else Fin 1)"

definition offset_of_range :: "fl \<Rightarrow> fl \<Rightarrow> fl" where
  "offset_of_range mn mx =
     (let range = f_sub b32 mx mn in if RANGE_THRESHOLD < range then f_clamp (Fin 0) (Fin 1) mn else Fin 0)"

definition compute_profile :: "calibration_state \<Rightarrow> ft_profile" where
  "compute_profile s = \<lparr>fp_name = cs_name s, fp_weights = map2 weight_of_range (cs_min s) (cs_max s),
     fp_smoothing_override = None, fp_offsets = map2 offset_of_range (cs_min s) (cs_max s)\<rparr>"

section \<open>Calibration\<close>

fun cal_run :: "(fl list \<times> fl list) list \<Rightarrow> calibration_state \<Rightarrow> calibration_state" where
  "cal_run [] s = s"
| "cal_run ((lip, eye) # fs) s = cal_run fs (snd (calibration_update lip eye s))"

definition frame_shape :: "fl list \<times> fl list \<Rightarrow> bool" where
  "frame_shape f \<longleftrightarrow> length (fst f) = 37 \<and> length (snd f) = 14"

text \<open>The number of frames taken into account so far.\<close>

definition cal_count :: "calibration_state \<Rightarrow> nat" where
  "cal_count s = 90 * step_index (cs_step s) + cs_frames s"

definition cal_inv :: "calibration_state \<Rightarrow> bool" where
  "cal_inv s \<longleftrightarrow> cs_frames s < 90 \<and> (cs_step s = CalDone \<longrightarrow> cs_frames s = 0)"

lemma cal_step_done: "cal_inv s \<Longrightarrow> cs_step s = CalDone \<longleftrightarrow> cal_count s = 180"
  by (cases "cs_step s") (auto simp: cal_inv_def cal_count_def)

lemma calibration_update_count:
  "cal_inv s \<Longrightarrow> cal_inv (snd (calibration_update lip eye s))
     \<and> cal_count (snd (calibration_update lip eye s)) = min 180 (cal_count s + 1)"
  by (cases "cs_step s") (auto simp: calibration_update_def cal_inv_def cal_count_def FRAMES_PER_STEP_def Let_def)

lemma cal_run_count:
  "cal_inv s \<Longrightarrow> cal_inv (cal_run fs s) \<and> cal_count (cal_run fs s) = min 180 (cal_count s + length fs)"
proof (induction fs arbitrary: s)
  case Nil
  have "cal_count s \<le> 180" using Nil by (cases "cs_step s") (auto simp: cal_inv_def cal_count_def)
  with Nil show ?case by simp
next
  case (Cons f fs)
  obtain lip eye where f: "f = (lip, eye)" by fastforce
  show ?case using Cons.IH [of "snd (calibration_update lip eye s)"] calibration_update_count [OF Cons.prems]
    by (simp add: f)
qed

definition sample :: "nat \<Rightarrow> fl list \<times> fl list \<Rightarrow> fl" where
  "sample i f = (fst f @ snd f) ! i"

lemma calibration_update_minmax:
  assumes "cs_step s \<noteq> CalDone" and "length lip = 37" "length eye = 14" and "length (cs_min s) = 51" "length (cs_max s) = 51"
  shows "length (cs_min (snd (calibration_update lip eye s))) = 51 \<and> length (cs_max (snd (calibration_update lip eye s))) = 51
    \<and> (i < 51 \<longrightarrow> cs_min (snd (calibration_update lip eye s)) ! i = cal_min (cs_min s ! i) (sample i (lip, eye))
        \<and> cs_max (snd (calibration_update lip eye s)) ! i = cal_max (cs_max s ! i) (sample i (lip, eye)))"
  using assms by (simp add: calibration_update_def Let_def sample_def)

lemma cal_run_minmax:
  assumes "cal_inv s" and "list_all frame_shape fs" and "length (cs_min s) = 51" "length (cs_max s) = 51" and "i < 51"
  shows "length (cs_min (cal_run fs s)) = 51 \<and> length (cs_max (cal_run fs s)) = 51
    \<and> cs_min (cal_run fs s) ! i = foldl cal_min (cs_min s ! i) (map (sample i) (take (180 - cal_count s) fs))
    \<and> cs_max (cal_run fs s) ! i = foldl cal_max (cs_max s ! i) (map (sample i) (take (180 - cal_count s) fs))"
  using assms
proof (induction fs arbitrary: s)
  case (Cons f fs)
  obtain lip eye where f: "f = (lip, eye)" by fastforce
  let ?s = "snd (calibration_update lip eye s)"
  show ?case
  proof (cases "cs_step s = CalDone")
    case True
    then have "?s = s" "180 - cal_count s = 0"
      using cal_step_done [OF Cons.prems(1)] by (simp_all add: calibration_update_def)
    then show ?thesis using Cons.IH [of s] Cons.prems by (simp add: f)
  next
    case False
    then have c: "cal_count s < 180" using Cons.prems(1)
      by (cases "cs_step s") (auto simp: cal_inv_def cal_count_def)
    have len: "length lip = 37" "length eye = 14" using Cons.prems(2) by (simp_all add: f frame_shape_def)
    have t: "180 - cal_count s = Suc (180 - cal_count ?s)"
      using calibration_update_count [OF Cons.prems(1), of lip eye] c by simp
    note m = calibration_update_minmax [OF False len Cons.prems(3,4), of i]
    have "cal_inv ?s" using calibration_update_count [OF Cons.prems(1)] by blast
    from Cons.IH [OF this] m Cons.prems(2,5) show ?thesis unfolding t by (simp add: f)
  qed
qed simp

lemma new_cal: "cal_inv (calibration_new name)" "cal_count (calibration_new name) = 0"
    "length (cs_min (calibration_new name)) = 51" "length (cs_max (calibration_new name)) = 51"
    "i < 51 \<Longrightarrow> cs_min (calibration_new name) ! i = F32_MAX \<and> cs_max (calibration_new name) ! i = F32_MIN"
  by (simp_all add: calibration_new_def cal_inv_def cal_count_def TOTAL_BLENDSHAPES_def)

lemma range_threshold: "RANGE_THRESHOLD = Fin (5368709 / 536870912)"
  by code_simp

lemma weight_of_range_ok: "f_is_finite (weight_of_range mn mx) \<and> Fin 0 \<le> weight_of_range mn mx"
proof (cases "RANGE_THRESHOLD < f_sub b32 mx mn")
  case True
  show ?thesis
  proof (cases "f_sub b32 mx mn")
    case (Fin r)
    with True have "5368709 / 536870912 < r" by (simp add: range_threshold)
    then have r: "1 / 128 < r" by simp
    then have "0 \<le> 1 / r" "1 / r \<le> 128" by (simp_all add: divide_simps)
    moreover have "is_float b32 128" using fmt32.is_float_int [of 128] by (simp add: b32_def)
    ultimately obtain q where "rnd b32 (1 / r) = Fin q" "0 \<le> q"
      using fmt32.rnd_between [of 0 128 "1 / r"] by auto
    with True Fin r show ?thesis by (simp add: weight_of_range_def)
  qed (use True in \<open>simp_all add: weight_of_range_def f_div_def\<close>)
qed (simp add: weight_of_range_def)

lemma offset_of_range_ok: "mn \<noteq> NaN \<Longrightarrow> Fin 0 \<le> offset_of_range mn mx \<and> offset_of_range mn mx \<le> Fin 1"
  using f_clamp_bounds [of "Fin 0" "Fin 1" mn] by (simp add: offset_of_range_def Let_def)

lemma cal_min_number: "m \<noteq> NaN \<Longrightarrow> cal_min m v \<noteq> NaN"
  by (cases v) (simp_all add: cal_min_def)

lemma foldl_cal_min_number: "m \<noteq> NaN \<Longrightarrow> foldl cal_min m xs \<noteq> NaN"
  by (induction xs arbitrary: m) (simp_all add: cal_min_number)

lemma compute_profile_ok:
  assumes "length (cs_min s) = 51" "length (cs_max s) = 51" and "\<And>i. i < 51 \<Longrightarrow> cs_min s ! i \<noteq> NaN"
  shows "profile_ok (compute_profile s)"
  using assms weight_of_range_ok offset_of_range_ok
  by (auto simp: profile_ok_def compute_profile_def TOTAL_BLENDSHAPES_def list_all_iff set_zip)

text \<open>
  Calibration takes exactly the first 180 frames: each blendshape's range is the smallest and the
  largest finite value among them, whatever NaN or infinite values come in between, and the profile it
  computes is valid, so loading it back changes nothing.
\<close>
theorem calibration_exact:
  assumes "list_all frame_shape fs" and "i < 51"
  shows "let s = cal_run fs (calibration_new name) in
    (cs_step s = CalDone \<longleftrightarrow> 180 \<le> length fs)
    \<and> cs_min s ! i = foldl cal_min F32_MAX (map (sample i) (take 180 fs))
    \<and> cs_max s ! i = foldl cal_max F32_MIN (map (sample i) (take 180 fs))
    \<and> profile_ok (compute_profile s) \<and> profile_validate (compute_profile s) = compute_profile s"
proof -
  let ?s = "cal_run fs (calibration_new name)"
  note new = new_cal [where name = name]
  note count = cal_run_count [OF new(1), of fs]
  note mm = cal_run_minmax [OF new(1) assms(1) new(3,4)]
  have "cs_step ?s = CalDone \<longleftrightarrow> 180 \<le> length fs"
    using cal_step_done [of ?s] count new(2) by auto
  moreover have "cs_min ?s ! j \<noteq> NaN" if "j < 51" for j
    using mm [OF that] new(5) [OF that] foldl_cal_min_number [of F32_MAX] by (simp add: F32_MAX_def)
  ultimately show ?thesis
    using mm [OF assms(2)] new(2) new(5) [OF assms(2)] compute_profile_ok [of ?s] profile_validate_id by (simp add: Let_def)
qed

theorem calibration_exact_witness:
  "let s = cal_run [(replicate 37 (Fin (1 / 4)), replicate 14 NaN)] (calibration_new ''me'') in
    cs_min s ! 0 = Fin (1 / 4) \<and> cs_min s ! 50 = F32_MAX"
  using calibration_exact [of "[(replicate 37 (Fin (1 / 4)), replicate 14 NaN)]" 0 "''me''"]
    calibration_exact [of "[(replicate 37 (Fin (1 / 4)), replicate 14 NaN)]" 50 "''me''"]
  by (simp add: frame_shape_def sample_def cal_min_def F32_MAX_def Let_def nth_append)

text \<open>
  C40. With the calibrated profile the relaxed face sends exactly 0 and the exaggerated one 1, to
  within \<open>2 ^ -23\<close>.
\<close>
theorem calibrated_range:
  assumes "length (cs_min s) = 51" "length (cs_max s) = 51" and "i < 51"
    and "cs_min s ! i = Fin a" "cs_max s ! i = Fin b" and "0 \<le> a" "b \<le> 1" and "RANGE_THRESHOLD < f_sub b32 (Fin b) (Fin a)"
  shows "profile_apply (Some (fp_weights (compute_profile s))) (Some (fp_offsets (compute_profile s))) i (Fin a) = Fin 0
    \<and> (\<exists>r. profile_apply (Some (fp_weights (compute_profile s))) (Some (fp_offsets (compute_profile s))) i (Fin b) = Fin r
        \<and> 1 - 1 / 2 ^ 23 \<le> r \<and> r \<le> 1)"
proof -
  have "rnd b32 (b - a) \<le> rnd b32 1" using assms(6,7) by (intro fmt32.rnd_mono) simp
  then have top: "rnd b32 (b - a) \<le> Fin 1" using fmt32.is_float_1 by (simp add: is_float_def)
  then obtain r where r: "rnd b32 (b - a) = Fin r"
    using assms(8) by (cases "rnd b32 (b - a)") (auto simp: range_threshold)
  have lo: "1 / 128 < r" using assms(8) r by (simp add: range_threshold)
  have ab: "a < b"
  proof (rule ccontr)
    assume "\<not> a < b"
    then have "rnd b32 (b - a) \<le> rnd b32 0" by (intro fmt32.rnd_mono) simp
    with r lo show False by simp
  qed
  have hi: "r \<le> 1" using r top by simp
  have a1: "a \<le> 1" using ab assms(7) by linarith
  have "is_float b32 128" using fmt32.is_float_int [of 128] by (simp add: b32_def)
  moreover have "0 \<le> 1 / r" "1 / r \<le> 128" using lo by (simp_all add: divide_simps)
  ultimately obtain q where q: "rnd b32 (1 / r) = Fin q" "0 \<le> q" "q \<le> 128"
    using fmt32.rnd_between [of 0 128 "1 / r"] by auto
  let ?k = "- ilog2 r"
  have rk: "pow2 (- ?k) \<le> r" "r < pow2 (- ?k + 1)" using ilog2_bounds [of r] lo by simp_all
  have "- 8 \<le> ilog2 r" using ilog2_le_iff [of r "- 8"] lo by (simp add: pow2_def)
  moreover have "ilog2 r \<le> 0"
  proof (rule ccontr)
    assume "\<not> ilog2 r \<le> 0"
    then have "pow2 1 \<le> r" using ilog2_le_iff [of r 1] lo by simp
    with hi show False by (simp add: pow2_def)
  qed
  ultimately have k: "0 \<le> ?k" "?k \<le> 8" by simp_all
  have inv: "1 / r \<le> pow2 ?k" "0 < 1 / r"
    using rk(1) lo by (simp_all add: divide_simps pow2_diff [of 0, simplified])
  then have "\<bar>1 / r\<bar> < pow2 (?k + 1)" using pow2_succ [of ?k] pow2_pos [of ?k] by linarith
  then have err: "\<bar>q - 1 / r\<bar> \<le> pow2 (?k - (prec b32 - 1)) / 2"
    by (rule fmt32.rnd_error_below [OF q(1)]) (use k in \<open>simp add: b32_def\<close>)
  have p: "pow2 (?k - (prec b32 - 1)) = pow2 ?k / 2 ^ 23"
    by (simp add: pow2_diff b32_def) (simp add: pow2_def)
  have "r * (pow2 ?k / 2 ^ 23 / 2) \<le> pow2 (- ?k + 1) * (pow2 ?k / 2 ^ 23 / 2)"
    using rk(2) by (intro mult_right_mono) simp_all
  also have "\<dots> = 1 / 2 ^ 23" by (simp add: pow2_add pow2_diff [of 0, simplified]) (simp add: pow2_def)
  finally have bound: "r * (pow2 ?k / 2 ^ 23 / 2) \<le> 1 / 2 ^ 23" .
  have "1 / r - pow2 ?k / 2 ^ 23 / 2 \<le> q" using err unfolding p by linarith
  then have "r * (1 / r - pow2 ?k / 2 ^ 23 / 2) \<le> r * q" using lo by (intro mult_left_mono) simp_all
  then have low: "1 - 1 / 2 ^ 23 \<le> r * q" using bound lo by (simp add: right_diff_distrib)
  have f: "is_float b32 (1 - 1 / 2 ^ 23)"
    by (rule fmt32.is_float_dyadic [of _ "2 ^ 23 - 1" "- 23"]) (simp_all add: b32_def pow2_def)
  have "Fin (1 - 1 / 2 ^ 23) \<le> rnd b32 (r * q)"
    using fmt32.rnd_mono [OF low] f by (simp add: is_float_def)
  then have "\<exists>y. f_clamp (Fin 0) (Fin 1) (rnd b32 (r * q)) = Fin y \<and> 1 - 1 / 2 ^ 23 \<le> y \<and> y \<le> 1"
    by (cases "rnd b32 (r * q)") (auto simp: f_clamp_def)
  moreover have w: "fp_weights (compute_profile s) ! i = Fin q" "fp_offsets (compute_profile s) ! i = Fin a"
      "length (fp_weights (compute_profile s)) = 51" "length (fp_offsets (compute_profile s)) = 51"
    using assms r lo a1 q(1) by (simp_all add: compute_profile_def weight_of_range_def offset_of_range_def f_clamp_Fin)
  ultimately show ?thesis using assms(3) r q by (simp add: profile_apply_def get_or_def f_clamp_Fin)
qed


theorem calibrated_range_witness:
  "let s = (calibration_new ''me'')\<lparr>cs_min := replicate 51 (Fin (1 / 4)), cs_max := replicate 51 (Fin (3 / 4))\<rparr>;
       p = compute_profile s
   in profile_apply (Some (fp_weights p)) (Some (fp_offsets p)) 3 (Fin (1 / 4)) = Fin 0"
proof -
  have h: "rnd b32 (1 / 2) = Fin (1 / 2)" by code_simp
  show ?thesis
    using calibrated_range [of "(calibration_new ''me'')\<lparr>cs_min := replicate 51 (Fin (1 / 4)), cs_max := replicate 51 (Fin (3 / 4))\<rparr>" 3 "1/4" "3/4"]
    by (simp add: h range_threshold Let_def)
qed

end
