(* ===== verification/Mirror.thy ===== *)
theory Mirror imports Prelude begin

text \<open>
  \<open>face_tracking/ft_mirror.rs\<close>: the frames of the headset's face camera and their buffer.
\<close>

section \<open>Camera mirror\<close>

datatype pixel_format = Nv12 | Jpeg | Rgb24

record mirror_frame =
  mf_width :: u16
  mf_height :: u16
  mf_format :: pixel_format
  mf_timestamp_us :: u64
  mf_data :: bytes

definition format_of :: "u8 \<Rightarrow> pixel_format option" where
  "format_of b = (if b = 0 then Some Nv12 else if b = 1 then Some Jpeg else if b = 2 then Some Rgb24 else None)"

fun format_code :: "pixel_format \<Rightarrow> u8" where
  "format_code Nv12 = 0" | "format_code Jpeg = 1" | "format_code Rgb24 = 2"

definition parse_mirror_frame :: "bytes \<Rightarrow> mirror_frame option" where
  "parse_mirror_frame payload =
     (if length payload < 13 then None
      else case format_of (payload ! 4) of
             None \<Rightarrow> None
           | Some fm \<Rightarrow> Some \<lparr>mf_width = u16_of_le (sub_range payload 0 2), mf_height = u16_of_le (sub_range payload 2 4),
               mf_format = fm, mf_timestamp_us = u64_of_le (sub_range payload 5 13), mf_data = drop 13 payload\<rparr>)"

definition encode_mirror_request :: "bool \<Rightarrow> u16 \<Rightarrow> u16 \<Rightarrow> pixel_format \<Rightarrow> bytes" where
  "encode_mirror_request enable max_width max_height fm =
     [if enable then 1 else 0] @ u16_le max_width @ u16_le max_height @ [format_code fm]"

record mirror_receiver =
  mr_buffer :: "mirror_frame list"
  mr_max_frames :: nat
  mr_received :: nat
  mr_dropped :: nat
  mr_enabled :: bool

definition mirror_new :: "nat \<Rightarrow> mirror_receiver" where
  "mirror_new n = \<lparr>mr_buffer = [], mr_max_frames = n, mr_received = 0, mr_dropped = 0, mr_enabled = False\<rparr>"

definition mirror_set_enabled :: "bool \<Rightarrow> mirror_receiver \<Rightarrow> mirror_receiver" where
  "mirror_set_enabled e r = (let r = r\<lparr>mr_enabled := e\<rparr> in if \<not> e then r\<lparr>mr_buffer := []\<rparr> else r)"

definition push_frame :: "mirror_frame \<Rightarrow> mirror_receiver \<Rightarrow> mirror_receiver" where
  "push_frame f r =
     (if \<not> mr_enabled r then r
      else r\<lparr>mr_received := mr_received r + 1,
             mr_dropped := (if mr_max_frames r \<le> length (mr_buffer r) then mr_dropped r + 1 else mr_dropped r),
             mr_buffer := push_bounded (mr_max_frames r) (mr_buffer r) f\<rparr>)"

definition latest_frame :: "mirror_receiver \<Rightarrow> mirror_frame option" where
  "latest_frame r = (if mr_buffer r = [] then None else Some (last (mr_buffer r)))"

definition take_latest :: "mirror_receiver \<Rightarrow> mirror_frame option \<times> mirror_receiver" where
  "take_latest r = (latest_frame r, r\<lparr>mr_buffer := butlast (mr_buffer r)\<rparr>)"

section \<open>The mirror's buffer\<close>

text \<open>What a headset sends for a frame.\<close>

definition encode_mirror_frame :: "mirror_frame \<Rightarrow> bytes" where
  "encode_mirror_frame f = u16_le (mf_width f) @ u16_le (mf_height f) @ [format_code (mf_format f)]
     @ u64_le (mf_timestamp_us f) @ mf_data f"

theorem mirror_frame_roundtrip: "parse_mirror_frame (encode_mirror_frame f) = Some f"
proof -
  have "sub_range (u16_le w @ u16_le h @ [c] @ t @ r) 0 2 = u16_le w"
    "sub_range (u16_le w @ u16_le h @ [c] @ t @ r) 2 4 = u16_le h"
    "(u16_le w @ u16_le h @ [c] @ t @ r) ! 4 = c"
    "drop 13 (u16_le w @ u16_le h @ [c] @ u64_le x @ r) = r"
    "sub_range (u16_le w @ u16_le h @ [c] @ u64_le x @ r) 5 13 = u64_le x"
    for w h c t r x
    by (simp_all add: sub_range_def nth_append)
  moreover have "format_of (format_code m) = Some m" for m by (cases m) (simp_all add: format_of_def)
  ultimately show ?thesis by (simp add: parse_mirror_frame_def encode_mirror_frame_def)
qed

lemma mirror_push_all:
  assumes "mr_enabled r" and "0 < mr_max_frames r" and "mr_buffer r = drop (length old - mr_max_frames r) old"
  shows "mr_buffer (fold push_frame fs r) = drop (length (old @ fs) - mr_max_frames r) (old @ fs)
    \<and> mr_received (fold push_frame fs r) = mr_received r + length fs"
  using assms
proof (induction fs arbitrary: r old)
  case (Cons f fs)
  let ?r = "push_frame f r" and ?n = "mr_max_frames r"
  have "length (mr_buffer r) \<le> ?n" using Cons.prems(3) by simp
  then have "mr_buffer ?r = drop (length (mr_buffer r) + 1 - ?n) (mr_buffer r @ [f])"
    using Cons.prems(1,2) by (simp add: push_frame_def push_bounded_suffix)
  also have "\<dots> = drop (length (old @ [f]) - ?n) (old @ [f])"
    by (cases "?n \<le> length old") (auto simp: Cons.prems(3) drop_Suc Suc_diff_le)
  finally have "mr_buffer ?r = drop (length (old @ [f]) - ?n) (old @ [f])" .
  then show ?case using Cons.IH [of ?r "old @ [f]"] Cons.prems by (simp add: push_frame_def)
qed simp

theorem mirror_keeps_newest:
  assumes "0 < n"
  shows "let r = fold push_frame fs (mirror_set_enabled True (mirror_new n)) in
    mr_buffer r = drop (length fs - n) fs \<and> mr_received r = length fs
    \<and> latest_frame r = (if fs = [] then None else Some (last fs))
    \<and> mr_buffer (mirror_set_enabled False r) = []"
proof -
  have "mr_buffer (fold push_frame fs (mirror_set_enabled True (mirror_new n))) = drop (length fs - n) fs
    \<and> mr_received (fold push_frame fs (mirror_set_enabled True (mirror_new n))) = length fs"
    using mirror_push_all [of "mirror_set_enabled True (mirror_new n)" "[]" fs] assms
    by (simp add: mirror_set_enabled_def mirror_new_def)
  moreover have "length fs \<le> length fs - n \<longrightarrow> fs = []" using assms by (metis diff_less leD length_greater_0_conv)
  ultimately show ?thesis by (simp add: latest_frame_def Let_def mirror_set_enabled_def)
qed

end
