(* ===== verification/ControlChannel.thy ===== *)
theory ControlChannel imports Handshake OscBridge Adaptive begin

text \<open>
  The control connection of a running session (\<open>engine.rs\<close>, the "tcp-control" task): haptic events and
  their route, the framing of the incoming bytes, the handling of each message with its rate limits, and
  the loop over the events its \<open>select!\<close> waits for. What the task does to the rest of the engine (the
  event queue of the frame loop, the recording flags, the driver's callbacks, the frames it writes) is
  collected in its state. Every clock read is an argument: \<open>tm k\<close> is the time at which the \<open>k\<close>-th
  message of one read is handled.
\<close>

section \<open>Haptic events\<close>

record haptic_event =
  he_controller_id :: u8
  he_duration_ms :: u16
  he_frequency :: u32
  he_amplitude :: u32

definition to_payload :: "haptic_event \<Rightarrow> bytes" where
  "to_payload e = [he_controller_id e] @ u16_le (he_duration_ms e) @ u32_le (he_frequency e) @ u32_le (he_amplitude e)"

definition from_payload :: "bytes \<Rightarrow> haptic_event option" where
  "from_payload d =
     (if length d < 11 then None
      else Some \<lparr>he_controller_id = d ! 0, he_duration_ms = u16_of_le (sub_range d 1 3),
        he_frequency = u32_of_le (sub_range d 3 7), he_amplitude = u32_of_le (sub_range d 7 11)\<rparr>)"

text \<open>The route: sessions own channels (numbered), the slot names the one in use.\<close>

definition HAPTIC_CAPACITY :: nat where "HAPTIC_CAPACITY = 16"

record haptic_state =
  hp_slot :: "nat option"
  hp_queue :: "nat \<Rightarrow> haptic_event list"
  hp_closed :: "nat \<Rightarrow> bool"
  hp_drops :: nat

definition queue_haptic :: "haptic_event \<Rightarrow> haptic_state \<Rightarrow> haptic_state" where
  "queue_haptic e s =
     (case hp_slot s of
        None \<Rightarrow> s
      | Some c \<Rightarrow>
          if hp_closed s c \<or> HAPTIC_CAPACITY \<le> length (hp_queue s c) then s\<lparr>hp_drops := hp_drops s + 1\<rparr>
          else s\<lparr>hp_queue := (hp_queue s)(c := hp_queue s c @ [e])\<rparr>)"

definition route_install :: "nat \<Rightarrow> haptic_state \<Rightarrow> haptic_state" where
  "route_install c s = s\<lparr>hp_slot := Some c\<rparr>"

definition route_drop :: "nat \<Rightarrow> haptic_state \<Rightarrow> haptic_state" where
  "route_drop c s = (if hp_slot s = Some c then s\<lparr>hp_slot := None\<rparr> else s)"

section \<open>Framing\<close>

text \<open>Result and the rest of the inbox.\<close>

function take_control_message :: "bytes \<Rightarrow> (nat + bytes option) \<times> bytes" where
  "take_control_message inbox =
     (if length inbox < 4 then (Inr None, inbox)
      else let len = unat (u32_of_le (sub_range inbox 0 4)) in
        if len = 0 then take_control_message (drop 4 inbox)
        else if MAX_MSG_LEN < len then (Inl len, inbox)
        else if length inbox < 4 + len then (Inr None, inbox)
        else (Inr (Some (sub_range inbox 4 (4 + len))), drop (4 + len) inbox))"
  by pat_completeness auto
termination by (relation "measure length") auto

declare take_control_message.simps [simp del]

section \<open>Session state of the channel\<close>

datatype disconnect_reason = ClientRequested | ConnectionLost | ProtocolError

record hmd_stats =
  hm_received :: u32
  hm_lost :: u32
  hm_decode_us :: u32
  hm_fps :: u16

datatype control_event =
  Heartbeat hmd_stats
| TransportFeedback "feedback_entry list"
| BitrateSetting nat

definition CONTROL_EVENT_CAPACITY :: nat where "CONTROL_EVENT_CAPACITY = 256"
definition CONTROL_SILENCE_LIMIT :: duration where
  "CONTROL_SILENCE_LIMIT = HEARTBEAT_INTERVAL_MS * HEARTBEAT_MAX_MISSES * nanos_per_ms"
definition CONFIG_UPDATE_MIN_INTERVAL_MS :: nat where "CONFIG_UPDATE_MIN_INTERVAL_MS = 1000"
definition IDR_MIN_INTERVAL :: duration where "IDR_MIN_INTERVAL = 500 * nanos_per_ms"

record channel =
  ch_inbox :: bytes
  ch_silence :: instant
  ch_last_idr :: instant
  ch_idr_suppressed :: nat
  ch_last_config :: instant
  ch_events :: "control_event list"
  ch_events_closed :: bool
  ch_event_drops :: nat
  ch_osc :: osc_bridge
  ch_osc_out :: "(string \<times> fl) list"
  ch_recording :: bool
  ch_audio_recording :: bool
  ch_idr_notices :: "instant list"
  ch_views :: "view_config list"
  ch_sent :: "(u8 \<times> bytes) list"
  ch_config_acks :: "instant list"

text \<open>\<open>Instant - Duration\<close> panics before the clock's origin: no channel then.\<close>

definition channel_new :: "instant \<Rightarrow> osc_bridge \<Rightarrow> bool \<Rightarrow> bool \<Rightarrow> channel option" where
  "channel_new now osc video_flag audio_flag =
     (if now < 2 * nanos_per_sec then None
      else Some \<lparr>ch_inbox = [], ch_silence = now + CONTROL_SILENCE_LIMIT, ch_last_idr = now - nanos_per_sec,
        ch_idr_suppressed = 0, ch_last_config = now - 2 * nanos_per_sec, ch_events = [], ch_events_closed = False,
        ch_event_drops = 0, ch_osc = osc, ch_osc_out = [], ch_recording = video_flag,
        ch_audio_recording = audio_flag, ch_idr_notices = [], ch_views = [], ch_sent = [], ch_config_acks = []\<rparr>)"

definition forward :: "control_event \<Rightarrow> channel \<Rightarrow> channel" where
  "forward e c =
     (if ch_events_closed c then c
      else if CONTROL_EVENT_CAPACITY \<le> length (ch_events c) then c\<lparr>ch_event_drops := ch_event_drops c + 1\<rparr>
      else c\<lparr>ch_events := ch_events c @ [e]\<rparr>)"

definition send_msg :: "u8 \<Rightarrow> bytes \<Rightarrow> channel \<Rightarrow> channel" where
  "send_msg mt payload c = c\<lparr>ch_sent := ch_sent c @ [(mt, payload)]\<rparr>"

section \<open>Messages\<close>

definition ACK_ACCEPTED :: u8 where "ACK_ACCEPTED = 0x01"
definition ACK_REJECTED :: u8 where "ACK_REJECTED = 0x00"

text \<open>\<open>apply_recording_config_update\<close> and \<open>apply_audio_recording_config_update\<close>.\<close>

definition apply_recording_update :: "nat \<Rightarrow> bool \<Rightarrow> u8 \<times> bool" where
  "apply_recording_update v state =
     (if v = 0 then (ACK_ACCEPTED, False) else if v = 1 then (ACK_ACCEPTED, True) else (ACK_REJECTED, state))"

definition apply_audio_recording_update :: "nat \<Rightarrow> bool \<Rightarrow> u8 \<times> bool" where
  "apply_audio_recording_update v state =
     (if v = 0 then (ACK_ACCEPTED, False) else if v = 1 then (ACK_ACCEPTED, True) else (ACK_REJECTED, state))"

definition on_idr_request :: "instant \<Rightarrow> channel \<Rightarrow> channel" where
  "on_idr_request now c =
     (if IDR_MIN_INTERVAL \<le> now - ch_last_idr c
      then c\<lparr>ch_last_idr := now, ch_idr_notices := ch_idr_notices c @ [now]\<rparr>
      else c\<lparr>ch_idr_suppressed := ch_idr_suppressed c + 1\<rparr>)"

definition parse_heartbeat :: "bytes \<Rightarrow> hmd_stats option" where
  "parse_heartbeat payload =
     (if length payload < 26 then None
      else Some \<lparr>hm_received = u32_of_le (sub_range payload 12 16), hm_lost = u32_of_le (sub_range payload 16 20),
        hm_decode_us = u32_of_le (sub_range payload 20 24), hm_fps = u16_of_le (sub_range payload 24 26)\<rparr>)"

text \<open>\<open>lat\<close>: the latency figures of the HEARTBEAT_ACK at that moment.\<close>

definition on_heartbeat :: "u32 \<times> u32 \<Rightarrow> bytes \<Rightarrow> channel \<Rightarrow> channel" where
  "on_heartbeat lat payload c =
     (case parse_heartbeat payload of
        None \<Rightarrow> c
      | Some stats \<Rightarrow> send_msg (msg_code HEARTBEAT_ACK) (u32_le (fst lat) @ u32_le (snd lat)) (forward (Heartbeat stats) c))"

definition on_face_data :: "bytes \<Rightarrow> channel \<Rightarrow> channel" where
  "on_face_data payload c =
     (let (out, osc) = bridge_step (FaceData payload) (ch_osc c)
      in c\<lparr>ch_osc := osc, ch_osc_out := ch_osc_out c @ out\<rparr>)"

definition on_feedback :: "bytes \<Rightarrow> channel \<Rightarrow> channel" where
  "on_feedback payload c =
     (case parse_transport_feedback payload of Some entries \<Rightarrow> forward (TransportFeedback entries) c | None \<Rightarrow> c)"

definition config_value :: "bytes \<Rightarrow> nat" where
  "config_value payload = unat (u32_of_le (sub_range payload 1 5))"

text \<open>The key's effect and the status to acknowledge.\<close>

definition apply_config_key :: "u8 \<Rightarrow> nat \<Rightarrow> channel \<Rightarrow> u8 \<times> channel" where
  "apply_config_key key v c =
     (if key = 0x01 then
        (if MIN_BITRATE_MBPS \<le> v \<and> v \<le> MAX_BITRATE_MBPS then (0x01, forward (BitrateSetting v) c) else (0x00, c))
      else if key = 0x02 then (0x00, c)
      else if key = 0x03 then
        (let (ack, s) = apply_recording_update v (ch_recording c) in (ack, c\<lparr>ch_recording := s\<rparr>))
      else if key = 0x05 then
        (let (ack, s) = apply_audio_recording_update v (ch_audio_recording c) in (ack, c\<lparr>ch_audio_recording := s\<rparr>))
      else (0x00, c))"

definition on_config_update :: "instant \<Rightarrow> bytes \<Rightarrow> channel \<Rightarrow> channel" where
  "on_config_update now payload c =
     (if now - ch_last_config c < CONFIG_UPDATE_MIN_INTERVAL_MS * nanos_per_ms then c
      else if 5 \<le> length payload then
        let c = c\<lparr>ch_last_config := now, ch_config_acks := ch_config_acks c @ [now]\<rparr>;
            key = payload ! 0;
            (ack, c) = apply_config_key key (config_value payload) c
        in send_msg (msg_code CONFIG_UPDATE_ACK) [ack, key] c
      else c)"

definition on_view_config :: "bytes \<Rightarrow> channel \<Rightarrow> channel" where
  "on_view_config payload c =
     (case parse_view_config payload of Some v \<Rightarrow> c\<lparr>ch_views := ch_views c @ [v]\<rparr> | None \<Rightarrow> c)"

definition handle_message :: "instant \<Rightarrow> u32 \<times> u32 \<Rightarrow> bytes \<Rightarrow> channel \<Rightarrow> disconnect_reason option \<times> channel" where
  "handle_message now lat msg c =
     (let msg_type = hd msg; payload = tl msg in
      if msg_type = msg_code IDR_REQUEST then (None, on_idr_request now c)
      else if msg_type = msg_code HEARTBEAT then (None, on_heartbeat lat payload c)
      else if msg_type = msg_code FACE_DATA then (None, on_face_data payload c)
      else if msg_type = msg_code TRANSPORT_FEEDBACK then (None, on_feedback payload c)
      else if msg_type = msg_code CONFIG_UPDATE then (None, on_config_update now payload c)
      else if msg_type = msg_code VIEW_CONFIG then (None, on_view_config payload c)
      else if msg_type = msg_code DISCONNECT then (Some ClientRequested, c)
      else (None, c))"

section \<open>The loop\<close>

lemma take_control_message_shorter:
  "take_control_message inbox = (Inr (Some msg), rest) \<Longrightarrow> length rest < length inbox"
proof (induction inbox arbitrary: msg rest rule: take_control_message.induct)
  case (1 inbox)
  show ?case
  proof (cases "length inbox < 4 \<or> unat (u32_of_le (sub_range inbox 0 4)) \<noteq> 0")
    case True
    with 1(2) show ?thesis by (subst (asm) take_control_message.simps) (auto simp: Let_def split: if_splits)
  next
    case False
    with 1(2) have "take_control_message (drop 4 inbox) = (Inr (Some msg), rest)"
      by (subst (asm) take_control_message.simps) simp
    from 1(1) [OF _ refl _ this] False show ?thesis by simp
  qed
qed

lemma forward_inbox [simp]: "ch_inbox (forward e c) = ch_inbox c"
  by (simp add: forward_def)

lemma handle_message_inbox [simp]: "ch_inbox (snd (handle_message now lat msg c)) = ch_inbox c"
  by (simp add: handle_message_def on_idr_request_def on_heartbeat_def on_face_data_def on_feedback_def
      on_config_update_def apply_config_key_def on_view_config_def send_msg_def Let_def split_beta
      split: option.split)

lemma handle_inbox_measure:
  assumes "(Inr (Some msg), rest) = take_control_message (ch_inbox c)"
    and "(None, c') = handle_message now lat msg (c\<lparr>ch_inbox := rest\<rparr>)"
  shows "length (ch_inbox c') < length (ch_inbox c)"
proof -
  have "ch_inbox c' = rest" using handle_message_inbox [of now lat msg "c\<lparr>ch_inbox := rest\<rparr>"]
    by (simp add: assms(2) [symmetric])
  then show ?thesis using take_control_message_shorter assms(1) [symmetric] by simp
qed

function handle_inbox ::
  "(nat \<Rightarrow> instant \<times> u32 \<times> u32) \<Rightarrow> nat \<Rightarrow> channel \<Rightarrow> disconnect_reason option \<times> channel" where
  "handle_inbox tm k c =
     (case take_control_message (ch_inbox c) of
        (Inr None, rest) \<Rightarrow> (None, c\<lparr>ch_inbox := rest\<rparr>)
      | (Inl len, rest) \<Rightarrow> (Some ProtocolError, c\<lparr>ch_inbox := rest\<rparr>)
      | (Inr (Some msg), rest) \<Rightarrow>
          (case handle_message (fst (tm k)) (snd (tm k)) msg (c\<lparr>ch_inbox := rest\<rparr>) of
             (Some reason, c') \<Rightarrow> (Some reason, c')
           | (None, c') \<Rightarrow> handle_inbox tm (k + 1) c'))"
  by pat_completeness auto
termination
  by (relation "measure (\<lambda>(tm, k, c). length (ch_inbox c))") (auto intro: handle_inbox_measure)

declare handle_inbox.simps [simp del]

text \<open>
  What the loop's \<open>select!\<close> can wake up for: a read (its time, the clock of the messages it completes
  and what it returned, nothing for the end of the stream or an error), a poll of the silence timer,
  the two queues the task drains, and the frame loop taking the oldest event.
\<close>

datatype channel_input =
  Read instant "nat \<Rightarrow> instant \<times> u32 \<times> u32" bytes
| SilencePoll instant
| HapticReady haptic_event
| SleepReady bool
| FrameLoopTakes

definition on_read ::
  "instant \<Rightarrow> (nat \<Rightarrow> instant \<times> u32 \<times> u32) \<Rightarrow> bytes \<Rightarrow> channel \<Rightarrow> disconnect_reason option \<times> channel" where
  "on_read now tm chunk c =
     (if chunk = [] then (Some ConnectionLost, c)
      else handle_inbox tm 0 (c\<lparr>ch_inbox := ch_inbox c @ chunk, ch_silence := now + CONTROL_SILENCE_LIMIT\<rparr>))"

fun channel_step :: "channel_input \<Rightarrow> channel \<Rightarrow> disconnect_reason option \<times> channel" where
  "channel_step (Read now tm chunk) c = on_read now tm chunk c"
| "channel_step (SilencePoll now) c = (if ch_silence c \<le> now then (Some ConnectionLost, c) else (None, c))"
| "channel_step (HapticReady e) c = (None, send_msg (msg_code HAPTIC_EVENT) (to_payload e) c)"
| "channel_step (SleepReady is_sleep) c =
     (None, send_msg (if is_sleep then msg_code SLEEP_ENTER else msg_code SLEEP_EXIT) [] c)"
| "channel_step FrameLoopTakes c = (None, c\<lparr>ch_events := tl (ch_events c)\<rparr>)"

fun handle_tcp_control :: "channel_input list \<Rightarrow> channel \<Rightarrow> disconnect_reason option \<times> channel" where
  "handle_tcp_control [] c = (None, c)"
| "handle_tcp_control (i # is') c =
     (case channel_step i c of
        (Some reason, c') \<Rightarrow> (Some reason, c')
      | (None, c') \<Rightarrow> handle_tcp_control is' c')"

section \<open>The byte stream, message by message\<close>

text \<open>The reference reading of a stream: its messages, and what is left (or the length that broke it).\<close>

function split_messages :: "bytes \<Rightarrow> bytes list \<times> (nat + bytes)" where
  "split_messages s =
     (case take_control_message s of
        (Inr None, rest) \<Rightarrow> ([], Inr rest)
      | (Inl len, rest) \<Rightarrow> ([], Inl len)
      | (Inr (Some msg), rest) \<Rightarrow> (let (ms, st) = split_messages rest in (msg # ms, st)))"
  by pat_completeness auto
termination
  by (relation "measure length") (auto dest: take_control_message_shorter [OF sym])

declare split_messages.simps [simp del]

fun handle_all ::
  "(nat \<Rightarrow> instant \<times> u32 \<times> u32) \<Rightarrow> nat \<Rightarrow> bytes list \<Rightarrow> nat + bytes \<Rightarrow> channel \<Rightarrow> disconnect_reason option \<times> channel" where
  "handle_all tm k [] (Inl len) c = (Some ProtocolError, c)"
| "handle_all tm k [] (Inr rest) c = (None, c)"
| "handle_all tm k (m # ms) st c =
     (case handle_message (fst (tm k)) (snd (tm k)) m c of
        (Some reason, c') \<Rightarrow> (Some reason, c')
      | (None, c') \<Rightarrow> handle_all tm (k + 1) ms st c')"

lemma take_append:
  "(\<forall>m r. take_control_message a = (Inr (Some m), r) \<longrightarrow> take_control_message (a @ b) = (Inr (Some m), r @ b))
   \<and> (\<forall>len r. take_control_message a = (Inl len, r) \<longrightarrow> take_control_message (a @ b) = (Inl len, r @ b))
   \<and> (\<forall>r. take_control_message a = (Inr None, r) \<longrightarrow>
        take_control_message (a @ b) = take_control_message (r @ b) \<and> take_control_message r = (Inr None, r))"
proof (induction a rule: take_control_message.induct)
  case (1 a)
  let ?len = "unat (u32_of_le (sub_range a 0 4))"
  show ?case
  proof (cases "length a < 4")
    case True
    then show ?thesis by (simp add: take_control_message.simps [of a])
  next
    case F: False
    then have pre: "sub_range (a @ b) 0 4 = sub_range a 0 4" "drop 4 (a @ b) = drop 4 a @ b" "\<not> length (a @ b) < 4"
      by (simp_all add: sub_range_def)
    show ?thesis
    proof (cases "?len = 0")
      case True
      have "take_control_message a = take_control_message (drop 4 a)"
        "take_control_message (a @ b) = take_control_message (drop 4 a @ b)"
        using F True pre by (simp_all add: take_control_message.simps [of a] take_control_message.simps [of "a @ b"])
      with 1 [OF F refl True] show ?thesis by simp
    next
      case L: False
      show ?thesis
      proof (cases "MAX_MSG_LEN < ?len")
        case True
        then show ?thesis using F L pre
          by (simp add: take_control_message.simps [of a] take_control_message.simps [of "a @ b"])
      next
        case M: False
        show ?thesis
        proof (cases "length a < 4 + ?len")
          case True
          then show ?thesis using F L M by (simp add: take_control_message.simps [of a])
        next
          case False
          then have "sub_range (a @ b) 4 (4 + ?len) = sub_range a 4 (4 + ?len)" "drop (4 + ?len) (a @ b) = drop (4 + ?len) a @ b"
            by (simp_all add: sub_range_def)
          then show ?thesis using F L M False pre
            by (simp add: take_control_message.simps [of a] take_control_message.simps [of "a @ b"] Let_def)
        qed
      qed
    qed
  qed
qed
lemma split_unfold:
  "take_control_message s = (Inr None, r) \<Longrightarrow> split_messages s = ([], Inr r)"
  "take_control_message s = (Inl len, r) \<Longrightarrow> split_messages s = ([], Inl len)"
  "take_control_message s = (Inr (Some m), r) \<Longrightarrow>
     split_messages s = (m # fst (split_messages r), snd (split_messages r))"
  by (simp_all add: split_messages.simps [of s] split_beta)

lemma taken_cases:
  obtains (wait) r where "take_control_message s = (Inr None, r)"
  | (broken) len r where "take_control_message s = (Inl len, r)"
  | (message) m r where "take_control_message s = (Inr (Some m), r)"
  by (metis option.exhaust sum.exhaust surj_pair)

lemma split_append:
  "split_messages (a @ b) =
     (case split_messages a of
        (ms, Inl len) \<Rightarrow> (ms, Inl len)
      | (ms, Inr rest) \<Rightarrow> (ms @ fst (split_messages (rest @ b)), snd (split_messages (rest @ b))))"
proof (induction a rule: split_messages.induct)
  case (1 a)
  note ap = take_append [of a b]
  show ?case
  proof (cases a rule: taken_cases)
    case (wait r)
    with ap have "take_control_message (a @ b) = take_control_message (r @ b)" by simp
    then have "split_messages (a @ b) = split_messages (r @ b)"
      by (simp add: split_messages.simps [of "a @ b"] split_messages.simps [of "r @ b"])
    with wait show ?thesis by (simp add: split_unfold(1))
  next
    case (broken len r)
    with ap show ?thesis by (simp add: split_unfold(2))
  next
    case (message m r)
    with ap have "take_control_message (a @ b) = (Inr (Some m), r @ b)" by simp
    with 1 [OF message [symmetric] refl refl] message show ?thesis
      by (auto simp: split_unfold(3) split: prod.splits sum.splits)
  qed
qed

lemma split_rest: "split_messages s = (ms, Inr rest) \<Longrightarrow> split_messages rest = ([], Inr rest)"
proof (induction s arbitrary: ms rule: split_messages.induct)
  case (1 s)
  show ?case
  proof (cases s rule: taken_cases)
    case (wait r)
    then have "take_control_message r = (Inr None, r)" using take_append [of s "[]"] by blast
    from split_unfold(1) [OF this] split_unfold(1) [OF wait] 1(2) show ?thesis by simp
  next
    case (broken len r)
    from split_unfold(2) [OF this] 1(2) show ?thesis by simp
  next
    case (message m r)
    from split_unfold(3) [OF message] 1(2) have "split_messages r = (tl ms, Inr rest)" by (auto simp: prod_eq_iff)
    with 1(1) [OF message [symmetric] refl refl] show ?thesis .
  qed
qed

text \<open>Frames, as the headset sends them, are read back; empty ones carry nothing.\<close>

definition frame_of :: "bytes \<Rightarrow> bytes" where
  "frame_of m = u32_le (of_nat (length m)) @ m"

lemma take_frame:
  assumes "0 < length m" and "length m \<le> MAX_MSG_LEN"
  shows "take_control_message (frame_of m @ rest) = (Inr (Some m), rest)"
proof -
  have len: "unat (of_nat (length m) :: u32) = length m"
    using assms(2) by (simp add: unat_of_nat MAX_MSG_LEN_def)
  have h: "sub_range (frame_of m @ rest) 0 4 = u32_le (of_nat (length m))"
    "sub_range (frame_of m @ rest) 4 (4 + length m) = m" "drop (4 + length m) (frame_of m @ rest) = rest"
    by (simp_all add: frame_of_def sub_range_def)
  have l: "length (frame_of m @ rest) = 4 + length m + length rest" by (simp add: frame_of_def)
  show ?thesis unfolding take_control_message.simps [of "frame_of m @ rest"] h(1)
    using assms l by (simp add: len h(2,3))
qed

lemma split_frames:
  "list_all (\<lambda>m. 0 < length m \<and> length m \<le> MAX_MSG_LEN) ms \<Longrightarrow>
   split_messages (concat (map frame_of ms) @ rest) = (ms @ fst (split_messages rest), snd (split_messages rest))"
  by (induction ms) (simp_all add: split_unfold(3) [OF take_frame])

section \<open>The loop follows the stream\<close>

definition strip :: "channel \<Rightarrow> channel" where
  "strip c = c\<lparr>ch_inbox := [], ch_silence := 0\<rparr>"

lemma forward_strip: "strip (forward e c) = forward e (strip c)"
  by (simp add: forward_def strip_def)

lemma send_msg_strip: "strip (send_msg mt p c) = send_msg mt p (strip c)"
  by (simp add: send_msg_def strip_def)

lemma strip_selectors:
  "ch_last_idr (strip c) = ch_last_idr c" "ch_last_config (strip c) = ch_last_config c"
  "ch_osc (strip c) = ch_osc c" "ch_recording (strip c) = ch_recording c"
  "ch_audio_recording (strip c) = ch_audio_recording c"
  by (simp_all add: strip_def)

lemma on_strip:
  "on_idr_request now (strip c) = strip (on_idr_request now c)"
  "on_heartbeat lat p (strip c) = strip (on_heartbeat lat p c)"
  "on_face_data p (strip c) = strip (on_face_data p c)"
  "on_feedback p (strip c) = strip (on_feedback p c)"
  "on_view_config p (strip c) = strip (on_view_config p c)"
  subgoal by (simp add: on_idr_request_def strip_def)
  subgoal by (simp add: on_heartbeat_def send_msg_strip forward_strip split: option.split)
  subgoal by (simp add: on_face_data_def strip_selectors split_beta Let_def del: bridge_step.simps) (simp add: strip_def)
  subgoal by (simp add: on_feedback_def forward_strip split: option.split)
  subgoal by (simp add: on_view_config_def strip_def split: option.split)
  done

lemma apply_key_strip:
  "fst (apply_config_key key v (strip c)) = fst (apply_config_key key v c)
   \<and> snd (apply_config_key key v (strip c)) = strip (snd (apply_config_key key v c))"
  by (simp add: apply_config_key_def forward_strip strip_selectors split_beta Let_def) (simp add: strip_def)

lemma on_config_strip: "on_config_update now p (strip c) = strip (on_config_update now p c)"
proof -
  have "strip c\<lparr>ch_last_config := now, ch_config_acks := ch_config_acks (strip c) @ [now]\<rparr>
      = strip (c\<lparr>ch_last_config := now, ch_config_acks := ch_config_acks c @ [now]\<rparr>)"
    by (simp add: strip_def)
  then show ?thesis
    by (simp add: on_config_update_def strip_selectors split_beta Let_def apply_key_strip send_msg_strip)
qed

lemma handle_message_strip:
  "fst (handle_message now lat m (strip c)) = fst (handle_message now lat m c)
   \<and> snd (handle_message now lat m (strip c)) = strip (snd (handle_message now lat m c))"
  by (simp add: handle_message_def Let_def on_strip on_config_strip)

lemma strip_inbox: "strip (c\<lparr>ch_inbox := x\<rparr>) = strip c" "strip (c\<lparr>ch_silence := t\<rparr>) = strip c"
    "strip (c\<lparr>ch_inbox := x, ch_silence := t\<rparr>) = strip c" "strip (strip c) = strip c"
  by (simp_all add: strip_def)

lemma handle_all_strip:
  "fst (handle_all tm k ms st (strip c)) = fst (handle_all tm k ms st c)
   \<and> strip (snd (handle_all tm k ms st (strip c))) = strip (snd (handle_all tm k ms st c))"
proof (induction ms arbitrary: k c)
  case Nil
  show ?case by (cases st) (simp_all add: strip_inbox)
next
  case (Cons m ms)
  obtain r c' where h: "handle_message (fst (tm k)) (snd (tm k)) m c = (r, c')" by fastforce
  then have h2: "handle_message (fst (tm k)) (snd (tm k)) m (strip c) = (r, strip c')"
    using handle_message_strip [of "fst (tm k)" "snd (tm k)" m c] by (simp add: prod_eq_iff)
  from Cons.IH [of "k + 1" c'] show ?case by (cases r) (simp_all add: h h2 strip_inbox)
qed

lemma handle_inbox_all:
  assumes "split_messages (ch_inbox c) = (ms, st)"
  shows "fst (handle_inbox tm k c) = fst (handle_all tm k ms st c)
    \<and> strip (snd (handle_inbox tm k c)) = strip (snd (handle_all tm k ms st c))
    \<and> (fst (handle_inbox tm k c) = None \<longrightarrow> st = Inr (ch_inbox (snd (handle_inbox tm k c))))"
  using assms
proof (induction tm k c arbitrary: ms rule: handle_inbox.induct)
  case (1 tm k c)
  show ?case
  proof (cases "ch_inbox c" rule: taken_cases)
    case (wait r)
    from split_unfold(1) [OF this] 1(2) have "ms = []" "st = Inr r" by auto
    then show ?thesis by (simp add: handle_inbox.simps [of tm k c] wait strip_inbox)
  next
    case (broken len r)
    from split_unfold(2) [OF this] 1(2) have "ms = []" "st = Inl len" by auto
    then show ?thesis by (simp add: handle_inbox.simps [of tm k c] broken strip_inbox)
  next
    case (message m r)
    from split_unfold(3) [OF this] 1(2) have sp: "ms = m # fst (split_messages r)" "st = snd (split_messages r)" by auto
    let ?c = "c\<lparr>ch_inbox := r\<rparr>"
    obtain x c' where h: "handle_message (fst (tm k)) (snd (tm k)) m ?c = (x, c')" by fastforce
    obtain x2 c2 where h2: "handle_message (fst (tm k)) (snd (tm k)) m c = (x2, c2)" by fastforce
    have same: "x2 = x" "strip c2 = strip c'"
      using handle_message_strip [of "fst (tm k)" "snd (tm k)" m c] handle_message_strip [of "fst (tm k)" "snd (tm k)" m ?c]
      by (simp_all add: h h2 strip_inbox)
    have "ch_inbox c' = r" using handle_message_inbox [of "fst (tm k)" "snd (tm k)" m ?c] by (simp add: h)
    then have sr: "split_messages (ch_inbox c') = (fst (split_messages r), st)" by (simp add: sp)
    show ?thesis
    proof (cases x)
      case (Some reason)
      then show ?thesis using same by (simp add: handle_inbox.simps [of tm k c] message h h2 sp(1))
    next
      case None
      have IH: "fst (handle_inbox tm (k + 1) c') = fst (handle_all tm (k + 1) (fst (split_messages r)) st c')
          \<and> strip (snd (handle_inbox tm (k + 1) c')) = strip (snd (handle_all tm (k + 1) (fst (split_messages r)) st c'))
          \<and> (fst (handle_inbox tm (k + 1) c') = None \<longrightarrow> st = Inr (ch_inbox (snd (handle_inbox tm (k + 1) c'))))"
        using 1(1) [OF message [symmetric] refl refl h [symmetric] None sr] .
      have "fst (handle_all tm (k + 1) l st c2) = fst (handle_all tm (k + 1) l st c')
          \<and> strip (snd (handle_all tm (k + 1) l st c2)) = strip (snd (handle_all tm (k + 1) l st c'))" for l
        using handle_all_strip [of tm "k + 1" l st c2] handle_all_strip [of tm "k + 1" l st c'] same(2) by simp
      with IH show ?thesis using None same(1)
        by (simp add: handle_inbox.simps [of tm k c] message h h2 sp(1))
    qed
  qed
qed

lemma handle_all_append:
  "handle_all tm k (ms @ ns) st c =
     (case handle_all tm k ms (Inr []) c of
        (Some reason, c') \<Rightarrow> (Some reason, c')
      | (None, c') \<Rightarrow> handle_all tm (k + length ms) ns st c')"
  by (induction ms arbitrary: k c) (auto split: option.splits prod.splits)

lemma handle_all_rest: "handle_all tm k ms (Inr r) c = handle_all tm k ms (Inr r') c"
  by (induction ms arbitrary: k c) (auto split: option.splits prod.splits)

lemma handle_all_shift: "handle_all (\<lambda>j. tm (i + j)) k ms st c = handle_all tm (i + k) ms st c"
proof (induction ms arbitrary: k c)
  case Nil
  show ?case by (cases st) simp_all
next
  case (Cons m ms)
  from Cons [of "k + 1"] show ?case by (simp split: option.split prod.split)
qed

text \<open>A sequence of reads, the clock counting messages from the start of the connection.\<close>

fun run_reads ::
  "(nat \<Rightarrow> instant \<times> u32 \<times> u32) \<Rightarrow> nat \<Rightarrow> (instant \<times> bytes) list \<Rightarrow> channel \<Rightarrow> disconnect_reason option \<times> channel" where
  "run_reads tm k [] c = (None, c)"
| "run_reads tm k ((now, chunk) # reads) c =
     (case channel_step (Read now (\<lambda>j. tm (k + j)) chunk) c of
        (Some reason, c') \<Rightarrow> (Some reason, c')
      | (None, c') \<Rightarrow> run_reads tm (k + length (fst (split_messages (ch_inbox c @ chunk)))) reads c')"

lemma run_reads_all:
  assumes "list_all (\<lambda>(now, chunk). chunk \<noteq> []) reads" and "split_messages (ch_inbox c) = ([], Inr (ch_inbox c))"
    and "split_messages (ch_inbox c @ concat (map snd reads)) = (ms, st)"
  shows "fst (run_reads tm k reads c) = fst (handle_all tm k ms st c)
    \<and> strip (snd (run_reads tm k reads c)) = strip (snd (handle_all tm k ms st c))"
  using assms
proof (induction reads arbitrary: k c ms)
  case Nil
  then show ?case by auto
next
  case (Cons a reads)
  obtain now chunk where a: "a = (now, chunk)" by fastforce
  have ne: "chunk \<noteq> []" using Cons.prems(1) by (simp add: a)
  let ?c = "c\<lparr>ch_inbox := ch_inbox c @ chunk, ch_silence := now + CONTROL_SILENCE_LIMIT\<rparr>"
  obtain ms1 st1 where s1: "split_messages (ch_inbox c @ chunk) = (ms1, st1)" by fastforce
  let ?h = "handle_inbox (\<lambda>j. tm (k + j)) 0 ?c"
  have step: "channel_step (Read now (\<lambda>j. tm (k + j)) chunk) c = ?h" using ne by (simp add: on_read_def)
  have s1': "split_messages (ch_inbox ?c) = (ms1, st1)" using s1 by simp
  note H = handle_inbox_all [OF s1', of "\<lambda>j. tm (k + j)" 0, unfolded handle_all_shift, simplified]
  have base: "fst (handle_all tm k ms1 st1 ?c) = fst (handle_all tm k ms1 st1 c)"
    "strip (snd (handle_all tm k ms1 st1 ?c)) = strip (snd (handle_all tm k ms1 st1 c))"
    using handle_all_strip [of tm k ms1 st1 ?c] handle_all_strip [of tm k ms1 st1 c] by (simp_all add: strip_inbox)
  have whole: "split_messages (ch_inbox c @ concat (map snd (a # reads))) =
      (case st1 of Inl len \<Rightarrow> (ms1, Inl len)
       | Inr rest \<Rightarrow> (ms1 @ fst (split_messages (rest @ concat (map snd reads))), snd (split_messages (rest @ concat (map snd reads)))))"
    using split_append [of "ch_inbox c @ chunk" "concat (map snd reads)"] s1 by (simp add: a)
  show ?case
  proof (cases "fst ?h")
    case (Some reason)
    then have run: "run_reads tm k (a # reads) c = ?h" by (simp add: a step del: channel_step.simps) (simp add: split_beta prod_eq_iff)
    have stop: "handle_all tm k ms1 st1 c = handle_all tm k ms st c
        \<or> (\<exists>x y. handle_all tm k ms1 (Inr []) c = (Some x, y) \<and> handle_all tm k ms1 st1 c = (Some x, y) \<and> handle_all tm k ms st c = (Some x, y))"
    proof (cases st1)
      case (Inl len)
      with whole Cons.prems(3) show ?thesis by simp
    next
      case (Inr rest)
      with H base Some have "fst (handle_all tm k ms1 (Inr []) c) = Some reason"
        using handle_all_rest [of tm k ms1 rest _ "[]"] by simp
      then obtain y where y: "handle_all tm k ms1 (Inr []) c = (Some reason, y)" by (cases "handle_all tm k ms1 (Inr []) c") auto
      moreover have "handle_all tm k ms st c = (Some reason, y)"
        using whole Cons.prems(3) Inr handle_all_append [of tm k ms1 _ st c] y by auto
      ultimately show ?thesis using Inr handle_all_rest [of tm k ms1 rest c "[]"] by auto
    qed
    then have eq: "handle_all tm k ms st c = handle_all tm k ms1 st1 c" by (elim disjE exE conjE) (simp_all only:)
    show ?thesis unfolding run eq
      by (intro conjI trans [OF conjunct1 [OF H] base(1)] trans [OF conjunct1 [OF conjunct2 [OF H]] base(2)])
  next
    case None
    let ?c' = "snd ?h"
    have st1: "st1 = Inr (ch_inbox ?c')" using H None by simp
    have run: "run_reads tm k (a # reads) c = run_reads tm (k + length ms1) reads ?c'"
      using None by (simp add: a step s1 del: channel_step.simps) (simp add: split_beta prod_eq_iff s1)
    have rest: "split_messages (ch_inbox ?c') = ([], Inr (ch_inbox ?c'))"
      by (rule split_rest [where s = "ch_inbox c @ chunk" and ms = ms1]) (simp add: s1 st1)
    obtain ms2 st2 where s2: "split_messages (ch_inbox ?c' @ concat (map snd reads)) = (ms2, st2)" by fastforce
    have ms: "ms = ms1 @ ms2" "st = st2" using whole Cons.prems(3) by (simp_all add: st1 s2)
    have "fst (handle_all tm k ms1 (Inr []) c) = None"
      using H base None st1 handle_all_rest [of tm k ms1 "ch_inbox ?c'" c "[]"] by simp
    then obtain d where d: "handle_all tm k ms1 (Inr []) c = (None, d)" by (cases "handle_all tm k ms1 (Inr []) c") auto
    have eq: "strip d = strip ?c'"
      using H base st1 d handle_all_rest [of tm k ms1 "ch_inbox ?c'" c "[]"] by simp
    have all: "handle_all tm k ms st c = handle_all tm (k + length ms1) ms2 st d"
      by (simp add: ms(1) handle_all_append d)
    have reads: "list_all (\<lambda>(now, chunk). chunk \<noteq> []) reads" using Cons.prems(1) by simp
    from Cons.IH [OF reads rest s2 [folded ms(2)], of "k + length ms1"] show ?thesis unfolding run all
      using handle_all_strip [of tm "k + length ms1" ms2 st d] handle_all_strip [of tm "k + length ms1" ms2 st ?c']
      by (simp add: eq)
  qed
qed

lemma channel_new_some:
  "channel_new now osc v a = Some c \<Longrightarrow> ch_inbox c = [] \<and> ch_silence c = now + CONTROL_SILENCE_LIMIT \<and> ch_idr_notices c = []
     \<and> ch_config_acks c = [] \<and> ch_events c = [] \<and> ch_osc c = osc \<and> ch_osc_out c = [] \<and> ch_events_closed c = False \<and> ch_sent c = []"
  by (auto simp: channel_new_def split: if_splits)

text \<open>
  C13. However the network cuts the headset's messages into reads, the control connection does exactly
  what it would do if it were handed the messages whole, one after the other: the same answers, events,
  callbacks and the same end.
\<close>
theorem control_any_chunks:
  assumes "channel_new start osc v a = Some c"
    and "list_all (\<lambda>m. 0 < length m \<and> length m \<le> MAX_MSG_LEN) ms"
    and "list_all (\<lambda>(now, chunk). chunk \<noteq> []) reads" and "concat (map snd reads) = concat (map frame_of ms)"
  shows "fst (run_reads tm 0 reads c) = fst (handle_all tm 0 ms (Inr []) c)
    \<and> strip (snd (run_reads tm 0 reads c)) = strip (snd (handle_all tm 0 ms (Inr []) c))"
proof -
  have i: "ch_inbox c = []" using channel_new_some [OF assms(1)] by simp
  have e: "split_messages [] = ([], Inr [])" by (rule split_unfold(1)) (simp add: take_control_message.simps)
  have "split_messages (ch_inbox c @ concat (map snd reads)) = (ms, Inr [])"
    using split_frames [OF assms(2), of "[]"] assms(4) i e by simp
  then show ?thesis using run_reads_all [OF assms(3)] i e by simp
qed

definition sample_channel :: channel where
  "sample_channel = the (channel_new (5 * nanos_per_sec) (bridge_new False) False False)"

lemma sample_channel: "channel_new (5 * nanos_per_sec) (bridge_new False) False False = Some sample_channel"
  by (simp add: sample_channel_def channel_new_def)

lemma u32_le_1: "u32_le 1 = [1, 0, 0, 0]"
  by code_simp

theorem control_any_chunks_witness:
  "fst (run_reads (\<lambda>_. (0, 0, 0)) 0 [(0, [1, 0]), (0, [0, 0, 0xFF])] sample_channel) = Some ClientRequested"
proof -
  have f: "frame_of [0xFF] = [1, 0, 0, 0, 0xFF]"
    using u32_le_1 by (simp add: frame_of_def)
  have "fst (run_reads (\<lambda>_. (0, 0, 0)) 0 [(0, [1, 0]), (0, [0, 0, 0xFF])] sample_channel)
      = fst (handle_all (\<lambda>_. (0, 0, 0)) 0 [[0xFF]] (Inr []) sample_channel)"
    by (rule conjunct1 [OF control_any_chunks [OF sample_channel]]) (simp_all add: f MAX_MSG_LEN_def)
  then show ?thesis by (simp add: handle_message_def)
qed

section \<open>Limits the channel keeps\<close>

fun spaced :: "nat \<Rightarrow> nat list \<Rightarrow> bool" where
  "spaced d (x # y # xs) \<longleftrightarrow> x + d \<le> y \<and> spaced d (y # xs)"
| "spaced d _ \<longleftrightarrow> True"

lemma spaced_snoc: "spaced d xs \<Longrightarrow> (xs \<noteq> [] \<Longrightarrow> last xs + d \<le> t) \<Longrightarrow> spaced d (xs @ [t])"
  by (induction d xs rule: spaced.induct) (auto split: if_splits)

definition event_ok :: "control_event \<Rightarrow> bool" where
  "event_ok e = (case e of BitrateSetting v \<Rightarrow> MIN_BITRATE_MBPS \<le> v \<and> v \<le> MAX_BITRATE_MBPS
     | TransportFeedback es \<Rightarrow> length es \<le> TRANSPORT_FEEDBACK_MAX_ENTRIES | _ \<Rightarrow> True)"

definition channel_inv :: "channel \<Rightarrow> bool" where
  "channel_inv c \<longleftrightarrow>
     spaced IDR_MIN_INTERVAL (ch_idr_notices c) \<and> (ch_idr_notices c \<noteq> [] \<longrightarrow> last (ch_idr_notices c) = ch_last_idr c)
   \<and> spaced nanos_per_sec (ch_config_acks c) \<and> (ch_config_acks c \<noteq> [] \<longrightarrow> last (ch_config_acks c) = ch_last_config c)
   \<and> length (ch_config_acks c) = length (filter (\<lambda>m. fst m = msg_code CONFIG_UPDATE_ACK) (ch_sent c))
   \<and> length (ch_events c) \<le> CONTROL_EVENT_CAPACITY \<and> list_all event_ok (ch_events c)"
lemma inv_forward: "channel_inv c \<Longrightarrow> event_ok e \<Longrightarrow> channel_inv (forward e c)"
  by (simp add: channel_inv_def forward_def)

lemma inv_send: "channel_inv c \<Longrightarrow> mt \<noteq> msg_code CONFIG_UPDATE_ACK \<Longrightarrow> channel_inv (send_msg mt p c)"
  by (simp add: channel_inv_def send_msg_def)

lemma inv_idr: "channel_inv c \<Longrightarrow> channel_inv (on_idr_request now c)"
  by (auto simp: channel_inv_def on_idr_request_def IDR_MIN_INTERVAL_def intro!: spaced_snoc)

lemma inv_heartbeat: "channel_inv c \<Longrightarrow> channel_inv (on_heartbeat lat p c)"
  by (auto simp: on_heartbeat_def event_ok_def intro!: inv_send inv_forward split: option.split)

lemma inv_feedback: "channel_inv c \<Longrightarrow> channel_inv (on_feedback p c)"
  by (auto simp: on_feedback_def event_ok_def parse_transport_feedback_def Let_def intro!: inv_forward split: option.splits if_splits)

lemma inv_face: "channel_inv c \<Longrightarrow> channel_inv (on_face_data p c)"
  by (simp add: on_face_data_def channel_inv_def split_beta del: bridge_step.simps)

lemma inv_view: "channel_inv c \<Longrightarrow> channel_inv (on_view_config p c)"
  by (simp add: on_view_config_def channel_inv_def split: option.split)

text \<open>A key changes neither the times nor what was sent.\<close>

definition config_frame :: "channel \<Rightarrow> channel \<Rightarrow> bool" where
  "config_frame c c' \<longleftrightarrow> ch_idr_notices c' = ch_idr_notices c \<and> ch_last_idr c' = ch_last_idr c \<and> ch_config_acks c' = ch_config_acks c
     \<and> ch_last_config c' = ch_last_config c \<and> ch_sent c' = ch_sent c
     \<and> (length (ch_events c) \<le> CONTROL_EVENT_CAPACITY \<and> list_all event_ok (ch_events c)
         \<longrightarrow> length (ch_events c') \<le> CONTROL_EVENT_CAPACITY \<and> list_all event_ok (ch_events c'))"

lemma apply_key_frame: "config_frame c (snd (apply_config_key key v c))"
  by (simp add: apply_config_key_def split_beta forward_def event_ok_def config_frame_def)

lemma inv_config: "channel_inv c \<Longrightarrow> channel_inv (on_config_update now p c)"
proof -
  assume c: "channel_inv c"
  let ?c = "c\<lparr>ch_last_config := now, ch_config_acks := ch_config_acks c @ [now]\<rparr>"
  let ?k = "apply_config_key (p ! 0) (config_value p) ?c"
  have f: "config_frame ?c (snd ?k)" by (rule apply_key_frame)
  show ?thesis
  proof (cases "now - ch_last_config c < CONFIG_UPDATE_MIN_INTERVAL_MS * nanos_per_ms \<or> length p < 5")
    case True
    with c show ?thesis by (auto simp: on_config_update_def)
  next
    case False
    then have "nanos_per_sec \<le> now - ch_last_config c" by (simp add: CONFIG_UPDATE_MIN_INTERVAL_MS_def)
    then have "spaced nanos_per_sec (ch_config_acks c @ [now])"
      using c by (auto simp: channel_inv_def intro!: spaced_snoc)
    with c f have "channel_inv (send_msg (msg_code CONFIG_UPDATE_ACK) [fst ?k, p ! 0] (snd ?k))"
      by (auto simp: channel_inv_def config_frame_def send_msg_def)
    with False show ?thesis by (simp add: on_config_update_def Let_def split_beta)
  qed
qed

lemma inv_message: "channel_inv c \<Longrightarrow> channel_inv (snd (handle_message now lat m c))"
  by (simp add: handle_message_def Let_def inv_idr inv_heartbeat inv_face inv_feedback inv_config inv_view)

lemma inv_inbox_irrelevant: "channel_inv (c\<lparr>ch_inbox := x\<rparr>) = channel_inv c" "channel_inv (c\<lparr>ch_silence := t\<rparr>) = channel_inv c"
  by (simp_all add: channel_inv_def)

text \<open>What is left in the inbox is an incomplete message.\<close>

lemma waiting_short: "take_control_message s = (Inr None, r) \<Longrightarrow> length r < 4 + MAX_MSG_LEN"
proof (induction s rule: take_control_message.induct)
  case (1 s)
  show ?case
  proof (cases "\<not> length s < 4 \<and> unat (u32_of_le (sub_range s 0 4)) = 0")
    case True
    with 1 show ?thesis by (simp add: take_control_message.simps [of s])
  next
    case False
    with 1(2) show ?thesis by (subst (asm) take_control_message.simps) (auto simp: Let_def split: if_splits)
  qed
qed

lemma inv_handle_inbox:
  "channel_inv c \<Longrightarrow> channel_inv (snd (handle_inbox tm k c))
     \<and> (fst (handle_inbox tm k c) = None \<longrightarrow> length (ch_inbox (snd (handle_inbox tm k c))) < 4 + MAX_MSG_LEN)"
proof (induction tm k c rule: handle_inbox.induct)
  case (1 tm k c)
  show ?case
  proof (cases "ch_inbox c" rule: taken_cases)
    case (wait r)
    then show ?thesis using 1(2) waiting_short [OF wait]
      by (simp add: handle_inbox.simps [of tm k c] inv_inbox_irrelevant)
  next
    case (broken len r)
    then show ?thesis using 1(2) by (simp add: handle_inbox.simps [of tm k c] inv_inbox_irrelevant)
  next
    case (message m r)
    obtain x c' where h: "handle_message (fst (tm k)) (snd (tm k)) m (c\<lparr>ch_inbox := r\<rparr>) = (x, c')" by fastforce
    have "channel_inv c'" using inv_message [of "c\<lparr>ch_inbox := r\<rparr>" "fst (tm k)" "snd (tm k)" m] 1(2) h
      by (simp add: inv_inbox_irrelevant)
    with 1(1) [OF message [symmetric] refl refl h [symmetric]] show ?thesis
      by (cases x) (simp_all add: handle_inbox.simps [of tm k c] message h)
  qed
qed

definition inbox_small :: "channel \<Rightarrow> bool" where
  "inbox_small c \<longleftrightarrow> length (ch_inbox c) < 4 + MAX_MSG_LEN"

lemma inv_step:
  "channel_inv c \<Longrightarrow> inbox_small c \<Longrightarrow> channel_inv (snd (channel_step i c))
     \<and> (fst (channel_step i c) = None \<longrightarrow> inbox_small (snd (channel_step i c)))"
proof (cases i)
  case (Read now tm chunk)
  assume "channel_inv c" "inbox_small c"
  then have "channel_inv (c\<lparr>ch_inbox := ch_inbox c @ chunk, ch_silence := now + CONTROL_SILENCE_LIMIT\<rparr>)"
    by (simp add: channel_inv_def)
  from inv_handle_inbox [OF this] Read \<open>channel_inv c\<close> show ?thesis by (simp add: on_read_def inbox_small_def)
next
  case FrameLoopTakes
  assume "channel_inv c" "inbox_small c"
  then show ?thesis using FrameLoopTakes by (cases "ch_events c") (auto simp: channel_inv_def inbox_small_def)
qed (auto simp: inbox_small_def channel_inv_def send_msg_def)

lemma inv_run:
  "channel_inv c \<Longrightarrow> inbox_small c \<Longrightarrow> handle_tcp_control es c = (r, c') \<Longrightarrow>
   channel_inv c' \<and> (r = None \<longrightarrow> inbox_small c')"
proof (induction es arbitrary: c)
  case Nil
  then show ?case by auto
next
  case (Cons e es)
  obtain x d where s: "channel_step e c = (x, d)" by fastforce
  note st = inv_step [OF Cons.prems(1,2), of e, unfolded s]
  show ?case
  proof (cases x)
    case None
    with st Cons.IH [of d] Cons.prems(3) s show ?thesis by simp
  next
    case (Some y)
    with st Cons.prems(3) s show ?thesis by auto
  qed
qed

lemma new_inv: "channel_new start osc v a = Some c \<Longrightarrow> channel_inv c \<and> inbox_small c"
  using channel_new_some [of start osc v a c] by (simp add: channel_inv_def inbox_small_def MAX_MSG_LEN_def CONTROL_EVENT_CAPACITY_def)

text \<open>
  C14. Whatever the headset sends, the control connection requests keyframes at most twice a second,
  applies (and acknowledges) at most one configuration change a second, hands the frame loop only
  bitrates within 10 to 200 Mbit/s, queues at most 256 events for it, and, while it lasts, holds less
  than one message of unframed bytes.
\<close>
theorem control_limits:
  assumes "channel_new start osc v a = Some c"
  shows "case handle_tcp_control es c of (r, c') \<Rightarrow>
    spaced (500 * nanos_per_ms) (ch_idr_notices c') \<and> spaced nanos_per_sec (ch_config_acks c')
    \<and> length (ch_config_acks c') = length (filter (\<lambda>m. fst m = msg_code CONFIG_UPDATE_ACK) (ch_sent c'))
    \<and> length (ch_events c') \<le> 256 \<and> list_all event_ok (ch_events c')
    \<and> (case r of None \<Rightarrow> length (ch_inbox c') < 4 + MAX_MSG_LEN | Some _ \<Rightarrow> True)"
proof -
  obtain r c' where run: "handle_tcp_control es c = (r, c')" by fastforce
  from new_inv [OF assms] inv_run [OF _ _ run] have "channel_inv c'" "r = None \<longrightarrow> inbox_small c'" by blast+
  then show ?thesis
    by (auto simp: run channel_inv_def inbox_small_def IDR_MIN_INTERVAL_def CONTROL_EVENT_CAPACITY_def split: option.split)
qed

theorem control_limits_witness:
  "case handle_tcp_control [Read 0 (\<lambda>_. (7 * nanos_per_sec, 0, 0)) [1, 0, 0, 0, 0x30], SleepReady True] sample_channel of
    (r, c') \<Rightarrow> length (ch_events c') \<le> 256 \<and> spaced nanos_per_sec (ch_config_acks c')"
  using control_limits [OF sample_channel, of "[Read 0 (\<lambda>_. (7 * nanos_per_sec, 0, 0)) [1, 0, 0, 0, 0x30], SleepReady True]"]
  by (simp add: split_beta)

section \<open>Silence\<close>

fun last_read :: "instant \<Rightarrow> channel_input list \<Rightarrow> instant" where
  "last_read t [] = t"
| "last_read t (Read now tm chunk # es) = last_read now es"
| "last_read t (_ # es) = last_read t es"

lemma handle_message_silence [simp]: "ch_silence (snd (handle_message now lat m c)) = ch_silence c"
  by (simp add: handle_message_def on_idr_request_def on_heartbeat_def on_face_data_def on_feedback_def forward_def
      on_config_update_def apply_config_key_def on_view_config_def send_msg_def Let_def split_beta
      split: option.split)

lemma handle_inbox_silence: "ch_silence (snd (handle_inbox tm k c)) = ch_silence c"
proof (induction tm k c rule: handle_inbox.induct)
  case (1 tm k c)
  show ?case
  proof (cases "ch_inbox c" rule: taken_cases)
    case (message m r)
    obtain x c' where h: "handle_message (fst (tm k)) (snd (tm k)) m (c\<lparr>ch_inbox := r\<rparr>) = (x, c')" by fastforce
    have "ch_silence c' = ch_silence c" using handle_message_silence [of "fst (tm k)" "snd (tm k)" m "c\<lparr>ch_inbox := r\<rparr>"] h by simp
    with 1(1) [OF message [symmetric] refl refl h [symmetric]] show ?thesis
      by (cases x) (simp_all add: handle_inbox.simps [of tm k c] message h)
  qed (simp_all add: handle_inbox.simps [of tm k c])
qed

lemma silence_run:
  "ch_silence c = t + CONTROL_SILENCE_LIMIT \<Longrightarrow> fst (handle_tcp_control es c) = None \<Longrightarrow>
   ch_silence (snd (handle_tcp_control es c)) = last_read t es + CONTROL_SILENCE_LIMIT"
proof (induction es arbitrary: c t)
  case (Cons e es)
  obtain x d where s: "channel_step e c = (x, d)" by fastforce
  then have x: "x = None" using Cons.prems(2) by (cases x) simp_all
  show ?case
  proof (cases e)
    case (Read now tm chunk)
    have "ch_silence d = now + CONTROL_SILENCE_LIMIT"
      using s x handle_inbox_silence [of tm 0 "c\<lparr>ch_inbox := ch_inbox c @ chunk, ch_silence := now + CONTROL_SILENCE_LIMIT\<rparr>"]
      by (auto simp: Read on_read_def split: if_splits)
    with Cons.IH [of d now] Cons.prems(2) s x show ?thesis by (simp add: Read del: channel_step.simps)
  next
    case (SilencePoll now)
    with s x have "d = c" by (auto split: if_splits)
    with Cons.IH [of c t] Cons.prems s x SilencePoll show ?thesis by (simp del: channel_step.simps)
  next
    case (HapticReady h)
    with s have "ch_silence d = ch_silence c" by (auto simp: send_msg_def)
    with Cons.IH [of d t] Cons.prems s x HapticReady show ?thesis by (simp del: channel_step.simps)
  next
    case (SleepReady b)
    with s have "ch_silence d = ch_silence c" by (auto simp: send_msg_def)
    with Cons.IH [of d t] Cons.prems s x SleepReady show ?thesis by (simp del: channel_step.simps)
  next
    case FrameLoopTakes
    with s have "ch_silence d = ch_silence c" by auto
    with Cons.IH [of d t] Cons.prems s x FrameLoopTakes show ?thesis by (simp del: channel_step.simps)
  qed
qed simp

lemma run_snoc:
  "fst (handle_tcp_control es c) = None \<Longrightarrow>
   handle_tcp_control (es @ [e]) c = channel_step e (snd (handle_tcp_control es c))"
  by (induction es arbitrary: c) (auto split: option.splits prod.splits)

text \<open>
  A connection is given up for silence exactly when nothing has been read from it for 3 seconds
  (six missed heartbeats): a headset that keeps sending is never dropped, and a dead link never keeps
  the session.
\<close>
theorem silence_exact:
  assumes "channel_new start osc v a = Some c" and "fst (handle_tcp_control es c) = None"
  shows "fst (handle_tcp_control (es @ [SilencePoll now]) c) =
    (if last_read start es + 3 * nanos_per_sec \<le> now then Some ConnectionLost else None)"
proof -
  have "ch_silence c = start + CONTROL_SILENCE_LIMIT" using channel_new_some [OF assms(1)] by simp
  from silence_run [OF this assms(2)] show ?thesis
    by (simp add: run_snoc [OF assms(2)] CONTROL_SILENCE_LIMIT_def HEARTBEAT_INTERVAL_MS_def HEARTBEAT_MAX_MISSES_def)
qed

theorem silence_exact_witness:
  "fst (handle_tcp_control ([SleepReady True] @ [SilencePoll (8 * nanos_per_sec)]) sample_channel) = Some ConnectionLost"
  using silence_exact [OF sample_channel, of "[SleepReady True]" "8 * nanos_per_sec"] by simp

section \<open>Haptics\<close>

lemma haptic_payload_roundtrip: "from_payload (to_payload e) = Some e"
proof -
  have "(to_payload e) ! 0 = he_controller_id e" "sub_range (to_payload e) 1 3 = u16_le (he_duration_ms e)"
    "sub_range (to_payload e) 3 7 = u32_le (he_frequency e)" "sub_range (to_payload e) 7 11 = u32_le (he_amplitude e)"
    by (simp_all add: to_payload_def sub_range_def)
  then show ?thesis by (simp add: from_payload_def to_payload_def)
qed

text \<open>A session that ends later than its successor starts leaves the successor's route alone.\<close>

lemma stale_route_kept: "a \<noteq> b \<Longrightarrow> hp_slot (route_drop a (route_install b (route_install a s))) = Some b"
  by (simp add: route_drop_def route_install_def)

end
