(* ===== verification/Metrics.thy ===== *)
theory Metrics imports Thermal begin

text \<open>
  \<open>metrics/latency.rs\<close>, \<open>metrics/memory.rs\<close> and the meters of \<open>engine.rs\<close>: frame timestamps and the
  rolling latency average, the hourly memory growth check with the Linux reading of the resident set,
  the frame-rate meter and the loss percentage of the status file.
\<close>

section \<open>Latency\<close>

record frame_timestamps =
  fs_frame_index :: u32
  fs_present :: instant
  fs_encode_start :: "instant option"
  fs_encode_end :: "instant option"
  fs_send :: "instant option"

definition timestamps_new :: "instant \<Rightarrow> u32 \<Rightarrow> frame_timestamps" where
  "timestamps_new now i = \<lparr>fs_frame_index = i, fs_present = now, fs_encode_start = None, fs_encode_end = None, fs_send = None\<rparr>"

text \<open>\<open>Instant::checked_sub\<close> fails before the clock's origin.\<close>

definition timestamps_encoded :: "instant \<Rightarrow> u32 \<Rightarrow> duration \<Rightarrow> frame_timestamps" where
  "timestamps_encoded now i encode =
     (let start = (if encode \<le> now then now - encode else now)
      in \<lparr>fs_frame_index = i, fs_present = start, fs_encode_start = Some start, fs_encode_end = Some now, fs_send = None\<rparr>)"

definition mark_encode_start :: "instant \<Rightarrow> frame_timestamps \<Rightarrow> frame_timestamps" where
  "mark_encode_start now t = t\<lparr>fs_encode_start := Some now\<rparr>"

definition mark_encode_end :: "instant \<Rightarrow> frame_timestamps \<Rightarrow> frame_timestamps" where
  "mark_encode_end now t = t\<lparr>fs_encode_end := Some now\<rparr>"

definition mark_send :: "instant \<Rightarrow> frame_timestamps \<Rightarrow> frame_timestamps" where
  "mark_send now t = t\<lparr>fs_send := Some now\<rparr>"

text \<open>\<open>as_micros() as u64\<close>; \<open>duration_since\<close> is 0 for a later instant.\<close>

definition micros_between :: "instant \<Rightarrow> instant \<Rightarrow> nat" where
  "micros_between from t = (t - from) div nanos_per_us mod 2 ^ 64"

definition pc_latency_us :: "frame_timestamps \<Rightarrow> nat option" where
  "pc_latency_us t = map_option (micros_between (fs_present t)) (fs_send t)"

definition encode_latency_us :: "frame_timestamps \<Rightarrow> nat option" where
  "encode_latency_us t = (case (fs_encode_start t, fs_encode_end t) of
     (Some s, Some e) \<Rightarrow> Some (micros_between s e)
   | _ \<Rightarrow> None)"

record latency_tracker =
  lt_history :: "frame_timestamps list"
  lt_max_history :: nat

definition tracker_new :: "nat \<Rightarrow> latency_tracker" where
  "tracker_new n = \<lparr>lt_history = [], lt_max_history = n\<rparr>"

definition tracker_record :: "frame_timestamps \<Rightarrow> latency_tracker \<Rightarrow> latency_tracker" where
  "tracker_record t l = l\<lparr>lt_history := push_bounded (lt_max_history l) (lt_history l) t\<rparr>"

text \<open>The fold over the \<open>Some\<close> values; the sum is a \<open>u64\<close>.\<close>

definition average_of :: "nat list \<Rightarrow> nat option" where
  "average_of vs =
     (let (total, count) = foldl (\<lambda>(s, k) v. ((s + v) mod 2 ^ 64, k + 1)) (0, 0 :: nat) vs
      in if count = 0 then None else Some (total div count))"

definition avg_pc_latency_us :: "latency_tracker \<Rightarrow> nat option" where
  "avg_pc_latency_us l = average_of (List.map_filter pc_latency_us (lt_history l))"

definition avg_encode_latency_us :: "latency_tracker \<Rightarrow> nat option" where
  "avg_encode_latency_us l = average_of (List.map_filter encode_latency_us (lt_history l))"

definition tracker_frame_count :: "latency_tracker \<Rightarrow> nat" where
  "tracker_frame_count l = length (lt_history l)"

section \<open>Memory\<close>

definition MEMORY_WINDOW :: duration where "MEMORY_WINDOW = 3600 * nanos_per_sec"

record memory_monitor =
  mo_growth_threshold_mb :: nat
  mo_baseline :: "(nat \<times> instant) option"

definition monitor_new :: "nat \<Rightarrow> memory_monitor" where
  "monitor_new threshold = \<lparr>mo_growth_threshold_mb = threshold, mo_baseline = None\<rparr>"

definition monitor_observe :: "nat \<Rightarrow> instant \<Rightarrow> memory_monitor \<Rightarrow> nat option \<times> memory_monitor" where
  "monitor_observe rss_mb now m =
     (case mo_baseline m of
        None \<Rightarrow> (None, m\<lparr>mo_baseline := Some (rss_mb, now)\<rparr>)
      | Some (baseline_mb, since) \<Rightarrow>
          if now - since < MEMORY_WINDOW then (None, m)
          else let m = m\<lparr>mo_baseline := Some (rss_mb, now)\<rparr>; growth = rss_mb - baseline_mb
               in if mo_growth_threshold_mb m \<le> growth then (Some growth, m) else (None, m))"

text \<open>The polling loop, given the readings (0 when the system could not tell).\<close>

fun monitor_run :: "(nat \<times> instant) list \<Rightarrow> memory_monitor \<Rightarrow> nat list \<times> memory_monitor" where
  "monitor_run [] m = ([], m)"
| "monitor_run ((rss_mb, now) # rs) m =
     (if 0 < rss_mb then
        let (w, m) = monitor_observe rss_mb now m; (ws, m) = monitor_run rs m
        in ((case w of Some g \<Rightarrow> [g] | None \<Rightarrow> []) @ ws, m)
      else monitor_run rs m)"

definition monitor_period :: "memory_monitor_config \<Rightarrow> duration" where
  "monitor_period c = max (mm_poll_seconds c) 1 * nanos_per_sec"

section \<open>Meters\<close>

record fps_meter =
  fp_frames :: nat
  fp_at :: instant

definition fps_new :: "nat \<Rightarrow> instant \<Rightarrow> fps_meter" where
  "fps_new frames now = \<lparr>fp_frames = frames, fp_at = now\<rparr>"

text \<open>\<open>as u16\<close> after the cap at 65535.\<close>

definition fps_sample :: "nat \<Rightarrow> instant \<Rightarrow> fps_meter \<Rightarrow> nat \<times> fps_meter" where
  "fps_sample frames now m =
     (let secs = as_secs_f64 (now - fp_at m); sent = frames - fp_frames m; m = m\<lparr>fp_frames := frames, fp_at := now\<rparr>
      in if secs \<le> Fin 0 then (0, m)
         else (nat (f_as_int 0 65535 (f_min (f_round (f_div b64 (f_of_nat b64 sent) secs)) (Fin 65535))), m))"

section \<open>What the averages mean\<close>

lemma fold_average:
  "(s :: nat) + sum_list vs < 2 ^ 64 \<Longrightarrow>
   foldl (\<lambda>(s, k) v. ((s + v) mod 2 ^ 64, k + 1)) (s, k) vs = (s + sum_list vs, k + length vs)"
proof (induction vs arbitrary: s k)
  case (Cons v vs)
  then show ?case by (simp add: add.assoc)
qed simp

lemma sum_list_ge: "\<forall>v\<in>set vs. lo \<le> v \<Longrightarrow> lo * length vs \<le> sum_list vs" for lo :: nat
  by (induction vs) auto

lemma sum_list_le: "\<forall>v\<in>set vs. v \<le> hi \<Longrightarrow> sum_list vs \<le> hi * length vs" for hi :: nat
  by (induction vs) auto

text \<open>
  The latency shown is the average of the newest frames that were sent: within their smallest and
  largest latency, and none while there is none.
\<close>
theorem latency_average:
  assumes "0 < n" and "l = fold tracker_record ts (tracker_new n)"
    and "vs = List.map_filter pc_latency_us (drop (length ts - n) ts)" and "sum_list vs < 2 ^ 64"
  shows "avg_pc_latency_us l = (if vs = [] then None else Some (sum_list vs div length vs))
    \<and> (if vs = [] then True else Min (set vs) \<le> sum_list vs div length vs \<and> sum_list vs div length vs \<le> Max (set vs))"
proof -
  have "lt_history (fold tracker_record ts t) = drop (length (old @ ts) - n) (old @ ts)"
    if "lt_max_history t = n" "lt_history t = drop (length old - n) old" for t old
    using that
  proof (induction ts arbitrary: t old)
    case (Cons a ts)
    have "length (lt_history t) \<le> n" using Cons.prems by simp
    then have "lt_history (tracker_record a t) = drop (length (lt_history t) + 1 - n) (lt_history t @ [a])"
      using Cons.prems(1) assms(1) by (simp add: tracker_record_def push_bounded_suffix)
    also have "\<dots> = drop (length (old @ [a]) - n) (old @ [a])"
      by (cases "n \<le> length old") (auto simp: Cons.prems(2) drop_Suc Suc_diff_le)
    finally have "lt_history (tracker_record a t) = drop (length (old @ [a]) - n) (old @ [a])" .
    then show ?case using Cons.IH [of "tracker_record a t" "old @ [a]"] Cons.prems(1) by (simp add: tracker_record_def)
  qed simp
  from this [of "tracker_new n" "[]"] have h: "lt_history l = drop (length ts - n) ts"
    by (simp add: assms(2) tracker_new_def)
  have avg: "avg_pc_latency_us l = (if vs = [] then None else Some (sum_list vs div length vs))"
    using fold_average [of 0 vs 0] assms(4) by (simp add: avg_pc_latency_us_def h average_of_def assms(3))
  have "Min (set vs) * length vs \<le> sum_list vs" "sum_list vs \<le> Max (set vs) * length vs"
    by (rule sum_list_ge, simp) (rule sum_list_le, simp)
  then have "Min (set vs) \<le> sum_list vs div length vs \<and> sum_list vs div length vs \<le> Max (set vs)" if "vs \<noteq> []"
    using that div_le_mono [of "Min (set vs) * length vs" "sum_list vs" "length vs"]
      div_le_mono [of "sum_list vs" "Max (set vs) * length vs" "length vs"] by simp
  with avg show ?thesis by simp
qed

theorem latency_average_witness:
  "avg_pc_latency_us (fold tracker_record
     [mark_send 9000 (timestamps_new 0 1), timestamps_new 5 2, mark_send 20000 (timestamps_new 1000 3)] (tracker_new 2)) = Some 19"
  using latency_average [of 2 _ "[mark_send 9000 (timestamps_new 0 1), timestamps_new 5 2, mark_send 20000 (timestamps_new 1000 3)]" "[19]"]
  by (simp add: mark_send_def timestamps_new_def pc_latency_us_def micros_between_def map_filter_def)

end
