(* ===== verification/Session.thy ===== *)
theory Session imports ControlChannel Pipeline Thermal Metrics "HOL-Library.AList" begin

text \<open>
  The frame loop of a session (\<open>engine.rs\<close>): the adaptive state it owns, the video sender, the thermal
  and sleep feedback, and the steps of its \<open>select!\<close>. \<open>None\<close> is a panic. The calls of the driver's bitrate
  callback are collected in the state, newest last, as are the packet batches handed to the UDP socket.
  One step reads the clock once (\<open>now\<close>).
\<close>

section \<open>Adaptive state\<close>

record adaptive_state =
  as_bw :: bandwidth_estimator
  as_bitrate :: bitrate_controller
  as_burst :: burst_detector
  as_gcc :: gcc_estimator
  as_gcc_enabled :: bool
  as_fec :: "adaptive_fec option"
  as_sleep :: sleep_detector
  as_pending :: "hmd_stats option"
  as_last :: "hmd_stats option"

definition adaptive_new :: "instant \<Rightarrow> app_config \<Rightarrow> adaptive_state option" where
  "adaptive_new now c =
     (let n = network c; v = video c; s = sleep_mode c;
          st = (\<lambda>fec. \<lparr>as_bw = bandwidth_new now, as_bitrate = bitrate_new now (bitrate_mbps v), as_burst = burst_new,
             as_gcc = gcc_new now (bitrate_mbps v * 1000000), as_gcc_enabled = (congestion_control n = ''gcc''), as_fec = fec,
             as_sleep = sleep_new (sm_enabled s) (sm_motion_threshold s) (sm_timeout_seconds s) (sm_bitrate_mbps s),
             as_pending = None, as_last = None\<rparr>)
      in if adaptive_fec_enabled n
         then map_option (\<lambda>a. st (Some a)) (afc_new now (fec_redundancy_min n) (fec_redundancy_max n) (fec_redundancy n))
         else Some (st None))"

definition merge_stats :: "hmd_stats option \<Rightarrow> hmd_stats \<Rightarrow> hmd_stats" where
  "merge_stats pending stats =
     (case pending of
        Some p \<Rightarrow> stats\<lparr>hm_received := sat_add_u32 (hm_received p) (hm_received stats),
                    hm_lost := sat_add_u32 (hm_lost p) (hm_lost stats)\<rparr>
      | None \<Rightarrow> stats)"

text \<open>\<open>as u32\<close>.\<close>

definition as_u32 :: "nat \<Rightarrow> nat" where "as_u32 n = n mod 2 ^ 32"

text \<open>Both return the bitrates told to the driver.\<close>

definition adaptive_on_event :: "instant \<Rightarrow> control_event \<Rightarrow> adaptive_state \<Rightarrow> adaptive_state \<times> nat list" where
  "adaptive_on_event now e a =
     (case e of
        Heartbeat stats \<Rightarrow> (a\<lparr>as_pending := Some (merge_stats (as_pending a) stats), as_last := Some stats\<rparr>, [])
      | TransportFeedback entries \<Rightarrow>
          (if as_gcc_enabled a then (a\<lparr>as_gcc := gcc_process_feedback (as_gcc a) entries\<rparr>, []) else (a, []))
      | BitrateSetting mbps \<Rightarrow>
          (let a = a\<lparr>as_bitrate := set_setting_mbps now (as_bitrate a) mbps\<rparr>
           in (a, [as_u32 (bc_current (as_bitrate a))])))"

definition loss_of_interval :: "hmd_stats \<Rightarrow> fl" where
  "loss_of_interval stats =
     (let total = unat (hm_received stats) + unat (hm_lost stats)
      in if total = 0 then Fin 0 else f_div b64 (f_of_nat b64 (unat (hm_lost stats))) (f_of_nat b64 total))"

text \<open>\<open>BitrateController::adjust\<close> and the notification when it changed.\<close>

definition adjust_bitrate :: "instant \<Rightarrow> gcc_estimator \<Rightarrow> burst_detector \<Rightarrow> adaptive_state \<Rightarrow> adaptive_state \<times> nat list" where
  "adjust_bitrate now gcc burst a =
     (let (changed, b) = bitrate_adjust now (as_bitrate a) (as_bw a) gcc burst
      in (a\<lparr>as_bitrate := b\<rparr>, if changed then [as_u32 (bc_current b)] else []))"

text \<open>The loss-based FEC adjustment that ends a tick.\<close>

definition tick_fec :: "instant \<Rightarrow> adaptive_state \<Rightarrow> frame_fec_encoder \<Rightarrow> (adaptive_state \<times> frame_fec_encoder) option" where
  "tick_fec now a f =
     (case as_fec a of
        None \<Rightarrow> Some (a, f)
      | Some afec \<Rightarrow> (case afc_adjust now afec (be_loss (as_bw a)) of
            None \<Rightarrow> None
          | Some (changed, afec) \<Rightarrow>
              Some (a\<lparr>as_fec := Some afec\<rparr>, if changed then frame_fec_set_redundancy f (effective_redundancy afec) else f)))"

definition adaptive_tick ::
  "instant \<Rightarrow> adaptive_state \<Rightarrow> frame_fec_encoder \<Rightarrow> (adaptive_state \<times> frame_fec_encoder \<times> nat list) option" where
  "adaptive_tick now a f =
     (case as_pending a of
        None \<Rightarrow> Some (a, f, [])
      | Some stats \<Rightarrow>
          let a = a\<lparr>as_pending := None\<rparr>;
              a = a\<lparr>as_bw := bandwidth_update now (as_bw a) (hm_received stats) (hm_lost stats) (Fin 0)\<rparr>
          in if as_gcc_enabled a then
               let a = a\<lparr>as_burst := burst_record now (as_burst a) (loss_of_interval stats)\<rparr>;
                   (a, told) = adjust_bitrate now (as_gcc a) (as_burst a) a
               in if recommend_fec_boost (as_burst a) then
                    (case as_fec a of
                       Some afec \<Rightarrow>
                         let afec = activate_boost afec
                         in Some (a\<lparr>as_fec := Some afec\<rparr>, frame_fec_set_redundancy f (effective_redundancy afec), told)
                     | None \<Rightarrow> map_option (\<lambda>(a, f). (a, f, told)) (tick_fec now a f))
                  else
                    let (a, f) = (case as_fec a of
                          Some afec \<Rightarrow>
                            if effective_redundancy afec \<noteq> af_current afec
                            then let afec = deactivate_boost afec
                                 in (a\<lparr>as_fec := Some afec\<rparr>, frame_fec_set_redundancy f (effective_redundancy afec))
                            else (a, f)
                        | None \<Rightarrow> (a, f))
                    in map_option (\<lambda>(a, f). (a, f, told)) (tick_fec now a f)
             else
               let (a, told) = adjust_bitrate now (gcc_new now (bc_current (as_bitrate a))) burst_new a
               in map_option (\<lambda>(a, f). (a, f, told)) (tick_fec now a f))"

section \<open>Video sender\<close>

definition RTP_CLOCK_RATE :: nat where "RTP_CLOCK_RATE = 90000"
definition VIDEO_SSRC :: u32 where "VIDEO_SSRC = 0x46565000"

record encoded_frame =
  ef_frame_index :: u32
  ef_nal_data :: bytes
  ef_is_idr :: bool
  ef_timestamps :: frame_timestamps
  ef_orientation :: "quat_bits option"

text \<open>The send times, newest value per sequence number; a \<open>HashMap\<close> with \<open>u16\<close> keys.\<close>

type_synonym packet_log = "(u16 \<times> nat) list"

definition record_send_timestamps :: "nat \<Rightarrow> rtp_packet list \<Rightarrow> packet_log \<Rightarrow> packet_log" where
  "record_send_timestamps send_us packets plog =
     foldl (\<lambda>plog packet. if 4 \<le> length packet then AList.update (u16_of_be (sub_range packet 2 4)) send_us plog else plog)
       plog packets"

definition SENT_LOG_PRUNE_INTERVAL :: nat where "SENT_LOG_PRUNE_INTERVAL = 300"
definition SENT_LOG_MAX :: nat where "SENT_LOG_MAX = 5000"
definition SENT_LOG_KEEP :: nat where "SENT_LOG_KEEP = 2500"

text \<open>\<open>drain\<close>: the map's drain order, a permutation (it also decides ties of the unstable sort).\<close>

definition prune_sent_packet_log :: "(packet_log \<Rightarrow> packet_log) \<Rightarrow> packet_log \<Rightarrow> nat \<Rightarrow> packet_log" where
  "prune_sent_packet_log drain plog frame_count =
     (if frame_count mod SENT_LOG_PRUNE_INTERVAL \<noteq> 0 then plog
      else if SENT_LOG_MAX < length plog then take SENT_LOG_KEEP (rev (sort_key snd (drain plog)))
      else plog)"

record video_sender =
  vs_packetizer :: packetizer
  vs_fec :: frame_fec_encoder
  vs_log :: packet_log
  vs_frame_count :: nat
  vs_latency_skips :: nat
  vs_frame_pose :: bool
  vs_sent :: "rtp_packet list list"

definition video_new :: "app_config \<Rightarrow> bool \<Rightarrow> video_sender" where
  "video_new c frame_pose = \<lparr>vs_packetizer = packetizer_new VIDEO_SSRC,
     vs_fec = frame_fec_new (fec_redundancy (network c)) (slice_fec_enabled (network c)) (of_nat (slice_count (network c))),
     vs_log = [], vs_frame_count = 0, vs_latency_skips = 0, vs_frame_pose = frame_pose, vs_sent = []\<rparr>"

text \<open>\<open>send_us\<close>: the wall clock per batch; \<open>unlocked\<close>: the tracker's lock is free.\<close>

definition send_frame ::
  "rs_code \<Rightarrow> (packet_log \<Rightarrow> packet_log) \<Rightarrow> (nat \<Rightarrow> nat) \<Rightarrow> instant \<Rightarrow> bool \<Rightarrow> nat \<Rightarrow> encoded_frame
    \<Rightarrow> video_sender \<Rightarrow> latency_tracker \<Rightarrow> (video_sender \<times> latency_tracker) option" where
  "send_frame rs drain send_us now unlocked rate frame v tracker =
     (if rate = 0 then None
      else
        let timestamp_90khz = of_nat (vs_frame_count v * RTP_CLOCK_RATE mod 2 ^ 64 div rate);
            payload = (if vs_frame_pose v then frame_pose_encode (ef_orientation frame) @ ef_nal_data frame
                       else ef_nal_data frame);
            (batches, fec, pk) = frame_fec_encode rs (vs_fec v) payload (ef_frame_index frame) timestamp_90khz
                                   (ef_is_idr frame) (vs_packetizer v);
            plog = foldl (\<lambda>plog (i, packets). record_send_timestamps (send_us i) packets plog) (vs_log v)
                    (zip [0..<length batches] batches);
            v = v\<lparr>vs_fec := fec, vs_packetizer := pk, vs_sent := vs_sent v @ batches,
                  vs_log := prune_sent_packet_log drain plog (vs_frame_count v)\<rparr>;
            ts = mark_send now (ef_timestamps frame);
            (v, tracker) = (if unlocked then (v, tracker_record ts tracker)
                            else (v\<lparr>vs_latency_skips := vs_latency_skips v + 1\<rparr>, tracker))
        in Some (v\<lparr>vs_frame_count := vs_frame_count v + 1\<rparr>, tracker))"

section \<open>The session\<close>

record session =
  ss_config :: app_config
  ss_adaptive :: adaptive_state
  ss_video :: video_sender
  ss_thermal :: "thermal_governor option"
  ss_tracker :: latency_tracker
  ss_told :: "nat list"
  ss_idr_requests :: nat
  ss_sleep_tx :: "bool list"
  ss_encode_us :: nat
  ss_total_us :: nat
  ss_fps_meter :: fps_meter
  ss_fps :: nat

definition SLEEP_CAPACITY :: nat where "SLEEP_CAPACITY = 8"

definition session_start ::
  "instant \<Rightarrow> app_config \<Rightarrow> bool \<Rightarrow> thermal_governor option \<Rightarrow> latency_tracker \<Rightarrow> session option" where
  "session_start now c frame_pose gov tracker =
     map_option (\<lambda>a. \<lparr>ss_config = c, ss_adaptive = a, ss_video = video_new c frame_pose, ss_thermal = gov, ss_tracker = tracker,
         ss_told = [as_u32 (bc_current (as_bitrate a))], ss_idr_requests = 1, ss_sleep_tx = [], ss_encode_us = 0,
         ss_total_us = 0, ss_fps_meter = fps_new 0 now, ss_fps = 0\<rparr>)
       (adaptive_new now c)"

text \<open>\<open>check_sleep_mode\<close>; the multiplication by 1000000 is in \<open>u32\<close>.\<close>

definition try_send_sleep :: "bool \<Rightarrow> bool list \<Rightarrow> bool list" where
  "try_send_sleep b q = (if length q < SLEEP_CAPACITY then q @ [b] else q)"

definition check_sleep_mode :: "tracking_data option \<Rightarrow> session \<Rightarrow> session" where
  "check_sleep_mode head s =
     (case head of
        None \<Rightarrow> s
      | Some tracked \<Rightarrow>
          let a = ss_adaptive s; (t, sl) = sleep_update tracked (as_sleep a); s = s\<lparr>ss_adaptive := a\<lparr>as_sleep := sl\<rparr>\<rparr>
          in case t of
               None \<Rightarrow> s
             | Some SleepNow \<Rightarrow> s\<lparr>ss_told := ss_told s @ [as_u32 (sl_bitrate_mbps sl * 1000000)],
                                  ss_sleep_tx := try_send_sleep True (ss_sleep_tx s)\<rparr>
             | Some WakeNow \<Rightarrow> s\<lparr>ss_told := ss_told s @ [as_u32 (setting_mbps (as_bitrate a) * 1000000)],
                                 ss_sleep_tx := try_send_sleep False (ss_sleep_tx s)\<rparr>)"

definition thermal_feedback :: "instant \<Rightarrow> nat option \<Rightarrow> session \<Rightarrow> session" where
  "thermal_feedback now temp s =
     (case ss_thermal s of
        None \<Rightarrow> s
      | Some gov \<Rightarrow>
          let (m, gov) = thermal_tick now temp gov; s = s\<lparr>ss_thermal := Some gov\<rparr>
          in case m of
               None \<Rightarrow> s
             | Some multiplier \<Rightarrow>
                 let a = ss_adaptive s;
                     ceiling = f_as_u64 (f_mul b64 (f_of_nat b64 (setting_mbps (as_bitrate a) * 1000000)) multiplier)
                 in s\<lparr>ss_adaptive := a\<lparr>as_bitrate := set_thermal_ceiling (as_bitrate a) ceiling\<rparr>\<rparr>)"

definition update_latency_atomics :: "session \<Rightarrow> session" where
  "update_latency_atomics s =
     s\<lparr>ss_encode_us := (case avg_encode_latency_us (ss_tracker s) of Some e \<Rightarrow> as_u32 e | None \<Rightarrow> ss_encode_us s),
       ss_total_us := (case avg_pc_latency_us (ss_tracker s) of Some t \<Rightarrow> as_u32 t | None \<Rightarrow> ss_total_us s)\<rparr>"

text \<open>The surroundings of one frame: what the arguments of \<open>send_frame\<close> and of the feedback read.\<close>

record frame_input =
  fi_rs :: rs_code
  fi_drain :: "packet_log \<Rightarrow> packet_log"
  fi_send_us :: "nat \<Rightarrow> nat"
  fi_now :: instant
  fi_unlocked :: bool
  fi_temperature :: "nat option"
  fi_head :: "tracking_data option"
  fi_frame :: encoded_frame

definition on_frame :: "frame_input \<Rightarrow> session \<Rightarrow> session option" where
  "on_frame i s =
     (let rate = framerate (video (ss_config s)) in
      case send_frame (fi_rs i) (fi_drain i) (fi_send_us i) (fi_now i) (fi_unlocked i) rate (fi_frame i) (ss_video s) (ss_tracker s) of
        None \<Rightarrow> None
      | Some (v, tracker) \<Rightarrow>
          let s = s\<lparr>ss_video := v, ss_tracker := tracker\<rparr> in
          (case (if vs_frame_count v mod rate = 0 then adaptive_tick (fi_now i) (ss_adaptive s) (vs_fec v)
                 else Some (ss_adaptive s, vs_fec v, [])) of
             None \<Rightarrow> None
           | Some (a, fec, told) \<Rightarrow>
               let s = s\<lparr>ss_adaptive := a, ss_video := v\<lparr>vs_fec := fec\<rparr>, ss_told := ss_told s @ told\<rparr>
               in Some (update_latency_atomics (check_sleep_mode (fi_head i) (thermal_feedback (fi_now i) (fi_temperature i) s)))))"

definition on_control_event :: "instant \<Rightarrow> control_event \<Rightarrow> session \<Rightarrow> session" where
  "on_control_event now e s =
     (let (a, told) = adaptive_on_event now e (ss_adaptive s) in s\<lparr>ss_adaptive := a, ss_told := ss_told s @ told\<rparr>)"

definition on_status_tick :: "instant \<Rightarrow> session \<Rightarrow> session" where
  "on_status_tick now s =
     (let (fps, m) = fps_sample (vs_frame_count (ss_video s)) now (ss_fps_meter s) in s\<lparr>ss_fps := fps, ss_fps_meter := m\<rparr>)"

text \<open>The control task takes the oldest sleep transition.\<close>

datatype session_input = FrameInput frame_input | ControlInput instant control_event | StatusTick instant | SleepTaken

fun session_step :: "session_input \<Rightarrow> session \<Rightarrow> session option" where
  "session_step (FrameInput i) s = on_frame i s"
| "session_step (ControlInput now e) s = Some (on_control_event now e s)"
| "session_step (StatusTick now) s = Some (on_status_tick now s)"
| "session_step SleepTaken s = Some (s\<lparr>ss_sleep_tx := tl (ss_sleep_tx s)\<rparr>)"

fun session_run :: "session_input list \<Rightarrow> session \<Rightarrow> session option" where
  "session_run [] s = Some s"
| "session_run (i # is') s = (case session_step i s of None \<Rightarrow> None | Some s' \<Rightarrow> session_run is' s')"

definition packet_loss_pct :: "hmd_stats option \<Rightarrow> fl" where
  "packet_loss_pct st =
     (case st of
        None \<Rightarrow> Fin 0
      | Some s \<Rightarrow> let total = unat (sat_add_u32 (hm_received s) (hm_lost s)) in
          if total = 0 then Fin 0
          else f_mul b32 (f_div b32 (f_of_nat b32 (unat (hm_lost s))) (f_of_nat b32 total)) (Fin 100))"

section \<open>What every step keeps\<close>

lemma afc_adjust_keeps:
  assumes "afc_inv a"
  obtains ch a' where "afc_adjust now a l = Some (ch, a')" "afc_inv a'" "af_boost a' = af_boost a" "\<not> ch \<Longrightarrow> a' = a"
proof (cases "now - af_last_adjustment a < af_interval a")
  case True
  show ?thesis by (rule that [of False a]) (simp_all add: afc_adjust_def assms True)
next
  case False
  obtain mn c mx where a: "af_min a = Fin mn" "af_max a = Fin mx" "mn \<le> mx" "af_current a = Fin c"
    using assms by (auto simp: afc_inv_def)
  obtain t where t: "f_clamp (af_min a) (af_max a) (afc_target (afc_loss l)) = Fin t"
    using afc_target_range [of "afc_loss l"] a by (auto simp: f_clamp_Fin)
  show ?thesis
  proof (rule afc_adjust_result [OF assms False t])
    fix c' n ch
    assume "afc_adjust now a l = Some (ch, if ch then a\<lparr>af_current := Fin n, af_last_adjustment := now\<rparr> else a)"
      "afc_inv (a\<lparr>af_current := Fin n, af_last_adjustment := now\<rparr>)"
    note r = this
    show ?thesis
    proof (cases ch)
      case True
      with r show ?thesis by (intro that [of ch "a\<lparr>af_current := Fin n, af_last_adjustment := now\<rparr>"]) simp_all
    next
      case False
      with r assms show ?thesis by (intro that [of ch a]) simp_all
    qed
  qed
qed

lemma afc_inv_boost: "afc_inv (a\<lparr>af_boost := b\<rparr>) = afc_inv a"
  by (simp add: afc_inv_def)

text \<open>The encoder's redundancy is the given one, up to the threshold below which it is not changed.\<close>

definition near :: "fl \<Rightarrow> fec_encoder \<Rightarrow> bool" where
  "near r e \<longleftrightarrow> fec_cache_ok e \<and> \<not> epsilon b32 < f_abs (f_sub b32 (f_clamp (Fin 0) (Fin 1) r) (fe_redundancy e))"

definition encoders :: "frame_fec_encoder \<Rightarrow> fec_encoder list" where
  "encoders f = ff_bulk f # ff_slices f"

definition follows :: "adaptive_fec option \<Rightarrow> frame_fec_encoder \<Rightarrow> bool" where
  "follows a f \<longleftrightarrow> (case a of None \<Rightarrow> True | Some afec \<Rightarrow> list_all (near (effective_redundancy afec)) (encoders f))"

lemma near_self: "fec_cache_ok e \<Longrightarrow> fe_redundancy e = f_clamp (Fin 0) (Fin 1) (Fin r) \<Longrightarrow> near (Fin r) e"
  by (simp add: near_def f_clamp_Fin epsilon_def not_less)

lemma effective_number: "afc_inv a \<Longrightarrow> \<exists>r. effective_redundancy a = Fin r \<and> 0 \<le> r \<and> r \<le> 1"
  by (auto simp: afc_inv_def effective_redundancy_def f_max_def)

lemma set_redundancy_near: "fec_cache_ok e \<Longrightarrow> near (Fin r) (set_redundancy e (Fin r))"
  by (auto simp: set_redundancy_def Let_def near_def fec_cache_ok_def f_clamp_Fin epsilon_def not_less)

lemma follows_set:
  assumes "list_all fec_cache_ok (encoders f)" and "afc_inv a"
  shows "follows (Some a) (frame_fec_set_redundancy f (effective_redundancy a))"
proof -
  obtain r where r: "effective_redundancy a = Fin r" using effective_number [OF assms(2)] by blast
  have e: "encoders (frame_fec_set_redundancy f (Fin r)) = map (\<lambda>e. set_redundancy e (Fin r)) (encoders f)"
    by (simp add: encoders_def frame_fec_set_redundancy_def)
  show ?thesis using assms(1) by (simp add: follows_def r e list_all_iff set_redundancy_near)
qed

lemma frame_set_cache: "list_all fec_cache_ok (encoders f) \<Longrightarrow> list_all fec_cache_ok (encoders (frame_fec_set_redundancy f r))"
  by (simp add: encoders_def frame_fec_set_redundancy_def list_all_iff fec_cache_set)

lemma frame_new_cache: "list_all fec_cache_ok (encoders (frame_fec_new r e n))"
  by (simp add: encoders_def frame_fec_new_def fec_new_def fec_cache_ok_def list_all_iff)
lemma near_encode: "near r e \<Longrightarrow> near r (snd (fec_encode rs e shards))"
  by (simp add: near_def fec_cache_encode fec_encode_redundancy)

lemma encode_slices_keep:
  "list_all P fecs \<Longrightarrow> (\<And>e s. P e \<Longrightarrow> P (snd (fec_encode rs e s))) \<Longrightarrow>
   list_all P (fst (snd (encode_slices rs fi ts kf count idx slices fecs batches p)))"
proof (induction rs fi ts kf count idx slices fecs batches p rule: encode_slices.induct)
  case (3 rs fi ts kf count idx slice_data slices fec fecs batches p)
  obtain r e where r: "fec_encode rs fec (to_data_shards (prefix_slice slice_data)) = (r, e)" by fastforce
  have e: "P e" using "3.prems" r by (metis list.pred_inject(2) snd_conv)
  show ?case
  proof (cases r)
    case (Inl x)
    with r e "3.prems" show ?thesis by simp
  next
    case (Inr all)
    from "3.IH" [OF refl r [symmetric] Inr refl refl prod.collapse] "3.prems" e r Inr show ?thesis
      by (simp add: split_beta Let_def)
  qed
qed simp_all

lemma frame_encode_keep:
  assumes "list_all P (encoders f)" and "\<And>e s. P e \<Longrightarrow> P (snd (fec_encode rs e s))"
  shows "list_all P (encoders (fst (snd (frame_fec_encode rs f payload fi ts kf pk))))"
proof -
  have bulk: "P (ff_bulk f)" and slices: "list_all P (ff_slices f)" using assms(1) by (simp_all add: encoders_def)
  have "P (fst (snd (encode_frame_to_packets_with_fec rs payload fi ts kf (ff_bulk f) pk)))"
    using bulk assms(2) [OF bulk, of "to_data_shards payload"]
    by (cases "fec_encode rs (ff_bulk f) (to_data_shards payload)")
      (auto simp: encode_frame_to_packets_with_fec_def Let_def split_beta split: sum.split)
  moreover have "list_all P (fst (snd (encode_frame_sliced rs payload fi ts kf n (ff_slices f) pk)))" for n
    using encode_slices_keep [OF slices assms(2)] slices by (simp add: encode_frame_sliced_def Let_def)
  ultimately show ?thesis using bulk slices
    by (simp add: frame_fec_encode_def Let_def split_beta encoders_def split: fec_layout.split)
qed

definition adaptive_ok :: "adaptive_state \<Rightarrow> bool" where
  "adaptive_ok a \<longleftrightarrow> bitrate_inv (as_bitrate a) \<and> (case as_fec a of None \<Rightarrow> True | Some f \<Rightarrow> afc_inv f)
     \<and> 1 \<le> sl_bitrate_mbps (as_sleep a) \<and> sl_bitrate_mbps (as_sleep a) \<le> 200"

definition told_ok :: "nat \<Rightarrow> bool" where
  "told_ok n \<longleftrightarrow> 1000000 \<le> n \<and> n \<le> 200000000"

lemma told_current: "bitrate_inv b \<Longrightarrow> told_ok (as_u32 (bc_current b)) \<and> as_u32 (bc_current b) = bc_current b"
  by (auto simp: told_ok_def as_u32_def bitrate_inv_def effective_max_def split: option.splits)

lemma adjust_bitrate_ok:
  assumes "adaptive_ok a" and "adjust_bitrate now g b a = (a', told)"
  shows "adaptive_ok a' \<and> list_all told_ok told \<and> as_fec a' = as_fec a \<and> as_bw a' = as_bw a
    \<and> as_pending a' = as_pending a \<and> as_burst a' = as_burst a \<and> as_sleep a' = as_sleep a"
proof -
  obtain ch c where c: "bitrate_adjust now (as_bitrate a) (as_bw a) g b = (ch, c)" by fastforce
  have "bitrate_inv c" using bitrate_inv_adjust [of "as_bitrate a" now "as_bw a" g b] assms(1) c by (simp add: adaptive_ok_def)
  then show ?thesis using assms c told_current [of c] by (auto simp: adjust_bitrate_def adaptive_ok_def)
qed

definition encoders_ok :: "adaptive_state \<Rightarrow> frame_fec_encoder \<Rightarrow> bool" where
  "encoders_ok a f \<longleftrightarrow> list_all fec_cache_ok (encoders f) \<and> follows (as_fec a) f"

lemma tick_fec_ok:
  assumes "adaptive_ok a" and "encoders_ok a f"
  obtains a' f' where "tick_fec now a f = Some (a', f')" "adaptive_ok a'" "encoders_ok a' f'" "as_bitrate a' = as_bitrate a"
proof (cases "as_fec a")
  case None
  show ?thesis by (rule that [of a f]) (simp_all add: tick_fec_def None assms)
next
  case (Some afec)
  have inv: "afc_inv afec" using assms(1) Some by (simp add: adaptive_ok_def)
  obtain ch a2 where r: "afc_adjust now afec (be_loss (as_bw a)) = Some (ch, a2)" "afc_inv a2" "\<not> ch \<Longrightarrow> a2 = afec"
    using afc_adjust_keeps [OF inv, of now "be_loss (as_bw a)"] by metis
  let ?f = "if ch then frame_fec_set_redundancy f (effective_redundancy a2) else f"
  have "follows (Some a2) ?f" using assms(2) Some r follows_set [OF _ r(2), of f] by (auto simp: encoders_ok_def)
  moreover have "list_all fec_cache_ok (encoders ?f)" using assms(2) frame_set_cache by (auto simp: encoders_ok_def)
  ultimately show ?thesis using r assms(1)
    by (intro that [of "a\<lparr>as_fec := Some a2\<rparr>" ?f]) (simp_all add: tick_fec_def Some adaptive_ok_def encoders_ok_def)
qed
lemma adaptive_tick_ok:
  assumes "adaptive_ok a" and "encoders_ok a f"
  shows "\<exists>a' f' told. adaptive_tick now a f = Some (a', f', told) \<and> adaptive_ok a' \<and> encoders_ok a' f' \<and> list_all told_ok told"
proof (cases "as_pending a")
  case None
  with assms show ?thesis by (simp add: adaptive_tick_def)
next
  case (Some stats)
  let ?a1 = "a\<lparr>as_pending := None, as_bw := bandwidth_update now (as_bw a) (hm_received stats) (hm_lost stats) (Fin 0)\<rparr>"
  have a1: "adaptive_ok ?a1" "encoders_ok ?a1 f" using assms by (simp_all add: adaptive_ok_def encoders_ok_def)
  note def = adaptive_tick_def [of now a f, unfolded Some option.case Let_def, simplified]
  show ?thesis
  proof (cases "as_gcc_enabled a")
    case False
    obtain a2 told where 2: "adjust_bitrate now (gcc_new now (bc_current (as_bitrate a))) burst_new ?a1 = (a2, told)" by fastforce
    note ok = adjust_bitrate_ok [OF a1(1) 2]
    have "encoders_ok a2 f" using a1(2) ok by (simp add: encoders_ok_def)
    then obtain a3 f3 where "tick_fec now a2 f = Some (a3, f3)" "adaptive_ok a3" "encoders_ok a3 f3"
      using tick_fec_ok [of a2 f now] ok by metis
    then show ?thesis using False 2 ok by (simp add: def)
  next
    case True
    let ?a1' = "?a1\<lparr>as_burst := burst_record now (as_burst a) (loss_of_interval stats)\<rparr>"
    have a1': "adaptive_ok ?a1'" using a1 by (simp add: adaptive_ok_def)
    obtain a2 told where 2: "adjust_bitrate now (as_gcc a) (burst_record now (as_burst a) (loss_of_interval stats)) ?a1' = (a2, told)"
      by fastforce
    note ok = adjust_bitrate_ok [OF a1' 2]
    have fec: "as_fec a2 = as_fec a" "as_burst a2 = burst_record now (as_burst a) (loss_of_interval stats)" using ok by simp_all
    have enc: "encoders_ok a2 f" using assms(2) fec by (simp add: encoders_ok_def)
    have cache: "list_all fec_cache_ok (encoders f)" using assms(2) by (simp add: encoders_ok_def)
    show ?thesis
    proof (cases "as_fec a")
      case N: None
      obtain a3 f3 where "tick_fec now a2 f = Some (a3, f3)" "adaptive_ok a3" "encoders_ok a3 f3"
        using tick_fec_ok [OF conjunct1 [OF ok] enc] by metis
      then show ?thesis using True 2 ok N fec by (simp add: def)
    next
      case S: (Some afec)
      have inv: "afc_inv afec" using assms(1) S by (simp add: adaptive_ok_def)
      let ?set = "\<lambda>b. frame_fec_set_redundancy f (effective_redundancy (afec\<lparr>af_boost := b\<rparr>))"
      have set: "encoders_ok (a2\<lparr>as_fec := Some (afec\<lparr>af_boost := b\<rparr>)\<rparr>) (?set b)"
          "adaptive_ok (a2\<lparr>as_fec := Some (afec\<lparr>af_boost := b\<rparr>)\<rparr>)" for b
        using follows_set [OF cache] frame_set_cache [OF cache] inv ok
        by (auto simp: encoders_ok_def afc_inv_boost adaptive_ok_def)
      show ?thesis
      proof (cases "recommend_fec_boost (burst_record now (as_burst a) (loss_of_interval stats))")
        case B: True
        then show ?thesis using True 2 ok S fec set [of True] by (simp add: def activate_boost_def)
      next
        case B: False
        show ?thesis
        proof (cases "effective_redundancy afec = af_current afec")
          case E: True
          obtain a3 f3 where "tick_fec now a2 f = Some (a3, f3)" "adaptive_ok a3" "encoders_ok a3 f3"
            using tick_fec_ok [OF conjunct1 [OF ok] enc] by metis
          then show ?thesis using True 2 ok S fec B E by (simp add: def)
        next
          case E: False
          obtain a3 f3 where "tick_fec now (a2\<lparr>as_fec := Some (afec\<lparr>af_boost := False\<rparr>)\<rparr>) (?set False) = Some (a3, f3)"
              "adaptive_ok a3" "encoders_ok a3 f3"
            using tick_fec_ok [OF set(2) set(1)] by metis
          then show ?thesis using True 2 ok S fec B E by (simp add: def deactivate_boost_def)
        qed
      qed
    qed
  qed
qed

definition session_inv :: "session \<Rightarrow> bool" where
  "session_inv s \<longleftrightarrow> config_ok (ss_config s) \<and> adaptive_ok (ss_adaptive s) \<and> list_all told_ok (ss_told s)
     \<and> encoders_ok (ss_adaptive s) (vs_fec (ss_video s)) \<and> length (ss_sleep_tx s) \<le> SLEEP_CAPACITY"

lemma framerate_range: "config_ok c \<Longrightarrow> 30 \<le> framerate (video c) \<and> framerate (video c) \<le> 120"
  by (simp add: config_ok_def rest_ok_def video_ok_def)

lemma send_frame_ok:
  assumes "rate \<noteq> 0" and "encoders_ok a (vs_fec v)"
  shows "\<exists>v' t. send_frame rs drain send_us now unlocked rate frame v tracker = Some (v', t) \<and> encoders_ok a (vs_fec v')
    \<and> vs_frame_count v' = vs_frame_count v + 1"
proof -
  have keep: "encoders_ok a (fst (snd (frame_fec_encode rs (vs_fec v) p fi ts kf pk)))" for p fi ts kf pk
  proof -
    have "list_all fec_cache_ok (encoders (fst (snd (frame_fec_encode rs (vs_fec v) p fi ts kf pk))))"
      using assms(2) by (intro frame_encode_keep) (simp_all add: encoders_ok_def fec_cache_encode)
    moreover have "follows (as_fec a) (fst (snd (frame_fec_encode rs (vs_fec v) p fi ts kf pk)))"
      using assms(2) frame_encode_keep [of "near (effective_redundancy (the (as_fec a)))" "vs_fec v" rs p fi ts kf pk]
      by (auto simp: encoders_ok_def follows_def near_encode split: option.splits)
    ultimately show ?thesis by (simp add: encoders_ok_def)
  qed
  then show ?thesis using assms(1) by (simp add: send_frame_def Let_def split_beta)
qed

lemma sleep_update_bitrate: "sl_bitrate_mbps (snd (sleep_update t sl)) = sl_bitrate_mbps sl"
  by (simp add: sleep_update_def Let_def)

lemma told_mbps: "1 \<le> n \<Longrightarrow> n \<le> 200 \<Longrightarrow> told_ok (as_u32 (n * 1000000))"
  by (simp add: told_ok_def as_u32_def)

lemma setting_range: "bitrate_inv b \<Longrightarrow> 1 \<le> setting_mbps b \<and> setting_mbps b \<le> 200"
  by (auto simp: bitrate_inv_def setting_mbps_def)

lemma try_send_sleep_length: "length q \<le> SLEEP_CAPACITY \<Longrightarrow> length (try_send_sleep b q) \<le> SLEEP_CAPACITY"
  by (simp add: try_send_sleep_def)

lemma check_sleep_ok: "session_inv s \<Longrightarrow> session_inv (check_sleep_mode head s)"
  using sleep_update_bitrate [of "the head" "as_sleep (ss_adaptive s)"] setting_range [of "as_bitrate (ss_adaptive s)"]
  by (auto simp: check_sleep_mode_def Let_def session_inv_def adaptive_ok_def encoders_ok_def told_mbps try_send_sleep_length
      split: option.splits prod.splits sleep_transition.splits)

lemma thermal_feedback_ok: "session_inv s \<Longrightarrow> session_inv (thermal_feedback now temp s)"
  by (auto simp: thermal_feedback_def Let_def session_inv_def adaptive_ok_def encoders_ok_def bitrate_inv_cap
      split: option.splits prod.splits)

lemma latency_ok: "session_inv (update_latency_atomics s) = session_inv s"
  by (simp add: update_latency_atomics_def session_inv_def)

lemma control_event_ok: "session_inv s \<Longrightarrow> session_inv (on_control_event now e s)"
  using bitrate_inv_setting [of "as_bitrate (ss_adaptive s)" now]
    conjunct1 [OF told_current [OF bitrate_inv_setting, of "as_bitrate (ss_adaptive s)" now]]
  by (auto simp: on_control_event_def adaptive_on_event_def Let_def session_inv_def adaptive_ok_def encoders_ok_def
      split: control_event.splits)

lemma on_frame_ok:
  assumes "session_inv s"
  shows "\<exists>s'. on_frame i s = Some s' \<and> session_inv s'"
proof -
  let ?rate = "framerate (video (ss_config s))"
  have rate: "?rate \<noteq> 0" using assms framerate_range [of "ss_config s"] by (simp add: session_inv_def)
  obtain v t where v: "send_frame (fi_rs i) (fi_drain i) (fi_send_us i) (fi_now i) (fi_unlocked i) ?rate (fi_frame i) (ss_video s)
      (ss_tracker s) = Some (v, t)" "encoders_ok (ss_adaptive s) (vs_fec v)"
    using send_frame_ok [OF rate] assms unfolding session_inv_def by metis
  obtain a f told where a: "(if vs_frame_count v mod ?rate = 0 then adaptive_tick (fi_now i) (ss_adaptive s) (vs_fec v)
      else Some (ss_adaptive s, vs_fec v, [])) = Some (a, f, told)" "adaptive_ok a" "encoders_ok a f" "list_all told_ok told"
    using adaptive_tick_ok [of "ss_adaptive s" "vs_fec v" "fi_now i"] assms v(2)
    by (cases "vs_frame_count v mod ?rate = 0") (auto simp: session_inv_def)
  have "session_inv (s\<lparr>ss_tracker := t, ss_adaptive := a, ss_video := v\<lparr>vs_fec := f\<rparr>, ss_told := ss_told s @ told\<rparr>)"
    using assms a by (simp add: session_inv_def)
  then show ?thesis using check_sleep_ok [OF thermal_feedback_ok]
    by (simp add: on_frame_def Let_def v(1) latency_ok a(1) del: split_paired_Ex cong: if_cong)
qed

lemma session_step_ok: "session_inv s \<Longrightarrow> \<exists>s'. session_step i s = Some s' \<and> session_inv s'"
proof (cases i)
  case (StatusTick now)
  then show "session_inv s \<Longrightarrow> ?thesis" by (simp add: on_status_tick_def split_beta session_inv_def)
qed (simp_all add: on_frame_ok control_event_ok, auto simp: session_inv_def intro: le_trans [OF diff_le_self])

lemma session_run_ok: "session_inv s \<Longrightarrow> \<exists>s'. session_run is s = Some s' \<and> session_inv s'"
proof (induction "is" arbitrary: s)
  case (Cons i "is'")
  then show ?case using session_step_ok [of s i] by auto
qed simp

lemma session_start_ok:
  assumes "config_ok c" and "list_all (in_format b32) [fec_redundancy_min (network c), fec_redundancy_max (network c), fec_redundancy (network c)]"
  shows "\<exists>s. session_start now c frame_pose gov tracker = Some s \<and> session_inv s"
proof -
  let ?n = "network c"
  have lim: "Fin 0 \<le> fec_redundancy_min ?n" "fec_redundancy_min ?n \<le> fec_redundancy ?n"
      "fec_redundancy ?n \<le> fec_redundancy_max ?n" "fec_redundancy_max ?n \<le> Fin 1"
    using assms(1) by (simp_all add: config_ok_def network_ok_def fec_in_limits_def)
  obtain mn r mx where v: "fec_redundancy_min ?n = Fin mn" "fec_redundancy ?n = Fin r" "fec_redundancy_max ?n = Fin mx"
      "0 \<le> mn" "mn \<le> r" "r \<le> mx" "mx \<le> 1"
    using lim by (cases "fec_redundancy_min ?n"; cases "fec_redundancy ?n"; cases "fec_redundancy_max ?n") auto
  have bitrate: "1 \<le> bitrate_mbps (video c)" "1 \<le> sm_bitrate_mbps (sleep_mode c)" "sm_bitrate_mbps (sleep_mode c) \<le> 200"
    using assms(1) by (simp_all add: config_ok_def rest_ok_def video_ok_def sleep_ok_def)
  have told: "told_ok (as_u32 (bc_current (bitrate_new now (bitrate_mbps (video c)))))"
    using told_current [OF bitrate_inv_new] by blast
  obtain f where f: "afc_new now (fec_redundancy_min ?n) (fec_redundancy_max ?n) (fec_redundancy ?n) = Some f" "afc_inv f"
    using afc_inv_new [of "fec_redundancy_min ?n" "fec_redundancy_max ?n" "fec_redundancy ?n" now] assms(2) v by auto
  have cur: "effective_redundancy f = Fin r"
    using f(1) v by (auto simp: afc_new_def f_clamp_checked_def Let_def f_clamp_Fin effective_redundancy_def)
  have fol: "follows (Some f) (frame_fec_new (Fin r) e n)" for e n
    using v by (simp add: follows_def cur encoders_def frame_fec_new_def fec_new_def list_all_iff near_def fec_cache_ok_def
        f_clamp_Fin epsilon_def not_less pow2_def)
  show ?thesis
    using assms(1) bitrate told f fol bitrate_inv_new [of now "bitrate_mbps (video c)"] frame_new_cache v(2)
    by (auto simp: session_start_def adaptive_new_def Let_def session_inv_def adaptive_ok_def encoders_ok_def video_new_def
        sleep_new_def) (simp_all add: follows_def)
qed

text \<open>The redundancy limits of a configuration, and that they are values of \<open>f32\<close>.\<close>

definition fec_settings :: "app_config \<Rightarrow> fl list" where
  "fec_settings c = [fec_redundancy_min (network c), fec_redundancy_max (network c), fec_redundancy (network c)]"

lemma start_run_ok:
  assumes "config_ok c" "list_all (in_format b32) (fec_settings c)"
  obtains s0 s where "session_start now c fp gov tracker = Some s0" "session_run is s0 = Some s" "session_inv s"
  using session_start_ok [OF assms(1), of now fp gov tracker] assms(2) session_run_ok by (fastforce simp: fec_settings_def)

lemma default_settings: "list_all (in_format b32) (fec_settings default_config)"
proof -
  have "is_float b32 (13421773 / 67108864)" "is_float b32 (13421773 / 268435456)" "is_float b32 (13421773 / 33554432)"
    by code_simp+
  then show ?thesis by (simp add: fec_settings_def default_config_def default_network_def default_fec default_fec_limits)
qed

text \<open>
  C12. A session started with a valid configuration never panics, whatever frames, heartbeats, transport feedback,
  bitrate settings, head poses, GPU temperatures and clock readings it is given, in any order and number; every
  bitrate it tells the encoder lies between 1 and 200 Mbit/s, and at most 8 sleep transitions wait for the headset.
\<close>
theorem session_safe:
  assumes "config_ok c" "list_all (in_format b32) (fec_settings c)"
  shows "case session_start now c frame_pose gov tracker of
      None \<Rightarrow> False
    | Some s0 \<Rightarrow> (case session_run is s0 of
          None \<Rightarrow> False
        | Some s \<Rightarrow> list_all (\<lambda>n. 1000000 \<le> n \<and> n \<le> 200000000) (ss_told s) \<and> length (ss_sleep_tx s) \<le> 8)"
proof -
  obtain s0 s where s: "session_start now c frame_pose gov tracker = Some s0" "session_run is s0 = Some s" "session_inv s"
    by (rule start_run_ok [OF assms])
  then have "list_all (\<lambda>n. 1000000 \<le> n \<and> n \<le> 200000000) (ss_told s)" "length (ss_sleep_tx s) \<le> 8"
    by (simp_all add: session_inv_def told_ok_def [abs_def] SLEEP_CAPACITY_def)
  with s show ?thesis by simp
qed

theorem session_safe_witness:
  "case session_start 0 default_config True None (tracker_new 90) of
      None \<Rightarrow> False
    | Some s0 \<Rightarrow> (case session_run [StatusTick 7, ControlInput 9 (BitrateSetting 4000), SleepTaken] s0 of
          None \<Rightarrow> False
        | Some s \<Rightarrow> list_all (\<lambda>n. 1000000 \<le> n \<and> n \<le> 200000000) (ss_told s) \<and> length (ss_sleep_tx s) \<le> 8)"
  by (rule session_safe [OF default_config_ok default_settings])

text \<open>
  C22. Whenever adaptive FEC is on, the redundancy of every encoder of the frame loop (bulk and per slice) is the
  controller's effective redundancy, which is a number between 0 and 1, up to the threshold below which an encoder
  keeps the code it has built; this holds after every input, boosts and their ends included.
\<close>
theorem fec_follows_controller:
  assumes "config_ok c" "list_all (in_format b32) (fec_settings c)"
    and "session_start now c frame_pose gov tracker = Some s0" "session_run is s0 = Some s"
    and "as_fec (ss_adaptive s) = Some afec"
  shows "Fin 0 \<le> effective_redundancy afec \<and> effective_redundancy afec \<le> Fin 1
    \<and> list_all (\<lambda>e. \<not> epsilon b32 < f_abs (f_sub b32 (effective_redundancy afec) (fe_redundancy e)))
        (ff_bulk (vs_fec (ss_video s)) # ff_slices (vs_fec (ss_video s)))"
proof -
  have inv: "session_inv s" using assms(3,4) by (auto intro: start_run_ok [OF assms(1,2), of now frame_pose gov tracker "is"])
  then have "afc_inv afec" using assms(5) by (simp add: session_inv_def adaptive_ok_def)
  then obtain r where r: "effective_redundancy afec = Fin r" "0 \<le> r" "r \<le> 1" using effective_number by blast
  have "list_all (near (Fin r)) (encoders (vs_fec (ss_video s)))"
    using inv assms(5) r by (simp add: session_inv_def encoders_ok_def follows_def)
  then show ?thesis using r by (simp add: list_all_iff near_def encoders_def f_clamp_Fin)
qed

definition sample_fec :: adaptive_fec where
  "sample_fec = the (afc_new 0 (fec_redundancy_min default_network) (fec_redundancy_max default_network) (fec_redundancy default_network))"

theorem fec_follows_witness:
  "\<exists>s. session_start 0 default_config True None (tracker_new 90) = Some s \<and> as_fec (ss_adaptive s) = Some sample_fec
     \<and> effective_redundancy sample_fec \<le> Fin 1"
proof -
  obtain s where s: "session_start 0 default_config True None (tracker_new 90) = Some s"
    using start_run_ok [OF default_config_ok default_settings, of 0 True None "tracker_new 90" "[]"] by metis
  moreover have "as_fec (ss_adaptive s) = Some sample_fec"
    using s by (auto simp: session_start_def adaptive_new_def Let_def sample_fec_def default_config_def default_network_def
        default_fec default_fec_limits split: if_splits option.splits)
  ultimately show ?thesis
    using fec_follows_controller [OF default_config_ok default_settings s, of "[]"] by auto
qed

section \<open>Heartbeats\<close>

definition heartbeats :: "(instant \<times> hmd_stats) list \<Rightarrow> adaptive_state \<Rightarrow> adaptive_state" where
  "heartbeats hs a = foldl (\<lambda>a (now, h). fst (adaptive_on_event now (Heartbeat h) a)) a hs"

definition sat_sum :: "(hmd_stats \<Rightarrow> u32) \<Rightarrow> (instant \<times> hmd_stats) list \<Rightarrow> nat" where
  "sat_sum f hs = min (2 ^ 32 - 1) (\<Sum>(t, h) \<leftarrow> hs. unat (f h))"

lemma heartbeats_pending:
  assumes "as_pending a = None"
  shows "heartbeats hs a = (case rev hs of [] \<Rightarrow> a | (t, h) # _ \<Rightarrow>
      a\<lparr>as_last := Some h, as_pending := Some (h\<lparr>hm_received := of_nat (sat_sum hm_received hs), hm_lost := of_nat (sat_sum hm_lost hs)\<rparr>)\<rparr>)"
proof (induction hs rule: rev_induct)
  case Nil
  show ?case by (simp add: heartbeats_def)
next
  case (snoc x hs)
  obtain t h where x: "x = (t, h)" by fastforce
  have sum: "of_nat (sat_sum f (hs @ [(t, h)])) = sat_add_u32 (of_nat (sat_sum f hs)) (f h)" for f
    by (rule word_unat_eq_iff [THEN iffD2]) (auto simp: unat_sat_add_u32 sat_sum_def unat_of_nat min_def)
  have one: "of_nat (sat_sum f [(t, h)]) = f h" for f
  proof -
    have "unat (f h) < 2 ^ 32" using unsigned_less [of "f h", where 'a = nat] by simp
    then have "sat_sum f [(t, h)] = unat (f h)" by (simp add: sat_sum_def)
    then show ?thesis by simp
  qed
  show ?case
  proof (cases hs rule: rev_cases)
    case Nil
    then show ?thesis using assms by (simp add: heartbeats_def x adaptive_on_event_def merge_stats_def one)
  next
    case (snoc ys y)
    obtain u k where y: "y = (u, k)" by fastforce
    have "heartbeats (hs @ [x]) a = fst (adaptive_on_event t (Heartbeat h) (heartbeats hs a))"
      by (simp add: heartbeats_def x)
    then show ?thesis using snoc.IH by (simp add: snoc y x adaptive_on_event_def merge_stats_def sum [unfolded snoc y, simplified])
  qed
qed

lemma tick_fec_keeps: "tick_fec now a f = Some (a', f') \<Longrightarrow> as_bw a' = as_bw a \<and> as_pending a' = as_pending a"
  by (auto simp: tick_fec_def split: option.splits)

lemma adaptive_tick_uses:
  assumes "adaptive_ok a" "as_pending a = Some p" "adaptive_tick now a f = Some (b, g, told)"
  shows "as_bw b = bandwidth_update now (as_bw a) (hm_received p) (hm_lost p) (Fin 0) \<and> as_pending b = None"
proof -
  let ?a1 = "a\<lparr>as_pending := None, as_bw := bandwidth_update now (as_bw a) (hm_received p) (hm_lost p) (Fin 0)\<rparr>"
  have ok: "adaptive_ok ?a1" "adaptive_ok (?a1\<lparr>as_burst := d\<rparr>)" for d using assms(1) by (simp_all add: adaptive_ok_def)
  have keep: "as_bw (fst (adjust_bitrate now e d (?a1\<lparr>as_burst := d'\<rparr>))) = as_bw ?a1"
      "as_pending (fst (adjust_bitrate now e d (?a1\<lparr>as_burst := d'\<rparr>))) = None"
      "as_bw (fst (adjust_bitrate now e d ?a1)) = as_bw ?a1" "as_pending (fst (adjust_bitrate now e d ?a1)) = None" for e d d'
    by (simp_all add: adjust_bitrate_def split_beta)
  show ?thesis using assms(2,3) keep
    by (auto simp: adaptive_tick_def Let_def split_beta dest!: tick_fec_keeps split: if_splits option.splits)
qed

text \<open>
  Between two ticks of the frame loop any number of heartbeats may arrive; the next tick hands their packet
  counts to the loss estimator exactly once, summed and saturated at 32 bits, and a further tick without a new
  heartbeat changes nothing and tells the encoder nothing.
\<close>
theorem heartbeats_counted_once:
  assumes "adaptive_ok a" "as_pending a = None" "hs \<noteq> []"
    and "adaptive_tick now (heartbeats hs a) f = Some (b, g, told)"
  shows "as_bw b = bandwidth_update now (as_bw a) (of_nat (sat_sum hm_received hs)) (of_nat (sat_sum hm_lost hs)) (Fin 0)
    \<and> adaptive_tick later b g = Some (b, g, [])"
proof -
  obtain t h hs' where h: "rev hs = (t, h) # hs'" using assms(3) by (metis list.exhaust rev_is_Nil_conv surj_pair)
  have ok: "adaptive_ok (heartbeats hs a)" "as_bw (heartbeats hs a) = as_bw a"
    using assms(1) by (simp_all add: heartbeats_pending [OF assms(2)] h adaptive_ok_def)
  show ?thesis
    using adaptive_tick_uses [OF ok(1) _ assms(4)] ok(2)
    by (simp add: heartbeats_pending [OF assms(2)] h adaptive_tick_def)
qed

definition sample_adaptive :: adaptive_state where
  "sample_adaptive = the (adaptive_new 0 (default_config\<lparr>network := default_network\<lparr>adaptive_fec_enabled := False\<rparr>\<rparr>))"

lemma sample_adaptive_ok: "adaptive_ok sample_adaptive" "as_pending sample_adaptive = None" "as_fec sample_adaptive = None"
  using bitrate_inv_new
  by (simp_all add: sample_adaptive_def adaptive_new_def Let_def adaptive_ok_def sleep_new_def default_config_def
      default_sleep_mode_def)

definition sample_beats :: "(instant \<times> hmd_stats) list" where
  "sample_beats = [(1, \<lparr>hm_received = 4000000000, hm_lost = 3, hm_decode_us = 9, hm_fps = 90\<rparr>),
     (2, \<lparr>hm_received = 400000000, hm_lost = 4, hm_decode_us = 9, hm_fps = 90\<rparr>)]"

theorem heartbeats_counted_witness:
  "\<exists>b g told. adaptive_tick 5 (heartbeats sample_beats sample_adaptive) (frame_fec_new (Fin 0) True 2) = Some (b, g, told)
     \<and> as_bw b = bandwidth_update 5 (as_bw sample_adaptive) 4294967295 7 (Fin 0) \<and> adaptive_tick 6 b g = Some (b, g, [])"
proof -
  have ok: "adaptive_ok (heartbeats sample_beats sample_adaptive)"
      "encoders_ok (heartbeats sample_beats sample_adaptive) (frame_fec_new (Fin 0) True 2)"
    using sample_adaptive_ok frame_new_cache
    by (auto simp: heartbeats_pending [OF sample_adaptive_ok(2)] sample_beats_def adaptive_ok_def encoders_ok_def follows_def)
  obtain b g told where r: "adaptive_tick 5 (heartbeats sample_beats sample_adaptive) (frame_fec_new (Fin 0) True 2) = Some (b, g, told)"
    using adaptive_tick_ok [OF ok] by blast
  have sums: "sat_sum hm_received sample_beats = 4294967295" "sat_sum hm_lost sample_beats = 7"
    by (simp_all add: sat_sum_def sample_beats_def)
  have "sample_beats \<noteq> []" by (simp add: sample_beats_def)
  from heartbeats_counted_once [OF sample_adaptive_ok(1,2) this r, of 6] r sums show ?thesis by auto
qed

section \<open>Where the encoder is not told\<close>

lemma clean_candidate:
  assumes "ai_burst i = NoLoss" "ai_loss_rate i < f64_lit (1 / 100)" "\<not> Fin 2 < ai_delay_gradient_ms i"
    "ai_target_loss_rate i = f64_lit (2 / 100)" "60 \<le> ai_current_bps i" "ai_current_bps i < 2 ^ 52"
  shows "\<exists>c. ai_current_bps i \<le> c
    \<and> fst (arbitrate i) = clamp_with_thermal c (ai_min_bps i) (ai_hard_max_bps i) (ai_thermal_ceiling_bps i)"
proof -
  let ?c = "ai_current_bps i" and ?m = "4728779608739021 / 4503599627370496 :: rat"
  have lit: "f64_lit (1 / 100) < f64_lit (2 / 100)" "f64_lit (2 / 100) < f64_lit (5 / 100)" by code_simp+
  have no: "\<not> f64_lit (5 / 100) < ai_loss_rate i" "\<not> ai_target_loss_rate i < ai_loss_rate i"
    using assms(2,4) lit fl_less_imp_le fl_less_le_trans fl_le_not_less by metis+
  have arb: "fst (arbitrate i) = clamp_with_thermal (f_as_u64 (f_mul b64 (f_of_nat b64 ?c) (fst (arb_multiplier i))))
      (ai_min_bps i) (ai_hard_max_bps i) (ai_thermal_ceiling_bps i)"
    using assms(1) by (simp add: arbitrate_def Let_def split_beta)
  have m: "fst (arb_multiplier i) = (if ai_hysteresis_elapsed i then Fin ?m else Fin 1)"
    using assms(1-3) no by (simp add: arb_multiplier_def Let_def arb_literals [simplified])
  show ?thesis
  proof (cases "ai_hysteresis_elapsed i")
    case False
    have "f_as_u64 (f_mul b64 (Fin (of_nat ?c)) (Fin 1)) = ?c"
      using f_of_nat64 [OF assms(6)] assms(6) by (simp add: f_mul_Fin f_as_u64_def trunc_rat_def)
    then show ?thesis using arb m False f_of_nat64 [OF assms(6)] by auto
  next
    case True
    obtain r where r: "rnd b64 (of_nat ?c * ?m) = Fin r" "\<bar>r - of_nat ?c * ?m\<bar> \<le> 1 / 2" "f_as_u64 (Fin r) = nat \<lfloor>r\<rfloor>"
      by (rule scaled_candidate [OF assms(6), of ?m]) auto
    have c60: "60 \<le> (of_nat ?c :: rat)" using assms(5) by (metis of_nat_le_iff of_nat_numeral)
    have "of_nat ?c * (104 / 100) \<le> of_nat ?c * ?m" by (intro mult_left_mono) auto
    then have "of_nat ?c \<le> r" using r(2) c60 by linarith
    then have "?c \<le> nat \<lfloor>r\<rfloor>" by (simp add: le_nat_iff le_floor_iff)
    then show ?thesis using arb m True r f_of_nat64 [OF assms(6)] by (auto simp: f_mul_Fin)
  qed
qed

lemma capped_clean_unchanged:
  assumes "bitrate_inv b" "bc_current b = max (effective_max (bc_max b) (bc_thermal b)) (bc_min b)"
    and "be_loss e < f64_lit (1 / 100)" "\<not> Fin 2 < gc_gradient g" "bd_pattern d = NoLoss"
  shows "fst (bitrate_adjust now b e g d) = False \<and> bc_current (snd (bitrate_adjust now b e g d)) = bc_current b"
proof -
  let ?i = "arbitration_of now b (be_loss e) (gc_gradient g) (bd_pattern d)"
  have b: "bc_min b = 10000000" "bc_current b \<le> 200000000" "bc_min b \<le> bc_current b" "bc_target_loss b = f64_lit (2 / 100)"
    using assms(1) by (auto simp: bitrate_inv_def effective_max_def split: option.splits)
  obtain c where c: "bc_current b \<le> c" "fst (arbitrate ?i) = clamp_with_thermal c (bc_min b) (bc_max b) (bc_thermal b)"
    using clean_candidate [of ?i] assms(3-5) b by (auto simp: arbitration_of_def)
  have "clamp_with_thermal c (bc_min b) (bc_max b) (bc_thermal b) = max (min c (effective_max (bc_max b) (bc_thermal b))) (bc_min b)"
    by (simp add: clamp_with_thermal_def effective_max_def Let_def)
  also have "\<dots> = bc_current b" using c(1) assms(2) by (simp add: min_def max_def split: if_splits)
  finally show ?thesis using c(2) by (simp add: bitrate_adjust_def Let_def split_beta)
qed

lemma thermal_feedback_told: "ss_told (thermal_feedback now temp s) = ss_told s"
  by (auto simp: thermal_feedback_def Let_def split: option.splits prod.splits)

lemma thermal_feedback_capped:
  assumes "bitrate_inv (as_bitrate (ss_adaptive s))"
    and "bc_current (as_bitrate (ss_adaptive (thermal_feedback now temp s))) < bc_current (as_bitrate (ss_adaptive s))"
  shows "bitrate_inv (as_bitrate (ss_adaptive (thermal_feedback now temp s)))
    \<and> (let b = as_bitrate (ss_adaptive (thermal_feedback now temp s)) in
       bc_current b = max (effective_max (bc_max b) (bc_thermal b)) (bc_min b))"
  using assms bitrate_inv_cap [of "as_bitrate (ss_adaptive s)"]
  by (auto simp: thermal_feedback_def Let_def set_thermal_ceiling_def clamp_to_bounds_def effective_max_def min_def max_def
      split: option.splits prod.splits if_splits)

text \<open>
  C24. When the thermal governor lowers the controller's bitrate, the encoder is not told, and the following
  adjustments on a clean link (loss under 1 %, no loss episode, no growing delay) do not tell it either, because the
  controller's bitrate is already at the cap: the encoder keeps the bitrate the cap was to lower.
\<close>
theorem thermal_cap_unsent:
  assumes "bitrate_inv (as_bitrate (ss_adaptive s))" "thermal_feedback now temp s = s'"
    and "bc_current (as_bitrate (ss_adaptive s')) < bc_current (as_bitrate (ss_adaptive s))"
    and "be_loss e < f64_lit (1 / 100)" "\<not> Fin 2 < gc_gradient g" "bd_pattern d = NoLoss"
  shows "ss_told s' = ss_told s \<and> snd (adjust_bitrate later g d ((ss_adaptive s')\<lparr>as_bw := e\<rparr>)) = []"
  using thermal_feedback_capped [of s now temp] capped_clean_unchanged [of "as_bitrate (ss_adaptive s')" e g d later] assms
    thermal_feedback_told [of now temp s]
  by (auto simp: adjust_bitrate_def Let_def split_beta)

definition hot_session :: session where
  "hot_session = the (session_start 0 (default_config\<lparr>network := default_network\<lparr>adaptive_fec_enabled := False\<rparr>\<rparr>) True
     (Some (thermal_new (default_thermal\<lparr>th_enabled := True\<rparr>))) (tracker_new 90))"

theorem thermal_cap_witness:
  "ss_told (thermal_feedback 7 (Some 95) hot_session) = [80000000]
   \<and> bc_current (as_bitrate (ss_adaptive (thermal_feedback 7 (Some 95) hot_session))) = 40000000
   \<and> snd (adjust_bitrate 20000000000 (gcc_new 0 9) burst_new
          ((ss_adaptive (thermal_feedback 7 (Some 95) hot_session))\<lparr>as_bw := bandwidth_new 3\<rparr>)) = []"
proof -
  let ?s = "thermal_feedback 7 (Some 95) hot_session"
  have b: "as_bitrate (ss_adaptive hot_session) = bitrate_new 0 80" "ss_told hot_session = [80000000]"
      "ss_thermal hot_session = Some (thermal_new (default_thermal\<lparr>th_enabled := True\<rparr>))"
    by (simp_all add: hot_session_def session_start_def adaptive_new_def Let_def default_config_def default_video_def
        bitrate_new_def setting_bps_def MIN_BITRATE_MBPS_def MAX_BITRATE_MBPS_def as_u32_def)
  have cap: "f_as_u64 (f_mul b64 (f_of_nat b64 80000000) EMERGENCY_MULTIPLIER) = 40000000"
    using f_of_nat64 [of 80000000] f_of_nat64 [of 40000000]
    by (simp add: multipliers f_mul_Fin f_as_u64_def trunc_rat_def)
  have cur: "bc_current (as_bitrate (ss_adaptive ?s)) = 40000000"
    using cap by (simp add: thermal_feedback_def b thermal_tick_def thermal_new_def default_thermal_def thermal_multiplier_def
        Let_def setting_mbps_def bitrate_new_def setting_bps_def MIN_BITRATE_MBPS_def MAX_BITRATE_MBPS_def
        set_thermal_ceiling_def clamp_to_bounds_def)
  have inv: "bitrate_inv (as_bitrate (ss_adaptive hot_session))" by (simp add: b(1) bitrate_inv_new)
  have low: "bc_current (as_bitrate (ss_adaptive ?s)) < bc_current (as_bitrate (ss_adaptive hot_session))"
    unfolding cur b(1) by (simp add: bitrate_new_def setting_bps_def MIN_BITRATE_MBPS_def MAX_BITRATE_MBPS_def)
  have small: "Fin 0 < f64_lit (1 / 100)" by code_simp
  have clean: "be_loss (bandwidth_new 3) < f64_lit (1 / 100)" "\<not> Fin 2 < gc_gradient (gcc_new 0 9)"
      "bd_pattern burst_new = NoLoss"
    using small by (simp_all add: bandwidth_new_def gcc_new_def burst_new_def)
  from thermal_cap_unsent [OF inv refl low clean] show ?thesis by (simp add: b(2) cur)
qed

end
