(* ===== verification/Reconnect.thy ===== *)
theory Reconnect imports Prelude begin

text \<open>
  The counters and the backoff of the engine's accept loop (\<open>control/reconnect.rs\<close>).
\<close>

definition MAX_ACCEPT_FAILURES :: u32 where "MAX_ACCEPT_FAILURES = 5"
definition MAX_RECONNECT_ATTEMPTS :: u32 where "MAX_RECONNECT_ATTEMPTS = 10"
definition BACKOFF_BASE :: duration where "BACKOFF_BASE = 1 * nanos_per_sec"
definition BACKOFF_MAX_SHIFT :: u32 where "BACKOFF_MAX_SHIFT = 4"

record reconnect_state =
  rc_accept_failures :: u32
  rc_reconnect_attempts :: u32

definition reconnect_new :: reconnect_state where
  "reconnect_new = \<lparr>rc_accept_failures = 0, rc_reconnect_attempts = 0\<rparr>"

definition record_accept_failure :: "reconnect_state \<Rightarrow> reconnect_state" where
  "record_accept_failure r = r\<lparr>rc_accept_failures := sat_add_u32 (rc_accept_failures r) 1\<rparr>"

definition record_accept_success :: "reconnect_state \<Rightarrow> reconnect_state" where
  "record_accept_success r = r\<lparr>rc_accept_failures := 0\<rparr>"

definition record_clean_disconnect :: "reconnect_state \<Rightarrow> reconnect_state" where
  "record_clean_disconnect r = r\<lparr>rc_accept_failures := 0, rc_reconnect_attempts := 0\<rparr>"

definition record_connection_lost :: "reconnect_state \<Rightarrow> reconnect_state" where
  "record_connection_lost r = r\<lparr>rc_reconnect_attempts := sat_add_u32 (rc_reconnect_attempts r) 1\<rparr>"

definition record_protocol_error :: "reconnect_state \<Rightarrow> reconnect_state" where
  "record_protocol_error r = r\<lparr>rc_reconnect_attempts := sat_add_u32 (rc_reconnect_attempts r) 1\<rparr>"

definition record_hold_accept_failure :: "reconnect_state \<Rightarrow> reconnect_state" where
  "record_hold_accept_failure r = r\<lparr>rc_accept_failures := sat_add_u32 (rc_accept_failures r) 1\<rparr>"

definition is_listener_failing :: "reconnect_state \<Rightarrow> bool" where
  "is_listener_failing r \<longleftrightarrow> MAX_ACCEPT_FAILURES \<le> rc_accept_failures r"

definition is_reconnect_warning_due :: "reconnect_state \<Rightarrow> bool" where
  "is_reconnect_warning_due r \<longleftrightarrow> MAX_RECONNECT_ATTEMPTS < rc_reconnect_attempts r"

definition next_backoff :: "reconnect_state \<Rightarrow> duration option" where
  "next_backoff r =
     (if rc_accept_failures r = 0 then None
      else let shift = min (rc_accept_failures r - 1) BACKOFF_MAX_SHIFT in Some (BACKOFF_BASE * 2 ^ unat shift))"

text \<open>The shift is at most 4, so \<open>2u32.pow\<close> cannot overflow.\<close>

lemma next_backoff_value:
  "next_backoff r = (let n = unat (rc_accept_failures r) in if n = 0 then None else Some (nanos_per_sec * 2 ^ min (n - 1) 4))"
proof (cases "rc_accept_failures r = 0")
  case False
  then have n: "unat (rc_accept_failures r - 1) = unat (rc_accept_failures r) - 1"
    by (metis unat_1 unat_sub word_le_sub1 word_neq_0_conv word_less_1 not_less)
  have "unat (min (rc_accept_failures r - 1) 4) = min (unat (rc_accept_failures r) - 1) 4"
    by (simp add: min_def word_le_nat_alt n)
  moreover have "unat (rc_accept_failures r) \<noteq> 0" using False by (simp add: unat_eq_0)
  ultimately show ?thesis using False by (simp add: next_backoff_def BACKOFF_BASE_def BACKOFF_MAX_SHIFT_def Let_def)
qed (simp add: next_backoff_def)

lemma failures_count:
  "unat (rc_accept_failures ((record_accept_failure ^^ k) r)) = min (2 ^ 32 - 1) (unat (rc_accept_failures r) + k)"
proof (induction k)
  case 0
  have "unat (rc_accept_failures r) < 2 ^ 32" using unsigned_less [of "rc_accept_failures r", where 'a = nat] by simp
  then show ?case by simp
next
  case (Suc k)
  then show ?case by (simp add: record_accept_failure_def unat_sat_add_u32)
qed

end
