(* ===== verification/Decimal.thy ===== *)
theory Decimal imports Prelude "HOL-Library.Char_ord" begin

text \<open>
  \<open>Display\<close> of the unsigned integers, and reading them back.
\<close>

definition digit :: "nat \<Rightarrow> char" where
  "digit d = char_of (48 + d)"

fun decimal :: "nat \<Rightarrow> string" where
  "decimal n = (if n < 10 then [digit n] else decimal (n div 10) @ [digit (n mod 10)])"

declare decimal.simps [simp del]

definition digit_value :: "char \<Rightarrow> nat option" where
  "digit_value c = (let k = of_char c :: nat in if 48 \<le> k \<and> k \<le> 57 then Some (k - 48) else None)"

text \<open>The value of a string of digits.\<close>

definition parse_decimal :: "string \<Rightarrow> nat option" where
  "parse_decimal s = (if s = [] then None
     else foldl (\<lambda>acc c. case (acc, digit_value c) of (Some a, Some d) \<Rightarrow> Some (10 * a + d) | _ \<Rightarrow> None) (Some 0) s)"

lemma digit_value_digit [simp]: "d < 10 \<Longrightarrow> digit_value (digit d) = Some d"
  by (simp add: digit_value_def digit_def Let_def)

lemma decimal_nonempty [simp]: "decimal n \<noteq> []"
  by (subst decimal.simps) simp

theorem parse_decimal_decimal: "parse_decimal (decimal n) = Some n"
proof -
  have "foldl (\<lambda>acc c. case (acc, digit_value c) of (Some a, Some d) \<Rightarrow> Some (10 * a + d) | _ \<Rightarrow> None) (Some 0) (decimal n) = Some n"
  proof (induction n rule: decimal.induct)
    case (1 n)
    then show ?case by (subst decimal.simps) (simp add: split_beta)
  qed
  then show ?thesis by (simp add: parse_decimal_def)
qed

lemma decimal_digits: "list_all (\<lambda>c. digit_value c \<noteq> None) (decimal n)"
  by (induction n rule: decimal.induct) (subst decimal.simps, simp)

lemma length_decimal: "n < 10 ^ k \<Longrightarrow> 0 < k \<Longrightarrow> length (decimal n) \<le> k"
proof (induction n arbitrary: k rule: decimal.induct)
  case (1 n)
  show ?case
  proof (cases "n < 10")
    case True
    then show ?thesis using 1 by (subst decimal.simps) simp
  next
    case False
    then obtain m where k: "k = Suc m" "0 < m" using 1 by (cases k; cases "k - 1") auto
    then have "length (decimal (n div 10)) \<le> m" using 1 False by (intro "1.IH") auto
    then show ?thesis using False k by (subst decimal.simps) simp
  qed
qed

lemma parse_decimal_zeros: "xs \<noteq> [] \<Longrightarrow> parse_decimal (replicate k (CHR ''0'') @ xs) = parse_decimal xs"
proof -
  have "digit_value (CHR ''0'') = Some 0" by (simp add: digit_value_def)
  then have "foldl (\<lambda>acc c. case (acc, digit_value c) of (Some a, Some d) \<Rightarrow> Some (10 * a + d) | _ \<Rightarrow> None) (Some 0)
      (replicate k (CHR ''0'')) = Some 0" by (induction k) simp_all
  then show "xs \<noteq> [] \<Longrightarrow> ?thesis" by (simp add: parse_decimal_def)
qed

end
