(* ===== verification/EngineLoop.thy ===== *)
theory EngineLoop imports Reconnect Session Decimal begin

text \<open>
  The engine's accept, session and hold loop (\<open>engine.rs\<close>), composed of the components it runs: the
  handshake server, the tracking receiver, the control task and the frame loop of a session. \<open>None\<close> is
  a panic. The tasks of a live session interleave at the steps of their loops; the surroundings (clock,
  network, TLS, random source, disk, profile files) are the arguments of each iteration.
\<close>

section \<open>The driver's side\<close>

definition FRAME_CAPACITY :: nat where "FRAME_CAPACITY = 4"

text \<open>\<open>try_send\<close> of a frame: whether it was queued.\<close>

definition submit_frame :: "encoded_frame \<Rightarrow> encoded_frame list \<Rightarrow> bool \<times> encoded_frame list" where
  "submit_frame f q = (if length q < FRAME_CAPACITY then (True, q @ [f]) else (False, q))"

definition CONTROLLER_STALE_AFTER :: duration where "CONTROLLER_STALE_AFTER = 250 * nanos_per_ms"

definition fresh_controller_state :: "(controller_state \<times> instant) option \<Rightarrow> instant \<Rightarrow> controller_state option" where
  "fresh_controller_state slot now =
     (case slot of
        Some (state, received_at) \<Rightarrow> if now - received_at \<le> CONTROLLER_STALE_AFTER then Some state else None
      | None \<Rightarrow> None)"

definition get_controller :: "tracking_state \<Rightarrow> u8 \<Rightarrow> instant \<Rightarrow> controller_state option" where
  "get_controller t cid now =
     (if unat cid < length (tk_controllers t) then fresh_controller_state (tk_controllers t ! unat cid) now else None)"

definition clear_inputs :: "tracking_state \<Rightarrow> tracking_state" where
  "clear_inputs t = t\<lparr>tk_head := None, tk_controllers := [None, None]\<rparr>"

section \<open>A live session\<close>

record live =
  lv_session :: session
  lv_channel :: channel
  lv_tracking :: tracking_state
  lv_frames :: "encoded_frame list"
  lv_reason :: "disconnect_reason option"

datatype session_end = Disconnected disconnect_reason | SetupFailed | SessionShutdown

text \<open>
  What can happen: the control task reads, finds itself silent, sends a haptic event or a sleep
  transition; the driver submits a frame; a tracking datagram arrives; the frame loop takes a control
  event or a frame, ticks its status, sees the control task gone (and its reason within a second or
  not), the frame source closed or the engine shut down. The latencies of a HEARTBEAT_ACK are the
  session's.
\<close>

datatype live_input =
  LvRead instant "nat \<Rightarrow> instant" bytes
| LvSilence instant
| LvHaptic haptic_event
| LvSleep
| LvSubmit encoded_frame
| LvDatagram instant recv_event
| LvEvent instant
| LvFrame frame_input
| LvStatus instant
| LvCancelled bool
| LvSourceGone
| LvShutdown

definition control_input :: "channel_input \<Rightarrow> live \<Rightarrow> live" where
  "control_input i l =
     (if lv_reason l \<noteq> None then l
      else let (r, c) = channel_step i (lv_channel l) in l\<lparr>lv_channel := c, lv_reason := r\<rparr>)"

text \<open>The latency atomics as the control task reads them.\<close>

definition latencies :: "session \<Rightarrow> u32 \<times> u32" where
  "latencies s = (of_nat (ss_encode_us s), of_nat (ss_total_us s))"

definition with_session :: "session option \<Rightarrow> live \<Rightarrow> (session_end + live) option" where
  "with_session s l = map_option (\<lambda>s. Inr (l\<lparr>lv_session := s\<rparr>)) s"

fun live_step :: "ip_addr \<Rightarrow> live_input \<Rightarrow> live \<Rightarrow> (session_end + live) option" where
  "live_step ip (LvRead now stamps chunk) l =
     Some (Inr (control_input (Read now (\<lambda>k. (stamps k, latencies (lv_session l))) chunk) l))"
| "live_step ip (LvSilence now) l = Some (Inr (control_input (SilencePoll now) l))"
| "live_step ip (LvHaptic e) l = Some (Inr (control_input (HapticReady e) l))"
| "live_step ip LvSleep l =
     (case ss_sleep_tx (lv_session l) of
        [] \<Rightarrow> Some (Inr l)
      | b # _ \<Rightarrow> if lv_reason l \<noteq> None then Some (Inr l)
          else with_session (session_step SleepTaken (lv_session l)) (control_input (SleepReady b) l))"
| "live_step ip (LvSubmit f) l = Some (Inr (l\<lparr>lv_frames := snd (submit_frame f (lv_frames l))\<rparr>))"
| "live_step ip (LvDatagram now ev) l = Some (Inr (l\<lparr>lv_tracking := recv_step (Some ip) now ev (lv_tracking l)\<rparr>))"
| "live_step ip (LvEvent now) l =
     (case ch_events (lv_channel l) of
        [] \<Rightarrow> Some (Inr l)
      | e # _ \<Rightarrow> with_session (session_step (ControlInput now e) (lv_session l))
          (l\<lparr>lv_channel := snd (channel_step FrameLoopTakes (lv_channel l))\<rparr>))"
| "live_step ip (LvFrame i) l =
     (case lv_frames l of
        [] \<Rightarrow> Some (Inr l)
      | f # fs \<Rightarrow> with_session
          (session_step (FrameInput (i\<lparr>fi_frame := f, fi_head := tk_head (lv_tracking l)\<rparr>)) (lv_session l))
          (l\<lparr>lv_frames := fs\<rparr>))"
| "live_step ip (LvStatus now) l = with_session (session_step (StatusTick now) (lv_session l)) l"
| "live_step ip (LvCancelled in_time) l =
     (case lv_reason l of
        None \<Rightarrow> Some (Inr l)
      | Some r \<Rightarrow> Some (Inl (Disconnected (if in_time then r else ConnectionLost))))"
| "live_step ip LvSourceGone l = Some (Inl SessionShutdown)"
| "live_step ip LvShutdown l = Some (Inl SessionShutdown)"

text \<open>\<open>None\<close> as the end: the inputs ran out and the session goes on.\<close>

fun live_run :: "ip_addr \<Rightarrow> live_input list \<Rightarrow> live \<Rightarrow> (session_end option \<times> live) option" where
  "live_run ip [] l = Some (None, l)"
| "live_run ip (i # is') l =
     (case live_step ip i l of
        None \<Rightarrow> None
      | Some (Inl e) \<Rightarrow> Some (Some e, l)
      | Some (Inr l') \<Rightarrow> live_run ip is' l')"

section \<open>Running a session\<close>

record engine_loop =
  el_config :: app_config
  el_frames :: "encoded_frame list"
  el_tracking :: tracking_state
  el_peer :: "ip_addr option"
  el_tracker :: latency_tracker
  el_reconnect :: reconnect_state
  el_gov :: "thermal_governor option"
  el_flags :: "bool \<times> bool"
  el_disk :: disk

text \<open>
  What a session finds: the time it starts, whether its OSC socket and its UDP sender can be opened,
  the profile files, and what happens while it lasts (before a failing UDP sender is given up:
  \<open>sn_early\<close>).
\<close>

record session_env =
  sn_start :: instant
  sn_osc_socket :: bool
  sn_parse :: "string \<Rightarrow> ft_profile option"
  sn_profiles :: profile_dir
  sn_udp_ok :: bool
  sn_early :: "channel_input list"
  sn_inputs :: "live_input list"

definition session_bridge :: "face_tracking_config \<Rightarrow> session_env \<Rightarrow> osc_bridge" where
  "session_bridge f n =
     (let b = with_smoothing (sn_osc_socket n) (ft_smoothing f);
          b = set_target (''127.0.0.1:'' @ decimal (ft_osc_port f)) b;
          b = set_enabled (ft_enabled f) b
      in if ft_active_profile f \<noteq> [] then
           (case load_profile (sn_parse n) (sn_profiles n) (ft_active_profile f) of
              Some p \<Rightarrow> set_profile (Some p) b
            | None \<Rightarrow> b)
         else b)"

definition authorize :: "ip_addr \<Rightarrow> engine_loop \<Rightarrow> engine_loop" where
  "authorize ip e = e\<lparr>el_peer := Some ip\<rparr>"

text \<open>\<open>AuthorizedPeerGuard::drop\<close>, however the session ended.\<close>

definition revoke :: "engine_loop \<Rightarrow> engine_loop" where
  "revoke e = e\<lparr>el_peer := None, el_tracking := clear_inputs (el_tracking e)\<rparr>"

definition keep_live :: "live \<Rightarrow> engine_loop \<Rightarrow> engine_loop" where
  "keep_live l e = e\<lparr>el_frames := lv_frames l, el_tracking := lv_tracking l, el_gov := ss_thermal (lv_session l),
     el_tracker := ss_tracker (lv_session l), el_flags := (ch_recording (lv_channel l), ch_audio_recording (lv_channel l))\<rparr>"

definition run_session ::
    "ip_addr \<Rightarrow> bool \<Rightarrow> session_env \<Rightarrow> engine_loop \<Rightarrow> (session_end option \<times> engine_loop) option" where
  "run_session ip frame_pose n e =
     (let e = authorize ip e; config = el_config e in
      case channel_new (sn_start n) (session_bridge (face_tracking config) n) (fst (el_flags e)) (snd (el_flags e)) of
        None \<Rightarrow> None
      | Some c \<Rightarrow>
          if \<not> sn_udp_ok n then
            let c = snd (handle_tcp_control (sn_early n) c)
            in Some (Some SetupFailed, revoke (e\<lparr>el_flags := (ch_recording c, ch_audio_recording c)\<rparr>))
          else
            (case session_start (sn_start n) config frame_pose (el_gov e) (el_tracker e) of
               None \<Rightarrow> None
             | Some s \<Rightarrow>
                 (case live_run ip (sn_inputs n) \<lparr>lv_session = s, lv_channel = c, lv_tracking = el_tracking e,
                      lv_frames = [], lv_reason = None\<rparr> of
                    None \<Rightarrow> None
                  | Some (None, l) \<Rightarrow> Some (None, keep_live l e)
                  | Some (Some r, l) \<Rightarrow> Some (Some r, revoke (keep_live l e)))))"

section \<open>Accepting and holding\<close>

record hmd_connection =
  hc_server :: server
  hc_addr :: ip_addr

text \<open>
  The surroundings of an accept: whether the engine is shut down during the backoff or the wait, the
  new server's TLS, clock, random source and disk, whether the port can be bound, what the listener
  sees and the address the connection it returns came from.
\<close>

record accept_env =
  an_unix :: "instant \<Rightarrow> nat"
  an_now :: instant
  an_random :: u32
  an_tls_ok :: bool
  an_disk_ok :: bool
  an_bind_ok :: bool
  an_events :: "accept_input list"
  an_addr :: ip_addr
  an_shutdown :: bool

datatype accept_result = Connected hmd_connection | Retry | Stop | Listening

definition accept :: "accept_env \<Rightarrow> engine_loop \<Rightarrow> accept_result \<times> engine_loop" where
  "accept n e =
     (if an_shutdown n then (Stop, e)
      else
        let sv = server_new (el_config e) (an_tls_ok n) (an_now n) (an_unix n (an_now n)) (an_random n) (an_disk_ok n) (el_disk e);
            (r, sv) = listen_and_accept (an_unix n) (an_bind_ok n) sv (an_events n);
            e = e\<lparr>el_disk := snd (sv_pairing sv)\<rparr>
        in case r of
             None \<Rightarrow> (Listening, e)
           | Some (Connection h) \<Rightarrow> (Connected \<lparr>hc_server = hs_server h, hc_addr = an_addr n\<rparr>, e)
           | Some _ \<Rightarrow> (Retry, e\<lparr>el_reconnect := record_accept_failure (el_reconnect e)\<rparr>))"

definition HOLD_DURATION :: duration where "HOLD_DURATION = 5 * nanos_per_sec"

record hold_env =
  ho_unix :: "instant \<Rightarrow> nat"
  ho_now :: instant
  ho_bind_ok :: bool
  ho_events :: "accept_input list"
  ho_addr :: ip_addr
  ho_shutdown :: bool

datatype hold_outcome = Resumed hmd_connection | NoReconnect | HoldShutdown

text \<open>
  The listener races the hold period: events after it are not seen, and a connection whose handshake
  is not over by then is dropped (what it did to the pairing state stays).
\<close>

definition hold :: "hold_env \<Rightarrow> server \<Rightarrow> engine_loop \<Rightarrow> hold_outcome \<times> engine_loop" where
  "hold n sv e =
     (let deadline = ho_now n + HOLD_DURATION;
          (r, sv) = listen_and_accept (ho_unix n) (ho_bind_ok n) (server_rearm (ho_now n) HOLD_DURATION sv)
                      (takeWhile (\<lambda>a. ac_now a < deadline) (ho_events n));
          e = e\<lparr>el_disk := snd (sv_pairing sv)\<rparr>
      in if ho_shutdown n then (HoldShutdown, e)
         else case r of
             None \<Rightarrow> (NoReconnect, e)
           | Some (Connection h) \<Rightarrow>
               if hs_now h \<le> deadline then (Resumed \<lparr>hc_server = hs_server h, hc_addr = ho_addr n\<rparr>, e) else (NoReconnect, e)
           | Some _ \<Rightarrow> (NoReconnect, e\<lparr>el_reconnect := record_hold_accept_failure (el_reconnect e)\<rparr>))"

section \<open>The loop\<close>

record iteration =
  it_shutdown :: bool
  it_accept :: accept_env
  it_session :: session_env
  it_hold :: hold_env

text \<open>Where the loop is between iterations; \<open>Blocked\<close>: a wait of the iteration has not ended.\<close>

datatype loop_phase = Accepting | Resuming hmd_connection | Blocked | Stopped

definition serve :: "iteration \<Rightarrow> hmd_connection \<Rightarrow> engine_loop \<Rightarrow> (loop_phase \<times> engine_loop) option" where
  "serve i conn e =
     (let e = e\<lparr>el_reconnect := record_accept_success (el_reconnect e)\<rparr>; sv = hc_server conn in
      case run_session (hc_addr conn) (client_reads_frame_pose sv) (it_session i) e of
        None \<Rightarrow> None
      | Some (None, e) \<Rightarrow> Some (Blocked, e)
      | Some (Some SetupFailed, e) \<Rightarrow> Some (Accepting, e\<lparr>el_reconnect := record_accept_failure (el_reconnect e)\<rparr>)
      | Some (Some SessionShutdown, e) \<Rightarrow> Some (Stopped, e)
      | Some (Some (Disconnected ConnectionLost), e) \<Rightarrow>
          let e = e\<lparr>el_reconnect := record_connection_lost (el_reconnect e)\<rparr>;
              (r, e) = hold (it_hold i) sv e
          in Some (case r of Resumed conn \<Rightarrow> Resuming conn | NoReconnect \<Rightarrow> Accepting | HoldShutdown \<Rightarrow> Stopped, e)
      | Some (Some (Disconnected ClientRequested), e) \<Rightarrow>
          Some (Accepting, e\<lparr>el_reconnect := record_clean_disconnect (el_reconnect e)\<rparr>)
      | Some (Some (Disconnected ProtocolError), e) \<Rightarrow>
          Some (Accepting, e\<lparr>el_reconnect := record_protocol_error (el_reconnect e)\<rparr>))"

definition loop_step :: "iteration \<Rightarrow> loop_phase \<times> engine_loop \<Rightarrow> (loop_phase \<times> engine_loop) option" where
  "loop_step i pe =
     (case pe of
        (Stopped, e) \<Rightarrow> Some (Stopped, e)
      | (Blocked, e) \<Rightarrow> Some (Blocked, e)
      | (Accepting, e) \<Rightarrow>
          if it_shutdown i then Some (Stopped, e)
          else (case accept (it_accept i) e of
              (Connected conn, e) \<Rightarrow> serve i conn e
            | (Retry, e) \<Rightarrow> Some (Accepting, e)
            | (Stop, e) \<Rightarrow> Some (Stopped, e)
            | (Listening, e) \<Rightarrow> Some (Blocked, e))
      | (Resuming conn, e) \<Rightarrow> if it_shutdown i then Some (Stopped, e) else serve i conn e)"

fun loop_run :: "iteration list \<Rightarrow> loop_phase \<times> engine_loop \<Rightarrow> (loop_phase \<times> engine_loop) option" where
  "loop_run [] pe = Some pe"
| "loop_run (i # is') pe = (case loop_step i pe of None \<Rightarrow> None | Some pe' \<Rightarrow> loop_run is' pe')"

text \<open>\<open>nvml\<close>: the driver's management library can be opened.\<close>

definition engine_new :: "app_config \<Rightarrow> bool \<Rightarrow> disk \<Rightarrow> engine_loop" where
  "engine_new config nvml dsk = \<lparr>el_config = config, el_frames = [], el_tracking = tracking_new, el_peer = None,
     el_tracker = tracker_new (framerate (video config)), el_reconnect = reconnect_new,
     el_gov = (if th_enabled (thermal config) \<and> nvml then Some (thermal_new (thermal config)) else None),
     el_flags = (rec_enabled (recording config), rec_enabled (recording config)), el_disk = dsk\<rparr>"

section \<open>The engine never panics\<close>

lemma with_session_ok: "\<exists>s'. r = Some s' \<and> session_inv s' \<Longrightarrow> \<exists>x. with_session r l = Some x \<and> (\<forall>l'. x = Inr l' \<longrightarrow> session_inv (lv_session l'))"
  by (auto simp: with_session_def)

lemma control_input_session [simp]: "lv_session (control_input i l) = lv_session l"
  by (simp add: control_input_def split_beta Let_def)

lemma live_step_ok:
  assumes "session_inv (lv_session l)"
  shows "\<exists>x. live_step ip i l = Some x \<and> (\<forall>l'. x = Inr l' \<longrightarrow> session_inv (lv_session l'))"
proof -
  note ok = with_session_ok [OF session_step_ok [OF assms]]
  show ?thesis
  proof (cases i)
    case LvSleep
    with assms ok [of SleepTaken] show ?thesis by (cases "ss_sleep_tx (lv_session l)") (auto simp del: session_step.simps)
  next
    case (LvEvent now)
    with assms ok show ?thesis by (cases "ch_events (lv_channel l)") (auto simp del: session_step.simps)
  next
    case (LvFrame f)
    with assms ok show ?thesis by (cases "lv_frames l") (auto simp del: session_step.simps)
  next
    case (LvStatus now)
    with ok show ?thesis by (auto simp del: session_step.simps)
  next
    case (LvCancelled t)
    with assms show ?thesis by (cases "lv_reason l") auto
  qed (use assms in auto)
qed

lemma live_run_ok: "session_inv (lv_session l) \<Longrightarrow> \<exists>r l'. live_run ip inps l = Some (r, l')"
proof (induction inps arbitrary: l)
  case (Cons i inps)
  obtain x where x: "live_step ip i l = Some x" "\<forall>l'. x = Inr l' \<longrightarrow> session_inv (lv_session l')"
    using live_step_ok [OF Cons.prems] by blast
  with Cons.IH show ?case by (cases x) auto
qed simp

lemma run_session_ok:
  assumes "config_ok (el_config e)" "list_all (in_format b32) (fec_settings (el_config e))" "2 * nanos_per_sec \<le> sn_start n"
  shows "\<exists>r e'. run_session ip fp n e = Some (r, e') \<and> el_config e' = el_config e"
proof -
  obtain c where c: "channel_new (sn_start n) (session_bridge (face_tracking (el_config e)) n) (fst (el_flags e)) (snd (el_flags e)) = Some c"
    using assms(3) by (simp add: channel_new_def)
  obtain s where s: "session_start (sn_start n) (el_config e) fp (el_gov e) (el_tracker e) = Some s" "session_inv s"
    using session_start_ok [OF assms(1)] assms(2) by (fastforce simp: fec_settings_def)
  obtain r l where l: "live_run ip (sn_inputs n) \<lparr>lv_session = s, lv_channel = c, lv_tracking = el_tracking e,
      lv_frames = [], lv_reason = None\<rparr> = Some (r, l)"
    using live_run_ok [of "\<lparr>lv_session = s, lv_channel = c, lv_tracking = el_tracking e, lv_frames = [], lv_reason = None\<rparr>"] s(2)
    by fastforce
  show ?thesis using c s(1) l
    by (cases r) (auto simp: run_session_def authorize_def revoke_def keep_live_def Let_def)
qed

lemma accept_config: "el_config (snd (accept n e)) = el_config e"
  by (auto simp: accept_def Let_def split: prod.splits option.splits listen_result.splits)

lemma hold_config: "el_config (snd (hold n sv e)) = el_config e"
  by (auto simp: hold_def Let_def split: prod.splits option.splits listen_result.splits)

lemma serve_ok:
  assumes "config_ok (el_config e)" "list_all (in_format b32) (fec_settings (el_config e))"
    and "2 * nanos_per_sec \<le> sn_start (it_session i)"
  shows "\<exists>p e'. serve i conn e = Some (p, e') \<and> el_config e' = el_config e"
proof -
  let ?e = "e\<lparr>el_reconnect := record_accept_success (el_reconnect e)\<rparr>"
  obtain r e1 where r: "run_session (hc_addr conn) (client_reads_frame_pose (hc_server conn)) (it_session i) ?e = Some (r, e1)"
      "el_config e1 = el_config e"
    using run_session_ok [of ?e "it_session i"] assms by fastforce
  show ?thesis
  proof (cases r)
    case None
    then show ?thesis using r by (simp add: serve_def)
  next
    case (Some x)
    show ?thesis
    proof (cases x)
      case (Disconnected d)
      show ?thesis using r Some Disconnected hold_config [of "it_hold i" "hc_server conn"]
        by (cases d) (auto simp: serve_def Let_def split_beta split: hold_outcome.splits)
    qed (use r Some in \<open>auto simp: serve_def\<close>)
  qed
qed

lemma loop_step_ok:
  assumes "config_ok (el_config e)" "list_all (in_format b32) (fec_settings (el_config e))"
    and "2 * nanos_per_sec \<le> sn_start (it_session i)"
  shows "\<exists>p' e'. loop_step i (p, e) = Some (p', e') \<and> el_config e' = el_config e"
proof (cases p)
  case Accepting
  obtain r e1 where a: "accept (it_accept i) e = (r, e1)" by fastforce
  then have c: "el_config e1 = el_config e" using accept_config [of "it_accept i" e] by simp
  show ?thesis using Accepting a c serve_ok [of e1 i] assms
    by (cases r) (auto simp: loop_step_def)
next
  case (Resuming conn)
  with serve_ok [OF assms] show ?thesis by (auto simp: loop_step_def)
qed (simp_all add: loop_step_def)

lemma loop_run_ok:
  assumes "config_ok (el_config e)" "list_all (in_format b32) (fec_settings (el_config e))"
    and "list_all (\<lambda>i. 2 * nanos_per_sec \<le> sn_start (it_session i)) its"
  shows "\<exists>p' e'. loop_run its (p, e) = Some (p', e')"
  using assms
proof (induction its arbitrary: p e)
  case (Cons i its)
  obtain p' e' where "loop_step i (p, e) = Some (p', e')" "el_config e' = el_config e"
    using loop_step_ok [of e i p] Cons.prems by auto
  with Cons.IH [of e' p'] Cons.prems show ?case by simp
qed simp

text \<open>
  C1. The accept, session and hold loop never panics (on the limits of the adaptive FEC, a division by
  the frame rate or a subtraction from the clock): with a valid configuration and a clock that has run for
  two seconds when a session starts, whatever connections, handshakes, control messages, datagrams,
  frames, temperatures, failures and shutdowns come, in any interleaving of its tasks.
\<close>
theorem engine_never_panics:
  assumes "config_ok c" "list_all (in_format b32) (fec_settings c)"
    and "list_all (\<lambda>i. 2 * nanos_per_sec \<le> sn_start (it_session i)) its"
  shows "loop_run its (Accepting, engine_new c nvml dsk) \<noteq> None"
  using loop_run_ok [of "engine_new c nvml dsk" its Accepting] assms by (auto simp: engine_new_def)

text \<open>Two iterations: one that the port is taken in, one that is shut down while it waits.\<close>

definition sample_iteration :: "bool \<Rightarrow> iteration" where
  "sample_iteration down = \<lparr>it_shutdown = False,
     it_accept = \<lparr>an_unix = clock 0, an_now = 0, an_random = 5, an_tls_ok = True, an_disk_ok = True, an_bind_ok = False,
       an_events = [], an_addr = V4 1, an_shutdown = down\<rparr>,
     it_session = \<lparr>sn_start = 3 * nanos_per_sec, sn_osc_socket = True, sn_parse = (\<lambda>_. None), sn_profiles = None,
       sn_udp_ok = True, sn_early = [], sn_inputs = []\<rparr>,
     it_hold = \<lparr>ho_unix = clock 0, ho_now = 0, ho_bind_ok = True, ho_events = [], ho_addr = V4 1, ho_shutdown = False\<rparr>\<rparr>"

theorem engine_never_panics_witness:
  "loop_run [sample_iteration False, sample_iteration True] (Accepting, engine_new default_config False None) \<noteq> None"
  by (rule engine_never_panics [OF default_config_ok default_settings]) (simp add: sample_iteration_def)

section \<open>The loop only stops when it is told to\<close>

definition stopping_input :: "live_input \<Rightarrow> bool" where
  "stopping_input i \<longleftrightarrow> i = LvSourceGone \<or> i = LvShutdown"

definition stopping :: "iteration \<Rightarrow> bool" where
  "stopping i \<longleftrightarrow> it_shutdown i \<or> an_shutdown (it_accept i) \<or> ho_shutdown (it_hold i)
     \<or> list_ex stopping_input (sn_inputs (it_session i))"

lemma with_session_cont: "with_session r l = Some x \<Longrightarrow> \<exists>l'. x = Inr l'"
  by (auto simp: with_session_def)

lemma live_step_stop: "live_step ip i l = Some (Inl SessionShutdown) \<Longrightarrow> stopping_input i"
  by (cases i) (auto simp: stopping_input_def dest: with_session_cont split: list.splits option.splits if_splits)

lemma live_step_setup: "live_step ip i l \<noteq> Some (Inl SetupFailed)"
  by (cases i) (auto dest: with_session_cont split: list.splits option.splits if_splits)

lemma live_run_stop: "live_run ip inps l = Some (Some SessionShutdown, l') \<Longrightarrow> list_ex stopping_input inps"
  by (induction inps arbitrary: l) (auto dest: live_step_stop split: option.splits sum.splits)

lemma run_session_stop:
  "run_session ip fp n e = Some (Some SessionShutdown, e') \<Longrightarrow> list_ex stopping_input (sn_inputs n)"
  by (auto simp: run_session_def Let_def dest: live_run_stop split: option.splits if_splits prod.splits)

lemma serve_stop: "serve i conn e = Some (Stopped, e') \<Longrightarrow> stopping i"
  by (auto simp: serve_def Let_def stopping_def hold_def dest: run_session_stop
      split: option.splits prod.splits session_end.splits disconnect_reason.splits hold_outcome.splits if_splits
        listen_result.splits)

lemma loop_step_stop:
  "loop_step i (p, e) = Some (Stopped, e') \<Longrightarrow> p = Stopped \<or> stopping i"
proof (cases p)
  case Accepting
  assume s: "loop_step i (p, e) = Some (Stopped, e')"
  obtain r e1 where a: "accept (it_accept i) e = (r, e1)" by fastforce
  have "r = Stop \<Longrightarrow> an_shutdown (it_accept i)"
    using a by (auto simp: accept_def Let_def split: prod.splits option.splits listen_result.splits if_splits)
  with s a Accepting serve_stop show ?thesis by (cases r) (auto simp: loop_step_def stopping_def split: if_splits)
qed (auto simp: loop_step_def stopping_def dest: serve_stop split: if_splits)

lemma loop_run_stop:
  "loop_run its (p, e) = Some (Stopped, e') \<Longrightarrow> p = Stopped \<or> list_ex stopping its"
proof (induction its arbitrary: p e)
  case (Cons i its)
  then obtain p' e1 where "loop_step i (p, e) = Some (p', e1)" "loop_run its (p', e1) = Some (Stopped, e')"
    by (auto split: option.splits)
  with Cons.IH [of p' e1] loop_step_stop [of i p e e1] show ?case by auto
qed simp

text \<open>An iteration whose accept fails: the port is taken, or TLS cannot be set up.\<close>

definition failing :: "iteration \<Rightarrow> bool" where
  "failing i \<longleftrightarrow> \<not> it_shutdown i \<and> \<not> an_shutdown (it_accept i) \<and> \<not> (an_tls_ok (it_accept i) \<and> an_bind_ok (it_accept i))"

lemma failing_step:
  assumes "failing i"
  shows "\<exists>e'. loop_step i (Accepting, e) = Some (Accepting, e') \<and> el_reconnect e' = record_accept_failure (el_reconnect e)"
  using assms by (auto simp: failing_def loop_step_def accept_def listen_and_accept_def server_new_def Let_def)

lemma failing_run:
  assumes "list_all failing its"
  shows "\<exists>e'. loop_run its (Accepting, e) = Some (Accepting, e')
    \<and> el_reconnect e' = (record_accept_failure ^^ length its) (el_reconnect e)"
  using assms
proof (induction its arbitrary: e)
  case (Cons i its)
  obtain e1 where e1: "loop_step i (Accepting, e) = Some (Accepting, e1)" "el_reconnect e1 = record_accept_failure (el_reconnect e)"
    using failing_step [of i e] Cons.prems by auto
  with Cons.IH [of e1] Cons.prems show ?case by (auto simp: funpow_swap1)
qed simp


section \<open>Only the paired headset moves the driver's inputs\<close>

definition quiet :: "engine_loop \<Rightarrow> bool" where
  "quiet e \<longleftrightarrow> el_peer e = None \<and> tk_head (el_tracking e) = None \<and> tk_controllers (el_tracking e) = [None, None]"

fun datagrams :: "ip_addr \<Rightarrow> live_input list \<Rightarrow> (ip_addr option \<times> instant \<times> recv_event) list" where
  "datagrams ip [] = []"
| "datagrams ip (LvDatagram now ev # is') = (Some ip, now, ev) # datagrams ip is'"
| "datagrams ip (_ # is') = datagrams ip is'"

lemma with_session_tracking: "with_session r l = Some (Inr l') \<Longrightarrow> lv_tracking l' = lv_tracking l"
  by (auto simp: with_session_def)

lemma control_input_tracking [simp]: "lv_tracking (control_input i l) = lv_tracking l"
  by (simp add: control_input_def split_beta Let_def)

lemma live_step_tracking:
  "live_step ip i l = Some (Inr l') \<Longrightarrow> lv_tracking l' = recv_run (lv_tracking l) (datagrams ip [i])"
  by (cases i) (auto dest!: with_session_tracking split: list.splits option.splits if_splits)

lemma datagrams_Cons: "datagrams ip (i # is') = datagrams ip [i] @ datagrams ip is'"
  by (cases i) simp_all

lemma recv_run_append: "recv_run s (es @ fs) = recv_run (recv_run s es) fs"
  by (induction s es rule: recv_run.induct) simp_all

lemma live_run_tracking:
  "live_run ip inps l = Some (None, l') \<Longrightarrow> lv_tracking l' = recv_run (lv_tracking l) (datagrams ip inps)"
proof (induction inps arbitrary: l)
  case (Cons i inps)
  then obtain l1 where "live_step ip i l = Some (Inr l1)" "live_run ip inps l1 = Some (None, l')"
    by (auto split: option.splits sum.splits)
  with Cons.IH [of l1] live_step_tracking [of ip i l l1] show ?case by (subst datagrams_Cons) (simp add: recv_run_append)
qed simp

lemma run_session_quiet: "run_session ip fp n e = Some (Some r, e') \<Longrightarrow> quiet e'"
  by (auto simp: run_session_def Let_def quiet_def revoke_def clear_inputs_def split: option.splits if_splits prod.splits)

lemma hold_quiet: "quiet e \<Longrightarrow> quiet (snd (hold n sv e))"
  by (auto simp: quiet_def hold_def Let_def split: prod.splits option.splits listen_result.splits)

lemma accept_quiet: "quiet e \<Longrightarrow> quiet (snd (accept n e))"
  by (auto simp: quiet_def accept_def Let_def split: prod.splits option.splits listen_result.splits)

lemma quiet_reconnect [simp]: "quiet (e\<lparr>el_reconnect := r\<rparr>) = quiet e"
  by (simp add: quiet_def)

lemma serve_quiet:
  assumes "serve i conn e = Some (p, e')" "p \<noteq> Blocked"
  shows "quiet e'"
proof -
  obtain r e1 where r: "run_session (hc_addr conn) (client_reads_frame_pose (hc_server conn)) (it_session i)
      (e\<lparr>el_reconnect := record_accept_success (el_reconnect e)\<rparr>) = Some (Some r, e1)"
    using assms by (auto simp: serve_def Let_def split: option.splits)
  have q: "quiet e1" by (rule run_session_quiet [OF r])
  show ?thesis using assms r q hold_quiet [of "e1\<lparr>el_reconnect := record_connection_lost (el_reconnect e1)\<rparr>" "it_hold i" "hc_server conn"]
    by (auto simp: serve_def Let_def split_beta split: session_end.splits disconnect_reason.splits)
qed

lemma loop_step_quiet:
  assumes "loop_step i (p, e) = Some (p', e')" "p' \<noteq> Blocked" "quiet e"
  shows "quiet e'"
proof (cases p)
  case Accepting
  obtain r e1 where a: "accept (it_accept i) e = (r, e1)" by fastforce
  then have "quiet e1" using accept_quiet [OF assms(3), of "it_accept i"] by simp
  with Accepting a assms serve_quiet show ?thesis by (cases r) (auto simp: loop_step_def split: if_splits)
qed (use assms serve_quiet in \<open>auto simp: loop_step_def split: if_splits\<close>)

lemma blocked_stays: "loop_run its (Blocked, e) = Some (p', e') \<Longrightarrow> p' = Blocked"
  by (induction its) (auto simp: loop_step_def)

lemma loop_run_quiet:
  "loop_run its (p, e) = Some (p', e') \<Longrightarrow> p' \<noteq> Blocked \<Longrightarrow> quiet e \<Longrightarrow> quiet e'"
proof (induction its arbitrary: p e)
  case (Cons i its)
  obtain p1 e1 where s: "loop_step i (p, e) = Some (p1, e1)" "loop_run its (p1, e1) = Some (p', e')"
    using Cons.prems(1) by (auto split: option.splits)
  with blocked_stays Cons.prems(2) have "p1 \<noteq> Blocked" by blast
  with s loop_step_quiet [OF s(1)] Cons show ?case by blast
qed simp

text \<open>
  C2. Outside a session nobody is authorized to send tracking data and the driver sees no pose and no
  pressed button, however the session before ended; and while one lasts, the inputs are those of the
  datagrams from the address of its authenticated connection alone.
\<close>
theorem inputs_only_in_session:
  assumes "loop_run its (Accepting, engine_new c nvml dsk) = Some (p, e)" "p \<noteq> Blocked"
    and "run_session ip frame_pose n e = Some (r, e')"
  shows "el_peer e = None \<and> tk_head (el_tracking e) = None \<and> get_controller (el_tracking e) 0 now = None
    \<and> get_controller (el_tracking e) 1 now = None
    \<and> (case r of
         Some _ \<Rightarrow> el_peer e' = None \<and> tk_head (el_tracking e') = None \<and> tk_controllers (el_tracking e') = [None, None]
       | None \<Rightarrow> el_peer e' = Some ip
           \<and> inputs_of (el_tracking e') = inputs_of (recv_run (el_tracking e) (filter from_paired (datagrams ip (sn_inputs n)))))"
proof -
  have "quiet (engine_new c nvml dsk)" by (simp add: quiet_def engine_new_def tracking_new_def)
  then have q: "quiet e" by (rule loop_run_quiet [OF assms(1,2)])
  have "el_peer e' = Some ip \<and> inputs_of (el_tracking e') = inputs_of (recv_run (el_tracking e) (datagrams ip (sn_inputs n)))"
    if "r = None"
    using assms(3) that
    by (auto simp: run_session_def Let_def authorize_def keep_live_def split: option.splits if_splits prod.splits
        dest!: live_run_tracking)
  moreover have "quiet e'" if "r = Some x" for x using assms(3) that run_session_quiet by blast
  moreover have "get_controller (el_tracking e) 0 now = None" "get_controller (el_tracking e) 1 now = None"
    using q by (simp_all add: quiet_def get_controller_def fresh_controller_state_def)
  ultimately show ?thesis
    using q recv_run_filter [OF refl, of "el_tracking e" "datagrams ip (sn_inputs n)"] by (cases r) (simp_all add: quiet_def)
qed

text \<open>A session of two datagrams, one from a stranger.\<close>

definition sample_session :: "live_input list \<Rightarrow> session_env" where
  "sample_session is' = \<lparr>sn_start = 2 * nanos_per_sec, sn_osc_socket = True, sn_parse = (\<lambda>_. None), sn_profiles = None,
     sn_udp_ok = True, sn_early = [], sn_inputs = is'\<rparr>"

lemma sample_run:
  "\<exists>r e'. run_session ip fp (sample_session is') (engine_new default_config False None) = Some (r, e')"
  using run_session_ok [of "engine_new default_config False None" "sample_session is'" ip fp] default_config_ok default_settings
  by (auto simp: engine_new_def sample_session_def)

theorem inputs_only_in_session_witness:
  "\<exists>r e'. run_session (V4 7) True (sample_session [LvDatagram 1 (Datagram (V4 8) [1]), LvShutdown])
       (engine_new default_config False None) = Some (r, e')
     \<and> el_peer (engine_new default_config False None) = None
     \<and> (case r of Some _ \<Rightarrow> el_peer e' = None | None \<Rightarrow> el_peer e' = Some (V4 7))"
proof -
  let ?is = "[LvDatagram 1 (Datagram (V4 8) [1]), LvShutdown]" and ?e = "engine_new default_config False None"
  obtain r e' where r: "run_session (V4 7) True (sample_session ?is) ?e = Some (r, e')"
    using sample_run by blast
  have "loop_run [] (Accepting, ?e) = Some (Accepting, ?e)" by simp
  from inputs_only_in_session [OF this _ r] r show ?thesis by (cases r) auto
qed

section \<open>Coming back within the hold\<close>

lemma listen_honest:
  assumes "sv_tls_acceptor sv" "ac_event a = Incoming c" "in_tls c = TlsDone t" "t \<le> ac_now a + ht_tls (sv_timeouts sv)"
    and "honest t (server_rotate (ac_now a) (ac_random a) sv) (in_peer c)"
  shows "\<exists>h sv'. listen_and_accept unix True sv (a # es) = (Some (Connection h), sv') \<and> hs_now h = t"
proof -
  let ?sv = "server_rotate (ac_now a) (ac_random a) sv"
  have k: "sv_tls_acceptor ?sv" "sv_timeouts ?sv = sv_timeouts sv" using assms(1) by (simp_all add: server_rotate_def)
  obtain h where "handle_handshake_generic unix (in_random c) (start_handshake t (in_peer c) ?sv) = (Inr (), h)" "hs_now h = t"
    using honest_handshake [OF assms(5)] by blast
  then show ?thesis using k assms(1-4) by (simp add: listen_and_accept_def serve_connection_def Let_def)
qed

lemma honest_cong:
  "ps_pin (fst (sv_pairing sv')) = ps_pin (fst (sv_pairing sv)) \<Longrightarrow>
   ps_lockout_until (fst (sv_pairing sv')) = ps_lockout_until (fst (sv_pairing sv)) \<Longrightarrow> honest t sv p \<Longrightarrow> honest t sv' p"
  by (simp add: honest_def proven_def is_locked_def)

text \<open>Rearming keeps the PIN, also when it had expired, and within the hold it does not expire.\<close>

lemma rearmed_pairing:
  assumes "now < ho + HOLD_DURATION" "ho \<le> now"
  shows "fst (sv_pairing (server_rotate now rand (server_rearm ho HOLD_DURATION sv)))
    = (fst (sv_pairing sv))\<lparr>ps_paired := False, ps_issued_at := ho, ps_lifetime := HOLD_DURATION\<rparr>"
  using assms by (simp add: server_rotate_def server_rearm_def rearm_for_reconnect_def rotate_if_expired_def expires_in_def)


definition sample_hold :: hold_env where
  "sample_hold = \<lparr>ho_unix = clock 0, ho_now = 600 * nanos_per_sec, ho_bind_ok = True,
     ho_events = [\<lparr>ac_now = 601 * nanos_per_sec, ac_random = 7, ac_event =
        Incoming \<lparr>in_peer = sample_peer, in_tls = TlsDone (602 * nanos_per_sec), in_random = 0\<rparr>\<rparr>],
     ho_addr = V4 9, ho_shutdown = False\<rparr>"


section \<open>Nothing left over is sent\<close>

fun submitted :: "live_input list \<Rightarrow> nat" where
  "submitted [] = 0"
| "submitted (LvSubmit f # is') = Suc (submitted is')"
| "submitted (_ # is') = submitted is'"

text \<open>
  A failing UDP setup after each accept never lengthens the backoff beyond a second: the accept before
  it has reset the counter.
\<close>

lemma setup_failure_backoff:
  assumes "serve i conn e = Some (Accepting, e')" "\<not> sn_udp_ok (it_session i)"
  shows "next_backoff (el_reconnect e') = Some nanos_per_sec"
proof -
  have "el_reconnect e' = record_accept_failure (record_accept_success (el_reconnect e))"
    using assms by (auto simp: serve_def run_session_def Let_def authorize_def revoke_def split: option.splits)
  moreover have "rc_accept_failures (record_accept_failure (record_accept_success r)) = 1" for r
    by (simp add: record_accept_failure_def record_accept_success_def sat_add_u32_def)
  ultimately show ?thesis by (simp add: next_backoff_value Let_def)
qed

lemma on_frame_count:
  assumes "on_frame i s = Some s'"
  shows "vs_frame_count (ss_video s') = vs_frame_count (ss_video s) + 1"
proof -
  have send: "send_frame rs d su now u rate f v t = Some (v', t') \<Longrightarrow> vs_frame_count v' = vs_frame_count v + 1"
    for rs d su now u rate f v t v' t'
    by (auto simp: send_frame_def Let_def split_beta split: if_splits)
  have video: "ss_video (update_latency_atomics (check_sleep_mode h (thermal_feedback now temp s))) = ss_video s" for h now temp s
    by (auto simp: update_latency_atomics_def check_sleep_mode_def thermal_feedback_def Let_def split_beta
        split: option.split sleep_transition.split)
  show ?thesis using assms
    by (auto simp: on_frame_def Let_def video dest!: send split: option.splits)
qed

lemma live_step_frames:
  assumes "live_step ip i l = Some (Inr l')"
  shows "vs_frame_count (ss_video (lv_session l')) + length (lv_frames l')
    \<le> vs_frame_count (ss_video (lv_session l)) + length (lv_frames l) + submitted [i]"
proof (cases i)
  case LvSleep
  with assms show ?thesis
    by (auto simp: with_session_def control_input_def split_beta Let_def split: list.splits if_splits)
next
  case (LvFrame f)
  with assms show ?thesis by (auto simp: with_session_def split: list.splits dest!: on_frame_count)
qed (use assms in \<open>auto simp: with_session_def control_input_def split_beta Let_def submit_frame_def on_control_event_def
      on_status_tick_def split: list.splits option.splits if_splits\<close>)

lemma submitted_Cons: "submitted (i # is') = submitted [i] + submitted is'"
  by (cases i) simp_all

lemma live_run_frames:
  "live_run ip inps l = Some (r, l') \<Longrightarrow> vs_frame_count (ss_video (lv_session l')) + length (lv_frames l')
    \<le> vs_frame_count (ss_video (lv_session l)) + length (lv_frames l) + submitted inps"
proof (induction inps arbitrary: l)
  case (Cons i inps)
  note c = submitted_Cons [of i inps]
  obtain x where x: "live_step ip i l = Some x" using Cons.prems by (auto split: option.splits)
  show ?case
  proof (cases x)
    case (Inl e)
    with Cons.prems x c show ?thesis by simp
  next
    case (Inr l1)
    with Cons.prems x have "live_run ip inps l1 = Some (r, l')" by simp
    from Cons.IH [OF this] live_step_frames [of ip i l l1] x Inr c show ?thesis by simp
  qed
qed simp

text \<open>
  A session starts clean: it sends at most one frame per frame submitted during it, none that waited
  from before; it has told the encoder its bitrate and asked for one keyframe before the first frame.
\<close>

theorem session_starts_clean:
  assumes "session_start now c fp gov tracker = Some s"
    and "live_run ip inps \<lparr>lv_session = s, lv_channel = ch, lv_tracking = tr, lv_frames = [], lv_reason = None\<rparr> = Some (r, l)"
  shows "vs_frame_count (ss_video (lv_session l)) \<le> submitted inps
    \<and> ss_told s = [as_u32 (bc_current (bitrate_new now (bitrate_mbps (video c))))] \<and> ss_idr_requests s = 1"
proof -
  have "vs_frame_count (ss_video s) = 0" "ss_told s = [as_u32 (bc_current (bitrate_new now (bitrate_mbps (video c))))]"
      "ss_idr_requests s = 1"
    using assms(1) by (auto simp: session_start_def video_new_def adaptive_new_def Let_def split: if_splits option.splits)
  then show ?thesis using live_run_frames [OF assms(2)] by simp
qed

end
