(* ===== verification/Audio.thy ===== *)
theory Audio imports IeeeFloat Prelude "HOL-Library.Monad_Syntax" begin

text \<open>
  \<open>audio/convert.rs\<close> and \<open>audio/capture.rs\<close>: folding the captured channels to stereo, the streaming
  resampler, and when the capture is reopened. The standard library's \<open>f64::sin\<close> and \<open>cos\<close> are
  arguments of the resampler's construction; \<open>None\<close> is a panic or a loop that does not end.
\<close>

section \<open>Stereo\<close>

definition OUTPUT_RATE :: nat where "OUTPUT_RATE = 48000"

text \<open>\<open>FRAC_1_SQRT_2\<close>.\<close>

definition MINUS_3DB :: fl where "MINUS_3DB = f32_lit (707106781186547524400844362104849039 / 10 ^ 36)"

definition mixed :: "fl \<Rightarrow> fl \<Rightarrow> fl \<times> fl" where
  "mixed l r = (f_clamp (Fin (-1)) (Fin 1) l, f_clamp (Fin (-1)) (Fin 1) r)"

definition stereo_frame :: "fl list \<Rightarrow> fl \<times> fl" where
  "stereo_frame frame =
     (let ch = (\<lambda>i. frame ! i); plus = f_add b32; minus_3db = f_mul b32 MINUS_3DB in
      if length frame = 0 then (Fin 0, Fin 0)
      else if length frame = 1 then (ch 0, ch 0)
      else if length frame = 4 then mixed (plus (ch 0) (minus_3db (ch 2))) (plus (ch 1) (minus_3db (ch 3)))
      else if length frame = 6 then
        mixed (plus (ch 0) (minus_3db (plus (ch 2) (ch 4)))) (plus (ch 1) (minus_3db (plus (ch 2) (ch 5))))
      else if length frame = 8 then
        mixed (plus (ch 0) (minus_3db (plus (plus (ch 2) (ch 4)) (ch 6))))
              (plus (ch 1) (minus_3db (plus (plus (ch 2) (ch 5)) (ch 7))))
      else (ch 0, ch 1))"

section \<open>The resampler\<close>

definition ZERO_CROSSINGS :: fl where "ZERO_CROSSINGS = Fin 16"
definition PHASES :: nat where "PHASES = 256"
definition PASSBAND :: fl where "PASSBAND = f64_lit (95 / 100)"

text \<open>\<open>std::f64::consts::PI\<close>.\<close>

definition PI64 :: fl where "PI64 = f64_lit (314159265358979323846264338327950288 / 10 ^ 35)"

record resampler =
  rs_in_rate :: nat
  rs_out_rate :: nat
  rs_half_taps :: nat
  rs_table :: "fl list"
  rs_history :: "(fl \<times> fl) list"
  rs_index :: nat
  rs_frac :: nat

definition cutoff_of :: "nat \<Rightarrow> nat \<Rightarrow> fl" where
  "cutoff_of in_rate out_rate =
     f_mul b64 (f_min (f_div b64 (f_of_nat b64 out_rate) (f_of_nat b64 in_rate)) (Fin 1)) PASSBAND"

definition tap_weight :: "(fl \<Rightarrow> fl) \<Rightarrow> (fl \<Rightarrow> fl) \<Rightarrow> fl \<Rightarrow> nat \<Rightarrow> fl \<Rightarrow> nat \<Rightarrow> fl" where
  "tap_weight sin64 cos64 cutoff half_taps phase j =
     (let t = f_sub b64 (f_sub b64 (f_add b64 (f_of_nat b64 j) (Fin 1)) (f_of_nat b64 half_taps)) phase;
          x = f_mul b64 (f_mul b64 PI64 cutoff) t;
          sinc = (if x = Fin 0 then Fin 1 else f_div b64 (sin64 x) x);
          w = f_div b64 t (f_of_nat b64 half_taps);
          blackman = f_add b64 (f_add b64 (f64_lit (42 / 100)) (f_mul b64 (Fin (1 / 2)) (cos64 (f_mul b64 PI64 w))))
                       (f_mul b64 (f64_lit (8 / 100)) (cos64 (f_mul b64 (f_mul b64 (Fin 2) PI64) w)))
      in f_mul b64 sinc (f_max blackman (Fin 0)))"

definition table_row :: "(fl \<Rightarrow> fl) \<Rightarrow> (fl \<Rightarrow> fl) \<Rightarrow> fl \<Rightarrow> nat \<Rightarrow> nat \<Rightarrow> fl list" where
  "table_row sin64 cos64 cutoff half_taps p =
     (let phase = f_div b64 (f_of_nat b64 p) (f_of_nat b64 PHASES);
          row = map (tap_weight sin64 cos64 cutoff half_taps phase) [0..<2 * half_taps];
          sum = foldl (f_add b64) (Fin 0) row
      in map (\<lambda>h. f32_of_f64 (f_div b64 h sum)) row)"

text \<open>\<open>vec![..; half_taps - 1]\<close> with \<open>half_taps = 0\<close> underflows.\<close>

definition resampler_new :: "(fl \<Rightarrow> fl) \<Rightarrow> (fl \<Rightarrow> fl) \<Rightarrow> nat \<Rightarrow> nat \<Rightarrow> resampler option" where
  "resampler_new sin64 cos64 in_rate out_rate =
     (let cutoff = cutoff_of in_rate out_rate;
          half_taps = f_as_u64 (f_ceil (f_div b64 ZERO_CROSSINGS cutoff))
      in if half_taps = 0 then None
         else Some \<lparr>rs_in_rate = in_rate, rs_out_rate = out_rate, rs_half_taps = half_taps,
           rs_table = concat (map (table_row sin64 cos64 cutoff half_taps) [0..<PHASES + 1]),
           rs_history = replicate (half_taps - 1) (Fin 0, Fin 0), rs_index = half_taps - 1, rs_frac = 0\<rparr>)"

text \<open>One output sample; \<open>None\<close> when a slice is out of range.\<close>

definition sample_at :: "resampler \<Rightarrow> nat \<Rightarrow> nat \<Rightarrow> (fl \<times> fl) option" where
  "sample_at r index fr =
     (let taps = 2 * rs_half_taps r;
          phase = f_div b32 (f_mul b32 (f_of_nat b32 fr) (f_of_nat b32 PHASES)) (f_of_nat b32 (rs_out_rate r));
          p = min (f_as_u64 phase) (PHASES - 1);
          between = f_sub b32 phase (f_of_nat b32 p);
          row0 = sub_range (rs_table r) (p * taps) ((p + 1) * taps);
          row1 = sub_range (rs_table r) ((p + 1) * taps) ((p + 2) * taps);
          frames = sub_range (rs_history r) (index + 1 - rs_half_taps r) (index + 1 + rs_half_taps r)
      in if length (rs_table r) < (p + 2) * taps \<or> index + 1 < rs_half_taps r
            \<or> length (rs_history r) < index + 1 + rs_half_taps r then None
         else Some (foldl (\<lambda>(s0, s1) ((h0, h1), f0, f1).
                let h = f_add b32 h0 (f_mul b32 (f_sub b32 h1 h0) between)
                in (f_add b32 s0 (f_mul b32 h f0), f_add b32 s1 (f_mul b32 h f1)))
              (Fin 0, Fin 0) (zip (zip row0 row1) frames)))"

text \<open>The loop of \<open>process\<close>: the position after it and the samples emitted.\<close>

partial_function (option) resample_loop :: "resampler \<Rightarrow> nat \<Rightarrow> nat \<Rightarrow> fl list \<Rightarrow> (nat \<times> nat \<times> fl list) option" where
  "resample_loop r index fr out =
     (if index + rs_half_taps r < length (rs_history r) then
        (case sample_at r index fr of
           None \<Rightarrow> None
         | Some s \<Rightarrow>
             if rs_out_rate r = 0 then None
             else resample_loop r (index + (fr + rs_in_rate r) div rs_out_rate r) ((fr + rs_in_rate r) mod rs_out_rate r)
                    (out @ [fst s, snd s]))
      else Some (index, fr, out))"

declare resample_loop.simps [code]

definition flatten_frames :: "(fl \<times> fl) list \<Rightarrow> fl list" where
  "flatten_frames fs = concat (map (\<lambda>f. [fst f, snd f]) fs)"

definition resampler_process :: "(fl \<times> fl) list \<Rightarrow> resampler \<Rightarrow> (fl list \<times> resampler) option" where
  "resampler_process input r =
     (if rs_in_rate r = rs_out_rate r then Some (flatten_frames input, r)
      else
        let r = r\<lparr>rs_history := rs_history r @ input\<rparr>
        in case resample_loop r (rs_index r) (rs_frac r) [] of
             None \<Rightarrow> None
           | Some (index, fr, out) \<Rightarrow>
               let done = min (index + 1 - rs_half_taps r) (length (rs_history r))
               in Some (out, r\<lparr>rs_history := drop done (rs_history r), rs_index := index - done, rs_frac := fr\<rparr>))"

record to_opus_format =
  tf_channels :: nat
  tf_resampler :: resampler

definition to_opus_new :: "(fl \<Rightarrow> fl) \<Rightarrow> (fl \<Rightarrow> fl) \<Rightarrow> nat \<Rightarrow> nat \<Rightarrow> to_opus_format option" where
  "to_opus_new sin64 cos64 rate channels =
     map_option (\<lambda>r. \<lparr>tf_channels = max channels 1, tf_resampler = r\<rparr>) (resampler_new sin64 cos64 rate OUTPUT_RATE)"

definition to_opus_convert :: "fl list \<Rightarrow> to_opus_format \<Rightarrow> (fl list \<times> to_opus_format) option" where
  "to_opus_convert interleaved f =
     (let frames = map stereo_frame (filter (\<lambda>c. length c = tf_channels f) (chunks (tf_channels f) interleaved))
      in if rs_in_rate (tf_resampler f) = 0 then None else map_option (\<lambda>(out, r). (out, f\<lparr>tf_resampler := r\<rparr>)) (resampler_process frames (tf_resampler f)))"

section \<open>Reopening the capture\<close>

definition REOPEN_RETRY :: duration where "REOPEN_RETRY = 30 * nanos_per_sec"

definition should_reopen ::
    "(string \<times> bool) option \<Rightarrow> string option \<Rightarrow> (string \<times> instant) option \<Rightarrow> instant \<Rightarrow> bool" where
  "should_reopen current default_now failed_attempt now =
     (case default_now of
        None \<Rightarrow> False
      | Some wanted \<Rightarrow>
          (case current of
             Some (device, failed) \<Rightarrow> failed \<or> device \<noteq> wanted
           | None \<Rightarrow> \<not> (case failed_attempt of
               Some (device, since) \<Rightarrow> device = wanted \<and> now - since < REOPEN_RETRY
             | None \<Rightarrow> False)))"

section \<open>The loop ends, in range\<close>

definition resampler_inv :: "resampler \<Rightarrow> bool" where
  "resampler_inv r \<longleftrightarrow> 0 < rs_in_rate r \<and> 0 < rs_out_rate r \<and> 0 < rs_half_taps r \<and> rs_half_taps r \<le> rs_index r + 1
     \<and> rs_frac r < rs_out_rate r \<and> length (rs_table r) = (PHASES + 1) * (2 * rs_half_taps r)"

lemma sample_at_some:
  assumes "length (rs_table r) = (PHASES + 1) * (2 * rs_half_taps r)" "rs_half_taps r \<le> i + 1"
    and "i + rs_half_taps r < length (rs_history r)"
  shows "\<exists>s. sample_at r i f = Some s"
proof -
  have "(min q (PHASES - 1) + 2) * (2 * rs_half_taps r) \<le> (PHASES + 1) * (2 * rs_half_taps r)" for q
    by (intro mult_le_mono1) (simp add: PHASES_def)
  then show ?thesis using assms by (simp add: sample_at_def Let_def not_less)
qed

text \<open>The position counted in units of \<open>1 / out_rate\<close> advances by \<open>in_rate\<close> per sample.\<close>

lemma step_position:
  "0 < b \<Longrightarrow> (i + (f + a) div b) * b + (f + a) mod b = i * b + f + a" for a b f i :: nat
  by (simp add: algebra_simps)

lemma resample_loop_returns:
  assumes "0 < rs_in_rate r" "0 < rs_out_rate r" "length (rs_table r) = (PHASES + 1) * (2 * rs_half_taps r)"
    and "rs_half_taps r \<le> i + 1" "f < rs_out_rate r"
  shows "\<exists>i' f' out'. resample_loop r i f out = Some (i', f', out @ out') \<and> i \<le> i' \<and> f' < rs_out_rate r
    \<and> length (rs_history r) \<le> i' + rs_half_taps r
    \<and> length out' = 2 * div_ceil ((length (rs_history r) - rs_half_taps r) * rs_out_rate r - (i * rs_out_rate r + f)) (rs_in_rate r)"
  using assms(4,5)
proof (induction "(length (rs_history r) - rs_half_taps r) * rs_out_rate r - (i * rs_out_rate r + f)" arbitrary: i f out rule: less_induct)
  case less
  let ?b = "rs_out_rate r" and ?a = "rs_in_rate r" and ?n = "length (rs_history r) - rs_half_taps r"
  show ?case
  proof (cases "i + rs_half_taps r < length (rs_history r)")
    case False
    then have "?n * ?b \<le> i * ?b" by (intro mult_le_mono1) simp
    then have "?n * ?b - (i * ?b + f) = 0" by linarith
    then show ?thesis using False less.prems by (subst resample_loop.simps) (simp add: div_ceil_def)
  next
    case True
    let ?i = "i + (f + ?a) div ?b" and ?f = "(f + ?a) mod ?b"
    obtain s where s: "sample_at r i f = Some s" using sample_at_some [OF assms(3) less.prems(1) True] by blast
    have "Suc i \<le> ?n" using True by linarith
    then have "Suc i * ?b \<le> ?n * ?b" by (rule mult_le_mono1)
    then have lt: "i * ?b + f < ?n * ?b" using less.prems(2) by simp
    note pos = step_position [OF assms(2), of i f ?a]
    have dec: "?n * ?b - (?i * ?b + ?f) < ?n * ?b - (i * ?b + f)" unfolding pos using lt assms(1) by linarith
    have "rs_half_taps r \<le> ?i + 1" "?f < ?b" using less.prems(1) assms(2) by simp_all
    from less.hyps [OF dec this, of "out @ [fst s, snd s]"]
    obtain i' f' out' where r: "resample_loop r ?i ?f (out @ [fst s, snd s]) = Some (i', f', (out @ [fst s, snd s]) @ out')"
        "?i \<le> i'" "f' < ?b" "length (rs_history r) \<le> i' + rs_half_taps r"
        "length out' = 2 * div_ceil (?n * ?b - (?i * ?b + ?f)) ?a"
      by blast
    have count: "div_ceil x ?a = Suc (div_ceil (x - ?a) ?a)" if "0 < x" for x
    proof (rule antisym)
      have e: "x - ?a \<le> div_ceil (x - ?a) ?a * ?a" using div_ceil_le_iff [OF assms(1), of "x - ?a"] by blast
      then show "div_ceil x ?a \<le> Suc (div_ceil (x - ?a) ?a)"
        unfolding div_ceil_le_iff [OF assms(1)] by simp
      have "x \<le> div_ceil x ?a * ?a" using div_ceil_le_iff [OF assms(1), of x] by blast
      with that have "0 < div_ceil x ?a" by (cases "div_ceil x ?a") auto
      then obtain k where k: "div_ceil x ?a = Suc k" by (cases "div_ceil x ?a") auto
      have "x - ?a \<le> k * ?a" using \<open>x \<le> div_ceil x ?a * ?a\<close> by (simp add: k)
      then have "div_ceil (x - ?a) ?a \<le> k" unfolding div_ceil_le_iff [OF assms(1)] .
      then show "Suc (div_ceil (x - ?a) ?a) \<le> div_ceil x ?a" by (simp add: k)
    qed
    have "?n * ?b - (?i * ?b + ?f) = ?n * ?b - (i * ?b + f) - ?a" unfolding pos by simp
    with r(5) count [of "?n * ?b - (i * ?b + f)"] lt
    have l: "2 + length out' = 2 * div_ceil (?n * ?b - (i * ?b + f)) ?a" by simp
    have "resample_loop r i f out = Some (i', f', out @ [fst s, snd s] @ out')"
      using True s r(1) assms(2) by (subst resample_loop.simps) simp
    moreover have "i \<le> i'" using r(2) by simp
    ultimately show ?thesis using r(3,4) l by (intro exI [of _ i'] exI [of _ f'] exI [of _ "[fst s, snd s] @ out'"]) simp
  qed
qed

section \<open>Chunks do not matter\<close>

text \<open>More input behind, or a prefix that no later sample reaches back to, change nothing.\<close>

lemma sample_at_append:
  assumes "i + rs_half_taps r < length (rs_history r)"
  shows "sample_at (r\<lparr>rs_history := rs_history r @ xs\<rparr>) i f = sample_at r i f"
proof -
  have "sub_range (rs_history r @ xs) (i + 1 - rs_half_taps r) (i + 1 + rs_half_taps r)
      = sub_range (rs_history r) (i + 1 - rs_half_taps r) (i + 1 + rs_half_taps r)"
    using assms by (simp add: sub_range_def)
  then show ?thesis using assms by (simp add: sample_at_def Let_def)
qed

lemma sample_at_drop:
  assumes "d + rs_half_taps r \<le> i + 1" "d \<le> length (rs_history r)" "0 < rs_half_taps r"
  shows "sample_at (r\<lparr>rs_history := drop d (rs_history r)\<rparr>) (i - d) f = sample_at r i f"
proof -
  have "sub_range (drop d (rs_history r)) (i - d + 1 - rs_half_taps r) (i - d + 1 + rs_half_taps r)
      = sub_range (rs_history r) (i + 1 - rs_half_taps r) (i + 1 + rs_half_taps r)"
    using assms by (simp add: sub_range_def add.commute)
  then show ?thesis using assms by (auto simp: sample_at_def Let_def)
qed

lemma loop_append:
  "resample_loop r i f out = Some (i', f', out') \<Longrightarrow>
   resample_loop (r\<lparr>rs_history := rs_history r @ xs\<rparr>) i f out = resample_loop (r\<lparr>rs_history := rs_history r @ xs\<rparr>) i' f' out'"
proof (induction r i f out "(i', f', out')" rule: resample_loop.raw_induct [rotated, consumes 1, case_names step])
  case (step loop r i f out)
  show ?case
  proof (cases "i + rs_half_taps r < length (rs_history r)")
    case False
    with step(2) show ?thesis by simp
  next
    case True
    then obtain s where s: "sample_at r i f = Some s" "rs_out_rate r \<noteq> 0"
        "loop r (i + (f + rs_in_rate r) div rs_out_rate r) ((f + rs_in_rate r) mod rs_out_rate r) (out @ [fst s, snd s]) = Some (i', f', out')"
      using step(2) by (auto split: option.splits if_splits)
    from step(1) [OF s(3)] show ?thesis
      using True s(1,2) sample_at_append [OF True, of xs f] by (subst resample_loop.simps) simp
  qed
qed

lemma loop_drop:
  assumes "d + rs_half_taps r \<le> i + 1" "d \<le> length (rs_history r)" "0 < rs_half_taps r"
    and "0 < rs_in_rate r" "0 < rs_out_rate r" "length (rs_table r) = (PHASES + 1) * (2 * rs_half_taps r)" "f < rs_out_rate r"
  shows "resample_loop (r\<lparr>rs_history := drop d (rs_history r)\<rparr>) (i - d) f out
    = map_option (\<lambda>(i', f', out'). (i' - d, f', out')) (resample_loop r i f out)"
proof -
  have gen: "resample_loop r i f out = Some (i', f', out') \<Longrightarrow> d + rs_half_taps r \<le> i + 1 \<Longrightarrow> d \<le> length (rs_history r) \<Longrightarrow>
      0 < rs_half_taps r \<Longrightarrow> resample_loop (r\<lparr>rs_history := drop d (rs_history r)\<rparr>) (i - d) f out = Some (i' - d, f', out')"
    for i' f' out'
  proof (induction r i f out "(i', f', out')" rule: resample_loop.raw_induct [rotated, consumes 1, case_names step])
    case (step loop r i f out)
    have d: "d \<le> i" using step.prems by linarith
    have iff: "i - d + rs_half_taps r < length (drop d (rs_history r)) \<longleftrightarrow> i + rs_half_taps r < length (rs_history r)"
      using d by auto
    show ?case
    proof (cases "i + rs_half_taps r < length (rs_history r)")
      case False
      with step(2) iff show ?thesis by (subst resample_loop.simps) simp
    next
      case True
      let ?i = "i + (f + rs_in_rate r) div rs_out_rate r"
      obtain s where s: "sample_at r i f = Some s" "rs_out_rate r \<noteq> 0"
          "loop r ?i ((f + rs_in_rate r) mod rs_out_rate r) (out @ [fst s, snd s]) = Some (i', f', out')"
        using True step(2) by (auto split: option.splits if_splits)
      have "i - d + (f + rs_in_rate r) div rs_out_rate r = ?i - d" using d by simp
      moreover have "d + rs_half_taps r \<le> ?i + 1" using step(3) by simp
      ultimately show ?thesis
        using step(1) [OF s(3)] step(3-5) True iff s(1,2) sample_at_drop [of d r i f] by (subst resample_loop.simps) simp
    qed
  qed
  obtain i' f' out' where "resample_loop r i f out = Some (i', f', out')"
    using resample_loop_returns [OF assms(4-6) _ assms(7), of i out] assms(1) by auto
  with gen assms(1-3) show ?thesis by simp
qed

lemma loop_prefix:
  "resample_loop r i f out = Some (i', f', out') \<Longrightarrow> resample_loop r i f (pre @ out) = Some (i', f', pre @ out')"
proof (induction r i f out "(i', f', out')" rule: resample_loop.raw_induct [rotated, consumes 1, case_names step])
  case (step loop r i f out)
  show ?case
  proof (cases "i + rs_half_taps r < length (rs_history r)")
    case False
    with step(2) show ?thesis by (subst resample_loop.simps) simp
  next
    case True
    then obtain s where s: "sample_at r i f = Some s" "rs_out_rate r \<noteq> 0"
        "loop r (i + (f + rs_in_rate r) div rs_out_rate r) ((f + rs_in_rate r) mod rs_out_rate r) (out @ [fst s, snd s]) = Some (i', f', out')"
      using step(2) by (auto split: option.splits if_splits)
    from step(1) [OF s(3)] show ?thesis using True s(1,2) by (subst resample_loop.simps) simp
  qed
qed

text \<open>Feeding a stream chunk by chunk.\<close>

fun process_all :: "(fl \<times> fl) list list \<Rightarrow> resampler \<Rightarrow> (fl list \<times> resampler) option" where
  "process_all [] r = Some ([], r)"
| "process_all (c # cs) r = (case resampler_process c r of
       None \<Rightarrow> None
     | Some (out, r) \<Rightarrow> map_option (\<lambda>(rest, r). (out @ rest, r)) (process_all cs r))"

lemma process_returns:
  assumes "resampler_inv r"
  shows "\<exists>out r'. resampler_process xs r = Some (out, r') \<and> resampler_inv r'"
proof (cases "rs_in_rate r = rs_out_rate r")
  case False
  obtain i f out where "resample_loop (r\<lparr>rs_history := rs_history r @ xs\<rparr>) (rs_index r) (rs_frac r) [] = Some (i, f, out)"
      "rs_index r \<le> i" "f < rs_out_rate r"
    using resample_loop_returns [of "r\<lparr>rs_history := rs_history r @ xs\<rparr>" "rs_index r" "rs_frac r" "[]"] assms
    by (auto simp: resampler_inv_def)
  moreover have "rs_half_taps r \<le> i - min (i + 1 - rs_half_taps r) n + 1" for n
    using assms \<open>rs_index r \<le> i\<close> by (simp add: resampler_inv_def min_def) linarith
  ultimately show ?thesis using assms False by (simp add: resampler_process_def resampler_inv_def Let_def)
qed (use assms in \<open>simp add: resampler_process_def\<close>)

text \<open>The loop reads the position from its arguments.\<close>

lemma loop_fields:
  assumes "resample_loop r i f out = Some (i', f', out')"
  shows "resample_loop (r\<lparr>rs_index := a, rs_frac := b\<rparr>) i f out = Some (i', f', out')"
  using assms
proof (induction r i f out "(i', f', out')" rule: resample_loop.raw_induct [rotated, consumes 1, case_names step])
  case (step loop r i f out)
  have s: "sample_at (r\<lparr>rs_index := a, rs_frac := b\<rparr>) i f = sample_at r i f" by (simp add: sample_at_def)
  show ?case using step(2) step(1) by (subst resample_loop.simps) (auto simp: s split: option.splits if_splits)
qed

lemma process_append:
  assumes "resampler_inv r" "resampler_process xs r = Some (out, r')"
  shows "resampler_process (xs @ ys) r = map_option (\<lambda>(rest, r). (out @ rest, r)) (resampler_process ys r')"
proof (cases "rs_in_rate r = rs_out_rate r")
  case True
  with assms show ?thesis by (auto simp: resampler_process_def flatten_frames_def)
next
  case False
  let ?h = "rs_history r @ xs" and ?t = "rs_half_taps r"
  let ?x = "r\<lparr>rs_history := ?h\<rparr>" and ?y = "r\<lparr>rs_history := ?h @ ys\<rparr>"
  have inv: "0 < rs_in_rate r" "0 < rs_out_rate r" "0 < ?t" "?t \<le> rs_index r + 1"
      "rs_frac r < rs_out_rate r" "length (rs_table r) = (PHASES + 1) * (2 * ?t)"
    using assms(1) by (simp_all add: resampler_inv_def)
  obtain i f where l: "resample_loop ?x (rs_index r) (rs_frac r) [] = Some (i, f, out)" "rs_index r \<le> i" "f < rs_out_rate r"
    using resample_loop_returns [of ?x "rs_index r" "rs_frac r" "[]"] inv assms(2) False
    by (auto simp: resampler_process_def Let_def)
  define d where "d = min (i + 1 - ?t) (length ?h)"
  have r': "r' = r\<lparr>rs_history := drop d ?h, rs_index := i - d, rs_frac := f\<rparr>"
    using assms(2) False l by (auto simp: resampler_process_def d_def Let_def)
  have d: "d + ?t \<le> i + 1" "d \<le> length ?h" "d \<le> i"
    using inv(3,4) l(2) by (auto simp: d_def min_def)
  obtain i2 f2 o2 where l2: "resample_loop ?y i f [] = Some (i2, f2, o2)" "i \<le> i2"
    using resample_loop_returns [of ?y i f "[]"] inv d(1) l(3) by auto
  have whole: "resample_loop ?y (rs_index r) (rs_frac r) [] = Some (i2, f2, out @ o2)"
    using loop_append [OF l(1), of ys] loop_prefix [OF l2(1), of out] by simp
  have part: "resample_loop (r\<lparr>rs_history := drop d ?h @ ys\<rparr>) (i - d) f [] = Some (i2 - d, f2, o2)"
    using loop_drop [of d ?y i f "[]"] d inv l(3) l2(1) by simp
  have "resample_loop (r\<lparr>rs_history := drop d ?h @ ys, rs_index := i - d, rs_frac := f\<rparr>) (i - d) f [] = Some (i2 - d, f2, o2)"
    using loop_fields [OF part, where a = "i - d" and b = f] by (simp del: drop_append)
  moreover have "r\<lparr>rs_history := drop d ?h @ ys, rs_index := i - d, rs_frac := f\<rparr> = r'\<lparr>rs_history := rs_history r' @ ys\<rparr>"
    by (simp add: r' del: drop_append)
  ultimately have part': "resample_loop (r'\<lparr>rs_history := rs_history r' @ ys\<rparr>) (i - d) f [] = Some (i2 - d, f2, o2)" by simp
  define e where "e = min (i2 + 1 - ?t) (length (?h @ ys))"
  define e' where "e' = min (i2 - d + 1 - ?t) (length (drop d ?h @ ys))"
  have e: "e = d + e'" using d l2(2) by (auto simp: e_def e'_def min_def)
  have "drop d (?h @ ys) = drop d ?h @ ys" using d(2) by (metis append_Nil2 diff_is_0_eq drop_0 drop_append)
  then have drop: "drop e' (drop d ?h @ ys) = drop e (?h @ ys)" unfolding e by (metis add.commute drop_drop)
  have "resampler_process (xs @ ys) r = Some (out @ o2, r\<lparr>rs_history := drop e (?h @ ys), rs_index := i2 - e, rs_frac := f2\<rparr>)"
    using False whole unfolding append_assoc by (simp add: resampler_process_def Let_def e_def del: drop_append)
  moreover have "resampler_process ys r' = Some (o2, r'\<lparr>rs_history := drop e' (drop d ?h @ ys), rs_index := i2 - d - e', rs_frac := f2\<rparr>)"
  proof -
    have "rs_index r' = i - d" "rs_frac r' = f" "rs_in_rate r' \<noteq> rs_out_rate r'" "rs_half_taps r' = ?t" "rs_history r' = drop d ?h"
      using False by (simp_all add: r' del: drop_append)
    with part' show ?thesis by (simp add: resampler_process_def Let_def e'_def del: drop_append)
  qed
  ultimately show ?thesis by (simp add: r' drop del: drop_append append_assoc) (simp add: e)
qed


lemma process_all_concat:
  assumes "resampler_inv r"
  shows "\<exists>out r'. process_all cs r = Some (out, r') \<and> resampler_inv r'"
    "process_all cs r \<noteq> None \<and> (cs \<noteq> [] \<longrightarrow> process_all cs r = resampler_process (concat cs) r)"
proof -
  have both: "\<exists>out r'. process_all cs r = Some (out, r') \<and> resampler_inv r' \<and> (cs \<noteq> [] \<longrightarrow> resampler_process (concat cs) r = Some (out, r'))"
    using assms
  proof (induction cs arbitrary: r)
    case (Cons c cs)
    obtain a r1 where a: "resampler_process c r = Some (a, r1)" "resampler_inv r1" using process_returns [OF Cons.prems] by blast
    from Cons.IH [OF a(2)] obtain b r2 where b: "process_all cs r1 = Some (b, r2)" "resampler_inv r2"
        "cs \<noteq> [] \<longrightarrow> resampler_process (concat cs) r1 = Some (b, r2)" by blast
    have "process_all (c # cs) r = Some (a @ b, r2)" by (simp only: process_all.simps a(1) b(1) option.case prod.case option.map)
    moreover have "resampler_process (concat (c # cs)) r = Some (a @ b, r2)"
    proof (cases "cs = []")
      case True
      with a b show ?thesis by simp
    next
      case False
      with b process_append [OF Cons.prems a(1), of "concat cs"] show ?thesis by simp
    qed
    ultimately show ?case using b(2) by blast
  qed simp
  then show "\<exists>out r'. process_all cs r = Some (out, r') \<and> resampler_inv r'"
    "process_all cs r \<noteq> None \<and> (cs \<noteq> [] \<longrightarrow> process_all cs r = resampler_process (concat cs) r)"
    by auto
qed

section \<open>The converter\<close>

text \<open>A device chunk holds whole frames, so the converter sees the same frames however they arrive.\<close>

fun convert_all :: "fl list list \<Rightarrow> to_opus_format \<Rightarrow> (fl list \<times> to_opus_format) option" where
  "convert_all [] f = Some ([], f)"
| "convert_all (c # cs) f = (case to_opus_convert c f of
       None \<Rightarrow> None
     | Some (out, f) \<Rightarrow> map_option (\<lambda>(rest, f). (out @ rest, f)) (convert_all cs f))"

definition device_frames :: "nat \<Rightarrow> fl list \<Rightarrow> (fl \<times> fl) list" where
  "device_frames n xs = map stereo_frame (filter (\<lambda>c. length c = n) (chunks n xs))"

lemma chunks_append: "0 < n \<Longrightarrow> n dvd length xs \<Longrightarrow> chunks n (xs @ ys) = chunks n xs @ chunks n ys"
proof (induction n xs rule: chunks.induct)
  case (1 n xs)
  show ?case
  proof (cases "xs = []")
    case False
    have l: "n \<le> length xs" using False 1(3) by (simp add: dvd_imp_le)
    moreover have "n dvd length (drop n xs)" using 1(3) l by simp
    ultimately show ?thesis using 1 False by (simp add: chunks_step)
  qed simp
qed

lemma device_frames_append:
  "0 < n \<Longrightarrow> n dvd length xs \<Longrightarrow> device_frames n (xs @ ys) = device_frames n xs @ device_frames n ys"
  by (simp add: device_frames_def chunks_append)

lemma convert_all_process:
  assumes "resampler_inv (tf_resampler f)" "0 < tf_channels f" "list_all (\<lambda>c. tf_channels f dvd length c) cs"
  shows "convert_all cs f = map_option (\<lambda>(out, r). (out, f\<lparr>tf_resampler := r\<rparr>))
    (process_all (map (device_frames (tf_channels f)) cs) (tf_resampler f))"
  using assms
proof (induction cs arbitrary: f)
  case (Cons c cs)
  obtain a r where a: "resampler_process (device_frames (tf_channels f) c) (tf_resampler f) = Some (a, r)" "resampler_inv r"
    using process_returns [OF Cons.prems(1)] by blast
  have "rs_in_rate (tf_resampler f) \<noteq> 0" using Cons.prems(1) by (simp add: resampler_inv_def)
  then have "to_opus_convert c f = Some (a, f\<lparr>tf_resampler := r\<rparr>)"
    using a by (simp add: to_opus_convert_def device_frames_def [symmetric])
  moreover have "convert_all cs (f\<lparr>tf_resampler := r\<rparr>) = map_option (\<lambda>(out, r'). (out, f\<lparr>tf_resampler := r'\<rparr>))
      (process_all (map (device_frames (tf_channels f)) cs) r)"
    using Cons.IH [of "f\<lparr>tf_resampler := r\<rparr>"] Cons.prems a(2) by simp
  ultimately show ?case using a by (cases "process_all (map (device_frames (tf_channels f)) cs) r") (auto simp: option.map_comp)
qed simp

lemma device_frames_concat:
  "0 < n \<Longrightarrow> list_all (\<lambda>c. n dvd length c) cs \<Longrightarrow> device_frames n (concat cs) = concat (map (device_frames n) cs)"
  by (induction cs) (simp_all add: device_frames_append, simp add: device_frames_def)

lemma resampler_new_inv:
  assumes "resampler_new s c a b = Some r" "0 < a" "0 < b"
  shows "resampler_inv r"
proof -
  have "length (concat (map (table_row s c k t) xs)) = length xs * (2 * t)" for k t xs
    by (induction xs) (simp_all add: table_row_def Let_def)
  moreover have "length (table_row s c k t x) = 2 * t" for k t x by (simp add: table_row_def Let_def)
  ultimately show ?thesis using assms by (auto simp: resampler_new_def resampler_inv_def Let_def split: if_splits)
qed


lemma new_to_opus:
  assumes "to_opus_new s c rate ch = Some f" "0 < rate"
  shows "resampler_inv (tf_resampler f)" "tf_channels f = max ch 1" "rs_in_rate (tf_resampler f) = rate"
    "rs_out_rate (tf_resampler f) = OUTPUT_RATE" "rs_frac (tf_resampler f) = 0"
    "length (rs_history (tf_resampler f)) = rs_half_taps (tf_resampler f) - 1"
    "rs_index (tf_resampler f) = rs_half_taps (tf_resampler f) - 1"
proof -
  obtain r where r: "resampler_new s c rate OUTPUT_RATE = Some r" "f = \<lparr>tf_channels = max ch 1, tf_resampler = r\<rparr>"
    using assms(1) by (auto simp: to_opus_new_def)
  show "resampler_inv (tf_resampler f)" "tf_channels f = max ch 1" "rs_in_rate (tf_resampler f) = rate"
    "rs_out_rate (tf_resampler f) = OUTPUT_RATE" "rs_frac (tf_resampler f) = 0"
    "length (rs_history (tf_resampler f)) = rs_half_taps (tf_resampler f) - 1"
    "rs_index (tf_resampler f) = rs_half_taps (tf_resampler f) - 1"
    using resampler_new_inv [OF r(1) assms(2)] r by (auto simp: OUTPUT_RATE_def resampler_new_def Let_def split: if_splits)
qed

lemma length_device_frames: "0 < n \<Longrightarrow> n dvd length xs \<Longrightarrow> length (device_frames n xs) = length xs div n"
proof (induction n xs rule: chunks.induct)
  case (1 n xs)
  show ?case
  proof (cases "xs = []")
    case False
    have l: "n \<le> length xs" using False 1(3) by (simp add: dvd_imp_le)
    have "n dvd length (drop n xs)" using 1(3) l by simp
    with 1 False have "length (device_frames n (drop n xs)) = (length xs - n) div n" by simp
    moreover have "length xs div n = Suc ((length xs - n) div n)" using 1(2) l by (simp add: le_div_geq)
    ultimately show ?thesis using False 1(2) l by (simp add: device_frames_def chunks_step)
  qed (simp add: device_frames_def)
qed

lemma convert_all_whole:
  assumes "to_opus_new s c rate ch = Some f" "0 < rate" "list_all (\<lambda>c. max ch 1 dvd length c) cs" "cs \<noteq> []"
  shows "\<exists>out f'. convert_all cs f = Some (out, f') \<and> to_opus_convert (concat cs) f = Some (out, f')"
proof -
  note f = new_to_opus [OF assms(1,2)]
  have frames: "concat (map (device_frames (tf_channels f)) cs) = device_frames (tf_channels f) (concat cs)"
    using device_frames_concat [of "tf_channels f" cs] f(2) assms(3) by simp
  note all = process_all_concat [OF f(1), of "map (device_frames (tf_channels f)) cs", unfolded frames]
  obtain out r where p: "process_all (map (device_frames (tf_channels f)) cs) (tf_resampler f) = Some (out, r)" using all(1) by blast
  then have "convert_all cs f = Some (out, f\<lparr>tf_resampler := r\<rparr>)"
    using convert_all_process [OF f(1)] f(2) assms(3) by simp
  moreover have "to_opus_convert (concat cs) f = Some (out, f\<lparr>tf_resampler := r\<rparr>)"
  proof -
    have "resampler_process (device_frames (tf_channels f) (concat cs)) (tf_resampler f) = Some (out, r)"
      using all(2) p assms(4) by simp
    then show ?thesis using assms(2) by (simp add: to_opus_convert_def device_frames_def [symmetric] f(3))
  qed
  ultimately show ?thesis by blast
qed

text \<open>
  C28. The converter is independent of how the device cuts its audio: however the captured frames are
  split into callback chunks, the samples sent to the encoder, and the converter's state after them,
  are those of converting the whole recording at once.
\<close>

theorem converter_any_chunks:
  assumes "to_opus_new s c rate ch = Some f" "0 < rate" "list_all (\<lambda>c. max ch 1 dvd length c) cs" "cs \<noteq> []"
  shows "\<exists>out f'. convert_all cs f = Some (out, f') \<and> to_opus_convert (concat cs) f = Some (out, f')"
  using assms by (rule convert_all_whole)

lemma half_taps_44100: "f_as_u64 (f_ceil (f_div b64 ZERO_CROSSINGS (cutoff_of 44100 OUTPUT_RATE))) = 17"
proof -
  have "rnd b64 48000 = Fin 48000" "rnd b64 44100 = Fin 44100" by code_simp+
  moreover have "f_as_int 0 (2 ^ 64 - 1)
      (f_ceil (f_div b64 ZERO_CROSSINGS (f_mul b64 (f_min (f_div b64 (Fin 48000) (Fin 44100)) (Fin 1)) PASSBAND))) = 17"
    by code_simp
  ultimately show ?thesis by (simp only: f_as_u64_def cutoff_of_def OUTPUT_RATE_def of_nat_numeral)
qed

lemma new_44100: "\<exists>f. to_opus_new (\<lambda>_. Fin 0) (\<lambda>_. Fin 1) 44100 2 = Some f \<and> rs_half_taps (tf_resampler f) = 17"
  by (simp add: to_opus_new_def resampler_new_def Let_def half_taps_44100)

theorem converter_any_chunks_witness:
  "\<exists>f out f'. to_opus_new (\<lambda>_. Fin 0) (\<lambda>_. Fin 1) 44100 2 = Some f
    \<and> convert_all [[Fin 1, Fin 0], [Fin 0, Fin 1, Fin 1, Fin 1]] f = Some (out, f')
    \<and> to_opus_convert [Fin 1, Fin 0, Fin 0, Fin 1, Fin 1, Fin 1] f = Some (out, f')"
proof -
  obtain f where f: "to_opus_new (\<lambda>_. Fin 0) (\<lambda>_. Fin 1) 44100 2 = Some f" using new_44100 by blast
  have "list_all (\<lambda>c. max 2 1 dvd length c) [[Fin 1, Fin 0], [Fin 0, Fin 1, Fin 1, Fin 1]]"
    by (simp add: numeral_2_eq_2 [symmetric])
  from converter_any_chunks [OF f _ this] f show ?thesis by simp
qed

text \<open>
  C29. The converter always returns and never drifts: from a device running at another rate than
  48 kHz, after \<open>n\<close> captured frames exactly \<open>\<lceil>(n - half_taps) * 48000 / rate\<rceil>\<close> stereo frames
  have been emitted, whatever the chunks were.
\<close>

theorem converter_never_drifts:
  assumes "to_opus_new s c rate ch = Some f" "0 < rate" "rate \<noteq> OUTPUT_RATE" "list_all (\<lambda>c. max ch 1 dvd length c) cs"
  shows "\<exists>out f'. convert_all cs f = Some (out, f')
    \<and> length out = 2 * div_ceil ((length (concat cs) div max ch 1 - rs_half_taps (tf_resampler f)) * OUTPUT_RATE) rate"
proof (cases "cs = []")
  case True
  then show ?thesis by (simp add: div_ceil_def)
next
  case False
  note f = new_to_opus [OF assms(1,2)]
  let ?r = "tf_resampler f" and ?xs = "device_frames (max ch 1) (concat cs)"
  obtain out f' where o: "convert_all cs f = Some (out, f')" "to_opus_convert (concat cs) f = Some (out, f')"
    using convert_all_whole [OF assms(1,2,4) False] by blast
  have "max ch 1 dvd length (concat cs)" using assms(4) by (induction cs) simp_all
  then have len: "length ?xs = length (concat cs) div max ch 1" by (rule length_device_frames [rotated]) simp
  have h: "0 < rs_half_taps ?r" using f(1) by (simp add: resampler_inv_def)
  have "resample_loop (?r\<lparr>rs_history := rs_history ?r @ ?xs\<rparr>) (rs_index ?r) 0 [] = Some (i, g, out)" if
      "resample_loop (?r\<lparr>rs_history := rs_history ?r @ ?xs\<rparr>) (rs_index ?r) 0 [] = Some (i, g, out')" for i g out'
    using o(2) that assms(2,3) f(2-5)
    by (auto simp: to_opus_convert_def device_frames_def [symmetric] resampler_process_def Let_def split: option.splits)
  moreover have "(length (rs_history ?r) + length ?xs - rs_half_taps ?r) * OUTPUT_RATE - rs_index ?r * OUTPUT_RATE
      = (length ?xs - rs_half_taps ?r) * OUTPUT_RATE"
    unfolding diff_mult_distrib [symmetric] f(6,7) using h by (intro arg_cong [where f = "\<lambda>x. x * OUTPUT_RATE"]) linarith
  ultimately show ?thesis
    using resample_loop_returns [of "?r\<lparr>rs_history := rs_history ?r @ ?xs\<rparr>" "rs_index ?r" 0 "[]"] f(1) o(1)
    by (auto simp: resampler_inv_def f(3-5) len [simplified])
qed

theorem converter_never_drifts_witness:
  "\<exists>f out f'. to_opus_new (\<lambda>_. Fin 0) (\<lambda>_. Fin 1) 44100 2 = Some f
    \<and> convert_all (replicate 10 (replicate 882 (Fin 1))) f = Some (out, f') \<and> length out = 2 * 4782"
proof -
  obtain f where f: "to_opus_new (\<lambda>_. Fin 0) (\<lambda>_. Fin 1) 44100 2 = Some f" "rs_half_taps (tf_resampler f) = 17" using new_44100 by blast
  have "list_all (\<lambda>c. max 2 1 dvd length c) (replicate 10 (replicate 882 (Fin 1)))"
    unfolding list_all_iff by (simp add: numeral_2_eq_2 [symmetric])
  from converter_never_drifts [OF f(1) _ _ this] f show ?thesis
    by (auto simp: OUTPUT_RATE_def div_ceil_def length_concat sum_list_replicate numeral_2_eq_2 [symmetric])
qed

text \<open>
  Folding to stereo: mono plays on both ears; the 4-, 6- and 8-channel layouts are mixed and clipped to [-1, 1];
  any other layout keeps its front pair.
\<close>

lemma stereo_frame_clipped:
  assumes "length frame \<in> {4, 6, 8}" "stereo_frame frame = (l, r)" "l \<noteq> NaN" "r \<noteq> NaN"
  shows "Fin (-1) \<le> l \<and> l \<le> Fin 1 \<and> Fin (-1) \<le> r \<and> r \<le> Fin 1"
proof -
  have "\<exists>a b. stereo_frame frame = mixed a b" using assms(1) by (fastforce simp: stereo_frame_def Let_def)
  then obtain a b where "(l, r) = mixed a b" using assms(2) by auto
  then have lr: "l = f_clamp (Fin (-1)) (Fin 1) a" "r = f_clamp (Fin (-1)) (Fin 1) b" by (simp_all add: mixed_def)
  with assms(3,4) have "a \<noteq> NaN" "b \<noteq> NaN" by auto
  then show ?thesis using f_clamp_bounds [of "Fin (-1)" "Fin 1"] by (simp add: lr)
qed

section \<open>Reopening\<close>

text \<open>
  The capture follows the default output device: it is reopened exactly when there is a default
  device and it is not the one captured, or the captured stream failed; a device that failed to open
  is tried again after 30 seconds, another one at once.
\<close>

theorem should_reopen_iff:
  "should_reopen current default_now failed_attempt now \<longleftrightarrow>
     (\<exists>wanted. default_now = Some wanted
        \<and> (case current of
             Some (device, failed) \<Rightarrow> failed \<or> device \<noteq> wanted
           | None \<Rightarrow> case failed_attempt of
                 None \<Rightarrow> True
               | Some (device, since) \<Rightarrow> device \<noteq> wanted \<or> since + REOPEN_RETRY \<le> now))"
  by (auto simp: should_reopen_def REOPEN_RETRY_def split: option.splits prod.splits)

end
