(* ===== verification/Storage.thy ===== *)
theory Storage imports Prelude begin

text \<open>
  The files the recorders write: \<open>std::fs::File\<close> and \<open>std::io::BufWriter\<close>. A file is its bytes, the
  write position, and the outcomes of the operations to come: the next operation on the file takes
  the head of the list, \<open>None\<close> succeeding and \<open>Some k\<close> failing after \<open>k\<close> bytes; an empty list
  means no more failures. A process that dies is one whose later operations all fail at once.
\<close>

section \<open>Files\<close>

record disk_file =
  f_data :: bytes
  f_pos :: nat
  f_io :: "nat option list"

definition new_file :: "nat option list \<Rightarrow> disk_file" where
  "new_file io = \<lparr>f_data = [], f_pos = 0, f_io = io\<rparr>"

definition next_io :: "disk_file \<Rightarrow> nat option \<times> disk_file" where
  "next_io f = (case f_io f of [] \<Rightarrow> (None, f) | r # io \<Rightarrow> (r, f\<lparr>f_io := io\<rparr>))"

definition put_at :: "nat \<Rightarrow> bytes \<Rightarrow> bytes \<Rightarrow> bytes" where
  "put_at p bs d = take p d @ replicate (p - length d) 0 @ bs @ drop (p + length bs) d"

definition file_put :: "bytes \<Rightarrow> disk_file \<Rightarrow> disk_file" where
  "file_put bs f = f\<lparr>f_data := put_at (f_pos f) bs (f_data f), f_pos := f_pos f + length bs\<rparr>"

text \<open>\<open>write_all\<close>: whether it succeeded, and how many bytes were written.\<close>

definition file_write :: "bytes \<Rightarrow> disk_file \<Rightarrow> bool \<times> nat \<times> disk_file" where
  "file_write bs f =
     (case next_io f of
        (None, f) \<Rightarrow> (True, length bs, file_put bs f)
      | (Some k, f) \<Rightarrow> (False, min k (length bs), file_put (take k bs) f))"

definition file_seek :: "nat \<Rightarrow> disk_file \<Rightarrow> bool \<times> disk_file" where
  "file_seek p f = (case next_io f of (None, f) \<Rightarrow> (True, f\<lparr>f_pos := p\<rparr>) | (Some k, f) \<Rightarrow> (False, f))"

definition file_seek_end :: "disk_file \<Rightarrow> bool \<times> disk_file" where
  "file_seek_end f = file_seek (length (f_data f)) f"

lemma put_at_end [simp]: "put_at (length d) bs d = d @ bs"
  by (simp add: put_at_def)

lemma put_at_Nil [simp]: "p \<le> length d \<Longrightarrow> put_at p [] d = d"
  by (simp add: put_at_def)

lemma length_put_at: "p \<le> length d \<Longrightarrow> length (put_at p bs d) = max (length d) (p + length bs)"
  by (simp add: put_at_def)

text \<open>Overwriting a field in the middle of what is there.\<close>

lemma put_at_field: "length a = p \<Longrightarrow> length b = length bs \<Longrightarrow> put_at p bs (a @ b @ c) = a @ bs @ c"
  by (simp add: put_at_def)

lemma put_at_part:
  "length a = p \<Longrightarrow> k \<le> length bs \<Longrightarrow> length b = length bs \<Longrightarrow> put_at p (take k bs) (a @ b @ c) = a @ (take k bs @ drop k b) @ c"
  by (simp add: put_at_def min_absorb2)

section \<open>Buffered writers\<close>

record writer =
  w_buf :: bytes
  w_cap :: nat

definition buf_writer :: "nat \<Rightarrow> writer" where
  "buf_writer cap = \<lparr>w_buf = [], w_cap = cap\<rparr>"

definition flush_buf :: "writer \<Rightarrow> disk_file \<Rightarrow> bool \<times> writer \<times> disk_file" where
  "flush_buf w f =
     (if w_buf w = [] then (True, w, f)
      else case file_write (w_buf w) f of (ok, n, f) \<Rightarrow> (ok, w\<lparr>w_buf := drop n (w_buf w)\<rparr>, f))"

definition buf_write_all :: "bytes \<Rightarrow> writer \<Rightarrow> disk_file \<Rightarrow> bool \<times> writer \<times> disk_file" where
  "buf_write_all bs w f =
     (let spare = w_cap w - length (w_buf w) in
      if length bs < spare then (True, w\<lparr>w_buf := w_buf w @ bs\<rparr>, f)
      else case (if spare < length bs then flush_buf w f else (True, w, f)) of
        (False, w, f) \<Rightarrow> (False, w, f)
      | (True, w, f) \<Rightarrow>
          if w_cap w \<le> length bs then (case file_write bs f of (ok, n, f) \<Rightarrow> (ok, w, f))
          else (True, w\<lparr>w_buf := w_buf w @ bs\<rparr>, f))"

text \<open>Dropping the writer flushes what it holds.\<close>

definition buf_drop :: "writer \<Rightarrow> disk_file \<Rightarrow> disk_file" where
  "buf_drop w f = snd (snd (flush_buf w f))"

text \<open>
  What the writer has accepted is what is in the file and in its buffer; a writer that appends
  keeps the file's position at its end.
\<close>

definition appending :: "writer \<Rightarrow> disk_file \<Rightarrow> bool" where
  "appending w f \<longleftrightarrow> f_pos f = length (f_data f)"

definition written :: "writer \<Rightarrow> disk_file \<Rightarrow> bytes" where
  "written w f = f_data f @ w_buf w"

lemma next_io_fields: "next_io f = (r, f') \<Longrightarrow> f_data f' = f_data f \<and> f_pos f' = f_pos f"
  by (auto simp: next_io_def split: list.splits)

lemma next_io_none [simp]: "f_io f = [] \<Longrightarrow> next_io f = (None, f)"
  by (simp add: next_io_def)

lemma file_write_end:
  assumes "f_pos f = length (f_data f)" "file_write bs f = (ok, n, f')"
  shows "n \<le> length bs \<and> (ok \<longrightarrow> n = length bs) \<and> f_data f' = f_data f @ take n bs \<and> f_pos f' = length (f_data f')"
  using assms by (auto simp: file_write_def file_put_def min_def split: prod.splits option.splits dest!: next_io_fields)

lemma flush_buf_appends:
  assumes "appending w f" "flush_buf w f = (ok, w', f')"
  shows "appending w' f' \<and> written w' f' = written w f \<and> (ok \<longrightarrow> w_buf w' = []) \<and> w_cap w' = w_cap w
    \<and> (\<exists>n. f_data f' = f_data f @ take n (w_buf w))"
proof (cases "w_buf w = []")
  case False
  then obtain n where "file_write (w_buf w) f = (ok, n, f')" "w' = w\<lparr>w_buf := drop n (w_buf w)\<rparr>"
    using assms(2) by (auto simp: flush_buf_def split: prod.splits)
  with file_write_end [of f "w_buf w"] assms(1) show ?thesis by (auto simp: appending_def written_def)
qed (use assms in \<open>auto simp: flush_buf_def\<close>)

lemma buf_write_all_appends:
  assumes "appending w f" "0 < w_cap w" "buf_write_all bs w f = (ok, w', f')"
  shows "appending w' f' \<and> w_cap w' = w_cap w \<and> (\<exists>n. written w' f' = written w f @ take n bs)
    \<and> (ok \<longrightarrow> written w' f' = written w f @ bs) \<and> (\<exists>more. f_data f' = f_data f @ more)
    \<and> (length bs < w_cap w \<longrightarrow> \<not> ok \<longrightarrow> written w' f' = written w f)"
proof (cases "length bs < w_cap w - length (w_buf w)")
  case True
  with assms show ?thesis by (auto simp: buf_write_all_def appending_def written_def intro: exI [of _ "length bs"])
next
  case False
  obtain fl w1 f1 where fl: "(if w_cap w - length (w_buf w) < length bs then flush_buf w f else (True, w, f)) = (fl, w1, f1)"
    by (metis prod_cases3)
  then have one: "appending w1 f1" "written w1 f1 = written w f" "w_cap w1 = w_cap w" "\<exists>more. f_data f1 = f_data f @ more"
    using flush_buf_appends [OF assms(1), of fl w1 f1] assms(1) by (auto split: if_splits)
  have empty: "w_buf w1 = []" if "w_cap w \<le> length bs" fl
  proof (cases "w_cap w - length (w_buf w) < length bs")
    case True
    with fl that flush_buf_appends [OF assms(1), of fl w1 f1] show ?thesis by simp
  next
    case no: False
    with that assms(2) have "w_buf w = []" by (cases "w_buf w") auto
    with fl no show ?thesis by auto
  qed
  consider (failed) "\<not> fl" "ok = False" "w' = w1" "f' = f1"
    | (direct) n where fl "w_cap w \<le> length bs" "file_write bs f1 = (ok, n, f')" "w' = w1"
    | (buffered) fl "length bs < w_cap w" ok "w' = w1\<lparr>w_buf := w_buf w1 @ bs\<rparr>" "f' = f1"
    using assms(3) False fl one(3) unfolding buf_write_all_def Let_def
    by (cases fl) (auto split: prod.splits if_splits)
  then show ?thesis
  proof cases
    case failed
    with one show ?thesis by (auto intro: exI [of _ 0])
  next
    case direct
    from one(1) direct(3) have d: "ok \<longrightarrow> n = length bs" "f_data f' = f_data f1 @ take n bs" "f_pos f' = length (f_data f')"
      using file_write_end [of f1 bs ok n f'] by (simp_all add: appending_def)
    have "written w' f' = written w f @ take n bs"
      using d(2) one(2) empty [OF direct(2,1)] direct(4) by (simp add: written_def)
    moreover have "\<exists>more. f_data f' = f_data f @ more" using one(4) d(2) by force
    ultimately show ?thesis using d one(3) direct(2,4) by (auto simp: appending_def)
  next
    case buffered
    with one show ?thesis by (auto simp: appending_def written_def intro: exI [of _ "length bs"])
  qed
qed

text \<open>Without failures.\<close>

lemma file_write_ok [simp]: "f_io f = [] \<Longrightarrow> file_write bs f = (True, length bs, file_put bs f)"
  by (simp add: file_write_def)

lemma file_seek_ok [simp]: "f_io f = [] \<Longrightarrow> file_seek p f = (True, f\<lparr>f_pos := p\<rparr>)"
  by (simp add: file_seek_def)

lemma file_put_io [simp]: "f_io (file_put bs f) = f_io f"
  by (simp add: file_put_def)

lemma flush_buf_ok: "f_io f = [] \<Longrightarrow> \<exists>w' f'. flush_buf w f = (True, w', f') \<and> f_io f' = []"
  by (auto simp: flush_buf_def)

lemma buf_write_all_ok: "f_io f = [] \<Longrightarrow> \<exists>w' f'. buf_write_all bs w f = (True, w', f') \<and> f_io f' = []"
  using flush_buf_ok [of f w] by (auto simp: buf_write_all_def Let_def)

end
