(* ===== verification/Recording.thy ===== *)
theory Recording imports Storage Decimal begin

text \<open>
  \<open>recording/mod.rs\<close> and the recorder's side of \<open>engine.rs\<close>: naming a new recording, the Annex B
  recorder, and deleting old recordings. File names are strings of bytes within one directory. What
  opening and removing a file returns, and \<open>chrono\<close>'s parser of the timestamp, are arguments.
\<close>

section \<open>A new file\<close>

datatype create_result = Created | AlreadyExists | OtherError

definition DOT :: char where "DOT = CHR ''.''"

text \<open>
  The standard library's \<open>file_stem\<close> and \<open>extension\<close>, as the stem and \<open>.ext\<close>: the last dot
  separates them, unless it is the first character or there is none.
\<close>

definition split_extension :: "string \<Rightarrow> string \<times> string" where
  "split_extension name =
     (let tail = takeWhile (\<lambda>c. c \<noteq> DOT) (rev name); before = drop (length tail) (rev name) in
      if name = ''..'' \<or> length before \<le> 1 then (name, [])
      else (rev (drop 1 before), DOT # rev tail))"

definition numbered_name :: "string \<Rightarrow> string \<Rightarrow> nat \<Rightarrow> string" where
  "numbered_name stem ext n = stem @ ''-'' @ decimal n @ ext"

fun try_names :: "(string \<Rightarrow> create_result) \<Rightarrow> string \<Rightarrow> string \<Rightarrow> string \<Rightarrow> nat list \<Rightarrow> string option" where
  "try_names open_new stem ext candidate [] = None"
| "try_names open_new stem ext candidate (n # ns) =
     (case open_new candidate of
        Created \<Rightarrow> Some candidate
      | AlreadyExists \<Rightarrow> try_names open_new stem ext (numbered_name stem ext n) ns
      | OtherError \<Rightarrow> None)"

definition create_new_file :: "bool \<Rightarrow> (string \<Rightarrow> create_result) \<Rightarrow> string \<Rightarrow> string option" where
  "create_new_file dir_ok open_new name =
     (if \<not> dir_ok then None
      else case split_extension name of (stem, ext) \<Rightarrow> try_names open_new stem ext name [2..<101])"

section \<open>The recorder\<close>

definition START_CODE :: bytes where "START_CODE = [0, 0, 0, 1]"

record recorder =
  rc_path :: string
  rc_writer :: "writer option"
  rc_bytes_written :: nat
  rc_nal_count :: nat
  rc_poisoned :: bool

definition recorder_open :: "bool \<Rightarrow> (string \<Rightarrow> create_result) \<Rightarrow> string \<Rightarrow> recorder option" where
  "recorder_open dir_ok open_new path =
     map_option (\<lambda>p. \<lparr>rc_path = p, rc_writer = Some (buf_writer (256 * 1024)),
        rc_bytes_written = 0, rc_nal_count = 0, rc_poisoned = False\<rparr>) (create_new_file dir_ok open_new path)"

definition starts_with_annexb :: "bytes \<Rightarrow> bool" where
  "starts_with_annexb buf \<longleftrightarrow> take 4 buf = [0, 0, 0, 1] \<or> take 3 buf = [0, 0, 1]"

definition write_nal :: "bytes \<Rightarrow> recorder \<times> disk_file \<Rightarrow> recorder \<times> disk_file" where
  "write_nal nal rf = (case rf of (r, f) \<Rightarrow>
     if rc_poisoned r \<or> nal = [] then (r, f)
     else case rc_writer r of
       None \<Rightarrow> (r, f)
     | Some w \<Rightarrow>
         (case (if starts_with_annexb nal then
                  (case buf_write_all nal w f of (ok, w, f) \<Rightarrow> (ok, length nal, w, f))
                else
                  (case buf_write_all START_CODE w f of
                     (False, w, f) \<Rightarrow> (False, 0, w, f)
                   | (True, w, f) \<Rightarrow>
                       (case buf_write_all nal w f of (ok, w, f) \<Rightarrow> (ok, length nal + length START_CODE, w, f)))) of
            (True, n, w, f) \<Rightarrow>
              (r\<lparr>rc_writer := Some w, rc_bytes_written := rc_bytes_written r + n, rc_nal_count := rc_nal_count r + 1\<rparr>, f)
          | (False, n, w, f) \<Rightarrow> (r\<lparr>rc_writer := Some w, rc_poisoned := True\<rparr>, f)))"

definition recorder_flush :: "recorder \<times> disk_file \<Rightarrow> recorder \<times> disk_file" where
  "recorder_flush rf = (case rf of (r, f) \<Rightarrow>
     case rc_writer r of None \<Rightarrow> (r, f)
     | Some w \<Rightarrow> (case flush_buf w f of (_, w, f) \<Rightarrow> (r\<lparr>rc_writer := Some w\<rparr>, f)))"

text \<open>The flush of \<open>close\<close>, then the writer's own when it is dropped.\<close>

definition recorder_close :: "recorder \<times> disk_file \<Rightarrow> recorder \<times> disk_file" where
  "recorder_close rf = (case rf of (r, f) \<Rightarrow>
     case rc_writer r of None \<Rightarrow> (r, f)
     | Some w \<Rightarrow> (case flush_buf w f of (_, w, f) \<Rightarrow> (r\<lparr>rc_writer := None\<rparr>, buf_drop w f)))"

definition recorder_is_open :: "recorder \<Rightarrow> bool" where
  "recorder_is_open r \<longleftrightarrow> rc_writer r \<noteq> None \<and> \<not> rc_poisoned r"

text \<open>The engine's tap: the runtime toggle, the recorder if there is one, and whether its lock was free.\<close>

definition write_recording_nal :: "bool \<Rightarrow> bool \<Rightarrow> bytes \<Rightarrow> (recorder \<times> disk_file) option \<Rightarrow> (recorder \<times> disk_file) option" where
  "write_recording_nal enabled lock_free nal rec =
     (if \<not> enabled then rec else if lock_free then map_option (write_nal nal) rec else rec)"

section \<open>Old recordings\<close>

definition TS_LEN :: nat where "TS_LEN = 19"

definition strip_prefix :: "string \<Rightarrow> string \<Rightarrow> string option" where
  "strip_prefix p s = (if take (length p) s = p then Some (drop (length p) s) else None)"

definition strip_suffix :: "string \<Rightarrow> string \<Rightarrow> string option" where
  "strip_suffix p s = (if length p \<le> length s \<and> drop (length s - length p) s = p then Some (take (length s - length p) s) else None)"

text \<open>\<open>split_at_checked\<close> on UTF-8: in range, and not inside a character.\<close>

definition split_at_checked :: "nat \<Rightarrow> string \<Rightarrow> (string \<times> string) option" where
  "split_at_checked n s =
     (if length s < n \<or> (n < length s \<and> 128 \<le> (of_char (s ! n) :: nat) \<and> (of_char (s ! n) :: nat) < 192) then None
      else Some (take n s, drop n s))"

definition or_else :: "'a option \<Rightarrow> 'a option \<Rightarrow> 'a option" where
  "or_else a b = (case a of None \<Rightarrow> b | Some x \<Rightarrow> Some x)"

definition parse_recording_timestamp :: "(string \<Rightarrow> int option) \<Rightarrow> string \<Rightarrow> int option" where
  "parse_recording_timestamp parse_ts file_name =
     (case strip_prefix ''recording_'' file_name of
        None \<Rightarrow> None
      | Some stem \<Rightarrow>
          (case or_else (or_else (strip_suffix ''.h265'' stem) (strip_suffix ''.h264'' stem)) (strip_suffix ''.wav'' stem) of
             None \<Rightarrow> None
           | Some name \<Rightarrow>
               (case split_at_checked TS_LEN name of
                  None \<Rightarrow> None
                | Some (ts, rest) \<Rightarrow>
                    let numbered = (case strip_prefix ''-'' rest of
                          None \<Rightarrow> False | Some n \<Rightarrow> n \<noteq> [] \<and> list_all (\<lambda>c. digit_value c \<noteq> None) n)
                    in if rest \<noteq> [] \<and> \<not> numbered then None else parse_ts ts)))"

text \<open>
  Times in seconds since the epoch. The directory is what reading it returned, each entry a name, or
  \<open>None\<close> when it is not UTF-8; removing a name may fail. Returned: how many were removed, and what is left.
\<close>

definition purge_old_recordings ::
    "(string \<Rightarrow> int option) \<Rightarrow> (string \<Rightarrow> bool) \<Rightarrow> int \<Rightarrow> nat \<Rightarrow> string option list option \<Rightarrow> nat \<times> string option list" where
  "purge_old_recordings parse_ts remove_ok now retention_days entries =
     (case entries of
        None \<Rightarrow> (0, [])
      | Some names \<Rightarrow>
          if retention_days = 0 then (0, names)
          else
            let cutoff = now - int retention_days * 86400;
                goes = (\<lambda>e. case e of None \<Rightarrow> False
                  | Some name \<Rightarrow> (case parse_recording_timestamp parse_ts name of
                      None \<Rightarrow> False | Some ts \<Rightarrow> ts < cutoff \<and> remove_ok name))
            in foldl (\<lambda>(removed, left) e. if goes e then (removed + 1, left) else (removed, left @ [e])) (0, []) names)"


section \<open>A new file never replaces one\<close>

lemma split_extension_join: "split_extension name = (stem, ext) \<Longrightarrow> stem @ ext = name"
proof -
  assume s: "split_extension name = (stem, ext)"
  let ?tail = "takeWhile (\<lambda>c. c \<noteq> DOT) (rev name)" and ?before = "dropWhile (\<lambda>c. c \<noteq> DOT) (rev name)"
  have d: "drop (length ?tail) (rev name) = ?before" by (simp add: dropWhile_eq_drop)
  have s: "(if name = ''..'' \<or> length ?before \<le> 1 then (name, []) else (rev (drop 1 ?before), DOT # rev ?tail)) = (stem, ext)"
    using s unfolding split_extension_def Let_def d .
  show "stem @ ext = name"
  proof (cases "name = ''..'' \<or> length ?before \<le> 1")
    case True
    with s show ?thesis by simp
  next
    case False
    then obtain c cs where b: "?before = c # cs" by (cases ?before) auto
    then have c: "c = DOT" using hd_dropWhile [of "\<lambda>c. c \<noteq> DOT" "rev name"] by auto
    have "rev name = ?tail @ c # cs" using b takeWhile_dropWhile_id [of "\<lambda>c. c \<noteq> DOT" "rev name"] by simp
    then have "name = rev cs @ c # rev ?tail" by (metis append.assoc append_Cons append_Nil rev.simps(2) rev_append rev_rev_ident)
    moreover have "stem = rev cs" "ext = DOT # rev ?tail"
      using s False b by simp_all
    ultimately show ?thesis by (simp only: c)
  qed
qed

lemma decimal_inj: "decimal m = decimal n \<longleftrightarrow> m = n"
  by (metis option.inject parse_decimal_decimal)

text \<open>The names tried, in order.\<close>

definition tried_names :: "string \<Rightarrow> string list" where
  "tried_names name = (case split_extension name of (stem, ext) \<Rightarrow> name # map (numbered_name stem ext) [2..<100])"

lemma tried_names_distinct: "distinct (tried_names name)"
proof (cases "split_extension name")
  case (Pair stem ext)
  have "name \<noteq> numbered_name stem ext n" for n
    using split_extension_join [OF Pair] by (auto simp: numbered_name_def)
  moreover have "inj_on (numbered_name stem ext) A" for A
    by (rule inj_onI) (simp add: numbered_name_def decimal_inj)
  ultimately show ?thesis by (auto simp: tried_names_def Pair distinct_map simp del: upt_rec_numeral)
qed

lemma length_tried_names: "length (tried_names name) = 99"
  by (simp add: tried_names_def split: prod.splits del: upt_rec_numeral)

lemma try_names_search:
  "try_names open_new stem ext c (map f ns) = None \<or> (\<exists>p. try_names open_new stem ext c (map f ns) = Some p \<and> open_new p = Created)"
  by (induction ns arbitrary: c) (auto split: create_result.splits)

lemma try_names_find:
  assumes "\<And>p. open_new p = (if p \<in> set taken then AlreadyExists else Created)"
  shows "try_names open_new stem ext c (ns @ [k]) = find (\<lambda>p. p \<notin> set taken) (c # map (numbered_name stem ext) ns)"
  by (induction ns arbitrary: c) (simp_all add: assms)

lemma create_new_file_find:
  "create_new_file True (\<lambda>p. if p \<in> set taken then AlreadyExists else Created) name
     = find (\<lambda>p. p \<notin> set taken) (tried_names name)"
proof (cases "split_extension name")
  case (Pair stem ext)
  have "[2..<101] = [2..<100] @ [100]" by (simp add: upt_rec)
  then show ?thesis
    by (simp only: create_new_file_def Pair prod.case not_True_eq_False if_False tried_names_def
        try_names_find [of "\<lambda>p. if p \<in> set taken then AlreadyExists else Created", OF refl])
qed

text \<open>
  A recording never replaces a file: the name the recorder settles on was created by it, and while fewer
  than 99 files have the name's variants there is one that is free.
\<close>

theorem new_recording_never_overwrites:
  assumes "length taken < 99"
  shows "\<exists>p. create_new_file True (\<lambda>p. if p \<in> set taken then AlreadyExists else Created) name = Some p
    \<and> p \<notin> set taken \<and> p \<in> set (tried_names name)"
proof -
  have "\<not> set (tried_names name) \<subseteq> set taken"
  proof
    assume "set (tried_names name) \<subseteq> set taken"
    then have "card (set (tried_names name)) \<le> length taken"
      by (metis card_length card_mono finite_set le_trans)
    then show False using assms tried_names_distinct [of name]
      by (simp add: distinct_card length_tried_names)
  qed
  then obtain q where "q \<in> set (tried_names name)" "q \<notin> set taken" by blast
  then have "find (\<lambda>p. p \<notin> set taken) (tried_names name) \<noteq> None" by (auto simp: find_None_iff)
  then show ?thesis unfolding create_new_file_find by (auto simp: find_Some_iff)
qed

theorem new_recording_never_overwrites_witness:
  "length [''r.wav'', ''r-2.wav''] < 99 \<and>
   create_new_file True (\<lambda>p. if p \<in> set [''r.wav'', ''r-2.wav''] then AlreadyExists else Created) ''r.wav'' \<noteq> None"
  using new_recording_never_overwrites [of "[''r.wav'', ''r-2.wav'']" "''r.wav''"] by fastforce

section \<open>What the purge recognises\<close>

lemma strip_prefix_append [simp]: "strip_prefix p (p @ s) = Some s"
  by (simp add: strip_prefix_def)

lemma strip_suffix_iff: "strip_suffix p s = Some a \<longleftrightarrow> s = a @ p"
  unfolding strip_suffix_def
  by (auto split: if_splits) (metis append_take_drop_id)

lemma strip_suffix_none: "last s \<noteq> last p \<Longrightarrow> p \<noteq> [] \<Longrightarrow> strip_suffix p s = None"
  by (cases "strip_suffix p s") (auto simp: strip_suffix_iff)

definition recording_extensions :: "string list" where
  "recording_extensions = [''.h265'', ''.h264'', ''.wav'']"

lemma parse_named:
  assumes "ext \<in> set recording_extensions" "length ts = TS_LEN"
    and "rest = [] \<or> (\<exists>n. rest = ''-'' @ decimal n)"
  shows "parse_recording_timestamp parse_ts (''recording_'' @ ts @ rest @ ext) = parse_ts ts"
proof -
  let ?s = "ts @ rest @ ext"
  have ext: "or_else (or_else (strip_suffix ''.h265'' ?s) (strip_suffix ''.h264'' ?s)) (strip_suffix ''.wav'' ?s) = Some (ts @ rest)"
    using assms(1) strip_suffix_iff [of ext ?s "ts @ rest"]
      strip_suffix_none [of ?s "''.h265''"] strip_suffix_none [of ?s "''.h264''"]
    by (auto simp: recording_extensions_def or_else_def)
  have split: "split_at_checked TS_LEN (ts @ rest) = Some (ts, rest)"
    using assms(2,3) by (auto simp: split_at_checked_def nth_append)
  have "rest \<noteq> [] \<longrightarrow> (\<exists>n. strip_prefix ''-'' rest = Some (decimal n))"
    using assms(3) by (auto simp: strip_prefix_def)
  then show ?thesis
    using decimal_digits decimal_nonempty
    by (auto simp: parse_recording_timestamp_def ext split Let_def simp del: append_assoc append.simps)
qed


lemma create_new_file_tried:
  assumes "create_new_file dir_ok open_new name = Some p"
  shows "p \<in> set (tried_names name) \<and> open_new p = Created"
proof (cases "split_extension name")
  case (Pair stem ext)
  have gen: "try_names open_new stem ext c (ns @ [k]) = Some p \<Longrightarrow> p \<in> set (c # map (numbered_name stem ext) ns) \<and> open_new p = Created"
    for c k ns
    by (induction ns arbitrary: c) (auto split: create_result.splits)
  have "[2..<101] = [2..<100] @ [100]" by (simp add: upt_rec)
  with assms Pair gen [of name "[2..<100]" 100] show ?thesis
    by (simp add: create_new_file_def tried_names_def split: if_splits del: upt_rec_numeral)
qed

lemma split_default_name:
  assumes "ext \<in> set recording_extensions" "DOT \<notin> set ts"
  shows "split_extension (''recording_'' @ ts @ ext) = (''recording_'' @ ts, ext)"
proof -
  obtain e where e: "ext = DOT # e" "DOT \<notin> set e" using assms(1) by (auto simp: recording_extensions_def DOT_def)
  have "takeWhile (\<lambda>c. c \<noteq> DOT) (rev e @ DOT # rev ts @ rev ''recording_'') = rev e"
    using e(2) by (subst takeWhile_append2) auto
  then have t: "takeWhile (\<lambda>c. c \<noteq> DOT) (rev (''recording_'' @ ts @ ext)) = rev e"
    unfolding rev_append by (simp add: e(1))
  have "drop (length (rev e)) (rev (''recording_'' @ ts @ ext)) = DOT # rev ts @ rev ''recording_''"
    unfolding rev_append by (simp add: e(1))
  with t show ?thesis by (simp add: split_extension_def Let_def e(1))
qed

text \<open>
  C2. The purge recognises every recording the engine makes, also one whose name was numbered because another
  of the same second existed: whatever name the recorder settled on for a recording of time \<open>ts\<close>, the purge reads
  back \<open>ts\<close>'s time.
\<close>

theorem purge_recognises_recordings:
  assumes "ext \<in> set recording_extensions" "length ts = TS_LEN" "DOT \<notin> set ts"
    and "create_new_file dir_ok open_new (''recording_'' @ ts @ ext) = Some p"
  shows "parse_recording_timestamp parse_ts p = parse_ts ts"
proof -
  from create_new_file_tried [OF assms(4)] split_default_name [OF assms(1,3)]
  have "p = ''recording_'' @ ts @ [] @ ext \<or> (\<exists>n. p = ''recording_'' @ ts @ (''-'' @ decimal n) @ ext)"
    by (auto simp: tried_names_def numbered_name_def simp del: upt_rec_numeral)
  then show ?thesis using parse_named [OF assms(1,2), of "[]" parse_ts] parse_named [OF assms(1,2), of "''-'' @ decimal _" parse_ts]
    by blast
qed

lemma default_name_numbered:
  "create_new_file True (\<lambda>p. if p = ''recording_2026-04-24T01-59-03.wav'' then AlreadyExists else Created)
     ''recording_2026-04-24T01-59-03.wav'' = Some ''recording_2026-04-24T01-59-03-2.wav''"
  by code_simp

theorem purge_recognises_recordings_witness:
  "parse_recording_timestamp (\<lambda>ts. if ts = ''2026-04-24T01-59-03'' then Some 7 else None) ''recording_2026-04-24T01-59-03-2.wav'' = Some 7"
  using purge_recognises_recordings [of "''.wav''" "''2026-04-24T01-59-03''" True
      "\<lambda>p. if p = ''recording_2026-04-24T01-59-03.wav'' then AlreadyExists else Created"
      "''recording_2026-04-24T01-59-03-2.wav''" "\<lambda>ts. if ts = ''2026-04-24T01-59-03'' then Some 7 else None"]
    default_name_numbered
  by (simp add: recording_extensions_def TS_LEN_def DOT_def)

lemma purge_fold:
  "foldl (\<lambda>(removed, left) e. if goes e then (removed + 1, left) else (removed, left @ [e])) (n, acc) names
    = (n + length (filter goes names), acc @ filter (\<lambda>e. \<not> goes e) names)"
  by (induction names arbitrary: n acc) simp_all

text \<open>
  The purge deletes exactly the recordings older than the retention, and nothing else: what is left, in
  order, is every entry whose name is not a recording's, every recording not older than the cutoff, and those
  the system refused to remove; with a retention of 0 nothing is deleted.
\<close>

theorem purge_exact:
  "purge_old_recordings parse_ts remove_ok now days (Some names) =
     (length names - length (filter (\<lambda>e. \<not> (\<exists>name ts. e = Some name \<and> parse_recording_timestamp parse_ts name = Some ts
         \<and> days \<noteq> 0 \<and> ts < now - int days * 86400 \<and> remove_ok name)) names),
      filter (\<lambda>e. \<not> (\<exists>name ts. e = Some name \<and> parse_recording_timestamp parse_ts name = Some ts
         \<and> days \<noteq> 0 \<and> ts < now - int days * 86400 \<and> remove_ok name)) names)"
proof (cases "days = 0")
  case False
  let ?goes = "\<lambda>e. case e of None \<Rightarrow> False | Some name \<Rightarrow> (case parse_recording_timestamp parse_ts name of
      None \<Rightarrow> False | Some ts \<Rightarrow> ts < now - int days * 86400 \<and> remove_ok name)"
  have g: "?goes = (\<lambda>e. \<exists>name ts. e = Some name \<and> parse_recording_timestamp parse_ts name = Some ts
      \<and> days \<noteq> 0 \<and> ts < now - int days * 86400 \<and> remove_ok name)"
    using False by (intro ext) (auto split: option.split)
  have "length (filter p names) = length names - length (filter (\<lambda>e. \<not> p e) names)" for p
    using sum_length_filter_compl [of p names] by simp
  have "purge_old_recordings parse_ts remove_ok now days (Some names) = (length (filter ?goes names), filter (\<lambda>e. \<not> ?goes e) names)"
    using False by (simp only: purge_old_recordings_def Let_def option.case if_False purge_fold) simp
  also have "length (filter ?goes names) = length names - length (filter (\<lambda>e. \<not> ?goes e) names)" by fact
  finally show ?thesis unfolding g .
qed (simp add: purge_old_recordings_def)

section \<open>What is recorded\<close>

text \<open>A NAL unit as it goes to the file.\<close>

definition annexb_nal :: "bytes \<Rightarrow> bytes" where
  "annexb_nal nal = (if nal = [] then [] else if starts_with_annexb nal then nal else START_CODE @ nal)"

datatype rec_op = RecNal bytes | RecFlush | RecClose

fun rec_step :: "rec_op \<Rightarrow> recorder \<times> disk_file \<Rightarrow> recorder \<times> disk_file" where
  "rec_step (RecNal nal) = write_nal nal"
| "rec_step RecFlush = recorder_flush"
| "rec_step RecClose = recorder_close"

definition rec_run :: "rec_op list \<Rightarrow> recorder \<times> disk_file \<Rightarrow> recorder \<times> disk_file" where
  "rec_run ops rf = foldl (\<lambda>s op. rec_step op s) rf ops"

fun offered :: "rec_op \<Rightarrow> bytes" where
  "offered (RecNal nal) = annexb_nal nal"
| "offered _ = []"

text \<open>What the file and the writer hold, against what was offered: a prefix of it, all of it while nothing failed.\<close>

definition rec_inv :: "bytes \<Rightarrow> recorder \<times> disk_file \<Rightarrow> bool" where
  "rec_inv all rf = (case rf of (r, f) \<Rightarrow>
     (case rc_writer r of
        None \<Rightarrow> (\<exists>n. f_data f = take n all)
      | Some w \<Rightarrow> appending w f \<and> 0 < w_cap w \<and> (\<exists>n. written w f = take n all) \<and> (\<not> rc_poisoned r \<longrightarrow> written w f = all)))"

lemma write_nal_cases:
  assumes "rc_writer r = Some w" "\<not> rc_poisoned r" "nal \<noteq> []" "appending w f" "0 < w_cap w"
  obtains ok w' f' where "write_nal nal (r, f) =
      (if ok then r\<lparr>rc_writer := Some w', rc_bytes_written := rc_bytes_written r + length (annexb_nal nal), rc_nal_count := rc_nal_count r + 1\<rparr>
       else r\<lparr>rc_writer := Some w', rc_poisoned := True\<rparr>, f')"
    "appending w' f'" "w_cap w' = w_cap w" "\<exists>n. written w' f' = written w f @ take n (annexb_nal nal)"
    "ok \<Longrightarrow> written w' f' = written w f @ annexb_nal nal" "f_io f = [] \<Longrightarrow> ok \<and> f_io f' = []"
proof (cases "starts_with_annexb nal")
  case True
  obtain ok w' f' where b: "buf_write_all nal w f = (ok, w', f')" by (metis prod_cases3)
  note a = buf_write_all_appends [OF assms(4,5) b]
  have "f_io f = [] \<Longrightarrow> ok \<and> f_io f' = []" using buf_write_all_ok [of f nal w] b by auto
  with a show thesis
    by (intro that [of ok w' f']) (use assms True b in \<open>auto simp: write_nal_def annexb_nal_def\<close>)
next
  case False
  obtain ok1 w1 f1 where b1: "buf_write_all START_CODE w f = (ok1, w1, f1)" by (metis prod_cases3)
  note a1 = buf_write_all_appends [OF assms(4,5) b1]
  have io1: "f_io f = [] \<Longrightarrow> ok1 \<and> f_io f1 = []" using buf_write_all_ok [of f START_CODE w] b1 by auto
  show thesis
  proof (cases ok1)
    case no: False
    obtain n where "written w1 f1 = written w f @ take n START_CODE" using a1 by blast
    then have "written w1 f1 = written w f @ take (min n (length START_CODE)) (START_CODE @ nal)" by (simp add: min_def)
    then have "\<exists>m. written w1 f1 = written w f @ take m (annexb_nal nal)"
      using False assms(3) by (intro exI [of _ "min n (length START_CODE)"]) (simp add: annexb_nal_def del: take_append)
    moreover have "write_nal nal (r, f) = (r\<lparr>rc_writer := Some w1, rc_poisoned := True\<rparr>, f1)"
      using assms(1-3) False b1 no by (simp add: write_nal_def)
    ultimately show thesis using a1 io1 no by (intro that [of False w1 f1]) simp_all
  next
    case yes: True
    obtain ok w' f' where b: "buf_write_all nal w1 f1 = (ok, w', f')" by (metis prod_cases3)
    have ap: "appending w1 f1" "0 < w_cap w1" using a1 assms(5) by simp_all
    note a = buf_write_all_appends [OF ap b]
    obtain n where "written w' f' = written w1 f1 @ take n nal" using a by blast
    then have "written w' f' = written w f @ take (length START_CODE + n) (annexb_nal nal)"
      using a1 yes False assms(3) by (simp add: annexb_nal_def)
    then have "\<exists>m. written w' f' = written w f @ take m (annexb_nal nal)" by blast
    moreover have "f_io f = [] \<Longrightarrow> ok \<and> f_io f' = []" using io1 buf_write_all_ok [of f1 nal w1] b by auto
    moreover have "ok \<Longrightarrow> written w' f' = written w f @ annexb_nal nal"
      using a a1 yes False assms(3) by (simp add: annexb_nal_def)
    moreover have "write_nal nal (r, f) =
      (if ok then r\<lparr>rc_writer := Some w', rc_bytes_written := rc_bytes_written r + length (annexb_nal nal), rc_nal_count := rc_nal_count r + 1\<rparr>
       else r\<lparr>rc_writer := Some w', rc_poisoned := True\<rparr>, f')"
      using assms(1-3) False b b1 yes by (simp add: write_nal_def annexb_nal_def)
    ultimately show thesis using a a1 by (intro that [of ok w' f']) simp_all
  qed
qed

lemma take_prefix_append: "xs = take n ys \<Longrightarrow> \<exists>m. xs = take m (ys @ zs)"
  by (rule exI [of _ "min n (length ys)"]) (simp add: min_def)

lemma rec_inv_step:
  assumes "rec_inv all rf"
  shows "rec_inv (all @ offered op) (rec_step op rf)"
proof (cases rf)
  case (Pair r f)
  show ?thesis
  proof (cases "rc_writer r")
    case None
    with assms Pair have "\<exists>m. f_data f = take m (all @ offered op)" using take_prefix_append by (force simp: rec_inv_def)
    then show ?thesis
      using None by (cases op) (simp_all add: Pair rec_inv_def write_nal_def recorder_flush_def recorder_close_def)
  next
    case (Some w)
    have inv: "appending w f" "0 < w_cap w" "\<exists>n. written w f = take n all" "\<not> rc_poisoned r \<longrightarrow> written w f = all"
      using assms Pair Some by (simp_all add: rec_inv_def)
    show ?thesis
    proof (cases op)
      case (RecNal nal)
      show ?thesis
      proof (cases "rc_poisoned r \<or> nal = []")
        case True
        obtain n where "written w f = take n all" using inv(3) by blast
        from take_prefix_append [OF this] inv Some True show ?thesis
          by (auto simp: Pair RecNal rec_inv_def write_nal_def annexb_nal_def simp del: take_append)
      next
        case False
        obtain ok w' f' where w: "write_nal nal (r, f) =
            (if ok then r\<lparr>rc_writer := Some w', rc_bytes_written := rc_bytes_written r + length (annexb_nal nal), rc_nal_count := rc_nal_count r + 1\<rparr>
             else r\<lparr>rc_writer := Some w', rc_poisoned := True\<rparr>, f')"
          "appending w' f'" "w_cap w' = w_cap w" "\<exists>n. written w' f' = written w f @ take n (annexb_nal nal)"
          "ok \<Longrightarrow> written w' f' = written w f @ annexb_nal nal"
          using write_nal_cases [OF Some _ _ inv(1,2), of nal] False by metis
        obtain n where "written w' f' = written w f @ take n (annexb_nal nal)" using w(4) by blast
        then have "written w' f' = take (length all + n) (all @ annexb_nal nal)" using inv(4) False by simp
        then have "\<exists>m. written w' f' = take m (all @ annexb_nal nal)" by blast
        with w(1-3,5) inv False show ?thesis by (cases ok) (simp_all add: Pair RecNal rec_inv_def del: take_append)
      qed
    next
      case RecFlush
      obtain ok w' f' where "flush_buf w f = (ok, w', f')" by (metis prod_cases3)
      with flush_buf_appends [OF inv(1) this] inv Some show ?thesis
        by (auto simp: Pair RecFlush rec_inv_def recorder_flush_def)
    next
      case RecClose
      obtain ok w' f' where c: "flush_buf w f = (ok, w', f')" by (metis prod_cases3)
      note c1 = flush_buf_appends [OF inv(1) c]
      obtain ok2 w2 f2 where d: "flush_buf w' f' = (ok2, w2, f2)" by (metis prod_cases3)
      have "written w2 f2 = written w f" using flush_buf_appends [of w' f' ok2 w2 f2] c1 d by simp
      moreover obtain n where "written w f = take n all" using inv(3) by blast
      ultimately have "f_data f2 @ w_buf w2 = take n all" by (simp add: written_def)
      then have "f_data f2 = take (min n (length (f_data f2))) all" by (metis append_eq_conv_conj take_take min.commute)
      then show ?thesis using Some c d by (auto simp: Pair RecClose rec_inv_def recorder_close_def buf_drop_def)
    qed
  qed
qed


lemma rec_run_inv: "rec_inv all rf \<Longrightarrow> rec_inv (all @ concat (map offered ops)) (rec_run ops rf)"
proof (induction ops arbitrary: all rf)
  case (Cons op ops)
  from Cons.IH [OF rec_inv_step [OF Cons.prems, of op]] show ?case by (simp add: rec_run_def)
qed (simp add: rec_run_def)

lemma open_inv: "recorder_open dir_ok open_new path = Some r \<Longrightarrow> rec_inv [] (r, new_file io)"
  by (auto simp: recorder_open_def rec_inv_def buf_writer_def appending_def written_def new_file_def)

lemma rec_close_ok:
  assumes "rec_inv all (r, f)" "rc_writer r = Some w" "\<not> rc_poisoned r" "f_io f = []"
  shows "f_data (snd (recorder_close (r, f))) = all"
proof -
  obtain w' f' where c: "flush_buf w f = (True, w', f')" "f_io f' = []" using flush_buf_ok [OF assms(4)] by blast
  have "appending w f" "written w f = all" using assms(1-3) by (simp_all add: rec_inv_def)
  then have "w_buf w' = []" "f_data f' = all" using flush_buf_appends [OF _ c(1)] by (auto simp: written_def)
  then show ?thesis using assms(2) c by (simp add: recorder_close_def buf_drop_def flush_buf_def)
qed

lemma write_nal_ok:
  assumes "rc_writer r = Some w" "\<not> rc_poisoned r" "nal \<noteq> []" "appending w f" "0 < w_cap w" "f_io f = []"
  shows "\<exists>w' f'. write_nal nal (r, f) = (r\<lparr>rc_writer := Some w',
      rc_bytes_written := rc_bytes_written r + length (annexb_nal nal), rc_nal_count := rc_nal_count r + 1\<rparr>, f') \<and> f_io f' = []"
proof (rule write_nal_cases [OF assms(1-5)])
  fix ok w' f'
  assume w: "write_nal nal (r, f) =
        (if ok then r\<lparr>rc_writer := Some w', rc_bytes_written := rc_bytes_written r + length (annexb_nal nal), rc_nal_count := rc_nal_count r + 1\<rparr>
         else r\<lparr>rc_writer := Some w', rc_poisoned := True\<rparr>, f')" and io: "f_io f = [] \<Longrightarrow> ok \<and> f_io f' = []"
  show ?thesis using w io [OF assms(6)] by (intro exI [of _ w'] exI [of _ f']) simp
qed

lemma rec_run_ok:
  assumes "rec_inv all (r, f)" "rc_writer r = Some w" "\<not> rc_poisoned r" "f_io f = []"
  shows "\<exists>r' f' w'. rec_run (map RecNal nals) (r, f) = (r', f') \<and> rc_writer r' = Some w' \<and> \<not> rc_poisoned r' \<and> f_io f' = []
    \<and> rec_inv (all @ concat (map annexb_nal nals)) (r', f')
    \<and> rc_bytes_written r' = rc_bytes_written r + length (concat (map annexb_nal nals))
    \<and> rc_nal_count r' = rc_nal_count r + length (filter (\<lambda>n. n \<noteq> []) nals)"
  using assms
proof (induction nals arbitrary: all r f w)
  case (Cons nal nals)
  have inv: "rec_inv (all @ annexb_nal nal) (write_nal nal (r, f))" using rec_inv_step [OF Cons.prems(1), of "RecNal nal"] by simp
  show ?case
  proof (cases "nal = []")
    case True
    with Cons.IH [OF Cons.prems] show ?thesis by (simp add: rec_run_def write_nal_def annexb_nal_def)
  next
    case False
    have ap: "appending w f" "0 < w_cap w" using Cons.prems by (simp_all add: rec_inv_def)
    obtain w' f' where w: "write_nal nal (r, f) = (r\<lparr>rc_writer := Some w',
          rc_bytes_written := rc_bytes_written r + length (annexb_nal nal), rc_nal_count := rc_nal_count r + 1\<rparr>, f')" "f_io f' = []"
      using write_nal_ok [OF Cons.prems(2,3) False ap Cons.prems(4)] by blast
    let ?r = "r\<lparr>rc_writer := Some w', rc_bytes_written := rc_bytes_written r + length (annexb_nal nal), rc_nal_count := rc_nal_count r + 1\<rparr>"
    have "rc_writer ?r = Some w'" "\<not> rc_poisoned ?r" using Cons.prems(3) by simp_all
    from Cons.IH [OF inv [unfolded w(1)] this w(2)]
    obtain r2 f2 w2 where "rec_run (map RecNal nals) (?r, f') = (r2, f2)" "rc_writer r2 = Some w2" "\<not> rc_poisoned r2" "f_io f2 = []"
        "rec_inv ((all @ annexb_nal nal) @ concat (map annexb_nal nals)) (r2, f2)"
        "rc_bytes_written r2 = rc_bytes_written ?r + length (concat (map annexb_nal nals))"
        "rc_nal_count r2 = rc_nal_count ?r + length (filter (\<lambda>n. n \<noteq> []) nals)"
      by blast
    with False w(1) show ?thesis by (simp add: rec_run_def)
  qed
qed (simp add: rec_run_def)

text \<open>
  C32. Whatever the storage does, a recording is only ever cut short: after any sequence of NAL units, flushes
  and closes, with any operation failing part way, the file is a prefix of the Annex B stream of what was offered.
\<close>

theorem recording_only_cut_short:
  assumes "recorder_open dir_ok open_new path = Some r"
  shows "\<exists>n. f_data (snd (rec_run (ops @ [RecClose]) (r, new_file io))) = take n (concat (map offered ops))"
proof -
  have "rec_inv (concat (map offered (ops @ [RecClose]))) (rec_run (ops @ [RecClose]) (r, new_file io))"
    using rec_run_inv [OF open_inv [OF assms, of io], of "ops @ [RecClose]"] by simp
  moreover have "rc_writer (fst (rec_run (ops @ [RecClose]) (r, new_file io))) = None"
    by (simp add: rec_run_def recorder_close_def split: prod.splits option.splits)
  ultimately show ?thesis by (auto simp: rec_inv_def split: prod.splits)
qed

lemma open_example: "\<exists>r. recorder_open True (\<lambda>_. Created) ''r.h265'' = Some r"
  by (simp add: recorder_open_def create_new_file_def split: prod.splits)

text \<open>
  On storage that works a closed recording is exactly the Annex B stream of every non-empty NAL unit
  offered, a start code put before those without one, and the counters say so.
\<close>

theorem recording_exact:
  assumes "recorder_open dir_ok open_new path = Some r" "rec_run (map RecNal nals) (r, new_file []) = (r', f')"
  shows "f_data (snd (recorder_close (r', f'))) = concat (map annexb_nal nals)
    \<and> rc_bytes_written r' = length (concat (map annexb_nal nals))
    \<and> rc_nal_count r' = length (filter (\<lambda>n. n \<noteq> []) nals) \<and> recorder_is_open r'"
proof -
  have r: "rc_writer r = Some (buf_writer (256 * 1024))" "\<not> rc_poisoned r" "rc_bytes_written r = 0" "rc_nal_count r = 0"
    using assms(1) by (auto simp: recorder_open_def)
  have "f_io (new_file []) = []" by (simp add: new_file_def)
  from rec_run_ok [OF open_inv [OF assms(1)] r(1,2) this, of nals] assms(2) r(3,4) show ?thesis
    using rec_close_ok by (auto simp: recorder_is_open_def)
qed


lemma exact_example:
  "rec_run (map RecNal [[0, 0, 1, 64], [], [65, 2]]) (\<lparr>rc_path = ''r.h265'', rc_writer = Some \<lparr>w_buf = [], w_cap = 262144\<rparr>,
      rc_bytes_written = 0, rc_nal_count = 0, rc_poisoned = False\<rparr>, new_file [])
   = (\<lparr>rc_path = ''r.h265'', rc_writer = Some \<lparr>w_buf = [0, 0, 1, 64, 0, 0, 0, 1, 65, 2], w_cap = 262144\<rparr>,
      rc_bytes_written = 10, rc_nal_count = 2, rc_poisoned = False\<rparr>, new_file [])"
  by (simp add: rec_run_def write_nal_def buf_write_all_def Let_def starts_with_annexb_def START_CODE_def new_file_def)

lemma open_example_record:
  "recorder_open True (\<lambda>_. Created) ''r.h265'' = Some \<lparr>rc_path = ''r.h265'', rc_writer = Some \<lparr>w_buf = [], w_cap = 262144\<rparr>,
      rc_bytes_written = 0, rc_nal_count = 0, rc_poisoned = False\<rparr>"
  by (simp add: recorder_open_def create_new_file_def buf_writer_def split: prod.splits)

theorem recording_exact_witness:
  "f_data (snd (recorder_close (\<lparr>rc_path = ''r.h265'', rc_writer = Some \<lparr>w_buf = [0, 0, 1, 64, 0, 0, 0, 1, 65, 2], w_cap = 262144\<rparr>,
      rc_bytes_written = 10, rc_nal_count = 2, rc_poisoned = False\<rparr>, new_file []))) = [0, 0, 1, 64, 0, 0, 0, 1, 65, 2]"
  using recording_exact [OF open_example_record exact_example]
  by (simp add: annexb_nal_def starts_with_annexb_def START_CODE_def)

theorem recording_only_cut_short_witness:
  "recorder_open True (\<lambda>_. Created) ''r.h265'' \<noteq> None \<and>
   (\<exists>r n. f_data (snd (rec_run ([RecNal [65], RecFlush, RecNal [66, 67]] @ [RecClose]) (r, new_file [Some 3, None])))
      = take n [0, 0, 0, 1, 65, 0, 0, 0, 1, 66, 67])"
proof -
  obtain r where r: "recorder_open True (\<lambda>_. Created) ''r.h265'' = Some r" using open_example by blast
  have c: "concat (map offered [RecNal [65], RecFlush, RecNal [66, 67]]) = [0, 0, 0, 1, 65, 0, 0, 0, 1, 66, 67]"
    by (simp add: annexb_nal_def starts_with_annexb_def START_CODE_def)
  show ?thesis
    using recording_only_cut_short [OF r, of "[RecNal [65], RecFlush, RecNal [66, 67]]" "[Some 3, None]", unfolded c] unfolding r by blast
qed

end
