(* ===== verification/WavRecorder.thy ===== *)
theory WavRecorder imports Recording IeeeFloat begin

text \<open>
  \<open>recording/audio.rs\<close>: the WAV recorder. Its \<open>u32\<close> counters are naturals: \<open>wav_inv\<close> keeps them at most
  \<open>MAX_DATA_BYTES\<close>, so none of the sums and differences of the code wraps.
\<close>

definition MAX_DATA_BYTES :: nat where "MAX_DATA_BYTES = 2 ^ 32 - 1 - 36"

record audio_recorder =
  ar_path :: string
  ar_writer :: "writer option"
  ar_sample_rate :: u32
  ar_channels :: u16
  ar_data_bytes :: nat
  ar_patched_bytes :: nat
  ar_max_data_bytes :: nat
  ar_poisoned :: bool

text \<open>A sample as 16-bit PCM.\<close>

definition pcm_i16 :: "fl \<Rightarrow> int" where
  "pcm_i16 s = f_as_i16 (f_mul b32 (f_clamp (Fin (-1)) (Fin 1) s) (Fin 32767))"

definition i16_le :: "int \<Rightarrow> bytes" where
  "i16_le i = le_enc 2 (nat (i mod 65536))"

definition wav_header :: "u32 \<Rightarrow> u16 \<Rightarrow> u32 \<Rightarrow> u32 \<Rightarrow> bytes" where
  "wav_header sample_rate channels riff_size data_size =
     (let bits_per_sample = 16 :: u16;
          byte_rate = sample_rate * ucast channels * ucast (bits_per_sample div 8);
          block_align = channels * (bits_per_sample div 8)
      in [0x52, 0x49, 0x46, 0x46] @ u32_le riff_size @ [0x57, 0x41, 0x56, 0x45] @ [0x66, 0x6D, 0x74, 0x20]
         @ u32_le 16 @ u16_le 1 @ u16_le channels @ u32_le sample_rate @ u32_le byte_rate
         @ u16_le block_align @ u16_le bits_per_sample @ [0x64, 0x61, 0x74, 0x61] @ u32_le data_size)"

definition write_header :: "audio_recorder \<times> disk_file \<Rightarrow> bool \<times> audio_recorder \<times> disk_file" where
  "write_header rf = (case rf of (r, f) \<Rightarrow>
     case ar_writer r of None \<Rightarrow> (False, r, f)
     | Some w \<Rightarrow>
         (case buf_write_all (wav_header (ar_sample_rate r) (ar_channels r) 0 0) w f of
            (True, w, f) \<Rightarrow> (True, r\<lparr>ar_writer := Some w\<rparr>, f)
          | (False, w, f) \<Rightarrow> (False, r\<lparr>ar_writer := Some w, ar_poisoned := True\<rparr>, f)))"

definition patch_sizes :: "audio_recorder \<times> disk_file \<Rightarrow> audio_recorder \<times> disk_file" where
  "patch_sizes rf = (case rf of (r, f) \<Rightarrow>
     case ar_writer r of None \<Rightarrow> (r, f)
     | Some w \<Rightarrow>
         let riff_size = of_nat (36 + ar_data_bytes r) :: u32 in
         case flush_buf w f of (flushed, w, f) \<Rightarrow>
         let r = r\<lparr>ar_writer := Some w\<rparr>; failed = r\<lparr>ar_poisoned := True\<rparr> in
         if \<not> flushed then (failed, f)
         else case file_seek 4 f of (ok, f) \<Rightarrow>
         if \<not> ok then (failed, f)
         else case file_write (u32_le riff_size) f of (ok, _, f) \<Rightarrow>
         if \<not> ok then (failed, f)
         else case file_seek 40 f of (ok, f) \<Rightarrow>
         if \<not> ok then (failed, f)
         else case file_write (u32_le (of_nat (ar_data_bytes r))) f of (ok, _, f) \<Rightarrow>
         if \<not> ok then (failed, f)
         else case file_seek_end f of (ok, f) \<Rightarrow>
         if \<not> ok then (failed, f)
         else (r\<lparr>ar_patched_bytes := ar_data_bytes r\<rparr>, f))"

text \<open>Patch, then drop the writer, which flushes what the patch could not.\<close>

definition wav_close :: "audio_recorder \<times> disk_file \<Rightarrow> audio_recorder \<times> disk_file" where
  "wav_close rf = (case rf of (r, f) \<Rightarrow>
     if ar_writer r = None then (r, f)
     else case patch_sizes (r, f) of (r, f) \<Rightarrow>
       (r\<lparr>ar_writer := None\<rparr>, case ar_writer r of None \<Rightarrow> f | Some w \<Rightarrow> buf_drop w f))"

text \<open>Opening; a header that fails drops the recorder, which closes it.\<close>

definition wav_open ::
    "bool \<Rightarrow> (string \<Rightarrow> create_result) \<Rightarrow> string \<Rightarrow> u32 \<Rightarrow> u16 \<Rightarrow> disk_file \<Rightarrow> audio_recorder option \<times> disk_file" where
  "wav_open dir_ok open_new path sample_rate channels f =
     (case create_new_file dir_ok open_new path of
        None \<Rightarrow> (None, f)
      | Some p \<Rightarrow>
          (case write_header (\<lparr>ar_path = p, ar_writer = Some (buf_writer (64 * 1024)), ar_sample_rate = sample_rate,
                ar_channels = channels, ar_data_bytes = 0, ar_patched_bytes = 0, ar_max_data_bytes = MAX_DATA_BYTES,
                ar_poisoned = False\<rparr>, f) of
             (True, r, f) \<Rightarrow> (Some r, f)
           | (False, r, f) \<Rightarrow> (None, snd (wav_close (r, f)))))"

text \<open>The loop over the blocks: whether it ran to its end.\<close>

fun write_blocks :: "fl list list \<Rightarrow> audio_recorder \<times> disk_file \<Rightarrow> bool \<times> audio_recorder \<times> disk_file" where
  "write_blocks [] rf = (True, rf)"
| "write_blocks (block # blocks) (r, f) =
     (let bs = concat (map (\<lambda>s. i16_le (pcm_i16 s)) block) in
      if ar_max_data_bytes r - ar_data_bytes r < length bs then (False, wav_close (r, f))
      else case ar_writer r of
        None \<Rightarrow> (False, r, f)
      | Some w \<Rightarrow>
          (case buf_write_all bs w f of
             (False, w, f) \<Rightarrow> (False, r\<lparr>ar_writer := Some w, ar_poisoned := True\<rparr>, f)
           | (True, w, f) \<Rightarrow>
               write_blocks blocks (r\<lparr>ar_writer := Some w, ar_data_bytes := ar_data_bytes r + length bs\<rparr>, f)))"

definition second_bytes :: "audio_recorder \<Rightarrow> nat" where
  "second_bytes r = min (2 ^ 32 - 1) (min (2 ^ 32 - 1) (unat (ar_sample_rate r) * unat (ar_channels r)) * 2)"

definition PCM_CHUNK :: nat where "PCM_CHUNK = 1024"

definition write_pcm_f32 :: "fl list \<Rightarrow> audio_recorder \<times> disk_file \<Rightarrow> audio_recorder \<times> disk_file" where
  "write_pcm_f32 samples rf = (case rf of (r, f) \<Rightarrow>
     if ar_poisoned r \<or> samples = [] \<or> ar_writer r = None then (r, f)
     else case write_blocks (chunks PCM_CHUNK samples) (r, f) of
       (False, r, f) \<Rightarrow> (r, f)
     | (True, r, f) \<Rightarrow> if second_bytes r \<le> ar_data_bytes r - ar_patched_bytes r then patch_sizes (r, f) else (r, f))"

definition wav_is_open :: "audio_recorder \<Rightarrow> bool" where
  "wav_is_open r \<longleftrightarrow> ar_writer r \<noteq> None \<and> \<not> ar_poisoned r"


section \<open>The header's sizes, also torn\<close>

lemma le_nat_append: "le_nat (xs @ ys) = le_nat xs + 256 ^ length xs * le_nat ys"
  by (induction xs) (simp_all add: algebra_simps)

text \<open>Overwriting a smaller number by a larger one, byte by byte from the low end, never overshoots.\<close>

lemma torn_le:
  assumes "length a = length b" "le_nat b \<le> le_nat a" "k \<le> length a"
  shows "le_nat (take k a @ drop k b) \<le> le_nat a"
proof -
  have split: "le_nat xs = le_nat (take k xs) + 256 ^ k * le_nat (drop k xs)" if "k \<le> length xs" for xs
    using le_nat_append [of "take k xs" "drop k xs"] that by (simp add: min_absorb2)
  have small: "le_nat (take k a) < 256 ^ k" using le_nat_less [of "take k a"] assms(3) by (simp add: min_absorb2)
  have "256 ^ k * le_nat (drop k b) \<le> le_nat a" using split [of b] assms by linarith
  then have "256 ^ k * le_nat (drop k b) < 256 ^ k * (le_nat (drop k a) + 1)"
    using split [of a] assms(3) small by simp
  then have "le_nat (drop k b) \<le> le_nat (drop k a)" unfolding mult_less_cancel1 by simp
  then have "256 ^ k * le_nat (drop k b) \<le> 256 ^ k * le_nat (drop k a)" by simp
  moreover have "le_nat (take k a @ drop k b) = le_nat (take k a) + 256 ^ k * le_nat (drop k b)"
    using le_nat_append [of "take k a" "drop k b"] assms(3) by (simp add: min_absorb2)
  ultimately show ?thesis using split [of a] assms(3) by linarith
qed

lemma le_nat_u32: "le_nat (u32_le w) = unat w"
  using unat_less_length [of w] by (simp add: u32_le_def le_nat_le_enc)

text \<open>Writing a size field in place.\<close>

lemma write_field:
  assumes "f_pos f = length X" "f_data f = X @ u32_le old @ Y" "unat old \<le> unat new"
    and "file_write (u32_le new) f = (ok, n, f')"
  shows "\<exists>t. f_data f' = X @ u32_le t @ Y \<and> unat t \<le> unat new \<and> (ok \<longrightarrow> t = new)"
proof -
  obtain k where k: "f_data f' = put_at (length X) (take k (u32_le new)) (X @ u32_le old @ Y)" "k \<le> 4" "ok \<longrightarrow> k = 4"
  proof (cases "next_io f")
    case (Pair r f1)
    then have f1: "f_data f1 = X @ u32_le old @ Y" "f_pos f1 = length X" using next_io_fields [OF Pair] assms(1,2) by simp_all
    show thesis
    proof (cases r)
      case None
      with assms(4) Pair f1 show thesis by (intro that [of 4]) (auto simp: file_write_def file_put_def)
    next
      case (Some j)
      have "take j (u32_le new) = take (min j 4) (u32_le new)" by (simp add: min_def)
      with assms(4) Pair f1 Some show thesis by (intro that [of "min j 4"]) (auto simp: file_write_def file_put_def)
    qed
  qed
  have len: "k \<le> length (u32_le new)" "length (u32_le old) = length (u32_le new)" using k(2) by simp_all
  obtain t where t: "take k (u32_le new) @ drop k (u32_le old) = u32_le t"
    using c32le.ex_enc [of "take k (u32_le new) @ drop k (u32_le old)"] k(2) by auto
  have "le_nat (u32_le t) \<le> le_nat (u32_le new)"
    using torn_le [OF len(2) [symmetric], of k] len(1) assms(3) by (simp add: t le_nat_u32)
  then have "unat t \<le> unat new" by (simp only: le_nat_u32)
  moreover have "ok \<longrightarrow> t = new"
    using k(3) t c32le.inj [of t new] by auto
  moreover have "f_data f' = X @ u32_le t @ Y"
    using k(1) put_at_part [OF refl len, of X Y] by (simp add: t [symmetric])
  ultimately show ?thesis by blast
qed

definition wav_mid :: "u32 \<Rightarrow> u16 \<Rightarrow> bytes" where
  "wav_mid sr ch = take 32 (drop 8 (wav_header sr ch 0 0))"

lemma wav_header_parts:
  "wav_header sr ch rs ds = [0x52, 0x49, 0x46, 0x46] @ u32_le rs @ wav_mid sr ch @ u32_le ds"
  "length (wav_mid sr ch) = 32"
  by (simp_all add: wav_header_def wav_mid_def Let_def)

lemma length_wav_header [simp]: "length (wav_header sr ch rs ds) = 44"
  by (simp add: wav_header_parts)

section \<open>The invariant\<close>

definition pcm_bytes :: "fl list \<Rightarrow> bytes" where
  "pcm_bytes samples = concat (map (\<lambda>s. i16_le (pcm_i16 s)) samples)"

lemma length_pcm_bytes [simp]: "length (pcm_bytes samples) = 2 * length samples"
  by (induction samples) (simp_all add: pcm_bytes_def i16_le_def)

lemma pcm_bytes_append: "pcm_bytes (xs @ ys) = pcm_bytes xs @ pcm_bytes ys"
  by (simp add: pcm_bytes_def)

text \<open>The sizes in the header of a file of \<open>n\<close> bytes do not reach past its end.\<close>

definition sizes_ok :: "u32 \<Rightarrow> u32 \<Rightarrow> nat \<Rightarrow> bool" where
  "sizes_ok rs ds n \<longleftrightarrow> (rs = 0 \<or> unat rs + 8 \<le> n) \<and> (ds = 0 \<or> unat ds + 44 \<le> n)"

abbreviation header_of :: "audio_recorder \<Rightarrow> u32 \<Rightarrow> u32 \<Rightarrow> bytes" where
  "header_of r \<equiv> wav_header (ar_sample_rate r) (ar_channels r)"

definition wav_inv :: "bytes \<Rightarrow> audio_recorder \<times> disk_file \<Rightarrow> bool" where
  "wav_inv all rf = (case rf of (r, f) \<Rightarrow>
     (case ar_writer r of
        None \<Rightarrow> \<exists>rs ds n. f_data f = take n (header_of r rs ds @ all) \<and> sizes_ok rs ds (length (f_data f))
      | Some w \<Rightarrow> w_cap w = 65536 \<and> ar_data_bytes r \<le> ar_max_data_bytes r \<and> ar_max_data_bytes r \<le> MAX_DATA_BYTES
          \<and> ar_patched_bytes r \<le> ar_data_bytes r \<and> ar_data_bytes r \<le> length all
          \<and> (\<not> ar_poisoned r \<longrightarrow> length all = ar_data_bytes r)
          \<and> (f_pos f = length (f_data f) \<or> ar_poisoned r \<and> w_buf w = [])
          \<and> (\<exists>rs ds. written w f = header_of r rs ds @ take (ar_data_bytes r) all
               \<and> sizes_ok rs ds (length (f_data f)) \<and> (\<not> ar_poisoned r \<longrightarrow> unat ds = ar_patched_bytes r))))"

lemma sizes_ok_mono: "sizes_ok rs ds n \<Longrightarrow> n \<le> m \<Longrightarrow> sizes_ok rs ds m"
  by (auto simp: sizes_ok_def)

lemma prefix_more: "xs = take n ys \<Longrightarrow> \<exists>m. xs = take m (ys @ zs)"
  by (rule take_prefix_append)

lemma wav_inv_more:
  assumes "wav_inv all (r, f)" "\<not> wav_is_open r"
  shows "wav_inv (all @ later) (r, f)"
proof (cases "ar_writer r")
  case None
  then obtain rs ds n where n: "f_data f = take n (header_of r rs ds @ all)" "sizes_ok rs ds (length (f_data f))"
    using assms(1) by (auto simp: wav_inv_def)
  from prefix_more [OF n(1), of later] obtain m where "f_data f = take m (header_of r rs ds @ (all @ later))" by auto
  with n(2) None show ?thesis unfolding wav_inv_def by auto
next
  case (Some w)
  then have "ar_poisoned r" using assms(2) by (simp add: wav_is_open_def)
  with Some assms(1) show ?thesis by (auto simp: wav_inv_def)
qed


lemma flush_at_end_or_empty:
  assumes "f_pos f = length (f_data f) \<or> w_buf w = []" "flush_buf w f = (ok, w', f')"
  shows "written w' f' = written w f \<and> w_cap w' = w_cap w \<and> (\<exists>n. f_data f' = f_data f @ take n (w_buf w))
    \<and> (ok \<longrightarrow> w_buf w' = []) \<and> (f_pos f' = length (f_data f') \<or> w_buf w = [] \<and> w_buf w' = [] \<and> f' = f)"
proof (cases "w_buf w = []")
  case False
  then show ?thesis using flush_buf_appends [of w f ok w' f'] assms by (auto simp: appending_def)
qed (use assms in \<open>auto simp: flush_buf_def\<close>)

lemma file_seek_data: "file_seek p f = (ok, f') \<Longrightarrow> f_data f' = f_data f \<and> (ok \<longrightarrow> f_pos f' = p)"
  by (auto simp: file_seek_def split: prod.splits option.splits dest!: next_io_fields)

lemma patch_inv:
  assumes "wav_inv all (r, f)" "ar_writer r = Some w" "patch_sizes (r, f) = (r', f')"
  shows "wav_inv all (r', f')" "\<exists>w'. ar_writer r' = Some w'" "\<not> ar_poisoned r' \<longrightarrow> ar_patched_bytes r' = ar_data_bytes r'"
    "ar_data_bytes r' = ar_data_bytes r" "ar_sample_rate r' = ar_sample_rate r" "ar_channels r' = ar_channels r"
proof -
  let ?d = "ar_data_bytes r" and ?pcm = "take (ar_data_bytes r) all"
  obtain rs ds where inv: "w_cap w = 65536" "?d \<le> ar_max_data_bytes r" "ar_max_data_bytes r \<le> MAX_DATA_BYTES"
      "ar_patched_bytes r \<le> ?d" "?d \<le> length all" "\<not> ar_poisoned r \<longrightarrow> length all = ?d"
      "f_pos f = length (f_data f) \<or> w_buf w = []"
      "written w f = header_of r rs ds @ ?pcm" "sizes_ok rs ds (length (f_data f))"
      "\<not> ar_poisoned r \<longrightarrow> unat ds = ar_patched_bytes r"
    using assms(1,2) by (auto simp: wav_inv_def)
  obtain ok1 w1 f1 where fl: "flush_buf w f = (ok1, w1, f1)" by (metis prod_cases3)
  note f1 = flush_at_end_or_empty [OF inv(7) fl]
  define r1 where "r1 = r\<lparr>ar_writer := Some w1\<rparr>"
  define X where "X = [0x52, 0x49, 0x46, 0x46 :: u8]"
  define M where "M = wav_mid (ar_sample_rate r) (ar_channels r)"
  have hd: "header_of r a b = X @ u32_le a @ M @ u32_le b" for a b by (simp add: wav_header_parts X_def M_def)
  have M: "length M = 32" "length X = 4" by (simp_all add: M_def wav_header_parts(2) X_def)
  have small: "36 + ?d < 2 ^ 32" using inv(2,3) by (simp add: MAX_DATA_BYTES_def)
  have of_small: "m < 2 ^ 32 \<Longrightarrow> unat (of_nat m :: u32) = m" for m by (simp only: unat_of_nat) simp
  from small have sizes: "unat (of_nat (36 + ?d) :: u32) = 36 + ?d" "unat (of_nat ?d :: u32) = ?d"
    using of_small [OF small] of_small [of ?d] by simp_all
  have len: "length ?pcm = ?d" using inv(5) by simp
  have torn: "wav_inv all (r1\<lparr>ar_poisoned := True\<rparr>, g)"
    if "w_buf w1 = []" "f_data g = header_of r a b @ ?pcm" "sizes_ok a b (44 + ?d)" for g a b
    using that inv(1-6) f1 len by (auto simp: wav_inv_def r1_def written_def)
  have all: "wav_inv all (r', f') \<and> (\<exists>w'. ar_writer r' = Some w') \<and> (\<not> ar_poisoned r' \<longrightarrow> ar_patched_bytes r' = ar_data_bytes r')
      \<and> ar_data_bytes r' = ?d \<and> ar_sample_rate r' = ar_sample_rate r \<and> ar_channels r' = ar_channels r"
  proof (cases ok1)
    case False
    then have "r' = r1\<lparr>ar_poisoned := True\<rparr>" "f' = f1" using assms(2,3) fl by (simp_all add: patch_sizes_def Let_def r1_def)
    moreover have "length (f_data f) \<le> length (f_data f1)" using f1 by auto
    then have "sizes_ok rs ds (length (f_data f1))" using inv(9) sizes_ok_mono by blast
    moreover have "f_pos f1 = length (f_data f1) \<or> w_buf w1 = []" "written w1 f1 = header_of r rs ds @ ?pcm" "w_cap w1 = 65536"
      using f1 inv(1,8) by auto
    ultimately show ?thesis using inv(2-5) by (auto simp: wav_inv_def r1_def)
  next
    case True
    then have empty: "w_buf w1 = []" using f1 by simp
    then have d1: "f_data f1 = header_of r rs ds @ ?pcm" using f1 inv(8) by (simp add: written_def)
    then have "length (f_data f1) = 44 + ?d" using len by simp
    moreover have "length (f_data f) \<le> length (f_data f1)" using f1 by auto
    ultimately have "length (f_data f) \<le> 44 + ?d" by simp
    then have s1: "sizes_ok rs ds (44 + ?d)" using inv(9) sizes_ok_mono by blast
    obtain ok2 f2 where k2: "file_seek 4 f1 = (ok2, f2)" by fastforce
    obtain ok3 n3 f3 where k3: "file_write (u32_le (of_nat (36 + ?d))) f2 = (ok3, n3, f3)" by (metis prod_cases3)
    obtain ok4 f4 where k4: "file_seek 40 f3 = (ok4, f4)" by fastforce
    obtain ok5 n5 f5 where k5: "file_write (u32_le (of_nat ?d)) f4 = (ok5, n5, f5)" by (metis prod_cases3)
    obtain ok6 f6 where k6: "file_seek_end f5 = (ok6, f6)" by fastforce
    have res: "(r', f') = (if \<not> ok2 then (r1\<lparr>ar_poisoned := True\<rparr>, f2) else if \<not> ok3 then (r1\<lparr>ar_poisoned := True\<rparr>, f3)
        else if \<not> ok4 then (r1\<lparr>ar_poisoned := True\<rparr>, f4) else if \<not> ok5 then (r1\<lparr>ar_poisoned := True\<rparr>, f5)
        else if \<not> ok6 then (r1\<lparr>ar_poisoned := True\<rparr>, f6) else (r1\<lparr>ar_patched_bytes := ?d\<rparr>, f6))"
      using assms(2,3) True fl k2 k3 k4 k5 k6
      by (cases ok2; cases ok3; cases ok4; cases ok5; cases ok6) (simp_all add: patch_sizes_def Let_def r1_def del: of_nat_add)
    have d2: "f_data f2 = header_of r rs ds @ ?pcm" using file_seek_data [OF k2] d1 by simp
    have bad: "wav_inv all (r1\<lparr>ar_poisoned := True\<rparr>, g) \<and> (\<exists>w'. ar_writer (r1\<lparr>ar_poisoned := True\<rparr>) = Some w')
        \<and> ar_data_bytes r1 = ?d \<and> ar_sample_rate r1 = ar_sample_rate r \<and> ar_channels r1 = ar_channels r"
      if "f_data g = header_of r a b @ ?pcm" "sizes_ok a b (44 + ?d)" for g a b
      using torn [OF empty that] by (simp add: r1_def)
    show ?thesis
    proof (cases ok2)
      case False
      with res bad [OF d2 s1] show ?thesis by simp
    next
      case ok2: True
      have "unat rs \<le> 36 + ?d" using s1 by (auto simp: sizes_ok_def)
      then obtain t where t: "f_data f3 = header_of r t ds @ ?pcm" "unat t \<le> 36 + ?d" "ok3 \<longrightarrow> t = of_nat (36 + ?d)"
        using write_field [of f2 X rs "M @ u32_le ds @ ?pcm" "of_nat (36 + ?d)" ok3 n3 f3]
          d2 k3 file_seek_data [OF k2] ok2 M(2) by (auto simp: hd sizes simp del: of_nat_add)
      have s3: "sizes_ok t ds (44 + ?d)" using s1 t(2) by (simp add: sizes_ok_def)
      have d4: "f_data f4 = header_of r t ds @ ?pcm" using file_seek_data [OF k4] t(1) by simp
      show ?thesis
      proof (cases "ok3 \<and> ok4")
        case False
        with res ok2 bad [OF t(1) s3] bad [OF d4 s3] show ?thesis by (auto split: if_splits)
      next
        case ok4: True
        have "unat ds \<le> ?d" using s1 by (auto simp: sizes_ok_def)
        then obtain u where u: "f_data f5 = header_of r t u @ ?pcm" "unat u \<le> ?d" "ok5 \<longrightarrow> u = of_nat ?d"
          using write_field [of f4 "X @ u32_le t @ M" ds ?pcm "of_nat ?d" ok5 n5 f5]
            d4 k5 file_seek_data [OF k4] ok4 M by (auto simp: hd sizes)
        have s5: "sizes_ok t u (44 + ?d)" using t(2) u(2) by (simp add: sizes_ok_def)
        have d6: "f_data f6 = header_of r t u @ ?pcm" using file_seek_data [OF k6 [unfolded file_seek_end_def]] u(1) by simp
        show ?thesis
        proof (cases "ok5 \<and> ok6")
          case False
          with res ok2 ok4 bad [OF u(1) s5] bad [OF d6 s5] show ?thesis by (auto split: if_splits)
        next
          case ok6: True
          have "f_pos f6 = length (f_data f6)"
            using file_seek_data [OF k6 [unfolded file_seek_end_def]] ok6 u(1) d6 by simp
          moreover have "r' = r1\<lparr>ar_patched_bytes := ?d\<rparr>" "f' = f6" using res ok2 ok4 ok6 by simp_all
          moreover have "unat u = ?d" using u(3) ok6 sizes(2) by simp
          ultimately show ?thesis using inv f1 empty d6 s5 len by (auto simp: wav_inv_def r1_def written_def)
        qed
      qed
    qed
  qed
  then show "wav_inv all (r', f')" "\<exists>w'. ar_writer r' = Some w'" "\<not> ar_poisoned r' \<longrightarrow> ar_patched_bytes r' = ar_data_bytes r'"
    "ar_data_bytes r' = ar_data_bytes r" "ar_sample_rate r' = ar_sample_rate r" "ar_channels r' = ar_channels r" by simp_all
qed


lemma wav_close_inv:
  assumes "wav_inv all rf"
  shows "wav_inv all (wav_close rf) \<and> ar_writer (fst (wav_close rf)) = None"
proof (cases rf)
  case (Pair r f)
  show ?thesis
  proof (cases "ar_writer r")
    case None
    with assms Pair show ?thesis by (simp add: wav_close_def)
  next
    case (Some w)
    obtain r1 f1 where p: "patch_sizes (r, f) = (r1, f1)" by fastforce
    note inv = patch_inv [OF assms [unfolded Pair] Some p]
    obtain w1 where w1: "ar_writer r1 = Some w1" using inv(2) by blast
    obtain ok w2 f2 where fl: "flush_buf w1 f1 = (ok, w2, f2)" by (metis prod_cases3)
    obtain rs ds where i: "f_pos f1 = length (f_data f1) \<or> w_buf w1 = []" "sizes_ok rs ds (length (f_data f1))"
        "written w1 f1 = header_of r1 rs ds @ take (ar_data_bytes r1) all"
      using inv(1) w1 by (auto simp: wav_inv_def)
    note f2 = flush_at_end_or_empty [OF i(1) fl]
    have "f_data f2 @ w_buf w2 = header_of r1 rs ds @ take (ar_data_bytes r1) all" using f2 i(3) by (simp add: written_def)
    then have "f_data f2 = take (length (f_data f2)) (take (44 + ar_data_bytes r1) (header_of r1 rs ds @ all))"
      by (metis append_eq_conv_conj length_wav_header take_append take_all_iff add_diff_cancel_left' le_add1)
    then have "\<exists>n. f_data f2 = take n (header_of r1 rs ds @ all)" by (metis take_take)
    moreover have "sizes_ok rs ds (length (f_data f2))" using f2 i(2) sizes_ok_mono by auto
    moreover have "wav_close rf = (r1\<lparr>ar_writer := None\<rparr>, f2)"
      using Some p w1 fl by (simp add: Pair wav_close_def buf_drop_def)
    ultimately show ?thesis by (auto simp: wav_inv_def)
  qed
qed

lemma blocks_inv:
  assumes "wav_inv all (r, f)" "wav_is_open r" "list_all (\<lambda>b. length b \<le> PCM_CHUNK) blocks"
    and "write_blocks blocks (r, f) = (ok, r', f')"
  shows "wav_inv (all @ pcm_bytes (concat blocks)) (r', f') \<and> ok = wav_is_open r'"
  using assms
proof (induction blocks arbitrary: all r f)
  case (Cons block blocks)
  obtain w where w: "ar_writer r = Some w" "\<not> ar_poisoned r" using Cons.prems(2) by (auto simp: wav_is_open_def)
  obtain rs ds where inv: "w_cap w = 65536" "ar_data_bytes r \<le> ar_max_data_bytes r" "ar_max_data_bytes r \<le> MAX_DATA_BYTES"
      "ar_patched_bytes r \<le> ar_data_bytes r" "length all = ar_data_bytes r" "appending w f"
      "written w f = header_of r rs ds @ all" "sizes_ok rs ds (length (f_data f))" "unat ds = ar_patched_bytes r"
    using Cons.prems(1) w by (auto simp: wav_inv_def appending_def)
  let ?bs = "pcm_bytes block"
  have small: "length ?bs < w_cap w" using Cons.prems(3) inv(1) by (simp add: PCM_CHUNK_def)
  show ?case
  proof (cases "ar_max_data_bytes r - ar_data_bytes r < length ?bs")
    case True
    then have "(ok, r', f') = (False, wav_close (r, f))" using Cons.prems(4) by (simp add: pcm_bytes_def [symmetric])
    moreover note wav_close_inv [OF Cons.prems(1)]
    ultimately have c: "wav_inv all (r', f')" "ar_writer r' = None" "\<not> ok" by (metis fst_conv prod.inject)+
    then have "\<not> wav_is_open r'" by (simp add: wav_is_open_def)
    with wav_inv_more [OF c(1) this] c(3) show ?thesis by simp
  next
    case fits: False
    obtain ok1 w1 f1 where b: "buf_write_all ?bs w f = (ok1, w1, f1)" by (metis prod_cases3)
    note b1 = buf_write_all_appends [OF inv(6) _ b]
    have ap: "appending w1 f1" "w_cap w1 = w_cap w" "length (f_data f) \<le> length (f_data f1)"
        "\<not> ok1 \<longrightarrow> written w1 f1 = written w f" "ok1 \<longrightarrow> written w1 f1 = written w f @ ?bs"
      using b1 inv(1) small by auto
    have s: "sizes_ok rs ds (length (f_data f1))" using inv(8) ap(3) sizes_ok_mono by blast
    show ?thesis
    proof (cases ok1)
      case False
      then have r': "r' = r\<lparr>ar_writer := Some w1, ar_poisoned := True\<rparr>" "f' = f1" "\<not> ok"
        using Cons.prems(4) fits w b by (simp_all add: pcm_bytes_def [symmetric])
      have "wav_inv all (r', f')" using inv ap s False by (auto simp: r' wav_inv_def appending_def)
      moreover have "\<not> wav_is_open r'" by (simp add: r' wav_is_open_def)
      ultimately show ?thesis using wav_inv_more r'(3) by simp
    next
      case True
      let ?r = "r\<lparr>ar_writer := Some w1, ar_data_bytes := ar_data_bytes r + length ?bs\<rparr>"
      have "write_blocks blocks (?r, f1) = (ok, r', f')" using Cons.prems(4) fits w b True by (simp add: pcm_bytes_def [symmetric])
      moreover have "wav_inv (all @ ?bs) (?r, f1)" using inv ap s True w fits by (auto simp: wav_inv_def appending_def)
      moreover have "wav_is_open ?r" using w by (simp add: wav_is_open_def)
      ultimately show ?thesis using Cons.IH [of "all @ ?bs" ?r f1] Cons.prems(3) by (simp add: pcm_bytes_append)
    qed
  qed
qed (simp add: pcm_bytes_def)

lemma blocks_fields:
  "write_blocks blocks (r, f) = (True, r', f') \<Longrightarrow> ar_sample_rate r' = ar_sample_rate r \<and> ar_channels r' = ar_channels r
     \<and> ar_patched_bytes r' = ar_patched_bytes r"
  by (induction blocks arbitrary: r f) (auto simp: Let_def split: if_splits option.splits prod.splits bool.splits)


lemma write_pcm_inv:
  assumes "wav_inv all (r, f)" "write_pcm_f32 samples (r, f) = (r', f')"
  shows "wav_inv (all @ pcm_bytes samples) (r', f')"
    "0 < second_bytes r \<Longrightarrow> wav_is_open r \<longrightarrow> ar_data_bytes r - ar_patched_bytes r < second_bytes r \<Longrightarrow>
       wav_is_open r' \<longrightarrow> ar_data_bytes r' - ar_patched_bytes r' < second_bytes r'"
proof -
  consider (skip) "\<not> wav_is_open r" "(r', f') = (r, f)" | (none) "samples = []" "(r', f') = (r, f)" | (goes) "wav_is_open r" "samples \<noteq> []"
    using assms(2) by (cases "samples = []"; cases "wav_is_open r") (auto simp: write_pcm_f32_def wav_is_open_def)
  then have "wav_inv (all @ pcm_bytes samples) (r', f')
      \<and> (0 < second_bytes r \<longrightarrow> (wav_is_open r \<longrightarrow> ar_data_bytes r - ar_patched_bytes r < second_bytes r) \<longrightarrow>
         wav_is_open r' \<longrightarrow> ar_data_bytes r' - ar_patched_bytes r' < second_bytes r')"
  proof cases
    case skip
    with wav_inv_more [OF assms(1)] show ?thesis by simp
  next
    case none
    with assms(1) show ?thesis by (simp add: pcm_bytes_def)
  next
    case goes
    obtain ok r1 f1 where b: "write_blocks (chunks PCM_CHUNK samples) (r, f) = (ok, r1, f1)" by (metis prod_cases3)
    have "list_all (\<lambda>b. length b \<le> PCM_CHUNK) (chunks PCM_CHUNK samples)"
      by (auto simp: list_all_iff dest: chunks_length_le)
    moreover have "concat (chunks PCM_CHUNK samples) = samples" by (simp add: concat_chunks PCM_CHUNK_def)
    ultimately have i: "wav_inv (all @ pcm_bytes samples) (r1, f1)" "ok = wav_is_open r1" using blocks_inv [OF assms(1) goes(1) _ b] by simp_all
    have res: "(r', f') = (if ok \<and> second_bytes r1 \<le> ar_data_bytes r1 - ar_patched_bytes r1 then patch_sizes (r1, f1) else (r1, f1))"
      using assms(2) goes b by (cases ok) (auto simp: write_pcm_f32_def wav_is_open_def)
    have sec: "ok \<longrightarrow> second_bytes r1 = second_bytes r" using blocks_fields b by (cases ok) (auto simp: second_bytes_def)
    show ?thesis
    proof (cases "ok \<and> second_bytes r1 \<le> ar_data_bytes r1 - ar_patched_bytes r1")
      case True
      then obtain w where w: "ar_writer r1 = Some w" using i(2) by (auto simp: wav_is_open_def)
      have p: "patch_sizes (r1, f1) = (r', f')" using res True by simp
      note q = patch_inv [OF i(1) w p]
      have "second_bytes r' = second_bytes r" using q(5,6) sec True by (simp add: second_bytes_def)
      with q(1,3) show ?thesis by (auto simp: wav_is_open_def)
    next
      case False
      with res i sec show ?thesis by auto
    qed
  qed
  then show "wav_inv (all @ pcm_bytes samples) (r', f')"
    "0 < second_bytes r \<Longrightarrow> wav_is_open r \<longrightarrow> ar_data_bytes r - ar_patched_bytes r < second_bytes r \<Longrightarrow>
       wav_is_open r' \<longrightarrow> ar_data_bytes r' - ar_patched_bytes r' < second_bytes r'" by blast+
qed

section \<open>Runs\<close>

datatype wav_op = WavPcm "fl list" | WavClose

fun wav_step :: "wav_op \<Rightarrow> audio_recorder \<times> disk_file \<Rightarrow> audio_recorder \<times> disk_file" where
  "wav_step (WavPcm samples) = write_pcm_f32 samples"
| "wav_step WavClose = wav_close"

definition wav_run :: "wav_op list \<Rightarrow> audio_recorder \<times> disk_file \<Rightarrow> audio_recorder \<times> disk_file" where
  "wav_run ops rf = foldl (\<lambda>s op. wav_step op s) rf ops"

fun op_samples :: "wav_op \<Rightarrow> fl list" where
  "op_samples (WavPcm samples) = samples"
| "op_samples WavClose = []"

definition run_samples :: "wav_op list \<Rightarrow> fl list" where
  "run_samples ops = concat (map op_samples ops)"

text \<open>The format never changes.\<close>

lemma patch_format:
  "patch_sizes (r, f) = (r', f') \<Longrightarrow> ar_sample_rate r' = ar_sample_rate r \<and> ar_channels r' = ar_channels r"
  by (auto simp: patch_sizes_def Let_def split: option.splits prod.splits if_splits)

lemma close_format:
  "wav_close (r, f) = (r', f') \<Longrightarrow> ar_sample_rate r' = ar_sample_rate r \<and> ar_channels r' = ar_channels r"
  by (auto simp: wav_close_def split: prod.splits if_splits dest: patch_format)

lemma blocks_format:
  "write_blocks blocks (r, f) = (ok, r', f') \<Longrightarrow> ar_sample_rate r' = ar_sample_rate r \<and> ar_channels r' = ar_channels r"
proof (induction blocks arbitrary: r f)
  case (Cons b bs)
  then show ?case
    by (auto simp: Let_def split: if_splits option.splits prod.splits bool.splits dest!: close_format [OF sym] dest: close_format)
qed simp

lemma step_format:
  "wav_step op (r, f) = (r', f') \<Longrightarrow> ar_sample_rate r' = ar_sample_rate r \<and> ar_channels r' = ar_channels r"
  by (cases op)
    (auto simp: write_pcm_f32_def split: if_splits prod.splits bool.splits dest!: blocks_format patch_format close_format)

lemma wav_step_inv:
  "wav_inv all (r, f) \<Longrightarrow> wav_step op (r, f) = (r', f') \<Longrightarrow> wav_inv (all @ pcm_bytes (op_samples op)) (r', f')"
  by (cases op) (use write_pcm_inv(1) wav_close_inv [of all "(r, f)"] in \<open>auto simp: pcm_bytes_def\<close>)

lemma wav_step_lag:
  assumes "wav_inv all (r, f)" "wav_step op (r, f) = (r', f')" "0 < second_bytes r"
    and "wav_is_open r \<longrightarrow> ar_data_bytes r - ar_patched_bytes r < second_bytes r"
  shows "wav_is_open r' \<longrightarrow> ar_data_bytes r' - ar_patched_bytes r' < second_bytes r'"
proof (cases op)
  case (WavPcm samples)
  with write_pcm_inv(2) [OF assms(1) _ assms(3,4), of samples] assms(2) show ?thesis by simp
next
  case WavClose
  with wav_close_inv [OF assms(1)] assms(2) show ?thesis by (simp add: wav_is_open_def)
qed

lemma wav_run_inv:
  assumes "wav_inv all (r, f)" "wav_run ops (r, f) = (r', f')" "0 < second_bytes r"
    and "wav_is_open r \<longrightarrow> ar_data_bytes r - ar_patched_bytes r < second_bytes r"
  shows "wav_inv (all @ pcm_bytes (run_samples ops)) (r', f') \<and> ar_sample_rate r' = ar_sample_rate r \<and> ar_channels r' = ar_channels r
    \<and> (wav_is_open r' \<longrightarrow> ar_data_bytes r' - ar_patched_bytes r' < second_bytes r')"
  using assms
proof (induction ops arbitrary: all r f)
  case (Cons op ops)
  obtain r1 f1 where s: "wav_step op (r, f) = (r1, f1)" by fastforce
  note fm = step_format [OF s]
  have "wav_run ops (r1, f1) = (r', f')" using Cons.prems(2) s by (simp add: wav_run_def)
  moreover have "0 < second_bytes r1" using Cons.prems(3) fm by (simp add: second_bytes_def)
  ultimately show ?case
    using Cons.IH [OF wav_step_inv [OF Cons.prems(1) s] _ _ wav_step_lag [OF Cons.prems(1) s Cons.prems(3,4)]] fm
    by (simp add: run_samples_def pcm_bytes_append)
qed (simp add: wav_run_def run_samples_def pcm_bytes_def)


lemma wav_open_inv:
  assumes "wav_open dir_ok open_new path sr ch (new_file io) = (Some r, f)"
  shows "wav_inv [] (r, f)" "ar_sample_rate r = sr" "ar_channels r = ch" "ar_data_bytes r - ar_patched_bytes r = 0"
    "f_io f = io" "ar_max_data_bytes r = MAX_DATA_BYTES" "wav_is_open r"
proof -
  obtain p where "r = \<lparr>ar_path = p, ar_writer = Some \<lparr>w_buf = wav_header sr ch 0 0, w_cap = 65536\<rparr>, ar_sample_rate = sr,
      ar_channels = ch, ar_data_bytes = 0, ar_patched_bytes = 0, ar_max_data_bytes = MAX_DATA_BYTES, ar_poisoned = False\<rparr>"
      "f = new_file io"
    using assms by (auto simp: wav_open_def write_header_def buf_write_all_def buf_writer_def split: option.splits)
  then show "wav_inv [] (r, f)" "ar_sample_rate r = sr" "ar_channels r = ch" "ar_data_bytes r - ar_patched_bytes r = 0"
    "f_io f = io" "ar_max_data_bytes r = MAX_DATA_BYTES" "wav_is_open r"
    by (auto simp: wav_inv_def new_file_def written_def sizes_ok_def wav_is_open_def)
qed

lemma wav_run_open:
  assumes "wav_open dir_ok open_new path sr ch (new_file io) = (Some r, f)" "0 < sr" "0 < ch" "wav_run ops (r, f) = (r', f')"
  shows "wav_inv (pcm_bytes (run_samples ops)) (r', f') \<and> ar_sample_rate r' = sr \<and> ar_channels r' = ch
    \<and> (wav_is_open r' \<longrightarrow> ar_data_bytes r' - ar_patched_bytes r' < second_bytes r')"
proof -
  note o = wav_open_inv [OF assms(1)]
  have "0 < unat sr * unat ch" using assms(2,3) by (simp add: unat_gt_0 word_neq_0_conv)
  then have "0 < second_bytes r" unfolding second_bytes_def o(2,3) by (simp add: min_def)
  with wav_run_inv [OF o(1) assms(4)] o(2-4) show ?thesis by simp
qed

lemma wav_disk:
  assumes "wav_inv all (r, f)" "44 \<le> length (f_data f)"
  shows "\<exists>rs ds m. f_data f = header_of r rs ds @ take m all \<and> unat rs + 8 \<le> length (f_data f) \<and> unat ds + 44 \<le> length (f_data f)
    \<and> (wav_is_open r \<longrightarrow> unat ds = ar_patched_bytes r)"
proof -
  obtain rs ds n where n: "f_data f = take n (header_of r rs ds @ all)" "sizes_ok rs ds (length (f_data f))"
      "wav_is_open r \<longrightarrow> unat ds = ar_patched_bytes r"
  proof (cases "ar_writer r")
    case None
    with assms(1) show thesis by (auto simp: wav_inv_def wav_is_open_def intro: that)
  next
    case (Some w)
    then obtain rs ds where w: "f_data f @ w_buf w = header_of r rs ds @ take (ar_data_bytes r) all"
        "sizes_ok rs ds (length (f_data f))" "\<not> ar_poisoned r \<longrightarrow> unat ds = ar_patched_bytes r"
      using assms(1) by (auto simp: wav_inv_def written_def)
    have "f_data f = take (length (f_data f)) (take (44 + ar_data_bytes r) (header_of r rs ds @ all))"
      using w(1) by (metis append_eq_conv_conj length_wav_header take_append take_all_iff add_diff_cancel_left' le_add1)
    then have "f_data f = take (min (length (f_data f)) (44 + ar_data_bytes r)) (header_of r rs ds @ all)" by (simp only: take_take)
    with w(2,3) show thesis by (intro that) (auto simp: wav_is_open_def)
  qed
  then have "f_data f = header_of r rs ds @ take (n - 44) all" using assms(2) by simp
  moreover have "unat rs + 8 \<le> length (f_data f) \<and> unat ds + 44 \<le> length (f_data f)"
    using n(2) assms(2) by (auto simp: sizes_ok_def)
  ultimately show ?thesis using n(3) by blast
qed

text \<open>
  C31. A WAV being recorded survives whatever happens to it: after any sequence of writes and closes, with any
  storage operation failing part way (a process that dies is one whose later operations all fail), the file on disk
  is either still shorter than its header or a WAV of the format asked for whose samples are a prefix of those
  offered, and neither size in its header reaches past the end of the file, even when the header was torn.
\<close>

theorem wav_survives_failures:
  assumes "wav_open dir_ok open_new path sr ch (new_file io) = (Some r, f)" "0 < sr" "0 < ch" "wav_run ops (r, f) = (r', f')"
  shows "length (f_data f') < 44 \<or>
    (\<exists>rs ds m. f_data f' = wav_header sr ch rs ds @ take m (pcm_bytes (run_samples ops))
       \<and> unat rs + 8 \<le> length (f_data f') \<and> unat ds + 44 \<le> length (f_data f'))"
  using wav_run_open [OF assms] wav_disk [of "pcm_bytes (run_samples ops)" r' f'] by (cases "length (f_data f') < 44") auto

text \<open>
  A recording that dies loses less than a second: while the recorder is open and no operation has failed, the
  data size in the header of the file on disk (0 while the header is not there yet) is less than one second of
  audio behind everything written.
\<close>

theorem wav_loses_less_than_a_second:
  assumes "wav_open dir_ok open_new path sr ch (new_file io) = (Some r, f)" "0 < sr" "0 < ch" "wav_run ops (r, f) = (r', f')"
    and "wav_is_open r'"
  shows "2 * length (run_samples ops)
      < (if length (f_data f') < 44 then 0 else unat (u32_of_le (sub_range (f_data f') 40 44))) + 2 * (unat sr * unat ch)"
proof -
  note i = wav_run_open [OF assms(1-4)]
  have data: "ar_data_bytes r' = 2 * length (run_samples ops)" "ar_patched_bytes r' \<le> ar_data_bytes r'"
    using i assms(5) by (auto simp: wav_inv_def wav_is_open_def split: option.splits)
  have lag: "ar_data_bytes r' - ar_patched_bytes r' < second_bytes r'" using i assms(5) by blast
  have sec: "second_bytes r' \<le> 2 * (unat sr * unat ch)" using i by (simp add: second_bytes_def)
  show ?thesis
  proof (cases "length (f_data f') < 44")
    case True
    obtain w rs ds where "sizes_ok rs ds (length (f_data f'))" "unat ds = ar_patched_bytes r'"
      using i assms(5) by (auto simp: wav_inv_def wav_is_open_def)
    with True have "ar_patched_bytes r' = 0" by (auto simp: sizes_ok_def)
    with True lag data sec show ?thesis by simp
  next
    case False
    then obtain rs ds m where d: "f_data f' = wav_header sr ch rs ds @ take m (pcm_bytes (run_samples ops))"
        "unat ds = ar_patched_bytes r'"
      using wav_disk [of "pcm_bytes (run_samples ops)" r' f'] i assms(5) by auto
    have "sub_range (f_data f') 40 44 = u32_le ds"
      by (simp add: d(1) wav_header_parts sub_range_def)
    with False lag data sec d(2) show ?thesis by simp
  qed
qed


section \<open>On storage that works\<close>

lemma patch_ok:
  assumes "wav_inv all (r, f)" "wav_is_open r" "f_io f = []"
  shows "\<exists>r' f'. patch_sizes (r, f) = (r', f') \<and> wav_is_open r' \<and> f_io f' = []
    \<and> (\<exists>w. ar_writer r' = Some w \<and> w_buf w = []) \<and> f_data f' = header_of r (of_nat (36 + length all)) (of_nat (length all)) @ all
    \<and> ar_max_data_bytes r' = ar_max_data_bytes r"
proof -
  obtain w rs ds where w: "ar_writer r = Some w" "\<not> ar_poisoned r" "length all = ar_data_bytes r" "appending w f"
      "written w f = header_of r rs ds @ all"
    using assms(1,2) by (auto simp: wav_inv_def wav_is_open_def appending_def)
  obtain w1 f1 where fl: "flush_buf w f = (True, w1, f1)" "f_io f1 = []" using flush_buf_ok [OF assms(3)] by blast
  have f1: "w_buf w1 = []" "f_data f1 = header_of r rs ds @ all"
    using flush_buf_appends [OF w(4) fl(1)] w(5) by (auto simp: written_def)
  define X where "X = [0x52, 0x49, 0x46, 0x46 :: u8]"
  define M where "M = wav_mid (ar_sample_rate r) (ar_channels r)"
  have hd: "header_of r a b = X @ u32_le a @ M @ u32_le b" for a b by (simp add: wav_header_parts X_def M_def)
  have M: "length M = 32" "length X = 4" by (simp_all add: M_def wav_header_parts(2) X_def)
  have p1: "put_at 4 (u32_le a) (header_of r rs ds @ all) = header_of r a ds @ all" for a
    using put_at_field [of X 4 "u32_le rs" "u32_le a" "M @ u32_le ds @ all"] M by (simp add: hd)
  have p2: "put_at 40 (u32_le b) (header_of r a ds @ all) = header_of r a b @ all" for a b
    using put_at_field [of "X @ u32_le a @ M" 40 "u32_le ds" "u32_le b" all] M by (simp add: hd)
  show ?thesis
    using w(1-3) fl f1 by (simp add: patch_sizes_def file_seek_end_def file_put_def p1 p2 Let_def wav_is_open_def del: of_nat_add)
qed

lemma blocks_ok:
  assumes "wav_inv all (r, f)" "wav_is_open r" "f_io f = []" "ar_max_data_bytes r = MAX_DATA_BYTES"
    and "length all + 2 * length (concat blocks) \<le> MAX_DATA_BYTES" "list_all (\<lambda>b. length b \<le> PCM_CHUNK) blocks"
  shows "\<exists>r' f'. write_blocks blocks (r, f) = (True, r', f') \<and> f_io f' = [] \<and> ar_max_data_bytes r' = MAX_DATA_BYTES"
  using assms
proof (induction blocks arbitrary: all r f)
  case (Cons block blocks)
  obtain w where w: "ar_writer r = Some w" "\<not> ar_poisoned r" "length all = ar_data_bytes r"
    using Cons.prems(1,2) by (auto simp: wav_inv_def wav_is_open_def)
  let ?bs = "pcm_bytes block"
  obtain w1 f1 where b: "buf_write_all ?bs w f = (True, w1, f1)" "f_io f1 = []" using buf_write_all_ok [OF Cons.prems(3)] by blast
  let ?r = "r\<lparr>ar_writer := Some w1, ar_data_bytes := ar_data_bytes r + length ?bs\<rparr>"
  have "\<not> MAX_DATA_BYTES - ar_data_bytes r < length ?bs" using w(3) Cons.prems(5) by simp
  then have step: "write_blocks (block # bs) (r, f) = write_blocks bs (?r, f1)" for bs
    using w b(1) Cons.prems(4,5) by (simp add: Let_def pcm_bytes_def [symmetric])
  have one: "write_blocks [block] (r, f) = (True, ?r, f1)" unfolding step by simp
  have "wav_inv (all @ pcm_bytes (concat [block])) (?r, f1) \<and> True = wav_is_open ?r"
    by (rule blocks_inv [OF Cons.prems(1,2) _ one]) (use Cons.prems(6) in simp)
  then show ?case
    unfolding step using Cons.IH [of "all @ ?bs" ?r f1] b(2) Cons.prems(4-6) by simp
qed simp

lemma run_ok:
  assumes "wav_inv all (r, f)" "wav_is_open r" "f_io f = []" "ar_max_data_bytes r = MAX_DATA_BYTES"
    and "length all + 2 * length (concat batches) \<le> MAX_DATA_BYTES"
  shows "\<exists>r' f'. wav_run (map WavPcm batches) (r, f) = (r', f') \<and> wav_is_open r' \<and> f_io f' = []
    \<and> wav_inv (all @ pcm_bytes (concat batches)) (r', f')"
  using assms
proof (induction batches arbitrary: all r f)
  case (Cons samples batches)
  have list: "list_all (\<lambda>b. length b \<le> PCM_CHUNK) (chunks PCM_CHUNK samples)" by (auto simp: list_all_iff dest: chunks_length_le)
  have join: "concat (chunks PCM_CHUNK samples) = samples" by (simp add: concat_chunks PCM_CHUNK_def)
  obtain r1 f1 where b: "write_blocks (chunks PCM_CHUNK samples) (r, f) = (True, r1, f1)" "f_io f1 = []" "ar_max_data_bytes r1 = MAX_DATA_BYTES"
    using blocks_ok [OF Cons.prems(1-4) _ list] Cons.prems(5) join by auto
  have i1: "wav_inv (all @ pcm_bytes samples) (r1, f1)" "wav_is_open r1"
    using blocks_inv [OF Cons.prems(1,2) list b(1)] join by simp_all
  obtain r2 f2 where p: "patch_sizes (r1, f1) = (r2, f2)" "wav_is_open r2" "f_io f2 = []" "ar_max_data_bytes r2 = ar_max_data_bytes r1"
    using patch_ok [OF i1 b(2)] by blast
  obtain r3 f3 where s: "write_pcm_f32 samples (r, f) = (r3, f3)" by fastforce
  have "wav_is_open r3 \<and> f_io f3 = [] \<and> ar_max_data_bytes r3 = MAX_DATA_BYTES"
    using s Cons.prems(2-4) b i1(2) p by (auto simp: write_pcm_f32_def wav_is_open_def split: if_splits)
  then show ?case
    using Cons.IH [of "all @ pcm_bytes samples" r3 f3] write_pcm_inv(1) [OF Cons.prems(1) s] Cons.prems(5) s
    by (simp add: wav_run_def pcm_bytes_append)
qed (simp add: wav_run_def pcm_bytes_def)

lemma closed_wav:
  assumes "wav_open dir_ok open_new path sr ch (new_file []) = (Some r, f)" "2 * length (concat batches) \<le> MAX_DATA_BYTES"
  shows "f_data (snd (wav_close (wav_run (map WavPcm batches) (r, f))))
    = wav_header sr ch (of_nat (36 + 2 * length (concat batches))) (of_nat (2 * length (concat batches))) @ pcm_bytes (concat batches)"
proof -
  note o = wav_open_inv [OF assms(1)]
  obtain r1 f1 where w: "wav_run (map WavPcm batches) (r, f) = (r1, f1)" "wav_is_open r1" "f_io f1 = []"
      "wav_inv (pcm_bytes (concat batches)) (r1, f1)"
    using run_ok [OF o(1,7) _ o(6), of batches] o(5) assms(2) by auto
  obtain r2 f2 w2 where p: "patch_sizes (r1, f1) = (r2, f2)" "ar_writer r2 = Some w2" "w_buf w2 = []"
      "f_data f2 = header_of r1 (of_nat (36 + length (pcm_bytes (concat batches)))) (of_nat (length (pcm_bytes (concat batches)))) @ pcm_bytes (concat batches)"
    using patch_ok [OF w(4,2,3)] by blast
  have "foldl (\<lambda>s op. wav_step op s) (r, f) (map WavPcm bs) = (r', f') \<Longrightarrow> ar_sample_rate r' = ar_sample_rate r \<and> ar_channels r' = ar_channels r"
    for bs r f r' f'
  proof (induction bs arbitrary: r f)
    case (Cons b bs)
    obtain r1 f1 where "wav_step (WavPcm b) (r, f) = (r1, f1)" by fastforce
    with Cons step_format [OF this] show ?case by simp
  qed simp
  from this [OF w(1) [unfolded wav_run_def]] have fm: "ar_sample_rate r1 = sr" "ar_channels r1 = ch" using o(2,3) by simp_all
  have "wav_close (r1, f1) = (r2\<lparr>ar_writer := None\<rparr>, f2)"
    using w(2) p(1-3) by (auto simp: wav_close_def wav_is_open_def buf_drop_def flush_buf_def)
  then show ?thesis unfolding w(1) using p(4) fm by (simp del: of_nat_add)
qed


text \<open>
  On storage that works a closed recording is exactly a WAV of the samples, up to the format's limit: the
  44-byte header with both sizes right, and then every sample as 16-bit PCM, however they were batched.
\<close>

theorem closed_wav_exact:
  assumes "wav_open dir_ok open_new path sr ch (new_file []) = (Some r, f)" "2 * length (concat batches) \<le> MAX_DATA_BYTES"
  shows "f_data (snd (wav_close (wav_run (map WavPcm batches) (r, f))))
    = wav_header sr ch (of_nat (36 + 2 * length (concat batches))) (of_nat (2 * length (concat batches))) @ pcm_bytes (concat batches)"
  using assms by (rule closed_wav)

lemma wav_open_example: "\<exists>r f. wav_open True (\<lambda>_. Created) ''a.wav'' 48000 2 (new_file io) = (Some r, f)"
  by (simp add: wav_open_def create_new_file_def write_header_def buf_write_all_def buf_writer_def split: prod.splits)

theorem wav_survives_failures_witness:
  "\<exists>r f r' f'. wav_open True (\<lambda>_. Created) ''a.wav'' 48000 2 (new_file [None, Some 2]) = (Some r, f)
    \<and> wav_run [WavPcm [Fin 1], WavClose, WavPcm [Fin 0]] (r, f) = (r', f')
    \<and> (length (f_data f') < 44 \<or>
      (\<exists>rs ds m. f_data f' = wav_header 48000 2 rs ds @ take m (pcm_bytes [Fin 1, Fin 0])
         \<and> unat rs + 8 \<le> length (f_data f') \<and> unat ds + 44 \<le> length (f_data f')))"
proof -
  obtain r f where o: "wav_open True (\<lambda>_. Created) ''a.wav'' 48000 2 (new_file [None, Some 2]) = (Some r, f)"
    using wav_open_example by blast
  obtain r' f' where w: "wav_run [WavPcm [Fin 1], WavClose, WavPcm [Fin 0]] (r, f) = (r', f')" by fastforce
  have "run_samples [WavPcm [Fin 1], WavClose, WavPcm [Fin 0]] = [Fin 1, Fin 0]" by (simp add: run_samples_def)
  with wav_survives_failures [OF o _ _ w] o w show ?thesis by simp
qed

theorem wav_loses_less_than_a_second_witness:
  "\<exists>r f. wav_open True (\<lambda>_. Created) ''a.wav'' 48000 2 (new_file []) = (Some r, f)
    \<and> 2 * length (run_samples []) < (if length (f_data f) < 44 then 0 else unat (u32_of_le (sub_range (f_data f) 40 44)))
        + 2 * (unat (48000 :: u32) * unat (2 :: u16))"
proof -
  obtain r f where o: "wav_open True (\<lambda>_. Created) ''a.wav'' 48000 2 (new_file []) = (Some r, f)"
    using wav_open_example by blast
  have "wav_run [] (r, f) = (r, f)" by (simp add: wav_run_def)
  from wav_loses_less_than_a_second [OF o _ _ this] wav_open_inv(7) [OF o] o show ?thesis by simp
qed

theorem closed_wav_exact_witness:
  "\<exists>r f. wav_open True (\<lambda>_. Created) ''a.wav'' 48000 2 (new_file []) = (Some r, f)
    \<and> f_data (snd (wav_close (wav_run (map WavPcm [[Fin 1, Fin 0], [Fin (-1)]]) (r, f))))
      = wav_header 48000 2 42 6 @ pcm_bytes [Fin 1, Fin 0, Fin (-1)]"
proof -
  obtain r f where o: "wav_open True (\<lambda>_. Created) ''a.wav'' 48000 2 (new_file []) = (Some r, f)"
    using wav_open_example by blast
  from closed_wav_exact [OF o, of "[[Fin 1, Fin 0], [Fin (-1)]]"] o show ?thesis by (simp add: MAX_DATA_BYTES_def)
qed

text \<open>
  A sample always fits 16 bits: clipping keeps the PCM value within 32767 of zero, a NaN becomes silence.
\<close>

theorem pcm_i16_range: "\<bar>pcm_i16 s\<bar> \<le> 32767 \<and> pcm_i16 NaN = 0"
proof
  show "\<bar>pcm_i16 s\<bar> \<le> 32767"
  proof (cases "s = NaN")
    case True
    then show ?thesis by (simp add: pcm_i16_def f_mul_def f_as_i16_def)
  next
    case False
    have "Fin (-1) \<le> f_clamp (Fin (-1)) (Fin 1) s \<and> f_clamp (Fin (-1)) (Fin 1) s \<le> Fin 1"
      using f_clamp_bounds [of "Fin (-1)" "Fin 1" s] False by simp
    then obtain x where x: "f_clamp (Fin (-1)) (Fin 1) s = Fin x" "-1 \<le> x" "x \<le> 1"
      by (cases "f_clamp (Fin (-1)) (Fin 1) s") auto
    have fl: "is_float b32 32767" "is_float b32 (- 32767)" by code_simp+
    have "rnd b32 (- 32767) \<le> rnd b32 (x * 32767)" "rnd b32 (x * 32767) \<le> rnd b32 32767"
      using x(2,3) by (auto intro!: fmt32.rnd_mono)
    then have "Fin (- 32767) \<le> rnd b32 (x * 32767)" "rnd b32 (x * 32767) \<le> Fin 32767"
      using fl by (simp_all add: is_float_def)
    then obtain y where y: "rnd b32 (x * 32767) = Fin y" "- 32767 \<le> y" "y \<le> 32767" by (cases "rnd b32 (x * 32767)") auto
    have "pcm_i16 s = f_as_i16 (Fin y)" by (simp add: pcm_i16_def x(1) y(1))
    moreover have "f_as_i16 (Fin (- 32767)) \<le> f_as_i16 (Fin y)" "f_as_i16 (Fin y) \<le> f_as_i16 (Fin 32767)"
      unfolding f_as_i16_def using y(2,3) by (simp_all only: f_as_int_mono)
    moreover have "f_as_i16 (Fin (- 32767)) = - 32767" "f_as_i16 (Fin 32767) = 32767"
      by (simp_all add: f_as_i16_def trunc_rat_def)
    ultimately show ?thesis by linarith
  qed
qed (simp add: pcm_i16_def f_mul_def f_as_i16_def)

end
