(* ===== verification/AudioTask.thy ===== *)
theory AudioTask imports Audio WavRecorder Rtp begin

text \<open>
  The audio pipeline of \<open>engine.rs\<close> with \<open>audio/encoder.rs\<close>: the capture thread that follows the output
  device, and the task that cuts the captured samples into 10 ms frames, records, encodes and packetises them.
  Opus is an argument: from its state and 480 stereo samples of 16-bit PCM to its next state and a packet, or
  an error. What the device and opening it return are arguments as well.
\<close>

section \<open>The capture thread\<close>

definition DEVICE_CHECK :: duration where "DEVICE_CHECK = 2 * nanos_per_sec"

record capture_thread =
  ct_capture :: "(string \<times> bool) option"
  ct_failed_attempt :: "(string \<times> instant) option"
  ct_last_check :: instant
  ct_audio_active :: bool

text \<open>\<open>started\<close> is what \<open>AudioCapture::start\<close> returns, if it is called: the device it captures.\<close>

definition capture_new :: "string option \<Rightarrow> instant \<Rightarrow> capture_thread" where
  "capture_new started now = \<lparr>ct_capture = map_option (\<lambda>d. (d, False)) started, ct_failed_attempt = None,
     ct_last_check = now, ct_audio_active = started \<noteq> None\<rparr>"

definition capture_poll :: "instant \<Rightarrow> string option \<Rightarrow> string option \<Rightarrow> capture_thread \<Rightarrow> capture_thread" where
  "capture_poll now default_now started t =
     (if now - ct_last_check t < DEVICE_CHECK then t
      else
        let t = t\<lparr>ct_last_check := now\<rparr> in
        if \<not> should_reopen (ct_capture t) default_now (ct_failed_attempt t) now then t
        else t\<lparr>ct_capture := map_option (\<lambda>d. (d, False)) started,
               ct_failed_attempt := (case (started, default_now) of (None, Some device) \<Rightarrow> Some (device, now) | _ \<Rightarrow> None),
               ct_audio_active := started \<noteq> None\<rparr>)"

text \<open>The stream's error callback.\<close>

definition capture_error :: "capture_thread \<Rightarrow> capture_thread" where
  "capture_error t = t\<lparr>ct_capture := map_option (\<lambda>(d, _). (d, True)) (ct_capture t)\<rparr>"

definition capture_released :: "capture_thread \<Rightarrow> capture_thread" where
  "capture_released t = t\<lparr>ct_capture := None, ct_audio_active := False\<rparr>"

section \<open>The encoder task\<close>

definition STEREO_FRAME_SIZE :: nat where "STEREO_FRAME_SIZE = 480 * 2"
definition AUDIO_SSRC :: u32 where "AUDIO_SSRC = 0x41554449"

definition audio_encode :: "('e \<Rightarrow> int list \<Rightarrow> 'e \<times> bytes option) \<Rightarrow> fl list \<Rightarrow> 'e \<Rightarrow> 'e \<times> bytes option" where
  "audio_encode opus pcm e = opus e (map pcm_i16 pcm)"

text \<open>\<open>frames\<close> counts the frames extracted; the runtime toggle is read once per frame.\<close>

record 'e audio_task =
  tk_encoder :: 'e
  tk_sequence :: u16
  tk_timestamp :: u32
  tk_accum :: "fl list"
  tk_recorder :: "(audio_recorder \<times> disk_file) option"
  tk_frames :: nat

definition audio_task_new :: "'e \<Rightarrow> (audio_recorder \<times> disk_file) option \<Rightarrow> 'e audio_task" where
  "audio_task_new e rec = \<lparr>tk_encoder = e, tk_sequence = 0, tk_timestamp = 0, tk_accum = [], tk_recorder = rec, tk_frames = 0\<rparr>"

definition audio_frame ::
    "('e \<Rightarrow> int list \<Rightarrow> 'e \<times> bytes option) \<Rightarrow> (nat \<Rightarrow> bool) \<Rightarrow> fl list \<Rightarrow> 'e audio_task \<Rightarrow> bytes list \<times> 'e audio_task" where
  "audio_frame opus gate pcm t =
     (let t = t\<lparr>tk_recorder := (if gate (tk_frames t) then map_option (write_pcm_f32 pcm) (tk_recorder t) else tk_recorder t),
                tk_frames := tk_frames t + 1\<rparr>
      in case audio_encode opus pcm (tk_encoder t) of
           (e, None) \<Rightarrow> ([], t\<lparr>tk_encoder := e\<rparr>)
         | (e, Some opus_data) \<Rightarrow>
             ([write_rtp_header [] 111 True (tk_sequence t) (tk_timestamp t) AUDIO_SSRC @ opus_data],
              t\<lparr>tk_encoder := e, tk_sequence := tk_sequence t + 1, tk_timestamp := tk_timestamp t + 480\<rparr>))"

lemma audio_frame_accum: "(sent, t') = audio_frame opus gate pcm t \<Longrightarrow> tk_accum t' = tk_accum t"
  by (auto simp: audio_frame_def Let_def split: prod.splits option.splits)

function audio_drain ::
    "('e \<Rightarrow> int list \<Rightarrow> 'e \<times> bytes option) \<Rightarrow> (nat \<Rightarrow> bool) \<Rightarrow> 'e audio_task \<Rightarrow> bytes list \<times> 'e audio_task" where
  "audio_drain opus gate t =
     (if length (tk_accum t) < STEREO_FRAME_SIZE then ([], t)
      else
        case audio_frame opus gate (take STEREO_FRAME_SIZE (tk_accum t)) (t\<lparr>tk_accum := drop STEREO_FRAME_SIZE (tk_accum t)\<rparr>) of
          (sent, t) \<Rightarrow> (case audio_drain opus gate t of (rest, t) \<Rightarrow> (sent @ rest, t)))"
  by pat_completeness auto

termination
  by (relation "measure (\<lambda>(_, _, t). length (tk_accum t))") (auto simp: STEREO_FRAME_SIZE_def dest!: audio_frame_accum)

declare audio_drain.simps [simp del]

definition audio_chunk ::
    "('e \<Rightarrow> int list \<Rightarrow> 'e \<times> bytes option) \<Rightarrow> (nat \<Rightarrow> bool) \<Rightarrow> fl list \<Rightarrow> 'e audio_task \<Rightarrow> bytes list \<times> 'e audio_task" where
  "audio_chunk opus gate chunk t = audio_drain opus gate (t\<lparr>tk_accum := tk_accum t @ chunk\<rparr>)"

fun audio_chunks ::
    "('e \<Rightarrow> int list \<Rightarrow> 'e \<times> bytes option) \<Rightarrow> (nat \<Rightarrow> bool) \<Rightarrow> fl list list \<Rightarrow> 'e audio_task \<Rightarrow> bytes list \<times> 'e audio_task" where
  "audio_chunks opus gate [] t = ([], t)"
| "audio_chunks opus gate (c # cs) t =
     (case audio_chunk opus gate c t of
        (sent, t) \<Rightarrow> (case audio_chunks opus gate cs t of (rest, t) \<Rightarrow> (sent @ rest, t)))"


section \<open>Whole frames\<close>

definition whole_frames :: "fl list \<Rightarrow> fl list list" where
  "whole_frames xs = filter (\<lambda>c. length c = STEREO_FRAME_SIZE) (chunks STEREO_FRAME_SIZE xs)"

definition unfinished :: "fl list \<Rightarrow> fl list" where
  "unfinished xs = drop (STEREO_FRAME_SIZE * (length xs div STEREO_FRAME_SIZE)) xs"

fun send_frames ::
    "('e \<Rightarrow> int list \<Rightarrow> 'e \<times> bytes option) \<Rightarrow> (nat \<Rightarrow> bool) \<Rightarrow> fl list list \<Rightarrow> 'e audio_task \<Rightarrow> bytes list \<times> 'e audio_task" where
  "send_frames opus gate [] t = ([], t)"
| "send_frames opus gate (f # fs) t =
     (case audio_frame opus gate f t of (sent, t) \<Rightarrow> (case send_frames opus gate fs t of (rest, t) \<Rightarrow> (sent @ rest, t)))"

lemma frame_size_pos [simp]: "0 < STEREO_FRAME_SIZE"
  by (simp add: STEREO_FRAME_SIZE_def)

lemma whole_short [simp]: "length xs < STEREO_FRAME_SIZE \<Longrightarrow> whole_frames xs = []"
  by (cases "xs = []") (simp_all add: whole_frames_def chunks_step chunks_nonempty)

lemma unfinished_short [simp]: "length xs < STEREO_FRAME_SIZE \<Longrightarrow> unfinished xs = xs"
  by (simp add: unfinished_def)

lemma whole_step:
  "STEREO_FRAME_SIZE \<le> length xs \<Longrightarrow> whole_frames xs = take STEREO_FRAME_SIZE xs # whole_frames (drop STEREO_FRAME_SIZE xs)"
  by (cases "xs = []") (simp_all add: whole_frames_def chunks_step STEREO_FRAME_SIZE_def)

lemma unfinished_step:
  assumes "STEREO_FRAME_SIZE \<le> length xs"
  shows "unfinished xs = unfinished (drop STEREO_FRAME_SIZE xs)"
proof -
  have "length xs div STEREO_FRAME_SIZE = Suc ((length xs - STEREO_FRAME_SIZE) div STEREO_FRAME_SIZE)"
    using assms by (simp add: le_div_geq)
  then show ?thesis by (simp add: unfinished_def add.commute)
qed

lemma whole_append:
  "whole_frames (xs @ ys) = whole_frames xs @ whole_frames (unfinished xs @ ys) \<and> unfinished (xs @ ys) = unfinished (unfinished xs @ ys)"
proof (induction xs rule: length_induct)
  case (1 xs)
  show ?case
  proof (cases "length xs < STEREO_FRAME_SIZE")
    case False
    then have l: "STEREO_FRAME_SIZE \<le> length xs" "STEREO_FRAME_SIZE \<le> length (xs @ ys)" by simp_all
    have "length (drop STEREO_FRAME_SIZE xs) < length xs" using l(1) by (cases xs) (simp_all add: STEREO_FRAME_SIZE_def)
    with 1 have "whole_frames (drop STEREO_FRAME_SIZE xs @ ys)
        = whole_frames (drop STEREO_FRAME_SIZE xs) @ whole_frames (unfinished (drop STEREO_FRAME_SIZE xs) @ ys)
      \<and> unfinished (drop STEREO_FRAME_SIZE xs @ ys) = unfinished (unfinished (drop STEREO_FRAME_SIZE xs) @ ys)" by blast
    then show ?thesis using whole_step [OF l(1)] whole_step [OF l(2)] unfinished_step [OF l(1)] unfinished_step [OF l(2)] l by simp
  qed simp
qed

lemma concat_whole: "concat (whole_frames xs) = take (STEREO_FRAME_SIZE * (length xs div STEREO_FRAME_SIZE)) xs"
proof (induction xs rule: length_induct)
  case (1 xs)
  show ?case
  proof (cases "length xs < STEREO_FRAME_SIZE")
    case False
    then have l: "STEREO_FRAME_SIZE \<le> length xs" by simp
    have "length (drop STEREO_FRAME_SIZE xs) < length xs" using l by (cases xs) (simp_all add: STEREO_FRAME_SIZE_def)
    with 1 have "concat (whole_frames (drop STEREO_FRAME_SIZE xs))
        = take (STEREO_FRAME_SIZE * ((length xs - STEREO_FRAME_SIZE) div STEREO_FRAME_SIZE)) (drop STEREO_FRAME_SIZE xs)" by simp
    moreover have "length xs div STEREO_FRAME_SIZE = Suc ((length xs - STEREO_FRAME_SIZE) div STEREO_FRAME_SIZE)"
      using l by (simp add: le_div_geq)
    ultimately show ?thesis using whole_step [OF l] by (simp add: take_add)
  qed simp
qed

lemma audio_frame_with_accum:
  "audio_frame opus gate pcm (t\<lparr>tk_accum := a\<rparr>) = (case audio_frame opus gate pcm t of (sent, t) \<Rightarrow> (sent, t\<lparr>tk_accum := a\<rparr>))"
  by (simp add: audio_frame_def Let_def split: prod.splits option.splits)

lemma send_frames_with_accum:
  "send_frames opus gate fs (t\<lparr>tk_accum := a\<rparr>) = (case send_frames opus gate fs t of (sent, t) \<Rightarrow> (sent, t\<lparr>tk_accum := a\<rparr>))"
  by (induction fs arbitrary: t) (simp_all add: audio_frame_with_accum split: prod.splits)

lemma send_frames_append:
  "send_frames opus gate (fs @ gs) t = (case send_frames opus gate fs t of
     (sent, t) \<Rightarrow> (case send_frames opus gate gs t of (rest, t) \<Rightarrow> (sent @ rest, t)))"
  by (induction fs arbitrary: t) (simp_all split: prod.splits)

lemma drain_frames:
  "audio_drain opus gate t = (case send_frames opus gate (whole_frames (tk_accum t)) t of
     (sent, t') \<Rightarrow> (sent, t'\<lparr>tk_accum := unfinished (tk_accum t)\<rparr>))"
proof (induction opus gate t rule: audio_drain.induct)
  case (1 opus gate t)
  show ?case
  proof (cases "length (tk_accum t) < STEREO_FRAME_SIZE")
    case True
    then show ?thesis by (subst audio_drain.simps) simp
  next
    case False
    then have l: "STEREO_FRAME_SIZE \<le> length (tk_accum t)" by simp
    let ?pcm = "take STEREO_FRAME_SIZE (tk_accum t)" and ?t = "t\<lparr>tk_accum := drop STEREO_FRAME_SIZE (tk_accum t)\<rparr>"
    obtain sent t1 where f: "audio_frame opus gate ?pcm t = (sent, t1)" by fastforce
    let ?t1 = "t1\<lparr>tk_accum := drop STEREO_FRAME_SIZE (tk_accum t)\<rparr>"
    have f': "audio_frame opus gate ?pcm ?t = (sent, ?t1)" by (simp add: audio_frame_with_accum f)
    have "audio_drain opus gate ?t1 = (case send_frames opus gate (whole_frames (tk_accum ?t1)) ?t1 of
        (sent, t') \<Rightarrow> (sent, t'\<lparr>tk_accum := unfinished (tk_accum ?t1)\<rparr>))"
      using 1 [OF False f' [symmetric]] by simp
    then show ?thesis
      using False by (subst audio_drain.simps)
        (simp add: f' f whole_step [OF l] unfinished_step [OF l] send_frames_with_accum split: prod.splits)
  qed
qed

lemma chunks_frames:
  "audio_chunks opus gate cs t = (case send_frames opus gate (whole_frames (tk_accum t @ concat cs)) t of
     (sent, t') \<Rightarrow> (sent, t'\<lparr>tk_accum := unfinished (tk_accum t @ concat cs)\<rparr>))"
  if "length (tk_accum t) < STEREO_FRAME_SIZE"
  using that
proof (induction cs arbitrary: t)
  case (Cons c cs)
  let ?a = "tk_accum t @ c"
  obtain sent t1 where s: "send_frames opus gate (whole_frames ?a) t = (sent, t1)" by fastforce
  have d: "audio_chunk opus gate c t = (sent, t1\<lparr>tk_accum := unfinished ?a\<rparr>)"
    by (simp add: audio_chunk_def drain_frames send_frames_with_accum s)
  have "length (unfinished ?a) < STEREO_FRAME_SIZE"
    by (simp only: unfinished_def length_drop minus_mult_div_eq_mod mod_less_divisor frame_size_pos)
  then show ?case
    using Cons.IH [of "t1\<lparr>tk_accum := unfinished ?a\<rparr>"] whole_append [of ?a "concat cs"]
    by (simp add: d s send_frames_with_accum send_frames_append split: prod.splits)
next
  case Nil
  then show ?case by simp
qed


section \<open>What is sent\<close>

lemma short_new: "length (tk_accum (audio_task_new e rec)) < STEREO_FRAME_SIZE"
  by (simp add: audio_task_new_def)

lemma chunks_new:
  "audio_chunks opus gate cs (audio_task_new e rec) = (case send_frames opus gate (whole_frames (concat cs)) (audio_task_new e rec) of
     (sent, t') \<Rightarrow> (sent, t'\<lparr>tk_accum := unfinished (concat cs)\<rparr>))"
  using chunks_frames [OF short_new, of opus gate cs e rec] by (simp add: audio_task_new_def)

text \<open>
  The audio stream does not depend on how the capture delivers its samples: chunk by chunk or all at once, the
  same packets are sent, the same samples recorded, and the task ends in the same state.
\<close>

theorem audio_any_chunks:
  "audio_chunks opus gate cs (audio_task_new e rec) = audio_chunk opus gate (concat cs) (audio_task_new e rec)"
  by (simp add: chunks_frames [OF short_new] audio_chunk_def drain_frames send_frames_with_accum split: prod.splits)

text \<open>The packets Opus makes of a sequence of frames, those it fails on left out.\<close>

fun opus_stream :: "('e \<Rightarrow> int list \<Rightarrow> 'e \<times> bytes option) \<Rightarrow> 'e \<Rightarrow> fl list list \<Rightarrow> bytes list" where
  "opus_stream opus e [] = []"
| "opus_stream opus e (f # fs) =
     (case opus e (map pcm_i16 f) of (e, r) \<Rightarrow> (case r of None \<Rightarrow> [] | Some d \<Rightarrow> [d]) @ opus_stream opus e fs)"

definition audio_packet :: "nat \<Rightarrow> bytes \<Rightarrow> bytes" where
  "audio_packet n d = write_rtp_header [] 111 True (of_nat n) (of_nat (480 * n)) AUDIO_SSRC @ d"

lemma send_frames_numbered:
  "tk_sequence t = of_nat n \<Longrightarrow> tk_timestamp t = of_nat (480 * n) \<Longrightarrow>
   fst (send_frames opus gate fs t) = map (\<lambda>(k, d). audio_packet k d) (enumerate n (opus_stream opus (tk_encoder t) fs))"
proof (induction fs arbitrary: t n)
  case (Cons f fs)
  let ?t = "t\<lparr>tk_recorder := (if gate (tk_frames t) then map_option (write_pcm_f32 f) (tk_recorder t) else tk_recorder t),
      tk_frames := tk_frames t + 1\<rparr>"
  obtain e r where e: "opus (tk_encoder t) (map pcm_i16 f) = (e, r)" by fastforce
  show ?case
  proof (cases r)
    case None
    have "audio_frame opus gate f t = ([], ?t\<lparr>tk_encoder := e\<rparr>)" by (simp add: audio_frame_def audio_encode_def e None)
    with Cons.IH [of "?t\<lparr>tk_encoder := e\<rparr>" n] Cons.prems e None show ?thesis by (simp add: split_beta)
  next
    case (Some d)
    let ?s = "?t\<lparr>tk_encoder := e, tk_sequence := tk_sequence t + 1, tk_timestamp := tk_timestamp t + 480\<rparr>"
    have "audio_frame opus gate f t = ([audio_packet n d], ?s)"
      using Cons.prems by (simp add: audio_frame_def audio_encode_def e Some audio_packet_def)
    moreover have "tk_sequence ?s = of_nat (Suc n)" "tk_timestamp ?s = of_nat (480 * Suc n)"
      using Cons.prems by (simp_all add: add.commute)
    ultimately show ?thesis using Cons.IH [of ?s "Suc n"] e Some by (simp add: split_beta)
  qed
qed simp

text \<open>
  C2. Every packet is numbered as it is sent: the \<open>n\<close>-th packet is an Opus packet with its marker set, sequence
  number \<open>n\<close> modulo 2^16 and timestamp \<open>480 * n\<close> modulo 2^32, and the payloads are what Opus makes of the
  successive 10 ms frames, a frame it fails on using up no number.
\<close>

theorem audio_packets_numbered:
  "fst (audio_chunks opus gate cs (audio_task_new e rec)) =
     map (\<lambda>(n, d). audio_packet n d) (enumerate 0 (opus_stream opus e (whole_frames (concat cs))))"
proof -
  have "fst (audio_chunks opus gate cs (audio_task_new e rec)) = fst (send_frames opus gate (whole_frames (concat cs)) (audio_task_new e rec))"
    by (simp add: chunks_new split: prod.splits)
  also have "\<dots> = map (\<lambda>(n, d). audio_packet n d) (enumerate 0 (opus_stream opus e (whole_frames (concat cs))))"
    using send_frames_numbered [of "audio_task_new e rec" 0] by (simp add: audio_task_new_def)
  finally show ?thesis .
qed

lemma send_frames_recorder:
  "(\<And>n. gate n) \<Longrightarrow> tk_recorder (snd (send_frames opus gate fs t)) = map_option (wav_run (map WavPcm fs)) (tk_recorder t)"
proof (induction fs arbitrary: t)
  case (Cons f fs)
  obtain sent t1 where f: "audio_frame opus gate f t = (sent, t1)" by fastforce
  have "tk_recorder t1 = map_option (write_pcm_f32 f) (tk_recorder t)"
    using f Cons.prems by (auto simp: audio_frame_def Let_def split: prod.splits option.splits)
  with Cons.IH [OF Cons.prems, of t1] f show ?case
    by (cases "tk_recorder t") (simp_all add: wav_run_def split_beta)
next
  case Nil
  then show ?case by (cases "tk_recorder t") (simp_all add: wav_run_def)
qed

text \<open>
  C30. The recorded audio is lossless and complete: with the toggle on and storage that works, closing the
  recorder leaves a WAV of exactly the captured samples, up to the last whole 10 ms frame, also where Opus failed.
\<close>

theorem audio_recording_lossless:
  assumes "wav_open dir_ok open_new path 48000 2 (new_file []) = (Some r, f)"
    and "2 * length (concat cs) \<le> MAX_DATA_BYTES" "samples = take (960 * (length (concat cs) div 960)) (concat cs)"
  shows "map_option (\<lambda>rf. f_data (snd (wav_close rf))) (tk_recorder (snd (audio_chunks opus (\<lambda>_. True) cs (audio_task_new e (Some (r, f))))))
    = Some (wav_header 48000 2 (of_nat (36 + 2 * length samples)) (of_nat (2 * length samples)) @ pcm_bytes samples)"
proof -
  have "tk_recorder (snd (audio_chunks opus (\<lambda>_. True) cs (audio_task_new e (Some (r, f)))))
      = tk_recorder (snd (send_frames opus (\<lambda>_. True) (whole_frames (concat cs)) (audio_task_new e (Some (r, f)))))"
    by (simp add: chunks_new split: prod.splits)
  also have "\<dots> = Some (wav_run (map WavPcm (whole_frames (concat cs))) (r, f))"
    by (subst send_frames_recorder) (simp_all add: audio_task_new_def)
  finally have rec: "tk_recorder (snd (audio_chunks opus (\<lambda>_. True) cs (audio_task_new e (Some (r, f)))))
      = Some (wav_run (map WavPcm (whole_frames (concat cs))) (r, f))" .
  have w: "concat (whole_frames (concat cs)) = samples" by (simp add: concat_whole assms(3) STEREO_FRAME_SIZE_def)
  have "2 * length (concat (whole_frames (concat cs))) \<le> MAX_DATA_BYTES" unfolding w using assms(2,3) by simp
  from closed_wav [OF assms(1) this] show ?thesis by (simp only: rec w option.map)
qed

theorem audio_recording_lossless_witness:
  "\<exists>r f. wav_open True (\<lambda>_. Created) ''a.wav'' 48000 2 (new_file []) = (Some r, f)
    \<and> map_option (\<lambda>rf. f_data (snd (wav_close rf)))
        (tk_recorder (snd (audio_chunks (\<lambda>e _. (e, None)) (\<lambda>_. True) [[Fin 1], replicate 960 (Fin 0)] (audio_task_new () (Some (r, f))))))
      = Some (wav_header 48000 2 1956 1920 @ pcm_bytes (Fin 1 # replicate 959 (Fin 0)))"
proof -
  obtain r f where o: "wav_open True (\<lambda>_. Created) ''a.wav'' 48000 2 (new_file []) = (Some r, f)"
    using wav_open_example by blast
  have s: "Fin 1 # replicate 959 (Fin 0) = take (960 * (length (concat [[Fin 1], replicate 960 (Fin 0)]) div 960))
      (concat [[Fin 1], replicate 960 (Fin 0)])"
    by (simp add: take_Cons')
  from audio_recording_lossless [OF o _ s, of "\<lambda>e _. (e, None)" "()"] o show ?thesis by (simp add: MAX_DATA_BYTES_def)
qed

section \<open>The capture thread\<close>

text \<open>After every poll the status flag says whether a stream is open, and a device that failed is left alone for 30 seconds.\<close>

lemma capture_poll_active:
  "ct_audio_active t \<longleftrightarrow> ct_capture t \<noteq> None \<Longrightarrow>
     ct_audio_active (capture_poll now default_now started t) \<longleftrightarrow> ct_capture (capture_poll now default_now started t) \<noteq> None"
  by (cases started) (auto simp: capture_poll_def Let_def intro: exI [of _ False])

lemma capture_poll_waits:
  assumes "ct_capture t = None" "ct_failed_attempt t = Some (d, since)" "now < since + REOPEN_RETRY"
  shows "ct_capture (capture_poll now (Some d) started t) = None"
proof -
  have "now - since < REOPEN_RETRY" using assms(3) by (simp add: REOPEN_RETRY_def)
  with assms(1,2) show ?thesis by (simp add: capture_poll_def should_reopen_def Let_def)
qed

end
