(* ===== verification/Sanitize.thy ===== *)
theory Sanitize imports Prelude "HOL-Library.Monad_Syntax" begin

text \<open>
  \<open>companion-app/src/export.rs\<close>: masking personal data in the logs of a diagnostics zip. A text is its
  UTF-8 bytes; taking a slice of it that is out of range or cuts a character panics, which is \<open>None\<close>.
\<close>

section \<open>Bytes and slices\<close>

definition ascii :: "string \<Rightarrow> bytes" where
  "ascii s = map (\<lambda>c. of_nat (of_char c)) s"

definition is_digit :: "u8 \<Rightarrow> bool" where "is_digit c \<longleftrightarrow> 48 \<le> c \<and> c \<le> 57"
definition is_upper :: "u8 \<Rightarrow> bool" where "is_upper c \<longleftrightarrow> 65 \<le> c \<and> c \<le> 90"
definition is_alpha :: "u8 \<Rightarrow> bool" where "is_alpha c \<longleftrightarrow> is_upper c \<or> 97 \<le> c \<and> c \<le> 122"
definition is_alnum :: "u8 \<Rightarrow> bool" where "is_alnum c \<longleftrightarrow> is_alpha c \<or> is_digit c"
definition is_hex :: "u8 \<Rightarrow> bool" where
  "is_hex c \<longleftrightarrow> is_digit c \<or> 65 \<le> c \<and> c \<le> 70 \<or> 97 \<le> c \<and> c \<le> 102"
definition is_blank :: "u8 \<Rightarrow> bool" where "is_blank c \<longleftrightarrow> c = 9 \<or> c = 10 \<or> c = 12 \<or> c = 13 \<or> c = 32"
definition lower :: "u8 \<Rightarrow> u8" where "lower c = (if is_upper c then c + 32 else c)"
definition same_ignoring_case :: "bytes \<Rightarrow> bytes \<Rightarrow> bool" where
  "same_ignoring_case a b \<longleftrightarrow> map lower a = map lower b"

definition is_word_byte :: "u8 \<Rightarrow> bool" where "is_word_byte b \<longleftrightarrow> is_alnum b \<or> b = 95"

text \<open>A continuation byte of UTF-8, and where a text may be cut.\<close>

definition is_continuation :: "u8 \<Rightarrow> bool" where "is_continuation c \<longleftrightarrow> 128 \<le> c \<and> c < 192"

definition is_boundary :: "bytes \<Rightarrow> nat \<Rightarrow> bool" where
  "is_boundary b i \<longleftrightarrow> i = 0 \<or> i = length b \<or> i < length b \<and> \<not> is_continuation (b ! i)"

definition str_slice :: "bytes \<Rightarrow> nat \<Rightarrow> nat \<Rightarrow> bytes option" where
  "str_slice b i j = (if i \<le> j \<and> j \<le> length b \<and> is_boundary b i \<and> is_boundary b j then Some (sub_range b i j) else None)"

text \<open>The loops \<open>while j < end && p(b[j]) { j += 1 }\<close>, up to the end of the text or to \<open>e\<close>, and backwards.\<close>

definition scan :: "(u8 \<Rightarrow> bool) \<Rightarrow> bytes \<Rightarrow> nat \<Rightarrow> nat" where
  "scan p b j = j + length (takeWhile p (drop j b))"

definition scan_to :: "(u8 \<Rightarrow> bool) \<Rightarrow> bytes \<Rightarrow> nat \<Rightarrow> nat \<Rightarrow> nat" where
  "scan_to p b j e = j + length (takeWhile p (sub_range b j e))"

definition scan_back :: "(u8 \<Rightarrow> bool) \<Rightarrow> bytes \<Rightarrow> nat \<Rightarrow> nat \<Rightarrow> nat" where
  "scan_back p b s j = j - length (takeWhile p (rev (sub_range b s j)))"

fun replace_from :: "bytes \<Rightarrow> nat \<Rightarrow> (nat \<times> nat) list \<Rightarrow> bytes \<Rightarrow> bytes option" where
  "replace_from text pos [] label = str_slice text pos (length text)"
| "replace_from text pos ((s, e) # spans) label = do {
     kept \<leftarrow> str_slice text pos s;
     rest \<leftarrow> replace_from text e spans label;
     Some (kept @ label @ rest)
   }"

definition replace_spans :: "bytes \<Rightarrow> (nat \<times> nat) list \<Rightarrow> bytes \<Rightarrow> bytes option" where
  "replace_spans text spans label = (if spans = [] then Some text else replace_from text 0 spans label)"

section \<open>Keys: SSIDs and PINs\<close>

definition QUOTE :: u8 where "QUOTE = 34"

definition key_at :: "bytes \<Rightarrow> bytes \<Rightarrow> nat \<Rightarrow> bool" where
  "key_at b k i \<longleftrightarrow> i + length k \<le> length b \<and> same_ignoring_case (sub_range b i (i + length k)) k
     \<and> (i = 0 \<or> \<not> is_word_byte (b ! (i - 1)))"

text \<open>Where the value starts after a key ending at \<open>j\<close>, if a \<open>:\<close> or \<open>=\<close> follows.\<close>

definition value_start :: "bytes \<Rightarrow> nat \<Rightarrow> nat option" where
  "value_start b j =
     (let j = (if j < length b \<and> b ! j = QUOTE then j + 1 else j);
          j = scan (\<lambda>c. c = 32) b j
      in if j < length b \<and> (b ! j = 58 \<or> b ! j = 61) then Some (scan (\<lambda>c. c = 32) b (j + 1)) else None)"

lemma scan_ge: "j \<le> scan p b j"
  by (simp add: scan_def)

lemma value_start_gt: "value_start b j = Some v \<Longrightarrow> j < v"
  using scan_ge [of j "\<lambda>c. c = 32" b] scan_ge [of "j + 1" "\<lambda>c. c = 32" b]
    scan_ge [of "scan (\<lambda>c. c = 32) b j + 1" "\<lambda>c. c = 32" b] scan_ge [of "scan (\<lambda>c. c = 32) b (j + 1) + 1" "\<lambda>c. c = 32" b]
  by (auto simp: value_start_def Let_def split: if_splits)

function key_value_from :: "bytes \<Rightarrow> bytes \<Rightarrow> nat \<Rightarrow> nat list" where
  "key_value_from b k i =
     (if i + length k \<le> length b then
        (case (if key_at b k i then value_start b (i + length k) else None) of
           Some j \<Rightarrow> j # key_value_from b k j
         | None \<Rightarrow> key_value_from b k (i + 1))
      else [])"
  by pat_completeness auto
termination
  by (relation "measure (\<lambda>(b, k, i). Suc (length b) - i)") (auto split: if_splits dest!: value_start_gt)

declare key_value_from.simps [simp del]

definition key_value_starts :: "bytes \<Rightarrow> bytes \<Rightarrow> nat list" where
  "key_value_starts b k = key_value_from b k 0"

function quoted_end :: "bytes \<Rightarrow> nat \<Rightarrow> nat" where
  "quoted_end b j =
     (if j < length b \<and> b ! j \<noteq> QUOTE \<and> b ! j \<noteq> 10 then
        quoted_end b (if b ! j = 92 \<and> j + 1 < length b then j + 2 else j + 1)
      else j)"
  by pat_completeness auto
termination by (relation "measure (\<lambda>(b, j). length b - j)") auto

declare quoted_end.simps [simp del]

definition ssid_span :: "bytes \<Rightarrow> nat \<Rightarrow> (nat \<times> nat) option" where
  "ssid_span b start =
     (if length b \<le> start then None
      else if b ! start = QUOTE then
        (let e = min (quoted_end b (start + 1)) (length b) in if start + 1 < e then Some (start + 1, e) else None)
      else if b ! start \<noteq> 60 then
        (let j = scan (\<lambda>c. \<not> is_blank c \<and> c \<notin> set (ascii '',;)}]'')) b start in if start < j then Some (start, j) else None)
      else None)"

definition mask_ssids :: "bytes \<Rightarrow> bytes option" where
  "mask_ssids text = replace_spans text (List.map_filter (ssid_span text) (key_value_starts text (ascii ''ssid''))) (ascii ''[REDACTED_SSID]'')"

definition pin_span :: "bytes \<Rightarrow> nat \<Rightarrow> (nat \<times> nat) option" where
  "pin_span b start =
     (let digits_start = (if start < length b \<and> b ! start = QUOTE then start + 1 else start);
          j = scan is_digit b digits_start;
          n = j - digits_start
      in if 4 \<le> n \<and> n \<le> 8 \<and> (j = length b \<or> \<not> is_word_byte (b ! j)) then Some (digits_start, j) else None)"

definition mask_pins :: "bytes \<Rightarrow> bytes option" where
  "mask_pins text = replace_spans text (List.map_filter (pin_span text) (key_value_starts text (ascii ''pin''))) (ascii ''[REDACTED_PIN]'')"

section \<open>User names in paths\<close>

definition is_path_sep :: "u8 \<Rightarrow> bool" where "is_path_sep c \<longleftrightarrow> c = 92 \<or> c = 47"

definition stops_name :: "u8 \<Rightarrow> bool" where
  "stops_name c \<longleftrightarrow> c \<in> set (ascii [CHR 0x22, CHR 0x27, CHR 0x0D, CHR 0x0A, CHR 0x09] @ ascii ''<>|*?:,;'')"

definition marker_len :: "bytes \<Rightarrow> nat \<Rightarrow> nat option" where
  "marker_len b i =
     map_option length (find (\<lambda>m. i + 1 + length m < length b \<and> same_ignoring_case (sub_range b (i + 1) (i + 1 + length m)) m
         \<and> is_path_sep (b ! (i + 1 + length m))) [ascii ''users'', ascii ''home''])"

definition name_bounds :: "bytes \<Rightarrow> nat \<Rightarrow> nat \<times> nat" where
  "name_bounds b j =
     (let name_start = scan is_path_sep b j;
          j = scan (\<lambda>c. \<not> is_path_sep c \<and> \<not> stops_name c) b name_start;
          name_end = (if j < length b \<and> is_path_sep (b ! j) then j else scan_to (\<lambda>c. \<not> is_blank c) b name_start j)
      in (name_start, name_end))"

function user_spans :: "bytes \<Rightarrow> nat \<Rightarrow> (nat \<times> nat) list option" where
  "user_spans b i =
     (if i < length b then
        (if \<not> is_path_sep (b ! i) then user_spans b (i + 1)
         else case marker_len b i of
           None \<Rightarrow> user_spans b (i + 1)
         | Some m \<Rightarrow>
             (case name_bounds b (i + 1 + m) of (s, e) \<Rightarrow>
               if s < e then do {
                 name \<leftarrow> str_slice b s e;
                 rest \<leftarrow> user_spans b (max e (i + 1));
                 Some (if take 9 name = ascii ''[REDACTED'' then rest else (s, e) # rest)
               }
               else user_spans b (max e (i + 1))))
      else Some [])"
  by pat_completeness auto
termination by (relation "measure (\<lambda>(b, i). length b - i)") auto

declare user_spans.simps [simp del]

definition mask_user_paths :: "bytes \<Rightarrow> bytes option" where
  "mask_user_paths text = do {
     spans \<leftarrow> user_spans text 0;
     replace_spans text spans (ascii ''[REDACTED_USER]'')
   }"

section \<open>Addresses\<close>

definition is_email_local :: "u8 \<Rightarrow> bool" where
  "is_email_local c \<longleftrightarrow> is_alnum c \<or> c \<in> set (ascii ''._%+-'')"

definition is_email_domain :: "u8 \<Rightarrow> bool" where
  "is_email_domain c \<longleftrightarrow> is_alnum c \<or> c = 46 \<or> c = 45"

text \<open>\<open>rfind('.')\<close>.\<close>

definition rfind :: "u8 \<Rightarrow> bytes \<Rightarrow> nat option" where
  "rfind c xs = (if c \<in> set xs then Some (length xs - 1 - length (takeWhile (\<lambda>x. x \<noteq> c) (rev xs))) else None)"

definition valid_tld :: "bytes \<Rightarrow> bool" where
  "valid_tld domain = (case rfind 46 domain of
     None \<Rightarrow> False
   | Some dot \<Rightarrow> (let tld = drop (dot + 1) domain in 0 < dot \<and> 2 \<le> length tld \<and> list_all is_alpha tld))"

definition email_bounds :: "bytes \<Rightarrow> nat \<Rightarrow> nat \<Rightarrow> nat \<times> nat" where
  "email_bounds b last_end at_sign =
     (let start = scan_back is_email_local b last_end at_sign;
          start = scan_to (\<lambda>c. c = 46) b start at_sign;
          e = scan is_email_domain b (at_sign + 1);
          e = scan_back (\<lambda>c. c = 46 \<or> c = 45) b (at_sign + 1) e
      in (start, e))"

fun email_spans :: "bytes \<Rightarrow> nat \<Rightarrow> nat list \<Rightarrow> (nat \<times> nat) list option" where
  "email_spans b last_end [] = Some []"
| "email_spans b last_end (p # ps) =
     (if p < last_end then email_spans b last_end ps
      else case email_bounds b last_end p of (start, e) \<Rightarrow>
        if start = p then email_spans b last_end ps
        else do {
          domain \<leftarrow> str_slice b (p + 1) e;
          if valid_tld domain then do { rest \<leftarrow> email_spans b e ps; Some ((start, e) # rest) }
          else email_spans b last_end ps
        })"

definition mask_emails :: "bytes \<Rightarrow> bytes option" where
  "mask_emails text = do {
     spans \<leftarrow> email_spans text 0 (filter (\<lambda>i. text ! i = 64) [0..<length text]);
     replace_spans text spans (ascii ''[REDACTED_EMAIL]'')
   }"

definition MAC_LEN :: nat where "MAC_LEN = 17"

definition is_mac_at :: "bytes \<Rightarrow> nat \<Rightarrow> bool" where
  "is_mac_at b i \<longleftrightarrow>
     (let sep = b ! (i + 2) in (sep = 58 \<or> sep = 45)
        \<and> list_all (\<lambda>g. is_hex (b ! (i + g * 3)) \<and> is_hex (b ! (i + g * 3 + 1))) [0..<6]
        \<and> list_all (\<lambda>g. b ! (i + g * 3 + 2) = sep) [0..<5])"

definition mac_matches :: "bytes \<Rightarrow> nat \<Rightarrow> bool" where
  "mac_matches b i \<longleftrightarrow> (i = 0 \<or> \<not> is_hex (b ! (i - 1)))
     \<and> (i + MAC_LEN = length b \<or> \<not> is_hex (b ! (i + MAC_LEN))) \<and> is_mac_at b i"

function mac_spans :: "bytes \<Rightarrow> nat \<Rightarrow> (nat \<times> nat) list" where
  "mac_spans b i =
     (if i + MAC_LEN \<le> length b then
        if mac_matches b i then (i, i + MAC_LEN) # mac_spans b (i + MAC_LEN) else mac_spans b (i + 1)
      else [])"
  by pat_completeness auto
termination by (relation "measure (\<lambda>(b, i). Suc (length b) - i)") (auto simp: MAC_LEN_def)

declare mac_spans.simps [simp del]

definition mask_macs :: "bytes \<Rightarrow> bytes option" where
  "mask_macs text = replace_spans text (mac_spans text 0) (ascii ''[REDACTED_MAC]'')"

definition is_ipv4_byte :: "u8 \<Rightarrow> bool" where "is_ipv4_byte c \<longleftrightarrow> is_digit c \<or> c = 46"

text \<open>The numbers of a run \<open>b[p..e]\<close> of digits and dots.\<close>

function number_parts :: "bytes \<Rightarrow> nat \<Rightarrow> nat \<Rightarrow> (nat \<times> nat) list" where
  "number_parts b p e =
     (if p < e then
        if b ! p = 46 then number_parts b (p + 1) e
        else (p, scan_to is_digit b p e) # number_parts b (max (p + 1) (scan_to is_digit b p e)) e
      else [])"
  by pat_completeness auto
termination by (relation "measure (\<lambda>(b, p, e). e - p)") auto

declare number_parts.simps [simp del]

definition digits_value :: "bytes \<Rightarrow> nat" where
  "digits_value ds = foldl (\<lambda>a c. 10 * a + (unat c - 48)) 0 ds"

text \<open>\<open>parse::<u16>()\<close> of at most three digits.\<close>

definition octet_ok :: "bytes \<Rightarrow> nat \<times> nat \<Rightarrow> bool option" where
  "octet_ok b se = (case se of (s, e) \<Rightarrow>
     if 3 < e - s then Some False
     else map_option (\<lambda>ds. ds \<noteq> [] \<and> list_all is_digit ds \<and> digits_value ds \<le> 255) (str_slice b s e))"

fun all_octets :: "bytes \<Rightarrow> (nat \<times> nat) list \<Rightarrow> bool option" where
  "all_octets b [] = Some True"
| "all_octets b (p # ps) = do { ok \<leftarrow> octet_ok b p; if ok then all_octets b ps else Some False }"

fun adjacent :: "(nat \<times> nat) list \<Rightarrow> bool" where
  "adjacent (p # q # ps) \<longleftrightarrow> fst q = snd p + 1 \<and> adjacent (q # ps)"
| "adjacent _ \<longleftrightarrow> True"

definition ipv4_span :: "bytes \<Rightarrow> nat \<Rightarrow> nat \<Rightarrow> (nat \<times> nat) option option" where
  "ipv4_span b run_start run_end =
     (let parts = number_parts b run_start run_end in
      if length parts = 4 \<and> adjacent parts
      then map_option (\<lambda>ok. if ok then Some (fst (parts ! 0), snd (parts ! 3)) else None) (all_octets b parts)
      else Some None)"

function ipv4_spans :: "bytes \<Rightarrow> nat \<Rightarrow> (nat \<times> nat) list option" where
  "ipv4_spans b i =
     (if i < length b then
        if \<not> is_ipv4_byte (b ! i) then ipv4_spans b (i + 1)
        else do {
          span \<leftarrow> ipv4_span b i (scan is_ipv4_byte b i);
          rest \<leftarrow> ipv4_spans b (max (i + 1) (scan is_ipv4_byte b i));
          Some (case span of None \<Rightarrow> rest | Some se \<Rightarrow> se # rest)
        }
      else Some [])"
  by pat_completeness auto
termination by (relation "measure (\<lambda>(b, i). length b - i)") auto

declare ipv4_spans.simps [simp del]

definition mask_ipv4 :: "bytes \<Rightarrow> bytes option" where
  "mask_ipv4 text = do {
     spans \<leftarrow> ipv4_spans text 0;
     replace_spans text spans (ascii ''[REDACTED_IP]'')
   }"

definition is_v6_byte :: "u8 \<Rightarrow> bool" where "is_v6_byte c \<longleftrightarrow> is_hex c \<or> c = 58"

fun has_part :: "bytes \<Rightarrow> bytes \<Rightarrow> bool" where
  "has_part [] part \<longleftrightarrow> part = []"
| "has_part (x # xs) part \<longleftrightarrow> take (length part) (x # xs) = part \<or> has_part xs part"

text \<open>\<open>matches("::").count()\<close>: non-overlapping, from the left.\<close>

fun count_double_colons :: "bytes \<Rightarrow> nat" where
  "count_double_colons (x # y # xs) = (if x = 58 \<and> y = 58 then Suc (count_double_colons xs) else count_double_colons (y # xs))"
| "count_double_colons _ = 0"

fun split_on :: "u8 \<Rightarrow> bytes \<Rightarrow> bytes list" where
  "split_on c [] = [[]]"
| "split_on c (x # xs) = (if x = c then [] # split_on c xs
     else case split_on c xs of g # gs \<Rightarrow> (x # g) # gs | [] \<Rightarrow> [[x]])"

definition looks_like_ipv6 :: "bytes \<Rightarrow> bool" where
  "looks_like_ipv6 s =
     (if has_part s [58, 58, 58] \<or> 1 < count_double_colons s then False
      else
        let groups = split_on 58 s in
        if 9 < length groups \<or> list_ex (\<lambda>g. 4 < length g) groups then False
        else
          let non_empty = length (filter (\<lambda>g. g \<noteq> []) groups) in
          if has_part s [58, 58] then 2 \<le> non_empty else length groups = 8 \<and> non_empty = 8)"

definition v6_bounds :: "bytes \<Rightarrow> nat \<Rightarrow> nat \<Rightarrow> nat \<times> nat" where
  "v6_bounds b run_start run_end =
     (let e = (if 2 \<le> run_end - run_start \<and> b ! (run_end - 1) = 58 \<and> b ! (run_end - 2) \<noteq> 58 then run_end - 1 else run_end);
          s = (if 2 \<le> e - run_start \<and> b ! run_start = 58 \<and> b ! (run_start + 1) \<noteq> 58 then run_start + 1 else run_start)
      in (s, e))"

function ipv6_spans :: "bytes \<Rightarrow> nat \<Rightarrow> (nat \<times> nat) list option" where
  "ipv6_spans b i =
     (if i < length b then
        if \<not> is_v6_byte (b ! i) then ipv6_spans b (i + 1)
        else
          let run_end = scan is_v6_byte b i; next_i = max (i + 1) run_end in
          if 0 < i \<and> is_word_byte (b ! (i - 1)) \<or> run_end < length b \<and> is_word_byte (b ! run_end) then ipv6_spans b next_i
          else case v6_bounds b i run_end of (s, e) \<Rightarrow> do {
            found \<leftarrow> str_slice b s e;
            rest \<leftarrow> ipv6_spans b next_i;
            Some (if looks_like_ipv6 found then (s, e) # rest else rest)
          }
      else Some [])"
  by pat_completeness auto
termination by (relation "measure (\<lambda>(b, i). length b - i)") auto

declare ipv6_spans.simps [simp del]

definition mask_ipv6 :: "bytes \<Rightarrow> bytes option" where
  "mask_ipv6 text = do {
     spans \<leftarrow> ipv6_spans text 0;
     replace_spans text spans (ascii ''[REDACTED_IP]'')
   }"

definition sanitize_pii :: "bytes \<Rightarrow> bytes option" where
  "sanitize_pii text = do {
     text \<leftarrow> mask_ssids text;
     text \<leftarrow> mask_pins text;
     text \<leftarrow> mask_user_paths text;
     text \<leftarrow> mask_emails text;
     text \<leftarrow> mask_macs text;
     text \<leftarrow> mask_ipv4 text;
     mask_ipv6 text
   }"


section \<open>Where a text may be cut\<close>

text \<open>What UTF-8 guarantees here: a continuation byte never follows an ASCII byte, and none comes first.\<close>

definition utf8_ok :: "bytes \<Rightarrow> bool" where
  "utf8_ok b \<longleftrightarrow> list_all (\<lambda>i. is_continuation (b ! i) \<longrightarrow> 0 < i \<and> 128 \<le> b ! (i - 1)) [0..<length b]"

lemma utf8_okD: "utf8_ok b \<Longrightarrow> i < length b \<Longrightarrow> is_continuation (b ! i) \<Longrightarrow> 0 < i \<and> 128 \<le> b ! (i - 1)"
  by (auto simp: utf8_ok_def list_all_iff)

lemma utf8_okI: "(\<And>i. i < length b \<Longrightarrow> is_continuation (b ! i) \<Longrightarrow> 0 < i \<and> 128 \<le> b ! (i - 1)) \<Longrightarrow> utf8_ok b"
  by (auto simp: utf8_ok_def list_all_iff)

lemma utf8_append: "utf8_ok a \<Longrightarrow> utf8_ok b \<Longrightarrow> utf8_ok (a @ b)"
proof (rule utf8_okI)
  fix i
  assume a: "utf8_ok a" "utf8_ok b" and i: "i < length (a @ b)" "is_continuation ((a @ b) ! i)"
  show "0 < i \<and> 128 \<le> (a @ b) ! (i - 1)"
  proof (cases "i < length a")
    case True
    then show ?thesis using utf8_okD [OF a(1) True] i(2) by (auto simp: nth_append)
  next
    case False
    then have "0 < i - length a \<and> 128 \<le> b ! (i - length a - 1)"
      using utf8_okD [OF a(2), of "i - length a"] i by (simp add: nth_append)
    then show ?thesis using False by (auto simp: nth_append)
  qed
qed

lemma utf8_slice:
  assumes "utf8_ok b" "is_boundary b i" "j \<le> length b"
  shows "utf8_ok (sub_range b i j)"
proof (rule utf8_okI)
  fix k
  assume k: "k < length (sub_range b i j)" "is_continuation (sub_range b i j ! k)"
  then have n: "sub_range b i j ! k = b ! (i + k)" "i + k < length b" using assms(3) by (simp_all add: sub_range_def)
  from utf8_okD [OF assms(1) n(2)] k(2) n(1) have u: "0 < i + k" "128 \<le> b ! (i + k - 1)" by simp_all
  have "k \<noteq> 0"
  proof
    assume "k = 0"
    with assms(2) n k(2) u(1) show False by (auto simp: is_boundary_def)
  qed
  moreover from this have "sub_range b i j ! (k - 1) = b ! (i + k - 1)" using k(1) assms(3) by (simp add: sub_range_def)
  ultimately show "0 < k \<and> 128 \<le> sub_range b i j ! (k - 1)" using u(2) by simp
qed

lemma cut_at: "i < length b \<Longrightarrow> b ! i < 128 \<Longrightarrow> is_boundary b i"
  by (auto simp: is_boundary_def is_continuation_def dest: leD)

lemma cut_after: "utf8_ok b \<Longrightarrow> 0 < i \<Longrightarrow> i \<le> length b \<Longrightarrow> b ! (i - 1) < 128 \<Longrightarrow> is_boundary b i"
  using utf8_okD [of b i] by (auto simp: is_boundary_def)

lemma utf8_ascii: "list_all (\<lambda>c. c < 128) s \<Longrightarrow> utf8_ok s"
  by (rule utf8_okI) (auto simp: list_all_length is_continuation_def)

section \<open>Replacing spans\<close>

fun spans_ok :: "bytes \<Rightarrow> nat \<Rightarrow> (nat \<times> nat) list \<Rightarrow> bool" where
  "spans_ok b pos [] \<longleftrightarrow> True"
| "spans_ok b pos ((s, e) # spans) \<longleftrightarrow> pos \<le> s \<and> s \<le> e \<and> e \<le> length b \<and> is_boundary b s \<and> is_boundary b e \<and> spans_ok b e spans"

lemma spans_ok_weaken: "spans_ok b p spans \<Longrightarrow> q \<le> p \<Longrightarrow> spans_ok b q spans"
  by (cases spans) auto

lemma replace_from_total:
  "utf8_ok b \<Longrightarrow> is_boundary b pos \<Longrightarrow> pos \<le> length b \<Longrightarrow> spans_ok b pos spans \<Longrightarrow> list_all (\<lambda>c. c < 128) label \<Longrightarrow>
   \<exists>r. replace_from b pos spans label = Some r \<and> utf8_ok r"
proof (induction spans arbitrary: pos)
  case Nil
  then show ?case using utf8_slice [of b pos "length b"] by (simp add: str_slice_def is_boundary_def)
next
  case (Cons se spans)
  obtain s e where se: "se = (s, e)" by fastforce
  have o: "pos \<le> s" "s \<le> e" "e \<le> length b" "is_boundary b s" "is_boundary b e" "spans_ok b e spans"
    using Cons.prems(4) by (simp_all add: se)
  obtain r where r: "replace_from b e spans label = Some r" "utf8_ok r"
    using Cons.IH [OF Cons.prems(1) o(5,3,6) Cons.prems(5)] by blast
  have "str_slice b pos s = Some (sub_range b pos s)" using o Cons.prems(2) by (simp add: str_slice_def)
  moreover have "utf8_ok (sub_range b pos s @ label @ r)"
    using utf8_append utf8_slice [OF Cons.prems(1,2), of s] utf8_ascii [OF Cons.prems(5)] r(2) o by simp
  ultimately show ?case using r(1) by (simp add: se)
qed

lemma replace_total:
  "utf8_ok b \<Longrightarrow> spans_ok b 0 spans \<Longrightarrow> list_all (\<lambda>c. c < 128) label \<Longrightarrow> \<exists>r. replace_spans b spans label = Some r \<and> utf8_ok r"
  using replace_from_total [of b 0 spans label] by (simp add: replace_spans_def is_boundary_def)

lemmas class_defs = is_digit_def is_upper_def is_alpha_def is_alnum_def is_hex_def is_blank_def is_word_byte_def
  is_path_sep_def is_email_domain_def is_ipv4_byte_def is_v6_byte_def

lemma word_ascii: "is_word_byte c \<Longrightarrow> c < 128" for c :: u8
  by (auto simp: class_defs word_le_nat_alt word_less_nat_alt)

lemma class_ascii:
  "is_digit c \<Longrightarrow> c < 128" "is_hex c \<Longrightarrow> c < 128" "is_blank c \<Longrightarrow> c < 128" "is_path_sep c \<Longrightarrow> c < 128"
  "is_email_domain c \<Longrightarrow> c < 128" "is_ipv4_byte c \<Longrightarrow> c < 128" "is_v6_byte c \<Longrightarrow> c < 128"
  for c :: u8
  by (auto simp: class_defs word_le_nat_alt word_less_nat_alt)

lemma local_ascii: "is_email_local c \<Longrightarrow> c < 128" for c :: u8
  by (auto simp: is_email_local_def class_defs ascii_def word_le_nat_alt word_less_nat_alt)

lemma stop_ascii: "stops_name c \<Longrightarrow> c < 128" for c :: u8
  by (auto simp: stops_name_def ascii_def)

text \<open>Where a scan stops, and what it passed.\<close>

lemma scan_props:
  "j \<le> scan p b j" "j \<le> length b \<Longrightarrow> scan p b j \<le> length b" "scan p b j < length b \<Longrightarrow> \<not> p (b ! scan p b j)"
  "j \<le> k \<Longrightarrow> k < scan p b j \<Longrightarrow> p (b ! k)"
proof -
  show "j \<le> scan p b j" by (simp add: scan_def)
  show "j \<le> length b \<Longrightarrow> scan p b j \<le> length b"
    using length_takeWhile_le [of p "drop j b"] by (simp add: scan_def)
  show "\<not> p (b ! scan p b j)" if "scan p b j < length b"
  proof -
    have "length (takeWhile p (drop j b)) < length (drop j b)" using that by (simp add: scan_def)
    from nth_length_takeWhile [OF this] show ?thesis using that by (simp add: scan_def)
  qed
  show "p (b ! k)" if "j \<le> k" "k < scan p b j"
  proof -
    have k: "k - j < length (takeWhile p (drop j b))" using that by (simp add: scan_def)
    then have "p (takeWhile p (drop j b) ! (k - j))" using set_takeWhileD nth_mem by metis
    moreover have "takeWhile p (drop j b) ! (k - j) = b ! k"
      using takeWhile_nth [OF k] k length_takeWhile_le [of p "drop j b"] that(1) by simp
    ultimately show ?thesis by simp
  qed
qed

lemma scan_to_props:
  assumes "j \<le> e" "e \<le> length b"
  shows "j \<le> scan_to p b j e" "scan_to p b j e \<le> e" "scan_to p b j e < e \<Longrightarrow> \<not> p (b ! scan_to p b j e)"
    "j \<le> k \<Longrightarrow> k < scan_to p b j e \<Longrightarrow> p (b ! k)"
proof -
  have eq: "scan_to p b j e = scan p (take e b) j" by (simp add: scan_to_def scan_def sub_range_def drop_take)
  have len: "length (take e b) = e" using assms(2) by simp
  show "j \<le> scan_to p b j e" by (simp add: scan_to_def)
  show "scan_to p b j e \<le> e" using scan_props(2) [of j "take e b" p] assms by (simp add: eq)
  show "scan_to p b j e < e \<Longrightarrow> \<not> p (b ! scan_to p b j e)" using scan_props(3) [of p "take e b" j] assms by (simp add: eq)
  assume k: "j \<le> k" "k < scan_to p b j e"
  then have "k < e" using scan_props(2) [of j "take e b" p] assms by (simp add: eq)
  then show "p (b ! k)" using scan_props(4) [of j k p "take e b"] k by (simp add: eq)
qed

lemma scan_back_props:
  assumes "s \<le> j" "j \<le> length b"
  shows "s \<le> scan_back p b s j" "scan_back p b s j \<le> j" "scan_back p b s j \<le> k \<Longrightarrow> k < j \<Longrightarrow> p (b ! k)"
    "s < scan_back p b s j \<Longrightarrow> \<not> p (b ! (scan_back p b s j - 1))"
proof -
  let ?w = "sub_range b s j" and ?n = "length (takeWhile p (rev (sub_range b s j)))"
  have len: "length ?w = j - s" using assms by simp
  have n: "?n \<le> j - s" using length_takeWhile_le [of p "rev ?w"] len by simp
  show "s \<le> scan_back p b s j" "scan_back p b s j \<le> j" using n assms by (simp_all add: scan_back_def)
  have nth: "rev ?w ! m = b ! (j - 1 - m)" if "m < j - s" for m
    using that len assms by (simp add: rev_nth sub_range_def)
  show "p (b ! k)" if "scan_back p b s j \<le> k" "k < j"
  proof -
    have m: "j - 1 - k < ?n" using that by (simp add: scan_back_def)
    then have "p (takeWhile p (rev ?w) ! (j - 1 - k))" using set_takeWhileD nth_mem by metis
    then have "p (rev ?w ! (j - 1 - k))" using takeWhile_nth [OF m] by simp
    then show ?thesis using nth [of "j - 1 - k"] m n that(2) by simp
  qed
  show "\<not> p (b ! (scan_back p b s j - 1))" if "s < scan_back p b s j"
  proof -
    have m: "?n < j - s" using that by (simp add: scan_back_def)
    then have "?n < length (rev ?w)" using len by simp
    from nth_length_takeWhile [OF this] have "\<not> p (rev ?w ! ?n)" .
    with nth [OF m] show ?thesis by (simp add: scan_back_def add.commute)
  qed
qed


section \<open>No masker but the first can panic\<close>

lemma slice_some: "i \<le> j \<Longrightarrow> j \<le> length b \<Longrightarrow> is_boundary b i \<Longrightarrow> is_boundary b j \<Longrightarrow> str_slice b i j = Some (sub_range b i j)"
  by (simp add: str_slice_def)

lemma marker_sep: "marker_len b i = Some m \<Longrightarrow> i + 1 + m < length b \<and> is_path_sep (b ! (i + 1 + m))"
  by (auto simp: marker_len_def split: if_splits)

lemma name_bounds_ok:
  assumes "utf8_ok b" "j < length b" "is_path_sep (b ! j)" "name_bounds b j = (s, e)"
  shows "j < s" "s \<le> e" "e \<le> length b" "is_boundary b s" "is_boundary b e"
proof -
  let ?stop = "\<lambda>c. \<not> is_path_sep c \<and> \<not> stops_name c"
  have s: "s = scan is_path_sep b j" using assms(4) by (simp add: name_bounds_def Let_def)
  let ?j = "scan ?stop b s"
  have e: "e = (if ?j < length b \<and> is_path_sep (b ! ?j) then ?j else scan_to (\<lambda>c. \<not> is_blank c) b s ?j)"
    using assms(4) by (auto simp: name_bounds_def Let_def s)
  have "j \<noteq> scan is_path_sep b j" using scan_props(3) [of is_path_sep b j] assms(2,3) by auto
  then show js: "j < s" using scan_props(1) [of j is_path_sep b] s by simp
  have sl: "s \<le> length b" using scan_props(2) [of j b is_path_sep] assms(2) s by simp
  have sj: "s \<le> ?j" "?j \<le> length b" using scan_props(1,2) sl by simp_all
  note t = scan_to_props [OF sj, where p = "\<lambda>c. \<not> is_blank c"]
  show "s \<le> e" "e \<le> length b" using e sj t(1,2) by auto
  have "is_path_sep (b ! (s - 1))" using scan_props(4) [of j "s - 1" is_path_sep b] js s by simp
  then show "is_boundary b s" using cut_after [OF assms(1), of s] js sl class_ascii(4) by simp
  show "is_boundary b e"
  proof (cases "?j < length b \<and> is_path_sep (b ! ?j)")
    case True
    then show ?thesis using e cut_at class_ascii(4) by simp
  next
    case False
    then have e': "e = scan_to (\<lambda>c. \<not> is_blank c) b s ?j" unfolding e by (rule if_not_P)
    show ?thesis
    proof (cases "e < ?j")
      case True
      then show ?thesis using t(3) e' cut_at [of e b] class_ascii(3) sj(2) by simp
    next
      case atj: False
      then have "e = ?j" using e' t(2) by simp
      moreover have "?j < length b \<Longrightarrow> b ! ?j < 128"
        using scan_props(3) [of ?stop b s] stop_ascii class_ascii(4) by blast
      ultimately show ?thesis using cut_at [of ?j b] sj(2) by (cases "?j = length b") (auto simp: is_boundary_def)
    qed
  qed
qed

lemma user_spans_total: "utf8_ok b \<Longrightarrow> \<exists>spans. user_spans b i = Some spans \<and> spans_ok b i spans"
proof (induction b i rule: user_spans.induct)
  case (1 b i)
  show ?case
  proof (cases "i < length b")
    case False
    then show ?thesis by (subst user_spans.simps) simp
  next
    case i: True
    show ?thesis
    proof (cases "is_path_sep (b ! i) \<and> marker_len b i \<noteq> None")
      case False
      then obtain spans where "user_spans b (i + 1) = Some spans" "spans_ok b (i + 1) spans"
        using 1(1,2) i 1(5) by (cases "is_path_sep (b ! i)") auto
      then show ?thesis using i False spans_ok_weaken by (subst user_spans.simps) force
    next
      case True
      then obtain m where m: "is_path_sep (b ! i)" "marker_len b i = Some m" by blast
      obtain s e where se: "name_bounds b (i + 1 + m) = (s, e)" by fastforce
      note ok = name_bounds_ok [OF 1(5) _ _ se]
      have o: "i + 1 + m < s" "s \<le> e" "e \<le> length b" "is_boundary b s" "is_boundary b e" using ok marker_sep [OF m(2)] by simp_all
      have mx: "max e (i + 1) = e" "max e (Suc i) = e" using o by simp_all
      obtain spans where sp: "user_spans b e = Some spans" "spans_ok b e spans"
      proof (cases "s < e")
        case True
        with 1(3) [OF i _ m(2) se [symmetric] True] m(1) 1(5) o that show thesis by (auto simp: slice_some mx)
      next
        case False
        with 1(4) [OF i _ m(2) se [symmetric] False] m(1) 1(5) that show thesis by (auto simp: mx)
      qed
      have "user_spans b i = Some (if s < e \<and> take 9 (sub_range b s e) \<noteq> ascii ''[REDACTED'' then (s, e) # spans else spans)"
        using i m se sp(1) o by (subst user_spans.simps) (simp add: slice_some mx)
      moreover have "spans_ok b i spans" using sp(2) o spans_ok_weaken by simp
      ultimately show ?thesis using sp(2) o by simp
    qed
  qed
qed

lemma email_bounds_ok:
  assumes "utf8_ok b" "last_end \<le> p" "p < length b" "b ! p = 64" "email_bounds b last_end p = (s, e)"
  shows "last_end \<le> s" "s \<le> p" "p + 1 \<le> e" "e \<le> length b" "is_boundary b s" "is_boundary b e" "is_boundary b (p + 1)"
proof -
  let ?s0 = "scan_back is_email_local b last_end p"
  let ?e0 = "scan is_email_domain b (p + 1)"
  have s: "s = scan_to (\<lambda>c. c = 46) b ?s0 p" and e: "e = scan_back (\<lambda>c. c = 46 \<or> c = 45) b (p + 1) ?e0"
    using assms(5) by (simp_all add: email_bounds_def Let_def)
  have p: "p \<le> length b" "p + 1 \<le> length b" using assms(3) by simp_all
  note b0 = scan_back_props [OF assms(2) p(1), where p = is_email_local]
  note t = scan_to_props [OF b0(2) p(1), where p = "\<lambda>c. c = 46"]
  have e0: "p + 1 \<le> ?e0" "?e0 \<le> length b" using scan_props(1,2) p(2) by blast+
  note b1 = scan_back_props [OF e0, where p = "\<lambda>c. c = 46 \<or> c = 45"]
  show "last_end \<le> s" "s \<le> p" using b0(1) t(1,2) s by simp_all
  show pe: "p + 1 \<le> e" "e \<le> length b" using b1(1,2) e0 e by simp_all
  show "is_boundary b s"
  proof (cases "s = p")
    case True
    then show ?thesis using cut_at [OF assms(3)] assms(4) by simp
  next
    case False
    then have "s < p" using \<open>s \<le> p\<close> by simp
    then have "is_email_local (b ! s)" using b0(3) [of s] t(1) s by simp
    then show ?thesis using cut_at [of s b] local_ascii \<open>s < p\<close> assms(3) by simp
  qed
  show "is_boundary b (p + 1)" using cut_after [OF assms(1), of "p + 1"] p assms(4) by simp
  show "is_boundary b e"
  proof (cases "e = p + 1")
    case True
    then show ?thesis using \<open>is_boundary b (p + 1)\<close> by simp
  next
    case False
    then have "is_email_domain (b ! (e - 1))" using scan_props(4) [of "p + 1" "e - 1" is_email_domain b] pe(1) b1(2) e by simp
    then show ?thesis using cut_after [OF assms(1), of e] pe class_ascii(5) by simp
  qed
qed

lemma email_spans_total:
  "utf8_ok b \<Longrightarrow> list_all (\<lambda>p. p < length b \<and> b ! p = 64) ps \<Longrightarrow> \<exists>spans. email_spans b last_end ps = Some spans \<and> spans_ok b last_end spans"
proof (induction ps arbitrary: last_end)
  case (Cons p ps)
  have rest: "\<exists>spans. email_spans b l ps = Some spans \<and> spans_ok b l spans" for l using Cons by simp
  show ?case
  proof (cases "p < last_end")
    case False
    obtain s e where se: "email_bounds b last_end p = (s, e)" by fastforce
    note o = email_bounds_ok [OF Cons.prems(1) _ _ _ se]
    have ok: "last_end \<le> s" "s \<le> p" "p + 1 \<le> e" "e \<le> length b" "is_boundary b s" "is_boundary b e" "is_boundary b (p + 1)"
      using o False Cons.prems(2) by simp_all
    obtain r1 r2 where "email_spans b e ps = Some r1" "spans_ok b e r1" "email_spans b last_end ps = Some r2" "spans_ok b last_end r2"
      using rest by metis
    then show ?thesis using False se ok by (auto simp: slice_some)
  qed (use rest in simp)
qed simp

lemma mac_hex: "is_mac_at b i \<Longrightarrow> is_hex (b ! i) \<and> is_hex (b ! (i + 16))"
  by (simp add: is_mac_at_def Let_def upt_rec add.commute)

lemma mac_spans_ok: "utf8_ok b \<Longrightarrow> spans_ok b i (mac_spans b i)"
proof (induction b i rule: mac_spans.induct)
  case (1 b i)
  show ?case
  proof (cases "i + MAC_LEN \<le> length b")
    case False
    then show ?thesis by (subst mac_spans.simps) simp
  next
    case len: True
    show ?thesis
    proof (cases "mac_matches b i")
      case False
      with 1(2) [OF len False 1(3)] len show ?thesis by (subst mac_spans.simps) (simp add: spans_ok_weaken)
    next
      case True
      then have "is_hex (b ! i)" "is_hex (b ! (i + 16))" using mac_hex by (auto simp: mac_matches_def)
      then have "is_boundary b i" "is_boundary b (i + MAC_LEN)"
        using cut_at [of i b] cut_after [OF 1(3), of "i + MAC_LEN"] len class_ascii(2) by (simp_all add: MAC_LEN_def add.commute)
      with 1(1) [OF len True 1(3)] len True show ?thesis by (subst mac_spans.simps) simp
    qed
  qed
qed

definition number_span_ok :: "bytes \<Rightarrow> nat \<times> nat \<Rightarrow> bool" where
  "number_span_ok b se \<longleftrightarrow> fst se < snd se \<and> snd se \<le> length b \<and> is_boundary b (fst se) \<and> is_boundary b (snd se)"

lemma number_parts_ok:
  assumes "utf8_ok b" "e \<le> length b" "list_all (\<lambda>k. is_ipv4_byte (b ! k)) [p..<e]"
  shows "list_all (\<lambda>se. number_span_ok b se \<and> p \<le> fst se \<and> snd se \<le> e) (number_parts b p e) \<and> sorted (map fst (number_parts b p e))"
  using assms
proof (induction b p e rule: number_parts.induct)
  case (1 b p e)
  show ?case
  proof (cases "p < e")
    case False
    then show ?thesis by (subst (1 2) number_parts.simps) simp
  next
    case p: True
    have weaker: "list_all (\<lambda>k. is_ipv4_byte (b ! k)) [q..<e]" if "p \<le> q" for q
      using 1(5) that by (auto simp: list_all_iff)
    show ?thesis
    proof (cases "b ! p = 46")
      case True
      from 1(1) [OF p True 1(3,4) weaker] p True show ?thesis
        by (subst (1 2) number_parts.simps) (auto simp: list_all_iff)
    next
      case False
      let ?q = "scan_to is_digit b p e"
      have "is_digit (b ! p)" using 1(5) False p by (auto simp: list_all_iff is_ipv4_byte_def)
      note t = scan_to_props [OF less_imp_le [OF p] 1(4), where p = is_digit]
      have "p < ?q" using t(1,3) \<open>is_digit (b ! p)\<close> p by (metis le_neq_implies_less)
      then have mx: "max (p + 1) ?q = ?q" by simp
      have "is_digit (b ! (?q - 1))" using t(4) [of "?q - 1"] \<open>p < ?q\<close> by simp
      then have "is_boundary b p" "is_boundary b ?q"
        using cut_at [of p b] cut_after [OF 1(3), of ?q] class_ascii(1) \<open>is_digit (b ! p)\<close> p \<open>p < ?q\<close> t(2) 1(4) by auto
      moreover have "list_all (\<lambda>se. number_span_ok b se \<and> ?q \<le> fst se \<and> snd se \<le> e) (number_parts b ?q e) \<and> sorted (map fst (number_parts b ?q e))"
        using 1(2) [OF p False 1(3,4)] weaker [of ?q] t(1) unfolding mx by blast
      ultimately show ?thesis using p False \<open>p < ?q\<close> t(2) 1(4)
        by (subst (1 2) number_parts.simps) (auto simp: list_all_iff number_span_ok_def mx)
    qed
  qed
qed


lemma octets_total:
  "list_all (number_span_ok b) ps \<Longrightarrow> \<exists>ok. all_octets b ps = Some ok"
proof (induction ps)
  case (Cons p ps)
  obtain s e where p: "p = (s, e)" by fastforce
  have "\<exists>ok. octet_ok b p = Some ok" using Cons.prems by (auto simp: octet_ok_def p number_span_ok_def slice_some)
  then obtain ok where "octet_ok b p = Some ok" ..
  with Cons show ?case by (cases ok) auto
qed auto

lemma adjacent_ends: "adjacent ps \<Longrightarrow> list_all (\<lambda>se. fst se \<le> snd se) ps \<Longrightarrow> ps \<noteq> [] \<Longrightarrow> fst (hd ps) \<le> snd (last ps)"
  by (induction ps rule: adjacent.induct) auto

lemma ipv4_span_ok:
  assumes "utf8_ok b" "r \<le> length b" "list_all (\<lambda>k. is_ipv4_byte (b ! k)) [i..<r]"
  shows "\<exists>span. ipv4_span b i r = Some span \<and> (case span of None \<Rightarrow> True | Some se \<Rightarrow> i \<le> fst se \<and> snd se \<le> r \<and> number_span_ok b se)"
proof (cases "length (number_parts b i r) = 4 \<and> adjacent (number_parts b i r)")
  case True
  let ?ps = "number_parts b i r"
  have ok: "list_all (\<lambda>se. number_span_ok b se \<and> i \<le> fst se \<and> snd se \<le> r) ?ps"
    using number_parts_ok [OF assms] by blast
  obtain p0 p1 p2 p3 where ps: "?ps = [p0, p1, p2, p3]" using True by (auto simp: length_Suc_conv numeral_eq_Suc)
  have "list_all (number_span_ok b) ?ps" using ok by (auto simp: list_all_iff)
  then obtain v where v: "all_octets b ?ps = Some v" using octets_total by blast
  have "fst p0 < snd p3" using ok True by (auto simp: ps number_span_ok_def)
  then show ?thesis using True v ok by (auto simp: ipv4_span_def Let_def ps number_span_ok_def)
qed (auto simp: ipv4_span_def Let_def)

lemma ipv4_spans_total: "utf8_ok b \<Longrightarrow> \<exists>spans. ipv4_spans b i = Some spans \<and> spans_ok b i spans"
proof (induction b i rule: ipv4_spans.induct)
  case (1 b i)
  show ?case
  proof (cases "i < length b")
    case False
    then show ?thesis by (subst ipv4_spans.simps) simp
  next
    case i: True
    show ?thesis
    proof (cases "is_ipv4_byte (b ! i)")
      case False
      then obtain spans where "ipv4_spans b (i + 1) = Some spans" "spans_ok b (i + 1) spans" using 1(1) [OF i _ 1(3)] by auto
      then show ?thesis using i False spans_ok_weaken by (subst ipv4_spans.simps) force
    next
      case True
      let ?r = "scan is_ipv4_byte b i"
      have r: "i \<le> ?r" "?r \<le> length b" using scan_props(1,2) i by simp_all
      have "?r \<noteq> i" using scan_props(3) [of is_ipv4_byte b i] True i by auto
      then have mx: "max (i + 1) ?r = ?r" "max (Suc i) ?r = ?r" using r(1) by simp_all
      have "list_all (\<lambda>k. is_ipv4_byte (b ! k)) [i..<?r]" using scan_props(4) [of i _ is_ipv4_byte b] by (auto simp: list_all_iff)
      from ipv4_span_ok [OF 1(3) r(2) this] obtain span where s: "ipv4_span b i ?r = Some span"
          "case span of None \<Rightarrow> True | Some se \<Rightarrow> i \<le> fst se \<and> snd se \<le> ?r \<and> number_span_ok b se" by blast
      obtain spans where sp: "ipv4_spans b ?r = Some spans" "spans_ok b ?r spans"
        using 1(2) [OF i _ s(1) 1(3)] True unfolding mx by auto
      have "spans_ok b i (case span of None \<Rightarrow> spans | Some se \<Rightarrow> se # spans)"
        using s(2) sp(2) r spans_ok_weaken by (cases span) (auto simp: number_span_ok_def dest: spans_ok_weaken)
      with i True s(1) sp(1) show ?thesis by (subst ipv4_spans.simps) (simp add: mx)
    qed
  qed
qed

lemma v6_bounds_ok:
  assumes "utf8_ok b" "i < r" "r \<le> length b" "list_all (\<lambda>k. is_v6_byte (b ! k)) [i..<r]" "v6_bounds b i r = (s, e)"
  shows "i \<le> s" "s < e" "e \<le> r" "is_boundary b s" "is_boundary b e"
proof -
  show se: "i \<le> s" "s < e" "e \<le> r" using assms(2,5) by (auto simp: v6_bounds_def Let_def split: if_splits)
  have "s \<in> set [i..<r]" "e - 1 \<in> set [i..<r]" using se by auto
  then have "is_v6_byte (b ! s)" "is_v6_byte (b ! (e - 1))" using assms(4) by (simp_all only: list_all_iff)
  then show "is_boundary b s" "is_boundary b e"
    using cut_at [of s b] cut_after [OF assms(1), of e] class_ascii(7) se assms(3) by simp_all
qed

lemma ipv6_spans_total: "utf8_ok b \<Longrightarrow> \<exists>spans. ipv6_spans b i = Some spans \<and> spans_ok b i spans"
proof (induction b i rule: ipv6_spans.induct)
  case (1 b i)
  let ?r = "scan is_v6_byte b i"
  let ?touches = "0 < i \<and> is_word_byte (b ! (i - 1)) \<or> ?r < length b \<and> is_word_byte (b ! ?r)"
  show ?case
  proof (cases "i < length b")
    case False
    then show ?thesis by (subst ipv6_spans.simps) simp
  next
    case i: True
    show ?thesis
    proof (cases "is_v6_byte (b ! i)")
      case False
      then obtain spans where "ipv6_spans b (i + 1) = Some spans" "spans_ok b (i + 1) spans" using 1(1) [OF i _ 1(4)] by auto
      then show ?thesis using i False spans_ok_weaken by (subst ipv6_spans.simps) force
    next
      case True
      have r: "i \<le> ?r" "?r \<le> length b" using scan_props(1,2) i by simp_all
      have "?r \<noteq> i" using scan_props(3) [of is_v6_byte b i] True i by auto
      then have ir: "i < ?r" using r(1) by simp
      then have mx: "max (i + 1) ?r = ?r" "max (Suc i) ?r = ?r" by simp_all
      have run: "list_all (\<lambda>k. is_v6_byte (b ! k)) [i..<?r]" using scan_props(4) [of i _ is_v6_byte b] by (auto simp: list_all_iff)
      obtain s e where se: "v6_bounds b i ?r = (s, e)" by fastforce
      note o = v6_bounds_ok [OF 1(4) ir r(2) run se]
      have slice: "str_slice b s e = Some (sub_range b s e)" using o r(2) by (simp add: slice_some)
      obtain spans where sp: "ipv6_spans b ?r = Some spans" "spans_ok b ?r spans"
      proof (cases ?touches)
        case touch: True
        with 1(2) [OF i _ refl refl touch 1(4)] True that show thesis unfolding mx by auto
      next
        case touch: False
        with 1(3) [OF i _ refl refl touch se [symmetric] slice 1(4)] True that show thesis unfolding mx by auto
      qed
      have "ipv6_spans b i = Some (if \<not> ?touches \<and> looks_like_ipv6 (sub_range b s e) then (s, e) # spans else spans)"
      proof (cases ?touches)
        case touch: True
        then show ?thesis using i True sp(1) by (subst ipv6_spans.simps) (auto simp: Let_def mx)
      next
        case touch: False
        then show ?thesis using i True sp(1) se slice by (subst ipv6_spans.simps) (auto simp: Let_def mx)
      qed
      moreover have "spans_ok b i spans" "spans_ok b e spans" using sp(2) o(3) r(1) spans_ok_weaken by blast+
      ultimately show ?thesis using o r(2) by simp
    qed
  qed
qed


section \<open>Keys and their values\<close>

lemma value_start_cut:
  assumes "value_start b j = Some v"
  shows "j < v" "v \<le> length b" "b ! (v - 1) < 128"
proof -
  show "j < v" using value_start_gt [OF assms] .
  obtain k where k: "k < length b" "b ! k = 58 \<or> b ! k = 61" "v = scan (\<lambda>c. c = 32) b (k + 1)"
    using assms by (auto simp: value_start_def Let_def split: if_splits)
  show "v \<le> length b" using scan_props(2) [of "k + 1" b] k by simp
  show "b ! (v - 1) < 128"
  proof (cases "v = k + 1")
    case True
    with k(2) show ?thesis by auto
  next
    case False
    then have "k + 1 \<le> v - 1" "v - 1 < v" using scan_props(1) [of "k + 1" "\<lambda>c. c = 32" b] k(3) by simp_all
    then have "b ! (v - 1) = 32" using scan_props(4) [of "k + 1" "v - 1" "\<lambda>c. c = 32" b] k(3) by simp
    then show ?thesis by simp
  qed
qed

text \<open>Every start belongs to a key at or behind the position searched from.\<close>

lemma key_value_from_key:
  "v \<in> set (key_value_from b k i) \<Longrightarrow> \<exists>j. i \<le> j \<and> key_at b k j \<and> value_start b (j + length k) = Some v"
proof (induction b k i rule: key_value_from.induct)
  case (1 b k i)
  show ?case
  proof (cases "i + length k \<le> length b")
    case False
    with 1(3) show ?thesis by (subst (asm) key_value_from.simps) simp
  next
    case len: True
    show ?thesis
    proof (cases "if key_at b k i then value_start b (i + length k) else None")
      case None
      with 1(3) len have "v \<in> set (key_value_from b k (i + 1))" by (subst (asm) key_value_from.simps) simp
      from 1(1) [OF len None this] show ?thesis by (metis add_leD1)
    next
      case (Some j)
      then have j: "key_at b k i" "value_start b (i + length k) = Some j" by (auto split: if_splits)
      have "v = j \<or> v \<in> set (key_value_from b k j)" using 1(3) len Some by (subst (asm) key_value_from.simps) simp
      then show ?thesis
      proof
        assume "v = j"
        with j show ?thesis by blast
      next
        assume "v \<in> set (key_value_from b k j)"
        from 1(2) [OF len Some this] obtain j' where "j \<le> j'" "key_at b k j'" "value_start b (j' + length k) = Some v" by blast
        with value_start_cut(1) [OF j(2)] show ?thesis by (intro exI [of _ j']) simp
      qed
    qed
  qed
qed

lemma key_value_spans:
  assumes "utf8_ok b"
    and "\<And>v s e. span v = Some (s, e) \<Longrightarrow> v \<le> length b \<Longrightarrow> is_boundary b v \<Longrightarrow>
      v \<le> s \<and> s \<le> e \<and> e \<le> length b \<and> is_boundary b s \<and> is_boundary b e"
    and "\<And>v s e j. span v = Some (s, e) \<Longrightarrow> key_at b k j \<Longrightarrow> v \<le> j \<Longrightarrow> e \<le> j"
  shows "spans_ok b i (List.map_filter span (key_value_from b k i))"
  using assms
proof (induction b k i rule: key_value_from.induct)
  case (1 b k i)
  show ?case
  proof (cases "i + length k \<le> length b")
    case False
    then show ?thesis by (subst key_value_from.simps) (simp add: map_filter_simps)
  next
    case len: True
    show ?thesis
    proof (cases "if key_at b k i then value_start b (i + length k) else None")
      case None
      have "spans_ok b (i + 1) (List.map_filter span (key_value_from b k (i + 1)))"
        by (rule 1(1) [OF len None 1(3)]) (fact 1(4) 1(5))+
      with len None show ?thesis by (subst key_value_from.simps) (simp add: spans_ok_weaken)
    next
      case (Some j)
      then have j: "value_start b (i + length k) = Some j" by (auto split: if_splits)
      let ?rest = "List.map_filter span (key_value_from b k j)"
      have rest: "spans_ok b j ?rest" by (rule 1(2) [OF len Some 1(3)]) (fact 1(4) 1(5))+
      note cut = value_start_cut [OF j]
      have cutj: "is_boundary b j" using cut_after [OF 1(3), of j] cut by simp
      have "spans_ok b i (case span j of None \<Rightarrow> ?rest | Some se \<Rightarrow> se # ?rest)"
      proof (cases "span j")
        case None
        with rest cut(1) spans_ok_weaken show ?thesis by simp
      next
        case (Some se)
        obtain s e where se: "se = (s, e)" by fastforce
        have o: "j \<le> s" "s \<le> e" "e \<le> length b" "is_boundary b s" "is_boundary b e"
          using 1(4) [of j s e] Some se cut(2) cutj by simp_all
        have "spans_ok b e ?rest"
        proof (cases ?rest)
          case (Cons x xs)
          obtain s' e' where x: "x = (s', e')" by fastforce
          have "x \<in> set ?rest" using Cons by simp
          then obtain v where v: "v \<in> set (key_value_from b k j)" "span v = Some x" by (auto simp: map_filter_def)
          from key_value_from_key [OF v(1)] obtain q where q: "j \<le> q" "key_at b k q" "value_start b (q + length k) = Some v" by blast
          note vcut = value_start_cut [OF q(3)]
          have "v \<le> s'" using 1(4) [of v s' e'] v(2) x vcut(1,2) cut_after [OF 1(3), of v] vcut(3) by simp
          moreover have "e \<le> q" using 1(5) [of j s e q] Some se q by simp
          ultimately have "e \<le> s'" using vcut(1) by simp
          with rest Cons x show ?thesis by simp
        qed simp
        with o Some se cut(1) show ?thesis by simp
      qed
      with len Some show ?thesis by (subst key_value_from.simps) (simp add: map_filter_simps split: option.splits)
    qed
  qed
qed

lemma pin_span_props:
  assumes "pin_span b v = Some (s, e)"
  shows "v \<le> s \<and> s \<le> v + 1 \<and> s + 4 \<le> e \<and> e \<le> s + 8" "s \<le> k \<Longrightarrow> k < e \<Longrightarrow> is_digit (b ! k)" "s = v + 1 \<Longrightarrow> b ! v = QUOTE" "v \<le> length b \<Longrightarrow> e \<le> length b"
proof -
  let ?s = "if v < length b \<and> b ! v = QUOTE then v + 1 else v"
  have se: "s = ?s" "e = scan is_digit b ?s" "4 \<le> e - s" "e - s \<le> 8"
    using assms by (auto simp: pin_span_def Let_def split: if_splits)
  show "v \<le> s \<and> s \<le> v + 1 \<and> s + 4 \<le> e \<and> e \<le> s + 8" using se by (auto split: if_splits)
  show "is_digit (b ! k)" if "s \<le> k" "k < e" using that scan_props(4) [of s k is_digit b] se(1,2) by simp
  show "s = v + 1 \<Longrightarrow> b ! v = QUOTE" using se(1) by (auto split: if_splits)
  show "e \<le> length b" if "v \<le> length b" using scan_props(2) [of s b is_digit] se(1,2) that by (auto split: if_splits)
qed

lemma key_first: "key_at b k j \<Longrightarrow> k \<noteq> [] \<Longrightarrow> lower (b ! j) = lower (hd k)"
proof -
  assume a: "key_at b k j" "k \<noteq> []"
  then obtain x xs where k: "k = x # xs" by (cases k) auto
  with a have "map lower (sub_range b j (j + length k)) = lower x # map lower xs" "j < length b"
    by (auto simp: key_at_def same_ignoring_case_def)
  then have "lower (sub_range b j (j + length k) ! 0) = lower x" by (cases "sub_range b j (j + length k)") auto
  then show ?thesis using \<open>j < length b\<close> k by (simp add: sub_range_def)
qed

lemma mask_pins_total: "utf8_ok b \<Longrightarrow> \<exists>r. mask_pins b = Some r \<and> utf8_ok r"
proof -
  assume u: "utf8_ok b"
  have "spans_ok b 0 (List.map_filter (pin_span b) (key_value_from b (ascii ''pin'') 0))"
  proof (rule key_value_spans [OF u])
    fix v s e
    assume p: "pin_span b v = Some (s, e)"
    note pp = pin_span_props [OF p]
    show "v \<le> s \<and> s \<le> e \<and> e \<le> length b \<and> is_boundary b s \<and> is_boundary b e" if "v \<le> length b" "is_boundary b v"
    proof -
      have "is_digit (b ! s)" "is_digit (b ! (e - 1))" using pp(1) pp(2) [of s] pp(2) [of "e - 1"] by auto
      then show ?thesis using pp(1) pp(4) [OF that(1)] cut_at [of s b] cut_after [OF u, of e] class_ascii(1) by auto
    qed
    show "e \<le> j" if key: "key_at b (ascii ''pin'') j" and vj: "v \<le> j" for j
    proof (rule ccontr)
      assume "\<not> e \<le> j"
      have l: "lower (b ! j) = 112" using key_first [OF key] by (simp add: ascii_def lower_def is_upper_def)
      consider "s \<le> j" | "j = v" "s = v + 1" using pp(1) vj by linarith
      then show False
      proof cases
        case 1
        then have "is_digit (b ! j)" using pp(2) \<open>\<not> e \<le> j\<close> by simp
        with l show False by (auto simp: lower_def is_upper_def is_digit_def word_le_nat_alt split: if_splits)
      next
        case 2
        then have "b ! j = QUOTE" using pp(3) by simp
        with l show False by (simp add: lower_def is_upper_def QUOTE_def)
      qed
    qed
  qed
  then show ?thesis using replace_total [OF u] unfolding mask_pins_def key_value_starts_def by (simp add: ascii_def)
qed


text \<open>The SSID spans: each can be cut, but one may lie inside another.\<close>

lemma quoted_end_props: "j \<le> quoted_end b j \<and> (quoted_end b j < length b \<longrightarrow> b ! quoted_end b j = QUOTE \<or> b ! quoted_end b j = 10)"
proof (induction b j rule: quoted_end.induct)
  case (1 b j)
  show ?case
  proof (cases "j < length b \<and> b ! j \<noteq> QUOTE \<and> b ! j \<noteq> 10")
    case True
    then have "quoted_end b j = quoted_end b (if b ! j = 92 \<and> j + 1 < length b then j + 2 else j + 1)"
      by (subst quoted_end.simps) simp
    with 1 True show ?thesis by (auto split: if_splits)
  next
    case False
    then have "quoted_end b j = j" by (subst quoted_end.simps) auto
    with False show ?thesis by auto
  qed
qed

lemma ssid_span_ok:
  assumes "utf8_ok b" "ssid_span b v = Some (s, e)" "v \<le> length b" "is_boundary b v"
  shows "v \<le> s \<and> s \<le> e \<and> e \<le> length b \<and> is_boundary b s \<and> is_boundary b e"
proof (cases "b ! v = QUOTE")
  case True
  let ?q = "quoted_end b (v + 1)"
  have se: "v < length b" "s = v + 1" "e = min ?q (length b)" "v + 1 < e"
    using assms(2) True by (auto simp: ssid_span_def Let_def split: if_splits)
  have "is_boundary b (v + 1)" using cut_after [OF assms(1), of "v + 1"] se(1) True by (simp add: QUOTE_def)
  moreover have "is_boundary b e"
  proof (cases "?q < length b")
    case True
    then have "b ! ?q = QUOTE \<or> b ! ?q = 10" using quoted_end_props by blast
    then show ?thesis using se(3) True cut_at [of ?q b] by (auto simp: QUOTE_def min_def)
  next
    case False
    then show ?thesis using se(3) by (simp add: is_boundary_def min_def)
  qed
  ultimately show ?thesis using se by simp
next
  case False
  let ?p = "\<lambda>c. \<not> is_blank c \<and> c \<notin> set (ascii '',;)}]'')"
  have se: "v < length b" "s = v" "e = scan ?p b v" "v < e"
    using assms(2) False by (auto simp: ssid_span_def Let_def split: if_splits)
  have "e \<le> length b" using scan_props(2) [of v b ?p] se by simp
  moreover have "is_boundary b e"
  proof (cases "e < length b")
    case True
    then have "\<not> ?p (b ! e)" using scan_props(3) [of ?p b v] se(3) by simp
    then have "is_blank (b ! e) \<or> b ! e \<in> set (ascii '',;)}]'')" by simp
    moreover have "list_all (\<lambda>c. c < 128) (ascii '',;)}]'')" by (simp add: ascii_def)
    ultimately have "b ! e < 128" using class_ascii(3) by (auto simp: list_all_iff)
    then show ?thesis using cut_at True by simp
  qed (use \<open>e \<le> length b\<close> in \<open>simp add: is_boundary_def\<close>)
  ultimately show ?thesis using se assms(4) by simp
qed

definition ssid_spans :: "bytes \<Rightarrow> (nat \<times> nat) list" where
  "ssid_spans text = List.map_filter (ssid_span text) (key_value_starts text (ascii ''ssid''))"

text \<open>No span starts inside the one before it.\<close>

fun in_order :: "(nat \<times> nat) list \<Rightarrow> bool" where
  "in_order (p # q # ps) \<longleftrightarrow> snd p \<le> fst q \<and> in_order (q # ps)"
| "in_order _ \<longleftrightarrow> True"

lemma spans_ok_iff:
  "list_all (\<lambda>(s, e). s \<le> e \<and> e \<le> length b \<and> is_boundary b s \<and> is_boundary b e) spans \<Longrightarrow>
   spans_ok b pos spans \<longleftrightarrow> (spans = [] \<or> pos \<le> fst (hd spans)) \<and> in_order spans"
proof (induction spans arbitrary: pos)
  case (Cons p spans)
  obtain s e where p: "p = (s, e)" by fastforce
  have "in_order (p # spans) \<longleftrightarrow> (spans = [] \<or> snd p \<le> fst (hd spans)) \<and> in_order spans" by (cases spans) auto
  with Cons show ?case by (auto simp: p)
qed simp

lemma replace_from_some: "replace_from b pos spans label = Some r \<Longrightarrow> (spans = [] \<or> pos \<le> fst (hd spans)) \<and> in_order spans"
proof (induction spans arbitrary: pos r)
  case (Cons p spans)
  obtain s e where p: "p = (s, e)" by fastforce
  obtain kept rest where k: "str_slice b pos s = Some kept" "replace_from b e spans label = Some rest"
    using Cons.prems by (auto simp: p bind_eq_Some_conv)
  have "pos \<le> s" using k(1) by (simp add: str_slice_def split: if_splits)
  with Cons.IH [OF k(2)] show ?case by (cases spans) (auto simp: p)
qed simp

lemma map_filter_span:
  "p \<in> set (List.map_filter f xs) \<Longrightarrow> \<exists>x \<in> set xs. f x = Some p"
  by (auto simp: map_filter_def)

lemma mask_ssids_total:
  assumes "utf8_ok b"
  shows "(\<exists>r. mask_ssids b = Some r \<and> utf8_ok r) \<longleftrightarrow> in_order (ssid_spans b)" "mask_ssids b = None \<longleftrightarrow> \<not> in_order (ssid_spans b)"
proof -
  have ok: "list_all (\<lambda>(s, e). s \<le> e \<and> e \<le> length b \<and> is_boundary b s \<and> is_boundary b e) (ssid_spans b)"
  proof -
    have "s \<le> e \<and> e \<le> length b \<and> is_boundary b s \<and> is_boundary b e" if m: "(s, e) \<in> set (ssid_spans b)" for s e
    proof -
      from map_filter_span [OF m [unfolded ssid_spans_def]] obtain v where v: "v \<in> set (key_value_starts b (ascii ''ssid''))" "ssid_span b v = Some (s, e)"
        by blast
      from key_value_from_key [OF v(1) [unfolded key_value_starts_def]] obtain j where "value_start b (j + length (ascii ''ssid'')) = Some v" by blast
      note c = value_start_cut [OF this]
      have "is_boundary b v" using cut_after [OF assms, of v] c by simp
      with ssid_span_ok [OF assms v(2) c(2)] show ?thesis by simp
    qed
    then show ?thesis by (auto simp: list_all_iff)
  qed
  have label: "list_all (\<lambda>c. c < 128) (ascii ''[REDACTED_SSID]'')" by (simp add: ascii_def)
  have some: "\<exists>r. mask_ssids b = Some r \<and> utf8_ok r" if "in_order (ssid_spans b)"
    using replace_total [OF assms _ label, of "ssid_spans b"] spans_ok_iff [OF ok, of 0] that
    by (simp add: mask_ssids_def ssid_spans_def)
  have none: "in_order (ssid_spans b)" if "mask_ssids b = Some r" for r
    using that replace_from_some [of b 0 "ssid_spans b"]
    by (auto simp: mask_ssids_def ssid_spans_def [symmetric] replace_spans_def split: if_splits)
  show "(\<exists>r. mask_ssids b = Some r \<and> utf8_ok r) \<longleftrightarrow> in_order (ssid_spans b)" using some none by blast
  show "mask_ssids b = None \<longleftrightarrow> \<not> in_order (ssid_spans b)" using some none by (metis not_None_eq option.distinct(1))
qed

lemma later_maskers_total:
  assumes "utf8_ok b"
  shows "\<exists>r. mask_user_paths b = Some r \<and> utf8_ok r" "\<exists>r. mask_emails b = Some r \<and> utf8_ok r" "\<exists>r. mask_macs b = Some r \<and> utf8_ok r"
    "\<exists>r. mask_ipv4 b = Some r \<and> utf8_ok r" "\<exists>r. mask_ipv6 b = Some r \<and> utf8_ok r"
proof -
  have ips: "list_all (\<lambda>c. c < 128) (ascii ''[REDACTED_IP]'')" by (simp add: ascii_def)
  show "\<exists>r. mask_user_paths b = Some r \<and> utf8_ok r"
    using user_spans_total [OF assms, of 0] replace_total [OF assms, of _ "ascii ''[REDACTED_USER]''"]
    by (auto simp: mask_user_paths_def) (simp add: ascii_def)
  have "list_all (\<lambda>p. p < length b \<and> b ! p = 64) (filter (\<lambda>i. b ! i = 64) [0..<length b])" by (simp add: list_all_iff)
  from email_spans_total [OF assms this, of 0] show "\<exists>r. mask_emails b = Some r \<and> utf8_ok r"
    using replace_total [OF assms, of _ "ascii ''[REDACTED_EMAIL]''"] by (auto simp: mask_emails_def) (simp add: ascii_def)
  show "\<exists>r. mask_macs b = Some r \<and> utf8_ok r"
    using replace_total [OF assms mac_spans_ok [OF assms, of 0], of "ascii ''[REDACTED_MAC]''"] by (simp add: mask_macs_def ascii_def)
  show "\<exists>r. mask_ipv4 b = Some r \<and> utf8_ok r"
    using ipv4_spans_total [OF assms, of 0] replace_total [OF assms _ ips] by (auto simp: mask_ipv4_def)
  show "\<exists>r. mask_ipv6 b = Some r \<and> utf8_ok r"
    using ipv6_spans_total [OF assms, of 0] replace_total [OF assms _ ips] by (auto simp: mask_ipv6_def)
qed

text \<open>
  C33. Exactly when exporting the diagnostics panics: on valid UTF-8 every masker returns, cutting no character,
  except the one for SSIDs, which panics exactly when the value of one \<open>ssid\<close> key reaches into the value of
  another (as in \<open>ssid=ssid=x\<close>, or a quoted network name containing \<open>ssid:\<close>); otherwise the
  result is UTF-8 again.
\<close>

theorem sanitize_panics_iff:
  assumes "utf8_ok b"
  shows "(sanitize_pii b = None \<longleftrightarrow> \<not> in_order (ssid_spans b)) \<and> (case sanitize_pii b of None \<Rightarrow> True | Some r \<Rightarrow> utf8_ok r)"
proof -
  have rest: "\<exists>r. sanitize_pii b = Some r \<and> utf8_ok r" if ord: "in_order (ssid_spans b)"
  proof -
    obtain b1 where b1: "mask_ssids b = Some b1" "utf8_ok b1" using mask_ssids_total(1) [OF assms] ord by blast
    obtain b2 where b2: "mask_pins b1 = Some b2" "utf8_ok b2" using mask_pins_total [OF b1(2)] by blast
    obtain b3 where b3: "mask_user_paths b2 = Some b3" "utf8_ok b3" using later_maskers_total(1) [OF b2(2)] by blast
    obtain b4 where b4: "mask_emails b3 = Some b4" "utf8_ok b4" using later_maskers_total(2) [OF b3(2)] by blast
    obtain b5 where b5: "mask_macs b4 = Some b5" "utf8_ok b5" using later_maskers_total(3) [OF b4(2)] by blast
    obtain b6 where b6: "mask_ipv4 b5 = Some b6" "utf8_ok b6" using later_maskers_total(4) [OF b5(2)] by blast
    obtain b7 where b7: "mask_ipv6 b6 = Some b7" "utf8_ok b7" using later_maskers_total(5) [OF b6(2)] by blast
    show ?thesis using b1(1) b2(1) b3(1) b4(1) b5(1) b6(1) b7 by (simp add: sanitize_pii_def)
  qed
  show ?thesis using rest mask_ssids_total(2) [OF assms] by (cases "in_order (ssid_spans b)") (auto simp: sanitize_pii_def)
qed


lemma nested_ssid: "utf8_ok (ascii ''ssid=ssid=x'')" "\<not> in_order (ssid_spans (ascii ''ssid=ssid=x''))"
  by code_simp+

theorem sanitize_panics_iff_witness: "sanitize_pii (ascii ''ssid=ssid=x'') = None"
  using sanitize_panics_iff [OF nested_ssid(1)] nested_ssid(2) by blast

section \<open>Nothing is missed\<close>

lemma value_start_bytes:
  assumes "value_start b p = Some v" "p \<le> j" "j < v"
  shows "b ! j = QUOTE \<or> b ! j = 32 \<or> b ! j = 58 \<or> b ! j = 61"
proof -
  define q where "q = (if p < length b \<and> b ! p = QUOTE then p + 1 else p)"
  define k where "k = scan (\<lambda>c. c = 32) b q"
  have k: "b ! k = 58 \<or> b ! k = 61" "v = scan (\<lambda>c. c = 32) b (k + 1)"
    using assms(1) by (simp_all add: value_start_def Let_def q_def [symmetric] k_def [symmetric] split: if_splits)
  consider "j < q" | "q \<le> j" "j < k" | "j = k" | "k + 1 \<le> j" by linarith
  then show ?thesis
  proof cases
    case 1
    then have "j = p" "b ! p = QUOTE" using assms(2) by (auto simp: q_def split: if_splits)
    then show ?thesis by simp
  next
    case 2
    then show ?thesis using scan_props(4) [of q j "\<lambda>c. c = 32" b] by (simp add: k_def)
  next
    case 3
    then show ?thesis using k(1) by auto
  next
    case 4
    then show ?thesis using scan_props(4) [of "k + 1" j "\<lambda>c. c = 32" b] assms(3) k(2) by simp
  qed
qed

lemma pin_key_letters: "key_at b (ascii ''pin'') i \<Longrightarrow> lower (b ! i) = 112 \<and> lower (b ! (i + 1)) = 105 \<and> lower (b ! (i + 2)) = 110"
proof -
  assume a: "key_at b (ascii ''pin'') i"
  have "length (ascii ''pin'') = 3" by (simp add: ascii_def)
  then have len: "i + 3 \<le> length b" and same: "map lower (sub_range b i (i + 3)) = map lower (ascii ''pin'')"
    using a by (simp_all add: key_at_def same_ignoring_case_def)
  have n: "lower (b ! (i + k)) = map lower (ascii ''pin'') ! k" if "k < 3" for k
    using arg_cong [OF same, of "\<lambda>xs. xs ! k"] that len by (simp add: sub_range_def)
  show ?thesis using n [of 0] n [of 1] n [of 2] by (simp add: ascii_def lower_def is_upper_def)
qed

lemma pin_key_found:
  "key_at b (ascii ''pin'') j \<Longrightarrow> i \<le> j \<Longrightarrow> value_start b (j + 3) = Some v \<Longrightarrow> v \<in> set (key_value_from b (ascii ''pin'') i)"
proof (induction "Suc (length b) - i" arbitrary: i rule: less_induct)
  case less
  have l3: "length (ascii ''pin'') = 3" by (simp add: ascii_def)
  have jlen: "j + 3 \<le> length b" using less.prems(1) by (simp add: key_at_def l3)
  then have len: "i + length (ascii ''pin'') \<le> length b" using less.prems(2) l3 by simp
  show ?case
  proof (cases "if key_at b (ascii ''pin'') i then value_start b (i + length (ascii ''pin'')) else None")
    case None
    then have "i \<noteq> j" using less.prems(1,3) by (auto simp: l3)
    then have "v \<in> set (key_value_from b (ascii ''pin'') (i + 1))"
      using less.hyps [of "i + 1"] less.prems jlen by simp
    with len None show ?thesis by (subst key_value_from.simps) simp
  next
    case (Some u)
    then have u: "key_at b (ascii ''pin'') i" "value_start b (i + 3) = Some u" by (auto simp: l3 split: if_splits)
    have step: "key_value_from b (ascii ''pin'') i = u # key_value_from b (ascii ''pin'') u"
      using len Some by (subst key_value_from.simps) simp
    show ?thesis
    proof (cases "i = j")
      case True
      with u less.prems(3) step show ?thesis by simp
    next
      case False
      have "u \<le> j"
      proof (rule ccontr)
        assume "\<not> u \<le> j"
        then have "j = i + 1 \<or> j = i + 2 \<or> i + 3 \<le> j \<and> j < u" using False less.prems(2) by linarith
        then show False
        proof (elim disjE)
          assume "i + 3 \<le> j \<and> j < u"
          with value_start_bytes [OF u(2), of j] pin_key_letters [OF less.prems(1)] show False
            by (auto simp: lower_def is_upper_def QUOTE_def)
        qed (use pin_key_letters [OF less.prems(1)] pin_key_letters [OF u(1)] in auto)
      qed
      moreover have "i < u" using value_start_cut(1) [OF u(2)] by simp
      ultimately show ?thesis using less.hyps [of u] less.prems jlen step by simp
    qed
  qed
qed

definition pin_spans :: "bytes \<Rightarrow> (nat \<times> nat) list" where
  "pin_spans text = List.map_filter (pin_span text) (key_value_starts text (ascii ''pin''))"


lemma pin_example:
  "key_at (ascii ''Pairing PIN: 012345.'') (ascii ''pin'') 8" "value_start (ascii ''Pairing PIN: 012345.'') (8 + 3) = Some 13"
  "pin_span (ascii ''Pairing PIN: 012345.'') 13 = Some (13, 19)"
  by code_simp+


text \<open>Nor is a MAC address: a span covers the start of each.\<close>

lemma macs_covered:
  "i \<le> j \<Longrightarrow> j + MAC_LEN \<le> length b \<Longrightarrow> mac_matches b j \<Longrightarrow> \<exists>(s, e) \<in> set (mac_spans b i). s \<le> j \<and> j < e"
proof (induction b i rule: mac_spans.induct)
  case (1 b i)
  have len: "i + MAC_LEN \<le> length b" using 1(3,4) by simp
  show ?case
  proof (cases "mac_matches b i")
    case True
    show ?thesis
    proof (cases "j < i + MAC_LEN")
      case False
      with 1(1) [OF len True] 1(4,5) len True show ?thesis by (subst mac_spans.simps) auto
    qed (use 1(3) len True in \<open>subst mac_spans.simps, auto\<close>)
  next
    case False
    then have "i + 1 \<le> j" using 1(3,5) by (cases "i = j") auto
    with 1(2) [OF len False] 1(4,5) len False show ?thesis by (subst mac_spans.simps) auto
  qed
qed


section \<open>The zip\<close>

text \<open>
  The \<open>n\<close> most recent logs of a directory: each \<open>.jsonl\<close> file with when it was written, if that is known.
\<close>

definition newest_session_logs :: "nat \<Rightarrow> (nat option \<times> 'p) list \<Rightarrow> 'p list" where
  "newest_session_logs n entries =
     take n (map snd (sort_key (\<lambda>(modified, _). - int modified)
       (List.map_filter (\<lambda>(modified, p). map_option (\<lambda>m. (m, p)) modified) entries)))"

text \<open>
  One file in the zip: \<open>read\<close> is \<open>None\<close> when there is no such file, and otherwise its bytes or the text of
  the error; \<open>lossy\<close> is \<open>String::from_utf8_lossy\<close>. \<open>None\<close> is a panic.
\<close>

definition add_log :: "(bytes \<Rightarrow> bytes) \<Rightarrow> string \<Rightarrow> (bytes + bytes) option \<Rightarrow> (string \<times> bytes) list \<Rightarrow> (string \<times> bytes) list option" where
  "add_log lossy name read files =
     (case read of
        None \<Rightarrow> Some files
      | Some (Inr bs) \<Rightarrow> map_option (\<lambda>text. files @ [(name, text)]) (sanitize_pii (lossy bs))
      | Some (Inl err) \<Rightarrow> Some (files @ [(name @ ''.error.txt'', err)]))"

lemma newest_session_logs_sorted:
  "\<exists>logs. newest_session_logs n entries = map snd logs \<and> sorted (map (\<lambda>(m, _). - int m) logs) \<and> length logs \<le> n
     \<and> set logs \<subseteq> {(m, p). (Some m, p) \<in> set entries}"
proof -
  let ?known = "List.map_filter (\<lambda>(modified, p). map_option (\<lambda>m. (m, p)) modified) entries"
  let ?logs = "take n (sort_key (\<lambda>(modified, _). - int modified) ?known)"
  have "sorted (map (\<lambda>(m, _). - int m) (sort_key (\<lambda>(modified, _). - int modified) ?known))" by (rule sorted_sort_key)
  then have "sorted (map (\<lambda>(m, _). - int m) ?logs)" unfolding take_map [symmetric] by (rule sorted_wrt_take)
  moreover have "set ?logs \<subseteq> {(m, p). (Some m, p) \<in> set entries}"
    by (rule subset_trans [OF set_take_subset]) (auto simp: map_filter_def)
  ultimately show ?thesis by (intro exI [of _ ?logs]) (simp add: newest_session_logs_def take_map)
qed

lemma add_log_masks:
  assumes "add_log lossy name (Some (Inr bs)) files = Some files'"
  shows "\<exists>text. files' = files @ [(name, text)] \<and> sanitize_pii (lossy bs) = Some text"
  using assms by (auto simp: add_log_def)

end
