(* ===== verification/LocalConfig.thy ===== *)
theory LocalConfig imports ConfigLayers IeeeFloat begin

text \<open>
  \<open>companion-app/src/config.rs\<close>: the user's \<open>local.toml\<close>, which the companion writes and the engine layers over
  its defaults. A TOML table is that of \<open>ConfigLayers\<close>. The TOML parser and printer and serde's
  deserializer are arguments, as is what each file operation returns.
\<close>

section \<open>The settings\<close>

datatype setting = SStr string | SBool bool | SInt nat | SFloat fl

record local_config =
  lc_codec :: string
  lc_sleep_enabled :: bool
  lc_sleep_timeout :: nat
  lc_ft_enabled :: bool
  lc_ft_smoothing :: fl
  lc_rec_enabled :: bool
  lc_rec_output_dir :: string
  lc_audio_enabled :: bool
  lc_audio_bitrate_kbps :: nat
  lc_apk_path :: string

definition local_default :: local_config where
  "local_default = \<lparr>lc_codec = ''h265'', lc_sleep_enabled = True, lc_sleep_timeout = 300, lc_ft_enabled = True,
     lc_ft_smoothing = f32_lit (6 / 10), lc_rec_enabled = False, lc_rec_output_dir = [], lc_audio_enabled = True,
     lc_audio_bitrate_kbps = 128, lc_apk_path = []\<rparr>"

definition SECTIONS :: "string list" where
  "SECTIONS = [''video'', ''sleep_mode'', ''face_tracking'', ''recording'', ''audio'', ''deploy'']"

text \<open>\<open>toml::Table::try_from(self)\<close>.\<close>

definition local_table :: "local_config \<Rightarrow> setting table" where
  "local_table c =
     [(''video'', Table [(''codec'', Leaf (SStr (lc_codec c)))]),
      (''sleep_mode'', Table [(''enabled'', Leaf (SBool (lc_sleep_enabled c))), (''timeout_seconds'', Leaf (SInt (lc_sleep_timeout c)))]),
      (''face_tracking'', Table [(''enabled'', Leaf (SBool (lc_ft_enabled c))), (''smoothing'', Leaf (SFloat (lc_ft_smoothing c)))]),
      (''recording'', Table [(''enabled'', Leaf (SBool (lc_rec_enabled c))), (''output_dir'', Leaf (SStr (lc_rec_output_dir c)))]),
      (''audio'', Table [(''enabled'', Leaf (SBool (lc_audio_enabled c))), (''bitrate_kbps'', Leaf (SInt (lc_audio_bitrate_kbps c)))]),
      (''deploy'', Table [(''apk_path'', Leaf (SStr (lc_apk_path c)))])]"

section \<open>The file\<close>

text \<open>\<open>local.toml\<close> and its backup, and what the operations on them return.\<close>

record local_files =
  lf_file :: "string option"
  lf_backup :: "string option"

record file_ops =
  op_read :: bool
  op_copy :: bool
  op_mkdir :: bool
  op_write :: bool
  op_rename :: bool

definition load_from :: "(string \<Rightarrow> local_config option) \<Rightarrow> file_ops \<Rightarrow> local_files \<Rightarrow> local_config" where
  "load_from from_str ops fs =
     (case lf_file fs of
        None \<Rightarrow> local_default
      | Some content \<Rightarrow> if \<not> op_read ops then local_default
          else (case from_str content of None \<Rightarrow> local_default | Some c \<Rightarrow> c))"

definition read_table :: "(string \<Rightarrow> setting table option) \<Rightarrow> file_ops \<Rightarrow> local_files \<Rightarrow> setting table option \<times> local_files" where
  "read_table parse ops fs =
     (case lf_file fs of
        None \<Rightarrow> (Some [], fs)
      | Some content \<Rightarrow>
          if \<not> op_read ops then (None, fs)
          else (case parse content of
                  Some t \<Rightarrow> (Some t, fs)
                | None \<Rightarrow> if op_copy ops then (Some [], fs\<lparr>lf_backup := Some content\<rparr>) else (None, fs)))"

definition write_table :: "(setting table \<Rightarrow> string option) \<Rightarrow> file_ops \<Rightarrow> setting table \<Rightarrow> local_files \<Rightarrow> bool \<times> local_files" where
  "write_table print ops t fs =
     (if \<not> op_mkdir ops then (False, fs)
      else case print t of
        None \<Rightarrow> (False, fs)
      | Some content \<Rightarrow> if op_write ops \<and> op_rename ops then (True, fs\<lparr>lf_file := Some content\<rparr>) else (False, fs))"

text \<open>The companion's own merge is the engine's, recursion for recursion.\<close>

definition merge_tables :: "setting table \<Rightarrow> setting table \<Rightarrow> setting table" where
  "merge_tables base overlay = merge_toml_tables base overlay"

definition save_to ::
    "(string \<Rightarrow> setting table option) \<Rightarrow> (setting table \<Rightarrow> string option) \<Rightarrow> file_ops \<Rightarrow> local_config \<Rightarrow> string list \<Rightarrow> local_files
      \<Rightarrow> bool \<times> local_files" where
  "save_to parse print ops c sections fs =
     (case read_table parse ops fs of
        (None, fs) \<Rightarrow> (False, fs)
      | (Some merged, fs) \<Rightarrow>
          let ours = filter (\<lambda>(section, _). section \<in> set sections) (local_table c)
          in write_table print ops (merge_tables merged ours) fs)"

definition clear_section :: "string \<times> setting toml \<Rightarrow> setting table \<Rightarrow> setting table" where
  "clear_section s t =
     (case s of
        (section, Table ours) \<Rightarrow>
          (case map_of t section of
             Some (Table existing) \<Rightarrow>
               let existing = filter (\<lambda>(k, _). k \<notin> fst ` set ours) existing
               in if existing = [] then AList.delete section t else AList.update section (Table existing) t
           | _ \<Rightarrow> t)
      | _ \<Rightarrow> t)"

definition clear_from ::
    "(string \<Rightarrow> setting table option) \<Rightarrow> (setting table \<Rightarrow> string option) \<Rightarrow> file_ops \<Rightarrow> local_files \<Rightarrow> bool \<times> local_files" where
  "clear_from parse print ops fs =
     (case read_table parse ops fs of
        (None, fs) \<Rightarrow> (False, fs)
      | (Some t, fs) \<Rightarrow> write_table print ops (fold clear_section (local_table local_default) t) fs)"

text \<open>
  The file of version 3.0.0 and before: read while there is no new one, and copied to its place before the first
  write. \<open>known\<close> says whether the user's data directory is found, \<open>copied\<close> whether the copy succeeds.
\<close>

definition load :: "(string \<Rightarrow> local_config option) \<Rightarrow> file_ops \<Rightarrow> bool \<Rightarrow> local_files \<Rightarrow> local_files option \<Rightarrow> local_config" where
  "load from_str ops known fs legacy =
     (if known \<and> lf_file fs \<noteq> None then load_from from_str ops fs
      else case legacy of Some old \<Rightarrow> load_from from_str ops old | None \<Rightarrow> local_default)"

definition legacy_config_path :: "local_files \<Rightarrow> local_files \<Rightarrow> local_files option" where
  "legacy_config_path beside_exe in_cwd = find (\<lambda>f. lf_file f \<noteq> None) [beside_exe, in_cwd]"

definition user_file :: "bool \<Rightarrow> bool \<Rightarrow> local_files \<Rightarrow> local_files option \<Rightarrow> local_files option" where
  "user_file known copied fs legacy =
     (if \<not> known then None
      else if lf_file fs = None then
        (case legacy of
           Some old \<Rightarrow> Some (if copied then fs\<lparr>lf_file := lf_file old\<rparr> else fs)
         | None \<Rightarrow> Some fs)
      else Some fs)"

definition save ::
    "(string \<Rightarrow> setting table option) \<Rightarrow> (setting table \<Rightarrow> string option) \<Rightarrow> file_ops \<Rightarrow> bool \<Rightarrow> bool \<Rightarrow> local_config \<Rightarrow> string list
      \<Rightarrow> local_files \<Rightarrow> local_files option \<Rightarrow> bool \<times> local_files" where
  "save parse print ops known copied c sections fs legacy =
     (case user_file known copied fs legacy of
        None \<Rightarrow> (False, fs)
      | Some fs \<Rightarrow> save_to parse print ops c sections fs)"

definition clear ::
    "(string \<Rightarrow> setting table option) \<Rightarrow> (setting table \<Rightarrow> string option) \<Rightarrow> file_ops \<Rightarrow> bool \<Rightarrow> bool
      \<Rightarrow> local_files \<Rightarrow> local_files option \<Rightarrow> bool \<times> local_files" where
  "clear parse print ops known copied fs legacy =
     (case user_file known copied fs legacy of
        None \<Rightarrow> (False, fs)
      | Some fs \<Rightarrow> clear_from parse print ops fs)"

section \<open>Saving\<close>

lemma local_table_sections: "map fst (local_table c) = SECTIONS"
  by (simp add: local_table_def SECTIONS_def)

lemma wf_local: "wf_toml (Table (filter P (local_table c)))"
proof -
  have "wf_toml (Table (local_table c))" by (simp add: local_table_def)
  then show ?thesis by (auto simp: distinct_map_filter)
qed

lemma leaf_filter:
  "leaf_at (filter (\<lambda>(s, _). s \<in> set sections) t) p = (if p \<noteq> [] \<and> hd p \<in> set sections then leaf_at t p else None)"
  "decides (filter (\<lambda>(s, _). s \<in> set sections) t) p = (p = [] \<or> hd p \<in> set sections \<and> decides t p)"
proof -
  have m: "map_of (filter (\<lambda>(s, _). s \<in> set sections) t) k = (if k \<in> set sections then map_of t k else None)" for k
    by (induction t) auto
  show "leaf_at (filter (\<lambda>(s, _). s \<in> set sections) t) p = (if p \<noteq> [] \<and> hd p \<in> set sections then leaf_at t p else None)"
    by (cases p) (simp_all add: m)
  show "decides (filter (\<lambda>(s, _). s \<in> set sections) t) p = (p = [] \<or> hd p \<in> set sections \<and> decides t p)"
    by (cases p) (simp_all add: m)
qed

lemma merge_leaf:
  "p \<noteq> [] \<Longrightarrow> leaf_at (merge_tables base (filter (\<lambda>(s, _). s \<in> set sections) (local_table c))) p =
     (if hd p \<in> set sections \<and> decides (local_table c) p then leaf_at (local_table c) p else leaf_at base p)"
  by (auto simp: merge_tables_def merged_leaf [OF wf_local] leaf_filter)

text \<open>What a read gives: the table of the file, nothing when there is none or it is broken, and then it is backed up.\<close>

lemma read_table_cases:
  assumes "read_table parse ops fs = (Some t, fs')"
  shows "lf_file fs' = lf_file fs"
    and "(lf_file fs = None \<and> t = [] \<and> fs' = fs)
      \<or> (\<exists>content. lf_file fs = Some content \<and> parse content = Some t \<and> fs' = fs)
      \<or> (\<exists>content. lf_file fs = Some content \<and> parse content = None \<and> t = [] \<and> lf_backup fs' = Some content)"
  using assms by (auto simp: read_table_def split: option.splits if_splits)

text \<open>
  C35. Saving settings changes exactly the keys of the sections asked for: in the file saved every other setting,
  whether the companion knows it or not, keeps its value; a save that fails leaves the file as it was, and a
  file that did not parse is in the backup before it is replaced.
\<close>

theorem save_exact:
  assumes "\<And>t content. print t = Some content \<Longrightarrow> parse content = Some t"
    and "save_to parse print ops c sections fs = (ok, fs')" "p \<noteq> []"
  shows "if ok then
      (\<exists>content t. lf_file fs' = Some content \<and> parse content = Some t
        \<and> leaf_at t p = (if hd p \<in> set sections \<and> decides (local_table c) p then leaf_at (local_table c) p
            else case lf_file fs of None \<Rightarrow> None | Some old \<Rightarrow> (case parse old of None \<Rightarrow> None | Some t \<Rightarrow> leaf_at t p)))
      \<and> (case lf_file fs of Some old \<Rightarrow> parse old = None \<longrightarrow> lf_backup fs' = Some old | None \<Rightarrow> True)
    else lf_file fs' = lf_file fs"
proof (cases "read_table parse ops fs")
  case (Pair r fs1)
  show ?thesis
  proof (cases r)
    case None
    with Pair assms(2) show ?thesis by (auto simp: save_to_def read_table_def split: option.splits if_splits)
  next
    case (Some t)
    note rt = read_table_cases [OF Pair [unfolded Some]]
    let ?new = "merge_tables t (filter (\<lambda>(s, _). s \<in> set sections) (local_table c))"
    have w: "write_table print ops ?new fs1 = (ok, fs')" using assms(2) Pair Some by (simp add: save_to_def Let_def)
    show ?thesis
    proof (cases ok)
      case False
      with w rt(1) show ?thesis by (auto simp: write_table_def split: option.splits if_splits)
    next
      case True
      with w obtain content where co: "print ?new = Some content" "fs' = fs1\<lparr>lf_file := Some content\<rparr>"
        by (auto simp: write_table_def split: option.splits if_splits)
      have pr: "parse content = Some ?new" using assms(1) [OF co(1)] .
      have old: "leaf_at t p = (case lf_file fs of None \<Rightarrow> None | Some old \<Rightarrow> (case parse old of None \<Rightarrow> None | Some t \<Rightarrow> leaf_at t p))"
        using rt(2) assms(3) by (cases p) auto
      have "case lf_file fs of Some old \<Rightarrow> parse old = None \<longrightarrow> lf_backup fs' = Some old | None \<Rightarrow> True"
        using rt(2) co(2) by auto
      then show ?thesis using True co(2) pr merge_leaf [OF assms(3), of t sections c] old by simp
    qed
  qed
qed

theorem save_exact_witness:
  "\<exists>fs'. save_to (\<lambda>s. if s = ''new'' then Some [(''video'', Table [(''codec'', Leaf (SStr ''h264'')), (''w'', Leaf (SInt 9))])]
          else if s = ''old'' then Some [(''video'', Table [(''codec'', Leaf (SStr ''h265'')), (''w'', Leaf (SInt 9))])] else None)
        (\<lambda>t. if t = [(''video'', Table [(''codec'', Leaf (SStr ''h264'')), (''w'', Leaf (SInt 9))])] then Some ''new'' else None)
        \<lparr>op_read = True, op_copy = True, op_mkdir = True, op_write = True, op_rename = True\<rparr>
        (local_default\<lparr>lc_codec := ''h264''\<rparr>) [''video''] \<lparr>lf_file = Some ''old'', lf_backup = None\<rparr> = (True, fs')
      \<and> lf_file fs' = Some ''new''"
proof -
  let ?new = "[(''video'', Table [(''codec'', Leaf (SStr ''h264'')), (''w'', Leaf (SInt 9))])]"
  let ?parse = "\<lambda>s. if s = ''new'' then Some ?new
          else if s = ''old'' then Some [(''video'', Table [(''codec'', Leaf (SStr ''h265'')), (''w'', Leaf (SInt 9))])] else None"
  let ?print = "\<lambda>t. if t = ?new then Some ''new'' else None"
  let ?ops = "\<lparr>op_read = True, op_copy = True, op_mkdir = True, op_write = True, op_rename = True\<rparr>"
  have s: "save_to ?parse ?print ?ops (local_default\<lparr>lc_codec := ''h264''\<rparr>) [''video''] \<lparr>lf_file = Some ''old'', lf_backup = None\<rparr>
      = (True, \<lparr>lf_file = Some ''new'', lf_backup = None\<rparr>)"
    by (simp add: save_to_def read_table_def write_table_def merge_tables_def local_table_def local_default_def entry_table_def)
  have "?parse content = Some t" if "?print t = Some content" for t content
  proof -
    have "t = ?new" "content = ''new''" using that by (auto split: if_splits)
    then show ?thesis by simp
  qed
  from save_exact [OF this s, of "[''video'', ''w'']"] s show ?thesis by simp
qed

section \<open>Resetting\<close>

lemma clear_section_lookup:
  "map_of (clear_section (s, Table ours) t) k =
     (if k = s then
        (case map_of t s of
           Some (Table existing) \<Rightarrow>
             (if filter (\<lambda>(k, _). k \<notin> fst ` set ours) existing = [] then None
              else Some (Table (filter (\<lambda>(k, _). k \<notin> fst ` set ours) existing)))
         | other \<Rightarrow> other)
      else map_of t k)"
  by (auto simp: clear_section_def Let_def delete_conv split: option.split toml.split)

lemma map_of_without: "map_of (filter (\<lambda>(k, _). k \<notin> K) t) k = (if k \<in> K then None else map_of t k)"
  by (induction t) auto

text \<open>The setting \<open>p\<close> lies at or under one of the keys of \<open>ours\<close> in \<open>section\<close>.\<close>

definition under :: "string \<Rightarrow> setting table \<Rightarrow> string list \<Rightarrow> bool" where
  "under s ours p \<longleftrightarrow> 2 \<le> length p \<and> hd p = s \<and> p ! 1 \<in> fst ` set ours"

lemma clear_section_leaf:
  "leaf_at (clear_section (s, Table ours) t) p = (if under s ours p then None else leaf_at t p)"
proof (cases p)
  case (Cons k ks)
  show ?thesis
  proof (cases "k = s")
    case False
    then show ?thesis by (simp add: Cons clear_section_lookup under_def)
  next
    case True
    show ?thesis
    proof (cases "map_of t s")
      case None
      then show ?thesis by (simp add: Cons True clear_section_lookup under_def)
    next
      case (Some v)
      show ?thesis
      proof (cases v)
        case (Leaf x)
        then show ?thesis using Some by (cases ks) (auto simp: Cons True clear_section_lookup under_def)
      next
        case (Table existing)
        let ?left = "filter (\<lambda>(k, _). k \<notin> fst ` set ours) existing"
        have "leaf_at ?left ks = (if under s ours p then None else leaf_at existing ks)"
          by (cases ks) (simp_all add: Cons True under_def map_of_without)
        then show ?thesis using Some Table by (auto simp: Cons True clear_section_lookup leaf_at_Nil)
      qed
    qed
  qed
qed (simp add: under_def)

definition managed :: "string list \<Rightarrow> bool" where
  "managed p \<longleftrightarrow> list_ex (\<lambda>(s, v). case v of Table ours \<Rightarrow> under s ours p | Leaf _ \<Rightarrow> False) (local_table local_default)"

lemma clear_fold:
  "list_all (\<lambda>(s, v). \<exists>ours. v = Table ours) ss \<Longrightarrow>
   leaf_at (fold clear_section ss t) p
     = (if list_ex (\<lambda>(s, v). case v of Table ours \<Rightarrow> under s ours p | Leaf _ \<Rightarrow> False) ss then None else leaf_at t p)"
proof (induction ss arbitrary: t)
  case (Cons e ss)
  obtain s ours where e: "e = (s, Table ours)" using Cons.prems by (cases e) auto
  show ?case using Cons by (simp add: e clear_section_leaf)
qed simp

text \<open>A key of a section, whatever its value.\<close>

definition section_key :: "setting table \<Rightarrow> string \<Rightarrow> string \<Rightarrow> setting toml option" where
  "section_key t s k = (case map_of t s of Some (Table e) \<Rightarrow> map_of e k | _ \<Rightarrow> None)"

lemma clear_section_key:
  "section_key (clear_section (s', Table ours) t) s k = (if s = s' \<and> k \<in> fst ` set ours then None else section_key t s k)"
proof (cases "s = s'")
  case True
  have "filter (\<lambda>(k, _). k \<notin> fst ` set ours) e = [] \<Longrightarrow> k \<notin> fst ` set ours \<Longrightarrow> map_of e k = None" for e :: "setting table"
    using map_of_without [of "fst ` set ours" e k] by simp
  then show ?thesis using True
    by (auto simp: section_key_def clear_section_lookup map_of_without split: option.splits toml.splits)
qed (simp add: section_key_def clear_section_lookup)

lemma clear_section_plain:
  "(case map_of (clear_section (s', Table ours) t) s of Some (Leaf v) \<Rightarrow> Some v | _ \<Rightarrow> None)
    = (case map_of t s of Some (Leaf v) \<Rightarrow> Some v | _ \<Rightarrow> None)"
  by (auto simp: clear_section_lookup split: option.splits toml.splits)

lemma clear_fold_key:
  "list_all (\<lambda>(s, v). \<exists>ours. v = Table ours) ss \<Longrightarrow>
   section_key (fold clear_section ss t) s k
     = (if list_ex (\<lambda>(s', v). case v of Table ours \<Rightarrow> under s' ours [s, k] | Leaf _ \<Rightarrow> False) ss then None else section_key t s k)"
proof (induction ss arbitrary: t)
  case (Cons e ss)
  obtain s' ours where e: "e = (s', Table ours)" using Cons.prems by (cases e) auto
  show ?case using Cons by (auto simp: e clear_section_key under_def)
qed simp

lemma clear_fold_plain:
  "list_all (\<lambda>(s, v). \<exists>ours. v = Table ours) ss \<Longrightarrow>
   (case map_of (fold clear_section ss t) s of Some (Leaf v) \<Rightarrow> Some v | _ \<Rightarrow> None)
    = (case map_of t s of Some (Leaf v) \<Rightarrow> Some v | _ \<Rightarrow> None)"
proof (induction ss arbitrary: t)
  case (Cons e ss)
  obtain s' ours where e: "e = (s', Table ours)" using Cons.prems by (cases e) auto
  show ?case using Cons by (simp add: e clear_section_plain)
qed simp

lemma local_sections: "list_all (\<lambda>(s, v). \<exists>ours. v = Table ours) (local_table c)"
  by (simp add: local_table_def)

lemma key_undecided:
  assumes "section_key t s k = None" "(case map_of t s of Some (Leaf v) \<Rightarrow> Some v | _ \<Rightarrow> None) = None"
  shows "\<not> decides t [s, k]"
  using assms by (auto simp: section_key_def split: option.splits toml.splits)

text \<open>
  C2. "Reset to defaults" lets \<open>default.toml\<close> apply again: the file it leaves has none of the settings the companion
  manages and every other one unchanged, and layered over any defaults a managed setting has the default's value
  (unless the file gives its section a plain value, which a reset keeps).
\<close>

theorem reset_restores_defaults:
  assumes "\<And>t content. print t = Some content \<Longrightarrow> parse content = Some t \<and> wf_toml (Table t)"
    and "clear_from parse print ops fs = (True, fs')" "lf_file fs = Some old" "parse old = Some mine"
    and "(case map_of mine s of Some (Leaf v) \<Rightarrow> Some v | _ \<Rightarrow> None) = None"
  shows "\<exists>content t. lf_file fs' = Some content \<and> parse content = Some t
    \<and> leaf_at t p = (if managed p then None else leaf_at mine p)
    \<and> (if managed [s, k] then leaf_at (merge_toml_tables base t) [s, k] = leaf_at base [s, k] else True)"
proof -
  let ?t = "fold clear_section (local_table local_default) mine"
  have rt: "read_table parse ops fs = (Some mine, fs)"
    using assms(2-4) by (auto simp: clear_from_def read_table_def split: if_splits)
  then have "write_table print ops ?t fs = (True, fs')" using assms(2) by (simp add: clear_from_def)
  then obtain content where c: "print ?t = Some content" "fs' = fs\<lparr>lf_file := Some content\<rparr>"
    by (auto simp: write_table_def split: option.splits if_splits)
  note pt = assms(1) [OF c(1)]
  have leaf: "leaf_at ?t p = (if managed p then None else leaf_at mine p)"
    by (simp add: clear_fold local_sections managed_def)
  have "leaf_at (merge_toml_tables base ?t) [s, k] = leaf_at base [s, k]" if m: "managed [s, k]"
  proof -
    have "section_key ?t s k = None" using m by (simp add: clear_fold_key local_sections managed_def)
    moreover have "(case map_of ?t s of Some (Leaf v) \<Rightarrow> Some v | _ \<Rightarrow> None) = None"
      using assms(5) by (simp only: clear_fold_plain [OF local_sections])
    ultimately show ?thesis using merged_leaf [of ?t base "[s, k]"] key_undecided pt by simp
  qed
  then show ?thesis using c(2) pt leaf by auto
qed


theorem reset_restores_defaults_witness:
  "\<exists>t. leaf_at (merge_toml_tables [(''video'', Table [(''codec'', Leaf (SStr ''av1''))])] t) [''video'', ''codec''] = Some (SStr ''av1'')
     \<and> leaf_at t [''video'', ''w''] = Some (SInt 9)"
proof -
  let ?new = "[(''video'', Table [(''w'', Leaf (SInt 9))])]"
  let ?old = "[(''video'', Table [(''codec'', Leaf (SStr ''h264'')), (''w'', Leaf (SInt 9))])]"
  let ?parse = "\<lambda>s. if s = ''new'' then Some ?new else if s = ''old'' then Some ?old else None"
  let ?print = "\<lambda>t. if t = ?new then Some ''new'' else None"
  let ?ops = "\<lparr>op_read = True, op_copy = True, op_mkdir = True, op_write = True, op_rename = True\<rparr>"
  have c: "clear_from ?parse ?print ?ops \<lparr>lf_file = Some ''old'', lf_backup = None\<rparr>
      = (True, \<lparr>lf_file = Some ''new'', lf_backup = None\<rparr>)"
    by (simp add: clear_from_def read_table_def write_table_def local_table_def local_default_def clear_section_def)
  have rt: "?parse content = Some t \<and> wf_toml (Table t)" if "?print t = Some content" for t content
  proof -
    have "t = ?new" "content = ''new''" using that by (auto split: if_splits)
    then show ?thesis by simp
  qed
  let ?base = "[(''video'', Table [(''codec'', Leaf (SStr ''av1''))])]"
  have lo: "?parse ''old'' = Some ?old" "(case map_of ?old ''video'' of Some (Leaf v) \<Rightarrow> Some v | _ \<Rightarrow> None) = None" by simp_all
  have "\<exists>content t. lf_file \<lparr>lf_file = Some ''new'', lf_backup = None\<rparr> = Some content \<and> ?parse content = Some t
    \<and> leaf_at t [''video'', ''w''] = (if managed [''video'', ''w''] then None else leaf_at ?old [''video'', ''w''])
    \<and> (if managed [''video'', ''codec''] then leaf_at (merge_toml_tables ?base t) [''video'', ''codec'']
         = leaf_at ?base [''video'', ''codec''] else True)"
    by (rule reset_restores_defaults [OF rt c _ lo]) (simp_all only: local_files.select_convs)
  then obtain t where r: "leaf_at t [''video'', ''w''] = (if managed [''video'', ''w''] then None else leaf_at ?old [''video'', ''w''])"
      "if managed [''video'', ''codec''] then leaf_at (merge_toml_tables ?base t) [''video'', ''codec'']
         = leaf_at ?base [''video'', ''codec''] else True"
    by blast
  have "managed [''video'', ''codec'']" "\<not> managed [''video'', ''w'']"
    by (simp_all add: managed_def local_table_def under_def)
  with r have "leaf_at (merge_toml_tables [(''video'', Table [(''codec'', Leaf (SStr ''av1''))])] t) [''video'', ''codec'']
      = leaf_at [(''video'', Table [(''codec'', Leaf (SStr ''av1''))])] [''video'', ''codec'']"
    "leaf_at t [''video'', ''w''] = leaf_at ?old [''video'', ''w'']" by simp_all
  moreover have "leaf_at [(''video'', Table [(''codec'', Leaf (SStr ''av1''))])] [''video'', ''codec''] = Some (SStr ''av1'')"
    "leaf_at ?old [''video'', ''w''] = Some (SInt 9)" by simp_all
  ultimately show ?thesis by (intro exI [of _ t] conjI) (simp_all only:)
qed

end
