(* ===== verification/Status.thy ===== *)
theory Status imports IeeeFloat Decimal begin

text \<open>
  \<open>status.json\<close>: the engine writes it (\<open>streaming-engine/src/lib.rs\<close>), the companion reads it
  (\<open>companion-app/src/status_parser.rs\<close>). serde_json's printer and parser are arguments; of them it is only
  assumed that an object read back has the values written, floats possibly in another rounding.
\<close>

section \<open>JSON values\<close>

datatype json = JNull | JBool bool | JU64 nat | JI64 int | JF64 fl | JStr string | JArr "json list" | JObj "(string \<times> json) list"

text \<open>\<open>Value::get\<close>, \<open>as_u64\<close>, \<open>as_str\<close>, \<open>as_bool\<close> and \<open>as_f64\<close>.\<close>

fun json_get :: "string \<Rightarrow> json \<Rightarrow> json option" where
  "json_get k (JObj members) = map_of members k"
| "json_get k _ = None"

fun as_u64 :: "json \<Rightarrow> nat option" where
  "as_u64 (JU64 n) = Some n"
| "as_u64 _ = None"

fun as_str :: "json \<Rightarrow> string option" where
  "as_str (JStr s) = Some s"
| "as_str _ = None"

fun as_bool :: "json \<Rightarrow> bool option" where
  "as_bool (JBool b) = Some b"
| "as_bool _ = None"

fun as_f64 :: "json \<Rightarrow> fl option" where
  "as_f64 (JF64 x) = Some x"
| "as_f64 (JU64 n) = Some (f_of_nat b64 n)"
| "as_f64 (JI64 i) = Some (f_of_int b64 i)"
| "as_f64 _ = None"

abbreviation field :: "(json \<Rightarrow> 'a option) \<Rightarrow> string \<Rightarrow> json \<Rightarrow> 'a option" where
  "field as_type k v \<equiv> Option.bind (json_get k v) as_type"

section \<open>The engine's side\<close>

record subsystem_status =
  ss_ft_active :: bool
  ss_sleep_active :: bool
  ss_audio_enabled :: bool
  ss_packet_loss_pct :: fl

definition STATUS_SCHEMA_VERSION :: u32 where "STATUS_SCHEMA_VERSION = 3"

text \<open>The two ports in one atomic word: \<open>tcp << 16 | udp\<close>.\<close>

definition set_status_ports :: "u16 \<Rightarrow> u16 \<Rightarrow> u32" where
  "set_status_ports tcp_port udp_port = or (push_bit 16 (ucast tcp_port)) (ucast udp_port)"

definition status_ports :: "u32 \<Rightarrow> (u16 \<times> u16) option" where
  "status_ports packed = (if packed \<noteq> 0 then Some (ucast (drop_bit 16 packed), ucast packed) else None)"

text \<open>\<open>format!("{:06}", p)\<close>.\<close>

definition pad6 :: "nat \<Rightarrow> string" where
  "pad6 n = replicate (6 - length (decimal n)) (CHR ''0'') @ decimal n"

definition round_tenth :: "fl \<Rightarrow> fl" where
  "round_tenth x = f_div b32 (f_round (f_mul b32 x (f32_lit 10))) (f32_lit 10)"

definition status_fields ::
    "string \<Rightarrow> u32 option \<Rightarrow> u64 option \<Rightarrow> u16 option \<Rightarrow> u32 option \<Rightarrow> subsystem_status option \<Rightarrow> u32 option
      \<Rightarrow> (u16 \<times> u16) option \<Rightarrow> (string \<times> json) list" where
  "status_fields status pin latency_us fps bitrate_mbps subsystems pin_expires_in_seconds ports =
     [(''schema_version'', JU64 (unat STATUS_SCHEMA_VERSION)),
      (''status'', JStr status),
      (''pin'', JStr (case pin of Some p \<Rightarrow> pad6 (unat p) | None \<Rightarrow> ''------'')),
      (''latency_us'', JU64 (case latency_us of Some l \<Rightarrow> unat l | None \<Rightarrow> 0)),
      (''fps'', JU64 (case fps of Some f \<Rightarrow> unat f | None \<Rightarrow> 0)),
      (''bitrate_mbps'', JU64 (case bitrate_mbps of Some b \<Rightarrow> unat b | None \<Rightarrow> 0))]
     @ (case subsystems of
          None \<Rightarrow> []
        | Some s \<Rightarrow>
            [(''ft_active'', JBool (ss_ft_active s)),
             (''sleep_active'', JBool (ss_sleep_active s)),
             (''audio_enabled'', JBool (ss_audio_enabled s))]
            @ (let rounded = round_tenth (ss_packet_loss_pct s)
               in if f_is_finite rounded then [(''packet_loss_pct'', JF64 rounded)] else []))
     @ (case pin_expires_in_seconds of None \<Rightarrow> [] | Some remaining \<Rightarrow> [(''pin_expires_in_seconds'', JU64 (unat remaining))])
     @ (case ports of
          None \<Rightarrow> []
        | Some (tcp_port, udp_port) \<Rightarrow> [(''tcp_port'', JU64 (unat tcp_port)), (''udp_port'', JU64 (unat udp_port))])"

definition build_status_json ::
    "(json \<Rightarrow> string option) \<Rightarrow> string \<Rightarrow> u32 option \<Rightarrow> u64 option \<Rightarrow> u16 option \<Rightarrow> u32 option \<Rightarrow> subsystem_status option
      \<Rightarrow> u32 option \<Rightarrow> (u16 \<times> u16) option \<Rightarrow> string" where
  "build_status_json to_string status pin latency_us fps bitrate_mbps subsystems pin_expires_in_seconds ports =
     (case to_string (JObj (status_fields status pin latency_us fps bitrate_mbps subsystems pin_expires_in_seconds ports)) of
        Some text \<Rightarrow> text
      | None \<Rightarrow> ''{}'')"

section \<open>The companion's side\<close>

datatype connection_status = CsDisconnected | WaitingForPin | CsConnected

record subsystems =
  sub_ft_active :: "bool option"
  sub_sleep_active :: "bool option"
  sub_audio_enabled :: "bool option"
  sub_packet_loss_pct :: "fl option"

record parsed_status =
  st_schema_version :: "u32 option"
  st_connection :: connection_status
  st_pin :: string
  st_latency_ms :: fl
  st_fps :: u32
  st_bitrate_mbps :: fl
  st_subsystems :: subsystems
  st_pin_expires :: "u32 option"
  st_engine_ports :: "(u16 \<times> u16) option"

text \<open>Times are nanoseconds on one clock.\<close>

definition is_status_fresh :: "nat option \<Rightarrow> nat \<Rightarrow> nat \<Rightarrow> bool" where
  "is_status_fresh mtime now threshold =
     (case mtime of
        None \<Rightarrow> False
      | Some mtime \<Rightarrow> if mtime \<le> now then now - mtime < threshold else mtime - now \<le> threshold)"

definition connection_of :: "string \<Rightarrow> string \<Rightarrow> connection_status" where
  "connection_of status pin =
     (if status = ''waiting'' then (if pin = ''------'' \<or> pin = ''----'' then CsDisconnected else WaitingForPin)
      else if status = ''streaming'' then CsConnected
      else CsDisconnected)"

definition port_of :: "json \<Rightarrow> string \<Rightarrow> u16 option" where
  "port_of v key =
     (case field as_u64 key v of
        Some n \<Rightarrow> if n < 2 ^ 16 \<and> (of_nat n :: u16) \<noteq> 0 then Some (of_nat n) else None
      | None \<Rightarrow> None)"

definition option_zip :: "'a option \<Rightarrow> 'b option \<Rightarrow> ('a \<times> 'b) option" where
  "option_zip a b = (case (a, b) of (Some x, Some y) \<Rightarrow> Some (x, y) | _ \<Rightarrow> None)"

definition status_of_value :: "json \<Rightarrow> parsed_status" where
  "status_of_value v =
     (let status_str = case_option ''unknown'' id (field as_str ''status'' v);
          pin = case_option ''------'' id (field as_str ''pin'' v);
          latency_us = case_option 0 id (field as_u64 ''latency_us'' v)
      in \<lparr>st_schema_version = map_option of_nat (field as_u64 ''schema_version'' v),
          st_connection = connection_of status_str pin,
          st_pin = pin,
          st_latency_ms = f_div b32 (f_of_nat b32 latency_us) (f32_lit 1000),
          st_fps = of_nat (case_option 0 id (field as_u64 ''fps'' v)),
          st_bitrate_mbps = f_of_nat b32 (case_option 0 id (field as_u64 ''bitrate_mbps'' v)),
          st_subsystems = \<lparr>sub_ft_active = field as_bool ''ft_active'' v, sub_sleep_active = field as_bool ''sleep_active'' v,
            sub_audio_enabled = field as_bool ''audio_enabled'' v,
            sub_packet_loss_pct = map_option f32_of_f64 (field as_f64 ''packet_loss_pct'' v)\<rparr>,
          st_pin_expires = map_option of_nat (field as_u64 ''pin_expires_in_seconds'' v),
          st_engine_ports = option_zip (port_of v ''tcp_port'') (port_of v ''udp_port'')\<rparr>)"

definition parse_status_json :: "(string \<Rightarrow> json option) \<Rightarrow> string \<Rightarrow> parsed_status option" where
  "parse_status_json from_str content = map_option status_of_value (from_str content)"

text \<open>The file: written beside and renamed over. It keeps its content unless both succeed.\<close>

definition write_status_file ::
    "(json \<Rightarrow> string option) \<Rightarrow> bool \<Rightarrow> bool \<Rightarrow> bool \<Rightarrow> u32 \<Rightarrow> string \<Rightarrow> u32 option \<Rightarrow> u64 option \<Rightarrow> u16 option \<Rightarrow> u32 option
      \<Rightarrow> subsystem_status option \<Rightarrow> u32 option \<Rightarrow> string option \<Rightarrow> string option" where
  "write_status_file to_string has_dir written renamed packed status pin latency_us fps bitrate_mbps subsystems
       pin_expires_in_seconds on_disk =
     (if \<not> has_dir then on_disk
      else let json = build_status_json to_string status pin latency_us fps bitrate_mbps subsystems pin_expires_in_seconds
             (status_ports packed)
           in if written \<and> renamed then Some json else on_disk)"

section \<open>What is published is what is shown\<close>

lemma status_ports_packed:
  "status_ports (set_status_ports tcp udp) = (if tcp = 0 \<and> udp = 0 then None else Some (tcp, udp))"
proof -
  have hi: "ucast (drop_bit 16 (set_status_ports tcp udp)) = tcp"
    by (rule bit_word_eqI) (auto simp: set_status_ports_def bit_simps dest: bit_imp_le_length)
  have lo: "ucast (set_status_ports tcp udp) = udp"
    by (rule bit_word_eqI) (auto simp: set_status_ports_def bit_simps dest: bit_imp_le_length)
  have "set_status_ports tcp udp = 0 \<longleftrightarrow> tcp = 0 \<and> udp = 0"
    using hi lo by (auto simp: set_status_ports_def)
  then show ?thesis by (simp add: status_ports_def hi lo)
qed

fun reread :: "(fl \<Rightarrow> fl) \<Rightarrow> json \<Rightarrow> json" where
  "reread h (JF64 x) = JF64 (h x)"
| "reread h v = v"

lemma port_reread: "json_get k v = Some (JU64 (unat (p :: u16))) \<Longrightarrow> port_of v k = (if p = 0 then None else Some p)"
  using unat_less_length [of p] by (simp add: port_of_def)

lemma pad6_digits: "list_all (\<lambda>c. digit_value c \<noteq> None) (pad6 n)"
  using decimal_digits [of n] by (auto simp: pad6_def list_all_iff digit_value_def)

lemma pad6_not_dashes: "pad6 n \<noteq> ''------''" "pad6 n \<noteq> ''----''"
  using pad6_digits [of n] by (auto simp: digit_value_def)

lemma status_read:
  assumes "written = status_fields status pin latency fps bitrate subs expires (status_ports (set_status_ports tcp udp))"
    and "to_string (JObj written) = Some json" "from_str json = Some (JObj members)"
    and "map_of members = map_option (reread h) \<circ> map_of written"
  shows "parse_status_json from_str (build_status_json to_string status pin latency fps bitrate subs expires
        (status_ports (set_status_ports tcp udp)))
    = Some \<lparr>st_schema_version = Some 3,
        st_connection = (if status = ''waiting'' then (if pin = None then CsDisconnected else WaitingForPin)
          else if status = ''streaming'' then CsConnected else CsDisconnected),
        st_pin = (case pin of None \<Rightarrow> ''------'' | Some p \<Rightarrow> pad6 (unat p)),
        st_latency_ms = f_div b32 (f_of_nat b32 (case latency of None \<Rightarrow> 0 | Some l \<Rightarrow> unat l)) (f32_lit 1000),
        st_fps = (case fps of None \<Rightarrow> 0 | Some f \<Rightarrow> ucast f),
        st_bitrate_mbps = f_of_nat b32 (case bitrate of None \<Rightarrow> 0 | Some b \<Rightarrow> unat b),
        st_subsystems = (case subs of
            None \<Rightarrow> \<lparr>sub_ft_active = None, sub_sleep_active = None, sub_audio_enabled = None, sub_packet_loss_pct = None\<rparr>
          | Some s \<Rightarrow> \<lparr>sub_ft_active = Some (ss_ft_active s), sub_sleep_active = Some (ss_sleep_active s),
              sub_audio_enabled = Some (ss_audio_enabled s),
              sub_packet_loss_pct = (let loss = round_tenth (ss_packet_loss_pct s)
                in if f_is_finite loss then Some (f32_of_f64 (h loss)) else None)\<rparr>),
        st_pin_expires = expires,
        st_engine_ports = (if tcp = 0 \<or> udp = 0 then None else Some (tcp, udp))\<rparr>"
proof -
  let ?ports = "status_ports (set_status_ports tcp udp)"
  let ?o = "status_fields status pin latency fps bitrate subs expires ?ports"
  note t = assms(2,3) [unfolded assms(1)]
  have get: "json_get k (JObj members) = map_option (reread h) (map_of ?o k)" for k by (simp add: assms(1,4))
  have head: "json_get ''schema_version'' (JObj members) = Some (JU64 3)"
      "json_get ''status'' (JObj members) = Some (JStr status)"
      "json_get ''pin'' (JObj members) = Some (JStr (case pin of Some p \<Rightarrow> pad6 (unat p) | None \<Rightarrow> ''------''))"
      "json_get ''latency_us'' (JObj members) = Some (JU64 (case latency of Some l \<Rightarrow> unat l | None \<Rightarrow> 0))"
      "json_get ''fps'' (JObj members) = Some (JU64 (case fps of Some f \<Rightarrow> unat f | None \<Rightarrow> 0))"
      "json_get ''bitrate_mbps'' (JObj members) = Some (JU64 (case bitrate of Some b \<Rightarrow> unat b | None \<Rightarrow> 0))"
    unfolding get by (simp_all add: status_fields_def STATUS_SCHEMA_VERSION_def)
  have sub: "json_get ''ft_active'' (JObj members) = map_option (\<lambda>s. JBool (ss_ft_active s)) subs"
      "json_get ''sleep_active'' (JObj members) = map_option (\<lambda>s. JBool (ss_sleep_active s)) subs"
      "json_get ''audio_enabled'' (JObj members) = map_option (\<lambda>s. JBool (ss_audio_enabled s)) subs"
      "json_get ''packet_loss_pct'' (JObj members) = Option.bind subs (\<lambda>s. let loss = round_tenth (ss_packet_loss_pct s)
         in if f_is_finite loss then Some (JF64 (h loss)) else None)"
    unfolding get by (simp_all add: status_fields_def Let_def split: option.split)
  have rest: "json_get ''pin_expires_in_seconds'' (JObj members) = map_option (\<lambda>e. JU64 (unat e)) expires"
      "json_get ''tcp_port'' (JObj members) = map_option (\<lambda>(t, u). JU64 (unat t)) ?ports"
      "json_get ''udp_port'' (JObj members) = map_option (\<lambda>(t, u). JU64 (unat u)) ?ports"
    unfolding get by (simp_all add: status_fields_def Let_def split: option.split)
  note pin = pad6_not_dashes
  have ports: "option_zip (port_of (JObj members) ''tcp_port'') (port_of (JObj members) ''udp_port'')
      = (if tcp = 0 \<or> udp = 0 then None else Some (tcp, udp))"
  proof (cases "tcp = 0 \<and> udp = 0")
    case True
    then show ?thesis by (simp add: port_of_def rest status_ports_packed option_zip_def del: json_get.simps)
  next
    case False
    then have p: "?ports = Some (tcp, udp)" by (simp add: status_ports_packed)
    show ?thesis
      using port_reread [where k = "''tcp_port''" and v = "JObj members" and p = tcp]
        port_reread [where k = "''udp_port''" and v = "JObj members" and p = udp]
      by (simp add: rest p option_zip_def del: json_get.simps)
  qed
  have expires: "map_option of_nat (Option.bind (map_option (\<lambda>e. JU64 (unat e)) expires) as_u64) = expires"
    by (cases expires) simp_all
  show ?thesis
    using pin by (simp add: parse_status_json_def build_status_json_def t status_of_value_def head sub rest ports
        connection_of_def expires Let_def split: option.split del: json_get.simps)
qed


lemma length_pad6: "n < 10 ^ 6 \<Longrightarrow> length (pad6 n) = 6"
  using length_decimal [of n 6] by (simp add: pad6_def)

lemma parse_pad6: "parse_decimal (pad6 n) = Some n"
  by (simp add: pad6_def parse_decimal_zeros parse_decimal_decimal)

text \<open>
  The companion shows exactly what the engine publishes: whatever status, PIN, latency, rates, subsystems, expiry
  and ports the engine writes, its parser returns them, in its own units, and no field it was not given. The PIN
  that is not there yet is not taken for one, and ports of which one is 0 are not taken at all.
\<close>

theorem status_roundtrip:
  assumes "written = status_fields status pin latency fps bitrate subs expires (status_ports (set_status_ports tcp udp))"
    and "to_string (JObj written) = Some json" "from_str json = Some (JObj members)"
    and "map_of members = map_option (reread h) \<circ> map_of written"
  shows "parse_status_json from_str (build_status_json to_string status pin latency fps bitrate subs expires
        (status_ports (set_status_ports tcp udp)))
    = Some \<lparr>st_schema_version = Some 3,
        st_connection = (if status = ''waiting'' then (if pin = None then CsDisconnected else WaitingForPin)
          else if status = ''streaming'' then CsConnected else CsDisconnected),
        st_pin = (case pin of None \<Rightarrow> ''------'' | Some p \<Rightarrow> pad6 (unat p)),
        st_latency_ms = f_div b32 (f_of_nat b32 (case latency of None \<Rightarrow> 0 | Some l \<Rightarrow> unat l)) (f32_lit 1000),
        st_fps = (case fps of None \<Rightarrow> 0 | Some f \<Rightarrow> ucast f),
        st_bitrate_mbps = f_of_nat b32 (case bitrate of None \<Rightarrow> 0 | Some b \<Rightarrow> unat b),
        st_subsystems = (case subs of
            None \<Rightarrow> \<lparr>sub_ft_active = None, sub_sleep_active = None, sub_audio_enabled = None, sub_packet_loss_pct = None\<rparr>
          | Some s \<Rightarrow> \<lparr>sub_ft_active = Some (ss_ft_active s), sub_sleep_active = Some (ss_sleep_active s),
              sub_audio_enabled = Some (ss_audio_enabled s),
              sub_packet_loss_pct = (let loss = round_tenth (ss_packet_loss_pct s)
                in if f_is_finite loss then Some (f32_of_f64 (h loss)) else None)\<rparr>),
        st_pin_expires = expires,
        st_engine_ports = (if tcp = 0 \<or> udp = 0 then None else Some (tcp, udp))\<rparr>"
  using assms by (rule status_read)

theorem status_roundtrip_witness:
  "\<exists>s. parse_status_json (\<lambda>_. Some (JObj (status_fields ''waiting'' (Some 42) None None None None None (Some (9944, 9946)))))
       (build_status_json (\<lambda>_. Some ''x'') ''waiting'' (Some 42) None None None None None
         (status_ports (set_status_ports 9944 9946))) = Some s
     \<and> st_connection s = WaitingForPin \<and> st_pin s = pad6 42 \<and> st_engine_ports s = Some (9944, 9946)"
  using status_roundtrip [OF refl, where status = "''waiting''" and pin = "Some 42" and latency = None and fps = None
      and bitrate = None and subs = None and expires = None and tcp = 9944 and udp = 9946 and h = id
      and to_string = "\<lambda>_. Some ''x''" and json = "''x''"
      and from_str = "\<lambda>_. Some (JObj (status_fields ''waiting'' (Some 42) None None None None None (Some (9944, 9946))))"
      and members = "status_fields ''waiting'' (Some 42) None None None None None (Some (9944, 9946))"]
  by (simp add: status_ports_packed status_fields_def fun_eq_iff)

text \<open>A file counts as the engine's for less than the threshold after its time, and until the clock caught up before it.\<close>

lemma fresh_iff:
  "is_status_fresh (Some mtime) now threshold \<longleftrightarrow> (mtime \<le> now \<and> now < mtime + threshold) \<or> (now < mtime \<and> mtime \<le> now + threshold)"
  by (auto simp: is_status_fresh_def)

end
