(* ===== verification/EngineApi.thy ===== *)
theory EngineApi imports Status EngineLoop Recording begin

text \<open>
  The engine as the driver sees it (\<open>streaming-engine/src/lib.rs\<close>): the C functions over the two global slots, the
  callbacks it registers, the configuration snapshot, and what \<open>engine.rs\<close> publishes in \<open>status.json\<close>. The spawned
  tasks are those of \<open>EngineLoop\<close>; here is the side of their shared state the driver's threads touch. A lock is
  never poisoned: the release profile aborts on a panic.
\<close>

section \<open>Callbacks\<close>

record fvp_view_config =
  vw_left_eye :: "u32 list"
  vw_right_eye :: "u32 list"
  vw_ipd_m :: u32

definition fvp_view :: "view_config \<Rightarrow> fvp_view_config" where
  "fvp_view v = (let eye = (\<lambda>e. [fov_left e, fov_right e, fov_up e, fov_down e])
     in \<lparr>vw_left_eye = eye (eye_l v), vw_right_eye = eye (eye_r v), vw_ipd_m = ipd_m v\<rparr>)"

datatype callback_call = CallIdr | CallGaze u32 u32 int | CallBitrate u32 | CallView fvp_view_config

text \<open>Which callbacks the driver has registered.\<close>

record callbacks =
  cb_idr :: bool
  cb_gaze :: bool
  cb_bitrate :: bool
  cb_view :: bool

definition set_idr_callback :: "callbacks \<Rightarrow> callbacks" where "set_idr_callback c = c\<lparr>cb_idr := True\<rparr>"
definition set_gaze_callback :: "callbacks \<Rightarrow> callbacks" where "set_gaze_callback c = c\<lparr>cb_gaze := True\<rparr>"
definition set_bitrate_callback :: "callbacks \<Rightarrow> callbacks" where "set_bitrate_callback c = c\<lparr>cb_bitrate := True\<rparr>"
definition set_view_config_callback :: "callbacks \<Rightarrow> callbacks" where "set_view_config_callback c = c\<lparr>cb_view := True\<rparr>"

definition notify_idr_request :: "callbacks \<Rightarrow> callback_call list" where
  "notify_idr_request c = (if cb_idr c then [CallIdr] else [])"

definition notify_bitrate_change :: "callbacks \<Rightarrow> u32 \<Rightarrow> callback_call list" where
  "notify_bitrate_change c bitrate_bps = (if cb_bitrate c then [CallBitrate bitrate_bps] else [])"

definition notify_view_config :: "callbacks \<Rightarrow> view_config \<Rightarrow> callback_call list" where
  "notify_view_config c view = (if cb_view c then [CallView (fvp_view view)] else [])"

definition notify_gaze_update :: "callbacks \<Rightarrow> u32 \<Rightarrow> u32 \<Rightarrow> bool \<Rightarrow> callback_call list" where
  "notify_gaze_update c x y valid = (if cb_gaze c then [CallGaze x y (if valid then 1 else 0)] else [])"

section \<open>The configuration snapshot\<close>

record fvp_config =
  fc_render_width :: nat
  fc_render_height :: nat
  fc_refresh_rate :: fl
  fc_ipd :: fl
  fc_vsync_to_photons :: fl
  fc_full_range :: int
  fc_foveated_enabled :: int
  fc_fovea_radius :: fl
  fc_mid_radius :: fl
  fc_mid_qp_offset :: int
  fc_peripheral_qp_offset :: int
  fc_resolution_scale :: fl
  fc_bitrate_bps :: nat
  fc_encoded_width :: nat
  fc_encoded_height :: nat

definition build_fvp_config :: "app_config \<Rightarrow> fvp_config" where
  "build_fvp_config cfg =
     (let (mid_qp, peripheral_qp) = effective_qp_offsets (foveated cfg);
          v = video cfg
      in \<lparr>fc_render_width = resolution_w v, fc_render_height = resolution_h v,
          fc_refresh_rate = f_of_nat b32 (framerate v),
          fc_ipd = ipd (display cfg), fc_vsync_to_photons = vsync_to_photons (display cfg),
          fc_full_range = (if full_range v then 1 else 0),
          fc_foveated_enabled = (if fov_enabled (foveated cfg) then 1 else 0),
          fc_fovea_radius = fovea_radius (foveated cfg), fc_mid_radius = mid_radius (foveated cfg),
          fc_mid_qp_offset = mid_qp, fc_peripheral_qp_offset = peripheral_qp,
          fc_resolution_scale = resolution_scale v,
          fc_bitrate_bps = min (2 ^ 32 - 1) (bitrate_mbps v * 1000000),
          fc_encoded_width = resolution_w v, fc_encoded_height = resolution_h v\<rparr>)"

section \<open>The engine and the global slots\<close>

definition recording_output_dir :: "app_config \<Rightarrow> string option \<Rightarrow> string" where
  "recording_output_dir cfg data_dir =
     (if rec_output_dir (recording cfg) \<noteq> [] then rec_output_dir (recording cfg)
      else case data_dir of Some d \<Rightarrow> d @ ''/FocusVisionPCVR/recordings'' | None \<Rightarrow> ''./recordings'')"

text \<open>What the driver's calls touch: the frame channel, the headset's inputs, the recorder and its runtime switch.\<close>

record engine_side =
  en_frames :: "encoded_frame list"
  en_tracking :: tracking_state
  en_recorder :: "(recorder \<times> disk_file) option"
  en_recording :: bool

record api =
  ap_engine :: "engine_side option"
  ap_config :: "app_config option"
  ap_ports :: u32

definition api_start :: api where "api_start = \<lparr>ap_engine = None, ap_config = None, ap_ports = 0\<rparr>"

definition init_recorder :: "app_config \<Rightarrow> (recorder \<times> disk_file) option \<Rightarrow> (recorder \<times> disk_file) option" where
  "init_recorder cfg opened = (if \<not> rec_enabled (recording cfg) then None else opened)"

text \<open>\<open>StreamingEngine::new\<close>: \<open>None\<close> when the runtime cannot be built; the ports are published before that.\<close>

definition streaming_engine_new ::
    "app_config \<Rightarrow> bool \<Rightarrow> (recorder \<times> disk_file) option \<Rightarrow> tracking_state \<Rightarrow> engine_side option \<times> u32" where
  "streaming_engine_new cfg runtime_ok opened tracking =
     (if runtime_ok then
        Some \<lparr>en_frames = [], en_tracking = clear_inputs tracking, en_recorder = init_recorder cfg opened,
          en_recording = rec_enabled (recording cfg)\<rparr>
      else None,
      set_status_ports (of_nat (tcp_port (network cfg))) (of_nat (udp_port (network cfg))))"

text \<open>\<open>fvp_init\<close> with the configuration the files give; \<open>None\<close> is the panic of \<open>validate\<close>.\<close>

definition fvp_init :: "app_config \<Rightarrow> bool \<Rightarrow> (recorder \<times> disk_file) option \<Rightarrow> tracking_state \<Rightarrow> api \<Rightarrow> (int \<times> api) option" where
  "fvp_init loaded runtime_ok opened tracking a =
     (case validate loaded of
        None \<Rightarrow> None
      | Some (cfg, errors) \<Rightarrow>
          let a = a\<lparr>ap_config := Some cfg\<rparr>;
              (engine, ports) = streaming_engine_new cfg runtime_ok opened tracking;
              a = a\<lparr>ap_ports := ports\<rparr>
          in (case engine of
                Some e \<Rightarrow> Some (0, a\<lparr>ap_engine := Some e\<rparr>)
              | None \<Rightarrow> Some (-1, a)))"

definition fvp_shutdown :: "api \<Rightarrow> api" where
  "fvp_shutdown a = a\<lparr>ap_engine := None\<rparr>"

definition MAX_NAL_DATA_LEN :: nat where "MAX_NAL_DATA_LEN = 32 * 1024 * 1024"

text \<open>The frame is recorded before it is queued, whether or not it will be.\<close>

definition engine_submit :: "bool \<Rightarrow> encoded_frame \<Rightarrow> engine_side \<Rightarrow> bool \<times> engine_side" where
  "engine_submit lock_free f e =
     (let e = e\<lparr>en_recorder := write_recording_nal (en_recording e) lock_free (ef_nal_data f) (en_recorder e)\<rparr>;
          (queued, frames) = submit_frame f (en_frames e)
      in (queued, e\<lparr>en_frames := frames\<rparr>))"

text \<open>A pointer is \<open>None\<close> when null, else the bytes (or floats) behind it.\<close>

definition fvp_submit_encoded_frame ::
    "instant \<Rightarrow> bool \<Rightarrow> (nat \<Rightarrow> u8) option \<Rightarrow> u32 \<Rightarrow> u32 \<Rightarrow> int \<Rightarrow> quat_bits option \<Rightarrow> u32 \<Rightarrow> api \<Rightarrow> int \<times> api" where
  "fvp_submit_encoded_frame now lock_free nal_data_ptr nal_data_len frame_index is_idr render_orientation encode_us a =
     (case nal_data_ptr of
        None \<Rightarrow> (-1, a)
      | Some memory \<Rightarrow>
          if nal_data_len = 0 then (-1, a)
          else if MAX_NAL_DATA_LEN < unat nal_data_len then (-1, a)
          else (case ap_engine a of
                  None \<Rightarrow> (-1, a)
                | Some e \<Rightarrow>
                    let f = \<lparr>ef_frame_index = frame_index,
                             ef_nal_data = map memory [0..<unat nal_data_len],
                             ef_is_idr = (is_idr \<noteq> 0),
                             ef_timestamps = (if 0 < encode_us then timestamps_encoded now frame_index (unat encode_us * nanos_per_us)
                               else timestamps_new now frame_index),
                             ef_orientation = (case render_orientation of
                                 Some q \<Rightarrow> if quat_finite q then Some q else None
                               | None \<Rightarrow> None)\<rparr>;
                        (queued, e) = engine_submit lock_free f e
                    in (if queued then 0 else -1, a\<lparr>ap_engine := Some e\<rparr>)))"

definition fvp_submit_encoded_nal ::
    "instant \<Rightarrow> bool \<Rightarrow> (nat \<Rightarrow> u8) option \<Rightarrow> u32 \<Rightarrow> u32 \<Rightarrow> int \<Rightarrow> api \<Rightarrow> int \<times> api" where
  "fvp_submit_encoded_nal now lock_free nal_data_ptr nal_data_len frame_index is_idr a =
     fvp_submit_encoded_frame now lock_free nal_data_ptr nal_data_len frame_index is_idr None 0 a"

text \<open>The value written to \<open>out\<close>, when there is one; \<open>out_null\<close> says the pointer is null.\<close>

definition fvp_get_tracking_data :: "bool \<Rightarrow> api \<Rightarrow> int \<times> tracking_data option" where
  "fvp_get_tracking_data out_null a =
     (if out_null then (-1, None)
      else case ap_engine a of
        None \<Rightarrow> (-1, None)
      | Some e \<Rightarrow> (case tk_head (en_tracking e) of Some d \<Rightarrow> (0, Some d) | None \<Rightarrow> (-1, None)))"

definition fvp_get_controller_state :: "instant \<Rightarrow> u8 \<Rightarrow> bool \<Rightarrow> api \<Rightarrow> int \<times> controller_state option" where
  "fvp_get_controller_state now controller_id out_null a =
     (if out_null then (-1, None)
      else case ap_engine a of
        None \<Rightarrow> (-1, None)
      | Some e \<Rightarrow> (case get_controller (en_tracking e) controller_id now of Some s \<Rightarrow> (0, Some s) | None \<Rightarrow> (-1, None)))"

definition fvp_get_config :: "bool \<Rightarrow> api \<Rightarrow> int \<times> fvp_config option" where
  "fvp_get_config out_null a =
     (if out_null then (-1, None)
      else case ap_config a of None \<Rightarrow> (-1, None) | Some cfg \<Rightarrow> (0, Some (build_fvp_config cfg)))"

section \<open>What every sequence of the driver's calls keeps\<close>

text \<open>The driver's calls and what the engine's tasks do to the shared state meanwhile, in any order.\<close>

datatype api_event =
  ApInit app_config bool "(recorder \<times> disk_file) option" tracking_state
| ApShutdown
| ApSubmit instant bool "(nat \<Rightarrow> u8) option" u32 u32 int "quat_bits option" u32
| ApTaskTakesFrame
| ApTracking tracking_state
| ApRecordingSwitch bool

fun api_step :: "api_event \<Rightarrow> api \<Rightarrow> api option" where
  "api_step (ApInit loaded runtime_ok opened t) a = map_option snd (fvp_init loaded runtime_ok opened t a)"
| "api_step ApShutdown a = Some (fvp_shutdown a)"
| "api_step (ApSubmit now free ptr len i idr q us) a = Some (snd (fvp_submit_encoded_frame now free ptr len i idr q us a))"
| "api_step ApTaskTakesFrame a = Some (a\<lparr>ap_engine := map_option (\<lambda>e. e\<lparr>en_frames := tl (en_frames e)\<rparr>) (ap_engine a)\<rparr>)"
| "api_step (ApTracking t) a = Some (a\<lparr>ap_engine := map_option (\<lambda>e. e\<lparr>en_tracking := t\<rparr>) (ap_engine a)\<rparr>)"
| "api_step (ApRecordingSwitch on) a = Some (a\<lparr>ap_engine := map_option (\<lambda>e. e\<lparr>en_recording := on\<rparr>) (ap_engine a)\<rparr>)"

fun api_run :: "api_event list \<Rightarrow> api \<Rightarrow> api option" where
  "api_run [] a = Some a"
| "api_run (e # es) a = (case api_step e a of None \<Rightarrow> None | Some a \<Rightarrow> api_run es a)"

definition frame_valid :: "encoded_frame \<Rightarrow> bool" where
  "frame_valid f \<longleftrightarrow> 0 < length (ef_nal_data f) \<and> length (ef_nal_data f) \<le> MAX_NAL_DATA_LEN
     \<and> (case ef_orientation f of Some q \<Rightarrow> quat_finite q | None \<Rightarrow> True)"

definition api_inv :: "api \<Rightarrow> bool" where
  "api_inv a \<longleftrightarrow>
     (case ap_config a of Some c \<Rightarrow> (\<exists>loaded. config_repaired loaded c) | None \<Rightarrow> ap_engine a = None)
     \<and> (case ap_engine a of Some e \<Rightarrow> length (en_frames e) \<le> FRAME_CAPACITY \<and> list_all frame_valid (en_frames e) | None \<Rightarrow> True)"

lemma submit_result:
  "fvp_submit_encoded_frame now free ptr len i idr q us a =
     (case (ptr, ap_engine a) of
        (Some memory, Some e) \<Rightarrow>
          if len = 0 \<or> MAX_NAL_DATA_LEN < unat len then (-1, a)
          else let f = \<lparr>ef_frame_index = i, ef_nal_data = map memory [0..<unat len], ef_is_idr = (idr \<noteq> 0),
                    ef_timestamps = (if 0 < us then timestamps_encoded now i (unat us * nanos_per_us) else timestamps_new now i),
                    ef_orientation = (case q of Some q \<Rightarrow> if quat_finite q then Some q else None | None \<Rightarrow> None)\<rparr>
               in (if length (en_frames e) < FRAME_CAPACITY then 0 else -1,
                   a\<lparr>ap_engine := Some (e\<lparr>en_recorder := write_recording_nal (en_recording e) free (map memory [0..<unat len]) (en_recorder e),
                     en_frames := en_frames e @ (if length (en_frames e) < FRAME_CAPACITY then [f] else [])\<rparr>)\<rparr>)
      | _ \<Rightarrow> (-1, a))"
  by (simp add: fvp_submit_encoded_frame_def engine_submit_def submit_frame_def Let_def split: option.split)

lemma submitted_valid:
  assumes "len \<noteq> 0" "\<not> MAX_NAL_DATA_LEN < unat len"
  shows "frame_valid \<lparr>ef_frame_index = i, ef_nal_data = map memory [0..<unat len], ef_is_idr = b, ef_timestamps = t,
           ef_orientation = (case q of Some q \<Rightarrow> if quat_finite q then Some q else None | None \<Rightarrow> None)\<rparr>"
  using assms unat_gt_0 [of len] by (simp add: frame_valid_def split: option.split)

lemma api_inv_submit:
  assumes "api_inv a"
  shows "api_inv (snd (fvp_submit_encoded_frame now free ptr len i idr q us a))"
proof (cases "ptr = None \<or> ap_engine a = None \<or> len = 0 \<or> MAX_NAL_DATA_LEN < unat len")
  case True
  then show ?thesis using assms by (auto simp: submit_result split: option.split)
next
  case False
  then obtain memory e where p: "ptr = Some memory" "ap_engine a = Some e" "len \<noteq> 0" "\<not> MAX_NAL_DATA_LEN < unat len" by auto
  then show ?thesis using assms submitted_valid [OF p(3,4)]
    by (auto simp: submit_result api_inv_def Let_def split: option.splits)
qed

lemma api_inv_init:
  assumes "api_inv a" "fvp_init loaded ok opened t a = Some (rc, a')"
  shows "api_inv a'"
proof -
  obtain cfg errors where v: "validate loaded = Some (cfg, errors)" using assms(2) by (auto simp: fvp_init_def split: option.splits)
  have r: "config_repaired loaded cfg" by (rule validate_some [OF v])
  show ?thesis
  proof (cases ok)
    case True
    then show ?thesis using assms v r
      by (auto simp: fvp_init_def streaming_engine_new_def api_inv_def Let_def)
  next
    case False
    then show ?thesis using assms v r
      by (auto simp: fvp_init_def streaming_engine_new_def api_inv_def Let_def split: option.splits)
  qed
qed

lemma list_all_tl: "list_all P xs \<Longrightarrow> list_all P (tl xs)"
  by (cases xs) simp_all

lemma api_inv_step: "api_inv a \<Longrightarrow> api_step e a = Some a' \<Longrightarrow> api_inv a'"
proof (cases e)
  case (ApInit loaded ok opened t)
  assume "api_inv a" "api_step e a = Some a'"
  then show ?thesis using ApInit api_inv_init by auto
next
  case (ApSubmit now free ptr len i idr q us)
  assume "api_inv a" "api_step e a = Some a'"
  then show ?thesis using ApSubmit api_inv_submit by auto
qed (auto simp: api_inv_def fvp_shutdown_def list_all_tl split: option.splits)

lemma api_inv_run: "api_inv a \<Longrightarrow> api_run es a = Some a' \<Longrightarrow> api_inv a'"
  by (induction es arbitrary: a) (auto intro: api_inv_step split: option.splits)

lemma config_repaired_video: "config_repaired c c' \<Longrightarrow> video_ok (video c')"
  by (simp add: config_repaired_def rest_ok_def)

text \<open>
  C26. Whatever the driver calls, in any order and whatever the engine's tasks do meanwhile: at most four frames wait,
  each with 1 byte to 32 MiB of data and no orientation that is not finite, and the configuration the driver reads
  is a validated one: an even picture of 320 to 4096 pixels a side that is also the size it encodes at, 30 to 120
  frames a second and 10 to 200 Mbit/s.
\<close>

theorem driver_api_safe:
  assumes "api_run calls api_start = Some a"
  shows "(case ap_engine a of
        Some e \<Rightarrow> length (en_frames e) \<le> 4 \<and> list_all frame_valid (en_frames e) \<and> ap_config a \<noteq> None
      | None \<Rightarrow> True)
    \<and> (case fvp_get_config False a of
        (rc, Some f) \<Rightarrow> rc = 0 \<and> fc_render_width f \<in> {320..4096} \<and> even (fc_render_width f)
          \<and> fc_render_height f \<in> {320..4096} \<and> even (fc_render_height f)
          \<and> fc_encoded_width f = fc_render_width f \<and> fc_encoded_height f = fc_render_height f
          \<and> fc_bitrate_bps f \<in> {10000000..200000000}
          \<and> f_of_nat b32 30 \<le> fc_refresh_rate f \<and> fc_refresh_rate f \<le> f_of_nat b32 120
      | (rc, None) \<Rightarrow> rc = -1 \<and> ap_config a = None)"
proof
  have inv: "api_inv a" using api_inv_run [OF _ assms] by (simp add: api_inv_def api_start_def)
  then show "case ap_engine a of
        Some e \<Rightarrow> length (en_frames e) \<le> 4 \<and> list_all frame_valid (en_frames e) \<and> ap_config a \<noteq> None
      | None \<Rightarrow> True"
    by (auto simp: api_inv_def FRAME_CAPACITY_def split: option.splits)
  show "case fvp_get_config False a of
        (rc, Some f) \<Rightarrow> rc = 0 \<and> fc_render_width f \<in> {320..4096} \<and> even (fc_render_width f)
          \<and> fc_render_height f \<in> {320..4096} \<and> even (fc_render_height f)
          \<and> fc_encoded_width f = fc_render_width f \<and> fc_encoded_height f = fc_render_height f
          \<and> fc_bitrate_bps f \<in> {10000000..200000000}
          \<and> f_of_nat b32 30 \<le> fc_refresh_rate f \<and> fc_refresh_rate f \<le> f_of_nat b32 120
      | (rc, None) \<Rightarrow> rc = -1 \<and> ap_config a = None"
  proof (cases "ap_config a")
    case (Some c)
    then have v: "video_ok (video c)" using inv config_repaired_video by (auto simp: api_inv_def)
    have "f_of_nat b32 30 \<le> f_of_nat b32 (framerate (video c))" "f_of_nat b32 (framerate (video c)) \<le> f_of_nat b32 120"
      using v by (auto simp: video_ok_def intro!: fmt32.rnd_mono)
    then show ?thesis using Some v by (auto simp: fvp_get_config_def build_fvp_config_def video_ok_def split_beta Let_def)
  qed (simp add: fvp_get_config_def)
qed

definition no_tracking :: tracking_state where
  "no_tracking = \<lparr>tk_head = None, tk_controllers = [None, None], tk_gaze = [], tk_rejected = 0, tk_recv_errors = 0\<rparr>"

theorem driver_api_safe_witness:
  "\<exists>a e. api_run [ApInit default_config True None no_tracking, ApSubmit 5 True (Some (\<lambda>_. 7)) 3 0 1 None 0] api_start = Some a
     \<and> ap_engine a = Some e \<and> map ef_nal_data (en_frames e) = [[7, 7, 7]] \<and> fst (fvp_get_config False a) = 0 \<and> length (en_frames e) \<le> 4"
proof -
  have v: "validate default_config = Some (default_config, [])" by (rule validate_silent [OF default_config_ok])
  obtain a e where a: "api_run [ApInit default_config True None no_tracking, ApSubmit 5 True (Some (\<lambda>_. 7)) 3 0 1 None 0] api_start = Some a"
      "ap_engine a = Some e" "map ef_nal_data (en_frames e) = [[7, 7, 7]]" "fst (fvp_get_config False a) = 0"
    using v by (simp add: fvp_init_def streaming_engine_new_def submit_result api_start_def MAX_NAL_DATA_LEN_def FRAME_CAPACITY_def
        upt_rec fvp_get_config_def Let_def split_beta)
  from driver_api_safe [OF a(1)] a show ?thesis by auto
qed

section \<open>One submitted frame\<close>

text \<open>
  A frame is accepted exactly when there are data of 1 byte to 32 MiB, an engine, and room among the four waiting
  frames; then it is queued last with exactly the bytes behind the pointer, and otherwise no waiting frame changes.
  A frame with data is recorded whether or not it is queued.
\<close>

theorem submit_exact:
  "(case fvp_submit_encoded_frame now free ptr len i idr q us a of
      (rc, a') \<Rightarrow>
        rc = (if (case (ptr, ap_engine a) of (Some memory, Some e) \<Rightarrow> 0 < unat len \<and> unat len \<le> 33554432 \<and> length (en_frames e) < 4
                | _ \<Rightarrow> False) then 0 else -1)
        \<and> ap_config a' = ap_config a
        \<and> (case (ap_engine a, ap_engine a') of
            (Some e, Some e') \<Rightarrow>
              (if rc = 0 then (\<exists>f. en_frames e' = en_frames e @ [f] \<and> ef_frame_index f = i \<and> ef_is_idr f = (idr \<noteq> 0)
                   \<and> length (ef_nal_data f) = unat len
                   \<and> (case ptr of Some memory \<Rightarrow> ef_nal_data f = map memory [0..<unat len] | None \<Rightarrow> False)
                   \<and> ef_orientation f = Option.bind q (\<lambda>q. if quat_finite q then Some q else None))
               else en_frames e' = en_frames e)
              \<and> en_recorder e' = (case ptr of
                  Some memory \<Rightarrow> if 0 < unat len \<and> unat len \<le> 33554432
                    then write_recording_nal (en_recording e) free (map memory [0..<unat len]) (en_recorder e) else en_recorder e
                | None \<Rightarrow> en_recorder e)
          | (None, None) \<Rightarrow> True
          | _ \<Rightarrow> False))"
proof -
  have "len \<noteq> 0 \<longleftrightarrow> 0 < unat len" by (simp add: unat_gt_0)
  then show ?thesis
    by (cases ptr; cases "ap_engine a"; cases q)
      (auto simp: submit_result Let_def MAX_NAL_DATA_LEN_def FRAME_CAPACITY_def)
qed

section \<open>What the engine publishes\<close>

record status_io =
  io_dir :: bool
  io_written :: bool
  io_renamed :: bool
  io_print :: "json \<Rightarrow> string option"

definition write_status ::
    "status_io \<Rightarrow> u32 \<Rightarrow> string \<Rightarrow> u32 option \<Rightarrow> u64 option \<Rightarrow> u16 option \<Rightarrow> u32 option \<Rightarrow> subsystem_status option \<Rightarrow> u32 option
      \<Rightarrow> string option \<Rightarrow> string option" where
  "write_status io = write_status_file (io_print io) (io_dir io) (io_written io) (io_renamed io)"

definition publish_streaming_status ::
    "status_io \<Rightarrow> u32 \<Rightarrow> app_config \<Rightarrow> u32 \<Rightarrow> bool \<Rightarrow> u16 \<Rightarrow> u32 \<Rightarrow> bool \<Rightarrow> hmd_stats option \<Rightarrow> string option \<Rightarrow> string option" where
  "publish_streaming_status io ports cfg total_latency_us audio_active fps mbps sleeping stats on_disk =
     write_status io ports ''streaming'' None (Some (ucast total_latency_us)) (Some fps) (Some mbps)
       (Some \<lparr>ss_ft_active = ft_enabled (face_tracking cfg), ss_sleep_active = sleeping, ss_audio_enabled = audio_active,
          ss_packet_loss_pct = packet_loss_pct stats\<rparr>)
       None on_disk"

definition publish_waiting_status :: "status_io \<Rightarrow> u32 \<Rightarrow> (u32 \<times> u32) option \<Rightarrow> string option \<Rightarrow> string option" where
  "publish_waiting_status io ports pin on_disk =
     write_status io ports ''waiting'' (map_option fst pin) None None None None (map_option snd pin) on_disk"

text \<open>\<open>None\<close> where a handshake holds the pairing lock; then the last value stands.\<close>

definition publish_pin_status ::
    "status_io \<Rightarrow> u32 \<Rightarrow> (u32 \<times> u32) option \<Rightarrow> (u32 \<times> u32) option \<Rightarrow> string option \<Rightarrow> (u32 \<times> u32) option \<times> string option" where
  "publish_pin_status io ports server_status last_shown on_disk =
     (let shown = (case server_status of Some s \<Rightarrow> Some s | None \<Rightarrow> last_shown)
      in (shown, publish_waiting_status io ports shown on_disk))"

definition session_record_fields ::
    "(string \<Rightarrow> string) \<Rightarrow> string \<Rightarrow> u32 \<Rightarrow> adaptive_state \<Rightarrow> fl \<Rightarrow> u16 \<Rightarrow> nat \<Rightarrow> (string \<times> json) list" where
  "session_record_fields stamp now total_latency_us adaptive redundancy pc_fps rss_mb =
     (let stats = as_last adaptive;
          hundredths = (\<lambda>pct. f_div b32 (f_round (f_mul b32 pct (Fin 100))) (Fin 100))
      in [(''ts'', JStr (stamp now)),
          (''pc_latency_us'', JU64 (unat total_latency_us)),
          (''pc_fps'', JU64 (unat pc_fps)),
          (''bitrate_mbps'', JU64 (current_bitrate_mbps (as_bitrate adaptive))),
          (''loss_pct'', JF64 (hundredths (packet_loss_pct stats))),
          (''fec_pct'', JF64 (hundredths (f_mul b32 redundancy (Fin 100)))),
          (''hmd_fps'', JU64 (case stats of None \<Rightarrow> 0 | Some s \<Rightarrow> unat (hm_fps s))),
          (''hmd_decode_us'', JU64 (case stats of None \<Rightarrow> 0 | Some s \<Rightarrow> unat (hm_decode_us s))),
          (''sleeping'', JBool (sl_sleeping (as_sleep adaptive))),
          (''rss_mb'', JU64 rss_mb)])"

section \<open>The file stays fresh\<close>

definition STATUS_HEARTBEAT :: duration where "STATUS_HEARTBEAT = nanos_per_sec"

text \<open>
  The beats of \<open>with_heartbeat\<close>: its interval is due at once and then every \<open>period\<close>; a poll \<open>late\<close> after a tick was
  due beats then, and when it was more than 5 ms late the next tick is due a whole period after it
  (\<open>MissedTickBehavior::Delay\<close>). The future it drives is done at \<open>finished\<close>.
\<close>

fun heartbeat_ticks :: "duration \<Rightarrow> instant \<Rightarrow> duration list \<Rightarrow> instant list" where
  "heartbeat_ticks period due [] = []"
| "heartbeat_ticks period due (late # lates) =
     (let beat = due + late
      in beat # heartbeat_ticks period (if 5 * nanos_per_ms < late then beat + period else due + period) lates)"

definition with_heartbeat :: "duration \<Rightarrow> instant \<Rightarrow> duration list \<Rightarrow> instant \<Rightarrow> instant list" where
  "with_heartbeat period started lates finished = takeWhile (\<lambda>beat. beat < finished) (heartbeat_ticks period started lates)"

lemma ticks_from: "list_all (\<lambda>b. due \<le> b) (heartbeat_ticks period due lates)"
proof (induction lates arbitrary: due)
  case (Cons late lates)
  have "list_all (\<lambda>b. due \<le> b) (heartbeat_ticks period (if 5 * nanos_per_ms < late then due + late + period else due + period) lates)"
    by (rule list.pred_mono_strong [OF Cons.IH]) (auto split: if_splits)
  then show ?case by (simp add: Let_def)
qed simp

lemma newest_tick:
  assumes "list_all (\<lambda>l. l < 4 * nanos_per_sec) lates" "prev \<le> now" "due \<le> prev + nanos_per_sec"
    and "now \<le> last (prev # heartbeat_ticks nanos_per_sec due lates)"
  shows "last (prev # filter (\<lambda>b. b \<le> now) (heartbeat_ticks nanos_per_sec due lates)) \<le> now
    \<and> now < last (prev # filter (\<lambda>b. b \<le> now) (heartbeat_ticks nanos_per_sec due lates)) + 5 * nanos_per_sec"
  using assms
proof (induction lates arbitrary: due prev)
  case (Cons late lates)
  let ?due = "if 5 * nanos_per_ms < late then due + late + nanos_per_sec else due + nanos_per_sec"
  let ?rest = "heartbeat_ticks nanos_per_sec ?due lates"
  show ?case
  proof (cases "due + late \<le> now")
    case True
    have "last ((due + late) # filter (\<lambda>b. b \<le> now) ?rest) \<le> now \<and> now < last ((due + late) # filter (\<lambda>b. b \<le> now) ?rest) + 5 * nanos_per_sec"
      using Cons.prems True by (intro Cons.IH) (simp_all add: Let_def)
    then show ?thesis using True by (simp add: Let_def)
  next
    case False
    have "list_all (\<lambda>b. due + late \<le> b \<or> due + nanos_per_sec \<le> b) ?rest"
      by (rule list.pred_mono_strong [OF ticks_from [of ?due]]) (auto split: if_splits)
    moreover have "now < due + nanos_per_sec \<or> 5 * nanos_per_ms < late" using False by auto
    ultimately have "filter (\<lambda>b. b \<le> now) ?rest = []" using ticks_from [of ?due nanos_per_sec lates] False
      by (auto simp: list_all_iff filter_empty_conv split: if_splits)
    then show ?thesis using False Cons.prems by (simp add: Let_def)
  qed
qed simp

text \<open>
  C27. As long as the engine waits for a headset or backs off, status.json never looks stale to the companion, whose
  limit is five seconds: the newest write is always recent enough, if no poll comes four seconds late.
\<close>

theorem status_stays_fresh:
  assumes "list_all (\<lambda>l. l < 4 * nanos_per_sec) (late # lates)"
    and "beats = heartbeat_ticks STATUS_HEARTBEAT started (late # lates)"
    and "hd beats \<le> now" "now \<le> last beats"
  shows "is_status_fresh (Some (last (filter (\<lambda>b. b \<le> now) beats))) now (5 * nanos_per_sec)"
proof -
  let ?due = "if 5 * nanos_per_ms < late then started + late + nanos_per_sec else started + nanos_per_sec"
  let ?rest = "heartbeat_ticks nanos_per_sec ?due lates"
  have b: "beats = (started + late) # ?rest" using assms(2) by (simp add: STATUS_HEARTBEAT_def Let_def)
  have "last ((started + late) # filter (\<lambda>b. b \<le> now) ?rest) \<le> now
      \<and> now < last ((started + late) # filter (\<lambda>b. b \<le> now) ?rest) + 5 * nanos_per_sec"
    using assms(1) assms(3,4) [unfolded b] by (intro newest_tick) simp_all
  moreover have "filter (\<lambda>b. b \<le> now) beats = (started + late) # filter (\<lambda>b. b \<le> now) ?rest" using assms(3) b by simp
  ultimately have "last (filter (\<lambda>b. b \<le> now) beats) \<le> now" "now < last (filter (\<lambda>b. b \<le> now) beats) + 5 * nanos_per_sec"
    by (simp_all only:)
  then show ?thesis by (simp only: fresh_iff) simp
qed

theorem status_stays_fresh_witness:
  "is_status_fresh (Some (last (filter (\<lambda>b. b \<le> 2900000000) (heartbeat_ticks STATUS_HEARTBEAT 0 [0, 3000000, 2000000000, 0]))))
     2900000000 (5 * nanos_per_sec)"
  by (rule status_stays_fresh [OF _ refl]) (simp_all add: STATUS_HEARTBEAT_def)

section \<open>From the engine's pairing to the companion's screen\<close>

definition waiting_fields :: "(u32 \<times> u32) option \<Rightarrow> u16 \<Rightarrow> u16 \<Rightarrow> (string \<times> json) list" where
  "waiting_fields pin tcp udp =
     status_fields ''waiting'' (map_option fst pin) None None None None (map_option snd pin) (status_ports (set_status_ports tcp udp))"

lemma waiting_shown:
  assumes "io_dir io \<and> io_written io \<and> io_renamed io"
    and j: "io_print io (JObj (waiting_fields pin tcp udp)) = Some json" "from_str json = Some (JObj (waiting_fields pin tcp udp))"
  shows "\<exists>s. Option.bind (publish_waiting_status io (set_status_ports tcp udp) pin on_disk) (parse_status_json from_str) = Some s
    \<and> st_connection s = (if pin = None then CsDisconnected else WaitingForPin)
    \<and> st_pin s = (case pin of None \<Rightarrow> ''------'' | Some (p, _) \<Rightarrow> pad6 (unat p))
    \<and> st_pin_expires s = map_option snd pin
    \<and> st_engine_ports s = (if tcp = 0 \<or> udp = 0 then None else Some (tcp, udp))"
proof -
  have re: "reread id = id" by (rule ext, case_tac x) simp_all
  have m: "map_of (waiting_fields pin tcp udp) = map_option (reread id) \<circ> map_of (waiting_fields pin tcp udp)"
    by (simp add: fun_eq_iff re option.map_id)
  have w: "publish_waiting_status io (set_status_ports tcp udp) pin on_disk
      = Some (build_status_json (io_print io) ''waiting'' (map_option fst pin) None None None None (map_option snd pin)
          (status_ports (set_status_ports tcp udp)))"
    using assms(1) by (simp add: publish_waiting_status_def write_status_def write_status_file_def Let_def)
  show ?thesis unfolding w using status_read [where written = "waiting_fields pin tcp udp" and members = "waiting_fields pin tcp udp"
      and to_string = "io_print io" and from_str = from_str and json = json and h = id and tcp = tcp and udp = udp
      and status = "''waiting''" and pin = "map_option fst pin" and latency = None and fps = None and bitrate = None
      and subs = None and expires = "map_option snd pin", OF waiting_fields_def j m]
    by (cases pin) (simp_all add: split_beta)
qed

text \<open>
  The companion shows the very PIN the engine accepts: in every state the pairing can reach, what the waiting
  engine publishes reads back as six digits whose value is the current PIN, with its remaining seconds and the ports.
\<close>

theorem published_pin_is_accepted:
  assumes "pairing_inv pairing" "io_dir io \<and> io_written io \<and> io_renamed io"
    and "io_print io (JObj (waiting_fields (Some (ps_pin pairing, left)) tcp udp)) = Some json"
    and "from_str json = Some (JObj (waiting_fields (Some (ps_pin pairing, left)) tcp udp))"
    and "tcp \<noteq> 0" "udp \<noteq> 0"
  shows "\<exists>s. Option.bind (snd (publish_pin_status io (set_status_ports tcp udp) (Some (ps_pin pairing, left)) last_shown on_disk))
        (parse_status_json from_str) = Some s
    \<and> st_connection s = WaitingForPin \<and> length (st_pin s) = 6 \<and> parse_decimal (st_pin s) = Some (unat (ps_pin pairing))
    \<and> st_pin_expires s = Some left \<and> st_engine_ports s = Some (tcp, udp)"
proof -
  have "unat (ps_pin pairing) < 10 ^ 6" using assms(1) by (simp add: pairing_inv_def)
  then have "length (pad6 (unat (ps_pin pairing))) = 6" "parse_decimal (pad6 (unat (ps_pin pairing))) = Some (unat (ps_pin pairing))"
    by (simp_all add: length_pad6 parse_pad6)
  then show ?thesis using waiting_shown [where pin = "Some (ps_pin pairing, left)" and tcp = tcp and udp = udp and on_disk = on_disk
      and from_str = from_str and json = json, OF assms(2-4)] assms(5,6) by (auto simp: publish_pin_status_def Let_def)
qed

theorem published_pin_is_accepted_witness:
  "\<exists>s. Option.bind (snd (publish_pin_status \<lparr>io_dir = True, io_written = True, io_renamed = True, io_print = \<lambda>_. Some ''x''\<rparr>
          (set_status_ports 9944 9946) (Some (42, 600)) None None))
        (parse_status_json (\<lambda>_. Some (JObj (waiting_fields (Some (42, 600)) 9944 9946)))) = Some s
      \<and> length (st_pin s) = 6 \<and> parse_decimal (st_pin s) = Some 42"
proof -
  let ?io = "\<lparr>io_dir = True, io_written = True, io_renamed = True, io_print = \<lambda>_. Some ''x''\<rparr>"
  let ?p = "nearly_locked\<lparr>ps_pin := 42, ps_attempts := 0\<rparr>"
  have "pairing_inv ?p"
    by (simp add: nearly_locked_def default_limits_def MAX_PIN_ATTEMPTS_def pairing_inv_def max_att_def)
  then show ?thesis
    using published_pin_is_accepted [of ?p ?io 600 9944 9946 "''x''" "\<lambda>_. Some (JObj (waiting_fields (Some (42, 600)) 9944 9946))" None None]
    by auto
qed

end
