(* ===== verification/Text.thy ===== *)
theory Text imports Decimal begin

text \<open>
  Text as its Unicode code points, and the functions of Rust's \<open>str\<close> the companion parses program output with.
\<close>

type_synonym ustr = "nat list"

abbreviation str :: "string \<Rightarrow> ustr" where "str s \<equiv> map of_char s"

text \<open>\<open>char::is_whitespace\<close>: the property White_Space.\<close>

definition is_whitespace :: "nat \<Rightarrow> bool" where
  "is_whitespace c \<longleftrightarrow> (9 \<le> c \<and> c \<le> 13) \<or> c = 32 \<or> c = 133 \<or> c = 160 \<or> c = 5760 \<or> (8192 \<le> c \<and> c \<le> 8202)
     \<or> c = 8232 \<or> c = 8233 \<or> c = 8239 \<or> c = 8287 \<or> c = 12288"

definition trim :: "ustr \<Rightarrow> ustr" where
  "trim t = rev (dropWhile is_whitespace (rev (dropWhile is_whitespace t)))"

text \<open>\<open>split\<close> at every character for which \<open>sep\<close> holds; always at least one piece.\<close>

fun split_at :: "(nat \<Rightarrow> bool) \<Rightarrow> ustr \<Rightarrow> ustr list" where
  "split_at sep [] = [[]]"
| "split_at sep (c # cs) =
     (if sep c then [] # split_at sep cs
      else case split_at sep cs of piece # pieces \<Rightarrow> (c # piece) # pieces | [] \<Rightarrow> [[c]])"

definition split_whitespace :: "ustr \<Rightarrow> ustr list" where
  "split_whitespace t = filter (\<lambda>p. p \<noteq> []) (split_at is_whitespace t)"

text \<open>\<open>lines\<close>: at line feeds, without a carriage return before one; what follows the last one counts if not empty.\<close>

definition strip_cr :: "ustr \<Rightarrow> ustr" where
  "strip_cr l = (if l \<noteq> [] \<and> last l = 13 then butlast l else l)"

definition lines :: "ustr \<Rightarrow> ustr list" where
  "lines t = (let ps = split_at (\<lambda>c. c = 10) t
     in map strip_cr (butlast ps) @ (if last ps = [] then [] else [last ps]))"

definition without_prefix :: "ustr \<Rightarrow> ustr \<Rightarrow> ustr option" where
  "without_prefix p t = (if take (length p) t = p then Some (drop (length p) t) else None)"

fun contains :: "ustr \<Rightarrow> ustr \<Rightarrow> bool" where
  "contains p [] \<longleftrightarrow> p = []"
| "contains p (c # cs) \<longleftrightarrow> take (length p) (c # cs) = p \<or> contains p cs"

fun find_map :: "('a \<Rightarrow> 'b option) \<Rightarrow> 'a list \<Rightarrow> 'b option" where
  "find_map f [] = None"
| "find_map f (x # xs) = (case f x of Some y \<Rightarrow> Some y | None \<Rightarrow> find_map f xs)"

lemma find_map_append: "find_map f (xs @ ys) = (case find_map f xs of Some y \<Rightarrow> Some y | None \<Rightarrow> find_map f ys)"
  by (induction xs) (auto split: option.split)

lemma find_map_None: "find_map f xs = None \<longleftrightarrow> list_all (\<lambda>x. f x = None) xs"
  by (induction xs) (auto split: option.split)

lemma split_at_nonempty [simp]: "split_at sep t \<noteq> []"
  by (induction t) (auto split: list.split)

text \<open>A piece without separators before one, and pieces joined by separators.\<close>

lemma split_at_piece:
  "list_all (\<lambda>c. \<not> sep c) p \<Longrightarrow> split_at sep p = [p]"
  by (induction p) auto

lemma split_at_sep:
  "list_all (\<lambda>c. \<not> sep c) p \<Longrightarrow> sep c \<Longrightarrow> split_at sep (p @ c # cs) = p # split_at sep cs"
  by (induction p) auto

lemma split_at_pieces: "list_all (\<lambda>p. list_all (\<lambda>c. \<not> sep c) p) (split_at sep t)"
  by (induction t) (auto split: list.split)

lemma split_whitespace_words:
  "w \<in> set (split_whitespace t) \<Longrightarrow> w \<noteq> [] \<and> list_all (\<lambda>c. \<not> is_whitespace c) w"
  using split_at_pieces [of is_whitespace t] by (auto simp: split_whitespace_def list_all_iff)

lemma lines_step:
  "list_all (\<lambda>c. c \<noteq> 10) l \<Longrightarrow> lines (l @ 10 # rest) = strip_cr l # lines rest"
  using split_at_sep [of "\<lambda>c. c = 10" l 10 rest] by (simp add: lines_def Let_def list_all_iff)

lemma lines_join:
  "list_all (\<lambda>l. list_all (\<lambda>c. c \<noteq> 10) l) ls \<Longrightarrow> lines (concat (map (\<lambda>l. l @ [10]) ls) @ rest) = map strip_cr ls @ lines rest"
  by (induction ls) (simp_all add: lines_step)

lemma lines_Nil [simp]: "lines [] = []"
  by (simp add: lines_def)

lemma trim_leading: "list_all is_whitespace w \<Longrightarrow> trim (w @ t) = trim t"
  by (induction w) (simp_all add: trim_def)

lemma trim_keep:
  assumes "t \<noteq> []" "\<not> is_whitespace (hd t)" "\<not> is_whitespace (last t)"
  shows "trim t = t"
proof -
  have "dropWhile is_whitespace t = t" using assms(1,2) by (cases t) simp_all
  moreover have "dropWhile is_whitespace (rev t) = rev t" using assms(1,3) by (cases t rule: rev_cases) simp_all
  ultimately show ?thesis by (simp add: trim_def)
qed

section \<open>IPv4 addresses\<close>

type_synonym ipv4 = "u8 \<times> u8 \<times> u8 \<times> u8"

definition show_nat :: "nat \<Rightarrow> ustr" where "show_nat n = str (decimal n)"

definition show_ipv4 :: "ipv4 \<Rightarrow> ustr" where
  "show_ipv4 ip = (case ip of (a, b, c, d) \<Rightarrow>
     show_nat (unat a) @ [46] @ show_nat (unat b) @ [46] @ show_nat (unat c) @ [46] @ show_nat (unat d))"

text \<open>\<open>Ipv4Addr::from_str\<close>: four numbers of one to three digits up to 255, without leading zeros.\<close>

definition parse_octet :: "ustr \<Rightarrow> u8 option" where
  "parse_octet t =
     (if t = [] \<or> 3 < length t \<or> list_ex (\<lambda>c. c < 48 \<or> 57 < c) t \<or> (1 < length t \<and> hd t = 48) then None
      else let v = foldl (\<lambda>acc c. 10 * acc + (c - 48)) 0 t in if v < 256 then Some (of_nat v) else None)"

definition parse_ipv4 :: "ustr \<Rightarrow> ipv4 option" where
  "parse_ipv4 t =
     (case map parse_octet (split_at (\<lambda>c. c = 46) t) of
        [Some a, Some b, Some c, Some d] \<Rightarrow> Some (a, b, c, d)
      | _ \<Rightarrow> None)"

definition ascii_digit :: "nat \<Rightarrow> bool" where "ascii_digit c \<longleftrightarrow> 48 \<le> c \<and> c \<le> 57"

lemma digit_code: "d < 10 \<Longrightarrow> (of_char (digit d) :: nat) = 48 + d"
  by (simp add: digit_def)

lemma show_nat_digits: "list_all ascii_digit (show_nat n)"
proof -
  have "list_all (\<lambda>c. ascii_digit (of_char c)) (decimal n)"
  proof (induction n rule: decimal.induct)
    case (1 n)
    have "n mod 10 \<le> 9" using mod_less_divisor [of 10 n] by linarith
    then show ?case using 1 by (subst decimal.simps) (simp add: ascii_digit_def digit_code)
  qed
  then show ?thesis by (simp add: show_nat_def list.pred_map comp_def)
qed

lemma show_nat_value: "foldl (\<lambda>acc c. 10 * acc + (c - 48)) 0 (show_nat n) = n"
proof (induction n rule: decimal.induct)
  case (1 n)
  then show ?case unfolding show_nat_def by (subst decimal.simps) (simp add: digit_code)
qed

lemma show_nat_no_zero: "0 < n \<Longrightarrow> hd (show_nat n) \<noteq> 48"
proof (induction n rule: decimal.induct)
  case (1 n)
  show ?case
  proof (cases "n < 10")
    case True
    then show ?thesis using 1(2) unfolding show_nat_def by (subst decimal.simps) (simp add: digit_code)
  next
    case False
    have "hd (show_nat n) = hd (show_nat (n div 10))"
      using False unfolding show_nat_def by (subst decimal.simps) (simp add: hd_append)
    then show ?thesis using 1 False by simp
  qed
qed

lemma show_nat_small: "n < 10 \<Longrightarrow> length (show_nat n) = 1"
  unfolding show_nat_def by (subst decimal.simps) simp

lemma parse_show_octet: "parse_octet (show_nat (unat o8)) = Some o8" for o8 :: u8
proof -
  have lt: "unat o8 < 256" using unat_less_length [of o8] by simp
  have len: "length (show_nat (unat o8)) \<le> 3" using length_decimal [of "unat o8" 3] lt by (simp add: show_nat_def)
  have dig: "\<not> list_ex (\<lambda>c. c < 48 \<or> 57 < c) (show_nat (unat o8))"
    using show_nat_digits [of "unat o8"] by (auto simp: list_ex_iff list_all_iff ascii_digit_def)
  have lead: "\<not> (1 < length (show_nat (unat o8)) \<and> hd (show_nat (unat o8)) = 48)"
    using show_nat_no_zero [of "unat o8"] show_nat_small [of "unat o8"] by (cases "unat o8 = 0") auto
  have ne: "show_nat (unat o8) \<noteq> []" by (simp add: show_nat_def)
  show ?thesis unfolding parse_octet_def using len dig lead ne lt by (simp add: show_nat_value Let_def)
qed

lemma parse_show_ipv4: "parse_ipv4 (show_ipv4 ip) = Some ip"
proof -
  have d: "list_all (\<lambda>c. c \<noteq> 46) (show_nat n)" for n
    by (rule list.pred_mono_strong [OF show_nat_digits]) (simp add: ascii_digit_def)
  note s = split_at_sep [of "\<lambda>c. c = 46", OF d] split_at_piece [of "\<lambda>c. c = 46", OF d]
  show ?thesis by (cases ip) (simp add: parse_ipv4_def show_ipv4_def s parse_show_octet)
qed

lemma show_ipv4_chars: "list_all (\<lambda>c. ascii_digit c \<or> c = 46) (show_ipv4 ip)"
proof -
  have d: "list_all (\<lambda>c. ascii_digit c \<or> c = 46) (show_nat n)" for n
    by (rule list.pred_mono_strong [OF show_nat_digits]) simp
  show ?thesis by (cases ip) (simp add: show_ipv4_def d)
qed

end
