(* ===== verification/HeadsetLink.thy ===== *)
theory HeadsetLink imports Text Status begin

text \<open>
  \<open>companion-app/src/process.rs\<close>, \<open>adb.rs\<close> and \<open>headset_link.rs\<close>: the programs the companion runs with a time limit,
  the headsets it finds with adb, and telling one where to connect. What a program prints is an argument
  (\<open>run\<close>); so are \<open>str::to_lowercase\<close>, the routing table and the existence of files.
\<close>

section \<open>Running a program\<close>

definition POLL :: duration where "POLL = 50 * nanos_per_ms"

text \<open>
  The loop of \<open>output_with_timeout\<close>: \<open>exited\<close> says whether \<open>try_wait\<close> finds the program gone at an instant. The result
  is when the loop ended and whether the program had exited; otherwise it is killed.
\<close>

function wait_exit :: "(instant \<Rightarrow> bool) \<Rightarrow> instant \<Rightarrow> instant \<Rightarrow> bool \<times> instant" where
  "wait_exit exited deadline now =
     (if exited now then (True, now)
      else if deadline \<le> now then (False, now)
      else wait_exit exited deadline (now + POLL))"
  by pat_completeness auto

termination
  by (relation "measure (\<lambda>(_, deadline, now). deadline - now)") (auto simp: POLL_def)

declare wait_exit.simps [simp del]

record prog_output =
  out_success :: bool
  out_stdout :: ustr
  out_stderr :: ustr

definition output_with_timeout :: "(instant \<Rightarrow> bool) \<Rightarrow> prog_output \<Rightarrow> duration \<Rightarrow> instant \<Rightarrow> prog_output option \<times> instant" where
  "output_with_timeout exited out timeout started =
     (case wait_exit exited (started + timeout) started of
        (True, now) \<Rightarrow> (Some out, now)
      | (False, now) \<Rightarrow> (None, now))"

section \<open>adb\<close>

type_synonym adb_run = "ustr list \<Rightarrow> prog_output option"

record adb_device =
  dev_serial :: ustr
  dev_model :: ustr
  dev_focus_vision :: bool

definition device_field :: "ustr list \<Rightarrow> ustr \<Rightarrow> ustr option" where
  "device_field parts key = find_map (without_prefix key) parts"

definition vive_name :: "(ustr \<Rightarrow> ustr) \<Rightarrow> ustr \<Rightarrow> bool" where
  "vive_name to_lowercase name =
     (let name = to_lowercase name in contains (str ''vive'') name \<or> contains (str ''focus'') name)"

definition parse_device :: "(ustr \<Rightarrow> ustr) \<Rightarrow> ustr \<Rightarrow> adb_device option" where
  "parse_device to_lowercase line =
     (let line = trim line
      in if line = [] \<or> take 1 line = str ''*'' then None
         else let parts = split_whitespace line
              in if length parts < 2 \<or> parts ! 1 \<noteq> str ''device'' then None
                 else Some \<lparr>dev_serial = parts ! 0,
                   dev_model = (case device_field parts (str ''model:'') of Some m \<Rightarrow> m | None \<Rightarrow> str ''Unknown''),
                   dev_focus_vision = list_ex (vive_name to_lowercase)
                     (List.map_filter (device_field parts) [str ''model:'', str ''product:'', str ''device:''])\<rparr>)"

definition parse_device_list :: "(ustr \<Rightarrow> ustr) \<Rightarrow> ustr \<Rightarrow> adb_device list" where
  "parse_device_list to_lowercase out = List.map_filter (parse_device to_lowercase) (drop 1 (lines out))"

definition list_devices :: "(ustr \<Rightarrow> ustr) \<Rightarrow> adb_run \<Rightarrow> adb_device list" where
  "list_devices to_lowercase run =
     (case run [str ''devices'', str ''-l''] of
        Some out \<Rightarrow> parse_device_list to_lowercase (out_stdout out)
      | None \<Rightarrow> [])"

definition deploy_targets :: "adb_device list \<Rightarrow> ustr list" where
  "deploy_targets devices = map dev_serial (filter dev_focus_vision devices)"

text \<open>\<open>Inl\<close> carries the error text.\<close>

definition install_apk :: "adb_run \<Rightarrow> ustr \<Rightarrow> ustr \<Rightarrow> ustr + ustr" where
  "install_apk run serial apk_path =
     (case run [str ''-s'', serial, str ''install'', str ''-r'', apk_path] of
        None \<Rightarrow> Inl (str ''Failed to run adb'')
      | Some out \<Rightarrow>
          if out_success out \<and> contains (str ''Success'') (out_stdout out) then Inr (out_stdout out)
          else Inl (out_stdout out @ [10] @ out_stderr out))"

definition adb_text :: "prog_output option \<Rightarrow> ustr + ustr" where
  "adb_text r = (case r of
     None \<Rightarrow> Inl (str ''Failed to run adb'')
   | Some out \<Rightarrow> if out_success out then Inr (out_stdout out) else Inl (out_stderr out))"

definition dump_logcat :: "adb_run \<Rightarrow> ustr \<Rightarrow> ustr + ustr" where
  "dump_logcat run serial = adb_text (run [str ''-s'', serial, str ''logcat'', str ''-d'', str ''-s'', str ''FocusVision:*''])"

definition launch_app :: "adb_run \<Rightarrow> ustr \<Rightarrow> ustr \<Rightarrow> ustr + ustr" where
  "launch_app run serial package =
     adb_text (run [str ''-s'', serial, str ''shell'', str ''am'', str ''start'', str ''-n'', package @ str ''/.MainActivity''])"

text \<open>A Windows path of its components.\<close>

definition win_path :: "ustr \<Rightarrow> string list \<Rightarrow> ustr" where
  "win_path base components = base @ concat (map (\<lambda>c. 92 # str c) components)"

definition find_adb :: "(ustr \<Rightarrow> adb_run) \<Rightarrow> (ustr \<Rightarrow> bool) \<Rightarrow> ustr \<Rightarrow> ustr option" where
  "find_adb run_at path_exists home =
     (if run_at (str ''adb'') [str ''version''] \<noteq> None then Some (str ''adb'')
      else find path_exists
        [win_path home [''AppData'', ''Local'', ''Android'', ''Sdk'', ''platform-tools'', ''adb.exe''],
         win_path (str ''C:'') [''Android'', ''platform-tools'', ''adb.exe''],
         win_path (str ''C:'') [''Program Files'', ''Android'', ''platform-tools'', ''adb.exe'']])"

section \<open>Telling the headset\<close>

definition CLIENT_PACKAGE :: ustr where "CLIENT_PACKAGE = str ''com.focusvision.pcvr''"

definition is_pin :: "ustr \<Rightarrow> bool" where
  "is_pin pin \<longleftrightarrow> length pin = 6 \<and> list_all ascii_digit pin"

definition wlan_line :: "ustr \<Rightarrow> ustr option" where
  "wlan_line line = without_prefix (str ''inet '') (trim line)"

definition parse_wlan_ipv4 :: "ustr \<Rightarrow> ipv4 option" where
  "parse_wlan_ipv4 out =
     (case find_map wlan_line (lines out) of
        None \<Rightarrow> None
      | Some rest \<Rightarrow> parse_ipv4 (hd (split_at (\<lambda>c. c = 47 \<or> c = 32) rest)))"

definition show_addr :: "ipv4 \<times> u16 \<Rightarrow> ustr" where
  "show_addr server = show_ipv4 (fst server) @ [58] @ show_nat (unat (snd server))"

definition launch_args :: "ustr \<Rightarrow> ipv4 \<times> u16 \<Rightarrow> ustr \<Rightarrow> u16 \<Rightarrow> ustr list" where
  "launch_args serial server pin udp_port =
     [str ''-s'', serial, str ''shell'', str ''am'', str ''start'',
      str ''-n'', CLIENT_PACKAGE @ str ''/.MainActivity'',
      str ''--es'', str ''fvp_server'', show_addr server,
      str ''--es'', str ''fvp_pin'', pin,
      str ''--es'', str ''fvp_udp_port'', show_nat (unat udp_port)]"

text \<open>
  \<open>send_to_headset\<close> with the adb calls it makes. \<open>route\<close> is the PC's address towards an address, from the routing
  table; an unspecified one is refused.
\<close>

definition local_address_toward :: "(ipv4 \<Rightarrow> ipv4 option) \<Rightarrow> ipv4 \<Rightarrow> ipv4 option" where
  "local_address_toward route target =
     (case route target of Some ip \<Rightarrow> if ip \<noteq> (0, 0, 0, 0) then Some ip else None | None \<Rightarrow> None)"

definition send_to_headset ::
    "adb_run \<Rightarrow> (ipv4 \<Rightarrow> ipv4 option) \<Rightarrow> ustr \<Rightarrow> ustr \<Rightarrow> u16 \<times> u16 \<Rightarrow> (string + (ipv4 \<times> u16)) \<times> ustr list list" where
  "send_to_headset run route serial pin ports =
     (if \<not> is_pin pin then (Inl ''No PIN to send yet'', [])
      else
        let ask = [str ''-s'', serial, str ''shell'', str ''ip'', str ''-f'', str ''inet'', str ''addr'', str ''show'', str ''wlan0'']
        in case run ask of
             None \<Rightarrow> (Inl ''adb'', [ask])
           | Some out \<Rightarrow>
               (case parse_wlan_ipv4 (out_stdout out) of
                  None \<Rightarrow> (Inl ''The headset has no Wi-Fi address'', [ask])
                | Some headset_ip \<Rightarrow>
                    (case local_address_toward route headset_ip of
                       None \<Rightarrow> (Inl ''This PC has no route to the headset'', [ask])
                     | Some pc_ip \<Rightarrow>
                         let server = (pc_ip, fst ports); args = launch_args serial server pin (snd ports)
                         in case run args of
                              None \<Rightarrow> (Inl ''adb'', [ask, args])
                            | Some out \<Rightarrow>
                                if \<not> out_success out \<or> contains (str ''Error'') (out_stdout out) \<or> contains (str ''Error'') (out_stderr out)
                                then (Inl ''Could not start the headset app'', [ask, args])
                                else (Inr server, [ask, args]))))"

section \<open>Programs end\<close>

lemma wait_exit_result:
  assumes "wait_exit exited deadline now = (gone, until)" "now < deadline + POLL"
  shows "gone = exited until" "until < deadline + POLL" "now \<le> until" "\<not> gone \<Longrightarrow> deadline \<le> until"
proof -
  have "gone = exited until \<and> until < deadline + POLL \<and> now \<le> until \<and> (\<not> gone \<longrightarrow> deadline \<le> until)"
    using assms
  proof (induction exited deadline now rule: wait_exit.induct)
    case (1 exited deadline now)
    show ?case
    proof (cases "exited now \<or> deadline \<le> now")
      case True
      then show ?thesis using "1.prems" by (subst (asm) wait_exit.simps) (auto split: if_splits)
    next
      case False
      then have "wait_exit exited deadline (now + POLL) = (gone, until)" using "1.prems" by (subst (asm) wait_exit.simps) simp
      with "1.IH" False have "gone = exited until \<and> until < deadline + POLL \<and> now + POLL \<le> until \<and> (\<not> gone \<longrightarrow> deadline \<le> until)"
        by simp
      then show ?thesis by auto
    qed
  qed
  then show "gone = exited until" "until < deadline + POLL" "now \<le> until" "\<not> gone \<Longrightarrow> deadline \<le> until" by auto
qed



section \<open>Which devices\<close>

lemma in_map_filter: "y \<in> set (List.map_filter f xs) \<longleftrightarrow> (\<exists>x. x \<in> set xs \<and> f x = Some y)"
  by (induction xs) (auto simp: List.map_filter_simps split: option.split)

definition device_ready :: "ustr \<Rightarrow> bool" where
  "device_ready line \<longleftrightarrow> take 1 (trim line) \<noteq> str ''*'' \<and> 2 \<le> length (split_whitespace (trim line))
     \<and> split_whitespace (trim line) ! 1 = str ''device''"

definition name_keys :: "ustr list" where
  "name_keys = [str ''model:'', str ''product:'', str ''device:'']"

definition device_of :: "(ustr \<Rightarrow> ustr) \<Rightarrow> ustr list \<Rightarrow> adb_device" where
  "device_of low parts = \<lparr>dev_serial = parts ! 0,
     dev_model = (case device_field parts (str ''model:'') of Some m \<Rightarrow> m | None \<Rightarrow> str ''Unknown''),
     dev_focus_vision = list_ex (vive_name low) (List.map_filter (device_field parts) name_keys)\<rparr>"

lemma parse_device_if:
  "parse_device low line = (if device_ready line then Some (device_of low (split_whitespace (trim line))) else None)"
proof -
  have "split_whitespace [] = []" by (simp add: split_whitespace_def)
  then show ?thesis
    unfolding parse_device_def Let_def device_of_def [symmetric] name_keys_def [symmetric] device_ready_def
    by (cases "trim line = []") (simp_all only: list.size if_True simp_thms, simp_all add: not_less)
qed

lemma names_any: "list_ex P (List.map_filter f ks) \<longleftrightarrow> (\<exists>k name. k \<in> set ks \<and> f k = Some name \<and> P name)"
  by (induction ks) (auto simp: List.map_filter_simps split: option.split)

lemma target_iff:
  "serial \<in> set (deploy_targets ds) \<longleftrightarrow> (\<exists>d. d \<in> set ds \<and> dev_focus_vision d \<and> serial = dev_serial d)"
  by (auto simp: deploy_targets_def)

text \<open>
  C2. Deploy touches exactly the VIVE headsets that are ready: a serial number is a target exactly when a line after the
  first gives it with the state \<open>device\<close> (not \<open>unauthorized\<close> or \<open>offline\<close>) and a model, product or device name of one.
\<close>

theorem deploy_targets_exact:
  "serial \<in> set (deploy_targets (parse_device_list low out)) \<longleftrightarrow>
     (\<exists>line parts key name. line \<in> set (drop 1 (lines out)) \<and> parts = split_whitespace (trim line)
        \<and> take 1 (trim line) \<noteq> str ''*'' \<and> 2 \<le> length parts \<and> parts ! 0 = serial \<and> parts ! 1 = str ''device''
        \<and> key \<in> {str ''model:'', str ''product:'', str ''device:''} \<and> device_field parts key = Some name
        \<and> vive_name low name)"
proof -
  have "serial \<in> set (deploy_targets (parse_device_list low out)) \<longleftrightarrow>
     (\<exists>d line. line \<in> set (drop 1 (lines out)) \<and> parse_device low line = Some d \<and> dev_focus_vision d \<and> serial = dev_serial d)"
    unfolding target_iff parse_device_list_def in_map_filter by blast
  also have "\<dots> \<longleftrightarrow> (\<exists>line. line \<in> set (drop 1 (lines out)) \<and> device_ready line
      \<and> list_ex (vive_name low) (List.map_filter (device_field (split_whitespace (trim line))) name_keys)
      \<and> serial = split_whitespace (trim line) ! 0)"
  proof -
    have "(parse_device low line = Some d) = (device_ready line \<and> device_of low (split_whitespace (trim line)) = d)" for line d
      by (simp add: parse_device_if)
    moreover have "dev_focus_vision (device_of low parts) = list_ex (vive_name low) (List.map_filter (device_field parts) name_keys)"
      "dev_serial (device_of low parts) = parts ! 0" for parts
      by (simp_all add: device_of_def)
    ultimately show ?thesis by (simp only:) metis
  qed
  also have "\<dots> \<longleftrightarrow> (\<exists>line parts key name. line \<in> set (drop 1 (lines out)) \<and> parts = split_whitespace (trim line)
        \<and> take 1 (trim line) \<noteq> str ''*'' \<and> 2 \<le> length parts \<and> parts ! 0 = serial \<and> parts ! 1 = str ''device''
        \<and> key \<in> set name_keys \<and> device_field parts key = Some name \<and> vive_name low name)"
    unfolding names_any device_ready_def by blast
  finally show ?thesis unfolding name_keys_def set_simps .
qed

section \<open>The headset's address and the command line\<close>

definition shell_safe :: "nat \<Rightarrow> bool" where
  "shell_safe c \<longleftrightarrow> ascii_digit c \<or> (65 \<le> c \<and> c \<le> 90) \<or> (97 \<le> c \<and> c \<le> 122) \<or> c \<in> {45, 46, 47, 58, 95}"

text \<open>
  C3. What the headset's shell is given is only words: with a PIN of six digits, every argument after \<open>shell\<close> is not
  empty and has letters, digits and \<open>-./:_\<close> only, so nothing in it is expanded, quoted or run.
\<close>

theorem launch_shell_safe:
  assumes "is_pin pin"
  shows "list_all (\<lambda>a. a \<noteq> [] \<and> list_all shell_safe a) (drop 3 (launch_args serial server pin udp_port))"
proof -
  have d: "list_all shell_safe (show_nat n)" for n
    by (rule list.pred_mono_strong [OF show_nat_digits]) (simp add: shell_safe_def)
  have ip: "list_all shell_safe (show_ipv4 a)" for a
    by (rule list.pred_mono_strong [OF show_ipv4_chars]) (auto simp: shell_safe_def)
  have p: "pin \<noteq> []" "list_all shell_safe pin"
    using assms by (auto simp: is_pin_def shell_safe_def list_all_iff)
  have ne: "show_nat n \<noteq> []" for n by (simp add: show_nat_def)
  have s: "show_addr server \<noteq> []" "list_all shell_safe (show_addr server)"
    using d ip by (simp_all add: show_addr_def shell_safe_def)
  show ?thesis using p s d ne by (simp add: launch_args_def CLIENT_PACKAGE_def) (simp add: shell_safe_def ascii_digit_def)
qed

theorem launch_shell_safe_witness:
  "list_all (\<lambda>a. a \<noteq> [] \<and> list_all shell_safe a)
     (drop 3 (launch_args (str ''HT1'') ((192, 168, 1, 23), 9944) (str ''000042'') 9946))"
  by (rule launch_shell_safe) (simp add: is_pin_def ascii_digit_def)

lemma trim_tail:
  assumes "t \<noteq> []" "\<not> is_whitespace (hd t)" "\<not> is_whitespace c"
  shows "trim (t @ c # rest) = t @ c # rev (dropWhile is_whitespace (rev rest))"
proof -
  have "dropWhile is_whitespace (t @ c # rest) = t @ c # rest" using assms(1,2) by (cases t) simp_all
  moreover have "dropWhile is_whitespace (rev rest @ c # rev t) = dropWhile is_whitespace (rev rest) @ c # rev t"
    using assms(3) by (induction "rev rest") (auto simp: dropWhile_append)
  ultimately show ?thesis by (simp add: trim_def)
qed

lemma strip_cr_tail: "c \<noteq> 13 \<Longrightarrow> strip_cr (t @ c # rest) = t @ c # strip_cr rest"
  by (cases rest rule: rev_cases) (simp_all add: strip_cr_def butlast_append)

text \<open>
  C4. The headset's address is found in what \<open>ip addr\<close> prints: from the first \<open>inet\<close> line, whatever is before, around and
  after it.
\<close>

theorem wlan_address_found:
  assumes "list_all (\<lambda>l. list_all (\<lambda>c. c \<noteq> 10) l \<and> wlan_line (strip_cr l) = None) before"
    and "list_all (\<lambda>c. is_whitespace c \<and> c \<noteq> 10) pad" "list_all (\<lambda>c. c \<noteq> 10) rest"
  shows "parse_wlan_ipv4 (concat (map (\<lambda>l. l @ [10]) before) @ (pad @ str ''inet '' @ show_ipv4 ip @ 47 # rest) @ 10 # after) = Some ip"
proof -
  let ?line = "pad @ str ''inet '' @ show_ipv4 ip @ 47 # rest"
  have nolf: "list_all (\<lambda>c. c \<noteq> 10) ?line"
    using assms(2,3) show_ipv4_chars [of ip] by (auto simp: list_all_iff ascii_digit_def)
  have ls: "lines (concat (map (\<lambda>l. l @ [10]) before) @ ?line @ 10 # after) = map strip_cr before @ strip_cr ?line # lines after"
    using assms(1) lines_step [OF nolf, of after] by (subst lines_join) (auto simp: list_all_iff)
  have "strip_cr ?line = pad @ str ''inet '' @ show_ipv4 ip @ 47 # strip_cr rest"
    using strip_cr_tail [of 47 "pad @ str ''inet '' @ show_ipv4 ip" rest] by simp
  moreover have "trim (pad @ str ''inet '' @ show_ipv4 ip @ 47 # strip_cr rest)
      = str ''inet '' @ show_ipv4 ip @ 47 # rev (dropWhile is_whitespace (rev (strip_cr rest)))"
    using assms(2) trim_tail [of "str ''inet '' @ show_ipv4 ip" 47 "strip_cr rest"]
    by (subst trim_leading) (auto simp: list_all_iff is_whitespace_def)
  ultimately have "wlan_line (strip_cr ?line) = Some (show_ipv4 ip @ 47 # rev (dropWhile is_whitespace (rev (strip_cr rest))))"
    by (simp add: wlan_line_def without_prefix_def)
  moreover have "find_map wlan_line (map strip_cr before) = None"
    using assms(1) by (simp add: find_map_None list_all_iff)
  moreover have "list_all (\<lambda>c. \<not> (c = 47 \<or> c = 32)) (show_ipv4 ip)"
    by (rule list.pred_mono_strong [OF show_ipv4_chars]) (auto simp: ascii_digit_def)
  ultimately show ?thesis
    unfolding parse_wlan_ipv4_def ls by (simp add: find_map_append split_at_sep parse_show_ipv4)
qed

theorem wlan_address_found_witness:
  "parse_wlan_ipv4 (concat (map (\<lambda>l. l @ [10]) [str ''3: wlan0: mtu 1500'']) @
      (str ''    '' @ str ''inet '' @ show_ipv4 (192, 168, 1, 23) @ 47 # str ''24 brd'') @ 10 # []) = Some (192, 168, 1, 23)"
  by (rule wlan_address_found) (simp_all add: is_whitespace_def wlan_line_def strip_cr_def trim_def without_prefix_def)

text \<open>
  Nothing is sent without a PIN, and when the companion reports the headset told, adb has been run exactly twice,
  the second time starting the client with the given PIN and ports and this PC's address towards the headset.
\<close>

theorem headset_told_exactly:
  "case send_to_headset run route serial pin ports of
     (Inr server, calls) \<Rightarrow> is_pin pin \<and> snd server = fst ports \<and> length calls = 2
       \<and> calls ! 1 = launch_args serial server pin (snd ports)
       \<and> (\<exists>shown ip. run (calls ! 0) = Some shown \<and> parse_wlan_ipv4 (out_stdout shown) = Some ip \<and> route ip = Some (fst server)
            \<and> fst server \<noteq> (0, 0, 0, 0))
   | (Inl e, calls) \<Rightarrow> (if is_pin pin then calls \<noteq> [] else calls = [])"
  by (auto simp: send_to_headset_def local_address_toward_def Let_def split: option.splits sum.splits if_splits)

end
