(* ===== verification/SteamVr.thy ===== *)
theory SteamVr imports HeadsetLink begin

text \<open>
  \<open>companion-app/src/driver.rs\<close>: finding SteamVR in the Steam libraries, registering the driver with it, and the
  installer's command line. The registry, the file system, the JSON parser and vrpathreg are arguments; a path is
  the text of it, with backslashes.
\<close>

abbreviation bslash :: nat where "bslash \<equiv> 92"
abbreviation dquote :: nat where "dquote \<equiv> 34"

definition path_join :: "ustr \<Rightarrow> string \<Rightarrow> ustr" where
  "path_join dir c = dir @ bslash # str c"

abbreviation joins :: "ustr \<Rightarrow> string list \<Rightarrow> ustr" where "joins dir cs \<equiv> foldl path_join dir cs"

section \<open>Where Steam and SteamVR are\<close>

definition read_steam_install_path :: "(ustr \<Rightarrow> ustr option) \<Rightarrow> ustr option" where
  "read_steam_install_path registry =
     find_map (\<lambda>key. case registry key of Some p \<Rightarrow> if p \<noteq> [] then Some p else None | None \<Rightarrow> None)
       [win_path (str ''SOFTWARE'') [''WOW6432Node'', ''Valve'', ''Steam''], win_path (str ''SOFTWARE'') [''Valve'', ''Steam'']]"

text \<open>\<open>replace\<close> of two backslashes by one.\<close>

fun unescape :: "ustr \<Rightarrow> ustr" where
  "unescape (c # d # cs) = (if c = bslash \<and> d = bslash then bslash # unescape cs else c # unescape (d # cs))"
| "unescape cs = cs"

fun every_second :: "'a list \<Rightarrow> 'a list" where
  "every_second (x # y # xs) = x # every_second xs"
| "every_second xs = xs"

definition library_path :: "ustr \<Rightarrow> ustr option" where
  "library_path line =
     (case every_second (drop 1 (split_at (\<lambda>c. c = dquote) line)) of
        key # value # _ \<Rightarrow> if key = str ''path'' then Some (unescape value) else None
      | _ \<Rightarrow> None)"

definition library_paths :: "ustr \<Rightarrow> ustr list" where
  "library_paths vdf = List.map_filter library_path (lines vdf)"

text \<open>Byte order marks at the start are skipped.\<close>

definition vrpath_list :: "(ustr \<Rightarrow> json option) \<Rightarrow> ustr \<Rightarrow> string \<Rightarrow> ustr list" where
  "vrpath_list from_str vrpath_json key =
     (case from_str (dropWhile (\<lambda>c. c = 65279) vrpath_json) of
        None \<Rightarrow> []
      | Some paths \<Rightarrow>
          (case json_get key paths of
             Some (JArr dirs) \<Rightarrow> List.map_filter (\<lambda>d. map_option str (as_str d)) dirs
           | _ \<Rightarrow> []))"

definition steamvr_candidates :: "(ustr \<Rightarrow> json option) \<Rightarrow> (ustr \<Rightarrow> ustr option) \<Rightarrow> ustr option \<Rightarrow> ustr list \<Rightarrow> ustr list" where
  "steamvr_candidates from_str read_file vrpath_json steam_roots =
     (case vrpath_json of Some json \<Rightarrow> vrpath_list from_str json ''runtime'' | None \<Rightarrow> [])
     @ concat (map (\<lambda>base.
         let vdf = (case read_file (joins base [''steamapps'', ''libraryfolders.vdf'']) of Some t \<Rightarrow> t | None \<Rightarrow> [])
         in map (\<lambda>library. joins library [''steamapps'', ''common'', ''SteamVR'']) (base # library_paths vdf)) steam_roots)"

definition vrpathreg :: "ustr \<Rightarrow> ustr" where
  "vrpathreg steamvr = joins steamvr [''bin'', ''win64'', ''vrpathreg.exe'']"

record windows =
  w_registry :: "ustr \<Rightarrow> ustr option"
  w_vrpath :: "ustr option"
  w_read :: "ustr \<Rightarrow> ustr option"
  w_is_file :: "ustr \<Rightarrow> bool"
  w_is_dir :: "ustr \<Rightarrow> bool"
  w_json :: "ustr \<Rightarrow> json option"

definition is_steamvr :: "windows \<Rightarrow> ustr \<Rightarrow> bool" where
  "is_steamvr w dir = w_is_file w (vrpathreg dir)"

definition find_steamvr_dir :: "windows \<Rightarrow> ustr option" where
  "find_steamvr_dir w =
     (let steam_roots = (case read_steam_install_path (w_registry w) of Some p \<Rightarrow> [p] | None \<Rightarrow> [])
            @ [win_path (str ''C:'') [''Program Files (x86)'', ''Steam''], win_path (str ''C:'') [''Program Files'', ''Steam'']]
      in find (is_steamvr w) (steamvr_candidates (w_json w) (w_read w) (w_vrpath w) steam_roots))"

definition find_steamvr_drivers_dir :: "windows \<Rightarrow> ustr option" where
  "find_steamvr_drivers_dir w =
     (case find_steamvr_dir w of
        Some d \<Rightarrow> if w_is_dir w (path_join d ''drivers'') then Some (path_join d ''drivers'') else None
      | None \<Rightarrow> None)"

section \<open>Registering the driver\<close>

datatype register_error = SteamVrNotFound | Vrpathreg

text \<open>\<open>run_tool tool command dir\<close>: \<open>None\<close> when it cannot be started, else whether it succeeded.\<close>

definition vrpathreg_driver ::
    "windows \<Rightarrow> (ustr \<Rightarrow> string \<Rightarrow> ustr \<Rightarrow> bool option) \<Rightarrow> string \<Rightarrow> ustr \<Rightarrow> register_error + ustr" where
  "vrpathreg_driver w run_tool command driver_dir =
     (case find_steamvr_dir w of
        None \<Rightarrow> Inl SteamVrNotFound
      | Some steamvr \<Rightarrow>
          (case run_tool (vrpathreg steamvr) command driver_dir of
             None \<Rightarrow> Inl Vrpathreg
           | Some success \<Rightarrow> if success then Inr steamvr else Inl Vrpathreg))"

definition EXIT_OK :: int where "EXIT_OK = 0"
definition EXIT_STEAMVR_NOT_FOUND :: int where "EXIT_STEAMVR_NOT_FOUND = 2"
definition EXIT_VRPATHREG_FAILED :: int where "EXIT_VRPATHREG_FAILED = 3"

definition cli_command :: "ustr \<Rightarrow> string option" where
  "cli_command arg =
     (if arg = str ''--register-driver'' then Some ''adddriver''
      else if arg = str ''--unregister-driver'' then Some ''removedriver''
      else None)"

definition run_cli :: "windows \<Rightarrow> (ustr \<Rightarrow> string \<Rightarrow> ustr \<Rightarrow> bool option) \<Rightarrow> ustr list \<Rightarrow> int option" where
  "run_cli w run_tool args =
     (case args of
        [] \<Rightarrow> None
      | arg # rest \<Rightarrow>
          (case cli_command arg of
             None \<Rightarrow> None
           | Some command \<Rightarrow>
               (case rest of
                  [] \<Rightarrow> Some EXIT_VRPATHREG_FAILED
                | dir # _ \<Rightarrow> Some (case vrpathreg_driver w run_tool command dir of
                      Inr steamvr \<Rightarrow> EXIT_OK
                    | Inl SteamVrNotFound \<Rightarrow> EXIT_STEAMVR_NOT_FOUND
                    | Inl Vrpathreg \<Rightarrow> EXIT_VRPATHREG_FAILED))))"

section \<open>The installed driver\<close>

definition has_driver_dll :: "windows \<Rightarrow> ustr \<Rightarrow> bool" where
  "has_driver_dll w driver_dir = w_is_file w (joins driver_dir [''bin'', ''win64'', ''driver_focus_vision_pcvr.dll''])"

definition is_driver_installed :: "windows \<Rightarrow> ustr \<Rightarrow> bool" where
  "is_driver_installed w drivers_dir = has_driver_dll w (path_join drivers_dir ''focus_vision_pcvr'')"

definition registered_driver_in :: "windows \<Rightarrow> ustr \<Rightarrow> ustr option" where
  "registered_driver_in w vrpath_json = find (has_driver_dll w) (vrpath_list (w_json w) vrpath_json ''external_drivers'')"

definition find_registered_driver :: "windows \<Rightarrow> ustr option" where
  "find_registered_driver w = (case w_vrpath w of Some json \<Rightarrow> registered_driver_in w json | None \<Rightarrow> None)"

text \<open>\<open>ancestors\<close> is the exe's directory and the directories above it, nearest first.\<close>

definition bundled_driver_dir :: "windows \<Rightarrow> ustr list \<Rightarrow> ustr option" where
  "bundled_driver_dir w ancestors =
     (case ancestors of
        [] \<Rightarrow> None
      | exe_dir # _ \<Rightarrow>
          let installed = joins exe_dir [''driver'', ''focus_vision_pcvr'']
          in if has_driver_dll w installed then Some installed
             else find (has_driver_dll w)
               (map (\<lambda>dir. joins dir [''driver'', ''build'', ''focus_vision_pcvr'']) (take 4 ancestors)))"

definition log_dir_in :: "windows \<Rightarrow> ustr \<Rightarrow> ustr option" where
  "log_dir_in w vrpath_json = find (w_is_dir w) (vrpath_list (w_json w) vrpath_json ''log'')"

definition find_steamvr_log_dir :: "windows \<Rightarrow> ustr option" where
  "find_steamvr_log_dir w =
     (case Option.bind (w_vrpath w) (log_dir_in w) of
        Some d \<Rightarrow> Some d
      | None \<Rightarrow>
          (case read_steam_install_path (w_registry w) of
             Some steam \<Rightarrow> if w_is_dir w (path_join steam ''logs'') then Some (path_join steam ''logs'') else None
           | None \<Rightarrow> None))"

text \<open>Whether removing an old copy succeeds: nothing to do, or \<open>removed\<close>.\<close>

definition uninstall_driver :: "(ustr \<Rightarrow> bool) \<Rightarrow> (ustr \<Rightarrow> bool) \<Rightarrow> ustr \<Rightarrow> bool" where
  "uninstall_driver path_exists removed drivers_dir =
     (let target = path_join drivers_dir ''focus_vision_pcvr'' in if path_exists target then removed target else True)"

section \<open>Reading the libraries back\<close>

text \<open>How Steam writes a library's line: tabs, the key and the value in quotes, backslashes doubled.\<close>

definition escape :: "ustr \<Rightarrow> ustr" where
  "escape p = concat (map (\<lambda>c. if c = bslash then [bslash, bslash] else [c]) p)"

definition vdf_line :: "ustr \<Rightarrow> ustr \<Rightarrow> ustr" where
  "vdf_line key p = [9, 9, dquote] @ key @ [dquote, 9, 9, dquote] @ escape p @ [dquote]"

lemma unescape_escape: "unescape (escape p) = p"
proof (induction p)
  case (Cons c p)
  show ?case
  proof (cases "c = bslash")
    case True
    then show ?thesis using Cons by (simp add: escape_def)
  next
    case False
    have "unescape (c # t) = c # unescape t" for t using False by (cases t) simp_all
    then show ?thesis using Cons False by (simp add: escape_def)
  qed
qed (simp add: escape_def)

lemma escape_clean: "list_all (\<lambda>c. c \<noteq> x) p \<Longrightarrow> x \<noteq> bslash \<Longrightarrow> list_all (\<lambda>c. c \<noteq> x) (escape p)"
  by (induction p) (auto simp: escape_def)

lemma library_path_line:
  assumes "list_all (\<lambda>c. c \<noteq> dquote) key" "list_all (\<lambda>c. c \<noteq> dquote) p"
  shows "library_path (vdf_line key p) = (if key = str ''path'' then Some p else None)"
proof -
  note s = split_at_sep [where sep = "\<lambda>c. c = dquote"] split_at_piece [where sep = "\<lambda>c. c = dquote"]
  have "split_at (\<lambda>c. c = dquote) (vdf_line key p) = [[9, 9], key, [9, 9], escape p, []]"
    using s(1) [of "[9, 9]" dquote "key @ dquote # [9, 9] @ dquote # escape p @ dquote # []"] s(1) [OF assms(1), of dquote]
      s(1) [of "[9, 9]" dquote "escape p @ dquote # []"] s(1) [OF escape_clean [OF assms(2)], of dquote "[]"]
    by (simp add: vdf_line_def)
  then show ?thesis by (simp add: library_path_def unescape_escape)
qed

text \<open>
  C1. Every Steam library is found: the paths read from a \<open>libraryfolders.vdf\<close> are exactly those its \<open>path\<close> entries were
  written for, in order, whatever other entries are between them.
\<close>

theorem libraries_read_back:
  assumes "list_all (\<lambda>(key, p). list_all (\<lambda>c. c \<noteq> dquote \<and> c \<noteq> 10) (key @ p)) entries"
  shows "library_paths (concat (map (\<lambda>(key, p). vdf_line key p @ [10]) entries))
    = map snd (filter (\<lambda>(key, _). key = str ''path'') entries)"
proof -
  have ls: "lines (concat (map (\<lambda>(key, p). vdf_line key p @ [10]) entries)) = map (\<lambda>(key, p). vdf_line key p) entries"
    using assms
  proof (induction entries)
    case (Cons e es)
    obtain key p where e: "e = (key, p)" by (cases e)
    have k: "list_all (\<lambda>c. c \<noteq> 10) key" "list_all (\<lambda>c. c \<noteq> 10) p" using Cons.prems by (auto simp: e list_all_iff)
    have nolf: "list_all (\<lambda>c. c \<noteq> 10) (vdf_line key p)" using k escape_clean [OF k(2)] by (simp add: vdf_line_def)
    have "strip_cr (vdf_line key p) = vdf_line key p" by (simp add: strip_cr_def vdf_line_def)
    then show ?case using Cons lines_step [OF nolf] by (simp add: e)
  qed simp
  have "library_path (vdf_line key p) = (if key = str ''path'' then Some p else None)" if "(key, p) \<in> set entries" for key p
    using assms that by (intro library_path_line) (auto simp: list_all_iff)
  then have "List.map_filter library_path (map (\<lambda>(key, p). vdf_line key p) entries)
      = map snd (filter (\<lambda>(key, _). key = str ''path'') entries)"
    by (induction entries) (auto simp: List.map_filter_simps)
  then show ?thesis by (simp add: library_paths_def ls)
qed

theorem libraries_read_back_witness:
  "library_paths (concat (map (\<lambda>(key, p). vdf_line key p @ [10])
     [(str ''path'', win_path (str ''D:'') [''SteamLibrary'']), (str ''label'', [])])) = [win_path (str ''D:'') [''SteamLibrary'']]"
proof -
  have "list_all (\<lambda>(key, p). list_all (\<lambda>c. c \<noteq> dquote \<and> c \<noteq> 10) (key @ p))
      [(str ''path'', win_path (str ''D:'') [''SteamLibrary'']), (str ''label'', [])]"
    by (simp add: win_path_def)
  from libraries_read_back [OF this] show ?thesis by simp
qed

text \<open>
  The installer's command line does what it says: it succeeds exactly when one of the two flags and a directory are
  given, SteamVR is found and vrpathreg has been run on that directory with success; without a flag the app starts.
\<close>

theorem cli_exit_codes:
  "run_cli w run_tool args =
     (case args of
        [] \<Rightarrow> None
      | arg # rest \<Rightarrow>
          if arg \<noteq> str ''--register-driver'' \<and> arg \<noteq> str ''--unregister-driver'' then None
          else Some (if rest = [] then 3
            else case find_steamvr_dir w of
              None \<Rightarrow> 2
            | Some steamvr \<Rightarrow>
                if run_tool (vrpathreg steamvr) (if arg = str ''--register-driver'' then ''adddriver'' else ''removedriver'') (hd rest)
                  = Some True then 0 else 3))"
  unfolding run_cli_def cli_command_def vrpathreg_driver_def EXIT_OK_def EXIT_STEAMVR_NOT_FOUND_def EXIT_VRPATHREG_FAILED_def
  by (auto split: list.split option.split)

end
