(* ===== verification/Synthetic.thy ===== *)
theory Synthetic imports Config Recording begin

text \<open>
  The synthetic sources of the simulator and the codec benchmark: \<open>video/synthetic_nal.rs\<close>,
  \<open>audio/synthetic_capture.rs\<close> and \<open>codec_benchmark.rs\<close>. The WAV decoder, the sine and the clock are arguments. The
  start code is that of \<open>Recording\<close>.
\<close>

unbundle bit_operations_syntax

section \<open>The synthetic video\<close>

definition DEFAULT_IDR_SIZE_BYTES :: nat where "DEFAULT_IDR_SIZE_BYTES = 24 * 1024"
definition DEFAULT_P_FRAME_SIZE_BYTES :: nat where "DEFAULT_P_FRAME_SIZE_BYTES = 4 * 1024"

definition H265_NAL_IDR_W_RADL :: u8 where "H265_NAL_IDR_W_RADL = 19"
definition H265_NAL_TRAIL_R :: u8 where "H265_NAL_TRAIL_R = 1"
definition H264_NAL_IDR :: u8 where "H264_NAL_IDR = 5"
definition H264_NAL_NON_IDR :: u8 where "H264_NAL_NON_IDR = 1"

record nal_stream =
  ns_codec :: video_codec
  ns_gop_size :: u32
  ns_idr_bytes :: nat
  ns_p_bytes :: nat
  ns_next :: u32

record nal_frame =
  nf_bytes :: bytes
  nf_frame_index :: u32
  nf_is_idr :: bool

definition nal_stream_new :: "video_codec \<Rightarrow> u32 \<Rightarrow> nal_stream" where
  "nal_stream_new c gop_size = \<lparr>ns_codec = c, ns_gop_size = max gop_size 1, ns_idr_bytes = DEFAULT_IDR_SIZE_BYTES,
     ns_p_bytes = DEFAULT_P_FRAME_SIZE_BYTES, ns_next = 0\<rparr>"

definition with_sizes :: "nat \<Rightarrow> nat \<Rightarrow> nal_stream \<Rightarrow> nal_stream" where
  "with_sizes idr_bytes p_bytes s = s\<lparr>ns_idr_bytes := idr_bytes, ns_p_bytes := p_bytes\<rparr>"

text \<open>Products of \<open>u64\<close>, which wrap.\<close>

definition with_resolution :: "nat \<Rightarrow> nat \<Rightarrow> fl \<Rightarrow> nal_stream \<Rightarrow> nal_stream" where
  "with_resolution render_w render_h scale s =
     (let (enc_w, enc_h) = compute_encoded_dims render_w render_h scale 2;
          encoded_area = enc_w * enc_h mod 2 ^ 64;
          render_area = max (render_w * render_h mod 2 ^ 64) 1
      in s\<lparr>ns_idr_bytes := max (DEFAULT_IDR_SIZE_BYTES * encoded_area mod 2 ^ 64 div render_area) 1,
           ns_p_bytes := max (DEFAULT_P_FRAME_SIZE_BYTES * encoded_area mod 2 ^ 64 div render_area) 1\<rparr>)"

definition nal_reset :: "nal_stream \<Rightarrow> nal_stream" where
  "nal_reset s = s\<lparr>ns_next := 0\<rparr>"

definition nal_header :: "video_codec \<Rightarrow> bool \<Rightarrow> bytes" where
  "nal_header c is_idr =
     (case c of
        H265 \<Rightarrow> [push_bit 1 ((if is_idr then H265_NAL_IDR_W_RADL else H265_NAL_TRAIL_R) AND 0x3F), 1]
      | H264 \<Rightarrow> [push_bit 5 (if is_idr then 3 else 2) OR ((if is_idr then H264_NAL_IDR else H264_NAL_NON_IDR) AND 0x1F)])"

definition nal_payload :: "u32 \<Rightarrow> nat \<Rightarrow> bytes" where
  "nal_payload frame_index n = map (\<lambda>i. ucast frame_index XOR (of_nat i * 31)) [0..<n]"

definition next_frame :: "nal_stream \<Rightarrow> nal_frame \<times> nal_stream" where
  "next_frame s =
     (let frame_index = ns_next s;
          is_idr = (frame_index mod ns_gop_size s = 0);
          payload_size = (if is_idr then ns_idr_bytes s else ns_p_bytes s)
      in (\<lparr>nf_bytes = START_CODE @ nal_header (ns_codec s) is_idr @ nal_payload frame_index payload_size,
           nf_frame_index = frame_index, nf_is_idr = is_idr\<rparr>,
          s\<lparr>ns_next := frame_index + 1\<rparr>))"

fun next_frames :: "nat \<Rightarrow> nal_stream \<Rightarrow> nal_frame list \<times> nal_stream" where
  "next_frames 0 s = ([], s)"
| "next_frames (Suc n) s = (let (f, s) = next_frame s; (fs, s) = next_frames n s in (f # fs, s))"

lemma xor_zero_eq: "a XOR b = 0 \<longleftrightarrow> a = b" for a b :: "'a::len word"
  by (auto simp: bit_eq_iff bit_simps)

lemma payload_no_zero_pair:
  "Suc i < length (nal_payload k n) \<Longrightarrow> \<not> (nal_payload k n ! i = 0 \<and> nal_payload k n ! Suc i = 0)"
proof
  assume i: "Suc i < length (nal_payload k n)" and z: "nal_payload k n ! i = 0 \<and> nal_payload k n ! Suc i = 0"
  have p: "nal_payload k n ! j = ucast k XOR (of_nat j * 31)" if "j < n" for j using that by (simp add: nal_payload_def)
  have n: "i < n" "Suc i < n" using i by (simp_all add: nal_payload_def)
  have "ucast k XOR (of_nat i * 31 :: u8) = 0" using z p [OF n(1)] by (simp only:)
  moreover have "ucast k XOR (of_nat (Suc i) * 31 :: u8) = 0" using z p [OF n(2)] by (simp only:)
  ultimately have k: "ucast k = (of_nat i * 31 :: u8)" "ucast k = (of_nat (Suc i) * 31 :: u8)"
    by (simp_all only: xor_zero_eq)
  have "(of_nat (Suc i) * 31 :: u8) = 31 + of_nat i * 31" by (simp add: algebra_simps)
  then have "(31 + of_nat i * 31 :: u8) = of_nat i * 31" using k by metis
  then have "(31 :: u8) = 0" by (simp only: add_cancel_left_left)
  then show False by simp
qed

lemma header_cases:
  "nal_header H265 b = [if b then 38 else 2, 1]" "nal_header H264 b = [if b then 101 else 65]"
  by (simp_all add: nal_header_def H265_NAL_IDR_W_RADL_def H265_NAL_TRAIL_R_def H264_NAL_IDR_def H264_NAL_NON_IDR_def)

text \<open>No two zero bytes follow each other after the start code.\<close>

lemma frame_no_zero_pair:
  assumes "2 \<le> i" "Suc i < length (START_CODE @ nal_header c b @ nal_payload k n)"
  shows "\<not> ((START_CODE @ nal_header c b @ nal_payload k n) ! i = 0 \<and> (START_CODE @ nal_header c b @ nal_payload k n) ! Suc i = 0)"
proof -
  let ?h = "START_CODE @ nal_header c b"
  let ?p = "nal_payload k n"
  have h: "i < length ?h \<Longrightarrow> ?h ! i = 0 \<Longrightarrow> i = 2" using assms(1)
    by (cases c) (auto simp: header_cases START_CODE_def nth_Cons split: nat.splits if_splits)
  have "?h ! 3 = 1" by (simp add: START_CODE_def)
  show ?thesis
  proof (cases "i < length ?h")
    case True
    have l: "3 < length ?h" by (cases c) (simp_all add: header_cases START_CODE_def)
    have e: "(?h @ ?p) ! i = ?h ! i" "(?h @ ?p) ! 3 = ?h ! 3" using True l nth_append [of ?h ?p] by (simp_all only: if_True append_assoc [symmetric])
    show ?thesis
    proof (cases "i = 2")
      case True
      then have "Suc i = 3" by simp
      then show ?thesis using e(2) \<open>?h ! 3 = 1\<close> by simp
    next
      case False
      then show ?thesis using h [OF True] e(1) by auto
    qed
  next
    case False
    then obtain j where j: "i = length ?h + j" by (metis le_add_diff_inverse not_less)
    have "Suc j < length ?p" using assms(2) j by simp
    then have "\<not> (?p ! j = 0 \<and> ?p ! Suc j = 0)" by (rule payload_no_zero_pair)
    moreover have "(?h @ ?p) ! i = ?p ! j" "(?h @ ?p) ! Suc i = ?p ! Suc j"
      unfolding j using nth_append_length_plus [of ?h ?p j] nth_append_length_plus [of ?h ?p "Suc j"] by simp_all
    ultimately show ?thesis by simp
  qed
qed

lemma next_frames_index:
  assumes "next_frames n s = (fs, s')"
  shows "length fs = n"
    and "k < n \<Longrightarrow> fs ! k = fst (next_frame (s\<lparr>ns_next := ns_next s + of_nat k\<rparr>))"
  using assms
proof (induction n arbitrary: s s' fs k)
  case (Suc n)
  {
    case 1
    obtain f s1 fs1 s2 where "next_frame s = (f, s1)" "next_frames n s1 = (fs1, s2)" by (metis prod.exhaust)
    then show ?case using 1 Suc.IH(1) [of s1 fs1 s2] by (auto simp: Let_def)
  next
    case 2
    obtain f s1 where f1: "next_frame s = (f, s1)" by fastforce
    obtain fs1 s2 where f2: "next_frames n s1 = (fs1, s2)" by fastforce
    note f = f1 f2
    have fs: "fs = f # fs1" using 2(2) f by (simp add: Let_def)
    have s1: "s1 = s\<lparr>ns_next := ns_next s + 1\<rparr>" using f(1) by (auto simp: next_frame_def Let_def)
    show ?case
    proof (cases k)
      case 0
      then show ?thesis using f fs by simp
    next
      case (Suc j)
      then have "fs1 ! j = fst (next_frame (s1\<lparr>ns_next := ns_next s1 + of_nat j\<rparr>))" using Suc.IH(2) [OF _ f(2)] 2(1) by simp
      then show ?thesis using fs Suc by (simp add: s1 add.commute add.left_commute)
    qed
  }
qed simp_all

text \<open>
  C1. The synthetic stream is a well-formed one: frame \<open>k\<close> carries index \<open>k\<close> and is a keyframe exactly at the multiples
  of the group size, and each frame is exactly one NAL unit of the size asked for, its only start code at its beginning.
\<close>

theorem synthetic_stream_wellformed:
  assumes "next_frames n (with_sizes idr_bytes p_bytes (nal_stream_new c gop_size)) = (fs, s')" "k < n" "k < 2 ^ 32"
  shows "unat (nf_frame_index (fs ! k)) = k
    \<and> nf_is_idr (fs ! k) = (k mod max (unat gop_size) 1 = 0)
    \<and> length (nf_bytes (fs ! k)) = 4 + (case c of H265 \<Rightarrow> 2 | H264 \<Rightarrow> 1) + (if nf_is_idr (fs ! k) then idr_bytes else p_bytes)
    \<and> starts_with_annexb (nf_bytes (fs ! k))
    \<and> (take 3 (drop i (nf_bytes (fs ! k))) = [0, 0, 1] \<longleftrightarrow> i = 1)"
proof -
  let ?s = "with_sizes idr_bytes p_bytes (nal_stream_new c gop_size)"
  let ?idr = "(of_nat k :: u32) mod max gop_size 1 = 0"
  have f: "fs ! k = fst (next_frame (?s\<lparr>ns_next := of_nat k\<rparr>))"
    using next_frames_index(2) [OF assms(1,2)] by (simp add: with_sizes_def nal_stream_new_def)
  have b: "nf_bytes (fs ! k) = START_CODE @ nal_header c ?idr @ nal_payload (of_nat k) (if ?idr then idr_bytes else p_bytes)"
    by (simp add: f next_frame_def Let_def with_sizes_def nal_stream_new_def)
  have u: "unat (of_nat k :: u32) = k" using assms(3) by (simp add: unat_of_nat)
  have "unat (max gop_size 1) = max (unat gop_size) 1" by (simp add: max_def word_le_nat_alt)
  then have idr: "?idr \<longleftrightarrow> k mod max (unat gop_size) 1 = 0"
    using u by (metis unat_0 unat_mod unsigned_eq_0_iff)
  have hl: "length (nal_header c ?idr) = (case c of H265 \<Rightarrow> 2 | H264 \<Rightarrow> 1)"
    by (cases c) (simp_all add: header_cases)
  have only: "take 3 (drop i (nf_bytes (fs ! k))) = [0, 0, 1] \<longleftrightarrow> i = 1"
  proof
    assume t: "take 3 (drop i (nf_bytes (fs ! k))) = [0, 0, 1]"
    have l: "i + 2 < length (nf_bytes (fs ! k))"
      using arg_cong [OF t, of length] by simp
    have "take 3 (drop i (nf_bytes (fs ! k))) ! 0 = nf_bytes (fs ! k) ! i"
      "take 3 (drop i (nf_bytes (fs ! k))) ! 1 = nf_bytes (fs ! k) ! Suc i"
      "take 3 (drop i (nf_bytes (fs ! k))) ! 2 = nf_bytes (fs ! k) ! (i + 2)"
      using l by simp_all
    then have z: "nf_bytes (fs ! k) ! i = 0" "nf_bytes (fs ! k) ! Suc i = 0" "nf_bytes (fs ! k) ! (i + 2) = 1"
      unfolding t by simp_all
    have "\<not> 2 \<le> i" using z l frame_no_zero_pair [of i c ?idr "of_nat k" "if ?idr then idr_bytes else p_bytes"] unfolding b by auto
    moreover have "nf_bytes (fs ! k) ! 2 = 0" by (simp add: b START_CODE_def)
    then have "i \<noteq> 0" using z(3) by (intro notI) (simp only: add_0, simp)
    ultimately show "i = 1" by simp
  qed (simp add: b START_CODE_def)
  show ?thesis using only idr u hl b
    by (simp add: f next_frame_def Let_def with_sizes_def nal_stream_new_def START_CODE_def starts_with_annexb_def nal_payload_def)
qed

theorem synthetic_stream_wellformed_witness:
  "\<exists>fs s. next_frames 4 (with_sizes 8 2 (nal_stream_new H265 3)) = (fs, s) \<and> nf_is_idr (fs ! 3) \<and> length (nf_bytes (fs ! 3)) = 14"
proof -
  obtain fs s where f: "next_frames 4 (with_sizes 8 2 (nal_stream_new H265 3)) = (fs, s)" by fastforce
  from synthetic_stream_wellformed [OF f, of 3 0] f show ?thesis by simp
qed

text \<open>At a smaller resolution the frames shrink with the area, and never to nothing.\<close>

lemma synthetic_sizes_bounded:
  assumes "even w" "even h" "0 < w" "0 < h" "w \<le> 2 ^ 12" "h \<le> 2 ^ 12"
  shows "1 \<le> ns_idr_bytes (with_resolution w h scale s) \<and> ns_idr_bytes (with_resolution w h scale s) \<le> DEFAULT_IDR_SIZE_BYTES
    \<and> 1 \<le> ns_p_bytes (with_resolution w h scale s) \<and> ns_p_bytes (with_resolution w h scale s) \<le> DEFAULT_P_FRAME_SIZE_BYTES"
proof -
  obtain ew eh where e: "compute_encoded_dims w h scale 2 = (ew, eh)" by fastforce
  have le: "ew \<le> w" "eh \<le> h" using encoded_dims [of 2 w h scale] assms e by (simp_all add: Let_def)
  then have a: "ew * eh \<le> w * h" by (rule mult_le_mono)
  have "w * h \<le> 2 ^ 12 * 2 ^ 12" using assms(5,6) by (rule mult_le_mono)
  then have wh: "w * h \<le> 16777216" by simp
  have nz: "1 \<le> w * h" using assms(3,4) by (simp add: Suc_le_eq)
  have wrap: "c * (ew * eh mod 2 ^ 64) mod 2 ^ 64 div max (w * h mod 2 ^ 64) 1 \<le> c" if "c \<le> 32768" for c
  proof -
    have "c * (ew * eh) \<le> 32768 * 16777216" using that a wh by (intro mult_le_mono) auto
    then have "c * (ew * eh mod 2 ^ 64) mod 2 ^ 64 = c * (ew * eh)" using a wh by simp
    moreover have "w * h mod 2 ^ 64 = w * h" using wh by simp
    then have "max (w * h mod 2 ^ 64) 1 = w * h" using nz by (simp only: max_absorb1)
    moreover have "c * (ew * eh) div (w * h) \<le> c * (w * h) div (w * h)"
      using a by (intro div_le_mono mult_le_mono2)
    ultimately show ?thesis using assms(3,4) by simp
  qed
  have d: "DEFAULT_IDR_SIZE_BYTES \<le> 32768" "DEFAULT_P_FRAME_SIZE_BYTES \<le> 32768" "1 \<le> DEFAULT_IDR_SIZE_BYTES" "1 \<le> DEFAULT_P_FRAME_SIZE_BYTES"
    by (simp_all add: DEFAULT_IDR_SIZE_BYTES_def DEFAULT_P_FRAME_SIZE_BYTES_def)
  have "ns_idr_bytes (with_resolution w h scale s) = max (DEFAULT_IDR_SIZE_BYTES * (ew * eh mod 2 ^ 64) mod 2 ^ 64 div max (w * h mod 2 ^ 64) 1) 1"
    "ns_p_bytes (with_resolution w h scale s) = max (DEFAULT_P_FRAME_SIZE_BYTES * (ew * eh mod 2 ^ 64) mod 2 ^ 64 div max (w * h mod 2 ^ 64) 1) 1"
    unfolding with_resolution_def e Let_def prod.case by simp_all
  then show ?thesis using wrap [OF d(1)] wrap [OF d(2)] d(3,4) by (simp only: max.bounded_iff max.cobounded2 simp_thms)
qed

section \<open>The synthetic audio\<close>

definition SAMPLE_RATE_HZ :: nat where "SAMPLE_RATE_HZ = 48000"
definition SAMPLES_PER_CHANNEL_PER_CHUNK :: nat where "SAMPLES_PER_CHANNEL_PER_CHUNK = SAMPLE_RATE_HZ * 10 div 1000"
definition SAMPLES_PER_CHUNK :: nat where "SAMPLES_PER_CHUNK = SAMPLES_PER_CHANNEL_PER_CHUNK * 2"

datatype synthetic_source = Silence | Sine fl fl | WavLoop "fl list"

definition default_sine :: synthetic_source where
  "default_sine = Sine (f32_lit 440) (f32_lit (1 / 10))"

text \<open>What the WAV reader gives; a sample it cannot decode is left out by the source.\<close>

record wav_data =
  wd_sample_rate :: nat
  wd_channels :: nat
  wd_int_bits :: "nat option"
  wd_ints :: "int list"
  wd_floats :: "fl list"

definition wav_raw :: "wav_data \<Rightarrow> fl list" where
  "wav_raw w = (case wd_int_bits w of
     Some bits \<Rightarrow> map (\<lambda>s. f_mul b32 (f_of_int b32 s) (f_div b32 (Fin 1) (f_of_nat b32 (2 ^ (bits - 1))))) (wd_ints w)
   | None \<Rightarrow> wd_floats w)"

definition wav_stereo :: "nat \<Rightarrow> fl list \<Rightarrow> fl list" where
  "wav_stereo channels raw =
     (if channels = 1 then concat (map (\<lambda>s. [s, s]) raw)
      else if channels = 2 then raw
      else concat (map (\<lambda>f. [raw ! (f * channels), raw ! (f * channels + 1)]) [0..<length raw div channels]))"

definition resample_index :: "nat \<Rightarrow> nat \<Rightarrow> nat \<Rightarrow> nat" where
  "resample_index src_rate frames_in f = min (f * src_rate div SAMPLE_RATE_HZ) (frames_in - 1)"

definition resample_nearest :: "nat \<Rightarrow> fl list \<Rightarrow> fl list" where
  "resample_nearest src_rate stereo =
     (if src_rate = SAMPLE_RATE_HZ then stereo
      else let frames_in = length stereo div 2;
               frames_out = frames_in * SAMPLE_RATE_HZ div src_rate
           in concat (map (\<lambda>f. let i = resample_index src_rate frames_in f in [stereo ! (i * 2), stereo ! (i * 2 + 1)])
                [0..<frames_out]))"

definition from_wav :: "wav_data option \<Rightarrow> synthetic_source option" where
  "from_wav opened =
     (case opened of
        None \<Rightarrow> None
      | Some w \<Rightarrow>
          let samples = resample_nearest (wd_sample_rate w) (wav_stereo (wd_channels w) (wav_raw w))
          in if samples = [] then None else Some (WavLoop samples))"

text \<open>\<open>TAU\<close> is 13176795 / 2^21.\<close>

definition TAU :: fl where "TAU = Fin (13176795 / 2097152)"

definition sine_step :: "(fl \<Rightarrow> fl) \<Rightarrow> fl \<Rightarrow> fl \<Rightarrow> fl list \<times> fl \<Rightarrow> fl list \<times> fl" where
  "sine_step sin_of hz amplitude a =
     (case a of (out, phase) \<Rightarrow>
        let s = f_mul b32 (sin_of phase) amplitude;
            phase = f_add b32 phase (f_div b32 (f_mul b32 TAU hz) (f_of_nat b32 SAMPLE_RATE_HZ))
        in (out @ [s, s], if TAU < phase then f_sub b32 phase TAU else phase))"

definition generate_sine_chunk :: "(fl \<Rightarrow> fl) \<Rightarrow> fl \<Rightarrow> fl \<Rightarrow> fl \<Rightarrow> fl list \<times> fl" where
  "generate_sine_chunk sin_of hz amplitude phase =
     (sine_step sin_of hz amplitude ^^ SAMPLES_PER_CHANNEL_PER_CHUNK) ([], phase)"

text \<open>\<open>None\<close> is the panic of an empty loop.\<close>

fun wav_take :: "nat \<Rightarrow> fl list \<Rightarrow> nat \<Rightarrow> (fl list \<times> nat) option" where
  "wav_take 0 samples cursor = Some ([], cursor)"
| "wav_take (Suc n) samples cursor =
     (if length samples \<le> cursor then None
      else (case wav_take n samples ((cursor + 1) mod max (length samples) 1) of
              None \<Rightarrow> None
            | Some (out, cursor') \<Rightarrow> Some (samples ! cursor # out, cursor')))"

definition generate_wav_chunk :: "fl list \<Rightarrow> nat \<Rightarrow> (fl list \<times> nat) option" where
  "generate_wav_chunk samples cursor = wav_take SAMPLES_PER_CHUNK samples cursor"

record producer =
  pr_phase :: fl
  pr_cursor :: nat
  pr_next_tick :: instant

definition producer_new :: "instant \<Rightarrow> producer" where
  "producer_new now = \<lparr>pr_phase = Fin 0, pr_cursor = 0, pr_next_tick = now\<rparr>"

text \<open>The chunk of one turn of the loop and the state behind it.\<close>

definition produce_chunk :: "(fl \<Rightarrow> fl) \<Rightarrow> synthetic_source \<Rightarrow> producer \<Rightarrow> (fl list \<times> producer) option" where
  "produce_chunk sin_of source p =
     (case source of
        Silence \<Rightarrow> Some (replicate SAMPLES_PER_CHUNK (Fin 0), p)
      | Sine hz amplitude \<Rightarrow>
          (case generate_sine_chunk sin_of hz amplitude (pr_phase p) of (out, phase) \<Rightarrow> Some (out, p\<lparr>pr_phase := phase\<rparr>))
      | WavLoop samples \<Rightarrow>
          map_option (\<lambda>(out, cursor). (out, p\<lparr>pr_cursor := cursor\<rparr>)) (generate_wav_chunk samples (pr_cursor p)))"

text \<open>The pacing after it: how long the thread sleeps.\<close>

definition pace :: "instant \<Rightarrow> producer \<Rightarrow> duration \<times> producer" where
  "pace now p =
     (let next_tick = pr_next_tick p + 10 * nanos_per_ms
      in if now < next_tick then (next_tick - now, p\<lparr>pr_next_tick := next_tick\<rparr>) else (0, p\<lparr>pr_next_tick := now\<rparr>))"

text \<open>
  \<open>run_producer\<close> over the outcomes of its turns: when the turn's clock is read and whether the channel takes the chunk
  (\<open>None\<close> once it is closed). The result is what was delivered.
\<close>

fun run_producer :: "(fl \<Rightarrow> fl) \<Rightarrow> synthetic_source \<Rightarrow> (instant \<times> bool option) list \<Rightarrow> producer \<Rightarrow> fl list list option" where
  "run_producer sin_of source [] p = Some []"
| "run_producer sin_of source ((now, sent) # turns) p =
     (case produce_chunk sin_of source p of
        None \<Rightarrow> None
      | Some (chunk, p) \<Rightarrow>
          (case sent of
             None \<Rightarrow> Some []
           | Some delivered \<Rightarrow>
               map_option (\<lambda>sent_chunks. (if delivered then [chunk] else []) @ sent_chunks)
                 (run_producer sin_of source turns (snd (pace now p)))))"

lemma wav_take_loop:
  "cursor < length samples \<Longrightarrow>
   wav_take n samples cursor = Some (map (\<lambda>i. samples ! ((cursor + i) mod length samples)) [0..<n], (cursor + n) mod length samples)"
proof (induction n arbitrary: cursor)
  case (Suc n)
  let ?c = "(cursor + 1) mod length samples"
  have ne: "0 < length samples" using Suc.prems by linarith
  have m: "max (length samples) 1 = length samples" using ne by (intro max_absorb1) linarith
  have idx: "(?c + i) mod length samples = (cursor + Suc i) mod length samples" for i
    using mod_add_left_eq [of "cursor + 1" "length samples" i] by simp
  have "wav_take n samples ?c = Some (map (\<lambda>i. samples ! ((?c + i) mod length samples)) [0..<n], (?c + n) mod length samples)"
    using ne by (intro Suc.IH) simp
  then have "wav_take (Suc n) samples cursor
      = Some (samples ! cursor # map (\<lambda>i. samples ! ((cursor + Suc i) mod length samples)) [0..<n], (cursor + Suc n) mod length samples)"
    unfolding idx using Suc.prems by (simp only: wav_take.simps m option.case prod.case not_le [symmetric] if_False simp_thms)
  moreover have "cursor mod length samples = cursor" using Suc.prems by simp
  ultimately show ?case by (simp only: map_upt_Suc add_0_right)
qed simp

lemma length_sine: "length (fst ((sine_step sin_of hz amplitude ^^ n) (out, phase))) = length out + 2 * n"
  by (induction n arbitrary: out phase) (simp_all add: funpow_swap1 sine_step_def Let_def)

lemma wav_loop_chunks:
  assumes "run_producer sin_of (WavLoop samples) turns p = Some sent_chunks" "pr_cursor p < length samples"
    and "list_all (\<lambda>(now, sent). sent = Some True) turns"
  shows "concat sent_chunks = map (\<lambda>i. samples ! ((pr_cursor p + i) mod length samples)) [0..<960 * length turns]"
  using assms
proof (induction turns arbitrary: p sent_chunks)
  case (Cons t turns)
  obtain now sent where t: "t = (now, sent)" by (cases t)
  have ne: "0 < length samples" using Cons.prems(2) by linarith
  let ?p = "p\<lparr>pr_cursor := (pr_cursor p + 960) mod length samples\<rparr>"
  have g: "generate_wav_chunk samples (pr_cursor p)
      = Some (map (\<lambda>i. samples ! ((pr_cursor p + i) mod length samples)) [0..<960], (pr_cursor p + 960) mod length samples)"
    using wav_take_loop [OF Cons.prems(2), of 960]
    by (simp add: generate_wav_chunk_def SAMPLES_PER_CHUNK_def SAMPLES_PER_CHANNEL_PER_CHUNK_def SAMPLE_RATE_HZ_def del: upt_rec_numeral)
  obtain rest where r: "run_producer sin_of (WavLoop samples) turns (snd (pace now ?p)) = Some rest"
      "sent_chunks = map (\<lambda>i. samples ! ((pr_cursor p + i) mod length samples)) [0..<960] # rest"
    using Cons.prems(1,3) by (auto simp: t produce_chunk_def g simp del: upt_rec_numeral)
  have c: "pr_cursor (snd (pace now ?p)) = (pr_cursor p + 960) mod length samples" by (simp add: pace_def Let_def)
  have "concat rest = map (\<lambda>i. samples ! (((pr_cursor p + 960) mod length samples + i) mod length samples)) [0..<960 * length turns]"
    using Cons.IH [OF r(1)] Cons.prems(3) ne by (simp add: c t)
  also have "\<dots> = map (\<lambda>i. samples ! ((pr_cursor p + i) mod length samples)) [960..<960 + 960 * length turns]"
    by (rule nth_equalityI) (simp_all add: mod_add_left_eq add.assoc)
  finally have "concat sent_chunks = map (\<lambda>i. samples ! ((pr_cursor p + i) mod length samples)) ([0..<960] @ [960..<960 + 960 * length turns])"
    by (simp add: r(2) del: upt_rec_numeral)
  also have "[0..<960] @ [960..<960 + 960 * length turns] = [0..<960 * length (t # turns)]"
    using upt_add_eq_append [of 0 960 "960 * length turns"] by (simp del: upt_rec_numeral)
  finally show ?case .
qed simp

text \<open>
  A looped WAV plays without a gap: as long as every chunk is taken, what the source sends is the file's samples over
  and over, whatever the length of the file is against that of a chunk.
\<close>

theorem wav_loop_seamless:
  assumes "from_wav (Some w) = Some (WavLoop samples)" "list_all (\<lambda>(now, sent). sent = Some True) turns"
  shows "\<exists>sent_chunks. run_producer sin_of (WavLoop samples) turns (producer_new started) = Some sent_chunks
    \<and> concat sent_chunks = map (\<lambda>i. samples ! (i mod length samples)) [0..<960 * length turns]"
proof -
  have ne: "0 < length samples" using assms(1) by (auto simp: from_wav_def Let_def split: if_splits)
  have total: "\<exists>sent_chunks. run_producer sin_of (WavLoop samples) turns p = Some sent_chunks" if "pr_cursor p < length samples" for p
    using that
  proof (induction turns arbitrary: p)
    case (Cons t turns)
    obtain now sent where t: "t = (now, sent)" by (cases t)
    obtain out where g: "produce_chunk sin_of (WavLoop samples) p = Some (out, p\<lparr>pr_cursor := (pr_cursor p + SAMPLES_PER_CHUNK) mod length samples\<rparr>)"
      using wav_take_loop [OF Cons.prems] by (auto simp: produce_chunk_def generate_wav_chunk_def)
    have "pr_cursor (snd (pace now (p\<lparr>pr_cursor := (pr_cursor p + SAMPLES_PER_CHUNK) mod length samples\<rparr>))) < length samples"
      using ne by (simp add: pace_def Let_def)
    from Cons.IH [OF this] show ?case by (auto simp: t g split: option.split)
  qed simp
  have "pr_cursor (producer_new started) < length samples" using ne by (simp add: producer_new_def)
  with total wav_loop_chunks [of sin_of samples turns "producer_new started"] assms(2) show ?thesis
    by (fastforce simp: producer_new_def)
qed

theorem wav_loop_seamless_witness:
  "\<exists>sent_chunks. run_producer (\<lambda>x. x) (WavLoop [Fin 1, Fin 2, Fin 3, Fin 4]) [(0, Some True)] (producer_new 0) = Some sent_chunks
     \<and> length (concat sent_chunks) = 960"
proof -
  have "from_wav (Some \<lparr>wd_sample_rate = 48000, wd_channels = 2, wd_int_bits = None, wd_ints = [],
      wd_floats = [Fin 1, Fin 2, Fin 3, Fin 4]\<rparr>) = Some (WavLoop [Fin 1, Fin 2, Fin 3, Fin 4])"
    by (simp add: from_wav_def resample_nearest_def wav_stereo_def wav_raw_def SAMPLE_RATE_HZ_def)
  from wav_loop_seamless [OF this, of "[(0, Some True)]" "\<lambda>x. x" 0] show ?thesis by (auto simp del: upt_rec_numeral)
qed

text \<open>The nearest sample is always inside the file.\<close>

lemma resample_in_range:
  assumes "0 < src_rate" "f < (length stereo div 2) * SAMPLE_RATE_HZ div src_rate"
  shows "resample_index src_rate (length stereo div 2) f * 2 + 1 < length stereo"
proof -
  have "0 < length stereo div 2" using assms(2) by (cases "length stereo div 2") auto
  then have "resample_index src_rate (length stereo div 2) f < length stereo div 2" by (simp add: resample_index_def)
  then show ?thesis by linarith
qed

section \<open>The codec benchmark\<close>

datatype bench_phase = NotStarted | TestingHevc | TestingH264 | BenchComplete
datatype codec_choice = Hevc | ChooseH264

record codec_benchmark =
  cb_phase :: bench_phase
  cb_phase_start :: "instant option"
  cb_hevc :: "u32 list"
  cb_h264 :: "u32 list"
  cb_result :: "codec_choice option"

definition PHASE_DURATION :: duration where "PHASE_DURATION = 5 * nanos_per_sec"

definition bench_new :: codec_benchmark where
  "bench_new = \<lparr>cb_phase = NotStarted, cb_phase_start = None, cb_hevc = [], cb_h264 = [], cb_result = None\<rparr>"

definition bench_start :: "instant \<Rightarrow> codec_benchmark \<Rightarrow> codec_benchmark" where
  "bench_start now b = b\<lparr>cb_phase := TestingHevc, cb_phase_start := Some now, cb_hevc := [], cb_h264 := [], cb_result := None\<rparr>"

definition record_sample :: "u32 \<Rightarrow> codec_benchmark \<Rightarrow> codec_benchmark" where
  "record_sample us b =
     (case cb_phase b of
        TestingHevc \<Rightarrow> b\<lparr>cb_hevc := cb_hevc b @ [us]\<rparr>
      | TestingH264 \<Rightarrow> b\<lparr>cb_h264 := cb_h264 b @ [us]\<rparr>
      | _ \<Rightarrow> b)"

definition bench_avg :: "u32 list \<Rightarrow> nat" where
  "bench_avg samples =
     (if samples = [] then 0 else sum_list (map unat samples) mod 2 ^ 64 div length samples mod 2 ^ 32)"

definition bench_finalize :: "codec_benchmark \<Rightarrow> codec_benchmark" where
  "bench_finalize b =
     b\<lparr>cb_result := Some (if bench_avg (cb_h264 b) < bench_avg (cb_hevc b) \<and> cb_h264 b \<noteq> [] then ChooseH264 else Hevc),
       cb_phase := BenchComplete\<rparr>"

definition phase_over :: "instant \<Rightarrow> codec_benchmark \<Rightarrow> bool" where
  "phase_over now b = (case cb_phase_start b of Some s \<Rightarrow> PHASE_DURATION \<le> now - s | None \<Rightarrow> False)"

definition bench_tick :: "instant \<Rightarrow> codec_benchmark \<Rightarrow> codec_choice option \<times> codec_benchmark" where
  "bench_tick now b =
     (case cb_phase b of
        NotStarted \<Rightarrow> (None, b)
      | TestingHevc \<Rightarrow>
          if phase_over now b then (Some ChooseH264, b\<lparr>cb_phase := TestingH264, cb_phase_start := Some now\<rparr>) else (Some Hevc, b)
      | TestingH264 \<Rightarrow>
          if phase_over now b then (let b = bench_finalize b in (cb_result b, b)) else (Some ChooseH264, b)
      | BenchComplete \<Rightarrow> (cb_result b, b))"

definition bench_is_complete :: "codec_benchmark \<Rightarrow> bool" where
  "bench_is_complete b = (cb_phase b = BenchComplete)"

definition bench_stddev :: "u32 list \<Rightarrow> fl" where
  "bench_stddev samples =
     (if length samples < 2 then Fin 0
      else let total = foldl (\<lambda>acc s. f_add b64 acc (f_of_nat b64 (unat s))) (Fin 0) samples;
               mean = f_div b64 total (f_of_nat b64 (length samples));
               squares = foldl (\<lambda>acc s. let d = f_sub b64 (f_of_nat b64 (unat s)) mean in f_add b64 acc (f_mul b64 d d)) (Fin 0) samples
           in f_sqrt b64 (f_div b64 squares (f_of_nat b64 (length samples - 1))))"

record benchmark_result =
  br_codec :: string
  br_avg_decode_us :: nat
  br_sample_count :: nat
  br_stddev_us :: fl
  br_min_us :: nat
  br_max_us :: nat

definition result_from_samples :: "string \<Rightarrow> u32 list \<Rightarrow> benchmark_result" where
  "result_from_samples codec_name samples =
     \<lparr>br_codec = codec_name, br_avg_decode_us = bench_avg samples, br_sample_count = length samples, br_stddev_us = bench_stddev samples,
      br_min_us = (if samples = [] then 0 else Min (set (map unat samples))),
      br_max_us = (if samples = [] then 0 else Max (set (map unat samples)))\<rparr>"

definition export_results :: "codec_benchmark \<Rightarrow> (benchmark_result \<times> benchmark_result \<times> string) option" where
  "export_results b =
     (if cb_phase b \<noteq> BenchComplete then None
      else map_option (\<lambda>c. (result_from_samples ''h265'' (cb_hevc b), result_from_samples ''h264'' (cb_h264 b),
             case c of Hevc \<Rightarrow> ''h265'' | ChooseH264 \<Rightarrow> ''h264'')) (cb_result b))"

datatype bench_event = BeStart | BeSample u32 | BeTick

fun bench_step :: "instant \<times> bench_event \<Rightarrow> codec_benchmark \<Rightarrow> codec_benchmark" where
  "bench_step (now, BeStart) b = bench_start now b"
| "bench_step (now, BeSample us) b = record_sample us b"
| "bench_step (now, BeTick) b = snd (bench_tick now b)"

definition bench_inv :: "codec_benchmark \<Rightarrow> bool" where
  "bench_inv b \<longleftrightarrow>
     (case cb_phase b of
        NotStarted \<Rightarrow> cb_hevc b = [] \<and> cb_h264 b = [] \<and> cb_result b = None
      | TestingHevc \<Rightarrow> cb_h264 b = [] \<and> cb_result b = None \<and> cb_phase_start b \<noteq> None
      | TestingH264 \<Rightarrow> cb_result b = None \<and> cb_phase_start b \<noteq> None
      | BenchComplete \<Rightarrow>
          cb_result b = Some (if cb_h264 b \<noteq> [] \<and> bench_avg (cb_h264 b) < bench_avg (cb_hevc b) then ChooseH264 else Hevc))"

lemma bench_inv_step: "bench_inv b \<Longrightarrow> bench_inv (bench_step e b)"
proof (cases e)
  case (Pair now ev)
  assume "bench_inv b"
  then show ?thesis using Pair
    by (cases ev) (auto simp: bench_inv_def bench_start_def record_sample_def bench_tick_def bench_finalize_def Let_def
        split: bench_phase.splits)
qed

text \<open>
  The benchmark chooses what it measured: whatever the ticks, samples and restarts, a finished benchmark reports H.264
  exactly when it was sampled and its average was lower; without a sample of H.265 that is never.
\<close>

theorem benchmark_choice_exact:
  "let b = fold bench_step events bench_new in
     (cb_phase b = BenchComplete \<longleftrightarrow> cb_result b \<noteq> None)
     \<and> (if cb_phase b = BenchComplete
        then cb_result b = Some (if cb_h264 b \<noteq> [] \<and> bench_avg (cb_h264 b) < bench_avg (cb_hevc b) then ChooseH264 else Hevc)
          \<and> (if cb_hevc b = [] then cb_result b = Some Hevc else True)
        else export_results b = None)"
proof -
  have inv: "bench_inv (fold bench_step events b)" if "bench_inv b" for b
    using that by (induction events arbitrary: b) (simp_all add: bench_inv_step)
  have "bench_inv bench_new" by (simp add: bench_inv_def bench_new_def)
  from inv [OF this] show ?thesis
    by (auto simp: Let_def bench_inv_def bench_avg_def export_results_def split: bench_phase.splits)
qed

end
