(* ===== verification/FloatBits.thy ===== *)
theory FloatBits imports IeeeFloat begin

text \<open>
  The bit patterns of \<open>f32\<close>: the fields of a pattern, and \<open>f32::from_bits\<close> undoes \<open>to_bits\<close> on
  every value of the format.
\<close>

lemma quantum_float:
  assumes "is_float b32 a" and "a \<noteq> 0"
  shows "\<exists>m. 0 < m \<and> m < 2 ^ 24 \<and> \<bar>a\<bar> = of_int m * pow2 (quantum b32 a) \<and> -149 \<le> quantum b32 a
     \<and> quantum b32 a \<le> 104 \<and> (m < 2 ^ 23 \<longrightarrow> quantum b32 a = -149)"
proof -
  let ?q = "quantum b32 a" and ?m = "rne (\<bar>a\<bar> / pow2 (quantum b32 a))"
  have q: "?q = max (ilog2 \<bar>a\<bar> - 23) (-149)" by (simp add: quantum_def b32_def)
  have aa: "rnd b32 \<bar>a\<bar> = Fin \<bar>a\<bar>"
    using assms(1) fmt32.is_float_minus [OF assms(1)] by (cases "0 \<le> a") (simp_all add: is_float_def)
  have qa: "quantum b32 \<bar>a\<bar> = ?q" by (simp add: quantum_def)
  have u: "rnd_unbounded b32 \<bar>a\<bar> = \<bar>a\<bar>" and e: "\<not> pow2 128 \<le> \<bar>a\<bar>"
    using aa unfolding rnd_cases by (auto split: if_splits simp: b32_def)
  from u have m: "\<bar>a\<bar> = of_int ?m * pow2 ?q" using assms(2) by (simp add: rnd_unbounded_def qa)
  have p: "0 < \<bar>a\<bar>" using assms(2) by simp
  then have mp: "0 < ?m" using m pow2_pos [of ?q] by (metis of_int_0_less_iff zero_less_mult_pos2)
  note b = ilog2_bounds [OF p]
  have il: "ilog2 \<bar>a\<bar> \<le> 127" using e ilog2_le_iff [OF p, of 128] by linarith
  have "of_int ?m * pow2 ?q < pow2 24 * pow2 ?q"
  proof -
    have "\<bar>a\<bar> < pow2 (ilog2 \<bar>a\<bar> + 1)" using b by simp
    also have "\<dots> \<le> pow2 (24 + ?q)" by (rule pow2_mono) (simp add: q)
    also have "\<dots> = pow2 24 * pow2 ?q" by (rule pow2_add)
    finally show ?thesis using m by simp
  qed
  then have "of_int ?m < pow2 24" using pow2_pos [of ?q] by (metis mult_less_cancel_right_pos)
  then have "(of_int ?m :: rat) < of_int (2 ^ 24)" by (simp add: pow2_def)
  then have ml: "?m < 2 ^ 24" by (simp only: of_int_less_iff)
  have "?q = -149" if "?m < 2 ^ 23"
  proof (rule ccontr)
    assume "?q \<noteq> -149"
    then have qq: "?q = ilog2 \<bar>a\<bar> - 23" using q by linarith
    have "(of_int ?m :: rat) < of_int (2 ^ 23)" using that by (simp only: of_int_less_iff)
    then have "of_int ?m < pow2 23" by (simp add: pow2_def)
    then have "of_int ?m * pow2 ?q < pow2 23 * pow2 ?q" by simp
    also have "\<dots> = pow2 (23 + ?q)" by (rule pow2_add [symmetric])
    also have "23 + ?q = ilog2 \<bar>a\<bar>" using qq by simp
    finally show False using b m by simp
  qed
  then show ?thesis using mp ml m q il by (intro exI [of _ ?m]) auto
qed

text \<open>\<open>from_bits\<close> undoes \<open>to_bits\<close>.\<close>

lemma bits_fields:
  assumes "0 \<le> e" "e < 256" "0 \<le> m" "m < 2 ^ 23" "w = (of_int ((if s then 2 ^ 31 else 0) + e * 2 ^ 23 + m) :: u32)"
  shows "bit w 31 = s" "uint (drop_bit 23 w AND 255) = e" "uint (w AND 0x7FFFFF) = m"
proof -
  let ?n = "(if s then 2 ^ 31 else 0) + e * 2 ^ 23 + m"
  have n: "0 \<le> ?n" "?n < 2 ^ 32" using assms by auto
  have u: "uint w = ?n" using n assms(5) by (simp add: uint_word_of_int take_bit_eq_mod del: of_int_add of_int_mult)
  have d: "?n div 2 ^ 23 = (if s then 256 else 0) + e" using assms by auto
  have d31: "?n div 2 ^ 31 = (if s then 1 else 0)" using assms by auto
  have "bit w 31 \<longleftrightarrow> bit (uint w) 31" by (simp add: bit_uint_iff)
  also have "\<dots> \<longleftrightarrow> odd (?n div 2 ^ 31)" unfolding u by (rule bit_iff_odd)
  finally show "bit w 31 = s" unfolding d31 by simp
  have uint_drop: "uint (drop_bit 23 w) = drop_bit 23 (uint w)"
    using take_bit_int_eq_self [of "uint w" 32] uint_lt2p [of w] by (simp add: unsigned_drop_bit_eq)
  have mk: "(255 :: int) = mask 8" "(0x7FFFFF :: int) = mask 23" by (simp_all add: mask_eq_exp_minus_1)
  have "uint (drop_bit 23 w AND 255) = uint (drop_bit 23 w) AND uint (255 :: u32)" by (rule uint_and)
  also have "\<dots> = (uint w div 2 ^ 23) AND 255" unfolding uint_drop unfolding drop_bit_eq_div by simp
  also have "\<dots> = ((if s then 256 else 0) + e) mod 2 ^ 8"
    unfolding u d mk by (simp add: take_bit_eq_mask [symmetric] take_bit_eq_mod)
  finally show "uint (drop_bit 23 w AND 255) = e" using assms by auto
  have "uint (w AND 0x7FFFFF) = uint w AND 0x7FFFFF" by (simp add: uint_and)
  also have "\<dots> = ?n mod 2 ^ 23" unfolding u mk by (simp add: take_bit_eq_mask [symmetric] take_bit_eq_mod)
  also have "?n = m + 2 ^ 23 * ((if s then 256 else 0) + e)" by simp
  also have "\<dots> mod 2 ^ 23 = m" using assms(3,4) by (simp only: mod_mult_self2 mod_pos_pos_trivial)
  finally show "uint (w AND 0x7FFFFF) = m" .
qed

lemma bits_roundtrip:
  assumes "in_format b32 x"
  shows "f32_of_bits (bits_of_f32 x) = x"
proof (cases x)
  case (Fin a)
  show ?thesis
  proof (cases "a = 0")
    case True
    have "f32_of_bits 0 = Fin 0" by code_simp
    then show ?thesis using Fin True by (simp add: bits_of_f32_def)
  next
    case False
    let ?q = "quantum b32 a" and ?s = "a < 0"
    from assms Fin have "is_float b32 a" by simp
    then obtain m where m: "0 < m" "m < 2 ^ 24" "\<bar>a\<bar> = of_int m * pow2 ?q" "-149 \<le> ?q" "?q \<le> 104"
        "m < 2 ^ 23 \<Longrightarrow> ?q = -149"
      using quantum_float False by blast
    have r: "rne (\<bar>a\<bar> / pow2 ?q) = m" using m(3) by simp
    have av: "a = (if ?s then - (of_int m * pow2 ?q) else of_int m * pow2 ?q)" using m(3) by auto
    show ?thesis
    proof (cases "m < 2 ^ 23")
      case True
      define w :: u32 where "w = of_int ((if ?s then 2 ^ 31 else 0) + 0 * 2 ^ 23 + m)"
      have w: "bits_of_f32 x = w" using Fin False True r by (simp add: bits_of_f32_def Let_def w_def)
      note f = bits_fields [of 0 m w ?s, OF _ _ _ True w_def]
      have "f32_of_bits w = Fin (if ?s then - (of_int m * pow2 (-149)) else of_int m * pow2 (-149))"
        using m(1) f by (simp add: f32_of_bits_def Let_def)
      then have "f32_of_bits w = Fin a" using av unfolding m(6) [OF True] by simp
      then show ?thesis unfolding w by (simp add: Fin)
    next
      case nsub: False
      define w :: u32 where "w = of_int ((if ?s then 2 ^ 31 else 0) + (?q + 150) * 2 ^ 23 + (m - 2 ^ 23))"
      have eq: "(if ?s then 2 ^ 31 else 0) + ((?q + 149) * 2 ^ 23 + m)
          = (if ?s then 2 ^ 31 else 0) + (?q + 150) * 2 ^ 23 + (m - 2 ^ 23)" by simp
      have w: "bits_of_f32 x = w" using Fin False nsub r eq by (simp only: bits_of_f32_def Let_def w_def fl.case if_False)
      have f: "bit w 31 = ?s" "uint (drop_bit 23 w AND 255) = ?q + 150" "uint (w AND 0x7FFFFF) = m - 2 ^ 23"
        using bits_fields [OF _ _ _ _ w_def] m(2,4,5) nsub by simp_all
      have "f32_of_bits w = Fin (if ?s then - (of_int m * pow2 ?q) else of_int m * pow2 ?q)"
        using m(4,5) f by (simp add: f32_of_bits_def Let_def)
      then show ?thesis using w Fin av by simp
    qed
  qed
next
  case NaN
  have "f32_of_bits (bits_of_f32 NaN) = NaN" by code_simp
  with NaN show ?thesis by simp
next
  case PInf
  have "f32_of_bits (bits_of_f32 PInf) = PInf" by code_simp
  with PInf show ?thesis by simp
next
  case NInf
  have "f32_of_bits (bits_of_f32 NInf) = NInf" by code_simp
  with NInf show ?thesis by simp
qed

end
