(* ===== verification/Senders.thy ===== *)
theory Senders imports Tracking OscBridge FloatBits begin

text \<open>
  The simulator's data sources and its OSC receiver (\<open>simulator/tracking_sender.rs\<close>,
  \<open>simulator/face_sender.rs\<close>, \<open>simulator/osc_loopback.rs\<close>) and the engine's OSC encoding
  (\<open>encode_osc_float\<close> of \<open>face_tracking/osc_bridge.rs\<close>): what the engine and the mock headset
  say to each other about poses, controllers and blendshapes is read back on the other side.
  Sockets and timers are left out; \<open>sin\<close> is a parameter.
\<close>

section \<open>Head pose and controllers\<close>

datatype pose_mode =
  Still tracking_data "controller_state option" "controller_state option"
| SineWave tracking_data fl fl "controller_state option" "controller_state option"

definition default_head :: tracking_data where
  "default_head = \<lparr>td_position = map bits_of_f32 [Fin 0, f32_lit (16 / 10), Fin 0],
     td_orientation = map bits_of_f32 [Fin 0, Fin 0, Fin 0, Fin 1],
     td_timestamp_ns = 0, td_gaze_x = bits_of_f32 (Fin (1 / 2)), td_gaze_y = bits_of_f32 (Fin (1 / 2)), td_gaze_valid = 0\<rparr>"

definition still_origin :: pose_mode where
  "still_origin = Still default_head None None"

text \<open>\<open>std::f64::consts::PI\<close>, and the phase of a sine of \<open>hz\<close> after \<open>t_ns\<close>.\<close>

definition PI64 :: fl where "PI64 = Fin (884279719003555 / 281474976710656)"

definition sine_phase :: "u64 \<Rightarrow> fl \<Rightarrow> fl" where
  "sine_phase t_ns hz =
     (let secs = f_div b64 (rnd b64 (of_int (uint t_ns))) (Fin 1000000000)
      in f_mul b64 (f_mul b64 (f_mul b64 (Fin 2) PI64) hz) secs)"

definition pose_sample ::
    "(fl \<Rightarrow> fl) \<Rightarrow> pose_mode \<Rightarrow> u64 \<Rightarrow> tracking_data \<times> controller_state option \<times> controller_state option" where
  "pose_sample sin_of mode t_ns =
     (case mode of
        Still head left right \<Rightarrow> (head\<lparr>td_timestamp_ns := t_ns\<rparr>, left, right)
      | SineWave base amp_m hz left right \<Rightarrow>
          let dy = f32_of_f64 (f_mul b64 amp_m (sin_of (sine_phase t_ns hz)));
              y = bits_of_f32 (f_add b32 (f32_of_bits (td_position base ! 1)) dy)
          in (base\<lparr>td_timestamp_ns := t_ns, td_position := (td_position base)[1 := y]\<rparr>, left, right))"

definition encode_head_pose :: "tracking_data \<Rightarrow> bytes" where
  "encode_head_pose td =
     [PACKET_HEAD_POSE] @ u64_le (td_timestamp_ns td) @ concat (map u32_le (td_position td))
     @ concat (map u32_le (td_orientation td))
     @ (if td_gaze_valid td \<noteq> 0 then u32_le (td_gaze_x td) @ u32_le (td_gaze_y td) @ [td_gaze_valid td] else [])"

definition encode_controller :: "controller_state \<Rightarrow> bytes" where
  "encode_controller cs =
     [PACKET_CONTROLLER, ct_controller_id cs] @ u64_le (ct_timestamp_ns cs)
     @ concat (map u32_le (ct_position cs)) @ concat (map u32_le (ct_orientation cs))
     @ u32_le (ct_trigger cs) @ u32_le (ct_grip cs) @ u32_le (ct_thumbstick_x cs) @ u32_le (ct_thumbstick_y cs)
     @ u32_le (ct_button_flags cs) @ [ct_battery_level cs]"

text \<open>The packets of one tick of \<open>TrackingSender::run\<close>.\<close>

definition tracking_tick :: "(fl \<Rightarrow> fl) \<Rightarrow> pose_mode \<Rightarrow> u64 \<Rightarrow> bytes list" where
  "tracking_tick sin_of mode elapsed_ns =
     (let (head, left, right) = pose_sample sin_of mode elapsed_ns
      in [encode_head_pose head]
         @ (case left of Some c \<Rightarrow> [encode_controller c] | None \<Rightarrow> [])
         @ (case right of Some c \<Rightarrow> [encode_controller c] | None \<Rightarrow> []))"

section \<open>Blendshapes\<close>

definition LIP_COUNT :: nat where "LIP_COUNT = 37"
definition EYE_COUNT :: nat where "EYE_COUNT = 14"
definition LIP_JAW_OPEN :: nat where "LIP_JAW_OPEN = 3"
definition LIP_SMILE_RIGHT :: nat where "LIP_SMILE_RIGHT = 12"
definition LIP_SMILE_LEFT :: nat where "LIP_SMILE_LEFT = 13"
definition LIP_SAD_RIGHT :: nat where "LIP_SAD_RIGHT = 14"
definition LIP_SAD_LEFT :: nat where "LIP_SAD_LEFT = 15"
definition EYE_LEFT_BLINK :: nat where "EYE_LEFT_BLINK = 0"
definition EYE_RIGHT_BLINK :: nat where "EYE_RIGHT_BLINK = 2"

datatype face_mode = Relax | Exaggerate | SineSweep fl | Blink fl | Talk fl | Smile fl | Frown fl

definition unit_sine :: "(fl \<Rightarrow> fl) \<Rightarrow> u64 \<Rightarrow> fl \<Rightarrow> fl" where
  "unit_sine sin_of t_ns hz =
     f32_of_f64 (f_add b64 (f_mul b64 (sin_of (sine_phase t_ns hz)) (Fin (1 / 2))) (Fin (1 / 2)))"

fun next_face_sample :: "(fl \<Rightarrow> fl) \<Rightarrow> face_mode \<Rightarrow> u64 \<Rightarrow> bool \<times> bool \<times> fl list \<times> fl list" where
  "next_face_sample sin_of Relax t = (True, True, replicate LIP_COUNT (Fin 0), replicate EYE_COUNT (Fin 0))"
| "next_face_sample sin_of Exaggerate t = (True, True, replicate LIP_COUNT (Fin 1), replicate EYE_COUNT (Fin 1))"
| "next_face_sample sin_of (SineSweep hz) t =
     (let v = unit_sine sin_of t hz in (True, True, replicate LIP_COUNT v, replicate EYE_COUNT v))"
| "next_face_sample sin_of (Blink hz) t =
     (let v = unit_sine sin_of t hz
      in (True, True, replicate LIP_COUNT (Fin 0), (replicate EYE_COUNT (Fin 0))[EYE_LEFT_BLINK := v, EYE_RIGHT_BLINK := v]))"
| "next_face_sample sin_of (Talk hz) t =
     (True, True, (replicate LIP_COUNT (Fin 0))[LIP_JAW_OPEN := f_mul b32 (unit_sine sin_of t hz) (f32_lit (7 / 10))],
      replicate EYE_COUNT (Fin 0))"
| "next_face_sample sin_of (Smile intensity) t =
     (let v = f_clamp (Fin 0) (Fin 1) intensity
      in (True, True, (replicate LIP_COUNT (Fin 0))[LIP_SMILE_RIGHT := v, LIP_SMILE_LEFT := v], replicate EYE_COUNT (Fin 0)))"
| "next_face_sample sin_of (Frown intensity) t =
     (let v = f_clamp (Fin 0) (Fin 1) intensity
      in (True, True, (replicate LIP_COUNT (Fin 0))[LIP_SAD_RIGHT := v, LIP_SAD_LEFT := v], replicate EYE_COUNT (Fin 0)))"

definition encode_face_data :: "bool \<Rightarrow> bool \<Rightarrow> fl list \<Rightarrow> fl list \<Rightarrow> bytes" where
  "encode_face_data lip_valid eye_valid lip eye =
     [if lip_valid then 1 else 0, if eye_valid then 1 else 0]
     @ concat (map (\<lambda>v. u32_le (bits_of_f32 v)) lip) @ concat (map (\<lambda>v. u32_le (bits_of_f32 v)) eye)"

section \<open>OSC\<close>

text \<open>The type tag string \<open>,f\<close>, padded.\<close>

definition OSC_FLOAT_TAG :: bytes where "OSC_FLOAT_TAG = [0x2C, 0x66, 0, 0]"

text \<open>The layout of a message; \<open>encode_osc_float\<close> produces it (\<open>osc_datagram_bytes\<close>).\<close>

definition osc_bytes :: "bytes \<Rightarrow> u32 \<Rightarrow> bytes" where
  "osc_bytes address val =
     (let msg = address @ [0]; msg = msg @ replicate ((4 - length msg mod 4) mod 4) 0
      in msg @ OSC_FLOAT_TAG @ u32_be val)"

text \<open>\<open>str::from_utf8\<close>: the well-formed sequences of the Unicode standard.\<close>

definition cont_byte :: "u8 \<Rightarrow> bool" where "cont_byte b \<longleftrightarrow> 0x80 \<le> b \<and> b \<le> 0xBF"

fun utf8_valid :: "bytes \<Rightarrow> bool" where
  "utf8_valid [] = True"
| "utf8_valid (b # bs) =
     (if b < 0x80 then utf8_valid bs
      else if 0xC2 \<le> b \<and> b \<le> 0xDF then (case bs of c # r \<Rightarrow> cont_byte c \<and> utf8_valid r | _ \<Rightarrow> False)
      else if 0xE0 \<le> b \<and> b \<le> 0xEF then
        (case bs of c # d # r \<Rightarrow> cont_byte c \<and> cont_byte d \<and> (b = 0xE0 \<longrightarrow> 0xA0 \<le> c) \<and> (b = 0xED \<longrightarrow> c \<le> 0x9F) \<and> utf8_valid r
         | _ \<Rightarrow> False)
      else if 0xF0 \<le> b \<and> b \<le> 0xF4 then
        (case bs of c # d # e # r \<Rightarrow> cont_byte c \<and> cont_byte d \<and> cont_byte e \<and> (b = 0xF0 \<longrightarrow> 0x90 \<le> c)
            \<and> (b = 0xF4 \<longrightarrow> c \<le> 0x8F) \<and> utf8_valid r
         | _ \<Rightarrow> False)
      else False)"

definition parse_osc_float :: "bytes \<Rightarrow> (bytes \<times> u32) option" where
  "parse_osc_float buf =
     (let addr_end = length (takeWhile (\<lambda>b. b \<noteq> 0) buf) in
      if addr_end = length buf then None
      else let addr = take addr_end buf in
        if \<not> utf8_valid addr then None
        else let after_addr = (addr_end + 4) div 4 * 4 in
          if length buf < after_addr + 8 then None
          else if sub_range buf after_addr (after_addr + 4) \<noteq> OSC_FLOAT_TAG then None
          else Some (addr, u32_of_be (sub_range buf (after_addr + 4) (after_addr + 8))))"

text \<open>The capture: for each address the values received, in order.\<close>

definition osc_receive :: "bytes \<Rightarrow> (bytes \<Rightarrow> u32 list) \<Rightarrow> bytes \<Rightarrow> u32 list" where
  "osc_receive buf captured =
     (case parse_osc_float (take 2048 buf) of
        Some (addr, val) \<Rightarrow> captured(addr := captured addr @ [val])
      | None \<Rightarrow> captured)"

definition osc_capture :: "bytes list \<Rightarrow> bytes \<Rightarrow> u32 list" where
  "osc_capture bufs = fold osc_receive bufs (\<lambda>_. [])"

section \<open>What is sent is received\<close>

definition pose_shape :: "tracking_data \<Rightarrow> bool" where
  "pose_shape td \<longleftrightarrow> length (td_position td) = 3 \<and> length (td_orientation td) = 4"

definition controller_shape :: "controller_state \<Rightarrow> bool" where
  "controller_shape c \<longleftrightarrow> length (ct_position c) = 3 \<and> length (ct_orientation c) = 4"

lemma list3E: "length xs = 3 \<Longrightarrow> \<exists>a b c. xs = [a, b, c]"
  by (cases xs; cases "tl xs"; cases "tl (tl xs)") auto

lemma list4E: "length xs = 4 \<Longrightarrow> \<exists>a b c d. xs = [a, b, c, d]"
  by (cases xs; cases "tl xs"; cases "tl (tl xs)"; cases "tl (tl (tl xs))") auto

lemma f32_at_skip: "length ys = n \<Longrightarrow> n \<le> i \<Longrightarrow> f32_at (ys @ zs) i = f32_at zs (i - n)"
  by (simp add: f32_at_def sub_range_append_skip)

lemma f32_at_le: "f32_at (u32_le w @ zs) 0 = w" "f32_at (u32_le w) 0 = w"
  "4 \<le> i \<Longrightarrow> f32_at (u32_le w @ zs) i = f32_at zs (i - 4)"
  by (simp_all add: f32_at_def sub_range_append_take sub_range_append_skip c32le.length_enc c32le.dec_enc
      sub_range_append_take [where zs = "[]", simplified])

lemma head_pose_parsed:
  assumes "pose_shape td"
  shows "parse_head_pose (tl (encode_head_pose td)) =
     Some (if td_gaze_valid td = 0 then td\<lparr>td_gaze_x := GAZE_CENTER, td_gaze_y := GAZE_CENTER\<rparr> else td)"
proof -
  obtain a b c where p: "td_position td = [a, b, c]" using assms list3E [of "td_position td"] unfolding pose_shape_def by blast
  obtain x y z w where o: "td_orientation td = [x, y, z, w]" using assms list4E [of "td_orientation td"] unfolding pose_shape_def by blast
  show ?thesis
    by (cases td; cases "td_gaze_valid td = 0")
      (use p o in \<open>simp_all add: parse_head_pose_def encode_head_pose_def f32_at_skip [of _ 8] f32_at_le
        c64le.length_enc c32le.length_enc c64le.dec_enc sub_range_append_take nth_append\<close>)
qed

lemma controller_parsed:
  assumes "controller_shape c"
  shows "parse_controller (tl (encode_controller c)) = Some c"
proof -
  obtain a b d where p: "ct_position c = [a, b, d]" using assms list3E [of "ct_position c"] unfolding controller_shape_def by blast
  obtain x y z w where o: "ct_orientation c = [x, y, z, w]" using assms list4E [of "ct_orientation c"] unfolding controller_shape_def by blast
  show ?thesis
    by (cases c)
      (use p o in \<open>simp_all add: parse_controller_def encode_controller_def f32_at_skip [of "[_]" 1, simplified] f32_at_skip [of _ 8] f32_at_le
        c64le.length_enc c32le.length_enc c64le.dec_enc nth_append sub_range_def\<close>)
qed

lemma encode_lengths:
  "pose_shape td \<Longrightarrow> length (encode_head_pose td) \<le> 46"
  "controller_shape c \<Longrightarrow> length (encode_controller c) = 59"
  by (auto simp: encode_head_pose_def encode_controller_def pose_shape_def controller_shape_def
      c32le.length_concat_enc c64le.length_enc c32le.length_enc)

lemma encode_types:
  "encode_head_pose td = PACKET_HEAD_POSE # tl (encode_head_pose td)"
  "encode_controller c = PACKET_CONTROLLER # tl (encode_controller c)"
  by (simp_all add: encode_head_pose_def encode_controller_def)

text \<open>
  The synthetic headset's datagrams from the paired address, whatever its IPv6 form, are what the engine
  then holds: the head pose bit for bit, with the gaze if it is valid and a centred one otherwise, and
  the controller in its slot with the time of arrival; a controller id other than 0 and 1 changes nothing.
\<close>
theorem synthetic_tracking_received:
  assumes "pose_shape td" and "controller_shape c" and "to_canonical ip = to_canonical src"
  shows "tk_head (recv_step (Some ip) now (Datagram src (encode_head_pose td)) s) =
      Some (if td_gaze_valid td = 0 then td\<lparr>td_gaze_x := GAZE_CENTER, td_gaze_y := GAZE_CENTER\<rparr> else td)
    \<and> tk_controllers (recv_step (Some ip) now (Datagram src (encode_controller c)) s) =
      (if unat (ct_controller_id c) < 2 then (tk_controllers s)[unat (ct_controller_id c) := Some (c, now)]
       else tk_controllers s)"
proof -
  have t: "take 2048 (encode_head_pose td) = encode_head_pose td" "take 2048 (encode_controller c) = encode_controller c"
    using encode_lengths(1) [OF assms(1)] encode_lengths(2) [OF assms(2)] by simp_all
  have pair: "is_paired_hmd (Some ip) src" using assms(3) by (simp add: is_paired_hmd_def)
  have h: "accept_packet now (encode_head_pose td) s = (case parse_head_pose (tl (encode_head_pose td)) of None \<Rightarrow> s
      | Some d \<Rightarrow> (if td_gaze_valid d \<noteq> 0 then s\<lparr>tk_gaze := tk_gaze s @ [(td_gaze_x d, td_gaze_y d)]\<rparr> else s)\<lparr>tk_head := Some d\<rparr>)"
    by (subst encode_types(1)) (simp add: accept_packet_def Let_def split: option.split)
  have k: "accept_packet now (encode_controller c) s = (case parse_controller (tl (encode_controller c)) of None \<Rightarrow> s
      | Some d \<Rightarrow> if unat (ct_controller_id d) < 2
          then s\<lparr>tk_controllers := (tk_controllers s)[unat (ct_controller_id d) := Some (d, now)]\<rparr> else s)"
    by (subst encode_types(2)) (simp add: accept_packet_def PACKET_HEAD_POSE_def PACKET_CONTROLLER_def Let_def split: option.split)
  show ?thesis
    using pair by (simp add: recv_step_def t h k head_pose_parsed [OF assms(1)] controller_parsed [OF assms(2)])
qed

definition sample_controller :: controller_state where
  "sample_controller = \<lparr>ct_controller_id = 1, ct_timestamp_ns = 7, ct_position = [1, 2, 3], ct_orientation = [4, 5, 6, 7],
     ct_trigger = 8, ct_grip = 9, ct_thumbstick_x = 10, ct_thumbstick_y = 11, ct_button_flags = 12, ct_battery_level = 80\<rparr>"

theorem synthetic_tracking_received_witness:
  "tk_head (recv_step (Some (V4 0x0A000002)) 5 (Datagram (V6 0xFFFF0A000002) (encode_head_pose default_head)) tracking_new)
     = Some (default_head\<lparr>td_gaze_x := GAZE_CENTER, td_gaze_y := GAZE_CENTER\<rparr>)
   \<and> tk_controllers (recv_step (Some (V4 0x0A000002)) 5 (Datagram (V6 0xFFFF0A000002) (encode_controller sample_controller)) tracking_new)
     = [None, Some (sample_controller, 5)]"
proof -
  have s: "pose_shape default_head" "controller_shape sample_controller"
    by (simp_all add: pose_shape_def controller_shape_def default_head_def sample_controller_def)
  have c: "to_canonical (V4 0x0A000002) = to_canonical (V6 0xFFFF0A000002)" by code_simp
  show ?thesis
    using synthetic_tracking_received [OF s c, of 5 tracking_new]
    by (simp add: default_head_def sample_controller_def tracking_new_def)
qed

section \<open>Blendshapes and OSC\<close>

lemma face_data_fields:
  assumes "length lip = 37" and "length eye = 14"
  shows "parse_face_data (encode_face_data lv ev lip eye) =
     Some (lv, ev, map (\<lambda>v. f32_of_bits (bits_of_f32 v)) lip, map (\<lambda>v. f32_of_bits (bits_of_f32 v)) eye)"
proof -
  let ?b = "map bits_of_f32 (lip @ eye)" and ?d = "encode_face_data lv ev lip eye"
  have d: "?d = [if lv then 1 else 0, if ev then 1 else 0] @ concat (map u32_le ?b) @ []"
    by (simp add: encode_face_data_def comp_def)
  have len: "length ?b = 51" using assms by simp
  have "length ?d = 2 + 4 * length ?b"
    unfolding d by (simp only: length_append c32le.length_concat_enc list.size)
  then have l: "length ?d = 206" using len by simp
  have at: "f32_at ?d (2 + i * 4) = ?b ! i" if "i < 51" for i
    unfolding f32_at_def d using c32le.dec_field_at [of i ?b "[]"] that len
    by (subst sub_range_append_skip [where n = 2]) (simp_all add: ac_simps del: map_append)
  have f: "f32_from ?d (2 + k * 4) n = map f32_of_bits (take n (drop k ?b))" if "k + n \<le> 51" for k n
  proof (rule nth_equalityI)
    show "length (f32_from ?d (2 + k * 4) n) = length (map f32_of_bits (take n (drop k ?b)))"
      using that len by (simp add: f32_from_def del: map_append)
    fix i
    assume i: "i < length (f32_from ?d (2 + k * 4) n)"
    then have "f32_from ?d (2 + k * 4) n ! i = f32_of_bits (f32_at ?d (2 + (k + i) * 4))"
      by (simp add: f32_from_def algebra_simps)
    then show "f32_from ?d (2 + k * 4) n ! i = map f32_of_bits (take n (drop k ?b)) ! i"
      using i that len at [of "k + i"] by (simp add: f32_from_def del: map_append)
  qed
  have h: "?d ! 0 = (if lv then 1 else 0)" "?d ! 1 = (if ev then 1 else 0)" by (simp_all add: encode_face_data_def)
  show ?thesis
    using f [of 0 37] f [of 37 14] assms h l by (simp add: parse_face_data_def comp_def)
qed

text \<open>\<open>format!("/avatar/parameters/{}", name)\<close>, as bytes.\<close>

definition osc_key :: "string \<Rightarrow> bytes" where
  "osc_key name = map of_char (osc_address name)"

text \<open>What the bridge puts on the wire.\<close>

definition osc_datagram :: "string \<times> fl \<Rightarrow> bytes" where
  "osc_datagram m = encode_osc_float (osc_address (fst m)) (snd m)"

lemma osc_datagram_bytes: "osc_datagram m = osc_bytes (osc_key (fst m)) (bits_of_f32 (snd m))"
  by (simp add: osc_datagram_def encode_osc_float_def osc_bytes_def osc_key_def pad4_def OSC_FLOAT_TAG_def Let_def)

lemma length_encode_osc: "length (osc_bytes a v) = (length a + 4) div 4 * 4 + 8"
proof -
  have "n + (4 - n mod 4) mod 4 = (n + 3) div 4 * 4" for n :: nat
  proof -
    define q r where "q = n div 4" and "r = n mod 4"
    then have n: "n = 4 * q + r" "r < 4" "n mod 4 = r" by simp_all
    have d: "(n + 3) div 4 = q + (r + 3) div 4" unfolding n(1) by (simp add: add.assoc)
    consider "r = 0" | "r = 1" | "r = 2" | "r = 3" using n(2) by linarith
    then show ?thesis unfolding d n(3) by cases (simp_all add: n(1))
  qed
  from this [of "length a + 1"] show ?thesis
    by (simp add: osc_bytes_def Let_def OSC_FLOAT_TAG_def c32be.length_enc add.assoc)
qed

lemma osc_parsed:
  assumes "utf8_valid a" and "0 \<notin> set a"
  shows "parse_osc_float (osc_bytes a v) = Some (a, v)"
proof -
  define z where "z = replicate ((4 - (length a + 1) mod 4) mod 4) (0 :: u8)"
  have e: "osc_bytes a v = a @ 0 # z @ OSC_FLOAT_TAG @ u32_be v"
    by (simp add: osc_bytes_def Let_def z_def)
  have tw: "takeWhile (\<lambda>b. b \<noteq> 0) (osc_bytes a v) = a"
    unfolding e using assms(2) by (subst takeWhile_append2) auto
  have n: "length a + 1 + length z = (length a + 4) div 4 * 4"
    using length_encode_osc [of a v] by (simp add: e OSC_FLOAT_TAG_def c32be.length_enc)
  have s: "osc_bytes a v = (a @ 0 # z) @ OSC_FLOAT_TAG @ u32_be v" by (simp add: e)
  let ?n = "(length a + 4) div 4 * 4"
  have l: "length (a @ 0 # z) = ?n" using n by simp
  have g: "sub_range (osc_bytes a v) ?n (?n + 4) = OSC_FLOAT_TAG"
    unfolding s by (subst sub_range_append_skip [OF l]) (simp_all add: sub_range_def OSC_FLOAT_TAG_def)
  have w: "sub_range (osc_bytes a v) (?n + 4) (?n + 8) = u32_be v"
    unfolding s by (subst sub_range_append_skip [OF l]) (simp_all add: sub_range_def OSC_FLOAT_TAG_def c32be.length_enc)
  have t: "take (length a) (osc_bytes a v) = a" by (simp add: e)
  have len: "length (osc_bytes a v) = ?n + 8" by (rule length_encode_osc)
  have ne: "length a \<noteq> length (osc_bytes a v)" unfolding len by presburger
  show ?thesis
    unfolding parse_osc_float_def Let_def tw t g w len using assms(1) ne by (simp add: len c32be.dec_enc)
qed

lemma name_bytes: "list_all (\<lambda>n. list_all (\<lambda>c. 0 < (of_char c :: u8) \<and> (of_char c :: u8) < 0x80) n \<and> length n \<le> 40) (LIP_NAMES @ EYE_NAMES)"
  by code_simp

lemma utf8_valid_ascii: "list_all (\<lambda>b. b < 0x80) a \<Longrightarrow> utf8_valid a"
  by (induction a) simp_all

lemma osc_address_ok:
  assumes "n \<in> set (LIP_NAMES @ EYE_NAMES)"
  shows "utf8_valid (osc_key n)" "0 \<notin> set (osc_key n)" "length (osc_key n) \<le> 59"
proof -
  have p: "list_all (\<lambda>c. 0 < (of_char c :: u8) \<and> (of_char c :: u8) < 0x80) ''/avatar/parameters/''" by code_simp
  have "list_all (\<lambda>c. 0 < (of_char c :: u8) \<and> (of_char c :: u8) < 0x80) n \<and> length n \<le> 40"
    using name_bytes assms unfolding list_all_iff [where P = "\<lambda>n. _ n \<and> _ n"] by blast
  with p have a: "list_all (\<lambda>b. 0 < b \<and> b < 0x80) (osc_key n)" "length (osc_key n) \<le> 59"
    by (simp_all add: osc_key_def osc_address_def list.pred_map comp_def)
  then show "length (osc_key n) \<le> 59" by simp
  show "utf8_valid (osc_key n)" using a(1) by (intro utf8_valid_ascii) (simp add: list_all_iff)
  show "0 \<notin> set (osc_key n)" using a(1) by (auto simp: list_all_iff)
qed

lemma osc_receive_sent:
  assumes "fst m \<in> set (LIP_NAMES @ EYE_NAMES)"
  shows "osc_receive (osc_datagram m) captured =
     captured(osc_key (fst m) := captured (osc_key (fst m)) @ [bits_of_f32 (snd m)])"
proof -
  note a = osc_address_ok [OF assms]
  have "(length (osc_key (fst m)) + 4) div 4 * 4 + 8 \<le> 2048" using a(3) by linarith
  then have "take 2048 (osc_datagram m) = osc_datagram m"
    by (simp add: osc_datagram_bytes length_encode_osc)
  then show ?thesis by (simp add: osc_receive_def osc_datagram_bytes osc_parsed [OF a(1,2)])
qed

lemma osc_address_inj: "osc_key m = osc_key n \<longleftrightarrow> m = n"
proof -
  have "inj (of_char :: char \<Rightarrow> u8)"
  proof (rule injI)
    fix c d :: char
    assume "(of_char c :: u8) = of_char d"
    then have "unat (of_nat (of_char c) :: u8) = unat (of_nat (of_char d) :: u8)"
      by (simp only: of_nat_of_char)
    then have "(of_char c :: nat) mod 256 = of_char d mod 256" by (simp only: unat_of_nat) simp
    then have "(of_char c :: nat) = of_char d" by (simp only: of_char_mod_256)
    then show "c = d" by simp
  qed
  then show ?thesis by (simp add: osc_key_def osc_address_def inj_map_eq_map)
qed

lemma osc_capture_fold:
  "list_all (\<lambda>m. fst m \<in> set (LIP_NAMES @ EYE_NAMES)) ms \<Longrightarrow>
   fold osc_receive (map osc_datagram ms) captured (osc_key n) =
     captured (osc_key n) @ map (bits_of_f32 \<circ> snd) (filter (\<lambda>m. fst m = n) ms)"
proof (induction ms arbitrary: captured)
  case Nil
  then show ?case by simp
next
  case (Cons m ms)
  then have m: "fst m \<in> set (LIP_NAMES @ EYE_NAMES)" by simp
  show ?case using Cons by (simp add: osc_receive_sent [OF m] osc_address_inj del: set_append)
qed

text \<open>
  Whatever the engine's bridge sends for its parameters, in any order and number, the loopback
  captures under each parameter's address exactly the values sent for it, bit for bit and in order;
  the synthetic face payload is parsed to exactly the values encoded in it.
\<close>
theorem osc_capture_exact:
  assumes "list_all (\<lambda>m. fst m \<in> set (LIP_NAMES @ EYE_NAMES)) ms"
    and "length lip = 37" "length eye = 14" and "list_all (in_format b32) (lip @ eye)"
  shows "osc_capture (map osc_datagram ms) (osc_key n) = map (bits_of_f32 \<circ> snd) (filter (\<lambda>m. fst m = n) ms)
    \<and> parse_face_data (encode_face_data lv ev lip eye) = Some (lv, ev, lip, eye)"
proof -
  have "map (\<lambda>v. f32_of_bits (bits_of_f32 v)) xs = xs" if "list_all (in_format b32) xs" for xs
    using that by (simp add: map_idI list_all_iff bits_roundtrip)
  then show ?thesis
    using assms(4) face_data_fields [OF assms(2,3)] osc_capture_fold [OF assms(1)] by (simp add: osc_capture_def)
qed

theorem osc_capture_exact_witness:
  "osc_capture (map osc_datagram [(''JawOpen'', Fin 1), (''JawLeft'', Fin (1 / 2)), (''JawOpen'', Fin 0)]) (osc_key ''JawOpen'')
     = [0x3F800000, 0]
   \<and> parse_face_data (encode_face_data True False (replicate 37 (Fin 1)) (replicate 14 (Fin 0)))
     = Some (True, False, replicate 37 (Fin 1), replicate 14 (Fin 0))"
proof -
  have n: "list_all (\<lambda>m. fst m \<in> set (LIP_NAMES @ EYE_NAMES))
      [(''JawOpen'', Fin 1), (''JawLeft'', Fin (1 / 2)), (''JawOpen'', Fin 0)]" by code_simp
  have f: "list_all (in_format b32) (replicate 37 (Fin 1) @ replicate 14 (Fin 0))" by (simp add: list_all_iff)
  have b: "map (bits_of_f32 \<circ> snd) (filter (\<lambda>m. fst m = ''JawOpen'')
      [(''JawOpen'', Fin 1), (''JawLeft'', Fin (1 / 2)), (''JawOpen'', Fin 0)]) = [0x3F800000, 0]" by code_simp
  have l: "length (replicate 37 (Fin 1)) = 37" "length (replicate 14 (Fin 0)) = 14" by simp_all
  show ?thesis
    using osc_capture_exact [OF n l f, where n = "''JawOpen''" and lv = True and ev = False] unfolding b .
qed

end
