(* ===== verification/MockClient.thy ===== *)
theory MockClient imports Handshake Reassembly ControlChannel Senders begin

text \<open>
  The simulator's mock headset (\<open>simulator/mod.rs\<close>): its side of the handshake, the control
  messages it reads, the packets and losses it counts, the HEARTBEATs it reports them in and the loop
  that sends those and the synthetic face data. The engine's own models stand at the other end. TCP,
  TLS, the UDP sockets and the task scheduling are inputs of the steps; a write fails when the
  connection takes no more messages.
\<close>

section \<open>Configuration\<close>

record mock_client_config =
  mc_ip :: ip_addr
  mc_tcp_port :: u16
  mc_pin :: u32
  mc_duration :: "duration option"
  mc_video_udp_port :: u16
  mc_audio_udp_port :: u16
  mc_tracking_port :: u16
  mc_heartbeat_interval :: duration
  mc_face_pattern :: "face_mode option"
  mc_face_send_interval :: duration
  mc_osc_listen_port :: "u16 option"
  mc_capture_haptic :: bool
  mc_capture_sleep_events :: bool
  mc_measure_decode_latency :: bool
  mc_receive_audio :: bool
  mc_abrupt_close :: bool
  mc_silent_after :: "duration option"
  mc_view_config :: "view_config option"

text \<open>\<open>u16\<close> additions panic past 65535.\<close>

definition port_plus :: "u16 \<Rightarrow> nat \<Rightarrow> u16 option" where
  "port_plus p n = (if unat p + n < 2 ^ 16 then Some (of_nat (unat p + n)) else None)"

definition from_ports :: "ip_addr \<Rightarrow> u16 \<Rightarrow> u16 \<Rightarrow> u32 \<Rightarrow> mock_client_config option" where
  "from_ports server_ip tcp udp pin =
     (case (port_plus udp VIDEO_PORT_OFFSET, port_plus udp AUDIO_PORT_OFFSET,
            port_plus udp TRACKING_PORT_OFFSET) of
        (Some video_port, Some audio_port, Some tracking_port) \<Rightarrow>
          Some \<lparr>mc_ip = server_ip, mc_tcp_port = tcp, mc_pin = pin, mc_duration = None,
            mc_video_udp_port = video_port, mc_audio_udp_port = audio_port, mc_tracking_port = tracking_port,
            mc_heartbeat_interval = HEARTBEAT_INTERVAL_MS * nanos_per_ms,
            mc_face_pattern = None, mc_face_send_interval = 50 * nanos_per_ms, mc_osc_listen_port = None,
            mc_capture_haptic = False, mc_capture_sleep_events = False, mc_measure_decode_latency = False,
            mc_receive_audio = False, mc_abrupt_close = False, mc_silent_after = None, mc_view_config = None\<rparr>
      | _ \<Rightarrow> None)"

section \<open>The client's side of the handshake\<close>

datatype client_error = ClientIo | ClientTls | ClientProtocol | ClientPinRejected

record client =
  cl_input :: bytes
  cl_sent :: "(u8 \<times> bytes) list"
  cl_accepts :: nat

type_synonym 'a client_step = "client \<Rightarrow> (client_error + 'a) \<times> client"

definition andDo :: "'a client_step \<Rightarrow> ('a \<Rightarrow> 'b client_step) \<Rightarrow> 'b client_step" where
  "andDo m f c = (case m c of (Inl e, c') \<Rightarrow> (Inl e, c') | (Inr a, c') \<Rightarrow> f a c')"

definition client_send :: "u8 \<Rightarrow> bytes \<Rightarrow> unit client_step" where
  "client_send msg_type payload c =
     (if length (cl_sent c) < cl_accepts c then (Inr (), c\<lparr>cl_sent := cl_sent c @ [(msg_type, payload)]\<rparr>)
      else (Inl ClientIo, c))"

definition client_read :: "(u8 \<times> bytes) client_step" where
  "client_read c =
     (let inp = cl_input c in
      if length inp < 4 then (Inl ClientIo, c)
      else let len = unat (u32_of_le (take 4 inp)); inp = drop 4 inp in
        if len = 0 \<or> MAX_MSG_LEN < len then (Inl ClientProtocol, c\<lparr>cl_input := inp\<rparr>)
        else if length inp < len then (Inl ClientIo, c)
        else (Inr (inp ! 0, drop 1 (take len inp)), c\<lparr>cl_input := drop len inp\<rparr>))"

definition client_expect :: "msg_type \<Rightarrow> bytes client_step" where
  "client_expect t = andDo client_read (\<lambda>msg c.
     if fst msg \<noteq> msg_code t then (Inl ClientProtocol, c) else (Inr (snd msg), c))"

definition client_hello :: bytes where
  "client_hello = encode_hello PROTOCOL_VERSION (CAP_RESOLUTION_SCALE OR CAP_FRAME_POSE)"

definition do_handshake :: "u32 \<Rightarrow> bool client_step" where
  "do_handshake pin =
     andDo (client_send (msg_code HELLO) client_hello) (\<lambda>_.
     andDo (client_expect HELLO_ACK) (\<lambda>_.
     andDo (client_expect PIN_REQUEST) (\<lambda>_.
     andDo (client_send (msg_code PIN_RESPONSE) (u32_le pin)) (\<lambda>_.
     andDo (client_expect PIN_RESULT) (\<lambda>payload.
     if payload = [] \<or> payload ! 0 \<noteq> 0x01 then (\<lambda>c. (Inl ClientPinRejected, c))
     else andDo (client_expect STREAM_CONFIG) (\<lambda>payload.
       let frame_pose = (26 < length payload \<and> payload ! 26 = 1) in
       andDo (client_send (msg_code STREAM_START) []) (\<lambda>_ c. (Inr frame_pose, c))))))))"

section \<open>Both ends together\<close>

definition wire :: "(u8 \<times> bytes) list \<Rightarrow> bytes" where
  "wire ms = concat (map (\<lambda>m. frame_bytes (fst m) (snd m)) ms)"

definition client_script :: "u32 \<Rightarrow> bool \<Rightarrow> (u8 \<times> bytes) list" where
  "client_script pin accepted =
     [(msg_code HELLO, client_hello), (msg_code PIN_RESPONSE, u32_le pin)]
     @ (if accepted then [(msg_code STREAM_START, [])] else [])"

lemma wire_simps [simp]: "wire [] = []" "wire (m # ms) = frame_bytes (fst m) (snd m) @ wire ms"
  by (simp_all add: wire_def)

lemma client_read_frame:
  assumes "length p < MAX_MSG_LEN" and "cl_input c = frame_bytes mt p @ rest"
  shows "client_read c = (Inr (mt, p), c\<lparr>cl_input := rest\<rparr>)"
proof -
  have u: "unat (of_nat (1 + length p) :: u32) = 1 + length p"
    using assms(1) by (intro frame_length_u32) simp
  have "take 4 (cl_input c) = u32_le (of_nat (1 + length p))"
    unfolding assms(2) by (simp add: frame_bytes_def c32le.length_enc)
  then have t: "unat (u32_of_le (take 4 (cl_input c))) = 1 + length p" by (simp only: c32le.dec_enc u)
  have d: "drop 4 (cl_input c) = mt # p @ rest" "\<not> length (cl_input c) < 4"
    unfolding assms(2) by (simp_all add: frame_bytes_def c32le.length_enc)
  have l: "\<not> (1 + length p = 0 \<or> MAX_MSG_LEN < 1 + length p)" "\<not> length (mt # p @ rest) < 1 + length p"
    using assms(1) by simp_all
  show ?thesis
    unfolding client_read_def Let_def t d(1) if_not_P [OF d(2)] if_not_P [OF l(1)] if_not_P [OF l(2)] by simp
qed

lemma client_expect_frame:
  "length p < MAX_MSG_LEN \<Longrightarrow> cl_input c = frame_bytes (msg_code t) p @ rest \<Longrightarrow>
   client_expect t c = (Inr p, c\<lparr>cl_input := rest\<rparr>)"
  by (simp add: client_expect_def andDo_def client_read_frame)

lemmas client_expect_last = client_expect_frame [where rest = "[]", unfolded append_Nil2]

definition mock_caps :: u8 where "mock_caps = CAP_RESOLUTION_SCALE OR CAP_FRAME_POSE"

lemma hello_facts: "length client_hello < MAX_MSG_LEN" "parse_hello_caps client_hello = mock_caps"
    "mock_caps AND CAP_FRAME_POSE \<noteq> 0"
proof -
  show "length client_hello < MAX_MSG_LEN" "parse_hello_caps client_hello = mock_caps"
    by (simp_all add: client_hello_def encode_hello_def parse_hello_caps_def mock_caps_def wire_consts Let_def)
  show "mock_caps AND CAP_FRAME_POSE \<noteq> 0" by code_simp
qed

definition mock_peer :: "instant \<Rightarrow> (u8 \<times> bytes) list \<Rightarrow> peer" where
  "mock_peer now ms = \<lparr>pe_input = map (Pair now) (wire ms), pe_close = None, pe_accepts = 4\<rparr>"

lemma mock_read:
  assumes "length p < MAX_MSG_LEN" and "hs_now h = now" and "hs_peer h = mock_peer now ((mt, p) # ms)"
  shows "read_step_message limit h = (Inr (mt, p), h\<lparr>hs_peer := mock_peer now ms\<rparr>)"
proof -
  have m: "map snd (pe_input (hs_peer h)) = frame_bytes mt p @ wire ms"
    unfolding assms(3) by (simp add: mock_peer_def comp_def)
  have "drop (5 + length p) (pe_input (hs_peer h)) = map (Pair now) (drop (5 + length p) (frame_bytes mt p @ wire ms))"
    unfolding assms(3) by (simp add: mock_peer_def drop_map)
  then have d: "drop (5 + length p) (pe_input (hs_peer h)) = map (Pair now) (wire ms)" by simp
  have "\<forall>a\<in>set (pe_input (hs_peer h)). fst a \<le> hs_now h" using assms(2) unfolding assms(3) by (auto simp: mock_peer_def)
  from read_ready [OF assms(1) m this] show ?thesis unfolding d unfolding assms(3) by (simp add: mock_peer_def)
qed

definition server_answers :: "server \<Rightarrow> bool \<Rightarrow> (u8 \<times> bytes) list" where
  "server_answers sv accepted =
     [(msg_code HELLO_ACK, encode_version PROTOCOL_VERSION), (msg_code PIN_REQUEST, []),
      (msg_code PIN_RESULT, [if accepted then 1 else 0])]
     @ (if accepted then [(msg_code STREAM_CONFIG, encode_stream_config (video (sv_config sv)) mock_caps)] else [])"

lemma server_with_mock:
  assumes v: "verify now (unix now) rand (sv_disk_ok sv) pin (sv_pairing sv) = (r, sd)"
  shows "\<exists>h. handle_handshake_generic unix rand (start_handshake now (mock_peer now (client_script pin (r = Inr ()))) sv)
       = (if r = Inr () then Inr () else Inl PinRejected, h)
     \<and> hs_sent h = server_answers sv (r = Inr ())
     \<and> hs_server h = sv\<lparr>sv_client_caps := mock_caps, sv_pairing := sd\<rparr>"
proof -
  define s3 where "s3 = (if r = Inr () then [(msg_code STREAM_START, [] :: bytes)] else [])"
  let ?s2 = "(msg_code PIN_RESPONSE, u32_le pin) # s3"
  have sc: "client_script pin (r = Inr ()) = (msg_code HELLO, client_hello) # ?s2" by (simp add: client_script_def s3_def)
  have l: "length (u32_le pin) < MAX_MSG_LEN" "length ([] :: bytes) < MAX_MSG_LEN"
    by (simp_all add: c32le.length_enc wire_consts)
  have rd1: "read_step_message lim (start_handshake now (mock_peer now ((msg_code HELLO, client_hello) # ?s2)) sv) =
      (Inr (msg_code HELLO, client_hello), (start_handshake now (mock_peer now ((msg_code HELLO, client_hello) # ?s2)) sv)\<lparr>hs_peer := mock_peer now ?s2\<rparr>)" for lim
    by (rule mock_read [OF hello_facts(1)]) (simp_all add: start_handshake_def)
  have rd2: "read_step_message lim h = (Inr (msg_code PIN_RESPONSE, u32_le pin), h\<lparr>hs_peer := mock_peer now s3\<rparr>)"
    if "hs_peer h = mock_peer now ?s2" "hs_now h = now" for lim h
    by (rule mock_read [OF l(1)]) (use that in simp_all)
  have rd3: "read_step_message lim h = (Inr (msg_code STREAM_START, []), h\<lparr>hs_peer := mock_peer now []\<rparr>)"
    if "r = Inr ()" "hs_peer h = mock_peer now s3" "hs_now h = now" for lim h
    by (rule mock_read [OF l(2)]) (use that in \<open>simp_all add: s3_def\<close>)
  have acc: "pe_accepts (mock_peer now ms) = 4" for ms by (simp add: mock_peer_def)
  have s0: "hs_server (start_handshake t p sv) = sv" "hs_sent (start_handshake t p sv) = []" "hs_now (start_handshake t p sv) = t" for t p
    by (simp_all add: start_handshake_def)
  have pinb: "u32_of_le (take 4 (u32_le pin)) = pin" "\<not> length (u32_le pin) < 4"
    by (simp_all add: c32le.length_enc c32le.dec_enc)
  show ?thesis
    unfolding sc
    by (cases r)
      (simp_all add: handshake_split step_hello_exchange_def step_pin_pairing_def step_stream_config_def step_stream_start_def
        andThen_def rd1 rd2 rd3 s0 acc send_message_generic_def server_verify_def with_caps_def v pinb hello_facts(2)
        server_answers_def Let_def del: msg_code.simps)
qed

lemma config_bytes: "length (encode_stream_config v caps) = 27"
    "encode_stream_config v caps ! 26 = (if caps AND CAP_FRAME_POSE \<noteq> 0 then 1 else 0)"
  by (simp_all add: config_layout c32le.length_enc nth_append)

lemma client_with_server:
  "do_handshake pin \<lparr>cl_input = wire (server_answers sv accepted), cl_sent = [], cl_accepts = 3\<rparr> =
     (if accepted then Inr True else Inl ClientPinRejected,
      \<lparr>cl_input = [], cl_sent = client_script pin accepted, cl_accepts = 3\<rparr>)"
proof -
  have l: "length (encode_version PROTOCOL_VERSION) < MAX_MSG_LEN" "length ([] :: bytes) < MAX_MSG_LEN"
      "length [b :: u8] < MAX_MSG_LEN" "length (encode_stream_config v caps) < MAX_MSG_LEN" for b v caps
    by (simp_all add: encode_version_def c16le.length_enc wire_consts config_bytes)
  show ?thesis
    by (cases accepted)
      (simp_all add: do_handshake_def server_answers_def client_script_def andDo_def client_send_def
        client_expect_frame [OF l(1)] client_expect_frame [OF l(2)] client_expect_frame [OF l(3)] client_expect_frame [OF l(4)]
        client_expect_last [OF l(3)] client_expect_last [OF l(4)]
        config_bytes hello_facts(3) Let_def del: msg_code.simps)
qed


section \<open>What the client counts\<close>

record mock_stats =
  ms_frames_decoded :: nat
  ms_idr_frames_seen :: nat
  ms_frames_with_render_pose :: nat
  ms_last_render_orientation :: "quat_bits option"
  ms_video_packets_received :: nat
  ms_video_packets_lost :: nat
  ms_video_bytes_received :: nat
  ms_audio_packets_received :: nat
  ms_audio_bytes_received :: nat
  ms_heartbeats_sent :: nat
  ms_heartbeat_acks_received :: nat
  ms_control_closed_after :: "duration option"
  ms_face_messages_sent :: nat
  ms_haptic_events_received :: "haptic_event list"
  ms_sleep_enter_count :: nat
  ms_sleep_exit_count :: nat

definition stats_new :: mock_stats where
  "stats_new = \<lparr>ms_frames_decoded = 0, ms_idr_frames_seen = 0, ms_frames_with_render_pose = 0,
     ms_last_render_orientation = None, ms_video_packets_received = 0, ms_video_packets_lost = 0,
     ms_video_bytes_received = 0, ms_audio_packets_received = 0, ms_audio_bytes_received = 0,
     ms_heartbeats_sent = 0, ms_heartbeat_acks_received = 0, ms_control_closed_after = None,
     ms_face_messages_sent = 0, ms_haptic_events_received = [], ms_sleep_enter_count = 0, ms_sleep_exit_count = 0\<rparr>"

text \<open>The inbound control messages.\<close>

definition on_engine_message :: "mock_client_config \<Rightarrow> u8 \<times> bytes \<Rightarrow> mock_stats \<Rightarrow> mock_stats" where
  "on_engine_message cfg msg s =
     (if fst msg = msg_code HEARTBEAT_ACK then s\<lparr>ms_heartbeat_acks_received := ms_heartbeat_acks_received s + 1\<rparr>
      else if fst msg = msg_code HAPTIC_EVENT \<and> mc_capture_haptic cfg then
        (case from_payload (snd msg) of
           Some e \<Rightarrow> s\<lparr>ms_haptic_events_received := ms_haptic_events_received s @ [e]\<rparr>
         | None \<Rightarrow> s)
      else if fst msg = msg_code SLEEP_ENTER \<and> mc_capture_sleep_events cfg then s\<lparr>ms_sleep_enter_count := ms_sleep_enter_count s + 1\<rparr>
      else if fst msg = msg_code SLEEP_EXIT \<and> mc_capture_sleep_events cfg then s\<lparr>ms_sleep_exit_count := ms_sleep_exit_count s + 1\<rparr>
      else s)"

definition count_rtp_gap :: "u16 option \<Rightarrow> bytes \<Rightarrow> nat \<times> u16 option" where
  "count_rtp_gap last_seq packet =
     (if length packet < RTP_HEADER_LEN then (0, last_seq)
      else let s = u16_of_be [packet ! 2, packet ! 3];
               gap = (case last_seq of Some prev \<Rightarrow> s - prev - 1 | None \<Rightarrow> 0) in
        if 0x8000 \<le> gap then (0, last_seq) else (unat gap, Some s))"

record video_rx =
  vr_reassembler :: reassembler
  vr_frame_start :: "instant option"
  vr_last_completed :: "u32 option"
  vr_last_seq :: "u16 option"
  vr_samples :: "nat list"
  vr_stats :: mock_stats

definition video_rx_new :: video_rx where
  "video_rx_new = \<lparr>vr_reassembler = reasm_new, vr_frame_start = None, vr_last_completed = None, vr_last_seq = None,
     vr_samples = [], vr_stats = stats_new\<rparr>"

text \<open>At most 200000 samples, the oldest go.\<close>

definition push_sample :: "nat \<Rightarrow> nat list \<Rightarrow> nat list" where
  "push_sample us v = (if 200000 \<le> length v then drop (length v - 199999) v else v) @ [us]"

definition frame_started :: "bool \<Rightarrow> instant \<Rightarrow> bytes \<Rightarrow> video_rx \<Rightarrow> instant option" where
  "frame_started timed now packet rx =
     (if timed \<and> vr_frame_start rx = None then
        (case read_fvp_header packet of
           Some h \<Rightarrow> if Some (h_frame_index h) \<noteq> vr_last_completed rx then Some now else None
         | None \<Rightarrow> None)
      else vr_frame_start rx)"

definition on_video_frame :: "bool \<Rightarrow> bool \<Rightarrow> instant \<Rightarrow> reassembled_frame \<Rightarrow> video_rx \<Rightarrow> video_rx" where
  "on_video_frame timed frame_pose now frame rx =
     (let s = (vr_stats rx)\<lparr>ms_frames_decoded := ms_frames_decoded (vr_stats rx) + 1\<rparr>;
          s = (if frame_pose then
                (case frame_pose_parse (rf_data frame) of
                   Some (orientation, nal) \<Rightarrow>
                     s\<lparr>ms_frames_with_render_pose := ms_frames_with_render_pose s + 1, ms_last_render_orientation := orientation\<rparr>
                 | None \<Rightarrow> s)
               else s);
          s = (if rf_is_keyframe frame then s\<lparr>ms_idr_frames_seen := ms_idr_frames_seen s + 1\<rparr> else s);
          rx = rx\<lparr>vr_last_completed := Some (rf_frame_index frame), vr_stats := s\<rparr>
      in if timed then
           (case vr_frame_start rx of
              Some start \<Rightarrow> rx\<lparr>vr_frame_start := None,
                vr_samples := push_sample (min ((now - start) div nanos_per_us) (2 ^ 32 - 1)) (vr_samples rx)\<rparr>
            | None \<Rightarrow> rx)
         else rx)"

definition on_video_packet ::
    "rs_code \<Rightarrow> bool \<Rightarrow> bool \<Rightarrow> instant \<Rightarrow> bytes \<Rightarrow> video_rx \<Rightarrow> video_rx option" where
  "on_video_packet rs timed frame_pose now packet rx =
     (let start = frame_started timed now packet rx;
          (lost, last_seq) = count_rtp_gap (vr_last_seq rx) packet;
          s = vr_stats rx;
          s = s\<lparr>ms_video_packets_received := ms_video_packets_received s + 1,
                ms_video_packets_lost := ms_video_packets_lost s + lost,
                ms_video_bytes_received := ms_video_bytes_received s + length packet\<rparr>;
          rx = rx\<lparr>vr_frame_start := start, vr_last_seq := last_seq, vr_stats := s\<rparr>
      in case reasm_feed rs (vr_reassembler rx) packet of
           None \<Rightarrow> None
         | Some (None, st) \<Rightarrow> Some (rx\<lparr>vr_reassembler := st\<rparr>)
         | Some (Some frame, st) \<Rightarrow> Some (on_video_frame timed frame_pose now frame (rx\<lparr>vr_reassembler := st\<rparr>)))"

fun video_run :: "rs_code \<Rightarrow> bool \<Rightarrow> bool \<Rightarrow> (instant \<times> bytes) list \<Rightarrow> video_rx \<Rightarrow> video_rx option" where
  "video_run rs timed frame_pose [] rx = Some rx"
| "video_run rs timed frame_pose ((now, p) # ps) rx =
     (case on_video_packet rs timed frame_pose now p rx of
        None \<Rightarrow> None
      | Some rx \<Rightarrow> video_run rs timed frame_pose ps rx)"

definition on_audio_packet :: "bytes \<Rightarrow> mock_stats \<Rightarrow> mock_stats" where
  "on_audio_packet packet s =
     (if 12 \<le> length packet \<and> packet ! 1 AND 0x7F = 111
      then s\<lparr>ms_audio_packets_received := ms_audio_packets_received s + 1,
             ms_audio_bytes_received := ms_audio_bytes_received s + length packet\<rparr>
      else s)"

text \<open>Nearest-rank percentiles of the sorted samples.\<close>

definition nearest_rank :: "fl \<Rightarrow> nat \<Rightarrow> nat" where
  "nearest_rank q n = min (f_as_u64 (f_ceil (f_mul b64 q (rnd b64 (of_nat n)))) - 1) (n - 1)"

definition latency_percentiles :: "nat list \<Rightarrow> nat \<times> nat \<times> nat \<times> nat" where
  "latency_percentiles samples =
     (if samples = [] then (0, 0, 0, 0)
      else let g = sort samples; n = length g
           in (g ! nearest_rank (Fin (1 / 2)) n, g ! nearest_rank (f64_lit (95 / 100)) n,
               g ! nearest_rank (f64_lit (99 / 100)) n, n))"

section \<open>What the client sends\<close>

definition heartbeat_payload :: "u32 \<Rightarrow> u64 \<Rightarrow> nat \<Rightarrow> nat \<Rightarrow> nat \<Rightarrow> duration \<Rightarrow> bytes" where
  "heartbeat_payload sequence timestamp_ms received lost frames elapsed =
     (let fps = min (frames * 1000 div max (elapsed div nanos_per_ms) 1) 65535
      in u32_le sequence @ u64_le timestamp_ms @ u32_le (of_nat (min received (2 ^ 32 - 1)))
         @ u32_le (of_nat (min lost (2 ^ 32 - 1))) @ [0, 0, 0, 0] @ u16_le (of_nat fps))"

record client_loop =
  lp_deadline :: "instant option"
  lp_silent_at :: "instant option"
  lp_face_start :: instant
  lp_next_heartbeat :: instant
  lp_last_heartbeat :: instant
  lp_sequence :: u32
  lp_reported :: "nat \<times> nat \<times> nat"
  lp_silent :: bool
  lp_next_face :: "instant option"
  lp_sent :: "(u8 \<times> bytes) list"

definition loop_start :: "mock_client_config \<Rightarrow> instant \<Rightarrow> instant \<Rightarrow> client_loop" where
  "loop_start cfg stream_start now =
     \<lparr>lp_deadline = map_option (\<lambda>d. now + d) (mc_duration cfg),
      lp_silent_at = map_option (\<lambda>d. stream_start + d) (mc_silent_after cfg), lp_face_start = now,
      lp_next_heartbeat = now + mc_heartbeat_interval cfg, lp_last_heartbeat = now, lp_sequence = 0,
      lp_reported = (0, 0, 0), lp_silent = False,
      lp_next_face = map_option (\<lambda>_. now + mc_face_send_interval cfg) (mc_face_pattern cfg),
      lp_sent = (case mc_view_config cfg of
         Some v \<Rightarrow> [(msg_code VIEW_CONFIG, encode_view_config v)] | None \<Rightarrow> [])\<rparr>"

text \<open>What one pass of the loop meets: the clocks, the counts so far, and whether the two writes succeed.\<close>

record loop_input =
  li_cancelled :: bool
  li_check :: instant
  li_now :: instant
  li_unix_ms :: u64
  li_totals :: "nat \<times> nat \<times> nat"
  li_heartbeat_ok :: bool
  li_face_ok :: bool

definition go_silent :: "instant \<Rightarrow> client_loop \<Rightarrow> client_loop" where
  "go_silent now lp =
     (case lp_silent_at lp of
        Some t \<Rightarrow> if \<not> lp_silent lp \<and> t \<le> now then lp\<lparr>lp_silent := True, lp_next_face := None\<rparr> else lp
      | None \<Rightarrow> lp)"

text \<open>\<open>None\<close> when the write fails and the loop ends.\<close>

definition heartbeat_due :: "mock_client_config \<Rightarrow> loop_input \<Rightarrow> client_loop \<Rightarrow> client_loop option" where
  "heartbeat_due cfg i lp =
     (if lp_silent lp \<or> li_now i < lp_next_heartbeat lp then Some lp
      else let (received, lost, frames) = li_totals i; (r0, l0, f0) = lp_reported lp;
               payload = heartbeat_payload (lp_sequence lp) (li_unix_ms i) (received - r0) (lost - l0) (frames - f0)
                 (li_now i - lp_last_heartbeat lp)
           in if \<not> li_heartbeat_ok i then None
              else Some (lp\<lparr>lp_sent := lp_sent lp @ [(msg_code HEARTBEAT, payload)], lp_sequence := lp_sequence lp + 1,
                lp_reported := li_totals i, lp_last_heartbeat := li_now i,
                lp_next_heartbeat := li_now i + mc_heartbeat_interval cfg\<rparr>))"

definition face_due :: "(fl \<Rightarrow> fl) \<Rightarrow> mock_client_config \<Rightarrow> loop_input \<Rightarrow> client_loop \<Rightarrow> client_loop option" where
  "face_due sin_of cfg i lp =
     (case (mc_face_pattern cfg, lp_next_face lp) of
        (Some mode, Some fire_at) \<Rightarrow>
          if li_now i < fire_at then Some lp
          else let (lv, ev, lip, eye) = next_face_sample sin_of mode (of_nat (li_now i - lp_face_start lp));
                   payload = encode_face_data lv ev lip eye
               in if \<not> li_face_ok i then None
                  else Some (lp\<lparr>lp_sent := lp_sent lp @ [(msg_code FACE_DATA, payload)],
                    lp_next_face := Some (li_now i + mc_face_send_interval cfg)\<rparr>)
      | _ \<Rightarrow> Some lp)"

text \<open>One pass: whether the loop goes on, and its state.\<close>

definition loop_tick :: "(fl \<Rightarrow> fl) \<Rightarrow> mock_client_config \<Rightarrow> loop_input \<Rightarrow> client_loop \<Rightarrow> bool \<times> client_loop" where
  "loop_tick sin_of cfg i lp =
     (if li_cancelled i then (False, lp)
      else if (case lp_deadline lp of Some d \<Rightarrow> d \<le> li_check i | None \<Rightarrow> False) then (False, lp)
      else let lp = go_silent (li_now i) lp in
        case heartbeat_due cfg i lp of
          None \<Rightarrow> (False, lp)
        | Some lp \<Rightarrow> (case face_due sin_of cfg i lp of None \<Rightarrow> (False, lp) | Some lp \<Rightarrow> (True, lp)))"

definition loop_nap :: "instant \<Rightarrow> client_loop \<Rightarrow> duration" where
  "loop_nap now lp =
     (let events = (if lp_silent lp then [] else [lp_next_heartbeat lp])
            @ (case lp_next_face lp of Some t \<Rightarrow> [t] | None \<Rightarrow> [])
            @ (case lp_silent_at lp of Some t \<Rightarrow> if lp_silent lp then [] else [t] | None \<Rightarrow> [])
            @ (case lp_deadline lp of Some t \<Rightarrow> [t] | None \<Rightarrow> [])
      in max nanos_per_ms (min (100 * nanos_per_ms)
           (if events = [] then 100 * nanos_per_ms else Min (set events) - now)))"

definition loop_end :: "mock_client_config \<Rightarrow> client_loop \<Rightarrow> client_loop" where
  "loop_end cfg lp =
     (if \<not> mc_abrupt_close cfg \<and> \<not> lp_silent lp then lp\<lparr>lp_sent := lp_sent lp @ [(msg_code DISCONNECT, [])]\<rparr> else lp)"

fun client_loop_run :: "(fl \<Rightarrow> fl) \<Rightarrow> mock_client_config \<Rightarrow> loop_input list \<Rightarrow> client_loop \<Rightarrow> client_loop" where
  "client_loop_run sin_of cfg [] lp = lp"
| "client_loop_run sin_of cfg (i # is) lp =
     (let (go_on, lp) = loop_tick sin_of cfg i lp in if go_on then client_loop_run sin_of cfg is lp else loop_end cfg lp)"

section \<open>Losses are counted and reported once\<close>

fun count_losses :: "u16 option \<Rightarrow> bytes list \<Rightarrow> nat \<times> u16 option" where
  "count_losses last_seq [] = (0, last_seq)"
| "count_losses last_seq (p # ps) =
     (let (n, l) = count_rtp_gap last_seq p; (m, l) = count_losses l ps in (n + m, l))"

text \<open>The packets as positions in the stream: within half the sequence space of the newest so far.\<close>

fun in_window :: "nat \<Rightarrow> nat list \<Rightarrow> bool" where
  "in_window hi [] = True"
| "in_window hi (k # ks) = (k \<le> hi + 0x8000 \<and> hi < k + 0x8000 \<and> in_window (max hi k) ks)"

text \<open>How many packets were newer than all before them.\<close>

fun advances :: "nat \<Rightarrow> nat list \<Rightarrow> nat" where
  "advances hi [] = 0"
| "advances hi (k # ks) = (if hi < k then 1 + advances k ks else advances hi ks)"

definition rtp_position :: "nat \<Rightarrow> bytes \<Rightarrow> bool" where
  "rtp_position k p \<longleftrightarrow> RTP_HEADER_LEN \<le> length p \<and> u16_of_be [p ! 2, p ! 3] = of_nat k"

lemma unat_seq: "n < 2 ^ 16 \<Longrightarrow> unat (of_nat n :: u16) = n"
  by (simp add: unat_of_nat)

lemma gap_newer:
  assumes "rtp_position k p" "hi < k" "k \<le> hi + 0x8000"
  shows "count_rtp_gap (Some (of_nat hi)) p = (k - hi - 1, Some (of_nat k))"
proof -
  have "(of_nat k :: u16) = of_nat hi + of_nat (k - hi - 1) + 1"
    using assms(2) by (metis Suc_diff_Suc Suc_eq_plus1 add.assoc diff_Suc_1 diff_diff_left le_add_diff_inverse less_imp_le_nat of_nat_1 of_nat_add)
  then have g: "(of_nat k :: u16) - of_nat hi - 1 = of_nat (k - hi - 1)" by simp
  have u: "unat (of_nat (k - hi - 1) :: u16) = k - hi - 1" using assms(2,3) by (intro unat_seq) simp
  then have "\<not> (0x8000 :: u16) \<le> of_nat (k - hi - 1)" using assms(2,3) by (simp add: word_le_nat_alt)
  then show ?thesis using assms(1) u by (simp add: count_rtp_gap_def rtp_position_def g Let_def)
qed

lemma gap_older:
  assumes "rtp_position k p" "k \<le> hi" "hi < k + 0x8000"
  shows "count_rtp_gap (Some (of_nat hi)) p = (0, Some (of_nat hi))"
proof -
  have "(of_nat k :: u16) - of_nat hi - 1 = - of_nat (hi - k + 1)" using assms(2) by simp
  also have "\<dots> = of_nat (2 ^ 16 - (hi - k + 1))"
    using assms(3) by (simp add: of_nat_diff)
  finally have g: "(of_nat k :: u16) - of_nat hi - 1 = of_nat (2 ^ 16 - (hi - k + 1))" .
  have "unat (of_nat (2 ^ 16 - (hi - k + 1)) :: u16) = 2 ^ 16 - (hi - k + 1)" by (rule unat_seq) simp
  then have "(0x8000 :: u16) \<le> of_nat (2 ^ 16 - (hi - k + 1))" using assms(3) by (simp add: word_le_nat_alt)
  then show ?thesis using assms(1) by (simp only: count_rtp_gap_def rtp_position_def option.case g Let_def) simp
qed

lemma losses_exact:
  "in_window hi ks \<Longrightarrow> list_all2 rtp_position ks ps \<Longrightarrow>
   \<exists>lost. count_losses (Some (of_nat hi)) ps = (lost, Some (of_nat (foldl max hi ks)))
     \<and> lost + advances hi ks = foldl max hi ks - hi"
proof (induction ks arbitrary: hi ps)
  case Nil
  then show ?case by simp
next
  case (Cons k ks)
  then obtain p qs where ps: "ps = p # qs" "rtp_position k p" "list_all2 rtp_position ks qs" by (auto simp: list_all2_Cons1)
  show ?case
  proof (cases "hi < k")
    case True
    then obtain lost where "count_losses (Some (of_nat k)) qs = (lost, Some (of_nat (foldl max k ks)))"
        "lost + advances k ks = foldl max k ks - k"
      using Cons.IH [of k qs] Cons.prems(1) ps(3) by auto
    moreover have "k \<le> foldl max k ks" by (rule foldl_max_ge)
    ultimately show ?thesis
      using True Cons.prems(1) gap_newer [OF ps(2) True] by (auto simp: ps(1))
  next
    case False
    then show ?thesis
      using Cons.IH [of hi qs] Cons.prems(1) ps(3) gap_older [OF ps(2)] by (auto simp: ps(1) max_def)
  qed
qed

text \<open>
  The losses the client counts, for any order and repetition of the packets that strays from the
  newest one by less than half the sequence space, wrap-arounds included: the positions after the first
  packet up to the newest one that did not arrive before a newer packet. If the packets arrive in
  order this is exactly the number that never arrived.
\<close>
theorem losses_counted:
  assumes "in_window first ks" and "list_all2 rtp_position (first # ks) (p # ps)"
  shows "let (lost, newest) = count_losses None (p # ps) in
      newest = Some (of_nat (foldl max first ks)) \<and> lost + advances first ks = foldl max first ks - first
    \<and> (if sorted_wrt (<) (first # ks) then lost + length ks = last (first # ks) - first else True)"
proof -
  have p: "count_rtp_gap None p = (0, Some (of_nat first))"
    using assms(2) by (simp add: count_rtp_gap_def rtp_position_def)
  obtain lost where l: "count_losses (Some (of_nat first)) ps = (lost, Some (of_nat (foldl max first ks)))"
      "lost + advances first ks = foldl max first ks - first"
    using losses_exact [OF assms(1)] assms(2) by auto
  have "advances k js = length js \<and> foldl max k js = last (k # js)" if "sorted_wrt (<) (k # js)" for k :: nat and js
    using that by (induction js arbitrary: k) auto
  then show ?thesis using l by (auto simp: p)
qed

definition sample_packet :: "u16 \<Rightarrow> bytes" where
  "sample_packet s = [0x80, 0x60] @ u16_be s @ replicate 8 0"

lemma sample_position: "of_nat k = s \<Longrightarrow> rtp_position k (sample_packet s)"
proof -
  have l: "length (u16_be s) = 2" by (rule c16be.length_enc)
  then obtain a b where ab: "u16_be s = [a, b]" by (cases "u16_be s"; cases "tl (u16_be s)") auto
  then have "u16_of_be [a, b] = s" using c16be.dec_enc [of s] by simp
  moreover assume "of_nat k = s"
  ultimately show ?thesis by (simp add: rtp_position_def sample_packet_def ab wire_consts)
qed

theorem losses_counted_witness:
  "count_losses None [sample_packet 0xFFFE, sample_packet 1, sample_packet 0xFFFF, sample_packet 2] = (2, Some 2)"
proof -
  have w: "in_window 0xFFFE [0x10001, 0xFFFF, 0x10002]" by simp
  have p: "list_all2 rtp_position (0xFFFE # [0x10001, 0xFFFF, 0x10002])
      (sample_packet 0xFFFE # [sample_packet 1, sample_packet 0xFFFF, sample_packet 2])"
    by (simp add: sample_position)
  from losses_counted [OF w p] show ?thesis by (auto simp: max_def split: prod.splits)
qed

lemma heartbeat_parsed:
  "parse_heartbeat (heartbeat_payload n t received lost frames elapsed) =
     Some \<lparr>hm_received = of_nat (min received (2 ^ 32 - 1)), hm_lost = of_nat (min lost (2 ^ 32 - 1)), hm_decode_us = 0,
       hm_fps = of_nat (min (frames * 1000 div max (elapsed div nanos_per_ms) 1) 65535)\<rparr>"
proof -
  define a b f where "a = (of_nat (min received (2 ^ 32 - 1)) :: u32)" and "b = (of_nat (min lost (2 ^ 32 - 1)) :: u32)"
    and "f = (of_nat (min (frames * 1000 div max (elapsed div nanos_per_ms) 1) 65535) :: u16)"
  have p: "heartbeat_payload n t received lost frames elapsed
      = (u32_le n @ u64_le t) @ u32_le a @ u32_le b @ [0, 0, 0, 0] @ u16_le f"
    by (simp add: heartbeat_payload_def a_def b_def f_def)
  have l: "length (u32_le n @ u64_le t) = 12" by (simp add: c32le.length_enc c64le.length_enc)
  have z: "u32_of_le [0, 0, 0, 0] = 0" by code_simp
  show ?thesis
    unfolding parse_heartbeat_def p a_def [symmetric] b_def [symmetric] f_def [symmetric]
    using l z by (simp add: sub_range_def c32le.length_enc c64le.length_enc c16le.length_enc c32le.dec_enc c16le.dec_enc)
qed

definition heartbeat_stats :: "(u8 \<times> bytes) list \<Rightarrow> hmd_stats list" where
  "heartbeat_stats ms = map (\<lambda>m. the (parse_heartbeat (snd m))) (filter (\<lambda>m. fst m = msg_code HEARTBEAT) ms)"

fun totals_grow :: "nat \<times> nat \<times> nat \<Rightarrow> (nat \<times> nat \<times> nat) list \<Rightarrow> bool" where
  "totals_grow t [] = True"
| "totals_grow (r, l, f) ((r', l', f') # ts) = (r \<le> r' \<and> l \<le> l' \<and> f \<le> f' \<and> r' < 2 ^ 32 \<and> l' < 2 ^ 32 \<and> totals_grow (r', l', f') ts)"

definition reported_ok :: "client_loop \<Rightarrow> bool" where
  "reported_ok lp \<longleftrightarrow>
     (let hs = heartbeat_stats (lp_sent lp) in
      sum_list (map (\<lambda>h. unat (hm_received h)) hs) = fst (lp_reported lp)
      \<and> sum_list (map (\<lambda>h. unat (hm_lost h)) hs) = fst (snd (lp_reported lp)))"

definition below :: "nat \<times> nat \<times> nat \<Rightarrow> nat \<times> nat \<times> nat \<Rightarrow> bool" where
  "below a b \<longleftrightarrow> fst a \<le> fst b \<and> fst (snd a) \<le> fst (snd b) \<and> fst b < 2 ^ 32 \<and> fst (snd b) < 2 ^ 32"

lemma heartbeat_due_ok:
  assumes "reported_ok lp" "below (lp_reported lp) (li_totals i)" "heartbeat_due cfg i lp = Some lp'"
  shows "reported_ok lp' \<and> below (lp_reported lp') (li_totals i) \<and> lp_next_face lp' = lp_next_face lp"
proof (cases "lp_silent lp \<or> li_now i < lp_next_heartbeat lp")
  case True
  then show ?thesis using assms by (auto simp: heartbeat_due_def)
next
  case False
  obtain r l f r0 l0 f0 where t: "li_totals i = (r, l, f)" "lp_reported lp = (r0, l0, f0)" by (metis prod.exhaust)
  have u: "unat (of_nat (min (r - r0) (2 ^ 32 - 1)) :: u32) = r - r0" "unat (of_nat (min (l - l0) (2 ^ 32 - 1)) :: u32) = l - l0"
    using assms(2) by (simp_all add: below_def t unat_of_nat min_def) linarith+
  have lp': "li_heartbeat_ok i" "lp' = lp\<lparr>lp_sent := lp_sent lp @ [(msg_code HEARTBEAT,
        heartbeat_payload (lp_sequence lp) (li_unix_ms i) (r - r0) (l - l0) (f - f0) (li_now i - lp_last_heartbeat lp))],
      lp_sequence := lp_sequence lp + 1, lp_reported := (r, l, f), lp_last_heartbeat := li_now i,
      lp_next_heartbeat := li_now i + mc_heartbeat_interval cfg\<rparr>"
    using False assms(3) by (auto simp: heartbeat_due_def t split: if_splits)
  show ?thesis
    using assms(1,2) u unfolding lp'(2) by (simp add: reported_ok_def heartbeat_stats_def heartbeat_parsed t below_def)
qed

lemma heartbeat_due_none: "heartbeat_due cfg i lp = None \<Longrightarrow> \<not> li_heartbeat_ok i"
  by (auto simp: heartbeat_due_def Let_def split: if_splits prod.splits)

lemma reported_append:
  "mt \<noteq> msg_code HEARTBEAT \<Longrightarrow> reported_ok (lp\<lparr>lp_sent := lp_sent lp @ [(mt, p)]\<rparr>) = reported_ok lp"
  by (simp add: reported_ok_def heartbeat_stats_def)

lemma face_due_ok:
  "face_due sin_of cfg i lp = Some lp' \<Longrightarrow> reported_ok lp' = reported_ok lp \<and> lp_reported lp' = lp_reported lp"
  by (auto simp: face_due_def Let_def reported_ok_def heartbeat_stats_def split: option.splits if_splits prod.splits)

lemma go_silent_ok:
  "reported_ok (go_silent now lp) = reported_ok lp \<and> lp_reported (go_silent now lp) = lp_reported lp"
  by (auto simp: go_silent_def reported_ok_def split: option.split)

lemma loop_tick_ok:
  assumes "reported_ok lp" "below (lp_reported lp) (li_totals i)" "loop_tick sin_of cfg i lp = (g, lp')"
  shows "reported_ok lp' \<and> below (lp_reported lp') (li_totals i)"
proof -
  let ?lp = "go_silent (li_now i) lp"
  have s: "reported_ok ?lp" "below (lp_reported ?lp) (li_totals i)" using assms(1,2) go_silent_ok by simp_all
  consider "lp' = lp" | "lp' = ?lp" | lp1 where "heartbeat_due cfg i ?lp = Some lp1" "lp' = lp1"
    | lp1 where "heartbeat_due cfg i ?lp = Some lp1" "face_due sin_of cfg i lp1 = Some lp'"
    using assms(3) by (auto simp: loop_tick_def Let_def split: if_splits option.splits)
  then show ?thesis
  proof cases
    case 1
    then show ?thesis using assms by simp
  next
    case 2
    then show ?thesis using s by simp
  next
    case 3
    then show ?thesis using heartbeat_due_ok [OF s] by auto
  next
    case 4
    then show ?thesis using heartbeat_due_ok [OF s 4(1)] face_due_ok [OF 4(2)] by simp
  qed
qed

lemma loop_end_ok: "reported_ok (loop_end cfg lp) = reported_ok lp \<and> lp_reported (loop_end cfg lp) = lp_reported lp"
  by (simp add: loop_end_def reported_append)

lemma client_loop_run_ok:
  "reported_ok lp \<Longrightarrow> below (lp_reported lp) t \<Longrightarrow> totals_grow t (map li_totals is) \<Longrightarrow> reported_ok (client_loop_run sin_of cfg is lp)"
proof (induction "is" arbitrary: lp t)
  case Nil
  then show ?case by simp
next
  case (Cons i "is")
  obtain r l f r' l' f' where e: "t = (r, l, f)" "li_totals i = (r', l', f')" by (metis prod.exhaust)
  have b: "below (lp_reported lp) (li_totals i)" using Cons.prems(2,3) by (simp add: below_def e)
  obtain g lp' where k: "loop_tick sin_of cfg i lp = (g, lp')" by fastforce
  note ok = loop_tick_ok [OF Cons.prems(1) b k]
  have "totals_grow (li_totals i) (map li_totals is)" using Cons.prems(3) by (simp add: e)
  then show ?case using Cons.IH [of lp' "li_totals i"] ok loop_end_ok by (simp add: k)
qed

lemma loop_start_ok: "reported_ok (loop_start cfg s now)"
  by (auto simp: loop_start_def reported_ok_def heartbeat_stats_def split: option.split)

text \<open>
  However the passes of the client's loop fall, whichever writes fail and whenever it is silenced or
  cancelled: what the engine parses from the HEARTBEATs adds up to the packets received and lost that
  the client last took note of, so nothing is reported twice and nothing in between is left out.
\<close>
theorem heartbeats_add_up:
  assumes "totals_grow (0, 0, 0) (map li_totals is)"
  shows "let lp = client_loop_run sin_of cfg is (loop_start cfg s now); hs = heartbeat_stats (lp_sent lp) in
     sum_list (map (\<lambda>h. unat (hm_received h)) hs) = fst (lp_reported lp)
     \<and> sum_list (map (\<lambda>h. unat (hm_lost h)) hs) = fst (snd (lp_reported lp))"
proof -
  have "below (lp_reported (loop_start cfg s now)) (0, 0, 0)" by (simp add: below_def loop_start_def)
  from client_loop_run_ok [OF loop_start_ok this assms] show ?thesis by (simp add: reported_ok_def Let_def)
qed

definition sample_cfg :: mock_client_config where
  "sample_cfg = the (from_ports (V4 0x7F000001) 9944 9944 123456)"

definition sample_tick :: "instant \<Rightarrow> nat \<times> nat \<times> nat \<Rightarrow> loop_input" where
  "sample_tick t n = \<lparr>li_cancelled = False, li_check = t, li_now = t, li_unix_ms = 0, li_totals = n,
     li_heartbeat_ok = True, li_face_ok = True\<rparr>"

theorem heartbeats_add_up_witness:
  "let lp = client_loop_run (\<lambda>x. x) sample_cfg [sample_tick 600000000 (50, 2, 1), sample_tick 700000000 (60, 3, 1),
         sample_tick 1200000000 (90, 3, 2)] (loop_start sample_cfg 0 0);
       hs = heartbeat_stats (lp_sent lp) in
     sum_list (map (\<lambda>h. unat (hm_received h)) hs) = 90 \<and> sum_list (map (\<lambda>h. unat (hm_lost h)) hs) = 3"
proof -
  let ?is = "[sample_tick 600000000 (50, 2, 1), sample_tick 700000000 (60, 3, 1), sample_tick 1200000000 (90, 3, 2)]"
  have c: "mc_face_pattern sample_cfg = None" "mc_heartbeat_interval sample_cfg = 500000000" "mc_silent_after sample_cfg = None"
      "mc_duration sample_cfg = None" "mc_view_config sample_cfg = None"
    by (simp_all add: sample_cfg_def from_ports_def port_plus_def HEARTBEAT_INTERVAL_MS_def
        VIDEO_PORT_OFFSET_def AUDIO_PORT_OFFSET_def TRACKING_PORT_OFFSET_def)
  have g: "totals_grow (0, 0, 0) (map li_totals ?is)" by (simp add: sample_tick_def)
  have "lp_reported (client_loop_run (\<lambda>x. x) sample_cfg ?is (loop_start sample_cfg 0 0)) = (90, 3, 2)"
    by (simp add: loop_tick_def go_silent_def heartbeat_due_def face_due_def loop_start_def sample_tick_def c Let_def)
  then show ?thesis using heartbeats_add_up [OF g, of "\<lambda>x. x" sample_cfg 0 0] by (simp add: Let_def)
qed

section \<open>The video task against the reassembler\<close>

lemma on_video_packet_counts:
  assumes "on_video_packet rs timed fp now p rx = Some rx'"
  shows "\<exists>r. reasm_feed rs (vr_reassembler rx) p = Some (r, vr_reassembler rx')
    \<and> ms_frames_decoded (vr_stats rx') = ms_frames_decoded (vr_stats rx) + (if r = None then 0 else 1)
    \<and> ms_idr_frames_seen (vr_stats rx') = ms_idr_frames_seen (vr_stats rx)
        + (case r of Some f \<Rightarrow> if rf_is_keyframe f then 1 else 0 | None \<Rightarrow> 0)
    \<and> ms_video_packets_received (vr_stats rx') = ms_video_packets_received (vr_stats rx) + 1
    \<and> ms_video_bytes_received (vr_stats rx') = ms_video_bytes_received (vr_stats rx) + length p
    \<and> ms_video_packets_lost (vr_stats rx') = ms_video_packets_lost (vr_stats rx) + fst (count_rtp_gap (vr_last_seq rx) p)
    \<and> vr_last_seq rx' = snd (count_rtp_gap (vr_last_seq rx) p)"
  using assms by (auto simp: on_video_packet_def on_video_frame_def Let_def split: option.splits prod.splits if_splits)

lemma video_run_counts:
  "video_run rs timed fp ps rx = Some rx' \<Longrightarrow>
   \<exists>out. reasm_feed_all rs (vr_reassembler rx) (map snd ps) = Some (out, vr_reassembler rx')
    \<and> ms_frames_decoded (vr_stats rx') = ms_frames_decoded (vr_stats rx) + length (filter (\<lambda>r. r \<noteq> None) out)
    \<and> ms_video_packets_received (vr_stats rx') = ms_video_packets_received (vr_stats rx) + length ps
    \<and> ms_video_packets_lost (vr_stats rx') = ms_video_packets_lost (vr_stats rx) + fst (count_losses (vr_last_seq rx) (map snd ps))"
proof (induction ps arbitrary: rx)
  case Nil
  then show ?case by simp
next
  case (Cons tp ps)
  obtain now p where tp: "tp = (now, p)" by (rule prod.exhaust)
  then obtain rx1 where s: "on_video_packet rs timed fp now p rx = Some rx1" "video_run rs timed fp ps rx1 = Some rx'"
    using Cons.prems by (auto split: option.splits)
  obtain r where r: "reasm_feed rs (vr_reassembler rx) p = Some (r, vr_reassembler rx1)"
      "ms_frames_decoded (vr_stats rx1) = ms_frames_decoded (vr_stats rx) + (if r = None then 0 else 1)"
      "ms_video_packets_received (vr_stats rx1) = ms_video_packets_received (vr_stats rx) + 1"
      "ms_video_packets_lost (vr_stats rx1) = ms_video_packets_lost (vr_stats rx) + fst (count_rtp_gap (vr_last_seq rx) p)"
      "vr_last_seq rx1 = snd (count_rtp_gap (vr_last_seq rx) p)"
    using on_video_packet_counts [OF s(1)] by blast
  obtain out where o: "reasm_feed_all rs (vr_reassembler rx1) (map snd ps) = Some (out, vr_reassembler rx')"
      "ms_frames_decoded (vr_stats rx') = ms_frames_decoded (vr_stats rx1) + length (filter (\<lambda>r. r \<noteq> None) out)"
      "ms_video_packets_received (vr_stats rx') = ms_video_packets_received (vr_stats rx1) + length ps"
      "ms_video_packets_lost (vr_stats rx') = ms_video_packets_lost (vr_stats rx1) + fst (count_losses (vr_last_seq rx1) (map snd ps))"
    using Cons.IH [OF s(2)] by blast
  have "reasm_feed_all rs (vr_reassembler rx) (map snd (tp # ps)) = Some (r # out, vr_reassembler rx')"
    using r(1) o(1) by (simp add: tp)
  moreover have "fst (count_losses (vr_last_seq rx) (p # map snd ps))
      = fst (count_rtp_gap (vr_last_seq rx) p) + fst (count_losses (vr_last_seq rx1) (map snd ps))"
    by (simp add: r(5) split_beta)
  ultimately show ?case using r(2-4) o(2-4) by (auto simp: tp)
qed

section \<open>Percentiles\<close>

lemma nearest_rank_less: "0 < n \<Longrightarrow> nearest_rank q n < n"
  by (simp add: nearest_rank_def)

lemma percentiles_are_samples:
  assumes "samples \<noteq> []"
  shows "let (p50, p95, p99, n) = latency_percentiles samples in
    p50 \<in> set samples \<and> p95 \<in> set samples \<and> p99 \<in> set samples \<and> n = length samples"
proof -
  have "sort samples ! nearest_rank q (length samples) \<in> set samples" for q
    using nth_mem [of "nearest_rank q (length samples)" "sort samples"] nearest_rank_less [of "length samples" q] assms by simp
  then show ?thesis using assms by (simp add: latency_percentiles_def Let_def)
qed

end
