(* ===== verification/Logs.thy ===== *)
theory Logs imports Session Recording "HOL-Library.Sublist" begin

text \<open>
  The engine's logs: the statistics of a session, a line of JSON every ten seconds
  (\<open>metrics/session_log.rs\<close>, \<open>session_record\<close> of \<open>engine.rs\<close>), and the engine's rotating log file
  (\<open>logging.rs\<close>). Each file operation's outcome is an input; serde's text of a record, the UTC
  format, \<open>rss\<close> and the \<open>log\<close> crates are parameters.
\<close>

section \<open>Session statistics\<close>

record session_record =
  sr_ts :: string
  sr_pc_latency_us :: nat
  sr_pc_fps :: nat
  sr_bitrate_mbps :: nat
  sr_loss_pct :: fl
  sr_fec_pct :: fl
  sr_hmd_fps :: nat
  sr_hmd_decode_us :: nat
  sr_sleeping :: bool
  sr_rss_mb :: nat

definition SESSION_LOG_RETENTION_DAYS :: nat where "SESSION_LOG_RETENTION_DAYS = 7"
definition SESSION_LOG_INTERVAL :: duration where "SESSION_LOG_INTERVAL = 10 * nanos_per_sec"

definition hundredths :: "fl \<Rightarrow> fl" where
  "hundredths pct = f_div b32 (f_round (f_mul b32 pct (Fin 100))) (Fin 100)"

definition make_session_record :: "string \<Rightarrow> nat \<Rightarrow> nat \<Rightarrow> adaptive_state \<Rightarrow> fl \<Rightarrow> nat \<Rightarrow> session_record" where
  "make_session_record ts pc_total rss a redundancy pc_fps =
     (let st = as_last a in
      \<lparr>sr_ts = ts, sr_pc_latency_us = pc_total, sr_pc_fps = pc_fps,
       sr_bitrate_mbps = current_bitrate_mbps (as_bitrate a),
       sr_loss_pct = hundredths (packet_loss_pct st), sr_fec_pct = hundredths (f_mul b32 redundancy (Fin 100)),
       sr_hmd_fps = (case st of Some s \<Rightarrow> unat (hm_fps s) | None \<Rightarrow> 0),
       sr_hmd_decode_us = (case st of Some s \<Rightarrow> unat (hm_decode_us s) | None \<Rightarrow> 0),
       sr_sleeping = sl_sleeping (as_sleep a), sr_rss_mb = rss\<rparr>)"

text \<open>The buffered logger. The text of the file is part of the state; a line is a record's JSON.\<close>

record session_logger =
  lg_file :: string
  lg_buffer :: "string list"
  lg_last_flush :: instant

definition FLUSH_INTERVAL :: duration where "FLUSH_INTERVAL = 60 * nanos_per_sec"

definition NL :: char where "NL = CHR 0x0A"

definition logger_new :: "bool \<Rightarrow> instant \<Rightarrow> session_logger option" where
  "logger_new dir_ok now = (if dir_ok then Some \<lparr>lg_file = [], lg_buffer = [], lg_last_flush = now\<rparr> else None)"

text \<open>What a flush meets: the file cannot be opened, the write fails after \<open>n\<close> bytes, or it succeeds.\<close>

datatype flush_outcome = OpenFails | WriteFails nat | Written

definition log_lines :: "string list \<Rightarrow> string" where
  "log_lines ls = concat (map (\<lambda>l. l @ [NL]) ls)"

definition logger_flush :: "flush_outcome \<Rightarrow> instant \<Rightarrow> session_logger \<Rightarrow> session_logger" where
  "logger_flush io now s =
     (if lg_buffer s = [] then s
      else let payload = log_lines (lg_buffer s) in
        case io of
          OpenFails \<Rightarrow> s
        | WriteFails n \<Rightarrow> s\<lparr>lg_file := lg_file s @ take n payload\<rparr>
        | Written \<Rightarrow> s\<lparr>lg_file := lg_file s @ payload, lg_buffer := [], lg_last_flush := now\<rparr>)"

definition logger_record ::
    "(session_record \<Rightarrow> string option) \<Rightarrow> flush_outcome \<Rightarrow> instant \<Rightarrow> session_record \<Rightarrow> session_logger \<Rightarrow> session_logger" where
  "logger_record to_json io now r s =
     (let s = (case to_json r of Some json \<Rightarrow> s\<lparr>lg_buffer := lg_buffer s @ [json]\<rparr> | None \<Rightarrow> s)
      in if FLUSH_INTERVAL \<le> now - lg_last_flush s then logger_flush io now s else s)"

definition logger_drop :: "flush_outcome \<Rightarrow> instant \<Rightarrow> session_logger \<Rightarrow> session_logger" where
  "logger_drop io now s = logger_flush io now s"

text \<open>A session: its records with the time and the outcome of each.\<close>

definition log_session ::
    "(session_record \<Rightarrow> string option) \<Rightarrow> (flush_outcome \<times> instant \<times> session_record) list \<Rightarrow> session_logger \<Rightarrow> session_logger" where
  "log_session to_json rs s = fold (\<lambda>(io, now, r). logger_record to_json io now r) rs s"

text \<open>\<open>purge_old_logs\<close>: names with their time of writing; \<open>earliest\<close> is the first time the system can represent.\<close>

definition purge_old_logs ::
    "int \<Rightarrow> (string \<Rightarrow> bool) \<Rightarrow> int \<Rightarrow> nat \<Rightarrow> (string \<times> int option) list option \<Rightarrow> nat \<times> (string \<times> int option) list" where
  "purge_old_logs earliest remove_ok now retention_days entries =
     (let back = int retention_days * 86400 * int nanos_per_sec;
          cutoff = (if now - back < earliest then 0 else now - back) in
      case entries of
        None \<Rightarrow> (0, [])
      | Some es \<Rightarrow>
          let goes = (\<lambda>e. snd (split_extension (fst e)) = ''.jsonl''
                \<and> (case snd e of Some modified \<Rightarrow> modified < cutoff | None \<Rightarrow> False) \<and> remove_ok (fst e))
          in foldl (\<lambda>(removed, left) e. if goes e then (removed + 1, left) else (removed, left @ [e])) (0, []) es)"

section \<open>The engine's log file\<close>

text \<open>
  \<open>RotatingLog\<close>: engine.log, engine.prev.log and which of the two the open handle writes to (a file
  that was moved but not created anew is written on under its new name).
\<close>

record rotating_log =
  rl_current :: "bytes option"
  rl_previous :: "bytes option"
  rl_on_previous :: bool
  rl_written :: nat
  rl_max_bytes :: nat

definition MAX_LOG_BYTES :: nat where "MAX_LOG_BYTES = 16 * 1024 * 1024"

definition log_start :: "bool \<Rightarrow> bool \<Rightarrow> bytes option \<times> bytes option \<Rightarrow> bool \<times> bytes option \<times> bytes option" where
  "log_start rename_ok open_ok files =
     (let (current, previous) = files;
          (current, previous) = (if current \<noteq> None \<and> rename_ok then (None, current) else (current, previous))
      in if open_ok then (True, Some [], previous) else (False, current, previous))"

definition log_open :: "bool \<Rightarrow> bool \<Rightarrow> bool \<Rightarrow> nat \<Rightarrow> bytes option \<times> bytes option \<Rightarrow> rotating_log option" where
  "log_open dir_ok rename_ok open_ok max_bytes files =
     (if \<not> dir_ok then None
      else case log_start rename_ok open_ok files of
          (False, _) \<Rightarrow> None
        | (True, current, previous) \<Rightarrow>
            Some \<lparr>rl_current = current, rl_previous = previous, rl_on_previous = False, rl_written = 0, rl_max_bytes = max_bytes\<rparr>)"

text \<open>What a write meets: whether a rename and an open succeed, and how many bytes are taken (\<open>None\<close>: an error).\<close>

record log_io =
  io_rename :: bool
  io_open :: bool
  io_taken :: "nat option"

definition handle_append :: "bytes \<Rightarrow> rotating_log \<Rightarrow> rotating_log" where
  "handle_append bs s =
     (if rl_on_previous s then s\<lparr>rl_previous := map_option (\<lambda>d. d @ bs) (rl_previous s)\<rparr>
      else s\<lparr>rl_current := map_option (\<lambda>d. d @ bs) (rl_current s)\<rparr>)"

definition log_rotate :: "log_io \<Rightarrow> rotating_log \<Rightarrow> bool \<times> rotating_log" where
  "log_rotate io s =
     (let moved = (rl_current s \<noteq> None \<and> io_rename io);
          (ok, current, previous) = log_start (io_rename io) (io_open io) (rl_current s, rl_previous s);
          s = s\<lparr>rl_current := current, rl_previous := previous\<rparr>
      in if ok then (True, s\<lparr>rl_on_previous := False, rl_written := 0\<rparr>)
         else (False, s\<lparr>rl_on_previous := rl_on_previous s \<or> moved\<rparr>))"

definition log_write :: "log_io \<Rightarrow> bytes \<Rightarrow> rotating_log \<Rightarrow> nat option \<times> rotating_log" where
  "log_write io buf s =
     (let (ok, s) = (if 0 < rl_written s \<and> rl_max_bytes s < rl_written s + length buf then log_rotate io s else (True, s)) in
      if \<not> ok then (None, s)
      else case io_taken io of
          None \<Rightarrow> (None, s)
        | Some n \<Rightarrow> let n = min n (length buf)
            in (Some n, (handle_append (take n buf) s)\<lparr>rl_written := rl_written s + n\<rparr>))"

definition log_run :: "(log_io \<times> bytes) list \<Rightarrow> rotating_log \<Rightarrow> rotating_log" where
  "log_run ws s = fold (\<lambda>(io, buf) s. snd (log_write io buf s)) ws s"

section \<open>No record is lost\<close>

definition session_lines :: "(session_record \<Rightarrow> string option) \<Rightarrow> (flush_outcome \<times> instant \<times> session_record) list \<Rightarrow> string list" where
  "session_lines to_json rs = List.map_filter (\<lambda>(io, now, r). to_json r) rs"

fun whole :: "flush_outcome \<Rightarrow> bool" where
  "whole (WriteFails n) = (n = 0)"
| "whole _ = True"

lemma log_lines_simps [simp]:
  "log_lines [] = []" "log_lines (l # a) = l @ NL # log_lines a" "log_lines (a @ b) = log_lines a @ log_lines b"
  by (simp_all add: log_lines_def)

definition logged_text :: "session_logger \<Rightarrow> string" where
  "logged_text s = lg_file s @ log_lines (lg_buffer s)"

lemma flush_text:
  "\<exists>torn. logged_text (logger_flush io now s) = lg_file s @ torn @ log_lines (lg_buffer s)
     \<and> (if whole io then torn = [] else True)"
proof (cases "lg_buffer s = []")
  case True
  then show ?thesis by (auto simp: logger_flush_def logged_text_def)
next
  case False
  then show ?thesis by (cases io) (auto simp: logger_flush_def logged_text_def Let_def)
qed

lemma record_text:
  "\<exists>torn. logged_text (logger_record to_json io now r s) =
      lg_file s @ torn @ log_lines (lg_buffer s @ (case to_json r of Some j \<Rightarrow> [j] | None \<Rightarrow> []))
     \<and> (if whole io then torn = [] else True)"
proof -
  define s' where "s' = (case to_json r of Some json \<Rightarrow> s\<lparr>lg_buffer := lg_buffer s @ [json]\<rparr> | None \<Rightarrow> s)"
  have f: "lg_file s' = lg_file s" "lg_buffer s' = lg_buffer s @ (case to_json r of Some j \<Rightarrow> [j] | None \<Rightarrow> [])"
    by (auto simp: s'_def split: option.split)
  have e: "logger_record to_json io now r s = (if FLUSH_INTERVAL \<le> now - lg_last_flush s' then logger_flush io now s' else s')"
    by (simp add: logger_record_def s'_def Let_def)
  show ?thesis
    using flush_text [of io now s'] unfolding e f by (auto simp: logged_text_def f)
qed

lemma subseq_torn: "subseq (a @ b) (a @ t @ b)"
  by (intro list_emb_append_mono list_emb_append2 subseq_order.refl)

lemma session_text:
  "subseq all (logged_text s) \<Longrightarrow> subseq (all @ log_lines (session_lines to_json rs)) (logged_text (log_session to_json rs s))"
proof (induction rs arbitrary: s all)
  case Nil
  then show ?case by (simp add: log_session_def session_lines_def map_filter_simps)
next
  case (Cons x rs)
  obtain io now r where x: "x = (io, now, r)" by (metis prod.exhaust)
  let ?new = "case to_json r of Some j \<Rightarrow> [j] | None \<Rightarrow> []"
  obtain torn where t: "logged_text (logger_record to_json io now r s) = lg_file s @ torn @ log_lines (lg_buffer s @ ?new)"
    using record_text by blast
  have "subseq (all @ log_lines ?new) ((lg_file s @ log_lines (lg_buffer s)) @ log_lines ?new)"
    using Cons.prems by (intro list_emb_append_mono) (simp_all add: logged_text_def)
  also have "subseq \<dots> (lg_file s @ torn @ log_lines (lg_buffer s @ ?new))"
    using subseq_torn [of "lg_file s" "log_lines (lg_buffer s @ ?new)" torn] by simp
  finally have "subseq (all @ log_lines ?new) (logged_text (logger_record to_json io now r s))" unfolding t .
  from Cons.IH [OF this] show ?case
    by (simp add: x log_session_def session_lines_def map_filter_simps split: option.splits)
qed

lemma session_text_whole:
  "list_all (\<lambda>(io, now, r). whole io) rs \<Longrightarrow>
   logged_text (log_session to_json rs s) = logged_text s @ log_lines (session_lines to_json rs)"
proof (induction rs arbitrary: s)
  case Nil
  then show ?case by (simp add: log_session_def session_lines_def map_filter_simps)
next
  case (Cons x rs)
  obtain io now r where x: "x = (io, now, r)" by (metis prod.exhaust)
  then have "logged_text (logger_record to_json io now r s) = logged_text s @ log_lines (case to_json r of Some j \<Rightarrow> [j] | None \<Rightarrow> [])"
    using record_text [of to_json io now r s] Cons.prems by (auto simp: logged_text_def)
  then show ?case using Cons by (simp add: x log_session_def session_lines_def map_filter_simps split: option.splits)
qed

text \<open>
  Whatever file operations fail during a session, every recorded line is in the log or still buffered,
  in order (a failed write can leave a torn copy between them); if no write is cut short the log is
  exactly the recorded lines, and a final flush that succeeds leaves nothing behind.
\<close>
theorem session_log_keeps_all:
  "let s = logger_drop io now (log_session to_json rs \<lparr>lg_file = [], lg_buffer = [], lg_last_flush = start\<rparr>);
       recorded = log_lines (session_lines to_json rs)
   in subseq recorded (lg_file s @ log_lines (lg_buffer s))
     \<and> (if whole io \<and> list_all (\<lambda>(io, now, r). whole io) rs then lg_file s @ log_lines (lg_buffer s) = recorded else True)
     \<and> (if io = Written then lg_buffer s = [] else True)"
proof -
  let ?s0 = "\<lparr>lg_file = [], lg_buffer = [], lg_last_flush = start\<rparr>"
  let ?s1 = "log_session to_json rs ?s0" and ?all = "log_lines (session_lines to_json rs)"
  obtain torn where t: "logged_text (logger_flush io now ?s1) = lg_file ?s1 @ torn @ log_lines (lg_buffer ?s1)"
      "if whole io then torn = [] else True"
    using flush_text by blast
  have "subseq ?all (logged_text ?s1)" using session_text [of "[]" ?s0 to_json rs] by simp
  also have "subseq \<dots> (logged_text (logger_flush io now ?s1))"
    unfolding t(1) unfolding logged_text_def by (rule subseq_torn)
  finally have a: "subseq ?all (logged_text (logger_flush io now ?s1))" .
  have b: "logged_text (logger_flush io now ?s1) = ?all" if "whole io" "list_all (\<lambda>(io, now, r). whole io) rs"
    using t that session_text_whole [OF that(2), of to_json ?s0] by (simp add: logged_text_def)
  have c: "lg_buffer (logger_flush Written now ?s1) = []" by (simp add: logger_flush_def Let_def)
  show ?thesis using a b c by (auto simp: logger_drop_def logged_text_def Let_def)
qed

section \<open>The log file is bounded and keeps the newest records\<close>

definition log_live :: "rotating_log \<Rightarrow> bytes" where
  "log_live s = (case (if rl_on_previous s then rl_previous s else rl_current s) of Some d \<Rightarrow> d | None \<Rightarrow> [])"

definition log_inv :: "rotating_log \<Rightarrow> bool" where
  "log_inv s \<longleftrightarrow> (if rl_on_previous s then rl_previous s \<noteq> None \<and> rl_current s = None else rl_current s \<noteq> None)
     \<and> rl_written s = length (log_live s)"

text \<open>The bytes the log took, in order.\<close>

fun log_taken :: "(log_io \<times> bytes) list \<Rightarrow> rotating_log \<Rightarrow> bytes" where
  "log_taken [] s = []"
| "log_taken ((io, buf) # ws) s =
     (case log_write io buf s of
        (Some n, s') \<Rightarrow> take n buf @ log_taken ws s'
      | (None, s') \<Rightarrow> log_taken ws s')"

lemma log_rotate_ok:
  assumes "log_inv s" and "log_rotate io s = (ok, s')"
  shows "log_inv s' \<and> rl_max_bytes s' = rl_max_bytes s
    \<and> (if ok then log_live s' = [] else log_live s' = log_live s)
    \<and> (if ok \<and> io_rename io \<and> \<not> rl_on_previous s then rl_previous s' = Some (log_live s) else True)
    \<and> (if ok then \<not> rl_on_previous s' else \<not> io_open io)"
  using assms by (auto simp: log_rotate_def log_start_def log_inv_def log_live_def Let_def split: if_splits)

lemma handle_append_ok:
  assumes "log_inv s"
  shows "log_inv ((handle_append bs s)\<lparr>rl_written := rl_written s + length bs\<rparr>)"
    "log_live ((handle_append bs s)\<lparr>rl_written := w\<rparr>) = log_live s @ bs"
  using assms by (auto simp: handle_append_def log_inv_def log_live_def)

lemma log_write_ok:
  assumes "log_inv s" and "log_write io buf s = (r, s')"
  shows "log_inv s' \<and> rl_max_bytes s' = rl_max_bytes s \<and>
    (case r of None \<Rightarrow> log_live s' = log_live s \<or> log_live s' = []
     | Some n \<Rightarrow> n \<le> length buf \<and> (log_live s' = take n buf
         \<or> length (log_live s) + length buf \<le> rl_max_bytes s \<and> log_live s' = log_live s @ take n buf))"
proof -
  let ?full = "0 < rl_written s \<and> rl_max_bytes s < rl_written s + length buf"
  obtain ok s1 where s1: "(if ?full then log_rotate io s else (True, s)) = (ok, s1)" by fastforce
  have w: "rl_written s = length (log_live s)" using assms(1) by (simp add: log_inv_def)
  have i: "log_inv s1" "rl_max_bytes s1 = rl_max_bytes s"
      "log_live s1 = [] \<or> log_live s1 = log_live s"
      "ok \<and> log_live s1 \<noteq> [] \<Longrightarrow> length (log_live s) + length buf \<le> rl_max_bytes s \<and> log_live s1 = log_live s"
    using s1 assms(1) w log_rotate_ok [OF assms(1), of io ok s1] by (auto split: if_splits)
  show ?thesis
  proof (cases "\<not> ok \<or> io_taken io = None")
    case True
    then have "r = None" "s' = s1" using assms(2) s1 by (auto simp: log_write_def split: option.splits)
    then show ?thesis using i by auto
  next
    case False
    then obtain n where n: "ok" "io_taken io = Some n" by auto
    let ?n = "min n (length buf)"
    have r: "r = Some ?n" "s' = (handle_append (take ?n buf) s1)\<lparr>rl_written := rl_written s1 + ?n\<rparr>"
      using assms(2) s1 n by (auto simp: log_write_def Let_def)
    have "log_inv s'" "log_live s' = log_live s1 @ take ?n buf"
      using handle_append_ok [OF i(1), where bs = "take ?n buf"] unfolding r(2) by (simp_all add: min.commute)
    moreover have "rl_max_bytes s' = rl_max_bytes s" using i(2) unfolding r(2) by (simp add: handle_append_def)
    ultimately show ?thesis using i(3,4) n(1) unfolding r(1) by (cases "log_live s1 = []") auto
  qed
qed

lemma log_run_ok:
  "log_inv s \<Longrightarrow> suffix (log_live s) all \<Longrightarrow> length (log_live s) \<le> m \<Longrightarrow> rl_max_bytes s \<le> m \<Longrightarrow>
   list_all (\<lambda>w. length (snd w) \<le> m) ws \<Longrightarrow>
   log_inv (log_run ws s) \<and> suffix (log_live (log_run ws s)) (all @ log_taken ws s) \<and> length (log_live (log_run ws s)) \<le> m"
proof (induction ws arbitrary: s all)
  case Nil
  then show ?case by (simp add: log_run_def)
next
  case (Cons w ws)
  obtain io buf where w: "w = (io, buf)" by (rule prod.exhaust)
  obtain r s' where k: "log_write io buf s = (r, s')" by (rule prod.exhaust)
  let ?new = "case r of Some n \<Rightarrow> take n buf | None \<Rightarrow> []"
  note ok = log_write_ok [OF Cons.prems(1) k]
  have "suffix (log_live s') (all @ ?new)"
  proof (cases r)
    case None
    then show ?thesis using ok Cons.prems(2) by auto
  next
    case (Some n)
    then consider "log_live s' = take n buf" | "log_live s' = log_live s @ take n buf" using ok by auto
    then show ?thesis using Some Cons.prems(2) by cases (auto simp: suffix_def)
  qed
  moreover have "length (log_live s') \<le> m"
    using ok Cons.prems(3,4,5) by (auto simp: w split: option.splits)
  ultimately have "log_inv (log_run ws s') \<and> suffix (log_live (log_run ws s')) ((all @ ?new) @ log_taken ws s')
      \<and> length (log_live (log_run ws s')) \<le> m"
    using Cons.IH [of s' "all @ ?new"] ok Cons.prems(4,5) by simp
  moreover have "log_run (w # ws) s = log_run ws s'" by (simp add: log_run_def w k)
  moreover have "log_taken (w # ws) s = ?new @ log_taken ws s'" by (simp add: w k split: option.split)
  ultimately show ?case by simp
qed

lemma log_open_ok:
  "log_open dir_ok rename_ok open_ok max_bytes files = Some s \<Longrightarrow> log_inv s \<and> log_live s = [] \<and> rl_max_bytes s = max_bytes
     \<and> \<not> rl_on_previous s \<and> (if rename_ok \<and> fst files \<noteq> None then rl_previous s = fst files else rl_previous s = snd files)"
  by (cases files) (auto simp: log_open_def log_start_def log_inv_def log_live_def Let_def split: if_splits)

lemma log_write_good:
  assumes "log_inv s" "\<not> rl_on_previous s" "io_rename io" "io_open io" "log_write io buf s = (r, s')"
    and "suffix (the (rl_previous s) @ log_live s) all" "rl_previous s \<noteq> None"
  shows "\<not> rl_on_previous s' \<and> rl_previous s' \<noteq> None
    \<and> suffix (the (rl_previous s') @ log_live s') (all @ (case r of Some n \<Rightarrow> take n buf | None \<Rightarrow> []))"
proof -
  let ?full = "0 < rl_written s \<and> rl_max_bytes s < rl_written s + length buf"
  obtain ok s1 where s1: "(if ?full then log_rotate io s else (True, s)) = (ok, s1)" by fastforce
  have i: "ok" "log_inv s1" "\<not> rl_on_previous s1" "rl_previous s1 \<noteq> None"
      "(rl_previous s1 = Some (log_live s) \<and> log_live s1 = []) \<or> s1 = s"
    using s1 assms(1-4,7) log_rotate_ok [OF assms(1), of io ok s1] by (auto split: if_splits)
  have p: "suffix (the (rl_previous s1) @ log_live s1) all"
    using i(5) assms(6) by (auto dest: suffix_appendD)
  show ?thesis
  proof (cases "io_taken io")
    case None
    then have "r = None" "s' = s1" using assms(5) s1 i(1) by (auto simp: log_write_def)
    then show ?thesis using i p by simp
  next
    case (Some n)
    let ?n = "min n (length buf)"
    have r: "r = Some ?n" "s' = (handle_append (take ?n buf) s1)\<lparr>rl_written := rl_written s1 + ?n\<rparr>"
      using assms(5) s1 i(1) Some by (auto simp: log_write_def Let_def)
    have "log_live s' = log_live s1 @ take ?n buf" "rl_previous s' = rl_previous s1" "\<not> rl_on_previous s'"
      using handle_append_ok(2) [OF i(2)] i(3) unfolding r(2) by (simp_all add: handle_append_def)
    then show ?thesis using p i(4) unfolding r(1) by (auto simp: suffix_def)
  qed
qed

lemma log_run_good:
  "log_inv s \<Longrightarrow> \<not> rl_on_previous s \<Longrightarrow> rl_previous s \<noteq> None \<Longrightarrow> suffix (the (rl_previous s) @ log_live s) all \<Longrightarrow>
   list_all (\<lambda>w. io_rename (fst w) \<and> io_open (fst w)) ws \<Longrightarrow>
   \<not> rl_on_previous (log_run ws s) \<and> rl_previous (log_run ws s) \<noteq> None
    \<and> suffix (the (rl_previous (log_run ws s)) @ log_live (log_run ws s)) (all @ log_taken ws s)"
proof (induction ws arbitrary: s all)
  case Nil
  then show ?case by (simp add: log_run_def)
next
  case (Cons w ws)
  obtain io buf where w: "w = (io, buf)" by (rule prod.exhaust)
  obtain r s' where k: "log_write io buf s = (r, s')" by (rule prod.exhaust)
  let ?new = "case r of Some n \<Rightarrow> take n buf | None \<Rightarrow> []"
  have io: "io_rename io" "io_open io" using Cons.prems(5) by (simp_all add: w)
  note g = log_write_good [OF Cons.prems(1,2) io k Cons.prems(4,3)]
  have "log_inv s'" using log_write_ok [OF Cons.prems(1) k] by simp
  then have "\<not> rl_on_previous (log_run ws s') \<and> rl_previous (log_run ws s') \<noteq> None
      \<and> suffix (the (rl_previous (log_run ws s')) @ log_live (log_run ws s')) ((all @ ?new) @ log_taken ws s')"
    using Cons.IH [of s' "all @ ?new"] g Cons.prems(5) by simp
  moreover have "log_run (w # ws) s = log_run ws s'" by (simp add: log_run_def w k)
  moreover have "log_taken (w # ws) s = ?new @ log_taken ws s'" by (simp add: w k split: option.split)
  ultimately show ?case by simp
qed

text \<open>
  The engine's log: whatever renames, opens and writes fail, the file written to holds the newest bytes
  logged and never grows past the limit unless a single record is longer; if renames and opens
  succeed, the two files together are the newest bytes of the previous run's log and this one's,
  without a gap.
\<close>
theorem engine_log_bounded:
  assumes "log_open dir_ok rename_ok open_ok max_bytes (Some before, previous) = Some s"
    and "list_all (\<lambda>w. length (snd w) \<le> max_bytes) ws"
  shows "let s' = log_run ws s in length (log_live s') \<le> max_bytes \<and> suffix (log_live s') (log_taken ws s)
    \<and> (if rename_ok \<and> list_all (\<lambda>w. io_rename (fst w) \<and> io_open (fst w)) ws
       then suffix (the (rl_previous s') @ log_live s') (before @ log_taken ws s) \<and> \<not> rl_on_previous s' else True)"
proof -
  note o = log_open_ok [OF assms(1)]
  have a: "length (log_live (log_run ws s)) \<le> max_bytes" "suffix (log_live (log_run ws s)) (log_taken ws s)"
    using log_run_ok [of s "[]" max_bytes ws] o assms(2) by simp_all
  have "suffix (the (rl_previous (log_run ws s)) @ log_live (log_run ws s)) (before @ log_taken ws s) \<and> \<not> rl_on_previous (log_run ws s)"
    if "rename_ok" "list_all (\<lambda>w. io_rename (fst w) \<and> io_open (fst w)) ws"
    using log_run_good [of s before ws] o that by simp
  with a show ?thesis by (simp add: Let_def)
qed

definition good_io :: log_io where "good_io = \<lparr>io_rename = True, io_open = True, io_taken = Some 100\<rparr>"

theorem engine_log_bounded_witness:
  "\<exists>s. log_open True True True 4 (Some [9], None) = Some s
     \<and> log_live (log_run [(good_io, [1, 2]), (good_io, [3, 4, 5])] s) = [3, 4, 5]
     \<and> suffix (the (rl_previous (log_run [(good_io, [1, 2]), (good_io, [3, 4, 5])] s)) @ [3, 4, 5]) [9, 1, 2, 3, 4, 5]"
proof -
  define s where "s = \<lparr>rl_current = Some [], rl_previous = Some [9 :: u8], rl_on_previous = False, rl_written = 0, rl_max_bytes = 4\<rparr>"
  have o: "log_open True True True 4 (Some [9], None) = Some s" by (simp add: log_open_def log_start_def s_def)
  let ?ws = "[(good_io, [1 :: u8, 2]), (good_io, [3, 4, 5])]"
  have l: "list_all (\<lambda>w. length (snd w) \<le> 4) ?ws" "list_all (\<lambda>w. io_rename (fst w) \<and> io_open (fst w)) ?ws"
    by (simp_all add: good_io_def)
  have c: "log_live (log_run ?ws s) = [3, 4, 5]" "log_taken ?ws s = [1, 2, 3, 4, 5]"
    by (simp_all add: log_run_def log_write_def log_rotate_def log_start_def handle_append_def log_live_def good_io_def s_def)
  show ?thesis using engine_log_bounded [OF o l(1)] o c l(2) by (simp add: Let_def)
qed

end
