(* ===== verification/Scenario.thy ===== *)
theory Scenario imports MockClient Synthetic Status Recording Session "HOL-Library.AList" "HOL-Library.Multiset" begin

text \<open>
  The simulator's scenario runner (\<open>simulator/scenario.rs\<close>), its port and PIN helpers
  (\<open>simulator/test_helpers.rs\<close>) and the injected packet loss (\<open>transport/udp.rs\<close>): the timed
  stimuli, the configuration overrides, the pacing of the synthetic frames and the verdict. serde's
  derived parser of a scenario, the threads and the sockets are left out; what a port probe, a poll of
  status.json or a directory entry yields is an input.
\<close>

section \<open>Injected packet loss\<close>

definition set_simulator_loss_pct :: "u8 \<Rightarrow> u8" where "set_simulator_loss_pct pct = min pct 100"

text \<open>\<open>random\<close>: the byte drawn.\<close>

definition should_drop_packet :: "u8 \<Rightarrow> u8 \<Rightarrow> bool" where
  "should_drop_packet loss_pct random = (if 0 < loss_pct then random mod 100 < loss_pct else False)"

text \<open>\<open>send_all\<close>: each packet with the byte drawn and whether the socket takes it; the first error ends it.\<close>

fun udp_send_all :: "u8 \<Rightarrow> (bytes \<times> u8 \<times> bool) list \<Rightarrow> bool \<times> bytes list" where
  "udp_send_all loss_pct [] = (True, [])"
| "udp_send_all loss_pct ((p, random, ok) # ps) =
     (if should_drop_packet loss_pct random then udp_send_all loss_pct ps
      else if \<not> ok then (False, [])
      else let (r, sent) = udp_send_all loss_pct ps in (r, p # sent))"

section \<open>Stimuli\<close>

datatype stimulus =
  QueueHaptic fl haptic_event
| SetLossPct fl u8
| ClearLossPct fl
| InjectFrameLatency fl nat
| ClearFrameLatency fl

fun at_sec :: "stimulus \<Rightarrow> fl" where
  "at_sec (QueueHaptic t e) = t"
| "at_sec (SetLossPct t pct) = t"
| "at_sec (ClearLossPct t) = t"
| "at_sec (InjectFrameLatency t us) = t"
| "at_sec (ClearFrameLatency t) = t"

record sim_knobs =
  sk_haptics :: haptic_state
  sk_loss_pct :: u8
  sk_frame_latency_us :: nat

fun execute :: "stimulus \<Rightarrow> sim_knobs \<Rightarrow> sim_knobs" where
  "execute (QueueHaptic t e) k = k\<lparr>sk_haptics := queue_haptic e (sk_haptics k)\<rparr>"
| "execute (SetLossPct t pct) k = k\<lparr>sk_loss_pct := set_simulator_loss_pct pct\<rparr>"
| "execute (ClearLossPct t) k = k\<lparr>sk_loss_pct := set_simulator_loss_pct 0\<rparr>"
| "execute (InjectFrameLatency t us) k = k\<lparr>sk_frame_latency_us := us\<rparr>"
| "execute (ClearFrameLatency t) k = k\<lparr>sk_frame_latency_us := 0\<rparr>"

text \<open>
  \<open>Duration::from_secs_f64\<close>, to the nearest nanosecond; \<open>None\<close> where it panics.
\<close>

definition from_secs_f64 :: "fl \<Rightarrow> duration option" where
  "from_secs_f64 x =
     (case x of Fin r \<Rightarrow> if r < 0 \<or> 2 ^ 64 \<le> r then None else Some (nat (rne (r * 1000000000))) | _ \<Rightarrow> None)"

text \<open>\<open>sort_by\<close> on \<open>partial_cmp\<close> is stable; a time that is not finite has no place in JSON.\<close>

definition at_key :: "stimulus \<Rightarrow> rat" where
  "at_key s = (case at_sec s of Fin r \<Rightarrow> r | _ \<Rightarrow> 0)"

definition sort_stimuli :: "stimulus list \<Rightarrow> stimulus list" where
  "sort_stimuli ss = sort_key at_key ss"

text \<open>
  The scheduler thread: when it fires each stimulus, with the time at which the run is cancelled.
  \<open>None\<close> if a conversion panics.
\<close>

fun fire_stimuli :: "instant \<Rightarrow> instant \<Rightarrow> stimulus list \<Rightarrow> (instant \<times> stimulus) list option" where
  "fire_stimuli cancel now [] = Some []"
| "fire_stimuli cancel now (s # ss) =
     (if cancel \<le> now then Some []
      else case from_secs_f64 (at_sec s) of
          None \<Rightarrow> None
        | Some target \<Rightarrow>
            let now = max now target in
            if cancel \<le> now then Some []
            else map_option (\<lambda>rest. (now, s) # rest) (fire_stimuli cancel now ss))"

section \<open>The frame pump\<close>

definition frame_period :: "nat \<Rightarrow> duration option" where
  "frame_period fps = from_secs_f64 (f_div b64 (Fin 1) (f_of_nat b64 fps))"

text \<open>After a frame: how long to sleep, and when the next one is due.\<close>

definition pump_pace :: "duration \<Rightarrow> nat \<Rightarrow> instant \<Rightarrow> instant \<Rightarrow> duration \<times> instant" where
  "pump_pace period extra_us now next_tick =
     (let next_tick = next_tick + (period + extra_us * nanos_per_us)
      in if now < next_tick then (next_tick - now, next_tick) else (0, now))"

text \<open>The frame handed to the engine.\<close>

definition pump_frame :: "nal_frame \<Rightarrow> frame_timestamps \<Rightarrow> encoded_frame" where
  "pump_frame synth ts =
     \<lparr>ef_frame_index = nf_frame_index synth, ef_nal_data = nf_bytes synth, ef_is_idr = nf_is_idr synth,
      ef_timestamps = ts, ef_orientation = None\<rparr>"

section \<open>The scenario's client\<close>

datatype pin_source = StatusJson | WrongPin

datatype tracking_pattern = TpStill | TpSineWave fl fl

definition into_pose_mode :: "tracking_pattern \<Rightarrow> pose_mode" where
  "into_pose_mode p =
     (case p of TpStill \<Rightarrow> still_origin | TpSineWave amp_m hz \<Rightarrow> SineWave default_head amp_m hz None None)"

datatype face_pattern = FpRelax | FpExaggerate | FpSineSweep fl | FpBlink fl | FpTalk fl | FpSmile fl | FpFrown fl

fun into_face_mode :: "face_pattern \<Rightarrow> face_mode" where
  "into_face_mode FpRelax = Relax"
| "into_face_mode FpExaggerate = Exaggerate"
| "into_face_mode (FpSineSweep hz) = SineSweep hz"
| "into_face_mode (FpBlink hz) = Blink hz"
| "into_face_mode (FpTalk hz) = Talk hz"
| "into_face_mode (FpSmile intensity) = Smile intensity"
| "into_face_mode (FpFrown intensity) = Frown intensity"

record scenario_client =
  sc_pin_source :: pin_source
  sc_duration_sec :: fl
  sc_tracking_pattern :: "tracking_pattern option"
  sc_face_pattern :: "face_pattern option"
  sc_capture_haptic :: bool
  sc_capture_sleep_events :: bool
  sc_measure_decode_latency :: bool
  sc_receive_audio :: bool
  sc_osc_listen_port :: "u16 option"

definition scenario_pin :: "pin_source \<Rightarrow> u32 option \<Rightarrow> u32 option" where
  "scenario_pin src published =
     (case published of
        None \<Rightarrow> None
      | Some pin \<Rightarrow> (case src of StatusJson \<Rightarrow> Some pin | WrongPin \<Rightarrow> Some ((pin + 123456) mod 1000000)))"

text \<open>\<open>picked\<close>: the port found free where one is needed.\<close>

definition scenario_osc_port :: "u16 \<Rightarrow> scenario_client \<Rightarrow> u16 option" where
  "scenario_osc_port picked c =
     (if sc_face_pattern c \<noteq> None
      then Some (case sc_osc_listen_port c of Some p \<Rightarrow> p | None \<Rightarrow> picked)
      else sc_osc_listen_port c)"

definition scenario_client_config ::
    "u16 \<Rightarrow> u16 \<Rightarrow> u32 \<Rightarrow> duration \<Rightarrow> u16 option \<Rightarrow> scenario_client \<Rightarrow> mock_client_config option" where
  "scenario_client_config tcp udp pin dur osc_port c =
     map_option (\<lambda>cfg. cfg\<lparr>mc_duration := Some dur,
         mc_face_pattern := map_option into_face_mode (sc_face_pattern c), mc_osc_listen_port := osc_port,
         mc_capture_haptic := sc_capture_haptic c, mc_capture_sleep_events := sc_capture_sleep_events c,
         mc_measure_decode_latency := sc_measure_decode_latency c, mc_receive_audio := sc_receive_audio c\<rparr>)
       (from_ports (V4 0x7F000001) tcp udp pin)"

section \<open>Configuration overrides\<close>

text \<open>\<open>path.split('.')\<close>.\<close>

fun split_dots :: "string \<Rightarrow> string list" where
  "split_dots [] = [[]]"
| "split_dots (c # cs) =
     (if c = DOT then [] # split_dots cs
      else case split_dots cs of p # ps \<Rightarrow> (c # p) # ps | [] \<Rightarrow> [[c]])"

fun set_parts :: "string list \<Rightarrow> json \<Rightarrow> json \<Rightarrow> json option" where
  "set_parts [] j v = Some j"
| "set_parts [part] j v = (case j of JObj members \<Rightarrow> Some (JObj (AList.update part v members)) | _ \<Rightarrow> None)"
| "set_parts (part # parts) j v =
     (case j of
        JObj members \<Rightarrow>
          (case map_of members part of
             None \<Rightarrow> None
           | Some sub \<Rightarrow> map_option (\<lambda>sub. JObj (AList.update part sub members)) (set_parts parts sub v))
      | _ \<Rightarrow> None)"

definition set_at_path :: "json \<Rightarrow> string \<Rightarrow> json \<Rightarrow> json option" where
  "set_at_path j path v = set_parts (split_dots path) j v"

text \<open>\<open>apply_config_overrides\<close>: serde's two conversions are parameters.\<close>

fun set_all :: "(string \<times> json) list \<Rightarrow> json \<Rightarrow> json option" where
  "set_all [] j = Some j"
| "set_all ((path, v) # rest) j = (case set_at_path j path v of None \<Rightarrow> None | Some j \<Rightarrow> set_all rest j)"

definition apply_config_overrides ::
    "('c \<Rightarrow> json option) \<Rightarrow> (json \<Rightarrow> 'c option) \<Rightarrow> (string \<times> json) list \<Rightarrow> 'c \<Rightarrow> 'c option" where
  "apply_config_overrides to_value from_value overrides config =
     (if overrides = [] then Some config
      else case to_value config of
          None \<Rightarrow> None
        | Some j \<Rightarrow> (case set_all overrides j of None \<Rightarrow> None | Some j \<Rightarrow> from_value j))"

definition ascii_lower :: "string \<Rightarrow> string" where
  "ascii_lower s = map (\<lambda>c. let k = of_char c :: nat in if 65 \<le> k \<and> k \<le> 90 then char_of (k + 32) else c) s"

definition config_video_codec :: "(string \<times> json) list \<Rightarrow> video_codec option" where
  "config_video_codec overrides =
     (case map_of overrides ''video.codec'' of
        None \<Rightarrow> None
      | Some v \<Rightarrow>
          (case as_str v of
             None \<Rightarrow> None
           | Some s \<Rightarrow>
               let l = ascii_lower s in
               if l = ''h264'' \<or> l = ''avc'' then Some H264 else if l = ''h265'' \<or> l = ''hevc'' then Some H265 else None))"

section \<open>The verdict\<close>

record recording_check =
  rk_dir :: string
  rk_min_bytes :: nat

record assertions =
  aa_min_frames_decoded :: "nat option"
  aa_min_idr_frames :: "nat option"
  aa_min_heartbeats_sent :: "nat option"
  aa_min_video_packets :: "nat option"
  aa_min_audio_packets :: "nat option"
  aa_max_connect_duration_ms :: "nat option"
  aa_expect_pin_rejected :: "bool option"
  aa_expect_osc_addresses :: "bytes list option"
  aa_min_osc_messages :: "nat option"
  aa_min_face_messages_sent :: "nat option"
  aa_min_haptic_events_received :: "nat option"
  aa_min_sleep_enter_count :: "nat option"
  aa_min_sleep_exit_count :: "nat option"
  aa_max_video_packets :: "nat option"
  aa_expect_recording_files :: "recording_check option"
  aa_max_decode_latency_us_p99 :: "nat option"
  aa_min_decode_latency_samples :: "nat option"

text \<open>What a run measured beyond the counters: the connect time, the OSC capture, the latencies.\<close>

record run_stats =
  rn_stats :: mock_stats
  rn_connect_duration :: duration
  rn_osc_messages :: "(bytes \<times> u32 list) list"
  rn_latency :: "nat \<times> nat \<times> nat \<times> nat"

text \<open>\<open>measure_recording_dir\<close>: an entry that cannot be read is \<open>None\<close>, one whose size is unknown has none.\<close>

definition sat_add_u64 :: "nat \<Rightarrow> nat \<Rightarrow> nat" where "sat_add_u64 a b = min (a + b) (2 ^ 64 - 1)"

fun measure_entries :: "(string \<times> nat option) option list \<Rightarrow> nat \<Rightarrow> nat option" where
  "measure_entries [] sum_bytes = Some sum_bytes"
| "measure_entries (None # es) sum_bytes = None"
| "measure_entries (Some (name, sz) # es) sum_bytes =
     measure_entries es
       (if snd (split_extension name) \<in> {''.h265'', ''.h264'', ''.wav''}
        then (case sz of Some n \<Rightarrow> sat_add_u64 sum_bytes n | None \<Rightarrow> sum_bytes) else sum_bytes)"

definition measure_recording_dir :: "(string \<times> nat option) option list option \<Rightarrow> bool \<Rightarrow> nat option" where
  "measure_recording_dir entries exist =
     (if \<not> exist then Some 0 else case entries of None \<Rightarrow> None | Some es \<Rightarrow> measure_entries es 0)"

datatype scenario_failure =
  PinRejection bool bool
| TooFew string nat nat
| TooMany string nat nat
| MissingAddress bytes
| RecordingTooSmall nat nat
| RecordingUnreadable

definition at_least :: "string \<Rightarrow> nat option \<Rightarrow> nat \<Rightarrow> scenario_failure list" where
  "at_least name bound n = (case bound of Some m \<Rightarrow> if n < m then [TooFew name m n] else [] | None \<Rightarrow> [])"

definition at_most :: "string \<Rightarrow> nat option \<Rightarrow> nat \<Rightarrow> scenario_failure list" where
  "at_most name bound n = (case bound of Some m \<Rightarrow> if m < n then [TooMany name m n] else [] | None \<Rightarrow> [])"

definition evaluate_assertions ::
    "(string \<Rightarrow> nat option) \<Rightarrow> assertions \<Rightarrow> run_stats option \<Rightarrow> bool \<Rightarrow> scenario_failure list" where
  "evaluate_assertions measure_dir a stats pin_rejected =
     (case aa_expect_pin_rejected a of
        Some e \<Rightarrow> if e \<noteq> pin_rejected then [PinRejection e pin_rejected] else [] | None \<Rightarrow> []) @
     (case stats of
        None \<Rightarrow> []
      | Some r \<Rightarrow>
          let s = rn_stats r; (p50, p95, p99, samples) = rn_latency r in
          at_least ''min_frames_decoded'' (aa_min_frames_decoded a) (ms_frames_decoded s)
          @ at_least ''min_idr_frames'' (aa_min_idr_frames a) (ms_idr_frames_seen s)
          @ at_least ''min_heartbeats_sent'' (aa_min_heartbeats_sent a) (ms_heartbeats_sent s)
          @ at_least ''min_video_packets'' (aa_min_video_packets a) (ms_video_packets_received s)
          @ at_least ''min_audio_packets'' (aa_min_audio_packets a) (ms_audio_packets_received s)
          @ (case aa_max_connect_duration_ms a of
               Some ms \<Rightarrow> if ms * nanos_per_ms < rn_connect_duration r
                 then [TooMany ''max_connect_duration'' ms (rn_connect_duration r)] else []
             | None \<Rightarrow> [])
          @ at_least ''min_face_messages_sent'' (aa_min_face_messages_sent a) (ms_face_messages_sent s)
          @ at_least ''min_haptic_events_received'' (aa_min_haptic_events_received a) (length (ms_haptic_events_received s))
          @ at_least ''min_sleep_enter_count'' (aa_min_sleep_enter_count a) (ms_sleep_enter_count s)
          @ at_least ''min_sleep_exit_count'' (aa_min_sleep_exit_count a) (ms_sleep_exit_count s)
          @ (case aa_expect_osc_addresses a of
               Some expected \<Rightarrow> map MissingAddress (filter (\<lambda>addr. map_of (rn_osc_messages r) addr = None) expected)
             | None \<Rightarrow> [])
          @ at_least ''min_osc_messages'' (aa_min_osc_messages a) (sum_list (map (\<lambda>m. length (snd m)) (rn_osc_messages r)))
          @ at_most ''max_video_packets'' (aa_max_video_packets a) (ms_video_packets_received s)
          @ (case aa_expect_recording_files a of
               Some check \<Rightarrow>
                 (case measure_dir (rk_dir check) of
                    Some sum_bytes \<Rightarrow> if rk_min_bytes check \<le> sum_bytes then [] else [RecordingTooSmall sum_bytes (rk_min_bytes check)]
                  | None \<Rightarrow> [RecordingUnreadable])
             | None \<Rightarrow> [])
          @ at_least ''min_decode_latency_samples'' (aa_min_decode_latency_samples a) samples
          @ at_most ''max_decode_latency_us_p99'' (aa_max_decode_latency_us_p99 a) p99)"

datatype report_failures = ClientFailed client_error | Failed "scenario_failure list"

record scenario_report =
  rp_passed :: bool
  rp_failures :: report_failures
  rp_stats :: "run_stats option"

text \<open>The end of \<open>run_scenario\<close>.\<close>

definition scenario_verdict ::
    "(string \<Rightarrow> nat option) \<Rightarrow> assertions \<Rightarrow> client_error + run_stats \<Rightarrow> scenario_report" where
  "scenario_verdict measure_dir a result =
     (case result of
        Inl e \<Rightarrow>
          if e = ClientPinRejected
          then let fs = evaluate_assertions measure_dir a None True
               in \<lparr>rp_passed = (fs = []), rp_failures = Failed fs, rp_stats = None\<rparr>
          else \<lparr>rp_passed = False, rp_failures = ClientFailed e, rp_stats = None\<rparr>
      | Inr stats \<Rightarrow>
          let fs = evaluate_assertions measure_dir a (Some stats) False
          in \<lparr>rp_passed = (fs = []), rp_failures = Failed fs, rp_stats = Some stats\<rparr>)"

section \<open>Ports and the published PIN\<close>

text \<open>\<open>try_reserve_block\<close>, with what binding a TCP or UDP port yields.\<close>

definition try_reserve_block :: "(u16 \<Rightarrow> bool) \<Rightarrow> (u16 \<Rightarrow> bool) \<Rightarrow> u16 \<Rightarrow> bool" where
  "try_reserve_block tcp_free udp_free base =
     (if 2 ^ 16 \<le> unat base + 4 then False
      else tcp_free base \<and> list_all (\<lambda>i. udp_free (base + i)) [1, 2, 3, 4])"

text \<open>\<open>tcp\<close> and \<open>udp\<close>: the ports the system picks in the fallback.\<close>

definition pick_free_ports :: "(u16 \<Rightarrow> bool) \<Rightarrow> (u16 \<Rightarrow> bool) \<Rightarrow> u16 \<Rightarrow> u16 \<Rightarrow> u16 \<times> u16" where
  "pick_free_ports tcp_free udp_free tcp udp =
     (case List.find (try_reserve_block tcp_free udp_free) (map (\<lambda>i. of_nat (20000 + 8 * i)) [0..<1250]) of
        Some base \<Rightarrow> (base, base + 1)
      | None \<Rightarrow> (tcp, if udp = tcp then max (udp + 1) 1024 else udp))"

definition next_port :: "u16 \<Rightarrow> u16" where "next_port p = max (p + 1) 1024"

text \<open>The \<open>while\<close> loop of the fallback; as many passes as ports to avoid are enough.\<close>

fun skip_ports :: "nat \<Rightarrow> u16 list \<Rightarrow> u16 \<Rightarrow> u16 option" where
  "skip_ports 0 exclude p = (if p \<in> set exclude then None else Some p)"
| "skip_ports (Suc n) exclude p = (if p \<in> set exclude then skip_ports n exclude (next_port p) else Some p)"

definition pick_free_udp_port_excluding :: "u16 list \<Rightarrow> u16 list \<Rightarrow> u16 \<Rightarrow> u16 option" where
  "pick_free_udp_port_excluding picks exclude last_pick =
     (case List.find (\<lambda>p. p \<notin> set exclude) (take 256 picks) of
        Some p \<Rightarrow> Some p
      | None \<Rightarrow> skip_ports (length exclude) exclude last_pick)"

text \<open>\<open>str::parse::<u32>\<close>.\<close>

definition parse_u32 :: "string \<Rightarrow> u32 option" where
  "parse_u32 s =
     (case parse_decimal (if take 1 s = ''+'' then drop 1 s else s) of
        Some n \<Rightarrow> if n < 2 ^ 32 then Some (of_nat n) else None | None \<Rightarrow> None)"

definition pin_of_status :: "json \<Rightarrow> u32 option" where
  "pin_of_status v =
     (case json_get ''pin'' v of
        Some j \<Rightarrow> (case as_str j of Some s \<Rightarrow> if s \<noteq> ''------'' then parse_u32 s else None | None \<Rightarrow> None)
      | None \<Rightarrow> None)"

text \<open>The polls before the deadline, each the text of the file if it could be read.\<close>

definition wait_for_pin :: "(string \<Rightarrow> json option) \<Rightarrow> string option list \<Rightarrow> u32 option" where
  "wait_for_pin from_str polls =
     (case List.map_filter (\<lambda>content. Option.bind (Option.bind content from_str) pin_of_status) polls of
        p # _ \<Rightarrow> Some p | [] \<Rightarrow> None)"

section \<open>Stimuli fire at their times\<close>

definition fires_at :: "stimulus \<Rightarrow> instant" where "fires_at s = the (from_secs_f64 (at_sec s))"

definition timed_ok :: "stimulus \<Rightarrow> bool" where
  "timed_ok s \<longleftrightarrow> (case at_sec s of Fin r \<Rightarrow> 0 \<le> r \<and> r < 2 ^ 64 | _ \<Rightarrow> False)"

lemma timed_okD: "timed_ok s \<Longrightarrow> from_secs_f64 (at_sec s) = Some (fires_at s) \<and> fires_at s = nat (rne (at_key s * 1000000000))"
  by (auto simp: timed_ok_def fires_at_def from_secs_f64_def at_key_def split: fl.splits)

lemma fires_mono: "timed_ok s \<Longrightarrow> timed_ok s' \<Longrightarrow> at_key s \<le> at_key s' \<Longrightarrow> fires_at s \<le> fires_at s'"
  using rne_mono [of "at_key s * 1000000000" "at_key s' * 1000000000"] by (simp add: timed_okD nat_mono)

lemma fire_sorted:
  "list_all timed_ok ss \<Longrightarrow> sorted (map at_key ss) \<Longrightarrow> list_all (\<lambda>s. now \<le> fires_at s) ss \<Longrightarrow>
   fire_stimuli cancel now ss = Some (filter (\<lambda>e. fst e < cancel) (map (\<lambda>s. (fires_at s, s)) ss))"
proof (induction ss arbitrary: now)
  case Nil
  then show ?case by simp
next
  case (Cons s ss)
  have later: "list_all (\<lambda>s'. fires_at s \<le> fires_at s') ss"
    using Cons.prems(1,2) fires_mono by (auto simp: list_all_iff)
  have f: "from_secs_f64 (at_sec s) = Some (fires_at s)" "max now (fires_at s) = fires_at s"
    using Cons.prems(1,3) timed_okD by (auto simp: max_def)
  show ?case
  proof (cases "cancel \<le> fires_at s")
    case True
    then have "filter (\<lambda>e. fst e < cancel) (map (\<lambda>s. (fires_at s, s)) (s # ss)) = []"
      using later by (auto simp: filter_empty_conv list_all_iff)
    then show ?thesis using True f by auto
  next
    case False
    then show ?thesis using Cons later f by (auto simp: Let_def)
  qed
qed

text \<open>
  However a scenario orders its stimuli, exactly those whose time comes before the run is cancelled
  fire, each once, at its own time and in the order of the times (those with equal times in the
  order of the file), and no conversion panics.
\<close>
theorem stimuli_fire_in_time:
  assumes "list_all timed_ok ss"
  shows "fire_stimuli cancel 0 (sort_stimuli ss) =
     Some (filter (\<lambda>e. fst e < cancel) (map (\<lambda>s. (fires_at s, s)) (sort_stimuli ss)))
   \<and> mset (sort_stimuli ss) = mset ss \<and> sorted (map fires_at (sort_stimuli ss))
   \<and> filter (\<lambda>s. at_key s = k) (sort_stimuli ss) = filter (\<lambda>s. at_key s = k) ss"
proof -
  have ok: "list_all timed_ok (sort_stimuli ss)" using assms by (simp add: sort_stimuli_def list_all_iff)
  have srt: "sorted (map at_key (sort_stimuli ss))" by (simp add: sort_stimuli_def)
  have "sorted (map fires_at xs)" if "list_all timed_ok xs" "sorted (map at_key xs)" for xs
    using that by (induction xs) (auto simp: list_all_iff intro: fires_mono)
  with fire_sorted [OF ok srt] ok srt show ?thesis
    by (simp add: sort_stimuli_def list_all_iff sort_key_stable)
qed

section \<open>Overrides\<close>

fun json_at :: "string list \<Rightarrow> json \<Rightarrow> json option" where
  "json_at [] j = Some j"
| "json_at (p # ps) j = Option.bind (json_get p j) (json_at ps)"

fun related :: "'a list \<Rightarrow> 'a list \<Rightarrow> bool" where
  "related (p # ps) (q # qs) = (p = q \<and> related ps qs)"
| "related _ _ = True"

lemma split_dots_nonempty: "split_dots s \<noteq> []"
  by (cases s) (auto split: list.split)

lemma set_parts_exact:
  "set_parts ps j v = Some j' \<Longrightarrow> ps \<noteq> [] \<Longrightarrow>
   json_at ps j' = Some v \<and> (if related ps qs then True else json_at qs j' = json_at qs j)"
proof (induction ps j v arbitrary: j' qs rule: set_parts.induct)
  case (1 j v)
  then show ?case by simp
next
  case (2 part j v)
  then obtain members where "j = JObj members" "j' = JObj (AList.update part v members)"
    by (auto split: json.splits)
  then show ?case by (cases qs) (auto simp: update_conv')
next
  case (3 part p ps j v)
  then obtain members sub sub' where m: "j = JObj members" "map_of members part = Some sub"
      "set_parts (p # ps) sub v = Some sub'" "j' = JObj (AList.update part sub' members)"
    by (auto split: json.splits option.splits)
  show ?case using 3(1) [OF m(1,2,3)] m by (cases qs) (auto simp: update_conv')
qed

text \<open>
  An override sets exactly the setting its dotted path names: afterwards the value is found there, and
  every setting that is neither inside it nor around it is what it was.
\<close>
theorem override_exact:
  assumes "set_at_path j path v = Some j'"
  shows "json_at (split_dots path) j' = Some v
    \<and> (if related (split_dots path) qs then True else json_at qs j' = json_at qs j)"
  using set_parts_exact [OF assms [unfolded set_at_path_def] split_dots_nonempty] .

theorem override_exact_witness:
  "let j = JObj [(''video'', JObj [(''codec'', JStr ''h265''), (''framerate'', JU64 90)])];
       j' = JObj [(''video'', JObj [(''codec'', JStr ''h265''), (''framerate'', JU64 60)])] in
   set_at_path j ''video.framerate'' (JU64 60) = Some j'
   \<and> json_at [''video'', ''framerate''] j' = Some (JU64 60)
   \<and> json_at [''video'', ''codec''] j' = json_at [''video'', ''codec''] j"
proof -
  let ?j = "JObj [(''video'', JObj [(''codec'', JStr ''h265''), (''framerate'', JU64 90)])]"
  let ?j' = "JObj [(''video'', JObj [(''codec'', JStr ''h265''), (''framerate'', JU64 60)])]"
  have s: "split_dots ''video.framerate'' = [''video'', ''framerate'']" by code_simp
  have r: "set_at_path ?j ''video.framerate'' (JU64 60) = Some ?j'" by code_simp
  have n: "related [''video'', ''framerate''] [''video'', ''codec''] = False" by code_simp
  show ?thesis
    using r override_exact [OF r, of "[''video'', ''codec'']"] unfolding s n Let_def by (simp only: if_False simp_thms)
qed

theorem stimuli_fire_in_time_witness:
  "let ss = [SetLossPct (Fin 2) 30, QueueHaptic (Fin 1) \<lparr>he_controller_id = 0, he_duration_ms = 10, he_frequency = 0, he_amplitude = 0\<rparr>,
         ClearLossPct (Fin 3)] in
   fire_stimuli 2500000000 0 (sort_stimuli ss) = Some [(1000000000, ss ! 1), (2000000000, ss ! 0)]"
proof -
  let ?h = "QueueHaptic (Fin 1) \<lparr>he_controller_id = 0, he_duration_ms = 10, he_frequency = 0, he_amplitude = 0\<rparr>"
  let ?ss = "[SetLossPct (Fin 2) 30, ?h, ClearLossPct (Fin 3)]"
  have ok: "list_all timed_ok ?ss" by (simp add: timed_ok_def)
  have s: "sort_stimuli ?ss = [?h, SetLossPct (Fin 2) 30, ClearLossPct (Fin 3)]"
    by (simp add: sort_stimuli_def at_key_def)
  have r: "rne 1000000000 = 1000000000" "rne 2000000000 = 2000000000" "rne 3000000000 = 3000000000"
    using rne_of_int [of 1000000000] rne_of_int [of 2000000000] rne_of_int [of 3000000000] by simp_all
  show ?thesis
    using stimuli_fire_in_time [OF ok, of 2500000000 0] by (simp add: s fires_at_def from_secs_f64_def r)
qed

section \<open>Wrong PINs and the verdict\<close>

lemma wrong_pin_differs:
  fixes pin :: u32
  assumes "unat pin < 1000000"
  shows "(pin + 123456) mod 1000000 \<noteq> pin"
proof
  assume e: "(pin + 123456) mod 1000000 = pin"
  have "unat (pin + 123456) = unat pin + 123456"
    using assms by (subst unat_add_lem [THEN iffD1]) simp_all
  then have "(unat pin + 123456) mod 1000000 = unat pin"
    using arg_cong [OF e, of unat] by (simp add: unat_mod)
  with assms show False by (cases "unat pin + 123456 < 1000000") (simp_all add: le_mod_geq)
qed

text \<open>
  A scenario with a wrong PIN exercises the rejection, whatever the pairing state: the PIN it submits is
  never the published one, the engine rejects it, the client reports the rejection having sent only
  HELLO and the PIN, and the scenario passes unless it says that the PIN is to be accepted, even if
  it demands frames.
\<close>
theorem wrong_pin_scenario:
  assumes "unat (ps_pin (fst (sv_pairing sv))) < 1000000"
  shows "let pin = the (scenario_pin WrongPin (Some (ps_pin (fst (sv_pairing sv)))));
       (r, h) = handle_handshake_generic unix rand (start_handshake now (mock_peer now (client_script pin False)) sv);
       (r', c) = do_handshake pin \<lparr>cl_input = wire (hs_sent h), cl_sent = [], cl_accepts = 3\<rparr>
   in r = Inl PinRejected \<and> r' = Inl ClientPinRejected \<and> cl_sent c = client_script pin False
     \<and> (rp_passed (scenario_verdict measure_dir a (Inl ClientPinRejected)) \<longleftrightarrow> aa_expect_pin_rejected a \<noteq> Some False)"
proof -
  let ?pin = "(ps_pin (fst (sv_pairing sv)) + 123456) mod 1000000"
  obtain r sd where v: "verify now (unix now) rand (sv_disk_ok sv) ?pin (sv_pairing sv) = (r, sd)" by (rule prod.exhaust)
  have "r \<noteq> Inr ()"
    using verify_accepts_iff [of now "unix now" rand "sv_disk_ok sv" ?pin "fst (sv_pairing sv)" "snd (sv_pairing sv)"] v
      wrong_pin_differs [OF assms] by auto
  then have n: "(r = Inr ()) = False" by simp
  obtain h where h: "handle_handshake_generic unix rand (start_handshake now (mock_peer now (client_script ?pin False)) sv)
      = (Inl PinRejected, h)" "hs_sent h = server_answers sv False"
    using server_with_mock [where unix = unix, OF v] unfolding n by auto
  have "rp_passed (scenario_verdict measure_dir a (Inl ClientPinRejected)) \<longleftrightarrow> aa_expect_pin_rejected a \<noteq> Some False"
    by (auto simp: scenario_verdict_def evaluate_assertions_def Let_def split: option.split)
  then show ?thesis by (simp add: scenario_pin_def h client_with_server)
qed

theorem wrong_pin_scenario_witness:
  "let pin = the (scenario_pin WrongPin (Some (ps_pin (fst (sv_pairing sample_server)))));
       (r, h) = handle_handshake_generic (clock 0) 5 (start_handshake 0 (mock_peer 0 (client_script pin False)) sample_server);
       (r', c) = do_handshake pin \<lparr>cl_input = wire (hs_sent h), cl_sent = [], cl_accepts = 3\<rparr>
   in r = Inl PinRejected \<and> r' = Inl ClientPinRejected"
proof -
  have "ps_pin (fst (sv_pairing sample_server)) = 123456"
    by (simp add: sample_server_def server_new_def pairing_new_def lockout_load_def generate_pin_def)
  then have "unat (ps_pin (fst (sv_pairing sample_server))) < 1000000" by simp
  from wrong_pin_scenario [OF this, of "clock 0" 5 0] show ?thesis by (auto simp: Let_def split_beta)
qed

section \<open>A free port is found\<close>

definition port_after :: "nat \<Rightarrow> u16 \<Rightarrow> u16" where "port_after k p = (next_port ^^ k) p"

lemma skip_ports_search:
  "\<exists>k\<le>n. port_after k p \<notin> set exclude \<Longrightarrow> \<exists>q. skip_ports n exclude p = Some q \<and> q \<notin> set exclude"
proof (induction n arbitrary: p)
  case 0
  then show ?case by (simp add: port_after_def)
next
  case (Suc n)
  show ?case
  proof (cases "p \<in> set exclude")
    case True
    obtain k where k: "k \<le> Suc n" "port_after k p \<notin> set exclude" using Suc.prems by blast
    then obtain j where "k = Suc j" using True by (cases k) (auto simp: port_after_def)
    then have "port_after j (next_port p) \<notin> set exclude" "j \<le> n"
      using k by (simp_all add: port_after_def funpow_Suc_right del: funpow.simps)
    then show ?thesis using Suc.IH [of "next_port p"] True by auto
  qed simp
qed

lemma next_port_high: "1024 \<le> unat p \<Longrightarrow> unat (next_port p) = 1024 + (unat p - 1024 + 1) mod 64512"
proof -
  assume p: "1024 \<le> unat p"
  show ?thesis
  proof (cases "unat p = 65535")
    case True
    have "p = of_nat (unat p)" by simp
    then have "p = 65535" unfolding True by simp
    then show ?thesis by (simp add: next_port_def)
  next
    case False
    then have l: "unat p + 1 < 65536" using unat_less_length [of p] by simp
    then have "unat (p + 1) = unat p + 1" by (subst unat_add_lem [THEN iffD1]) simp_all
    moreover have "(unat p - 1024 + 1) mod 64512 = unat p - 1024 + 1" using p l by simp
    ultimately show ?thesis using p by (simp add: next_port_def max_def word_le_nat_alt)
  qed
qed

lemma port_after_high: "1024 \<le> unat p \<Longrightarrow> unat (port_after k p) = 1024 + (unat p - 1024 + k) mod 64512"
proof (induction k)
  case 0
  then show ?case using unat_less_length [of p] by (simp add: port_after_def)
next
  case (Suc k)
  have "unat (port_after (Suc k) p) = 1024 + (unat (port_after k p) - 1024 + 1) mod 64512"
    using next_port_high [of "port_after k p"] Suc by (simp add: port_after_def)
  then show ?case using Suc by (simp add: mod_Suc_eq)
qed

lemma next_port_min: "1024 \<le> unat (next_port p)"
  by (simp add: next_port_def max_def word_le_nat_alt)

lemma ports_distinct:
  assumes "n < 64512"
  shows "inj_on (\<lambda>k. port_after k p) {..n}"
proof -
  have step: "inj_on (\<lambda>k. port_after k q) {..m}" if q: "1024 \<le> unat q" and m: "m < 64512" for q m
  proof (rule inj_onI)
    fix i j
    assume "i \<in> {..m}" "j \<in> {..m}" "port_after i q = port_after j q"
    then have e: "1024 + (unat q - 1024 + i) mod 64512 = 1024 + (unat q - 1024 + j) mod 64512" and l: "i < 64512" "j < 64512"
      using port_after_high [OF q, of i] port_after_high [OF q, of j] m by simp_all
    then obtain a b where "unat q - 1024 + i + 64512 * a = unat q - 1024 + j + 64512 * b"
      unfolding add_left_cancel nat_mod_eq_iff by blast
    then have "(i + 64512 * a) mod 64512 = (j + 64512 * b) mod 64512" by simp
    then show "i = j" using l by simp
  qed
  show ?thesis
  proof (cases "1024 \<le> unat p")
    case True
    then show ?thesis using step assms by blast
  next
    case False
    show ?thesis
    proof (rule inj_onI)
      fix i j
      assume ij: "i \<in> {..n}" "j \<in> {..n}" "port_after i p = port_after j p"
      have s: "port_after (Suc k) p = port_after k (next_port p)" for k
        by (simp add: port_after_def funpow_Suc_right del: funpow.simps)
      have hi: "1024 \<le> unat (port_after (Suc k) p)" for k
        unfolding s using port_after_high [OF next_port_min] by simp
      have ne: "port_after (Suc k) p \<noteq> p" "p \<noteq> port_after (Suc k) p" for k
        using hi [of k] False by auto
      show "i = j"
      proof (cases i; cases j)
        fix i' j'
        assume "i = Suc i'" "j = Suc j'"
        then show ?thesis
          using ij step [OF next_port_min, of n p] assms s by (auto dest: inj_onD [where x = i' and y = j'])
      qed (use ij ne in \<open>auto simp: port_after_def [of 0]\<close>)
    qed
  qed
qed

text \<open>
  The search for a free port ends with one, and it is never a port to avoid, whatever ports the
  system offered and wherever the search wraps around, as long as fewer than 64512 are to be avoided.
\<close>
theorem free_port_found:
  assumes "length exclude < 64512"
  shows "\<exists>p. pick_free_udp_port_excluding picks exclude last_pick = Some p \<and> p \<notin> set exclude"
proof -
  have "\<exists>k\<le>length exclude. port_after k last_pick \<notin> set exclude"
  proof (rule ccontr)
    assume "\<not> ?thesis"
    then have "(\<lambda>k. port_after k last_pick) ` {..length exclude} \<subseteq> set exclude" by auto
    then have "card ((\<lambda>k. port_after k last_pick) ` {..length exclude}) \<le> card (set exclude)"
      by (intro card_mono) simp_all
    then show False using card_image [OF ports_distinct [OF assms, of last_pick]] card_length [of exclude] by simp
  qed
  from skip_ports_search [OF this] show ?thesis
    by (auto simp: pick_free_udp_port_excluding_def simp: find_Some_iff split: option.split)
qed

theorem free_port_found_witness:
  "\<exists>p. pick_free_udp_port_excluding [20001, 20001] [20001, 20002, 20003, 20004] 20001 = Some p \<and> p \<notin> {20001, 20002, 20003, 20004}"
  using free_port_found [of "[20001, 20002, 20003, 20004]" "[20001, 20001]" 20001] by simp

section \<open>The rate of injected losses\<close>

text \<open>A byte modulo 100 is not uniform: a loss of 50 % drops 150 of the 256 equally likely bytes.\<close>

lemma loss_rate_of_50: "length (filter (\<lambda>n. should_drop_packet 50 (of_nat n)) [0..<256]) = 150"
  by code_simp

end
