(* ===== verification/CompanionApp.thy ===== *)
theory CompanionApp imports LocalConfig HeadsetLink EngineApi Synthetic begin

text \<open>
  \<open>companion-app/src/main.rs\<close>, \<open>stats_history.rs\<close>, \<open>demo.rs\<close>, \<open>sim.rs\<close> and what the tabs of \<open>ui\<close> do to the
  application's state: the status poll, the PIN's countdown, the debounced saving of the settings, the device
  scan, the answers of the background threads and the built-in simulation. What is drawn is left out, but for
  the texts and choices derived from the state. \<open>Instant::now()\<close> is an argument of each operation.
\<close>

section \<open>Launch flags\<close>

definition parse_flags :: "string list \<Rightarrow> bool \<times> bool" where
  "parse_flags args =
     (let (demo, simulate) = foldl (\<lambda>(demo, simulate) a.
            if a = ''--demo'' then (True, simulate) else if a = ''--simulate'' then (demo, True) else (demo, simulate))
          (False, False) args
      in if demo \<and> simulate then (demo, False) else (demo, simulate))"

section \<open>The statistics of the last 30 seconds\<close>

record stats_history =
  sh_latency_ms :: "fl list"
  sh_fps :: "fl list"
  sh_packet_loss :: "fl list"
  sh_max_points :: nat

definition history_new :: stats_history where
  "history_new = \<lparr>sh_latency_ms = [], sh_fps = [], sh_packet_loss = [], sh_max_points = 30\<rparr>"

definition push_ring :: "fl list \<Rightarrow> fl \<Rightarrow> nat \<Rightarrow> fl list" where
  "push_ring buf v n = (let buf = (if n \<le> length buf then tl buf else buf) in buf @ [v])"

definition history_push :: "fl \<Rightarrow> fl \<Rightarrow> fl \<Rightarrow> stats_history \<Rightarrow> stats_history" where
  "history_push latency_ms fps packet_loss h =
     h\<lparr>sh_latency_ms := push_ring (sh_latency_ms h) latency_ms (sh_max_points h),
       sh_fps := push_ring (sh_fps h) fps (sh_max_points h),
       sh_packet_loss := push_ring (sh_packet_loss h) packet_loss (sh_max_points h)\<rparr>"

definition as_plot_points :: "fl list \<Rightarrow> (fl \<times> fl) list" where
  "as_plot_points series = map (\<lambda>(i, v). (f_of_nat b64 i, v)) (List.enumerate 0 series)"

section \<open>Demo mode\<close>

definition CYCLE_SECS :: nat where "CYCLE_SECS = 60"
definition PHASE_DISCONNECTED_END :: nat where "PHASE_DISCONNECTED_END = 3"
definition PHASE_PIN_END :: nat where "PHASE_PIN_END = 10"
definition DEMO_PIN :: string where "DEMO_PIN = ''847251''"
definition DEMO_PIN_LIFETIME :: nat where "DEMO_PIN_LIFETIME = 300"

definition as_secs_f32 :: "duration \<Rightarrow> fl" where
  "as_secs_f32 d = f_add b32 (f_of_nat b32 (d div nanos_per_sec)) (f_div b32 (f_of_nat b32 (d mod nanos_per_sec)) (f_of_nat b32 nanos_per_sec))"

text \<open>\<open>rem_euclid\<close> of a number of seconds, which is not negative: the remainder is exact.\<close>

fun cycle_of :: "fl \<Rightarrow> fl" where
  "cycle_of (Fin x) = Fin (x - of_nat CYCLE_SECS * of_int \<lfloor>x / of_nat CYCLE_SECS\<rfloor>)"
| "cycle_of _ = NaN"

fun phase_of :: "fl \<Rightarrow> nat" where
  "phase_of (Fin x) = nat \<lfloor>x\<rfloor>"
| "phase_of _ = 0"

definition parsed_default :: parsed_status where
  "parsed_default = \<lparr>st_schema_version = None, st_connection = CsDisconnected, st_pin = ''------'', st_latency_ms = Fin 0,
     st_fps = 0, st_bitrate_mbps = Fin 0,
     st_subsystems = \<lparr>sub_ft_active = None, sub_sleep_active = None, sub_audio_enabled = None, sub_packet_loss_pct = None\<rparr>,
     st_pin_expires = None, st_engine_ports = None\<rparr>"

definition synthesize :: "(fl \<Rightarrow> fl) \<Rightarrow> duration \<Rightarrow> parsed_status" where
  "synthesize sin_of elapsed =
     (let cycle_pos = cycle_of (as_secs_f32 elapsed);
          phase_secs = phase_of cycle_pos;
          out = parsed_default\<lparr>st_schema_version := Some STATUS_SCHEMA_VERSION\<rparr>
      in if phase_secs < PHASE_DISCONNECTED_END then out\<lparr>st_connection := CsDisconnected, st_pin := ''------''\<rparr>
         else if phase_secs < PHASE_PIN_END then
           let pin_elapsed = f_sub b32 cycle_pos (f_of_nat b32 PHASE_DISCONNECTED_END);
               pin_window = f_of_nat b32 (PHASE_PIN_END - PHASE_DISCONNECTED_END);
               pct_left = f_sub b32 (Fin 1) (f_clamp (Fin 0) (Fin 1) (f_div b32 pin_elapsed pin_window))
           in out\<lparr>st_connection := WaitingForPin, st_pin := DEMO_PIN,
                st_pin_expires := Some (of_nat (f_as_u32 (f_mul b32 (f_of_nat b32 DEMO_PIN_LIFETIME) pct_left)))\<rparr>
         else
           out\<lparr>st_connection := CsConnected, st_pin := DEMO_PIN,
             st_latency_ms := f_add b32 (Fin 13) (f_mul b32 (Fin 4) (sin_of (f_div b32 (f_mul b32 TAU cycle_pos) (Fin 8)))),
             st_fps := 90,
             st_bitrate_mbps := f_add b32 (Fin 78) (f_mul b32 (Fin 5) (sin_of (f_div b32 (f_mul b32 TAU cycle_pos) (Fin 12)))),
             st_subsystems := \<lparr>sub_ft_active = Some True, sub_sleep_active = Some False, sub_audio_enabled = Some True,
               sub_packet_loss_pct = Some (f32_lit (3 / 10))\<rparr>\<rparr>)"

section \<open>The application's state\<close>

text \<open>
  A thread started in the background and what it leaves behind. The driver's fields, the open file dialogs and the
  active tab are left out. \<open>co_shown\<close> are the widgets' values (\<open>audio_enabled\<close>,
  \<open>sleep_timeout\<close>, \<open>selected_codec\<close> and so on), one for each setting of \<open>co_local_config\<close>. Of a simulation the
  application sees its first error.
\<close>

datatype scan_job = Scanning | Scanned "adb_device list" | ScanPanicked

record sim_status =
  sim_first_error :: "ustr option"

record companion =
  co_adb_path :: "ustr option"
  co_devices :: "adb_device list"
  co_deploy_status :: ustr
  co_last_device_scan :: instant
  co_device_scan :: "scan_job option"
  co_pin_code :: string
  co_connection :: connection_status
  co_latency_ms :: fl
  co_fps :: u32
  co_bitrate_mbps :: fl
  co_deploy_in_progress :: bool
  co_deploy_result :: "ustr option"
  co_pairing_in_progress :: bool
  co_pairing_result :: "(ustr + ustr) option"
  co_pairing_status :: ustr
  co_engine_ports :: "u16 \<times> u16"
  co_last_status_read :: instant
  co_status_log :: "ustr list"
  co_shown :: local_config
  co_local_config :: local_config
  co_config_dirty_since :: "instant option"
  co_pending_save_notes :: "(string \<times> ustr) list"
  co_config_save_failing :: bool
  co_stats_history :: stats_history
  co_export_in_progress :: bool
  co_export_result :: "ustr option"
  co_sub_ft_active :: bool
  co_sub_sleep_active :: bool
  co_sub_audio_enabled :: bool
  co_sub_packet_loss :: fl
  co_engine_alive :: bool
  co_reset_confirm_until :: "instant option"
  co_demo_mode :: bool
  co_demo_start :: instant
  co_pin_expires_in_seconds :: "u32 option"
  co_pin_expires_observed_at :: "instant option"
  co_sim :: "sim_status option"
  co_sim_stopping :: bool
  co_sim_error :: "ustr option"
  co_sim_autostart :: bool

definition ENGINE_STALE_THRESHOLD :: duration where "ENGINE_STALE_THRESHOLD = 5 * nanos_per_sec"
definition CONFIG_SAVE_DEBOUNCE :: duration where "CONFIG_SAVE_DEBOUNCE = 500 * nanos_per_ms"
definition CONFIG_SAVE_RETRY :: duration where "CONFIG_SAVE_RETRY = 5 * nanos_per_sec"
definition DEFAULT_PORTS :: "u16 \<times> u16" where "DEFAULT_PORTS = (9944, 9945)"

text \<open>\<open>Instant::now() - Duration::from_secs(10)\<close> panics on a clock that has not run for ten seconds: \<open>None\<close>.\<close>

definition with_config :: "instant \<Rightarrow> bool \<Rightarrow> bool \<Rightarrow> local_config \<Rightarrow> companion option" where
  "with_config now demo_mode simulate cfg =
     (if now < 10 * nanos_per_sec then None else Some
      \<lparr>co_adb_path = None, co_devices = [], co_deploy_status = [],
       co_last_device_scan = now - 10 * nanos_per_sec, co_device_scan = None,
       co_pin_code = ''----'', co_connection = CsDisconnected, co_latency_ms = Fin 0, co_fps = 0, co_bitrate_mbps = Fin 0,
       co_deploy_in_progress = False, co_deploy_result = None,
       co_pairing_in_progress = False, co_pairing_result = None, co_pairing_status = [],
       co_engine_ports = DEFAULT_PORTS, co_last_status_read = now - 10 * nanos_per_sec,
       co_status_log = [], co_shown = cfg, co_local_config = cfg,
       co_config_dirty_since = None, co_pending_save_notes = [], co_config_save_failing = False,
       co_stats_history = history_new, co_export_in_progress = False, co_export_result = None,
       co_sub_ft_active = False, co_sub_sleep_active = False, co_sub_audio_enabled = True, co_sub_packet_loss = Fin 0,
       co_engine_alive = False, co_reset_confirm_until = None, co_demo_mode = demo_mode, co_demo_start = now,
       co_pin_expires_in_seconds = None, co_pin_expires_observed_at = None,
       co_sim = None, co_sim_stopping = False, co_sim_error = None, co_sim_autostart = (simulate \<and> \<not> demo_mode)\<rparr>)"

text \<open>\<open>self.log\<close>.\<close>

definition app_log :: "ustr \<Rightarrow> companion \<Rightarrow> companion" where
  "app_log msg a =
     (let entries = co_status_log a @ [msg]
      in a\<lparr>co_status_log := (if 100 < length entries then tl entries else entries)\<rparr>)"


section \<open>Settings\<close>

definition mark_config_dirty :: "instant \<Rightarrow> string \<Rightarrow> ustr \<Rightarrow> companion \<Rightarrow> companion" where
  "mark_config_dirty now grp note a =
     a\<lparr>co_config_dirty_since := Some now,
       co_pending_save_notes := filter (\<lambda>(g, _). g \<noteq> grp) (co_pending_save_notes a) @ [(grp, note)]\<rparr>"

definition config_save_due :: "instant option \<Rightarrow> instant \<Rightarrow> bool" where
  "config_save_due dirty_since now = (case dirty_since of Some t \<Rightarrow> CONFIG_SAVE_DEBOUNCE \<le> now - t | None \<Rightarrow> False)"

definition save_failed_note :: "ustr \<Rightarrow> ustr" where
  "save_failed_note e = str ''Failed to save config: '' @ e @ str '' '' @ [0x2014] @ str '' retrying every ''
     @ show_nat (CONFIG_SAVE_RETRY div nanos_per_sec) @ str '' s''"

definition flush_config_with ::
    "(local_config \<Rightarrow> string list \<Rightarrow> 'fs \<Rightarrow> (ustr + unit) \<times> 'fs) \<Rightarrow> instant \<Rightarrow> companion \<Rightarrow> 'fs \<Rightarrow> companion \<times> 'fs" where
  "flush_config_with save_fn now a fs =
     (if co_config_dirty_since a = None then (a, fs)
      else
        let notes = co_pending_save_notes a;
            a = a\<lparr>co_config_dirty_since := None, co_pending_save_notes := []\<rparr>
        in case save_fn (co_local_config a) (map fst notes) fs of
             (Inr _, fs) \<Rightarrow>
               let failing = co_config_save_failing a;
                   a = a\<lparr>co_config_save_failing := False\<rparr>;
                   a = (if failing then app_log (str ''Settings saved after all'') a else a)
               in (fold (\<lambda>(_, note). app_log note) notes a, fs)
           | (Inl e, fs) \<Rightarrow>
               let failing = co_config_save_failing a;
                   a = a\<lparr>co_config_save_failing := True\<rparr>;
                   a = (if \<not> failing then app_log (save_failed_note e) a else a)
               in (a\<lparr>co_pending_save_notes := notes, co_config_dirty_since := Some (now + (CONFIG_SAVE_RETRY - CONFIG_SAVE_DEBOUNCE))\<rparr>, fs))"

text \<open>
  The libraries: \<open>sin\<close> of an \<open>f32\<close>, serde_json's parser, a float printed with two decimals, the TOML parser and printer.
\<close>

record app_libs =
  lb_sin :: "fl \<Rightarrow> fl"
  lb_json :: "string \<Rightarrow> json option"
  lb_show :: "fl \<Rightarrow> ustr"
  lb_parse :: "string \<Rightarrow> setting table option"
  lb_print :: "setting table \<Rightarrow> string option"

text \<open>
  What a save meets: what the file operations return, whether the user's data directory is found, the file of older
  versions, whether it is copied, and the text of an error.
\<close>

record save_env =
  se_ops :: file_ops
  se_known :: bool
  se_copied :: bool
  se_legacy :: "local_files option"
  se_error :: ustr

definition io_result :: "save_env \<Rightarrow> bool \<times> local_files \<Rightarrow> (ustr + unit) \<times> local_files" where
  "io_result env r = (if fst r then Inr () else Inl (se_error env), snd r)"

definition config_save :: "app_libs \<Rightarrow> save_env \<Rightarrow> local_config \<Rightarrow> string list \<Rightarrow> local_files \<Rightarrow> (ustr + unit) \<times> local_files" where
  "config_save lib env c sections fs =
     io_result env (save (lb_parse lib) (lb_print lib) (se_ops env) (se_known env) (se_copied env) c sections fs (se_legacy env))"

definition flush_config :: "app_libs \<Rightarrow> save_env \<Rightarrow> instant \<Rightarrow> companion \<Rightarrow> local_files \<Rightarrow> companion \<times> local_files" where
  "flush_config lib env = flush_config_with (config_save lib env)"

definition flush_config_if_due :: "app_libs \<Rightarrow> save_env \<Rightarrow> instant \<Rightarrow> companion \<Rightarrow> local_files \<Rightarrow> companion \<times> local_files" where
  "flush_config_if_due lib env now a fs =
     (if config_save_due (co_config_dirty_since a) now then flush_config lib env now a fs else (a, fs))"

text \<open>
  The widgets of Settings and Deploy: the values after they were drawn, and the change noted where one differs from
  before. \<open>show_f\<close> prints a float with two decimals.
\<close>

datatype setting_edit =
    EditAudio bool nat
  | EditSleep bool nat
  | EditFace bool fl
  | EditRecording bool string
  | EditCodec string
  | EditApk string

definition on_off :: "bool \<Rightarrow> ustr" where "on_off b = (if b then str ''enabled'' else str ''disabled'')"

definition edit_audio :: "instant \<Rightarrow> bool \<Rightarrow> nat \<Rightarrow> companion \<Rightarrow> companion" where
  "edit_audio now enabled kbps a =
     (let was = co_shown a; a = a\<lparr>co_shown := was\<lparr>lc_audio_enabled := enabled, lc_audio_bitrate_kbps := kbps\<rparr>\<rparr>
      in if enabled \<noteq> lc_audio_enabled was \<or> kbps \<noteq> lc_audio_bitrate_kbps was then
           mark_config_dirty now ''audio''
             (str ''Audio: '' @ on_off enabled @ str '' ('' @ show_nat kbps @ str '' kbps) '' @ [0x2014] @ str '' restart engine to apply'')
             (a\<lparr>co_local_config := (co_local_config a)\<lparr>lc_audio_enabled := enabled, lc_audio_bitrate_kbps := kbps\<rparr>\<rparr>)
         else a)"

definition edit_sleep :: "instant \<Rightarrow> bool \<Rightarrow> nat \<Rightarrow> companion \<Rightarrow> companion" where
  "edit_sleep now enabled secs a =
     (let was = co_shown a; a = a\<lparr>co_shown := was\<lparr>lc_sleep_enabled := enabled, lc_sleep_timeout := secs\<rparr>\<rparr>
      in if enabled \<noteq> lc_sleep_enabled was \<or> secs \<noteq> lc_sleep_timeout was then
           mark_config_dirty now ''sleep_mode''
             (str ''Sleep mode: '' @ on_off enabled @ str '' (timeout '' @ show_nat secs @ str ''s)'')
             (a\<lparr>co_local_config := (co_local_config a)\<lparr>lc_sleep_enabled := enabled, lc_sleep_timeout := secs\<rparr>\<rparr>)
         else a)"

definition edit_face :: "(fl \<Rightarrow> ustr) \<Rightarrow> instant \<Rightarrow> bool \<Rightarrow> fl \<Rightarrow> companion \<Rightarrow> companion" where
  "edit_face show_f now enabled smoothing a =
     (let was = co_shown a; a = a\<lparr>co_shown := was\<lparr>lc_ft_enabled := enabled, lc_ft_smoothing := smoothing\<rparr>\<rparr>
      in if enabled \<noteq> lc_ft_enabled was \<or> f32_lit (1 / 1000) < f_abs (f_sub b32 smoothing (lc_ft_smoothing was)) then
           mark_config_dirty now ''face_tracking''
             (str ''Face tracking: '' @ on_off enabled @ str '' (smoothing '' @ show_f smoothing @ str '')'')
             (a\<lparr>co_local_config := (co_local_config a)\<lparr>lc_ft_enabled := enabled, lc_ft_smoothing := smoothing\<rparr>\<rparr>)
         else a)"

definition edit_recording :: "instant \<Rightarrow> bool \<Rightarrow> string \<Rightarrow> companion \<Rightarrow> companion" where
  "edit_recording now enabled dir a =
     (let was = co_shown a; a = a\<lparr>co_shown := was\<lparr>lc_rec_enabled := enabled, lc_rec_output_dir := dir\<rparr>\<rparr>
      in if enabled \<noteq> lc_rec_enabled was \<or> dir \<noteq> lc_rec_output_dir was then
           mark_config_dirty now ''recording''
             (str ''Recording: '' @ on_off enabled @ str '' (dir: '' @ (if dir = [] then str ''<default>'' else str dir) @ str '')'')
             (a\<lparr>co_local_config := (co_local_config a)\<lparr>lc_rec_enabled := enabled, lc_rec_output_dir := dir\<rparr>\<rparr>)
         else a)"

definition edit_codec :: "instant \<Rightarrow> string \<Rightarrow> companion \<Rightarrow> companion" where
  "edit_codec now name a =
     (let was = co_shown a; a = a\<lparr>co_shown := was\<lparr>lc_codec := name\<rparr>\<rparr>
      in if name \<noteq> lc_codec was then
           mark_config_dirty now ''video'' (str ''Codec set to '' @ str name @ str ''. Restart engine to apply.'')
             (a\<lparr>co_local_config := (co_local_config a)\<lparr>lc_codec := name\<rparr>\<rparr>)
         else a)"

definition edit_apk :: "instant \<Rightarrow> string \<Rightarrow> companion \<Rightarrow> companion" where
  "edit_apk now path a =
     (let was = co_shown a; a = a\<lparr>co_shown := was\<lparr>lc_apk_path := path\<rparr>\<rparr>
      in if path \<noteq> lc_apk_path was then
           mark_config_dirty now ''deploy'' (str ''APK path saved: '' @ str path)
             (a\<lparr>co_local_config := (co_local_config a)\<lparr>lc_apk_path := path\<rparr>\<rparr>)
         else a)"

fun edit_setting :: "(fl \<Rightarrow> ustr) \<Rightarrow> instant \<Rightarrow> setting_edit \<Rightarrow> companion \<Rightarrow> companion" where
  "edit_setting show_f now (EditAudio enabled kbps) a = edit_audio now enabled kbps a"
| "edit_setting show_f now (EditSleep enabled secs) a = edit_sleep now enabled secs a"
| "edit_setting show_f now (EditFace enabled smoothing) a = edit_face show_f now enabled smoothing a"
| "edit_setting show_f now (EditRecording enabled dir) a = edit_recording now enabled dir a"
| "edit_setting show_f now (EditCodec name) a = edit_codec now name a"
| "edit_setting show_f now (EditApk path) a = edit_apk now path a"

lemmas edit_defs = edit_setting.simps edit_audio_def edit_sleep_def edit_face_def edit_recording_def edit_codec_def edit_apk_def

definition reset_to_defaults :: "app_libs \<Rightarrow> save_env \<Rightarrow> companion \<Rightarrow> local_files \<Rightarrow> companion \<times> local_files" where
  "reset_to_defaults lib env a fs =
     (let a = a\<lparr>co_local_config := local_default, co_config_dirty_since := None, co_pending_save_notes := [],
            co_shown := local_default\<rparr>
      in case io_result env (clear (lb_parse lib) (lb_print lib) (se_ops env) (se_known env) (se_copied env) fs (se_legacy env)) of
           (Inr _, fs) \<Rightarrow> (app_log (str ''Settings reset to defaults'') a, fs)
         | (Inl e, fs) \<Rightarrow> (app_log (str ''Reset applied in-memory but save failed: '' @ e) a, fs))"

text \<open>The two clicks of "Reset to defaults".\<close>

definition reset_click :: "app_libs \<Rightarrow> save_env \<Rightarrow> instant \<Rightarrow> companion \<Rightarrow> local_files \<Rightarrow> companion \<times> local_files" where
  "reset_click lib env now a fs =
     (let confirming = (case co_reset_confirm_until a of Some t \<Rightarrow> now < t | None \<Rightarrow> False)
      in if confirming then
           case reset_to_defaults lib env a fs of (a, fs) \<Rightarrow> (a\<lparr>co_reset_confirm_until := None\<rparr>, fs)
         else (a\<lparr>co_reset_confirm_until := Some (now + 3 * nanos_per_sec)\<rparr>, fs))"

text \<open>\<open>metadata\<close> tells whether a path exists and is a directory.\<close>

datatype dir_severity = DirWarning | DirError

definition recording_dir_diagnostic :: "(ustr \<Rightarrow> bool option) \<Rightarrow> ustr \<Rightarrow> dir_severity option" where
  "recording_dir_diagnostic metadata path_str =
     (let trimmed = trim path_str
      in if trimmed = [] then None
         else case metadata trimmed of
                Some True \<Rightarrow> None
              | Some False \<Rightarrow> Some DirError
              | None \<Rightarrow> Some DirWarning)"

section \<open>Devices and the engine's status\<close>

text \<open>
  \<open>scan_devices\<close>: a finished scan is taken over, and a new one started 3 s after the last; \<open>spawned\<close> is whether its
  thread starts.
\<close>

definition scan_devices :: "bool \<Rightarrow> instant \<Rightarrow> companion \<Rightarrow> companion" where
  "scan_devices spawned now a =
     (let a = (case co_device_scan a of
            Some (Scanned devices) \<Rightarrow> a\<lparr>co_device_scan := None, co_devices := devices\<rparr>
          | Some ScanPanicked \<Rightarrow> a\<lparr>co_device_scan := None\<rparr>
          | _ \<Rightarrow> a)
      in if co_device_scan a \<noteq> None \<or> now - co_last_device_scan a < 3 * nanos_per_sec then a
         else
           let a = a\<lparr>co_last_device_scan := now\<rparr>
           in if co_demo_mode a then a\<lparr>co_devices := []\<rparr>
              else if co_adb_path a \<noteq> None then a\<lparr>co_device_scan := (if spawned then Some Scanning else None)\<rparr>
              else a)"

text \<open>\<open>scan.is_some()\<close> on a later frame: the thread has ended with a list, or panicked.\<close>

definition scan_ended :: "adb_device list option \<Rightarrow> companion \<Rightarrow> companion" where
  "scan_ended outcome a =
     (if co_device_scan a = Some Scanning
      then a\<lparr>co_device_scan := Some (case outcome of Some devices \<Rightarrow> Scanned devices | None \<Rightarrow> ScanPanicked)\<rparr> else a)"

definition apply_parsed_status :: "instant \<Rightarrow> parsed_status \<Rightarrow> companion \<Rightarrow> companion" where
  "apply_parsed_status now parsed a =
     (let a = a\<lparr>co_connection := st_connection parsed,
            co_engine_ports := (case st_engine_ports parsed of Some ports \<Rightarrow> ports | None \<Rightarrow> DEFAULT_PORTS)\<rparr>;
          pin_changed = (st_connection parsed = WaitingForPin \<and> st_pin parsed \<noteq> co_pin_code a);
          kept = (case (st_pin_expires parsed, co_pin_expires_in_seconds a) of
              (Some new, Some old) \<Rightarrow> \<not> pin_changed \<and> \<bar>int (unat new) - int (unat old)\<bar> \<le> 1
            | _ \<Rightarrow> False);
          a = (if kept then a
               else case st_pin_expires parsed of
                 Some new \<Rightarrow> a\<lparr>co_pin_expires_in_seconds := Some new, co_pin_expires_observed_at := Some now\<rparr>
               | None \<Rightarrow> a\<lparr>co_pin_expires_in_seconds := None, co_pin_expires_observed_at := None\<rparr>)
      in case st_connection parsed of
           CsDisconnected \<Rightarrow> a
         | WaitingForPin \<Rightarrow> a\<lparr>co_pin_code := st_pin parsed\<rparr>
         | CsConnected \<Rightarrow>
             let subs = st_subsystems parsed;
                 a = a\<lparr>co_pin_code := st_pin parsed, co_latency_ms := st_latency_ms parsed, co_fps := st_fps parsed,
                   co_bitrate_mbps := st_bitrate_mbps parsed,
                   co_sub_ft_active := case_option False id (sub_ft_active subs),
                   co_sub_sleep_active := case_option False id (sub_sleep_active subs),
                   co_sub_audio_enabled := case_option True id (sub_audio_enabled subs),
                   co_sub_packet_loss := case_option (Fin 0) id (sub_packet_loss_pct subs)\<rparr>
             in a\<lparr>co_stats_history := history_push (co_latency_ms a) (f_of_nat b32 (unat (co_fps a))) (co_sub_packet_loss a)
                  (co_stats_history a)\<rparr>)"

definition apply_stale_status :: "companion \<Rightarrow> companion" where
  "apply_stale_status a =
     a\<lparr>co_connection := CsDisconnected, co_pin_code := ''----'', co_pin_expires_in_seconds := None, co_pin_expires_observed_at := None\<rparr>"

text \<open>
  What a poll finds: the data directory, the file's age, its text if it can be read. The wall clock and the
  file's time are nanoseconds on one clock.
\<close>

record status_source =
  src_has_dir :: bool
  src_mtime :: "nat option"
  src_wall :: nat
  src_contents :: "string option"

definition read_engine_status ::
    "(fl \<Rightarrow> fl) \<Rightarrow> (string \<Rightarrow> json option) \<Rightarrow> status_source \<Rightarrow> instant \<Rightarrow> companion \<Rightarrow> companion" where
  "read_engine_status sin_of from_str src now a =
     (if now - co_last_status_read a < nanos_per_sec then a
      else
        let a = a\<lparr>co_last_status_read := now\<rparr>
        in if co_demo_mode a then apply_parsed_status now (synthesize sin_of (now - co_demo_start a)) (a\<lparr>co_engine_alive := True\<rparr>)
           else if \<not> src_has_dir src then a
           else
             let a = a\<lparr>co_engine_alive := is_status_fresh (src_mtime src) (src_wall src) ENGINE_STALE_THRESHOLD\<rparr>
             in if \<not> co_engine_alive a then apply_stale_status a
                else case src_contents src of
                       None \<Rightarrow> a
                     | Some contents \<Rightarrow>
                         (case parse_status_json from_str contents of
                            None \<Rightarrow> a
                          | Some parsed \<Rightarrow> apply_parsed_status now parsed a))"

text \<open>What Home shows: the PIN, the hint for the next step, the time left as minutes and seconds.\<close>

definition pin_text :: "companion \<Rightarrow> string" where
  "pin_text a = (case co_connection a of WaitingForPin \<Rightarrow> co_pin_code a | CsConnected \<Rightarrow> ''Connected'' | CsDisconnected \<Rightarrow> ''----'')"

definition pin_remaining :: "instant \<Rightarrow> companion \<Rightarrow> u32 option" where
  "pin_remaining now a =
     (case (co_pin_expires_in_seconds a, co_pin_expires_observed_at a) of
        (Some baseline, Some observed) \<Rightarrow>
          let elapsed = (of_nat ((now - observed) div nanos_per_sec) :: u32)
          in Some (if elapsed \<le> baseline then baseline - elapsed else 0)
      | _ \<Rightarrow> None)"

datatype countdown_color = UrgencyRed | WarningYellow | TextMuted

definition countdown :: "instant \<Rightarrow> companion \<Rightarrow> (nat \<times> nat \<times> countdown_color) option" where
  "countdown now a =
     map_option (\<lambda>remaining. (unat (remaining div 60), unat (remaining mod 60),
       if remaining < 30 then UrgencyRed else if remaining < 60 then WarningYellow else TextMuted)) (pin_remaining now a)"


text \<open>The hint for the next step.\<close>

definition next_hint :: "bool \<Rightarrow> companion \<Rightarrow> string option" where
  "next_hint driver_installed a =
     (if \<not> driver_installed then Some ''Next: Install the SteamVR driver above''
      else if co_connection a = CsDisconnected then
        (if \<not> list_ex dev_focus_vision (co_devices a)
         then Some ''Next: Connect Focus Vision via USB and deploy the APK (Deploy tab)''
         else Some ''Next: Start SteamVR, then send the PIN to the headset (below)'')
      else None)"

section \<open>Work on threads of its own\<close>

text \<open>
  A job is what the thread is given; its answer is left in a slot and taken on a later frame. The adb runs of the
  jobs are those of \<open>HeadsetLink\<close>.
\<close>

record pin_job =
  pj_adb :: ustr
  pj_serial :: ustr
  pj_pin :: string
  pj_ports :: "u16 \<times> u16"

definition send_pin_to_headset :: "companion \<Rightarrow> companion \<times> pin_job option" where
  "send_pin_to_headset a =
     (case (co_adb_path a, find dev_focus_vision (co_devices a)) of
        (Some adb, Some device) \<Rightarrow>
          (a\<lparr>co_pairing_in_progress := True,
             co_pairing_status := str ''Sending the PIN to '' @ dev_model device @ str ''...''\<rparr>,
           Some \<lparr>pj_adb = adb, pj_serial = dev_serial device, pj_pin = co_pin_code a, pj_ports = co_engine_ports a\<rparr>)
      | _ \<Rightarrow> (a, None))"

text \<open>Home's button: there while the engine waits for the PIN and a headset is connected, and not pressed twice.\<close>

definition send_pin_click :: "companion \<Rightarrow> companion \<times> pin_job option" where
  "send_pin_click a =
     (if co_connection a = WaitingForPin \<and> co_adb_path a \<noteq> None \<and> list_ex dev_focus_vision (co_devices a)
         \<and> \<not> co_pairing_in_progress a
      then send_pin_to_headset a else (a, None))"

definition check_pairing_result :: "companion \<Rightarrow> companion" where
  "check_pairing_result a =
     (case co_pairing_result a of
        None \<Rightarrow> a
      | Some outcome \<Rightarrow>
          let msg = (case outcome of Inr m \<Rightarrow> m | Inl m \<Rightarrow> m)
          in app_log msg (a\<lparr>co_pairing_result := None, co_pairing_in_progress := False, co_pairing_status := msg\<rparr>))"

definition check_deploy_result :: "companion \<Rightarrow> companion" where
  "check_deploy_result a =
     (case co_deploy_result a of
        None \<Rightarrow> a
      | Some msg \<Rightarrow> app_log msg (a\<lparr>co_deploy_result := None, co_deploy_status := msg, co_deploy_in_progress := False\<rparr>))"

definition check_export_result :: "companion \<Rightarrow> companion" where
  "check_export_result a =
     (case co_export_result a of
        None \<Rightarrow> a
      | Some msg \<Rightarrow> app_log msg (a\<lparr>co_export_result := None, co_export_in_progress := False\<rparr>))"

text \<open>Deploy's install button, and its thread: each headset's install, then the launch with the PIN or without one.\<close>

definition deploy_click :: "bool \<Rightarrow> companion \<Rightarrow> companion \<times> (ustr list \<times> string \<times> string \<times> (u16 \<times> u16)) option" where
  "deploy_click apk_exists a =
     (let targets = deploy_targets (co_devices a); apk = lc_apk_path (co_shown a)
      in if co_adb_path a \<noteq> None \<and> targets \<noteq> [] \<and> apk \<noteq> [] \<and> apk_exists \<and> \<not> co_deploy_in_progress a
         then (a\<lparr>co_deploy_in_progress := True, co_deploy_status := str ''Installing...''\<rparr>,
               Some (targets, apk, co_pin_code a, co_engine_ports a))
         else (a, None))"

definition deploy_one :: "adb_run \<Rightarrow> (ipv4 \<Rightarrow> ipv4 option) \<Rightarrow> string \<Rightarrow> string \<Rightarrow> u16 \<times> u16 \<Rightarrow> ustr \<Rightarrow> ustr" where
  "deploy_one run route apk pin ports serial =
     (case install_apk run serial (str apk) of
        Inl e \<Rightarrow> str ''FAIL '' @ serial @ str '': '' @ e
      | Inr _ \<Rightarrow>
          let launched = (if is_pin (str pin)
                then (case fst (send_to_headset run route serial (str pin) ports) of Inl e \<Rightarrow> Some (str e) | Inr _ \<Rightarrow> None)
                else (case launch_app run serial CLIENT_PACKAGE of Inl e \<Rightarrow> Some e | Inr _ \<Rightarrow> None))
          in case launched of
               None \<Rightarrow> str ''OK: '' @ serial
             | Some e \<Rightarrow> str ''Installed on '' @ serial @ str '', but: '' @ e)"

fun join_comma :: "ustr list \<Rightarrow> ustr" where
  "join_comma [] = []"
| "join_comma [x] = x"
| "join_comma (x # xs) = x @ str '', '' @ join_comma xs"

definition deploy_run :: "adb_run \<Rightarrow> (ipv4 \<Rightarrow> ipv4 option) \<Rightarrow> string \<Rightarrow> string \<Rightarrow> u16 \<times> u16 \<Rightarrow> ustr list \<Rightarrow> ustr" where
  "deploy_run run route apk pin ports serials = join_comma (map (deploy_one run route apk pin ports) serials)"

definition export_click :: "companion \<Rightarrow> companion \<times> ustr option" where
  "export_click a =
     (if co_export_in_progress a then (a, None)
      else (a\<lparr>co_export_in_progress := True\<rparr>, map_option dev_serial (find dev_focus_vision (co_devices a))))"

section \<open>The built-in simulation\<close>

definition sim_set_err :: "ustr \<Rightarrow> sim_status \<Rightarrow> sim_status" where
  "sim_set_err msg s = (if sim_first_error s = None then s\<lparr>sim_first_error := Some msg\<rparr> else s)"

text \<open>\<open>load_sim_config\<close>; \<open>loaded\<close> is what \<open>AppConfig::load\<close> returns. \<open>None\<close> where \<open>validate\<close> panics.\<close>

definition load_sim_config :: "app_config option \<Rightarrow> nat \<Rightarrow> nat \<Rightarrow> app_config option" where
  "load_sim_config loaded tcp udp =
     map_option (\<lambda>(c, _). c\<lparr>network := (network c)\<lparr>tcp_port := tcp, udp_port := udp\<rparr>,
         audio := (audio c)\<lparr>au_enabled := True, au_synthetic_source := ''sine''\<rparr>\<rparr>)
       (validate (case loaded of Some c \<Rightarrow> c | None \<Rightarrow> default_config))"

text \<open>One pass of the engine's thread: a synthetic frame submitted, then the pause until the next one.\<close>

definition sim_engine_submit :: "bool \<Rightarrow> frame_timestamps \<Rightarrow> nal_stream \<Rightarrow> engine_side \<Rightarrow> nal_stream \<times> engine_side" where
  "sim_engine_submit lock_free stamps stream e =
     (let (synth, stream) = next_frame stream
      in (stream, snd (engine_submit lock_free
            \<lparr>ef_frame_index = nf_frame_index synth, ef_nal_data = nf_bytes synth, ef_is_idr = nf_is_idr synth,
             ef_timestamps = stamps, ef_orientation = None\<rparr> e)))"

definition sim_pause :: "duration \<Rightarrow> instant \<Rightarrow> instant \<Rightarrow> instant \<times> duration" where
  "sim_pause frame_period now next_tick =
     (let next_tick = next_tick + frame_period
      in if now < next_tick then (next_tick, min (next_tick - now) frame_period) else (now, 0))"

text \<open>
  The client's thread: each pass waits for a PIN and runs the mock headset until it ends. The result says
  whether the loop goes on.
\<close>

record sim_pass =
  sp_cancelled_before :: bool
  sp_pin :: "u32 option"
  sp_run_error :: "ustr option"
  sp_cancelled_after :: bool

fun sim_client_loop :: "sim_pass list \<Rightarrow> sim_status \<Rightarrow> sim_status \<times> bool" where
  "sim_client_loop [] s = (s, True)"
| "sim_client_loop (p # ps) s =
     (if sp_cancelled_before p then (s, False)
      else case sp_pin p of
        None \<Rightarrow> if sp_cancelled_after p then (s, False) else (sim_set_err (str ''engine never published a PIN'') s, False)
      | Some pin \<Rightarrow>
          (case sp_run_error p of
             None \<Rightarrow> if sp_cancelled_after p then (s, False) else sim_client_loop ps s
           | Some e \<Rightarrow> if sp_cancelled_after p then (s, False) else (sim_set_err (str ''mock client: '' @ e) s, False)))"

text \<open>"A real engine is running (status.json is new). Stop SteamVR before starting Simulation.", in Japanese.\<close>

definition SIM_REFUSED :: ustr where
  "SIM_REFUSED = [23455, 12456, 12531, 12472, 12531, 12364, 31292, 20685, 20013, 12391, 12377, 65288, 115, 116, 97, 116, 117,
     115, 46, 106, 115, 111, 110, 32, 12364, 26032, 12375, 12356, 65289, 12290, 83, 116, 101, 97, 109, 86, 82, 32,
     12434, 20572, 27490, 12375, 12390, 12363, 12425, 32, 83, 105, 109, 117, 108, 97, 116, 105, 111, 110, 32,
     12434, 38283, 22987, 12375, 12390, 12367, 12384, 12373, 12356, 12290]"

text \<open>\<open>outcome\<close> is what \<open>sim::start\<close> returns.\<close>

definition start_sim :: "ustr + unit \<Rightarrow> companion \<Rightarrow> companion" where
  "start_sim outcome a =
     (if co_sim a \<noteq> None \<or> co_sim_stopping a then a
      else if co_engine_alive a then a\<lparr>co_sim_error := Some SIM_REFUSED\<rparr>
      else case outcome of
             Inr _ \<Rightarrow> app_log (str ''Simulation started'') (a\<lparr>co_sim_error := None, co_sim := Some \<lparr>sim_first_error = None\<rparr>\<rparr>)
           | Inl e \<Rightarrow> app_log (str ''Simulation start failed: '' @ e) (a\<lparr>co_sim_error := Some e\<rparr>))"

text \<open>\<open>spawned\<close>: the thread that shuts it down starts; otherwise it is shut down in place.\<close>

definition stop_sim :: "bool \<Rightarrow> companion \<Rightarrow> companion" where
  "stop_sim spawned a =
     (if co_sim a = None then a
      else
        let a = a\<lparr>co_sim := None\<rparr>
        in if spawned then app_log (str ''Simulation stopping...'') (a\<lparr>co_sim_stopping := True\<rparr>)
           else app_log (str ''Simulation stopped'') a)"

definition reap_sim_stop :: "bool \<Rightarrow> companion \<Rightarrow> companion" where
  "reap_sim_stop finished a =
     (if co_sim_stopping a \<and> finished then app_log (str ''Simulation stopped'') (a\<lparr>co_sim_stopping := False\<rparr>) else a)"

section \<open>Frames and events\<close>

text \<open>What one frame finds of the world, and the state part of \<open>update\<close>.\<close>

record frame_input =
  fr_now :: instant
  fr_spawned :: bool
  fr_source :: status_source
  fr_sim_start :: "ustr + unit"
  fr_stop_finished :: bool
  fr_env :: save_env

definition take_sim_error :: "companion \<Rightarrow> companion" where
  "take_sim_error a = (case Option.bind (co_sim a) sim_first_error of Some e \<Rightarrow> a\<lparr>co_sim_error := Some e\<rparr> | None \<Rightarrow> a)"

definition before_flush :: "app_libs \<Rightarrow> frame_input \<Rightarrow> companion \<Rightarrow> companion" where
  "before_flush lib fr a =
     (let a = scan_devices (fr_spawned fr) (fr_now fr) a;
          a = read_engine_status (lb_sin lib) (lb_json lib) (fr_source fr) (fr_now fr) a;
          a = check_deploy_result a;
          a = check_pairing_result a;
          a = check_export_result a;
          a = (if co_sim_autostart a then start_sim (fr_sim_start fr) (a\<lparr>co_sim_autostart := False\<rparr>) else a);
          a = take_sim_error a
      in reap_sim_stop (fr_stop_finished fr) a)"

definition update :: "app_libs \<Rightarrow> frame_input \<Rightarrow> companion \<Rightarrow> local_files \<Rightarrow> companion \<times> local_files" where
  "update lib fr a fs = flush_config_if_due lib (fr_env fr) (fr_now fr) (before_flush lib fr a) fs"

definition on_exit :: "app_libs \<Rightarrow> save_env \<Rightarrow> instant \<Rightarrow> companion \<Rightarrow> local_files \<Rightarrow> companion \<times> local_files" where
  "on_exit lib env now a fs = (case flush_config lib env now a fs of (a, fs) \<Rightarrow> (a\<lparr>co_sim_stopping := False\<rparr>, fs))"

text \<open>A frame, what the user does on it, and what threads leave behind between frames.\<close>

datatype app_event =
    Frame frame_input
  | Edit instant setting_edit
  | ResetClick save_env instant
  | SendPin
  | DeployClick bool
  | ExportClick
  | StartSim "ustr + unit"
  | StopSim bool
  | ScanEnds "adb_device list option"
  | PairingEnds "ustr + ustr"
  | DeployEnds ustr
  | ExportEnds ustr
  | SimFails ustr
  | Exit save_env instant

fun app_step :: "app_libs \<Rightarrow> app_event \<Rightarrow> companion \<times> local_files \<Rightarrow> companion \<times> local_files" where
  "app_step lib (Frame fr) (a, fs) = update lib fr a fs"
| "app_step lib (Edit now e) (a, fs) = (edit_setting (lb_show lib) now e a, fs)"
| "app_step lib (ResetClick env now) (a, fs) = reset_click lib env now a fs"
| "app_step lib SendPin (a, fs) = (fst (send_pin_click a), fs)"
| "app_step lib (DeployClick apk_exists) (a, fs) = (fst (deploy_click apk_exists a), fs)"
| "app_step lib ExportClick (a, fs) = (fst (export_click a), fs)"
| "app_step lib (StartSim outcome) (a, fs) = (start_sim outcome a, fs)"
| "app_step lib (StopSim spawned) (a, fs) = (stop_sim spawned a, fs)"
| "app_step lib (ScanEnds outcome) (a, fs) = (scan_ended outcome a, fs)"
| "app_step lib (PairingEnds outcome) (a, fs) = (a\<lparr>co_pairing_result := Some outcome\<rparr>, fs)"
| "app_step lib (DeployEnds msg) (a, fs) = (a\<lparr>co_deploy_result := Some msg\<rparr>, fs)"
| "app_step lib (ExportEnds msg) (a, fs) = (a\<lparr>co_export_result := Some msg\<rparr>, fs)"
| "app_step lib (SimFails e) (a, fs) = (a\<lparr>co_sim := map_option (sim_set_err e) (co_sim a)\<rparr>, fs)"
| "app_step lib (Exit env now) (a, fs) = on_exit lib env now a fs"

definition app_run :: "app_libs \<Rightarrow> app_event list \<Rightarrow> companion \<times> local_files \<Rightarrow> companion \<times> local_files" where
  "app_run lib es s = fold (app_step lib) es s"


section \<open>What leaves the settings alone\<close>

definition settings_of :: "companion \<Rightarrow> local_config \<times> local_config \<times> instant option \<times> (string \<times> ustr) list" where
  "settings_of a = (co_shown a, co_local_config a, co_config_dirty_since a, co_pending_save_notes a)"

lemma settings_app_log [simp]: "settings_of (app_log m a) = settings_of a"
  by (simp add: settings_of_def app_log_def Let_def)

lemma settings_log_notes [simp]: "settings_of (fold (\<lambda>(_, note). app_log note) ns a) = settings_of a"
  by (induction ns arbitrary: a) (simp_all add: split_beta)

lemma settings_polls [simp]:
  "settings_of (scan_devices spawned now a) = settings_of a"
  "settings_of (apply_parsed_status now parsed a) = settings_of a"
  "settings_of (apply_stale_status a) = settings_of a"
  by (auto simp: settings_of_def scan_devices_def apply_parsed_status_def apply_stale_status_def Let_def
      split: option.splits connection_status.splits scan_job.splits)

lemma settings_fields [simp]:
  "settings_of (a\<lparr>co_last_status_read := t\<rparr>) = settings_of a"
  "settings_of (a\<lparr>co_engine_alive := b\<rparr>) = settings_of a"
  "settings_of (a\<lparr>co_sim_autostart := b\<rparr>) = settings_of a"
  "settings_of (a\<lparr>co_sim_stopping := b\<rparr>) = settings_of a"
  "settings_of (a\<lparr>co_config_save_failing := b\<rparr>) = settings_of a"
  "settings_of (a\<lparr>co_pairing_result := p\<rparr>) = settings_of a"
  "settings_of (a\<lparr>co_deploy_result := r\<rparr>) = settings_of a"
  "settings_of (a\<lparr>co_export_result := r\<rparr>) = settings_of a"
  "settings_of (a\<lparr>co_sim := s\<rparr>) = settings_of a"
  "settings_of (a\<lparr>co_reset_confirm_until := c\<rparr>) = settings_of a"
  by (simp_all add: settings_of_def)

lemma settings_read [simp]: "settings_of (read_engine_status sin_of from_str src now a) = settings_of a"
  by (simp add: read_engine_status_def Let_def split: option.split)

lemma settings_answers [simp]:
  "settings_of (check_deploy_result a) = settings_of a"
  "settings_of (check_pairing_result a) = settings_of a"
  "settings_of (check_export_result a) = settings_of a"
  "settings_of (fst (send_pin_click a)) = settings_of a"
  "settings_of (fst (deploy_click apk_exists a)) = settings_of a"
  "settings_of (fst (export_click a)) = settings_of a"
  "settings_of (scan_ended outcome a) = settings_of a"
  by (auto simp: check_deploy_result_def check_pairing_result_def check_export_result_def send_pin_click_def
      send_pin_to_headset_def deploy_click_def export_click_def scan_ended_def settings_of_def app_log_def Let_def split: option.split)

lemma settings_sim [simp]:
  "settings_of (start_sim outcome a) = settings_of a"
  "settings_of (stop_sim spawned a) = settings_of a"
  "settings_of (reap_sim_stop finished a) = settings_of a"
  "settings_of (take_sim_error a) = settings_of a"
  by (auto simp: start_sim_def stop_sim_def reap_sim_stop_def take_sim_error_def settings_of_def app_log_def Let_def
      split: option.split sum.split)

lemma settings_before_flush [simp]: "settings_of (before_flush lib fr a) = settings_of a"
  by (simp add: before_flush_def Let_def)

section \<open>No setting is lost\<close>

text \<open>The settings of a section, and that the file has the value of each.\<close>

definition section_paths :: "string \<Rightarrow> local_config \<Rightarrow> string list list" where
  "section_paths s c = (case map_of (local_table c) s of Some (Table e) \<Rightarrow> map (\<lambda>(k, _). [s, k]) e | _ \<Rightarrow> [])"

definition in_sync :: "(string \<Rightarrow> setting table option) \<Rightarrow> string \<Rightarrow> local_config \<Rightarrow> local_files \<Rightarrow> bool" where
  "in_sync parse s c fs =
     (case Option.bind (lf_file fs) parse of
        None \<Rightarrow> False
      | Some t \<Rightarrow> list_all (\<lambda>p. leaf_at t p = leaf_at (local_table c) p) (section_paths s c))"

lemma section_path_decided: "p \<in> set (section_paths s c) \<Longrightarrow> hd p = s \<and> p \<noteq> [] \<and> decides (local_table c) p"
  by (auto simp: section_paths_def local_table_def split: if_splits)

lemma in_sync_section:
  assumes "map_of (local_table c) s = map_of (local_table c') s"
  shows "in_sync parse s c fs = in_sync parse s c' fs"
proof -
  have "section_paths s c = section_paths s c'" using assms by (simp add: section_paths_def)
  moreover have "leaf_at (local_table c) p = leaf_at (local_table c') p" if "p \<in> set (section_paths s c)" for p
    using section_path_decided [OF that] assms by (cases p) auto
  ultimately show ?thesis by (auto simp: in_sync_def list_all_iff split: option.split)
qed

lemma saved_in_sync:
  assumes "\<And>t content. lb_print lib t = Some content \<Longrightarrow> lb_parse lib content = Some t"
    and "config_save lib env c sections fs = (Inr u, fs')"
  shows "s \<in> set sections \<or> in_sync (lb_parse lib) s c fs \<Longrightarrow> in_sync (lb_parse lib) s c fs'"
proof -
  let ?print = "lb_print lib" and ?parse = "lb_parse lib"
  assume s: "s \<in> set sections \<or> in_sync ?parse s c fs"
  obtain fs1 where f1: "user_file (se_known env) (se_copied env) fs (se_legacy env) = Some fs1"
      "save_to ?parse ?print (se_ops env) c sections fs1 = (True, fs')"
    using assms(2) by (auto simp: config_save_def io_result_def save_def prod_eq_iff split: option.splits if_splits)
  obtain base fs2 where b: "read_table ?parse (se_ops env) fs1 = (Some base, fs2)"
    using f1(2) by (auto simp: save_to_def split: option.splits prod.splits)
  let ?new = "merge_tables base (filter (\<lambda>(section, _). section \<in> set sections) (local_table c))"
  have w: "write_table ?print (se_ops env) ?new fs2 = (True, fs')" using f1(2) b by (simp add: save_to_def Let_def)
  then obtain content where co: "?print ?new = Some content" "lf_file fs' = Some content"
    by (auto simp: write_table_def split: option.splits if_splits)
  have pr: "Option.bind (lf_file fs') ?parse = Some ?new" using assms(1) [OF co(1)] co(2) by simp
  have "leaf_at ?new p = leaf_at (local_table c) p" if p: "p \<in> set (section_paths s c)" for p
  proof (cases "s \<in> set sections")
    case True
    then show ?thesis using section_path_decided [OF p] by (simp add: merge_leaf)
  next
    case False
    then obtain old t where o: "lf_file fs = Some old" "?parse old = Some t" "leaf_at t p = leaf_at (local_table c) p"
      using s p by (auto simp: in_sync_def list_all_iff split: option.splits) (metis bind_eq_Some_conv)
    have "fs1 = fs" using f1(1) o(1) by (auto simp: user_file_def split: if_splits)
    then have "base = t" using b o by (auto simp: read_table_def split: if_splits)
    then show ?thesis using section_path_decided [OF p] False o(3) by (simp add: merge_leaf)
  qed
  then show ?thesis unfolding in_sync_def pr by (simp add: list_all_iff)
qed

lemma failed_save_file:
  assumes "save_to parse print ops c sections fs = (False, fs')"
  shows "lf_file fs' = lf_file fs"
proof -
  have r: "lf_file fs1 = lf_file fs" if "read_table parse ops fs = (t, fs1)" for t fs1
    using that by (auto simp: read_table_def split: option.splits if_splits)
  have w: "lf_file fs2 = lf_file fs1" if "write_table print ops t fs1 = (False, fs2)" for t fs1 fs2
    using that by (auto simp: write_table_def split: option.splits if_splits)
  obtain t fs1 where t: "read_table parse ops fs = (t, fs1)" by (rule prod.exhaust)
  show ?thesis
  proof (cases t)
    case None
    then show ?thesis using assms r [OF t] by (simp add: save_to_def t)
  next
    case (Some merged)
    with assms have "write_table print ops (merge_tables merged (filter (\<lambda>(section, _). section \<in> set sections) (local_table c))) fs1
        = (False, fs')"
      by (simp add: save_to_def t Let_def)
    from w [OF this] r [OF t] show ?thesis by simp
  qed
qed

lemma failed_save_in_sync:
  assumes "config_save lib env c sections fs = (Inl e, fs')" "in_sync parse s c fs"
  shows "in_sync parse s c fs'"
proof -
  have f: "lf_file fs \<noteq> None" using assms(2) by (cases "lf_file fs") (simp_all add: in_sync_def)
  have "lf_file fs' = lf_file fs"
  proof (cases "user_file (se_known env) (se_copied env) fs (se_legacy env)")
    case None
    then show ?thesis using assms(1) by (simp add: config_save_def io_result_def save_def)
  next
    case (Some fs1)
    then have "fs1 = fs" using f by (auto simp: user_file_def split: if_splits)
    then have "save_to (lb_parse lib) (lb_print lib) (se_ops env) c sections fs = (False, fs')"
      using assms(1) Some by (auto simp: config_save_def io_result_def save_def prod_eq_iff split: if_splits)
    then show ?thesis by (rule failed_save_file)
  qed
  then show ?thesis using assms(2) by (simp add: in_sync_def)
qed


definition pending :: "companion \<Rightarrow> string list" where "pending a = map fst (co_pending_save_notes a)"

text \<open>Notes are pending exactly while the settings are dirty.\<close>

definition notes_ok :: "companion \<Rightarrow> bool" where
  "notes_ok a \<longleftrightarrow> (co_config_dirty_since a = None \<longleftrightarrow> co_pending_save_notes a = [])"

lemma settings_same:
  assumes "settings_of a' = settings_of a"
  shows "pending a' = pending a" "notes_ok a' = notes_ok a" "co_local_config a' = co_local_config a" "co_shown a' = co_shown a"
    "co_config_dirty_since a' = co_config_dirty_since a" "co_pending_save_notes a' = co_pending_save_notes a"
  using assms by (simp_all add: settings_of_def pending_def notes_ok_def)

lemma settings_pending_set:
  "settings_of (a\<lparr>co_pending_save_notes := ns, co_config_dirty_since := d\<rparr>) = (co_shown a, co_local_config a, d, ns)"
  by (simp add: settings_of_def)

lemma flush_with_result:
  assumes "co_config_dirty_since a \<noteq> None" "save_fn (co_local_config a) (pending a) fs = (r, fs1)"
  obtains a' where "flush_config_with save_fn now a fs = (a', fs1)"
    "settings_of a' = (co_shown a, co_local_config a,
      (case r of Inr _ \<Rightarrow> None | Inl _ \<Rightarrow> Some (now + (CONFIG_SAVE_RETRY - CONFIG_SAVE_DEBOUNCE))),
      (case r of Inr _ \<Rightarrow> [] | Inl _ \<Rightarrow> co_pending_save_notes a))"
proof -
  obtain d where d: "co_config_dirty_since a = Some d" using assms(1) by blast
  show thesis
  proof (cases r)
    case (Inr u)
    let ?a = "a\<lparr>co_config_dirty_since := None, co_pending_save_notes := [], co_config_save_failing := False\<rparr>"
    let ?b = "if co_config_save_failing a then app_log (str ''Settings saved after all'') ?a else ?a"
    have "flush_config_with save_fn now a fs = (fold (\<lambda>(_, note). app_log note) (co_pending_save_notes a) ?b, fs1)"
      using assms(2) d Inr by (simp add: flush_config_with_def pending_def Let_def)
    moreover have "settings_of ?b = (co_shown a, co_local_config a, None, [])" by simp (simp add: settings_of_def)
    ultimately show ?thesis using that Inr by simp
  next
    case (Inl e)
    let ?a = "a\<lparr>co_config_dirty_since := None, co_pending_save_notes := [], co_config_save_failing := True\<rparr>"
    let ?b = "if \<not> co_config_save_failing a then app_log (save_failed_note e) ?a else ?a"
    have "settings_of ?b = (co_shown a, co_local_config a, None, [])" by simp (simp add: settings_of_def)
    then have "co_shown ?b = co_shown a" "co_local_config ?b = co_local_config a" by (simp_all add: settings_of_def)
    moreover have "flush_config_with save_fn now a fs = (?b\<lparr>co_pending_save_notes := co_pending_save_notes a,
        co_config_dirty_since := Some (now + (CONFIG_SAVE_RETRY - CONFIG_SAVE_DEBOUNCE))\<rparr>, fs1)"
      using assms(2) d Inl by (simp add: flush_config_with_def pending_def Let_def)
    ultimately show ?thesis using that Inl by (simp add: settings_pending_set)
  qed
qed

text \<open>
  The state of a section \<open>s\<close>, if \<open>keep\<close>: its change waits to be saved, or the file has its settings. A save is tried no
  later than half a second after the last change and five after the last failure.
\<close>

definition section_safe :: "app_libs \<Rightarrow> bool \<Rightarrow> string \<Rightarrow> instant \<Rightarrow> companion \<times> local_files \<Rightarrow> bool" where
  "section_safe lib keep s horizon x \<longleftrightarrow>
     notes_ok (fst x) \<and> (\<not> keep \<or> s \<in> set (pending (fst x)) \<or> in_sync (lb_parse lib) s (co_local_config (fst x)) (snd x))
     \<and> (case co_config_dirty_since (fst x) of Some d \<Rightarrow> d \<le> horizon + (CONFIG_SAVE_RETRY - CONFIG_SAVE_DEBOUNCE) | None \<Rightarrow> True)"

lemma section_safe_settings: "settings_of a' = settings_of a \<Longrightarrow> section_safe lib keep s horizon (a', fs) = section_safe lib keep s horizon (a, fs)"
  by (simp add: section_safe_def settings_of_def pending_def notes_ok_def)

lemma section_safe_flush:
  assumes "\<And>t content. lb_print lib t = Some content \<Longrightarrow> lb_parse lib content = Some t"
    and "section_safe lib keep s horizon (a, fs)" "now \<le> horizon"
  shows "section_safe lib keep s horizon (flush_config lib env now a fs)"
proof (cases "co_config_dirty_since a = None")
  case True
  then show ?thesis using assms by (simp add: flush_config_def flush_config_with_def)
next
  case False
  obtain r fs1 where r: "config_save lib env (co_local_config a) (pending a) fs = (r, fs1)" by (rule prod.exhaust)
  obtain a' where a': "flush_config lib env now a fs = (a', fs1)" "settings_of a' = (co_shown a, co_local_config a,
      (case r of Inr _ \<Rightarrow> None | Inl _ \<Rightarrow> Some (now + (CONFIG_SAVE_RETRY - CONFIG_SAVE_DEBOUNCE))),
      (case r of Inr _ \<Rightarrow> [] | Inl _ \<Rightarrow> co_pending_save_notes a))"
    using flush_with_result [of a "config_save lib env", OF False r] unfolding flush_config_def by blast
  have p: "keep \<Longrightarrow> s \<in> set (pending a) \<or> in_sync (lb_parse lib) s (co_local_config a) fs" and n: "notes_ok a"
    using assms(2) by (simp_all add: section_safe_def)
  show ?thesis
  proof (cases r)
    case (Inr u)
    have "\<not> keep \<or> in_sync (lb_parse lib) s (co_local_config a) fs1"
      using saved_in_sync [OF assms(1) r [unfolded Inr] p] by blast
    then show ?thesis using a' Inr by (simp add: section_safe_def settings_of_def notes_ok_def)
  next
    case (Inl e)
    have "\<not> keep \<or> s \<in> set (pending a) \<or> in_sync (lb_parse lib) s (co_local_config a) fs1"
      using p failed_save_in_sync [OF r [unfolded Inl]] by blast
    then show ?thesis using a' Inl n False assms(3) by (auto simp: section_safe_def settings_of_def notes_ok_def pending_def)
  qed
qed

definition edit_ok :: "string \<Rightarrow> instant \<Rightarrow> companion \<Rightarrow> companion \<Rightarrow> bool" where
  "edit_ok s now a a' \<longleftrightarrow>
     settings_of a' = (co_shown a', co_local_config a, co_config_dirty_since a, co_pending_save_notes a)
     \<or> notes_ok a' \<and> co_config_dirty_since a' = Some now \<and> set (pending a) \<subseteq> set (pending a')
       \<and> (s \<in> set (pending a') \<or> map_of (local_table (co_local_config a')) s = map_of (local_table (co_local_config a)) s)"

lemma edit_ok_shown: "edit_ok s now a (a\<lparr>co_shown := sh\<rparr>)"
  by (simp add: edit_ok_def settings_of_def)

lemma edit_ok_mark:
  "s = g \<or> map_of (local_table c) s = map_of (local_table (co_local_config a)) s \<Longrightarrow>
   edit_ok s now a (mark_config_dirty now g note (a\<lparr>co_shown := sh, co_local_config := c\<rparr>))"
  by (auto simp: edit_ok_def mark_config_dirty_def notes_ok_def pending_def)

lemma edit_ok_setting: "edit_ok s now a (edit_setting show_f now e a)"
  by (cases e; simp only: edit_defs Let_def split: if_split; intro conjI impI edit_ok_shown edit_ok_mark;
      simp add: local_table_def)

lemma section_safe_edit:
  assumes "section_safe lib keep s horizon (a, fs)" "now \<le> horizon"
  shows "section_safe lib keep s horizon (edit_setting show_f now e a, fs)"
proof -
  let ?a = "edit_setting show_f now e a"
  from edit_ok_setting [of s now a show_f e] show ?thesis unfolding edit_ok_def
  proof
    assume "settings_of ?a = (co_shown ?a, co_local_config a, co_config_dirty_since a, co_pending_save_notes a)"
    then show ?thesis using assms by (simp add: section_safe_def settings_of_def pending_def notes_ok_def)
  next
    assume h: "notes_ok ?a \<and> co_config_dirty_since ?a = Some now \<and> set (pending a) \<subseteq> set (pending ?a)
      \<and> (s \<in> set (pending ?a) \<or> map_of (local_table (co_local_config ?a)) s = map_of (local_table (co_local_config a)) s)"
    have "in_sync (lb_parse lib) s (co_local_config ?a) fs"
      if "map_of (local_table (co_local_config ?a)) s = map_of (local_table (co_local_config a)) s" "in_sync (lb_parse lib) s (co_local_config a) fs"
      using in_sync_section [OF that(1)] that(2) by simp
    with h have "\<not> keep \<or> s \<in> set (pending ?a) \<or> in_sync (lb_parse lib) s (co_local_config ?a) fs"
      using assms(1) unfolding section_safe_def by auto
    then show ?thesis using h assms(2) by (simp add: section_safe_def)
  qed
qed

fun event_time :: "app_event \<Rightarrow> instant" where
  "event_time (Frame fr) = fr_now fr"
| "event_time (Edit now e) = now"
| "event_time (ResetClick env now) = now"
| "event_time (Exit env now) = now"
| "event_time _ = 0"

fun no_reset :: "app_event \<Rightarrow> bool" where
  "no_reset (ResetClick env now) = False"
| "no_reset _ = True"

lemma section_safe_step:
  assumes "\<And>t content. lb_print lib t = Some content \<Longrightarrow> lb_parse lib content = Some t"
    and "section_safe lib keep s horizon x" "no_reset e" "event_time e \<le> horizon"
  shows "section_safe lib keep s horizon (app_step lib e x)"
proof -
  obtain a fs where x: "x = (a, fs)" by (rule prod.exhaust)
  have same: "section_safe lib keep s horizon (a', fs)" if "settings_of a' = settings_of a" for a'
    using assms(2) section_safe_settings [OF that] by (simp add: x)
  show ?thesis
  proof (cases e)
    case (Frame fr)
    have "section_safe lib keep s horizon (before_flush lib fr a, fs)" by (simp add: same)
    then show ?thesis using section_safe_flush [OF assms(1)] assms(4)
      by (auto simp: x Frame update_def flush_config_if_due_def)
  next
    case (Edit now ed)
    then show ?thesis using assms section_safe_edit by (simp add: x)
  next
    case (Exit env now)
    obtain a' fs' where f: "flush_config lib env now a fs = (a', fs')" by (rule prod.exhaust)
    have "section_safe lib keep s horizon (a', fs')"
      using section_safe_flush [OF assms(1), of keep s horizon a fs now env] assms(2,4) by (simp add: x Exit f)
    then show ?thesis using section_safe_settings [of "a'\<lparr>co_sim_stopping := False\<rparr>" a'] by (simp add: x Exit on_exit_def f)
  qed (use assms(3) in \<open>simp_all add: x same\<close>)
qed

lemma section_safe_run:
  assumes "\<And>t content. lb_print lib t = Some content \<Longrightarrow> lb_parse lib content = Some t"
    and "section_safe lib keep s horizon x" "list_all (\<lambda>e. no_reset e \<and> event_time e \<le> horizon) es"
  shows "section_safe lib keep s horizon (app_run lib es x)"
  using assms(2,3) section_safe_step [OF assms(1)] by (induction es arbitrary: x) (simp_all add: app_run_def)


lemma companion_started: "with_config start demo simulate cfg = Some a \<Longrightarrow> section_safe lib False s horizon (a, fs)"
  by (auto simp: with_config_def section_safe_def notes_ok_def split: if_splits)

text \<open>
  C36. No change of a setting is lost: once its section was changed it waits to be saved or the file has every setting
  of the section as the companion has it, whatever saves fail, in every order of frames, edits, jobs and exits; and a
  frame five seconds after the last of them writes what is left, unless its own save fails.
\<close>

theorem settings_never_lost:
  assumes "\<And>t content. lb_print lib t = Some content \<Longrightarrow> lb_parse lib content = Some t"
    and "with_config start demo simulate cfg = Some a0"
    and "app_run lib es (a0, fs0) = (a1, fs1)" "s \<in> set (pending a1)"
    and "list_all (\<lambda>e. no_reset e \<and> event_time e \<le> horizon) (es @ es')"
    and "horizon + CONFIG_SAVE_RETRY \<le> fr_now fr"
  shows "let (a, fs) = app_run lib es' (a1, fs1);
       (a', fs') = app_step lib (Frame fr) (a, fs)
     in (if s \<in> set (pending a) then True else in_sync (lb_parse lib) s (co_local_config a) fs)
      \<and> (case fst (config_save lib (fr_env fr) (co_local_config a) (pending a) fs) of
           Inr _ \<Rightarrow> pending a' = [] \<and> co_local_config a' = co_local_config a \<and> in_sync (lb_parse lib) s (co_local_config a) fs'
         | Inl _ \<Rightarrow> True)"
proof -
  obtain a fs where run: "app_run lib es' (a1, fs1) = (a, fs)" by (rule prod.exhaust)
  have safe: "section_safe lib keep s horizon (app_run lib es x)"
    if "section_safe lib keep s horizon x" "list_all (\<lambda>e. no_reset e \<and> event_time e \<le> horizon) es" for keep es x
    using section_safe_run [OF assms(1) that] by blast
  have "section_safe lib False s horizon (a1, fs1)"
    using safe [OF companion_started [OF assms(2)], of es fs0] assms(3,5) by simp
  then have "section_safe lib True s horizon (a1, fs1)" using assms(4) by (simp add: section_safe_def)
  from safe [OF this, of es'] have ok: "section_safe lib True s horizon (a, fs)" using assms(5) run by simp
  let ?b = "before_flush lib fr a"
  have b: "co_config_dirty_since ?b = co_config_dirty_since a" "pending ?b = pending a" "co_local_config ?b = co_local_config a"
    "notes_ok ?b = notes_ok a"
    by (simp_all add: settings_same [OF settings_before_flush])
  have frame: "pending a' = [] \<and> co_local_config a' = co_local_config a \<and> in_sync (lb_parse lib) s (co_local_config a) fs'"
    if st: "app_step lib (Frame fr) (a, fs) = (a', fs')" and sv: "config_save lib (fr_env fr) (co_local_config a) (pending a) fs = (Inr u, fs2)"
    for a' fs' u fs2
  proof (cases "co_config_dirty_since a")
    case None
    then have "pending a = []" using ok by (simp add: section_safe_def notes_ok_def pending_def)
    then show ?thesis using st ok b None by (simp add: update_def flush_config_if_due_def config_save_due_def section_safe_def)
  next
    case (Some d)
    then have "d \<le> horizon + (CONFIG_SAVE_RETRY - CONFIG_SAVE_DEBOUNCE)" using ok by (simp add: section_safe_def)
    then have "CONFIG_SAVE_DEBOUNCE \<le> fr_now fr - d"
      using assms(6) by (simp add: CONFIG_SAVE_RETRY_def CONFIG_SAVE_DEBOUNCE_def)
    then have due: "flush_config lib (fr_env fr) (fr_now fr) ?b fs = (a', fs')"
      using st b Some by (simp add: update_def flush_config_if_due_def config_save_due_def)
    obtain a2 where a2: "flush_config lib (fr_env fr) (fr_now fr) ?b fs = (a2, fs2)"
        "settings_of a2 = (co_shown ?b, co_local_config ?b, None, [])"
      using flush_with_result [of ?b "config_save lib (fr_env fr)" fs "Inr u" fs2] sv b Some unfolding flush_config_def by auto
    have "in_sync (lb_parse lib) s (co_local_config a) fs2"
      using saved_in_sync [OF assms(1) sv, of s] ok by (auto simp: section_safe_def)
    then show ?thesis using a2 due b by (simp add: settings_of_def pending_def)
  qed
  obtain a' fs' where st: "app_step lib (Frame fr) (a, fs) = (a', fs')" by (rule prod.exhaust)
  obtain r fs2 where sv: "config_save lib (fr_env fr) (co_local_config a) (pending a) fs = (r, fs2)" by (rule prod.exhaust)
  have "s \<in> set (pending a) \<or> in_sync (lb_parse lib) s (co_local_config a) fs" using ok by (simp add: section_safe_def)
  with frame [OF st] sv show ?thesis unfolding run st sv prod.case Let_def fst_conv by (auto split: sum.split)
qed


definition good_save :: save_env where
  "good_save = \<lparr>se_ops = \<lparr>op_read = True, op_copy = True, op_mkdir = True, op_write = True, op_rename = True\<rparr>,
     se_known = True, se_copied = True, se_legacy = None, se_error = []\<rparr>"

definition saved_table :: "setting table" where
  "saved_table = [(''video'', Table [(''codec'', Leaf (SStr ''h264''))])]"

definition sample_libs :: app_libs where
  "sample_libs = \<lparr>lb_sin = id, lb_json = \<lambda>_. None, lb_show = \<lambda>_. [],
     lb_parse = (\<lambda>content. if content = ''saved'' then Some saved_table else None),
     lb_print = (\<lambda>t. if t = saved_table then Some ''saved'' else None)\<rparr>"

definition sample_frame :: "instant \<Rightarrow> frame_input" where
  "sample_frame t = \<lparr>fr_now = t, fr_spawned = True,
     fr_source = \<lparr>src_has_dir = False, src_mtime = None, src_wall = 0, src_contents = None\<rparr>,
     fr_sim_start = Inl [], fr_stop_finished = False, fr_env = good_save\<rparr>"

definition sample_app :: companion where
  "sample_app = the (with_config (20 * nanos_per_sec) False False local_default)"

theorem settings_never_lost_witness:
  "let (a, fs) = app_run sample_libs [Edit 20000000001 (EditCodec ''h264'')] (sample_app, \<lparr>lf_file = None, lf_backup = None\<rparr>);
       (a', fs') = app_step sample_libs (Frame (sample_frame 30000000000)) (a, fs)
   in pending a = [''video''] \<and> pending a' = [] \<and> in_sync (lb_parse sample_libs) ''video'' (co_local_config a) fs'"
proof -
  let ?e = "Edit 20000000001 (EditCodec ''h264'')" and ?fs = "\<lparr>lf_file = None, lf_backup = None\<rparr>"
  let ?a = "mark_config_dirty 20000000001 ''video'' (str ''Codec set to h264. Restart engine to apply.'')
    (sample_app\<lparr>co_shown := local_default\<lparr>lc_codec := ''h264''\<rparr>, co_local_config := local_default\<lparr>lc_codec := ''h264''\<rparr>\<rparr>)"
  have w: "with_config 20000000000 False False local_default = Some sample_app"
    by (simp add: sample_app_def with_config_def)
  have sh: "co_shown sample_app = local_default" "co_local_config sample_app = local_default" "co_pending_save_notes sample_app = []"
    by (simp_all add: sample_app_def with_config_def)
  have ed: "app_run sample_libs [?e] (sample_app, ?fs) = (?a, ?fs)"
    by (simp add: app_run_def sh local_default_def edit_codec_def)
  have p: "pending ?a = [''video'']" "co_local_config ?a = local_default\<lparr>lc_codec := ''h264''\<rparr>"
    by (simp_all add: pending_def mark_config_dirty_def sh)
  have merged: "merge_tables [] (filter (\<lambda>(section, _). section \<in> set [''video'']) (local_table (local_default\<lparr>lc_codec := ''h264''\<rparr>))) = saved_table"
    by (simp add: merge_tables_def local_table_def saved_table_def entry_table_def)
  have sv: "config_save sample_libs good_save (local_default\<lparr>lc_codec := ''h264''\<rparr>) [''video''] ?fs
      = (Inr (), \<lparr>lf_file = Some ''saved'', lf_backup = None\<rparr>)"
    using merged
    by (simp add: config_save_def io_result_def save_def user_file_def save_to_def read_table_def write_table_def good_save_def
        sample_libs_def Let_def)
  have rt: "lb_parse sample_libs content = Some t" if "lb_print sample_libs t = Some content" for t content
    using that by (simp add: sample_libs_def split: if_splits)
  have fr: "fr_env (sample_frame 30000000000) = good_save" "fr_now (sample_frame 30000000000) = 30000000000"
    by (simp_all add: sample_frame_def)
  have m: "''video'' \<in> set (pending ?a)" unfolding p(1) by simp
  have l: "list_all (\<lambda>e. no_reset e \<and> event_time e \<le> 20000000001) ([?e] @ [])" by simp
  have t: "20000000001 + CONFIG_SAVE_RETRY \<le> fr_now (sample_frame 30000000000)" by (simp add: fr CONFIG_SAVE_RETRY_def)
  have n: "app_run sample_libs [] x = x" for x by (simp add: app_run_def)
  obtain a' fs' where st: "app_step sample_libs (Frame (sample_frame 30000000000)) (?a, ?fs) = (a', fs')" by (rule prod.exhaust)
  note saved = settings_never_lost [OF rt w ed m l t, unfolded n st Let_def prod.case p fr sv fst_conv sum.case]
  then show ?thesis unfolding ed st Let_def prod.case p by blast
qed

section \<open>The state stays well-formed\<close>

text \<open>
  The log has at most 100 lines, the three series are equally long and of at most 30 samples, notes are pending exactly
  while the settings are dirty and each for a section of its own, and there is never a simulation beside one that stops.
\<close>

definition notes_wf :: "companion \<Rightarrow> bool" where
  "notes_wf a \<longleftrightarrow> notes_ok a \<and> distinct (pending a) \<and> set (pending a) \<subseteq> set SECTIONS"

definition world_wf :: "companion \<Rightarrow> bool" where
  "world_wf a \<longleftrightarrow>
     length (co_status_log a) \<le> 100
     \<and> (co_sim a = None \<or> \<not> co_sim_stopping a)
     \<and> sh_max_points (co_stats_history a) = 30
     \<and> length (sh_latency_ms (co_stats_history a)) \<le> 30
     \<and> length (sh_fps (co_stats_history a)) = length (sh_latency_ms (co_stats_history a))
     \<and> length (sh_packet_loss (co_stats_history a)) = length (sh_latency_ms (co_stats_history a))"

lemma push_ring_length: "length (push_ring buf v n) = (if n \<le> length buf then max 1 (length buf) else length buf + 1)"
  by (auto simp: push_ring_def Let_def max_def)

lemma world_app_log [simp]: "world_wf a \<Longrightarrow> world_wf (app_log m a)"
  by (auto simp: world_wf_def app_log_def Let_def)

lemma world_fields [simp]:
  "world_wf (a\<lparr>co_deploy_result := r, co_deploy_status := m, co_deploy_in_progress := b\<rparr>) = world_wf a"
  "world_wf (a\<lparr>co_pairing_result := p, co_pairing_in_progress := b, co_pairing_status := m\<rparr>) = world_wf a"
  "world_wf (a\<lparr>co_export_result := r, co_export_in_progress := b\<rparr>) = world_wf a"
  "world_wf (a\<lparr>co_sim_error := r\<rparr>) = world_wf a"
  "world_wf (a\<lparr>co_sim_autostart := b\<rparr>) = world_wf a"
  "world_wf (a\<lparr>co_config_save_failing := b\<rparr>) = world_wf a"
  "world_wf (a\<lparr>co_reset_confirm_until := t\<rparr>) = world_wf a"
  "world_wf (a\<lparr>co_local_config := c, co_config_dirty_since := d, co_pending_save_notes := ns, co_shown := w\<rparr>) = world_wf a"
  "world_wf (a\<lparr>co_config_dirty_since := d, co_pending_save_notes := ns\<rparr>) = world_wf a"
  "world_wf (a\<lparr>co_pending_save_notes := ns, co_config_dirty_since := d\<rparr>) = world_wf a"
  by (simp_all add: world_wf_def)

lemma world_log_notes [simp]: "world_wf a \<Longrightarrow> world_wf (fold (\<lambda>(_, note). app_log note) ns a)"
  by (induction ns arbitrary: a) (simp_all add: split_beta)

lemma world_polls [simp]:
  "world_wf (scan_devices spawned now a) = world_wf a"
  "world_wf (apply_stale_status a) = world_wf a"
  "world_wf (scan_ended outcome a) = world_wf a"
  "world_wf (fst (send_pin_click a)) = world_wf a"
  "world_wf (fst (deploy_click apk_exists a)) = world_wf a"
  "world_wf (fst (export_click a)) = world_wf a"
  by (auto simp: world_wf_def scan_devices_def apply_stale_status_def scan_ended_def send_pin_click_def
      send_pin_to_headset_def deploy_click_def export_click_def Let_def split: option.split scan_job.split)

lemma world_parsed [simp]:
  assumes "world_wf a"
  shows "world_wf (apply_parsed_status now parsed a)"
proof -
  let ?h = "co_stats_history a"
  have "length (sh_latency_ms (history_push l f p ?h)) \<le> 30 \<and> sh_max_points (history_push l f p ?h) = 30
      \<and> length (sh_fps (history_push l f p ?h)) = length (sh_latency_ms (history_push l f p ?h))
      \<and> length (sh_packet_loss (history_push l f p ?h)) = length (sh_latency_ms (history_push l f p ?h))" for l f p
    using assms by (simp add: world_wf_def history_push_def push_ring_length)
  then show ?thesis using assms
    by (auto simp: apply_parsed_status_def world_wf_def Let_def split: connection_status.split option.split)
qed

lemma world_read [simp]: "world_wf a \<Longrightarrow> world_wf (read_engine_status sin_of from_str src now a)"
proof -
  assume a: "world_wf a"
  have "world_wf (a\<lparr>co_last_status_read := t\<rparr>)" "world_wf (a\<lparr>co_last_status_read := t, co_engine_alive := b\<rparr>)" for t b
    using a by (simp_all add: world_wf_def)
  then show ?thesis using a by (simp add: read_engine_status_def Let_def split: option.split)
qed

lemma world_answers [simp]:
  "world_wf a \<Longrightarrow> world_wf (check_deploy_result a)"
  "world_wf a \<Longrightarrow> world_wf (check_pairing_result a)"
  "world_wf a \<Longrightarrow> world_wf (check_export_result a)"
  by (simp_all add: check_deploy_result_def check_pairing_result_def check_export_result_def Let_def split: option.split)

lemma world_sim [simp]:
  "world_wf a \<Longrightarrow> world_wf (start_sim outcome a)"
  "world_wf a \<Longrightarrow> world_wf (stop_sim spawned a)"
  "world_wf a \<Longrightarrow> world_wf (reap_sim_stop finished a)"
  "world_wf a \<Longrightarrow> world_wf (take_sim_error a)"
proof -
  assume a: "world_wf a"
  have "world_wf (a\<lparr>co_sim_error := None, co_sim := Some s\<rparr>)" if "\<not> co_sim_stopping a" for s
    using a that by (simp add: world_wf_def)
  then show "world_wf (start_sim outcome a)" using a by (auto simp: start_sim_def split: sum.split)
  have "world_wf (a\<lparr>co_sim := None, co_sim_stopping := b\<rparr>)" "world_wf (a\<lparr>co_sim := None\<rparr>)" for b
    using a by (simp_all add: world_wf_def)
  then show "world_wf (stop_sim spawned a)" using a by (simp add: stop_sim_def Let_def)
  have "world_wf (a\<lparr>co_sim_stopping := False\<rparr>)" using a by (simp add: world_wf_def)
  then show "world_wf (reap_sim_stop finished a)" using a by (simp add: reap_sim_stop_def)
  show "world_wf (take_sim_error a)" using a by (simp add: take_sim_error_def split: option.split)
qed

lemma world_flush [simp]: "world_wf a \<Longrightarrow> world_wf (fst (flush_config lib env now a fs))"
  by (cases "config_save lib env (co_local_config a) (map fst (co_pending_save_notes a)) fs"; cases "fst (config_save lib env (co_local_config a) (map fst (co_pending_save_notes a)) fs)")
    (simp_all add: flush_config_def flush_config_with_def Let_def)

lemma world_edit [simp]: "world_wf a \<Longrightarrow> world_wf (edit_setting show_f now e a)"
proof -
  assume a: "world_wf a"
  then have s: "world_wf (a\<lparr>co_shown := w\<rparr>)" for w by (simp add: world_wf_def)
  have m: "world_wf (mark_config_dirty now g msg (a\<lparr>co_shown := w, co_local_config := c\<rparr>))" for g msg w c
    using a by (simp add: world_wf_def mark_config_dirty_def)
  show ?thesis by (cases e; simp only: edit_defs Let_def split: if_split; intro conjI impI s m)
qed

lemma world_before_flush [simp]: "world_wf a \<Longrightarrow> world_wf (before_flush lib fr a)"
  by (simp add: before_flush_def Let_def)

lemma world_step: "world_wf (fst x) \<Longrightarrow> world_wf (fst (app_step lib e x))"
proof -
  assume w: "world_wf (fst x)"
  obtain a fs where x: "x = (a, fs)" by (rule prod.exhaust)
  have a: "world_wf a" using w by (simp add: x)
  show ?thesis
  proof (cases e)
    case (ResetClick env now)
    then show ?thesis using a
      by (simp add: x reset_click_def reset_to_defaults_def Let_def split: prod.split sum.split)
  next
    case (Exit env now)
    have "world_wf (b\<lparr>co_sim_stopping := False\<rparr>)" if "world_wf b" for b using that by (simp add: world_wf_def)
    with world_flush [OF a, of lib env now fs] show ?thesis
      by (cases "flush_config lib env now a fs") (simp add: x Exit on_exit_def)
  next
    case (SimFails m)
    then show ?thesis using a by (simp add: x world_wf_def)
  next
    case (PairingEnds m)
    then show ?thesis using a by (simp add: x world_wf_def)
  next
    case (DeployEnds m)
    then show ?thesis using a by (simp add: x world_wf_def)
  next
    case (ExportEnds m)
    then show ?thesis using a by (simp add: x world_wf_def)
  next
    case (Frame fr)
    then show ?thesis using a by (simp add: x update_def flush_config_if_due_def)
  qed (use a in \<open>simp_all add: x\<close>)
qed


lemma notes_settings: "settings_of a' = settings_of a \<Longrightarrow> notes_wf a' = notes_wf a"
  by (simp add: notes_wf_def settings_of_def pending_def notes_ok_def)

lemma notes_wf_flush: "notes_wf a \<Longrightarrow> notes_wf (fst (flush_config lib env now a fs))"
proof (cases "co_config_dirty_since a")
  case (Some d)
  assume n: "notes_wf a"
  obtain r fs1 where r: "config_save lib env (co_local_config a) (pending a) fs = (r, fs1)" by (rule prod.exhaust)
  obtain a' where "flush_config lib env now a fs = (a', fs1)" "settings_of a' = (co_shown a, co_local_config a,
      (case r of Inr _ \<Rightarrow> None | Inl _ \<Rightarrow> Some (now + (CONFIG_SAVE_RETRY - CONFIG_SAVE_DEBOUNCE))),
      (case r of Inr _ \<Rightarrow> [] | Inl _ \<Rightarrow> co_pending_save_notes a))"
    using flush_with_result [of a "config_save lib env" fs r fs1 now] r Some unfolding flush_config_def by blast
  then show ?thesis using n Some
    by (cases r) (simp_all add: notes_wf_def notes_ok_def pending_def settings_of_def)
qed (simp add: flush_config_def flush_config_with_def)

lemma notes_wf_edit: "notes_wf a \<Longrightarrow> notes_wf (edit_setting show_f now e a)"
proof -
  assume n: "notes_wf a"
  have "distinct (map fst (filter (\<lambda>(g, _). g \<noteq> k) (co_pending_save_notes a)))" for k
    using n by (auto simp: notes_wf_def pending_def intro: distinct_map_filter)
  then have m: "notes_wf (mark_config_dirty now g msg (a\<lparr>co_shown := w, co_local_config := c\<rparr>))" if "g \<in> set SECTIONS" for g msg w c
    using n that by (auto simp: notes_wf_def notes_ok_def pending_def mark_config_dirty_def)
  have s: "notes_wf (a\<lparr>co_shown := w\<rparr>)" for w using n by (simp add: notes_wf_def notes_ok_def pending_def)
  show ?thesis
    by (cases e; simp only: edit_defs Let_def split: if_split; intro conjI impI s m; simp add: SECTIONS_def)
qed

lemma notes_wf_reset: "notes_wf a \<Longrightarrow> notes_wf (fst (reset_click lib env now a fs))"
proof -
  assume n: "notes_wf a"
  let ?a = "a\<lparr>co_local_config := local_default, co_config_dirty_since := None, co_pending_save_notes := [], co_shown := local_default\<rparr>"
  have k: "notes_wf b" if "settings_of b = settings_of ?a" for b
    unfolding notes_settings [OF that] by (simp add: notes_wf_def notes_ok_def pending_def)
  have m: "notes_wf b" if "settings_of b = settings_of a" for b using notes_settings [OF that] n by simp
  show ?thesis
    by (simp add: reset_click_def reset_to_defaults_def Let_def k m split: prod.split sum.split)
qed

lemma notes_wf_step: "notes_wf (fst x) \<Longrightarrow> notes_wf (fst (app_step lib e x))"
proof -
  assume w: "notes_wf (fst x)"
  obtain a fs where x: "x = (a, fs)" by (rule prod.exhaust)
  have a: "notes_wf a" using w by (simp add: x)
  have same: "notes_wf b" if "settings_of b = settings_of a" for b using notes_settings [OF that] a by simp
  show ?thesis
  proof (cases e)
    case (Frame fr)
    then show ?thesis by (simp add: x update_def flush_config_if_due_def same notes_wf_flush)
  next
    case (Exit env now)
    have "notes_wf (b\<lparr>co_sim_stopping := False\<rparr>)" if "notes_wf b" for b using notes_settings [of "b\<lparr>co_sim_stopping := False\<rparr>" b] that by simp
    with notes_wf_flush [OF a, of lib env now fs] show ?thesis
      by (cases "flush_config lib env now a fs") (simp add: x Exit on_exit_def)
  qed (use a in \<open>simp_all add: x same notes_wf_edit notes_wf_reset\<close>)
qed

text \<open>
  C38. The companion's state stays well-formed whatever happens: the log keeps 100 lines, the three series of the last 30
  seconds are equally long, there is never a simulation beside one that is still stopping, and a save is due exactly
  while changed sections wait, each once and each one a section of \<open>local.toml\<close>.
\<close>

theorem companion_wellformed:
  assumes "with_config start demo simulate cfg = Some a"
  shows "notes_wf (fst (app_run lib es (a, fs))) \<and> world_wf (fst (app_run lib es (a, fs)))"
proof -
  have "notes_wf a \<and> world_wf a"
    using assms by (auto simp: with_config_def notes_wf_def notes_ok_def pending_def world_wf_def history_new_def split: if_splits)
  then have "notes_wf (fst (a, fs)) \<and> world_wf (fst (a, fs))" by simp
  then show ?thesis unfolding app_run_def
    by (induction es arbitrary: a fs rule: rev_induct) (simp_all add: notes_wf_step world_step)
qed

theorem companion_wellformed_witness:
  "list_all (\<lambda>es. world_wf (fst (app_run sample_libs es (sample_app, \<lparr>lf_file = None, lf_backup = None\<rparr>))))
     [[], [StartSim (Inr ()), StopSim True, StartSim (Inr ())]]"
  using companion_wellformed [of "20 * nanos_per_sec" False False local_default sample_app sample_libs]
  by (simp add: sample_app_def with_config_def)

section \<open>What the window shows\<close>

definition expiry_known :: "(string \<Rightarrow> instant) \<Rightarrow> duration \<Rightarrow> instant \<Rightarrow> string \<Rightarrow> companion \<Rightarrow> bool" where
  "expiry_known expiry D t pin a \<longleftrightarrow> co_connection a = WaitingForPin \<and> co_pin_code a = pin
     \<and> (case (co_pin_expires_in_seconds a, co_pin_expires_observed_at a) of
          (Some v, Some seen) \<Rightarrow> seen \<le> t \<and> (\<exists>counted. counted \<le> seen \<and> seen \<le> counted + D
            \<and> unat v = (expiry pin - counted) div nanos_per_sec)
        | _ \<Rightarrow> False)"

lemma expiry_known_poll:
  assumes "counted \<le> t" "t \<le> counted + D" "st_connection p = WaitingForPin"
    "st_pin_expires p = Some (of_nat ((expiry (st_pin p) - counted) div nanos_per_sec))"
    "(expiry (st_pin p) - counted) div nanos_per_sec < 2 ^ 32"
    and "co_pin_expires_in_seconds a = None \<or> expiry_known expiry D t0 pin a" "t0 \<le> t"
  shows "expiry_known expiry D t (st_pin p) (apply_parsed_status t p a)"
proof -
  let ?new = "of_nat ((expiry (st_pin p) - counted) div nanos_per_sec) :: u32"
  have u: "unat ?new = (expiry (st_pin p) - counted) div nanos_per_sec" using assms(5) by (simp add: unat_of_nat)
  have fresh: "expiry_known expiry D t (st_pin p) (b\<lparr>co_connection := WaitingForPin, co_engine_ports := ports,
      co_pin_expires_in_seconds := Some ?new, co_pin_expires_observed_at := Some t, co_pin_code := st_pin p\<rparr>)" for b ports
    unfolding expiry_known_def using u assms(1,2) by auto
  have kept: "expiry_known expiry D t (st_pin p) (a\<lparr>co_connection := WaitingForPin, co_engine_ports := ports, co_pin_code := st_pin p\<rparr>)"
    if "co_pin_expires_in_seconds a = Some old" "st_pin p = co_pin_code a" for ports old
    using that assms(6,7) by (auto simp: expiry_known_def split: option.splits)
  show ?thesis
    using fresh [where b = a] kept assms(3,4) by (auto simp: apply_parsed_status_def Let_def split: option.split)
qed

lemma countdown_arith:
  fixes E w0 t0 now D s :: nat
  assumes "w0 \<le> t0" "t0 \<le> w0 + D" "t0 \<le> now" "0 < s"
  defines "v \<equiv> (E - w0) div s" and "e \<equiv> (now - t0) div s"
  shows "E < now + (v - e + 1) * s" "v - e = 0 \<or> now + (v - e) * s < E + D + s"
proof -
  have v: "v * s \<le> E - w0" "E - w0 < v * s + s" and e: "e * s \<le> now - t0" "now - t0 < e * s + s"
    using dividend_less_div_times [OF assms(4)] by (simp_all add: v_def e_def add.commute)
  show "E < now + (v - e + 1) * s"
  proof (cases "e \<le> v")
    case True
    then have "(v - e + 1) * s + e * s = v * s + s" by (simp flip: add_mult_distrib)
    then show ?thesis using v e assms(1-3) by linarith
  next
    case False
    then have "(v + 1) * s \<le> e * s" by (intro mult_right_mono) simp_all
    then show ?thesis using False v e assms(1-3) by simp
  qed
  show "v - e = 0 \<or> now + (v - e) * s < E + D + s"
  proof (cases "e < v")
    case True
    then have "(v - e) * s + e * s = v * s" by (simp flip: add_mult_distrib)
    moreover have "1 * s \<le> v * s" using True by (intro mult_right_mono) simp_all
    ultimately show ?thesis using v e assms by linarith
  qed simp
qed

lemma expiry_known_shown:
  assumes "expiry_known expiry D t pin a" "t \<le> now" "now < 2 ^ 32 * nanos_per_sec"
  shows "pin_text a = pin \<and> (\<exists>left. pin_remaining now a = Some left
    \<and> expiry pin < now + (unat left + 1) * nanos_per_sec
    \<and> (left = 0 \<or> now + unat left * nanos_per_sec < expiry pin + D + nanos_per_sec))"
proof -
  obtain v seen counted where k: "co_pin_expires_in_seconds a = Some v" "co_pin_expires_observed_at a = Some seen" "seen \<le> t"
      "counted \<le> seen" "seen \<le> counted + D" "unat v = (expiry pin - counted) div nanos_per_sec"
    using assms(1) by (auto simp: expiry_known_def split: option.splits)
  let ?e = "(now - seen) div nanos_per_sec"
  have "?e < 2 ^ 32" using assms(3) by (simp add: less_mult_imp_div_less)
  then have ue: "unat (of_nat ?e :: u32) = ?e" by (simp add: unat_of_nat)
  define left where "left = (if (of_nat ?e :: u32) \<le> v then v - of_nat ?e else 0)"
  have ul: "unat left = unat v - ?e"
    unfolding left_def using ue by (auto simp: word_le_nat_alt unat_sub)
  have "pin_remaining now a = Some left" using k by (simp add: pin_remaining_def left_def Let_def)
  moreover have "pin_text a = pin" using assms(1) by (simp add: expiry_known_def pin_text_def)
  moreover have "seen \<le> now" "0 < nanos_per_sec" using k(3) assms(2) by simp_all
  note bounds = countdown_arith [OF k(4,5) this, of "expiry pin", folded k(6), folded ul]
  moreover have "left = 0 \<longleftrightarrow> unat left = 0" by (simp add: unat_eq_0)
  ultimately show ?thesis by auto
qed

text \<open>
  C37. The time left of a PIN is right to the second: while polls bring the PIN's expiry as the engine counted it at most
  \<open>D\<close> before, the countdown shown is at most one second short and at most \<open>D\<close> and one second long, however
  irregular the polls and through any change of the PIN.
\<close>

theorem countdown_exact:
  assumes "list_all (\<lambda>(t, counted, p). counted \<le> t \<and> t \<le> counted + D \<and> st_connection p = WaitingForPin
      \<and> st_pin_expires p = Some (of_nat ((expiry (st_pin p) - counted) div nanos_per_sec))
      \<and> (expiry (st_pin p) - counted) div nanos_per_sec < 2 ^ 32) polls"
    and "polls \<noteq> []" "sorted (map fst polls)" "fst (last polls) \<le> now" "now < 2 ^ 32 * nanos_per_sec"
    and "co_pin_expires_in_seconds a = None"
  shows "let b = fold (\<lambda>(t, _, p). apply_parsed_status t p) polls a in
     pin_text b = st_pin (snd (snd (last polls)))
     \<and> (case pin_remaining now b of None \<Rightarrow> False
        | Some left \<Rightarrow> expiry (pin_text b) < now + (unat left + 1) * nanos_per_sec
            \<and> (left = 0 \<or> now + unat left * nanos_per_sec < expiry (pin_text b) + D + nanos_per_sec))"
proof -
  have "expiry_known expiry D (fst (last polls)) (st_pin (snd (snd (last polls)))) (fold (\<lambda>(t, _, p). apply_parsed_status t p) polls a)"
    using assms(1-3,6)
  proof (induction polls rule: rev_induct)
    case (snoc x xs)
    obtain t counted p where x: "x = (t, counted, p)" by (metis prod.exhaust)
    let ?b = "fold (\<lambda>(t, _, p). apply_parsed_status t p) xs a"
    have b: "co_pin_expires_in_seconds ?b = None \<or> expiry_known expiry D (if xs = [] then t else fst (last xs)) (st_pin (snd (snd (last xs)))) ?b"
      using snoc by (cases "xs = []") (simp_all add: sorted_append)
    have "(if xs = [] then t else fst (last xs)) \<le> t" using snoc.prems(3) by (auto simp: x sorted_append)
    moreover have "counted \<le> t" "t \<le> counted + D" "st_connection p = WaitingForPin"
        "st_pin_expires p = Some (of_nat ((expiry (st_pin p) - counted) div nanos_per_sec))"
        "(expiry (st_pin p) - counted) div nanos_per_sec < 2 ^ 32"
      using snoc.prems(1) by (simp_all add: x)
    ultimately show ?case using expiry_known_poll [OF _ _ _ _ _ b, of counted t p] by (simp add: x)
  qed simp
  from expiry_known_shown [OF this assms(4,5)] show ?thesis by (auto simp: Let_def)
qed

definition sample_poll :: "nat \<Rightarrow> u32 \<Rightarrow> instant \<times> instant \<times> parsed_status" where
  "sample_poll t v = (t * nanos_per_sec, t * nanos_per_sec,
     parsed_default\<lparr>st_connection := WaitingForPin, st_pin := ''847251'', st_pin_expires := Some v\<rparr>)"

theorem countdown_exact_witness:
  "let b = fold (\<lambda>(t, _, p). apply_parsed_status t p) [sample_poll 30 290, sample_poll 31 289, sample_poll 35 285] sample_app
   in pin_text b = ''847251'' \<and> pin_remaining (36 * nanos_per_sec) b = Some 284"
proof -
  let ?polls = "[sample_poll 30 290, sample_poll 31 289, sample_poll 35 285]"
  let ?b = "fold (\<lambda>(t, _, p). apply_parsed_status t p) ?polls sample_app"
  have ok: "list_all (\<lambda>(t, counted, p). counted \<le> t \<and> t \<le> counted + 0 \<and> st_connection p = WaitingForPin
      \<and> st_pin_expires p = Some (of_nat ((320 * nanos_per_sec - counted) div nanos_per_sec))
      \<and> (320 * nanos_per_sec - counted) div nanos_per_sec < 2 ^ 32) ?polls"
    by (simp add: sample_poll_def)
  have st: "co_pin_expires_in_seconds sample_app = None" by (simp add: sample_app_def with_config_def)
  have "let b = ?b in pin_text b = st_pin (snd (snd (last ?polls)))
     \<and> (case pin_remaining (36 * nanos_per_sec) b of None \<Rightarrow> False
        | Some left \<Rightarrow> 320 * nanos_per_sec < 36 * nanos_per_sec + (unat left + 1) * nanos_per_sec
            \<and> (left = 0 \<or> 36 * nanos_per_sec + unat left * nanos_per_sec < 320 * nanos_per_sec + 0 + nanos_per_sec))"
    by (rule countdown_exact [where expiry = "\<lambda>_. 320 * nanos_per_sec", OF ok _ _ _ _ st]) (simp_all add: sample_poll_def)
  then obtain left where l: "pin_text ?b = ''847251''" "pin_remaining (36 * nanos_per_sec) ?b = Some left"
      "284 \<le> unat left" "left = 0 \<or> unat left < 285"
    unfolding Let_def by (cases "pin_remaining (36 * nanos_per_sec) ?b") (simp_all add: sample_poll_def)
  then have "unat left = unat (284 :: u32)" by auto
  then have "left = 284" by (simp only: word_unat_eq_iff)
  with l show ?thesis by simp
qed

text \<open>
  C4. Nothing of a dead engine is shown: a poll that finds \<open>status.json\<close> missing or five seconds old leaves no
  connection, no PIN, no countdown and nothing to send to the headset.
\<close>

theorem stale_not_shown:
  assumes "nanos_per_sec \<le> now - co_last_status_read a" "\<not> co_demo_mode a" "src_has_dir src"
    and "case src_mtime src of None \<Rightarrow> True | Some t \<Rightarrow> t + ENGINE_STALE_THRESHOLD \<le> src_wall src"
  shows "let b = read_engine_status sin_of from_str src now a in
     \<not> co_engine_alive b \<and> pin_text b = ''----'' \<and> countdown later b = None \<and> snd (send_pin_click b) = None"
  using assms
  by (auto simp: read_engine_status_def is_status_fresh_def ENGINE_STALE_THRESHOLD_def Let_def apply_stale_status_def pin_text_def
      countdown_def pin_remaining_def send_pin_click_def split: option.splits)

theorem stale_not_shown_witness:
  "let b = read_engine_status id (\<lambda>_. None) \<lparr>src_has_dir = True, src_mtime = Some 1, src_wall = 6 * nanos_per_sec, src_contents = Some []\<rparr>
       (30 * nanos_per_sec) (sample_app\<lparr>co_connection := WaitingForPin, co_pin_code := ''847251''\<rparr>)
   in \<not> co_engine_alive b \<and> pin_text b = ''----''"
  using stale_not_shown [of "30 * nanos_per_sec" "sample_app\<lparr>co_connection := WaitingForPin, co_pin_code := ''847251''\<rparr>"
      "\<lparr>src_has_dir = True, src_mtime = Some 1, src_wall = 6 * nanos_per_sec, src_contents = Some []\<rparr>" id "\<lambda>_. None" 0]
  by (simp add: sample_app_def with_config_def ENGINE_STALE_THRESHOLD_def Let_def)

end
